(* ===== verification/Ntt_Prelude.thy ===== *)
theory Ntt_Prelude
  imports Main "HOL-Library.Word" "HOL-Library.Monad_Syntax" "HOL-Library.Multiset"
begin

text \<open>
  Shared vocabulary of the development: the machine integers, the build environment
  (assertions and the allocator), flat C arrays whose cells may be uninitialised, and the
  lemmas on words, lists and arrays that the component theories rewrite with.

  A computation that may abort is a value of an \<open>option\<close> type: \<open>None\<close> is an aborted process
  (a failed \<open>assert\<close>, \<open>ntt_die\<close>), an access the C code must not make (a cell outside an
  array, a cell never written) or, for a loop written with \<open>partial_function\<close>, a loop that
  does not return. Theorems that an operation returns \<open>Some\<close> exclude all of them at once.
\<close>

unbundle bit_operations_syntax

section \<open>Machine integers\<close>

type_synonym u8 = "8 word"
type_synonym u32 = "32 word"
type_synonym u64 = "64 word"

section \<open>The build environment\<close>

text \<open>
  \<open>ndebug\<close> says whether the library is built with \<open>NDEBUG\<close>, which removes every \<open>assert\<close>;
  \<open>can_alloc n\<close> says whether the allocator of the C library serves a request of \<open>n\<close> bytes.
\<close>

record env =
  ndebug :: bool
  can_alloc :: "u64 \<Rightarrow> bool"

definition env_ok :: "env \<Rightarrow> bool" where
  "env_ok env \<longleftrightarrow> (\<forall>n. can_alloc env n)"

definition ntt_assert :: "env \<Rightarrow> bool \<Rightarrow> unit option" where
  "ntt_assert env b = (if ndebug env \<or> b then Some () else None)"

definition ntt_die :: "'a option" where
  "ntt_die = None"

section \<open>Flat arrays\<close>

text \<open>
  An allocated C array: one cell per element, \<open>None\<close> for a cell that was never written.
\<close>

type_synonym 'a carray = "'a option list"

definition arr_read :: "'a carray \<Rightarrow> u32 \<Rightarrow> 'a option" where
  "arr_read a i = (if unat i < length a then a ! unat i else None)"

definition arr_write :: "'a carray \<Rightarrow> u32 \<Rightarrow> 'a \<Rightarrow> 'a carray option" where
  "arr_write a i x = (if unat i < length a then Some (a[unat i := Some x]) else None)"

definition resize :: "'a carray \<Rightarrow> nat \<Rightarrow> 'a carray" where
  "resize a n = take n a @ replicate (n - length a) None"

text \<open>
  \<open>ntt_realloc_or_die\<close> on an array of \<open>n\<close> elements of \<open>sz\<close> bytes each: the cells both
  arrays have keep their contents, the others are uninitialised.
\<close>

definition ntt_realloc_or_die :: "env \<Rightarrow> 'a carray \<Rightarrow> u64 \<Rightarrow> u32 \<Rightarrow> 'a carray option" where
  "ntt_realloc_or_die env a sz n =
     (if can_alloc env (sz * ucast n) then Some (resize a (unat n)) else ntt_die)"

section \<open>Collections\<close>

named_theorems word_nat \<open>unsigned words read as natural numbers\<close>
named_theorems c_monad \<open>aborting computations\<close>

section \<open>Words as natural numbers\<close>

lemmas word_cmp_nat [word_nat] = word_less_nat_alt word_le_nat_alt

lemma unat_u32_bound [simp]: "unat (x :: u32) < 4294967296"
  using unsigned_less [of x] by simp

lemma unat_add_noflow [word_nat]:
  fixes a b :: u32
  assumes "unat a + unat b < 4294967296"
  shows "unat (a + b) = unat a + unat b"
  using assms by (subst unat_add_lem [symmetric]) simp

lemma unat_mult_noflow [word_nat]:
  fixes a b :: u32
  assumes "unat a * unat b < 4294967296"
  shows "unat (a * b) = unat a * unat b"
  using assms by (subst unat_mult_lem [symmetric]) simp

lemma unat_add64_noflow [word_nat]:
  fixes a b :: u64
  assumes "unat a + unat b < 18446744073709551616"
  shows "unat (a + b) = unat a + unat b"
  using assms by (subst unat_add_lem [symmetric]) simp

lemma unat_sub_noflow [word_nat]:
  fixes a b :: u32
  assumes "unat b \<le> unat a"
  shows "unat (a - b) = unat a - unat b"
  using assms by (simp add: unat_sub word_le_nat_alt)

lemma unat_half [word_nat]: "unat (a div (2 :: u32)) = unat a div 2"
  by (simp add: unat_div)

lemma unat_pred_half:
  fixes a :: u32
  assumes "0 < unat a"
  shows "unat ((a - 1) div 2) = (unat a - 1) div 2"
proof -
  have "unat (a - 1) = unat a - 1"
    using assms by (simp add: unat_sub_noflow)
  then show ?thesis by (simp add: unat_half)
qed

lemma unat_succ_below:
  fixes a b :: u32
  assumes "unat a < unat b"
  shows "unat (a + 1) = unat a + 1"
proof -
  have "unat a + 1 < 4294967296" using assms unat_u32_bound [of b] by linarith
  then show ?thesis by (simp add: unat_add_noflow)
qed

lemma unat_ucast64 [simp]: "unat (ucast (x :: u32) :: u64) = unat x"
proof -
  have "unat x < 18446744073709551616" using unat_u32_bound [of x] by linarith
  then show ?thesis by (simp add: unsigned_ucast_eq take_bit_nat_eq_self)
qed

lemma unat_left:
  assumes "unat (pos :: u32) < 1073741824"
  shows "unat (pos * 2 + 1) = 2 * unat pos + 1" "unat (pos * 2 + 1 + 1) = 2 * unat pos + 2"
proof -
  have m: "unat (pos * 2) = 2 * unat pos" using assms by (simp add: unat_mult_noflow)
  then show l: "unat (pos * 2 + 1) = 2 * unat pos + 1" using assms by (simp add: unat_add_noflow)
  show "unat (pos * 2 + 1 + 1) = 2 * unat pos + 2"
    using assms l by (subst unat_add_noflow) simp_all
qed

lemma unat_eq_zero_iff [simp]: "unat (a :: u32) = 0 \<longleftrightarrow> a = 0"
  by (rule unat_0_iff)

lemma unat_max_u32: "unat (- 1 :: u32) = 4294967295"
  by (simp add: unat_eq_nat_uint uint_word_ariths)

section \<open>Aborting computations\<close>

lemma ntt_assert_True [c_monad, simp]: "b \<Longrightarrow> ntt_assert env b = Some ()"
  by (simp add: ntt_assert_def)

lemma ntt_assert_debug: "\<not> ndebug env \<Longrightarrow> ntt_assert env b = (if b then Some () else None)"
  by (simp add: ntt_assert_def)

lemma ntt_assert_release: "ndebug env \<Longrightarrow> ntt_assert env b = Some ()"
  by (simp add: ntt_assert_def)

lemma ntt_assert_SomeD: "ntt_assert env b = Some u \<Longrightarrow> ndebug env \<or> b"
  by (simp add: ntt_assert_def split: if_splits)

lemma env_okD [simp]: "env_ok env \<Longrightarrow> can_alloc env n"
  by (simp add: env_ok_def)

section \<open>Arrays with an initialised prefix\<close>

lemma arr_read_prefix [c_monad]:
  assumes "a = map Some xs @ rest" "unat i < length xs"
  shows "arr_read a i = Some (xs ! unat i)"
  using assms by (simp add: arr_read_def nth_append)

lemma arr_write_prefix [c_monad]:
  assumes "a = map Some xs @ rest" "unat i < length xs"
  shows "arr_write a i x = Some (map Some (xs[unat i := x]) @ rest)"
  using assms by (simp add: arr_write_def list_update_append map_update)

lemma arr_write_next:
  assumes "a = map Some xs @ rest" "unat i = length xs" "rest \<noteq> []"
  shows "arr_write a i x = Some (map Some (xs @ [x]) @ tl rest)"
proof -
  obtain r rs where r: "rest = r # rs" using assms(3) by (cases rest) auto
  show ?thesis
    using assms(1,2) by (simp add: arr_write_def r list_update_append)
qed

lemma length_resize [simp]: "length (resize a n) = n"
  by (simp add: resize_def)

lemma resize_prefix:
  assumes "a = map Some xs @ rest" "length xs \<le> n"
  shows "resize a n = map Some xs @ resize rest (n - length xs)"
  using assms by (simp add: resize_def min_absorb2)

lemma resize_noop: "length a \<le> n \<Longrightarrow> take (length a) (resize a n) = a"
  by (simp add: resize_def)

lemma nth_resize: "i < length a \<Longrightarrow> i < n \<Longrightarrow> resize a n ! i = a ! i"
  by (simp add: resize_def nth_append)

section \<open>Words used as counters\<close>

lemma and_one_odd [simp]: "(v :: u32) AND 1 = 1 \<longleftrightarrow> odd v" "(v :: u32) AND 1 = 0 \<longleftrightarrow> even v"
  by (simp_all add: and_one_eq odd_iff_mod_2_eq_one even_iff_mod_2_eq_zero)

lemma unat_eq_iff [simp]: "unat (a :: u32) = unat b \<longleftrightarrow> a = b"
  by (simp add: word_unat_eq_iff)

lemma word_less_succ: "v + 1 \<noteq> 0 \<Longrightarrow> v < v + (1 :: u32)"
  using unatSuc [of v] by (simp add: word_less_nat_alt add.commute)

lemma even_less_succ: "even v \<Longrightarrow> v < v + (1 :: u32)"
  by (rule word_less_succ) (metis dvd_0_right even_add odd_one)

lemma unat_pred: "0 < unat (a :: u32) \<Longrightarrow> unat (a - 1) = unat a - 1"
  by (simp add: unat_sub_noflow)

section \<open>Lists and maps\<close>

lemma take_add_prefix:
  assumes "take (m + n) a = us @ vs" "length us = m"
  shows "take m a = us"
proof -
  have "take m a = take m (take (m + n) a)" by simp
  then show ?thesis using assms by simp
qed

lemma map_eqI: "(\<And>t v. f t = Some v \<longleftrightarrow> g t = Some v) \<Longrightarrow> f = g"
  by (rule ext) (metis not_None_eq)

lemma sort_mset_cong: "mset xs = mset ys \<Longrightarrow> sort xs = sort (ys :: 'a :: linorder list)"
  by (rule properties_for_sort) auto

lemma sort_Cons_min:
  fixes v :: "'a :: linorder"
  assumes "mset xs = add_mset v (mset ys)" "\<And>w. w \<in> set ys \<Longrightarrow> v \<le> w"
  shows "sort xs = v # sort ys"
  by (rule properties_for_sort) (use assms in auto)

lemma const_upd: "(\<lambda>_. c)(i := c) = (\<lambda>_. c)"
  by (rule fun_upd_idem) simp

end
