(* ===== verification/Binary_Heap.thy ===== *)
theory Binary_Heap
  imports Ntt_Prelude
begin

text \<open>
  Implicit binary min-heaps on lists, with the comparison as a parameter: what the timer heap
  and the heap of the timer service have in common. An element is not swapped along its path
  but carried in the hand while the entries on the path move (\<open>hole_up\<close>, \<open>hole_down\<close>), as
  both C files do it. The contract of the comparison is the locale \<open>heap_order\<close>.
\<close>

section \<open>Sifting\<close>

fun hole_up :: "('a \<Rightarrow> 'a \<Rightarrow> bool) \<Rightarrow> 'a list \<Rightarrow> nat \<Rightarrow> 'a \<Rightarrow> 'a list" where
  "hole_up lt xs i x =
     (if i = 0 then xs[0 := x]
      else if lt x (xs ! ((i - 1) div 2))
      then hole_up lt (xs[i := xs ! ((i - 1) div 2)]) ((i - 1) div 2) x
      else xs[i := x])"

definition min_child :: "('a \<Rightarrow> 'a \<Rightarrow> bool) \<Rightarrow> 'a list \<Rightarrow> nat \<Rightarrow> nat" where
  "min_child lt xs i =
     (if 2 * i + 2 < length xs \<and> lt (xs ! (2 * i + 2)) (xs ! (2 * i + 1))
      then 2 * i + 2 else 2 * i + 1)"

function hole_down :: "('a \<Rightarrow> 'a \<Rightarrow> bool) \<Rightarrow> 'a list \<Rightarrow> nat \<Rightarrow> 'a \<Rightarrow> 'a list" where
  "hole_down lt xs i x =
     (if 2 * i + 1 < length xs \<and> lt (xs ! min_child lt xs i) x
      then hole_down lt (xs[i := xs ! min_child lt xs i]) (min_child lt xs i) x
      else xs[i := x])"
  by pat_completeness auto
termination
  by (relation "measure (\<lambda>(lt, xs, i, x). length xs - i)") (auto simp: min_child_def)

declare hole_up.simps [simp del] hole_down.simps [simp del]

text \<open>Floyd's construction: the inner nodes are sifted down from the last one to the root.\<close>

primrec floyd :: "('a \<Rightarrow> 'a \<Rightarrow> bool) \<Rightarrow> 'a list \<Rightarrow> nat \<Rightarrow> 'a list" where
  "floyd lt xs 0 = xs"
| "floyd lt xs (Suc i) = floyd lt (hole_down lt xs i (xs ! i)) i"

text \<open>Removing the root: the last element is sifted down from the root's place.\<close>

definition pop_min :: "('a \<Rightarrow> 'a \<Rightarrow> bool) \<Rightarrow> 'a list \<Rightarrow> 'a list" where
  "pop_min lt xs =
     (if length xs \<le> 1 then [] else hole_down lt (butlast xs) 0 (last xs))"

section \<open>The heap order\<close>

text \<open>Every parent above or at position \<open>k\<close> does not come after its children.\<close>

definition heap_from :: "('a \<Rightarrow> 'a \<Rightarrow> bool) \<Rightarrow> nat \<Rightarrow> 'a list \<Rightarrow> bool" where
  "heap_from lt k xs \<longleftrightarrow>
     (\<forall>i < length xs. 0 < i \<longrightarrow> k \<le> (i - 1) div 2 \<longrightarrow> \<not> lt (xs ! i) (xs ! ((i - 1) div 2)))"

abbreviation is_heap :: "('a \<Rightarrow> 'a \<Rightarrow> bool) \<Rightarrow> 'a list \<Rightarrow> bool" where
  "is_heap lt xs \<equiv> heap_from lt 0 xs"

text \<open>
  A heap but for the entry at \<open>k\<close>, which may come before its parent (\<open>up_hole\<close>) or after
  its children (\<open>down_hole\<close>, where only parents from \<open>m\<close> on are looked at). In both cases the
  children of \<open>k\<close> do not come before the parent of \<open>k\<close>.
\<close>

definition grand_ok :: "('a \<Rightarrow> 'a \<Rightarrow> bool) \<Rightarrow> nat \<Rightarrow> nat \<Rightarrow> 'a list \<Rightarrow> bool" where
  "grand_ok lt m k xs \<longleftrightarrow>
     (0 < k \<longrightarrow> m \<le> (k - 1) div 2 \<longrightarrow>
      (\<forall>c < length xs. 0 < c \<longrightarrow> (c - 1) div 2 = k \<longrightarrow> \<not> lt (xs ! c) (xs ! ((k - 1) div 2))))"

definition up_hole :: "('a \<Rightarrow> 'a \<Rightarrow> bool) \<Rightarrow> nat \<Rightarrow> 'a list \<Rightarrow> bool" where
  "up_hole lt k xs \<longleftrightarrow>
     (\<forall>i < length xs. 0 < i \<longrightarrow> i \<noteq> k \<longrightarrow> \<not> lt (xs ! i) (xs ! ((i - 1) div 2))) \<and>
     grand_ok lt 0 k xs"

definition down_hole :: "('a \<Rightarrow> 'a \<Rightarrow> bool) \<Rightarrow> nat \<Rightarrow> nat \<Rightarrow> 'a list \<Rightarrow> bool" where
  "down_hole lt m k xs \<longleftrightarrow>
     (\<forall>i < length xs. 0 < i \<longrightarrow> m \<le> (i - 1) div 2 \<longrightarrow> (i - 1) div 2 \<noteq> k \<longrightarrow>
        \<not> lt (xs ! i) (xs ! ((i - 1) div 2))) \<and>
     grand_ok lt m k xs"

section \<open>Facts that need no order\<close>

lemma length_hole_up [simp]: "length (hole_up lt xs i x) = length xs"
proof (induction lt xs i x rule: hole_up.induct)
  case (1 lt xs i x)
  then show ?case by (subst hole_up.simps) simp
qed

lemma length_hole_down [simp]: "length (hole_down lt xs i x) = length xs"
proof (induction lt xs i x rule: hole_down.induct)
  case (1 lt xs i x)
  then show ?case by (subst hole_down.simps) simp
qed

lemma length_floyd [simp]: "length (floyd lt xs i) = length xs"
  by (induction i arbitrary: xs) simp_all

lemma length_pop_min [simp]: "length (pop_min lt xs) = length xs - 1"
  by (simp add: pop_min_def)

lemma min_child_bounds:
  assumes "2 * i + 1 < length xs"
  shows "min_child lt xs i < length xs" "i < min_child lt xs i"
    "(min_child lt xs i - 1) div 2 = i"
  using assms by (auto simp: min_child_def)

lemma parent_less: "0 < n \<Longrightarrow> (n - 1) div 2 < (n :: nat)"
  by auto

lemma children_cases:
  fixes c i :: nat
  assumes "(c - 1) div 2 = i" "0 < c"
  shows "c = 2 * i + 1 \<or> c = 2 * i + 2"
  using assms by auto

lemma mset_move:
  assumes "i < length xs" "j < length xs" "i \<noteq> j"
  shows "mset ((xs[i := xs ! j])[j := x]) = mset (xs[i := x])"
proof -
  have "(xs[i := xs ! j])[j := x] = (xs[i := x])[i := (xs[i := x]) ! j, j := (xs[i := x]) ! i]"
    using assms by (simp add: list_update_swap)
  moreover have "mset ((xs[i := x])[i := (xs[i := x]) ! j, j := (xs[i := x]) ! i])
      = mset (xs[i := x])"
    by (rule mset_swap) (use assms in simp_all)
  ultimately show ?thesis by simp
qed

lemma mset_hole_up:
  "i < length xs \<Longrightarrow> mset (hole_up lt xs i x) = mset (xs[i := x])"
proof (induction lt xs i x rule: hole_up.induct)
  case (1 lt xs i x)
  let ?p = "(i - 1) div 2"
  show ?case
  proof (cases "i \<noteq> 0 \<and> lt x (xs ! ?p)")
    case True
    then have "?p < i" by auto
    with True "1.prems" "1.IH" show ?thesis
      by (subst hole_up.simps) (simp add: mset_move)
  next
    case False
    then show ?thesis by (subst hole_up.simps) auto
  qed
qed

lemma mset_hole_down:
  "i < length xs \<Longrightarrow> mset (hole_down lt xs i x) = mset (xs[i := x])"
proof (induction lt xs i x rule: hole_down.induct)
  case (1 lt xs i x)
  let ?c = "min_child lt xs i"
  show ?case
  proof (cases "2 * i + 1 < length xs \<and> lt (xs ! ?c) x")
    case True
    with min_child_bounds [of i xs lt] have "?c < length xs" "i \<noteq> ?c" by auto
    with True "1.prems" "1.IH" show ?thesis
      by (subst hole_down.simps) (simp add: mset_move)
  next
    case False
    then show ?thesis by (subst hole_down.simps) auto
  qed
qed

lemma mset_floyd: "i \<le> length xs \<Longrightarrow> mset (floyd lt xs i) = mset xs"
  by (induction i arbitrary: xs) (simp_all add: mset_hole_down)

lemma mset_pop_min:
  assumes "xs \<noteq> []"
  shows "mset (pop_min lt xs) = mset xs - {# xs ! 0 #}"
proof (cases "length xs \<le> 1")
  case True
  with assms obtain x where "xs = [x]"
    by (cases xs) auto
  then show ?thesis by (simp add: pop_min_def)
next
  case False
  then obtain y ys where ys: "butlast xs = y # ys"
    by (cases "butlast xs") (auto simp: butlast_conv_take)
  from assms have xs: "xs = butlast xs @ [last xs]" by simp
  have "mset xs = mset (butlast xs @ [last xs])" using xs by simp
  also have "\<dots> = add_mset (last xs) (add_mset y (mset ys))" by (simp add: ys)
  finally have m: "mset xs = add_mset y (add_mset (last xs) (mset ys))"
    by (simp add: add_mset_commute)
  have "xs ! 0 = y" by (subst xs) (simp add: ys)
  with False m show ?thesis
    by (simp add: pop_min_def mset_hole_down ys)
qed

section \<open>The contract of the comparison\<close>

text \<open>
  What both comparisons promise: a strict weak order. The lemmas of the locale are the heap
  theorems, proved once and used by both heaps through their interpretations.
\<close>

locale heap_order =
  fixes lt :: "'a \<Rightarrow> 'a \<Rightarrow> bool"
  assumes lt_irrefl: "\<not> lt x x"
    and lt_trans: "lt x y \<Longrightarrow> lt y z \<Longrightarrow> lt x z"
    and not_lt_trans: "\<not> lt x y \<Longrightarrow> \<not> lt y z \<Longrightarrow> \<not> lt x z"
begin

lemma lt_asym: "lt x y \<Longrightarrow> \<not> lt y x"
  using lt_irrefl lt_trans by blast

lemma heap_root_min:
  assumes "is_heap lt xs" "i < length xs"
  shows "\<not> lt (xs ! i) (xs ! 0)"
  using assms(2)
proof (induction i rule: less_induct)
  case (less i)
  show ?case
  proof (cases "i = 0")
    case True
    then show ?thesis by (simp add: lt_irrefl)
  next
    case False
    then have p: "(i - 1) div 2 < i" by auto
    with less have "\<not> lt (xs ! ((i - 1) div 2)) (xs ! 0)" by simp
    moreover have "\<not> lt (xs ! i) (xs ! ((i - 1) div 2))"
      using assms(1) less.prems False by (simp add: heap_from_def)
    ultimately show ?thesis using not_lt_trans by blast
  qed
qed

lemma min_child_least:
  assumes "2 * i + 1 < length xs" "c < length xs" "0 < c" "(c - 1) div 2 = i"
  shows "\<not> lt (xs ! c) (xs ! min_child lt xs i)"
  using children_cases [OF assms(4,3)] assms(1,2)
  by (auto simp: min_child_def lt_irrefl dest: lt_asym)

lemma up_hole_step:
  assumes up: "up_hole lt i (xs[i := x])" and i: "i < length xs" "0 < i"
    and lt: "lt x (xs ! ((i - 1) div 2))"
  shows "up_hole lt ((i - 1) div 2) ((xs[i := xs ! ((i - 1) div 2)])[(i - 1) div 2 := x])"
proof -
  let ?p = "(i - 1) div 2"
  let ?zs = "(xs[i := xs ! ?p])[?p := x]"
  have p: "?p < i" "?p < length xs" using i by auto
  have old: "\<not> lt (xs ! j) (xs ! ((j - 1) div 2))"
    if "j < length xs" "0 < j" "j \<noteq> i" "(j - 1) div 2 \<noteq> i" for j
    using up that by (auto simp: up_hole_def)
  have kids: "\<not> lt (xs ! c) (xs ! ?p)" if "c < length xs" "0 < c" "(c - 1) div 2 = i" for c
  proof -
    have "c \<noteq> i" using that by auto
    with up i p that show ?thesis by (auto simp: up_hole_def grand_ok_def)
  qed
  have "\<not> lt (?zs ! j) (?zs ! ((j - 1) div 2))" if j: "j < length xs" "0 < j" "j \<noteq> ?p" for j
  proof -
    consider "j = i" | "j \<noteq> i" "(j - 1) div 2 = i" | "j \<noteq> i" "(j - 1) div 2 = ?p"
      | "j \<noteq> i" "(j - 1) div 2 \<noteq> i" "(j - 1) div 2 \<noteq> ?p" by blast
    then show ?thesis
    proof cases
      case 1
      then show ?thesis using i p lt lt_asym by simp
    next
      case 2
      then show ?thesis using j i p kids by simp
    next
      case 3
      then have "\<not> lt (xs ! j) (xs ! ?p)" using old [of j] j p by simp
      then show ?thesis using 3 j i p lt lt_trans by auto
    next
      case 4
      then show ?thesis using j i p old [of j] by simp
    qed
  qed
  moreover have "grand_ok lt 0 ?p ?zs"
  proof -
    have "\<not> lt (?zs ! c) (?zs ! ((?p - 1) div 2))"
      if c: "0 < ?p" "c < length xs" "0 < c" "(c - 1) div 2 = ?p" for c
    proof -
      have less: "(?p - 1) div 2 < ?p" "c \<noteq> ?p" using c parent_less by auto
      have pp: "\<not> lt (xs ! ?p) (xs ! ((?p - 1) div 2))"
        using old [of ?p] c p less by linarith
      show ?thesis
      proof (cases "c = i")
        case True
        then show ?thesis using pp less i p by simp
      next
        case False
        then have "\<not> lt (xs ! c) (xs ! ?p)" using old [of c] c p by simp
        then have "\<not> lt (xs ! c) (xs ! ((?p - 1) div 2))" using pp not_lt_trans by blast
        then show ?thesis using False less c i p by simp
      qed
    qed
    then show ?thesis by (simp add: grand_ok_def)
  qed
  ultimately show ?thesis by (simp add: up_hole_def)
qed

lemma up_hole_close:
  assumes "up_hole lt i ys" "i = 0 \<or> \<not> lt (ys ! i) (ys ! ((i - 1) div 2))"
  shows "is_heap lt ys"
  using assms by (auto simp: up_hole_def heap_from_def)

lemma hole_up_heap:
  "i < length xs \<Longrightarrow> up_hole lt i (xs[i := x]) \<Longrightarrow> is_heap lt (hole_up lt xs i x)"
proof (induction i arbitrary: xs rule: less_induct)
  case (less i)
  let ?p = "(i - 1) div 2"
  show ?case
  proof (cases "i \<noteq> 0 \<and> lt x (xs ! ?p)")
    case True
    then have "?p < i" by auto
    moreover have "up_hole lt ?p ((xs[i := xs ! ?p])[?p := x])"
      by (rule up_hole_step) (use less.prems True in auto)
    ultimately have "is_heap lt (hole_up lt (xs[i := xs ! ?p]) ?p x)"
      using less.IH less.prems by simp
    then show ?thesis using True by (subst hole_up.simps) simp
  next
    case False
    then have "is_heap lt (xs[i := x])"
      using less.prems by (intro up_hole_close [of i]) auto
    then show ?thesis using False by (subst hole_up.simps) auto
  qed
qed

lemma down_hole_step:
  assumes down: "down_hole lt m i (xs[i := x])" and i: "i < length xs" "m \<le> i"
    and l: "2 * i + 1 < length xs" and lt: "lt (xs ! min_child lt xs i) x"
  shows "down_hole lt m (min_child lt xs i)
           ((xs[i := xs ! min_child lt xs i])[min_child lt xs i := x])"
proof -
  let ?c = "min_child lt xs i"
  let ?zs = "(xs[i := xs ! ?c])[?c := x]"
  note c = min_child_bounds [OF l, of lt]
  have c0: "0 < ?c" using c by auto
  have old: "\<not> lt (xs ! j) (xs ! ((j - 1) div 2))"
    if "j < length xs" "0 < j" "m \<le> (j - 1) div 2" "(j - 1) div 2 \<noteq> i" "j \<noteq> i" for j
    using down that by (auto simp: down_hole_def)
  have "\<not> lt (?zs ! j) (?zs ! ((j - 1) div 2))"
    if j: "j < length xs" "0 < j" "m \<le> (j - 1) div 2" "(j - 1) div 2 \<noteq> ?c" for j
  proof -
    consider "j = ?c" | "j \<noteq> ?c" "(j - 1) div 2 = i" | "j = i"
      | "j \<noteq> ?c" "j \<noteq> i" "(j - 1) div 2 \<noteq> i" by blast
    then show ?thesis
    proof cases
      case 1
      then show ?thesis using c i lt lt_asym by simp
    next
      case 2
      then have "j \<noteq> i" using j by auto
      then show ?thesis using 2 j c i min_child_least [OF l, of j] by simp
    next
      case 3
      then have "(i - 1) div 2 < i" using j by auto
      moreover have "\<not> lt ((xs[i := x]) ! ?c) ((xs[i := x]) ! ((i - 1) div 2))"
        using down 3 j c c0 by (auto simp: down_hole_def grand_ok_def)
      ultimately show ?thesis using 3 c i by simp
    next
      case 4
      then show ?thesis using j c i old [of j] by simp
    qed
  qed
  moreover have "grand_ok lt m ?c ?zs"
  proof -
    have "\<not> lt (?zs ! d) (?zs ! i)" if d: "d < length xs" "0 < d" "(d - 1) div 2 = ?c" for d
    proof -
      have "d \<noteq> i" "d \<noteq> ?c" using d c by auto
      then show ?thesis using d c i old [of d] by simp
    qed
    then show ?thesis using c by (simp add: grand_ok_def)
  qed
  ultimately show ?thesis by (simp add: down_hole_def)
qed

lemma down_hole_close:
  assumes "down_hole lt m i (xs[i := x])" "i < length xs"
    and "2 * i + 1 < length xs \<Longrightarrow> \<not> lt (xs ! min_child lt xs i) x"
  shows "heap_from lt m (xs[i := x])"
  unfolding heap_from_def
proof (intro allI impI)
  fix j assume j: "j < length (xs[i := x])" "0 < j" "m \<le> (j - 1) div 2"
  show "\<not> lt (xs[i := x] ! j) (xs[i := x] ! ((j - 1) div 2))"
  proof (cases "(j - 1) div 2 = i")
    case True
    then have l: "2 * i + 1 < length xs" and "j \<noteq> i" using j by auto
    have "\<not> lt (xs ! j) (xs ! min_child lt xs i)"
      using min_child_least [OF l, of j] j True by simp
    then have "\<not> lt (xs ! j) x" using assms(3) [OF l] not_lt_trans by blast
    then show ?thesis using True \<open>j \<noteq> i\<close> assms(2) by simp
  next
    case False
    then show ?thesis using assms(1) j by (simp add: down_hole_def)
  qed
qed

lemma hole_down_heap:
  "i < length xs \<Longrightarrow> m \<le> i \<Longrightarrow> down_hole lt m i (xs[i := x]) \<Longrightarrow>
   heap_from lt m (hole_down lt xs i x)"
proof (induction "length xs - i" arbitrary: xs i rule: less_induct)
  case less
  let ?c = "min_child lt xs i"
  show ?case
  proof (cases "2 * i + 1 < length xs \<and> lt (xs ! ?c) x")
    case True
    note c = min_child_bounds [of i xs lt]
    have "down_hole lt m ?c ((xs[i := xs ! ?c])[?c := x])"
      by (rule down_hole_step) (use less.prems True in auto)
    then have "heap_from lt m (hole_down lt (xs[i := xs ! ?c]) ?c x)"
      using less.prems True c by (intro less.hyps) auto
    then show ?thesis using True by (subst hole_down.simps) simp
  next
    case False
    then have "heap_from lt m (xs[i := x])"
      using less.prems by (intro down_hole_close) auto
    then show ?thesis using False by (subst hole_down.simps) auto
  qed
qed

lemma push_heap:
  assumes "is_heap lt xs"
  shows "is_heap lt (hole_up lt (xs @ [y]) (length xs) x)"
proof (rule hole_up_heap)
  show "length xs < length (xs @ [y])" by simp
  have "\<not> lt ((xs @ [x]) ! i) ((xs @ [x]) ! ((i - 1) div 2))"
    if "i < length (xs @ [x])" "0 < i" "i \<noteq> length xs" for i
  proof -
    have "i < length xs" "(i - 1) div 2 < length xs" using that by auto
    with assms that show ?thesis by (simp add: heap_from_def nth_append)
  qed
  then show "up_hole lt (length xs) ((xs @ [y])[length xs := x])"
    by (auto simp: up_hole_def grand_ok_def)
qed

lemma pop_min_heap:
  assumes "is_heap lt xs"
  shows "is_heap lt (pop_min lt xs)"
proof (cases "length xs \<le> 1")
  case True
  then show ?thesis by (simp add: pop_min_def heap_from_def)
next
  case False
  have "down_hole lt 0 0 ((butlast xs)[0 := last xs])"
    unfolding down_hole_def
  proof (intro conjI allI impI)
    fix i assume i: "i < length ((butlast xs)[0 := last xs])" "0 < i" "(i - 1) div 2 \<noteq> 0"
    then have "(i - 1) div 2 < length (butlast xs)" by auto
    with i assms show "\<not> lt ((butlast xs)[0 := last xs] ! i)
        ((butlast xs)[0 := last xs] ! ((i - 1) div 2))"
      by (simp add: heap_from_def nth_butlast)
  qed (simp add: grand_ok_def)
  with False show ?thesis by (simp add: pop_min_def hole_down_heap)
qed

lemma floyd_heap:
  "k \<le> length xs \<Longrightarrow> heap_from lt k xs \<Longrightarrow> is_heap lt (floyd lt xs k)"
proof (induction k arbitrary: xs)
  case 0
  then show ?case by simp
next
  case (Suc k)
  have "down_hole lt k k (xs[k := xs ! k])"
    using Suc.prems(2) by (auto simp: down_hole_def grand_ok_def heap_from_def)
  then have "heap_from lt k (hole_down lt xs k (xs ! k))"
    using Suc.prems(1) by (intro hole_down_heap) auto
  then show ?case using Suc by simp
qed

lemma floyd_half_heap: "is_heap lt (floyd lt xs (length xs div 2))"
  by (rule floyd_heap) (auto simp: heap_from_def)

end

end
