(* ===== verification/Ntt_Task.thy ===== *)
theory Ntt_Task
  imports Ntt_Prelude
begin

text \<open>
  Nodes of intrusive lists (\<open>src/src/node.h\<close>) and tasks (\<open>src/src/task.h\<close>, \<open>src/src/task.c\<close>).

  Pointers are machine addresses, with \<open>NULL\<close> as \<open>0\<close>. A task is known to its users by the
  address of its payload; the task node, whose first member is the list node, starts
  \<open>task_payload_offset\<close> bytes before it, which is what \<open>ntt_container_of\<close> computes. What the
  callbacks of a task do is user code: a call is recorded as an event, and an operation that
  runs user code which may call back takes the effect of that code as a parameter.
\<close>

section \<open>Nodes\<close>

type_synonym ptr = u64

abbreviation NULL :: ptr where
  "NULL \<equiv> 0"

record ntt_node =
  nd_next :: ptr
  nd_prev :: ptr

text \<open>The memory the nodes live in, one node for each address a node is placed at.\<close>

type_synonym nmem = "ptr \<Rightarrow> ntt_node"

text \<open>
  The relaxed and the acquiring load read the same value, and so do the relaxed and the
  releasing store write the same one: what differs is the ordering they impose on other
  threads, which is not part of this memory.
\<close>

definition ntt_node_next :: "nmem \<Rightarrow> ptr \<Rightarrow> ptr" where
  "ntt_node_next m self = nd_next (m self)"

definition ntt_node_set_next :: "nmem \<Rightarrow> ptr \<Rightarrow> ptr \<Rightarrow> nmem" where
  "ntt_node_set_next m self nxt = m(self := (m self)\<lparr>nd_next := nxt\<rparr>)"

definition node_set_prev :: "nmem \<Rightarrow> ptr \<Rightarrow> ptr \<Rightarrow> nmem" where
  "node_set_prev m self p = m(self := (m self)\<lparr>nd_prev := p\<rparr>)"

definition ntt_node_init :: "nmem \<Rightarrow> ptr \<Rightarrow> nmem" where
  "ntt_node_init m self = ntt_node_set_next m self NULL"

definition ntt_node_unlinked :: "nmem \<Rightarrow> ptr \<Rightarrow> bool" where
  "ntt_node_unlinked m self \<longleftrightarrow> \<not> ntt_node_next m self \<noteq> NULL"

section \<open>Tasks\<close>

datatype ntt_task_action = NTT_TASK_RUN | NTT_TASK_DROP

text \<open>
  The layout of \<open>ntt_task_node_t\<close>: the node of two pointers, two callbacks, the payload.
\<close>

definition task_payload_offset :: ptr where
  "task_payload_offset = 32"

definition task_node_of :: "ptr \<Rightarrow> ptr" where
  "task_node_of task = task - task_payload_offset"

definition task_of_node :: "ptr \<Rightarrow> ptr" where
  "task_of_node node = node + task_payload_offset"

text \<open>What happens to a task: its callback is called, or its node is released.\<close>

datatype task_event =
    Callback ptr ntt_task_action
  | FreeNode ptr

definition ntt_task_unlinked :: "nmem \<Rightarrow> ptr \<Rightarrow> bool" where
  "ntt_task_unlinked m self = ntt_node_unlinked m (task_node_of self)"

definition ntt_task_svc_inl :: "ptr \<Rightarrow> task_event list" where
  "ntt_task_svc_inl task = [Callback task NTT_TASK_RUN]"

definition ntt_task_destroy_inl :: "ptr \<Rightarrow> task_event list" where
  "ntt_task_destroy_inl task = [Callback task NTT_TASK_DROP, FreeNode (task_node_of task)]"

section \<open>Lemmas\<close>

lemma task_node_of_inverse [simp]:
  "task_node_of (task_of_node n) = n" "task_of_node (task_node_of t) = t"
  by (simp_all add: task_node_of_def task_of_node_def)

end
