(* ===== verification/Timer_Heap.thy ===== *)
theory Timer_Heap
  imports Binary_Heap Ntt_Task
begin

text \<open>
  The timer heap of a queue: \<open>src/src/timer_heap.h\<close> and \<open>src/src/timer_heap.c\<close>, with the
  timer tags of \<open>src/include/ntt/timer.h\<close>. Definitions only; the invariant and the lemmas are
  in the theories that import this one.

  \<open>th_heap\<close> and \<open>th_slots\<close> are the two allocated arrays, as long as their capacities. Loops
  whose word arithmetic may wrap around and run forever are partial functions.
\<close>

unbundle bit_operations_syntax

section \<open>Data\<close>

definition NTT_TIMER_MIN_CAPACITY :: u32 where
  "NTT_TIMER_MIN_CAPACITY = 8"

definition NTT_TIMER_SLOT_NONE :: u32 where
  "NTT_TIMER_SLOT_NONE = 0xFFFFFFFF"

record ntt_timer_tag =
  tag_index :: u32
  tag_version :: u32

definition ntt_timer_tag_null :: ntt_timer_tag where
  "ntt_timer_tag_null = \<lparr>tag_index = 0, tag_version = 0\<rparr>"

definition ntt_timer_tag_is_null :: "ntt_timer_tag \<Rightarrow> bool" where
  "ntt_timer_tag_is_null tag \<longleftrightarrow> tag_version tag = 0"

record ntt_timer_heap_elem =
  te_deadline :: u64
  te_seq :: u64
  te_index :: u32
  te_version :: u32

text \<open>
  A field that is an \<open>option\<close> is one a fresh slot does not initialise: \<open>None\<close> until it is
  first written.
\<close>

record ntt_timer_slot =
  ts_task :: "ptr option"
  ts_version :: u32
  ts_next_free :: "u32 option"

record ntt_timer_heap =
  th_heap :: "ntt_timer_heap_elem carray"
  th_heap_cap :: u32
  th_slots :: "ntt_timer_slot carray"
  th_slot_cap :: u32
  th_size :: u32
  th_tombstones :: u32
  th_slot_cnt :: u32
  th_free_head :: u32
  th_seq_next :: u64

section \<open>Access\<close>

definition ntt_timer_heap_elem_at :: "env \<Rightarrow> ntt_timer_heap \<Rightarrow> u32 \<Rightarrow> ntt_timer_heap_elem option"
where
  "ntt_timer_heap_elem_at env self pos = do {
     ntt_assert env (pos < th_size self);
     arr_read (th_heap self) pos
   }"

definition ntt_timer_heap_slot_at :: "env \<Rightarrow> ntt_timer_heap \<Rightarrow> u32 \<Rightarrow> ntt_timer_slot option" where
  "ntt_timer_heap_slot_at env self index = do {
     ntt_assert env (index < th_slot_cnt self);
     arr_read (th_slots self) index
   }"

text \<open>Writing through the pointer \<open>ntt_timer_heap_slot_at\<close> returned.\<close>

definition slot_put :: "ntt_timer_heap \<Rightarrow> u32 \<Rightarrow> ntt_timer_slot \<Rightarrow> ntt_timer_heap option" where
  "slot_put self index slot = do {
     slots \<leftarrow> arr_write (th_slots self) index slot;
     Some (self\<lparr>th_slots := slots\<rparr>)
   }"

definition ntt_timer_heap_less :: "ntt_timer_heap_elem \<Rightarrow> ntt_timer_heap_elem \<Rightarrow> bool" where
  "ntt_timer_heap_less lhs rhs =
     (if te_deadline lhs \<noteq> te_deadline rhs then te_deadline lhs < te_deadline rhs
      else te_seq lhs < te_seq rhs)"

definition ntt_timer_heap_elem_live :: "env \<Rightarrow> ntt_timer_heap \<Rightarrow> ntt_timer_heap_elem \<Rightarrow> bool option"
where
  "ntt_timer_heap_elem_live env self elem = do {
     slot \<leftarrow> ntt_timer_heap_slot_at env self (te_index elem);
     Some (ts_version slot = te_version elem)
   }"

definition ntt_timer_heap_place ::
    "env \<Rightarrow> ntt_timer_heap \<Rightarrow> u32 \<Rightarrow> ntt_timer_heap_elem \<Rightarrow> ntt_timer_heap option" where
  "ntt_timer_heap_place env self pos elem = do {
     ntt_assert env (pos < th_size self);
     heap \<leftarrow> arr_write (th_heap self) pos elem;
     Some (self\<lparr>th_heap := heap\<rparr>)
   }"

section \<open>Sifting\<close>

function ntt_timer_heap_sift_up ::
    "env \<Rightarrow> ntt_timer_heap \<Rightarrow> u32 \<Rightarrow> ntt_timer_heap_elem \<Rightarrow> ntt_timer_heap option" where
  "ntt_timer_heap_sift_up env self pos elem =
     (if pos > 0 then do {
        let parent = (pos - 1) div 2;
        parent_elem \<leftarrow> ntt_timer_heap_elem_at env self parent;
        (if \<not> ntt_timer_heap_less elem parent_elem
         then ntt_timer_heap_place env self pos elem
         else do {
           self' \<leftarrow> ntt_timer_heap_place env self pos parent_elem;
           ntt_timer_heap_sift_up env self' parent elem
         })
      } else ntt_timer_heap_place env self pos elem)"
  by pat_completeness auto
termination
  by (relation "measure (\<lambda>(env, self, pos, elem). unat pos)")
    (auto simp: word_less_nat_alt unat_pred_half)

partial_function (option) ntt_timer_heap_sift_down ::
    "env \<Rightarrow> ntt_timer_heap \<Rightarrow> u32 \<Rightarrow> ntt_timer_heap_elem \<Rightarrow> ntt_timer_heap option" where
  "ntt_timer_heap_sift_down env self pos elem = (
     let left = (pos * 2) + 1 in
     if left \<ge> th_size self then ntt_timer_heap_place env self pos elem
     else do {
       let right = left + 1;
       child \<leftarrow> (if right < th_size self then do {
           r \<leftarrow> ntt_timer_heap_elem_at env self right;
           l \<leftarrow> ntt_timer_heap_elem_at env self left;
           Some (if ntt_timer_heap_less r l then right else left)
         } else Some left);
       child_elem \<leftarrow> ntt_timer_heap_elem_at env self child;
       (if \<not> ntt_timer_heap_less child_elem elem then ntt_timer_heap_place env self pos elem
        else do {
          self' \<leftarrow> ntt_timer_heap_place env self pos child_elem;
          ntt_timer_heap_sift_down env self' child elem
        })
     })"

section \<open>Capacity\<close>

text \<open>The loop of \<open>ntt_timer_heap_grow_capacity\<close>.\<close>

partial_function (option) grow_capacity_loop :: "u32 \<Rightarrow> u32 \<Rightarrow> u32 option" where
  "grow_capacity_loop new_cap cnt =
     (if new_cap < cnt then grow_capacity_loop (new_cap * 2) cnt else Some new_cap)"

definition ntt_timer_heap_grow_capacity :: "u32 \<Rightarrow> u32 \<Rightarrow> u32 option" where
  "ntt_timer_heap_grow_capacity cap cnt =
     grow_capacity_loop (if cap = 0 then NTT_TIMER_MIN_CAPACITY else cap) cnt"

definition ntt_timer_heap_reserve_elem :: "env \<Rightarrow> ntt_timer_heap \<Rightarrow> u32 \<Rightarrow> ntt_timer_heap option"
where
  "ntt_timer_heap_reserve_elem env self pos =
     (if pos < th_heap_cap self then Some self
      else do {
        new_cap \<leftarrow> ntt_timer_heap_grow_capacity (th_heap_cap self) (pos + 1);
        heap \<leftarrow> ntt_realloc_or_die env (th_heap self) 24 new_cap;
        Some (self\<lparr>th_heap := heap, th_heap_cap := new_cap\<rparr>)
      })"

definition ntt_timer_heap_reserve_slot :: "env \<Rightarrow> ntt_timer_heap \<Rightarrow> u32 \<Rightarrow> ntt_timer_heap option"
where
  "ntt_timer_heap_reserve_slot env self index =
     (if index < th_slot_cap self then Some self
      else do {
        new_cap \<leftarrow> ntt_timer_heap_grow_capacity (th_slot_cap self) (index + 1);
        slots \<leftarrow> ntt_realloc_or_die env (th_slots self) 16 new_cap;
        Some (self\<lparr>th_slots := slots, th_slot_cap := new_cap\<rparr>)
      })"

definition ntt_timer_heap_shrink :: "env \<Rightarrow> ntt_timer_heap \<Rightarrow> ntt_timer_heap option" where
  "ntt_timer_heap_shrink env self =
     (if th_heap_cap self \<le> NTT_TIMER_MIN_CAPACITY then Some self
      else if th_size self * 4 > th_heap_cap self then Some self
      else do {
        let new_cap = th_heap_cap self div 2;
        heap \<leftarrow> ntt_realloc_or_die env (th_heap self) 24 new_cap;
        Some (self\<lparr>th_heap := heap, th_heap_cap := new_cap\<rparr>)
      })"

section \<open>Slots\<close>

text \<open>
  The first write to a slot above the old watermark sets its version only: the other fields
  of a cell that was never written stay uninitialised.
\<close>

definition ntt_timer_heap_alloc_slot :: "env \<Rightarrow> ntt_timer_heap \<Rightarrow> (u32 \<times> ntt_timer_heap) option"
where
  "ntt_timer_heap_alloc_slot env self =
     (if th_free_head self \<noteq> NTT_TIMER_SLOT_NONE then do {
        let index = th_free_head self;
        slot \<leftarrow> ntt_timer_heap_slot_at env self index;
        next_free \<leftarrow> ts_next_free slot;
        let slot' = slot\<lparr>ts_version := ts_version slot + 1\<rparr>;
        self' \<leftarrow> slot_put (self\<lparr>th_free_head := next_free\<rparr>) index slot';
        ntt_assert env (ts_version slot' AND 1 = 1);
        Some (index, self')
      } else do {
        let index = th_slot_cnt self;
        self1 \<leftarrow> ntt_timer_heap_reserve_slot env self index;
        let self2 = self1\<lparr>th_slot_cnt := th_slot_cnt self1 + 1\<rparr>;
        ntt_assert env (index < th_slot_cnt self2);
        self3 \<leftarrow> slot_put self2 index
          (case arr_read (th_slots self2) index of
             None \<Rightarrow> \<lparr>ts_task = None, ts_version = 1, ts_next_free = None\<rparr>
           | Some slot \<Rightarrow> slot\<lparr>ts_version := 1\<rparr>);
        Some (index, self3)
      })"

definition ntt_timer_heap_free_slot :: "env \<Rightarrow> ntt_timer_heap \<Rightarrow> u32 \<Rightarrow> ntt_timer_heap option" where
  "ntt_timer_heap_free_slot env self index = do {
     slot \<leftarrow> ntt_timer_heap_slot_at env self index;
     let slot' = slot\<lparr>ts_task := Some NULL, ts_version := ts_version slot + 1,
                      ts_next_free := Some (th_free_head self)\<rparr>;
     ntt_assert env (ts_version slot' AND 1 = 0);
     self' \<leftarrow> slot_put self index slot';
     Some (self'\<lparr>th_free_head := index\<rparr>)
   }"

section \<open>Dropping entries\<close>

definition ntt_timer_heap_pop_root :: "env \<Rightarrow> ntt_timer_heap \<Rightarrow> ntt_timer_heap option" where
  "ntt_timer_heap_pop_root env self = do {
     ntt_assert env (th_size self > 0);
     let last = th_size self - 1;
     (if last = 0 then ntt_timer_heap_shrink env (self\<lparr>th_size := 0\<rparr>)
      else do {
        elem \<leftarrow> ntt_timer_heap_elem_at env self last;
        self' \<leftarrow> ntt_timer_heap_sift_down env (self\<lparr>th_size := last\<rparr>) 0 elem;
        ntt_timer_heap_shrink env self'
      })
   }"

partial_function (option) ntt_timer_heap_drop_dead_root ::
    "env \<Rightarrow> ntt_timer_heap \<Rightarrow> ntt_timer_heap option" where
  "ntt_timer_heap_drop_dead_root env self =
     (if th_size self > 0 then do {
        elem \<leftarrow> ntt_timer_heap_elem_at env self 0;
        live \<leftarrow> ntt_timer_heap_elem_live env self elem;
        (if live then Some self
         else do {
           self1 \<leftarrow> ntt_timer_heap_pop_root env self;
           ntt_assert env (th_tombstones self1 > 0);
           ntt_timer_heap_drop_dead_root env
             (self1\<lparr>th_tombstones := th_tombstones self1 - 1\<rparr>)
         })
      } else Some self)"

text \<open>
  The two loops of \<open>ntt_timer_heap_compact\<close>: the filter, which returns the number of entries
  kept, and the rebuild.
\<close>

function compact_filter :: "env \<Rightarrow> ntt_timer_heap \<Rightarrow> u32 \<Rightarrow> u32 \<Rightarrow> (u32 \<times> ntt_timer_heap) option"
where
  "compact_filter env self pos out =
     (if pos < th_size self then do {
        elem \<leftarrow> ntt_timer_heap_elem_at env self pos;
        live \<leftarrow> ntt_timer_heap_elem_live env self elem;
        (if live then do {
           ntt_assert env (out < th_size self);
           heap \<leftarrow> arr_write (th_heap self) out elem;
           compact_filter env (self\<lparr>th_heap := heap\<rparr>) (pos + 1) (out + 1)
         } else compact_filter env self (pos + 1) out)
      } else Some (out, self))"
  by pat_completeness auto
termination
proof (relation "measure (\<lambda>(env, self, pos, out). unat (th_size self) - unat pos)", goal_cases)
  case 1
  show ?case by simp
next
  case (2 env self pos out elem live u heap)
  then have "unat pos < unat (th_size self)" by (simp add: word_less_nat_alt)
  moreover from this have "unat (pos + 1) = unat pos + 1"
    by (rule unat_succ_below)
  ultimately show ?case by simp
next
  case (3 env self pos out elem live)
  then have "unat pos < unat (th_size self)" by (simp add: word_less_nat_alt)
  moreover from this have "unat (pos + 1) = unat pos + 1"
    by (rule unat_succ_below)
  ultimately show ?case by simp
qed

function compact_rebuild :: "env \<Rightarrow> ntt_timer_heap \<Rightarrow> u32 \<Rightarrow> ntt_timer_heap option" where
  "compact_rebuild env self i =
     (if i > 0 then do {
        let i' = i - 1;
        elem \<leftarrow> ntt_timer_heap_elem_at env self i';
        self' \<leftarrow> ntt_timer_heap_sift_down env self i' elem;
        compact_rebuild env self' i'
      } else Some self)"
  by pat_completeness auto
termination
  by (relation "measure (\<lambda>(env, self, i). unat i)")
    (auto simp: word_less_nat_alt unat_sub_noflow)

declare ntt_timer_heap_sift_up.simps [simp del] compact_filter.simps [simp del]
  compact_rebuild.simps [simp del]

definition ntt_timer_heap_compact :: "env \<Rightarrow> ntt_timer_heap \<Rightarrow> ntt_timer_heap option" where
  "ntt_timer_heap_compact env self =
     (if th_tombstones self * 2 \<le> th_size self then Some self
      else do {
        (out, self1) \<leftarrow> compact_filter env self 0 0;
        let self2 = self1\<lparr>th_size := out, th_tombstones := 0\<rparr>;
        self3 \<leftarrow> (if th_size self2 > 1
                  then compact_rebuild env self2 (th_size self2 div 2) else Some self2);
        ntt_timer_heap_shrink env self3
      })"

section \<open>The operations of the heap\<close>

definition ntt_timer_heap_init :: ntt_timer_heap where
  "ntt_timer_heap_init =
     \<lparr>th_heap = [], th_heap_cap = 0, th_slots = [], th_slot_cap = 0, th_size = 0,
      th_tombstones = 0, th_slot_cnt = 0, th_free_head = NTT_TIMER_SLOT_NONE, th_seq_next = 0\<rparr>"

definition ntt_timer_heap_size :: "ntt_timer_heap \<Rightarrow> u32" where
  "ntt_timer_heap_size self = th_size self - th_tombstones self"

definition ntt_timer_heap_empty :: "ntt_timer_heap \<Rightarrow> bool" where
  "ntt_timer_heap_empty self \<longleftrightarrow> th_size self = th_tombstones self"

text \<open>The loop of \<open>ntt_timer_heap_deinit\<close>, with what it does to the tasks.\<close>

function deinit_loop :: "env \<Rightarrow> ntt_timer_heap \<Rightarrow> u32 \<Rightarrow> task_event list option" where
  "deinit_loop env self pos =
     (if pos < th_size self then do {
        elem \<leftarrow> ntt_timer_heap_elem_at env self pos;
        live \<leftarrow> ntt_timer_heap_elem_live env self elem;
        (if live then do {
           slot \<leftarrow> ntt_timer_heap_slot_at env self (te_index elem);
           task \<leftarrow> ts_task slot;
           rest \<leftarrow> deinit_loop env self (pos + 1);
           Some (ntt_task_destroy_inl task @ rest)
         } else deinit_loop env self (pos + 1))
      } else Some [])"
  by pat_completeness auto
termination
proof (relation "measure (\<lambda>(env, self, pos). unat (th_size self) - unat pos)", goal_cases)
  case 1
  show ?case by simp
next
  case (2 env self pos elem live slot task)
  then have "unat pos < unat (th_size self)" by (simp add: word_less_nat_alt)
  moreover from this have "unat (pos + 1) = unat pos + 1"
    by (rule unat_succ_below)
  ultimately show ?case by simp
next
  case (3 env self pos elem live)
  then have "unat pos < unat (th_size self)" by (simp add: word_less_nat_alt)
  moreover from this have "unat (pos + 1) = unat pos + 1"
    by (rule unat_succ_below)
  ultimately show ?case by simp
qed

declare deinit_loop.simps [simp del]

definition ntt_timer_heap_deinit ::
    "env \<Rightarrow> ntt_timer_heap \<Rightarrow> (task_event list \<times> ntt_timer_heap) option" where
  "ntt_timer_heap_deinit env self = do {
     evs \<leftarrow> deinit_loop env self 0;
     Some (evs, ntt_timer_heap_init)
   }"

text \<open>The deadline, when there is one, and the heap after dropping tombstones.\<close>

definition ntt_timer_heap_peek :: "env \<Rightarrow> ntt_timer_heap \<Rightarrow> (u64 option \<times> ntt_timer_heap) option"
where
  "ntt_timer_heap_peek env self = do {
     self' \<leftarrow> ntt_timer_heap_drop_dead_root env self;
     (if th_size self' = 0 then Some (None, self')
      else do {
        elem \<leftarrow> ntt_timer_heap_elem_at env self' 0;
        Some (Some (te_deadline elem), self')
      })
   }"

definition ntt_timer_heap_push ::
    "env \<Rightarrow> nmem \<Rightarrow> ntt_timer_heap \<Rightarrow> u64 \<Rightarrow> ptr \<Rightarrow> (ntt_timer_tag \<times> ntt_timer_heap) option" where
  "ntt_timer_heap_push env m self deadline task = do {
     ntt_assert env (task \<noteq> NULL);
     ntt_assert env (ntt_task_unlinked m task);
     (index, self1) \<leftarrow> ntt_timer_heap_alloc_slot env self;
     slot \<leftarrow> ntt_timer_heap_slot_at env self1 index;
     self2 \<leftarrow> slot_put self1 index (slot\<lparr>ts_task := Some task\<rparr>);
     let pos = th_size self2;
     self3 \<leftarrow> ntt_timer_heap_reserve_elem env self2 pos;
     let self4 = self3\<lparr>th_size := pos + 1\<rparr>;
     let elem = \<lparr>te_deadline = deadline, te_seq = th_seq_next self4,
                 te_index = index, te_version = ts_version slot\<rparr>;
     let self5 = self4\<lparr>th_seq_next := th_seq_next self4 + 1\<rparr>;
     self6 \<leftarrow> ntt_timer_heap_sift_up env self5 pos elem;
     Some (\<lparr>tag_index = index, tag_version = te_version elem\<rparr>, self6)
   }"

definition ntt_timer_heap_cancel ::
    "env \<Rightarrow> ntt_timer_heap \<Rightarrow> ntt_timer_tag \<Rightarrow> (task_event list \<times> ntt_timer_heap) option" where
  "ntt_timer_heap_cancel env self tag = do {
     ntt_assert env (\<not> ntt_timer_tag_is_null tag);
     ntt_assert env (tag_index tag < th_slot_cnt self);
     (if tag_index tag \<ge> th_slot_cnt self then Some ([], self)
      else do {
        slot \<leftarrow> ntt_timer_heap_slot_at env self (tag_index tag);
        ntt_assert env (ts_version slot = tag_version tag);
        (if ts_version slot \<noteq> tag_version tag then Some ([], self)
         else do {
           task \<leftarrow> ts_task slot;
           self1 \<leftarrow> ntt_timer_heap_free_slot env self (tag_index tag);
           let self2 = self1\<lparr>th_tombstones := th_tombstones self1 + 1\<rparr>;
           let evs = ntt_task_destroy_inl task;
           self3 \<leftarrow> ntt_timer_heap_compact env self2;
           Some (evs, self3)
         })
      })
   }"

text \<open>
  Running the expired timers. \<open>run task\<close> is what the callback of the task does to the heap
  when it is asked to run: it is free to arm and to cancel timers, and it reports what
  happened to other tasks meanwhile. The result is the number of timers that ran, the events
  in order and the heap.
\<close>

type_synonym task_run = "ptr \<Rightarrow> ntt_timer_heap \<Rightarrow> (task_event list \<times> ntt_timer_heap) option"

partial_function (option) svc_loop ::
    "env \<Rightarrow> task_run \<Rightarrow> u64 \<Rightarrow> ntt_timer_heap \<Rightarrow> u64 \<Rightarrow> task_event list \<Rightarrow>
     (u64 \<times> task_event list \<times> ntt_timer_heap) option" where
  "svc_loop env run now self cnt evs =
     (if th_size self = 0 then Some (cnt, evs, self)
      else do {
        elem \<leftarrow> ntt_timer_heap_elem_at env self 0;
        (if te_deadline elem > now then Some (cnt, evs, self)
         else do {
           self1 \<leftarrow> ntt_timer_heap_pop_root env self;
           live \<leftarrow> ntt_timer_heap_elem_live env self1 elem;
           (if \<not> live then do {
              ntt_assert env (th_tombstones self1 > 0);
              svc_loop env run now (self1\<lparr>th_tombstones := th_tombstones self1 - 1\<rparr>) cnt evs
            } else do {
              slot \<leftarrow> ntt_timer_heap_slot_at env self1 (te_index elem);
              task \<leftarrow> ts_task slot;
              self2 \<leftarrow> ntt_timer_heap_free_slot env self1 (te_index elem);
              (sub, self3) \<leftarrow> run task self2;
              svc_loop env run now self3 (cnt + 1)
                (evs @ ntt_task_svc_inl task @ sub @ ntt_task_destroy_inl task)
            })
         })
      })"

definition ntt_timer_heap_svc ::
    "env \<Rightarrow> task_run \<Rightarrow> ntt_timer_heap \<Rightarrow> u64 \<Rightarrow> (u64 \<times> task_event list \<times> ntt_timer_heap) option"
where
  "ntt_timer_heap_svc env run self now = svc_loop env run now self 0 []"

declare ntt_timer_heap_sift_down.simps [code] grow_capacity_loop.simps [code]
  ntt_timer_heap_drop_dead_root.simps [code] svc_loop.simps [code]

end
