(* ===== verification/Timer_Heap_Inv.thy ===== *)
theory Timer_Heap_Inv
  imports Timer_Heap
begin

text \<open>
  The invariant of the timer heap and the bookkeeping behind it: the two arrays as lists
  (\<open>th_rep\<close>), what the entries and the slots promise each other (\<open>book\<close>) and the chain of the
  vacant slots (\<open>free_list\<close>). The lemmas say how the bookkeeping changes when an entry is
  dropped, when a slot is vacated, reused or added, and that the sifting loops on the C array
  are the generic sifting of \<open>Binary_Heap\<close>.
\<close>

section \<open>The invariant\<close>

text \<open>
  The initialised part of the two arrays as lists: the entries of the heap and the slots
  handed out so far.
\<close>

definition th_rep :: "ntt_timer_heap \<Rightarrow> ntt_timer_heap_elem list \<Rightarrow> ntt_timer_slot list \<Rightarrow> bool" where
  "th_rep h xs ss \<longleftrightarrow>
     take (length xs) (th_heap h) = map Some xs \<and> unat (th_size h) = length xs \<and>
     length (th_heap h) = unat (th_heap_cap h) \<and>
     take (length ss) (th_slots h) = map Some ss \<and> unat (th_slot_cnt h) = length ss \<and>
     length (th_slots h) = unat (th_slot_cap h)"

abbreviation slot_of :: "ntt_timer_slot list \<Rightarrow> ntt_timer_heap_elem \<Rightarrow> ntt_timer_slot" where
  "slot_of ss e \<equiv> ss ! unat (te_index e)"

definition te_live :: "ntt_timer_slot list \<Rightarrow> ntt_timer_heap_elem \<Rightarrow> bool" where
  "te_live ss e \<longleftrightarrow> ts_version (slot_of ss e) = te_version e"

definition te_tag :: "ntt_timer_heap_elem \<Rightarrow> ntt_timer_tag" where
  "te_tag e = \<lparr>tag_index = te_index e, tag_version = te_version e\<rparr>"

text \<open>
  What the entries and the slots have to do with each other. None of it depends on the order
  of the entries.
\<close>

definition te_wf :: "ntt_timer_slot list \<Rightarrow> u64 \<Rightarrow> ntt_timer_heap_elem \<Rightarrow> bool" where
  "te_wf ss seq e \<longleftrightarrow>
     unat (te_index e) < length ss \<and> odd (te_version e) \<and>
     te_version e \<le> ts_version (slot_of ss e) \<and> te_seq e < seq"

definition slot_wf :: "ntt_timer_heap_elem list \<Rightarrow> ntt_timer_slot list \<Rightarrow> nat \<Rightarrow> bool" where
  "slot_wf xs ss i \<longleftrightarrow>
     (odd (ts_version (ss ! i)) \<longrightarrow>
        (\<exists>x \<in> set xs. unat (te_index x) = i \<and> te_live ss x) \<and> ts_task (ss ! i) \<noteq> None)"

definition book :: "ntt_timer_heap_elem list \<Rightarrow> ntt_timer_slot list \<Rightarrow> u64 \<Rightarrow> nat \<Rightarrow> bool" where
  "book xs ss seq dead \<longleftrightarrow>
     (\<forall>x \<in> set xs. te_wf ss seq x) \<and> distinct (map te_tag xs) \<and> distinct (map te_seq xs) \<and>
     (\<forall>i < length ss. slot_wf xs ss i) \<and> dead = length (filter (\<lambda>x. \<not> te_live ss x) xs)"

text \<open>The free list: a chain through the vacant slots, each of them once.\<close>

fun free_chain :: "ntt_timer_slot list \<Rightarrow> u32 \<Rightarrow> u32 list \<Rightarrow> bool" where
  "free_chain ss p [] \<longleftrightarrow> p = NTT_TIMER_SLOT_NONE"
| "free_chain ss p (i # is) \<longleftrightarrow>
     p = i \<and> unat i < length ss \<and> even (ts_version (ss ! unat i)) \<and>
     (case ts_next_free (ss ! unat i) of None \<Rightarrow> False | Some n \<Rightarrow> free_chain ss n is)"

definition free_list :: "ntt_timer_slot list \<Rightarrow> u32 \<Rightarrow> u32 list \<Rightarrow> bool" where
  "free_list ss p fl \<longleftrightarrow>
     free_chain ss p fl \<and> distinct fl \<and>
     (\<forall>i < length ss. even (ts_version (ss ! i)) \<longrightarrow> i \<in> unat ` set fl)"

text \<open>
  The bound on the number of entries and slots under which no index arithmetic of the heap
  wraps around: \<open>2 ^ 30\<close>, where four times the size still fits a \<open>uint32_t\<close>.
\<close>

definition TH_MAX :: nat where
  "TH_MAX = 1073741824"

definition th_state :: "ntt_timer_heap \<Rightarrow> ntt_timer_heap_elem list \<Rightarrow> ntt_timer_slot list \<Rightarrow> u32 list \<Rightarrow> bool"
where
  "th_state h xs ss fl \<longleftrightarrow>
     th_rep h xs ss \<and> is_heap ntt_timer_heap_less xs \<and>
     book xs ss (th_seq_next h) (unat (th_tombstones h)) \<and> free_list ss (th_free_head h) fl \<and>
     length xs < TH_MAX \<and> length ss \<le> TH_MAX"

definition th_inv :: "ntt_timer_heap \<Rightarrow> bool" where
  "th_inv h \<longleftrightarrow> (\<exists>xs ss fl. th_state h xs ss fl)"

text \<open>The live entries, which are what the heap stands for.\<close>

abbreviation live_mset :: "ntt_timer_slot list \<Rightarrow> ntt_timer_heap_elem list \<Rightarrow> ntt_timer_heap_elem multiset"
where
  "live_mset ss xs \<equiv> filter_mset (te_live ss) (mset xs)"

text \<open>
  Both ways to get a slot. \<open>slot_taken\<close> says what the bookkeeping looks like once the task and
  the entry \<open>e\<close> have been stored: the entries that were there keep their state.
\<close>

definition slot_taken :: "ntt_timer_heap \<Rightarrow> ntt_timer_heap_elem list \<Rightarrow> ntt_timer_slot list \<Rightarrow>
    ntt_timer_heap \<Rightarrow> ntt_timer_slot list \<Rightarrow> u32 list \<Rightarrow> u32 \<Rightarrow> bool" where
  "slot_taken h xs ss h1 ss1 fl1 i \<longleftrightarrow>
     (\<forall>s' e. ts_version s' = ts_version (ss1 ! unat i) \<longrightarrow> ts_task s' \<noteq> None \<longrightarrow> te_index e = i \<longrightarrow>
        te_version e = ts_version (ss1 ! unat i) \<longrightarrow> te_seq e = th_seq_next h \<longrightarrow>
        book (e # xs) (ss1[unat i := s']) (th_seq_next h + 1) (unat (th_tombstones h)) \<and>
        free_list (ss1[unat i := s']) (th_free_head h1) fl1 \<and>
        (\<forall>x \<in> set xs. te_live (ss1[unat i := s']) x \<longleftrightarrow> te_live ss x) \<and>
        (\<forall>x \<in> set xs. te_live ss x \<longrightarrow> slot_of (ss1[unat i := s']) x = slot_of ss x))"

text \<open>Room for one more timer: entries, slots and the sequence number.\<close>

definition th_room :: "ntt_timer_heap \<Rightarrow> bool" where
  "th_room h \<longleftrightarrow>
     unat (th_size h) + 1 < TH_MAX \<and>
     (th_free_head h = NTT_TIMER_SLOT_NONE \<longrightarrow> unat (th_slot_cnt h) < TH_MAX) \<and>
     th_seq_next h < th_seq_next h + 1"

definition vacated :: "ntt_timer_slot \<Rightarrow> u32 \<Rightarrow> ntt_timer_slot" where
  "vacated s p = s\<lparr>ts_task := Some NULL, ts_version := ts_version s + 1, ts_next_free := Some p\<rparr>"

section \<open>The comparison\<close>

interpretation timer_order: heap_order ntt_timer_heap_less
proof (unfold_locales, goal_cases)
  case (1 x)
  show ?case by (simp add: ntt_timer_heap_less_def)
next
  case (2 x y z)
  then show ?case by (auto simp: ntt_timer_heap_less_def split: if_splits)
next
  case (3 x y z)
  then show ?case by (auto simp: ntt_timer_heap_less_def split: if_splits)
qed

section \<open>Sifting is the generic sifting\<close>

lemma elem_at_prefix:
  assumes "th_heap h = map Some xs @ rest" "unat (th_size h) = length xs" "unat pos < length xs"
  shows "ntt_timer_heap_elem_at env h pos = Some (xs ! unat pos)"
  using assms by (simp add: ntt_timer_heap_elem_at_def word_less_nat_alt arr_read_prefix)

lemma place_prefix:
  assumes "th_heap h = map Some xs @ rest" "unat (th_size h) = length xs" "unat pos < length xs"
  shows "ntt_timer_heap_place env h pos e =
    Some (h\<lparr>th_heap := map Some (xs[unat pos := e]) @ rest\<rparr>)"
  using assms by (simp add: ntt_timer_heap_place_def word_less_nat_alt arr_write_prefix)

lemma sift_up_eq:
  assumes "th_heap h = map Some xs @ rest" "unat (th_size h) = length xs" "unat pos < length xs"
  shows "ntt_timer_heap_sift_up env h pos e =
    Some (h\<lparr>th_heap := map Some (hole_up ntt_timer_heap_less xs (unat pos) e) @ rest\<rparr>)"
  using assms
proof (induction "unat pos" arbitrary: pos h xs rule: less_induct)
  case less
  show ?case
  proof (cases "pos = 0")
    case True
    with less.prems show ?thesis
      by (subst ntt_timer_heap_sift_up.simps, subst hole_up.simps) (simp add: place_prefix)
  next
    case False
    then have pos: "0 < unat pos" by (simp add: unat_gt_0)
    let ?w = "(pos - 1) div 2" and ?p = "(unat pos - 1) div 2"
    have p: "unat ?w = ?p" by (rule unat_pred_half [OF pos])
    have lt: "?p < unat pos" by (rule parent_less [OF pos])
    have at: "ntt_timer_heap_elem_at env h ?w = Some (xs ! ?p)"
      using less.prems lt p by (simp add: elem_at_prefix)
    show ?thesis
    proof (cases "ntt_timer_heap_less e (xs ! ?p)")
      case True
      let ?h = "h\<lparr>th_heap := map Some (xs[unat pos := xs ! ?p]) @ rest\<rparr>"
      have "ntt_timer_heap_sift_up env ?h ?w e =
        Some (?h\<lparr>th_heap := map Some (hole_up ntt_timer_heap_less (xs[unat pos := xs ! ?p])
                 (unat ?w) e) @ rest\<rparr>)"
        using less.prems lt p by (intro less.hyps) auto
      then show ?thesis
        using less.prems False pos at p True
        by (subst ntt_timer_heap_sift_up.simps, subst hole_up.simps)
          (simp add: place_prefix word_less_nat_alt)
    next
      case nless: False
      then show ?thesis
        using less.prems False pos at
        by (subst ntt_timer_heap_sift_up.simps, subst hole_up.simps)
          (simp add: place_prefix word_less_nat_alt)
    qed
  qed
qed

lemma sift_down_child:
  assumes h: "th_heap h = map Some xs @ rest" "unat (th_size h) = length xs"
    and l: "2 * unat pos + 1 < length xs" "length xs \<le> 1073741824"
  obtains w where "unat w = min_child ntt_timer_heap_less xs (unat pos)"
    and "ntt_timer_heap_sift_down env h pos e =
      (if \<not> ntt_timer_heap_less (xs ! unat w) e then ntt_timer_heap_place env h pos e
       else ntt_timer_heap_place env h pos (xs ! unat w) \<bind>
         (\<lambda>self'. ntt_timer_heap_sift_down env self' w e))"
proof -
  let ?l = "pos * 2 + 1"
  define w where "w = (if ?l + 1 < th_size h \<and>
    ntt_timer_heap_less (xs ! unat (?l + 1)) (xs ! unat ?l) then ?l + 1 else ?l)"
  have u: "unat ?l = 2 * unat pos + 1" "unat (?l + 1) = 2 * unat pos + 2"
    using l unat_left [of pos] by auto
  have nl: "(th_size h \<le> ?l) = False" using h l u by (simp add: word_le_nat_alt)
  have w: "unat w = min_child ntt_timer_heap_less xs (unat pos)"
    using h u by (auto simp: w_def min_child_def word_less_nat_alt)
  then have wlt: "unat w < length xs" using min_child_bounds [OF l(1)] by simp
  have child: "(if ?l + 1 < th_size h then do {
         r \<leftarrow> ntt_timer_heap_elem_at env h (?l + 1);
         l \<leftarrow> ntt_timer_heap_elem_at env h ?l;
         Some (if ntt_timer_heap_less r l then ?l + 1 else ?l)
       } else Some ?l) = Some w"
    using l by (simp add: w_def elem_at_prefix [OF h] h u word_less_nat_alt)
  show thesis
    by (rule that [OF w], subst ntt_timer_heap_sift_down.simps)
      (simp only: Let_def nl child elem_at_prefix [OF h wlt] if_False bind.bind_lunit)
qed

lemma sift_down_eq:
  assumes "th_heap h = map Some xs @ rest" "unat (th_size h) = length xs" "unat pos < length xs"
    "length xs \<le> 1073741824"
  shows "ntt_timer_heap_sift_down env h pos e =
    Some (h\<lparr>th_heap := map Some (hole_down ntt_timer_heap_less xs (unat pos) e) @ rest\<rparr>)"
  using assms
proof (induction "length xs - unat pos" arbitrary: pos h xs rule: less_induct)
  case less
  let ?i = "unat pos"
  show ?case
  proof (cases "2 * ?i + 1 < length xs")
    case False
    then have "th_size h \<le> pos * 2 + 1"
      using less.prems unat_left [of pos] by (simp add: word_le_nat_alt)
    then show ?thesis using less.prems False
      by (subst ntt_timer_heap_sift_down.simps, subst hole_down.simps) (simp add: place_prefix Let_def)
  next
    case True
    let ?c = "min_child ntt_timer_heap_less xs ?i"
    obtain w where w: "unat w = ?c" and step: "ntt_timer_heap_sift_down env h pos e =
      (if \<not> ntt_timer_heap_less (xs ! unat w) e then ntt_timer_heap_place env h pos e
       else ntt_timer_heap_place env h pos (xs ! unat w) \<bind>
         (\<lambda>self'. ntt_timer_heap_sift_down env self' w e))"
      by (rule sift_down_child [OF less.prems(1,2) True less.prems(4)])
    let ?h = "h\<lparr>th_heap := map Some (xs[?i := xs ! ?c]) @ rest\<rparr>"
    note c = min_child_bounds [OF True, of ntt_timer_heap_less]
    have "ntt_timer_heap_sift_down env ?h w e =
      Some (?h\<lparr>th_heap := map Some (hole_down ntt_timer_heap_less (xs[?i := xs ! ?c])
               (unat w) e) @ rest\<rparr>)"
      by (rule less.hyps) (use less.prems c w in auto)
    then show ?thesis
      using less.prems True w
      by (subst step, subst hole_down.simps) (simp add: place_prefix)
  qed
qed

section \<open>Bookkeeping\<close>

lemma book_perm:
  assumes "mset xs = mset ys"
  shows "book xs ss seq dead \<longleftrightarrow> book ys ss seq dead"
proof -
  have s: "set xs = set ys" using assms by (rule mset_eq_setD)
  have d: "distinct (map f xs) = distinct (map f ys)" for f :: "ntt_timer_heap_elem \<Rightarrow> 'a"
    by (rule mset_eq_imp_distinct_iff) (simp add: assms)
  have l: "length (filter P xs) = length (filter P ys)" for P
    using assms by (metis mset_filter size_mset)
  show ?thesis by (simp add: book_def slot_wf_def s d l)
qed

lemma book_seq_fresh: "book xs ss seq dead \<Longrightarrow> seq \<notin> te_seq ` set xs"
  by (auto simp: book_def te_wf_def)

lemma book_dropped:
  assumes "book (x # xs) ss seq dead" "\<not> te_live ss x"
  shows "book xs ss seq (dead - 1)" "0 < dead"
  using assms by (auto simp: book_def slot_wf_def)

lemma book_dead_head:
  assumes "book xs ss seq dead" "te_wf ss seq x" "\<not> te_live ss x"
    and "te_tag x \<notin> te_tag ` set xs" "te_seq x \<notin> te_seq ` set xs"
  shows "book (x # xs) ss seq (Suc dead)"
  using assms by (auto simp: book_def slot_wf_def)

text \<open>A slot is vacated: its live entry leaves the heap with it.\<close>

lemma vacated_live:
  assumes b: "book (x # xs) ss seq dead" and live: "te_live ss x"
    and s': "ts_version s' = te_version x + 1" and y: "y \<in> set xs"
  shows "te_live (ss[unat (te_index x) := s']) y \<longleftrightarrow> te_live ss y"
    and "te_live ss y \<Longrightarrow> te_index y \<noteq> te_index x"
proof -
  have x: "unat (te_index x) < length ss" "odd (te_version x)" "ts_version (slot_of ss x) = te_version x"
    using b live by (auto simp: book_def te_wf_def te_live_def)
  have "te_tag x \<noteq> te_tag y" using b y by (auto simp: book_def)
  then have tag: "te_index y = te_index x \<Longrightarrow> te_version y \<noteq> te_version x"
    by (simp add: te_tag_def)
  then show "te_live ss y \<Longrightarrow> te_index y \<noteq> te_index x" using x by (auto simp: te_live_def)
  have "odd (te_version y)" using b y by (auto simp: book_def te_wf_def)
  moreover have "even (ts_version s')" using s' x by simp
  ultimately have "ts_version s' \<noteq> te_version y" by auto
  with tag x show "te_live (ss[unat (te_index x) := s']) y \<longleftrightarrow> te_live ss y"
    by (cases "te_index y = te_index x") (auto simp: te_live_def)
qed

lemma book_vacated:
  assumes b: "book (x # xs) ss seq dead" and live: "te_live ss x"
    and s': "ts_version s' = te_version x + 1" "te_version x + 1 \<noteq> 0"
  shows "book xs (ss[unat (te_index x) := s']) seq dead"
proof -
  let ?i = "unat (te_index x)" and ?ss = "ss[unat (te_index x) := s']"
  have x: "?i < length ss" "odd (te_version x)" "ts_version (ss ! ?i) = te_version x"
    using b live by (auto simp: book_def te_wf_def te_live_def)
  have up: "te_version x < ts_version s'" using s' word_less_succ by simp
  have ev: "even (ts_version s')" using s' x by simp
  note live_eq = vacated_live(1) [OF b live s'(1)]
  have "te_wf ?ss seq y" if "y \<in> set xs" for y
    using b that x up by (auto simp: book_def te_wf_def nth_list_update intro: order.trans less_imp_le)
  moreover have "slot_wf xs ?ss i" if i: "i < length ss" for i
  proof (cases "i = ?i")
    case True
    then show ?thesis using ev x by (simp add: slot_wf_def)
  next
    case False
    then have "slot_wf (x # xs) ss i" using b i by (simp add: book_def)
    then show ?thesis using False live_eq by (auto simp: slot_wf_def)
  qed
  moreover have "filter (\<lambda>x. \<not> te_live ?ss x) xs = filter (\<lambda>x. \<not> te_live ss x) xs"
    using live_eq by (intro filter_cong) auto
  ultimately show ?thesis using b live by (simp add: book_def)
qed

text \<open>A slot that was vacant is occupied again, by a new entry.\<close>

lemma book_reused:
  assumes b: "book xs ss seq dead" and i: "unat (te_index e) < length ss"
    and ev: "even (ts_version (slot_of ss e))"
    and e: "te_version e = ts_version (slot_of ss e) + 1" "te_seq e = seq" "seq < seq + 1"
    and s': "ts_version s' = te_version e" "ts_task s' \<noteq> None"
  shows "book (e # xs) (ss[unat (te_index e) := s']) (seq + 1) dead"
proof -
  let ?i = "unat (te_index e)" and ?ss = "ss[unat (te_index e) := s']"
  have up: "ts_version (ss ! ?i) < te_version e" using e ev even_less_succ by simp
  have od: "odd (te_version e)" using e ev by simp
  have wf: "te_wf ss seq y" if "y \<in> set xs" for y using b that by (simp add: book_def)
  have stale: "te_version y < te_version e" if "y \<in> set xs" "te_index y = te_index e" for y
    using wf [OF that(1)] that(2) up by (auto simp: te_wf_def)
  have live_eq: "te_live ?ss y \<longleftrightarrow> te_live ss y" if "y \<in> set xs" for y
  proof (cases "te_index y = te_index e")
    case True
    then show ?thesis using stale [OF that True] wf [OF that] i s' ev
      by (auto simp: te_live_def te_wf_def)
  next
    case False
    then show ?thesis by (simp add: te_live_def)
  qed
  have "te_wf ?ss (seq + 1) y" if "y \<in> set xs" for y
    using wf [OF that] stale [OF that] i s' e(3)
    by (auto simp: te_wf_def nth_list_update intro: less_imp_le)
  moreover have "te_wf ?ss (seq + 1) e" "te_live ?ss e"
    using i od s' e by (auto simp: te_wf_def te_live_def)
  moreover have "slot_wf (e # xs) ?ss j" if j: "j < length ss" for j
  proof (cases "j = ?i")
    case True
    then show ?thesis using i s' by (auto simp: slot_wf_def te_live_def)
  next
    case False
    then have "slot_wf xs ss j" using b j by (simp add: book_def)
    then show ?thesis using False live_eq by (auto simp: slot_wf_def)
  qed
  moreover have "filter (\<lambda>x. \<not> te_live ?ss x) xs = filter (\<lambda>x. \<not> te_live ss x) xs"
    using live_eq by (intro filter_cong) auto
  moreover have "te_tag e \<notin> te_tag ` set xs" using stale by (fastforce simp: te_tag_def)
  moreover have "te_seq e \<notin> te_seq ` set xs" using book_seq_fresh [OF b] e by simp
  ultimately show ?thesis using b by (simp add: book_def)
qed

text \<open>The slab grows by a slot, which a new entry occupies.\<close>

lemma book_extended:
  assumes b: "book xs ss seq dead" and i: "unat (te_index e) = length ss"
    and e: "te_version e = 1" "te_seq e = seq" "seq < seq + 1"
    and s': "ts_version s' = 1" "ts_task s' \<noteq> None"
  shows "book (e # xs) (ss @ [s']) (seq + 1) dead"
proof -
  let ?ss = "ss @ [s']"
  have wf: "te_wf ss seq y" if "y \<in> set xs" for y using b that by (simp add: book_def)
  have idx: "unat (te_index y) < length ss" if "y \<in> set xs" for y
    using wf [OF that] by (simp add: te_wf_def)
  have live_eq: "te_live ?ss y \<longleftrightarrow> te_live ss y" if "y \<in> set xs" for y
    using idx [OF that] by (simp add: te_live_def nth_append)
  have "te_wf ?ss (seq + 1) y" if "y \<in> set xs" for y
    using wf [OF that] e(3) by (auto simp: te_wf_def nth_append)
  moreover have "te_wf ?ss (seq + 1) e" "te_live ?ss e"
    using i s' e by (auto simp: te_wf_def te_live_def nth_append)
  moreover have "slot_wf (e # xs) ?ss j" if j: "j < length ?ss" for j
  proof (cases "j = length ss")
    case True
    then show ?thesis using i s' e by (auto simp: slot_wf_def te_live_def nth_append)
  next
    case False
    then have "j < length ss" "slot_wf xs ss j" using b j by (auto simp: book_def)
    then show ?thesis using live_eq by (auto simp: slot_wf_def nth_append)
  qed
  moreover have "filter (\<lambda>x. \<not> te_live ?ss x) xs = filter (\<lambda>x. \<not> te_live ss x) xs"
    using live_eq by (intro filter_cong) auto
  moreover have "te_tag e \<notin> te_tag ` set xs" using idx i by (force simp: te_tag_def)
  moreover have "te_seq e \<notin> te_seq ` set xs" using book_seq_fresh [OF b] e by simp
  ultimately show ?thesis using b by (simp add: book_def)
qed

section \<open>The free list\<close>

lemma free_chain_update:
  "i \<notin> unat ` set fl \<Longrightarrow> free_chain (ss[i := s]) p fl = free_chain ss p fl"
  by (induction fl arbitrary: p) (auto split: option.splits)

lemma free_chain_append: "free_chain ss p fl \<Longrightarrow> free_chain (ss @ [s]) p fl"
  by (induction fl arbitrary: p) (auto simp: nth_append split: option.splits)

lemma free_list_pop:
  assumes "free_list ss p fl" "p \<noteq> NTT_TIMER_SLOT_NONE"
  obtains n fl' where "fl = p # fl'" "unat p < length ss" "even (ts_version (ss ! unat p))"
    "ts_next_free (ss ! unat p) = Some n"
    "\<forall>s. odd (ts_version s) \<longrightarrow> free_list (ss[unat p := s]) n fl'"
proof -
  obtain fl' where fl: "fl = p # fl'"
    using assms by (cases fl) (auto simp: free_list_def)
  then obtain n where n: "ts_next_free (ss ! unat p) = Some n" and c: "free_chain ss n fl'"
    and p: "unat p < length ss" "even (ts_version (ss ! unat p))"
    using assms by (auto simp: free_list_def split: option.splits)
  have notin: "unat p \<notin> unat ` set fl'" and d: "distinct fl'"
    using assms(1) fl by (auto simp: free_list_def)
  have "free_list (ss[unat p := s]) n fl'" if s: "odd (ts_version s)" for s
  proof -
    have "i \<in> unat ` set fl'" if "i < length ss" "even (ts_version (ss[unat p := s] ! i))" for i
    proof -
      have "i \<noteq> unat p" using that p s by auto
      then show ?thesis using that assms(1) fl by (auto simp: free_list_def)
    qed
    then show ?thesis using c notin d by (simp add: free_list_def free_chain_update)
  qed
  with fl p n show thesis by (intro that) auto
qed

lemma free_list_push:
  assumes f: "free_list ss p fl" and i: "unat i < length ss" "odd (ts_version (ss ! unat i))"
    and s: "even (ts_version s)" "ts_next_free s = Some p"
  shows "free_list (ss[unat i := s]) i (i # fl)"
proof -
  have c: "free_chain ss q gl \<Longrightarrow> i \<notin> set gl" for q gl
    using i by (induction gl arbitrary: q) (auto split: option.splits)
  then have notin: "unat i \<notin> unat ` set fl" using f by (auto simp: free_list_def)
  have "j \<in> unat ` set (i # fl)" if "j < length ss" "even (ts_version (ss[unat i := s] ! j))" for j
    using that f by (cases "j = unat i") (auto simp: free_list_def)
  then show ?thesis using f i s notin
    by (auto simp: free_list_def free_chain_update)
qed

lemma free_list_extend:
  "free_list ss p fl \<Longrightarrow> odd (ts_version s) \<Longrightarrow> free_list (ss @ [s]) p fl"
  by (auto simp: free_list_def nth_append intro: free_chain_append)

end
