(* ===== verification/Timer_Heap_Ops.thy ===== *)
theory Timer_Heap_Ops
  imports Timer_Heap_Inv
begin

text \<open>
  Every routine of \<open>timer_heap.c\<close> on a heap that satisfies the invariant: that it returns, what
  it leaves in the arrays and that the invariant holds again. The lemmas whose names end in
  \<open>_rep\<close> or \<open>_ok\<close> are about the arrays alone, those ending in \<open>_state\<close> about the invariant.
\<close>

section \<open>The routines on the arrays\<close>

section \<open>Access under the invariant\<close>

lemma th_rep_heap: "th_rep h xs ss \<Longrightarrow> th_heap h = map Some xs @ drop (length xs) (th_heap h)"
  by (metis append_take_drop_id th_rep_def)

lemma th_rep_slots: "th_rep h xs ss \<Longrightarrow> th_slots h = map Some ss @ drop (length ss) (th_slots h)"
  by (metis append_take_drop_id th_rep_def)

lemma th_rep_size: "th_rep h xs ss \<Longrightarrow> unat (th_size h) = length xs"
  by (simp add: th_rep_def)

lemma th_rep_slot_cnt: "th_rep h xs ss \<Longrightarrow> unat (th_slot_cnt h) = length ss"
  by (simp add: th_rep_def)

lemma th_rep_fits:
  assumes "th_rep h xs ss"
  shows "length xs \<le> unat (th_heap_cap h)" "length ss \<le> unat (th_slot_cap h)"
proof -
  from assms have t: "take (length xs) (th_heap h) = map Some xs" "length (th_heap h) = unat (th_heap_cap h)"
    "take (length ss) (th_slots h) = map Some ss" "length (th_slots h) = unat (th_slot_cap h)"
    by (auto simp: th_rep_def)
  from arg_cong [OF t(1), of length] t(2) show "length xs \<le> unat (th_heap_cap h)" by simp
  from arg_cong [OF t(3), of length] t(4) show "length ss \<le> unat (th_slot_cap h)" by simp
qed

lemma elem_at_rep:
  assumes "th_rep h xs ss" "unat pos < length xs"
  shows "ntt_timer_heap_elem_at env h pos = Some (xs ! unat pos)"
  by (rule elem_at_prefix [OF th_rep_heap [OF assms(1)] th_rep_size [OF assms(1)] assms(2)])

lemma slot_at_rep:
  assumes "th_rep h xs ss" "unat i < length ss"
  shows "ntt_timer_heap_slot_at env h i = Some (ss ! unat i)"
  using assms arr_read_prefix [OF th_rep_slots [OF assms(1)] assms(2)]
  by (simp add: ntt_timer_heap_slot_at_def word_less_nat_alt th_rep_slot_cnt)

lemma slot_put_rep:
  assumes "th_rep h xs ss" "unat i < length ss"
  obtains a where "slot_put h i s = Some (h\<lparr>th_slots := a\<rparr>)"
    and "th_rep (h\<lparr>th_slots := a\<rparr>) xs (ss[unat i := s])"
proof
  let ?a = "map Some (ss[unat i := s]) @ drop (length ss) (th_slots h)"
  have l: "length ss \<le> length (th_slots h)" using assms th_rep_fits by (simp add: th_rep_def)
  show "slot_put h i s = Some (h\<lparr>th_slots := ?a\<rparr>)"
    using arr_write_prefix [OF th_rep_slots [OF assms(1)] assms(2), of s]
    by (simp add: slot_put_def)
  show "th_rep (h\<lparr>th_slots := ?a\<rparr>) xs (ss[unat i := s])"
    using assms l by (simp add: th_rep_def)
qed

lemma elem_live_rep:
  assumes "th_rep h xs ss" "unat (te_index e) < length ss"
  shows "ntt_timer_heap_elem_live env h e = Some (te_live ss e)"
  using assms by (simp add: ntt_timer_heap_elem_live_def slot_at_rep te_live_def)

section \<open>Capacity\<close>

lemma grow_capacity_loop_ok:
  assumes "0 < unat cap" "unat cnt \<le> 2147483648"
  shows "\<exists>r. grow_capacity_loop cap cnt = Some r \<and> unat cnt \<le> unat r \<and>
    (r = cap \<or> unat r < 2 * unat cnt)"
  using assms(1)
proof (induction "unat cnt - unat cap" arbitrary: cap rule: less_induct)
  case less
  show ?case
  proof (cases "cap < cnt")
    case False
    then show ?thesis by (subst grow_capacity_loop.simps) (auto simp: word_less_nat_alt)
  next
    case True
    then have lt: "unat cap < unat cnt" by (simp add: word_less_nat_alt)
    then have m: "unat (cap * 2) = 2 * unat cap"
      using assms(2) by (subst unat_mult_noflow) auto
    obtain r where "grow_capacity_loop (cap * 2) cnt = Some r" "unat cnt \<le> unat r"
      "r = cap * 2 \<or> unat r < 2 * unat cnt"
      using less.hyps [of "cap * 2"] less.prems lt m
      by (metis diff_less_mono2 less_add_same_cancel1 mult_2 nat_0_less_mult_iff zero_less_numeral)
    with True lt m show ?thesis by (subst grow_capacity_loop.simps) auto
  qed
qed

lemma grow_capacity_ok:
  assumes "unat cnt \<le> 2147483648"
  obtains r where "ntt_timer_heap_grow_capacity cap cnt = Some r" "unat cnt \<le> unat r"
proof -
  have "0 < unat (if cap = 0 then NTT_TIMER_MIN_CAPACITY else cap)"
    by (simp add: NTT_TIMER_MIN_CAPACITY_def unat_gt_0)
  from grow_capacity_loop_ok [OF this assms] show thesis
    using that by (auto simp: ntt_timer_heap_grow_capacity_def)
qed

lemma th_rep_resize_heap:
  assumes "th_rep h xs ss" "length xs \<le> unat c"
  shows "th_rep (h\<lparr>th_heap := resize (th_heap h) (unat c), th_heap_cap := c\<rparr>) xs ss"
proof -
  have "take (length xs) (resize (th_heap h) (unat c)) = map Some xs"
    by (subst resize_prefix [OF th_rep_heap [OF assms(1)] assms(2)]) simp
  with assms(1) show ?thesis by (simp add: th_rep_def)
qed

lemma th_rep_resize_slots:
  assumes "th_rep h xs ss" "length ss \<le> unat c"
  shows "th_rep (h\<lparr>th_slots := resize (th_slots h) (unat c), th_slot_cap := c\<rparr>) xs ss"
proof -
  have "take (length ss) (resize (th_slots h) (unat c)) = map Some ss"
    by (subst resize_prefix [OF th_rep_slots [OF assms(1)] assms(2)]) simp
  with assms(1) show ?thesis by (simp add: th_rep_def)
qed

lemma reserve_elem_ok:
  assumes "env_ok env" "th_rep h xs ss" "length xs < TH_MAX"
  obtains a c where "ntt_timer_heap_reserve_elem env h (th_size h) =
      Some (h\<lparr>th_heap := a, th_heap_cap := c\<rparr>)"
    and "th_rep (h\<lparr>th_heap := a, th_heap_cap := c\<rparr>) xs ss" "length xs < unat c"
proof (cases "th_size h < th_heap_cap h")
  case True
  then show thesis
    using that [where a = "th_heap h" and c = "th_heap_cap h"] assms
    by (simp add: ntt_timer_heap_reserve_elem_def word_less_nat_alt th_rep_def)
next
  case False
  have s: "unat (th_size h + 1) = length xs + 1"
    using assms by (subst unat_add_noflow) (simp_all add: th_rep_def TH_MAX_def)
  then obtain r where r: "ntt_timer_heap_grow_capacity (th_heap_cap h) (th_size h + 1) = Some r"
    "length xs + 1 \<le> unat r"
    using grow_capacity_ok [of "th_size h + 1" "th_heap_cap h"] assms(3) by (auto simp: TH_MAX_def)
  then show thesis
    using that [where a = "resize (th_heap h) (unat r)" and c = r] assms False th_rep_resize_heap [OF assms(2), of r]
    by (simp add: ntt_timer_heap_reserve_elem_def ntt_realloc_or_die_def)
qed

lemma reserve_slot_ok:
  assumes "env_ok env" "th_rep h xs ss" "length ss < TH_MAX"
  obtains a c where "ntt_timer_heap_reserve_slot env h (th_slot_cnt h) =
      Some (h\<lparr>th_slots := a, th_slot_cap := c\<rparr>)"
    and "th_rep (h\<lparr>th_slots := a, th_slot_cap := c\<rparr>) xs ss" "length ss < unat c"
proof (cases "th_slot_cnt h < th_slot_cap h")
  case True
  then show thesis
    using that [where a = "th_slots h" and c = "th_slot_cap h"] assms
    by (simp add: ntt_timer_heap_reserve_slot_def word_less_nat_alt th_rep_def)
next
  case False
  have s: "unat (th_slot_cnt h + 1) = length ss + 1"
    using assms by (subst unat_add_noflow) (simp_all add: th_rep_def TH_MAX_def)
  then obtain r where r: "ntt_timer_heap_grow_capacity (th_slot_cap h) (th_slot_cnt h + 1) = Some r"
    "length ss + 1 \<le> unat r"
    using grow_capacity_ok [of "th_slot_cnt h + 1" "th_slot_cap h"] assms(3) by (auto simp: TH_MAX_def)
  then show thesis
    using that [where a = "resize (th_slots h) (unat r)" and c = r] assms False th_rep_resize_slots [OF assms(2), of r]
    by (simp add: ntt_timer_heap_reserve_slot_def ntt_realloc_or_die_def)
qed

lemma shrink_ok:
  assumes "env_ok env" "th_rep h xs ss" "length xs < TH_MAX"
  obtains a c where "ntt_timer_heap_shrink env h = Some (h\<lparr>th_heap := a, th_heap_cap := c\<rparr>)"
    and "th_rep (h\<lparr>th_heap := a, th_heap_cap := c\<rparr>) xs ss"
proof (cases "th_heap_cap h \<le> NTT_TIMER_MIN_CAPACITY \<or> th_size h * 4 > th_heap_cap h")
  case True
  then show thesis using that [where a = "th_heap h" and c = "th_heap_cap h"] assms(2)
    by (auto simp: ntt_timer_heap_shrink_def)
next
  case False
  have "unat (th_size h * 4) = length xs * 4"
    using assms by (subst unat_mult_noflow) (simp_all add: th_rep_def TH_MAX_def)
  with False have "length xs * 4 \<le> unat (th_heap_cap h)"
    by (simp add: word_less_nat_alt not_less)
  then have "length xs \<le> unat (th_heap_cap h div 2)"
    unfolding unat_half by linarith
  with False show thesis
    using that [where a = "resize (th_heap h) (unat (th_heap_cap h div 2))" and c = "th_heap_cap h div 2"]
      assms th_rep_resize_heap [OF assms(2), of "th_heap_cap h div 2"]
    by (simp add: ntt_timer_heap_shrink_def ntt_realloc_or_die_def Let_def)
qed

section \<open>Dropping the root\<close>

lemma th_rep_set_heap:
  assumes "th_rep h xs ss" "length ys \<le> length xs" "unat n = length ys"
    and "a = map Some ys @ rest" "length a = length (th_heap h)"
  shows "th_rep (h\<lparr>th_heap := a, th_size := n\<rparr>) ys ss"
  using assms by (simp add: th_rep_def)

lemma pop_root_ok:
  assumes env: "env_ok env" and rep: "th_rep h xs ss" and n: "length xs < TH_MAX" and ne: "xs \<noteq> []"
  obtains a c where
    "ntt_timer_heap_pop_root env h =
       Some (h\<lparr>th_size := th_size h - 1, th_heap := a, th_heap_cap := c\<rparr>)"
    and "th_rep (h\<lparr>th_size := th_size h - 1, th_heap := a, th_heap_cap := c\<rparr>)
       (pop_min ntt_timer_heap_less xs) ss"
proof -
  have size: "unat (th_size h) = length xs" "0 < unat (th_size h)" using rep ne by (auto simp: th_rep_def)
  then have last: "unat (th_size h - 1) = length xs - 1" by (simp add: unat_pred)
  show thesis
  proof (cases "th_size h - 1 = 0")
    case True
    then have l1: "length xs = 1" using last ne by (cases xs) auto
    have "th_rep (h\<lparr>th_size := 0\<rparr>) [] ss" using rep by (simp add: th_rep_def)
    then obtain a c where "ntt_timer_heap_shrink env (h\<lparr>th_size := 0\<rparr>) =
        Some (h\<lparr>th_size := 0, th_heap := a, th_heap_cap := c\<rparr>)"
      "th_rep (h\<lparr>th_size := 0, th_heap := a, th_heap_cap := c\<rparr>) [] ss"
      by (rule shrink_ok [OF env]) (simp add: TH_MAX_def)
    then show thesis
      using that [where a = a and c = c] True size l1
      by (simp add: ntt_timer_heap_pop_root_def word_less_nat_alt pop_min_def)
  next
    case False
    then have l2: "1 < length xs" using last by (metis One_nat_def diff_is_0_eq linorder_not_le unat_eq_zero_iff)
    let ?ys = "butlast xs" and ?last = "th_size h - 1"
    let ?rest = "Some (last xs) # drop (length xs) (th_heap h)"
    let ?zs = "hole_down ntt_timer_heap_less ?ys 0 (last xs)"
    have "map Some xs = map Some (?ys @ [last xs])" using ne by simp
    with th_rep_heap [OF rep] have heap: "th_heap h = map Some ?ys @ ?rest" by simp
    have at: "ntt_timer_heap_elem_at env h ?last = Some (last xs)"
      using elem_at_rep [OF rep, of ?last env] last ne by (simp add: last_conv_nth)
    have down: "ntt_timer_heap_sift_down env (h\<lparr>th_size := ?last\<rparr>) 0 (last xs) =
      Some (h\<lparr>th_size := ?last, th_heap := map Some ?zs @ ?rest\<rparr>)"
      using sift_down_eq [of "h\<lparr>th_size := ?last\<rparr>" ?ys ?rest 0 env "last xs"] heap last l2 n
      by (simp add: TH_MAX_def)
    have "th_rep (h\<lparr>th_size := ?last, th_heap := map Some ?zs @ ?rest\<rparr>) ?zs ss"
      using rep last l2 th_rep_fits(1) [OF rep] by (simp add: th_rep_def)
    moreover have "length ?zs < TH_MAX" using n by simp
    ultimately obtain a c where
      "ntt_timer_heap_shrink env (h\<lparr>th_size := ?last, th_heap := map Some ?zs @ ?rest\<rparr>) =
        Some (h\<lparr>th_size := ?last, th_heap := a, th_heap_cap := c\<rparr>)"
      "th_rep (h\<lparr>th_size := ?last, th_heap := a, th_heap_cap := c\<rparr>) ?zs ss"
      by (rule shrink_ok [OF env]) simp
    then show thesis
      using that [where a = a and c = c] False size l2 at down
      by (simp add: ntt_timer_heap_pop_root_def word_less_nat_alt pop_min_def)
  qed
qed

section \<open>Sifting and writing under the representation\<close>

lemma write_heap_rep:
  assumes "th_rep h xs ss" "unat i < length xs"
  obtains a where "arr_write (th_heap h) i e = Some a"
    and "th_rep (h\<lparr>th_heap := a\<rparr>) (xs[unat i := e]) ss"
proof
  let ?a = "map Some (xs[unat i := e]) @ drop (length xs) (th_heap h)"
  show "arr_write (th_heap h) i e = Some ?a"
    by (rule arr_write_prefix [OF th_rep_heap [OF assms(1)] assms(2)])
  show "th_rep (h\<lparr>th_heap := ?a\<rparr>) (xs[unat i := e]) ss"
    using assms th_rep_fits(1) [OF assms(1)] by (simp add: th_rep_def)
qed

lemma sift_up_rep:
  assumes "th_rep h xs ss" "unat pos < length xs"
  obtains a where "ntt_timer_heap_sift_up env h pos e = Some (h\<lparr>th_heap := a\<rparr>)"
    and "th_rep (h\<lparr>th_heap := a\<rparr>) (hole_up ntt_timer_heap_less xs (unat pos) e) ss"
proof
  let ?a = "map Some (hole_up ntt_timer_heap_less xs (unat pos) e) @ drop (length xs) (th_heap h)"
  show "ntt_timer_heap_sift_up env h pos e = Some (h\<lparr>th_heap := ?a\<rparr>)"
    by (rule sift_up_eq [OF th_rep_heap [OF assms(1)] th_rep_size [OF assms(1)] assms(2)])
  show "th_rep (h\<lparr>th_heap := ?a\<rparr>) (hole_up ntt_timer_heap_less xs (unat pos) e) ss"
    using assms th_rep_fits(1) [OF assms(1)] by (simp add: th_rep_def)
qed

lemma sift_down_rep:
  assumes "th_rep h xs ss" "unat pos < length xs" "length xs < TH_MAX"
  obtains a where "ntt_timer_heap_sift_down env h pos e = Some (h\<lparr>th_heap := a\<rparr>)"
    and "th_rep (h\<lparr>th_heap := a\<rparr>) (hole_down ntt_timer_heap_less xs (unat pos) e) ss"
proof
  let ?a = "map Some (hole_down ntt_timer_heap_less xs (unat pos) e) @ drop (length xs) (th_heap h)"
  show "ntt_timer_heap_sift_down env h pos e = Some (h\<lparr>th_heap := ?a\<rparr>)"
    using sift_down_eq [OF th_rep_heap [OF assms(1)] th_rep_size [OF assms(1)] assms(2)] assms(3)
    by (simp add: TH_MAX_def)
  show "th_rep (h\<lparr>th_heap := ?a\<rparr>) (hole_down ntt_timer_heap_less xs (unat pos) e) ss"
    using assms th_rep_fits(1) [OF assms(1)] by (simp add: th_rep_def)
qed

section \<open>Compaction\<close>

lemma compact_filter_ok:
  assumes "th_rep h (fs @ gs @ zs) ss" "unat pos = length (fs @ gs)" "unat out = length fs"
    and "\<forall>z \<in> set zs. unat (te_index z) < length ss"
  shows "\<exists>n a gs'. compact_filter env h pos out = Some (n, h\<lparr>th_heap := a\<rparr>) \<and>
    th_rep (h\<lparr>th_heap := a\<rparr>) (fs @ filter (te_live ss) zs @ gs') ss \<and>
    unat n = length fs + length (filter (te_live ss) zs)"
  using assms
proof (induction zs arbitrary: h fs gs pos out)
  case Nil
  then have "\<not> pos < th_size h" by (simp add: th_rep_def word_less_nat_alt)
  with Nil show ?case
    by (subst compact_filter.simps) (auto intro!: exI [of _ "th_heap h"] exI [of _ gs])
next
  case (Cons z zs)
  let ?xs = "fs @ gs @ z # zs"
  have lt: "pos < th_size h" "unat pos < length ?xs" "unat out < length ?xs" "out < th_size h"
    using Cons.prems by (auto simp: th_rep_def word_less_nat_alt)
  have pos1: "unat (pos + 1) = length (fs @ gs) + 1"
    using Cons.prems(2) unat_succ_below lt(1) by (simp add: word_less_nat_alt)
  have at: "ntt_timer_heap_elem_at env h pos = Some z"
    using elem_at_rep [OF Cons.prems(1) lt(2)] Cons.prems(2) by (simp add: nth_append)
  have live: "ntt_timer_heap_elem_live env h z = Some (te_live ss z)"
    by (rule elem_live_rep [OF Cons.prems(1)]) (use Cons.prems(4) in simp)
  show ?case
  proof (cases "te_live ss z")
    case True
    obtain a where w: "arr_write (th_heap h) out z = Some a"
      and rep: "th_rep (h\<lparr>th_heap := a\<rparr>) (?xs[unat out := z]) ss"
      by (rule write_heap_rep [OF Cons.prems(1) lt(3)])
    have upd: "?xs[unat out := z] = (fs @ [z]) @ tl (gs @ [z]) @ zs"
      using Cons.prems(3) by (cases gs) (simp_all add: list_update_append)
    have out1: "unat (out + 1) = length (fs @ [z])"
      using Cons.prems(3) unat_succ_below lt(4) by (simp add: word_less_nat_alt)
    obtain n b gs' where "compact_filter env (h\<lparr>th_heap := a\<rparr>) (pos + 1) (out + 1) =
        Some (n, h\<lparr>th_heap := b\<rparr>)"
      "th_rep (h\<lparr>th_heap := b\<rparr>) ((fs @ [z]) @ filter (te_live ss) zs @ gs') ss"
      "unat n = length (fs @ [z]) + length (filter (te_live ss) zs)"
      using Cons.IH [of "h\<lparr>th_heap := a\<rparr>" "fs @ [z]" "tl (gs @ [z])" "pos + 1" "out + 1"]
        rep upd pos1 out1 Cons.prems(4) by auto
    then show ?thesis using True lt at live w
      by (subst compact_filter.simps) auto
  next
    case False
    have "\<exists>n b gs'. compact_filter env h (pos + 1) out = Some (n, h\<lparr>th_heap := b\<rparr>) \<and>
      th_rep (h\<lparr>th_heap := b\<rparr>) (fs @ filter (te_live ss) zs @ gs') ss \<and>
      unat n = length fs + length (filter (te_live ss) zs)"
      by (rule Cons.IH [where gs = "gs @ [z]"]) (use Cons.prems pos1 in auto)
    then show ?thesis using False lt at live
      by (subst compact_filter.simps) auto
  qed
qed

lemma compact_rebuild_ok:
  assumes "th_rep h xs ss" "unat i \<le> length xs" "length xs < TH_MAX"
  shows "\<exists>a. compact_rebuild env h i = Some (h\<lparr>th_heap := a\<rparr>) \<and>
    th_rep (h\<lparr>th_heap := a\<rparr>) (floyd ntt_timer_heap_less xs (unat i)) ss"
  using assms
proof (induction "unat i" arbitrary: i h xs)
  case 0
  then show ?case
    by (subst compact_rebuild.simps) (auto intro!: exI [of _ "th_heap h"] simp: word_less_nat_alt)
next
  case (Suc k)
  have i: "0 < i" "unat (i - 1) = k" using Suc.hyps(2) unat_pred [of i] by (auto simp: word_less_nat_alt)
  have k: "unat (i - 1) < length xs" using Suc i by simp
  obtain a where down: "ntt_timer_heap_sift_down env h (i - 1) (xs ! k) = Some (h\<lparr>th_heap := a\<rparr>)"
    and rep: "th_rep (h\<lparr>th_heap := a\<rparr>) (hole_down ntt_timer_heap_less xs k (xs ! k)) ss"
    using sift_down_rep [OF Suc.prems(1) k Suc.prems(3)] i by metis
  have "\<exists>b. compact_rebuild env (h\<lparr>th_heap := a\<rparr>) (i - 1) = Some (h\<lparr>th_heap := a, th_heap := b\<rparr>) \<and>
    th_rep (h\<lparr>th_heap := a, th_heap := b\<rparr>)
      (floyd ntt_timer_heap_less (hole_down ntt_timer_heap_less xs k (xs ! k)) (unat (i - 1))) ss"
    by (rule Suc.hyps(1)) (use rep i k Suc.prems in auto)
  then show ?case using i down elem_at_rep [OF Suc.prems(1) k] Suc.hyps(2)
    by (subst compact_rebuild.simps) (auto simp flip: Suc.hyps(2))
qed

lemma book_filter:
  assumes "book xs ss seq dead"
  shows "book (filter (te_live ss) xs) ss seq 0"
  using assms by (auto simp: book_def slot_wf_def distinct_map_filter)

lemma th_state_dead_le:
  assumes "th_state h xs ss fl"
  shows "unat (th_tombstones h) \<le> length xs"
  using assms by (simp add: th_state_def book_def)

lemma th_state_index:
  "th_state h xs ss fl \<Longrightarrow> x \<in> set xs \<Longrightarrow> unat (te_index x) < length ss"
  by (simp add: th_state_def book_def te_wf_def)

lemma compact_rebuild_heap:
  assumes rep: "th_rep h ys ss" and n: "length ys < TH_MAX"
  obtains a zs where "(if th_size h > 1 then compact_rebuild env h (th_size h div 2) else Some h) =
      Some (h\<lparr>th_heap := a\<rparr>)" "th_rep (h\<lparr>th_heap := a\<rparr>) zs ss" "is_heap ntt_timer_heap_less zs"
    "mset zs = mset ys"
proof (cases "th_size h > 1")
  case True
  let ?zs = "floyd ntt_timer_heap_less ys (length ys div 2)"
  have half: "unat (th_size h div 2) = length ys div 2"
    using rep by (simp add: th_rep_def unat_half)
  then obtain a where "compact_rebuild env h (th_size h div 2) = Some (h\<lparr>th_heap := a\<rparr>)"
    "th_rep (h\<lparr>th_heap := a\<rparr>) ?zs ss"
    using compact_rebuild_ok [OF rep, of "th_size h div 2" env] n by auto
  then show thesis
    using that [where a = a and zs = ?zs] True timer_order.floyd_half_heap [of ys]
    by (simp add: mset_floyd)
next
  case False
  then have "length ys \<le> 1" using rep by (simp add: th_rep_def word_less_nat_alt)
  then have "is_heap ntt_timer_heap_less ys" by (auto simp: heap_from_def)
  then show thesis using that [where a = "th_heap h" and zs = ys] rep False by simp
qed

lemma th_rep_cut:
  assumes "th_rep h (ys @ gs) ss" "unat n = length ys"
  shows "th_rep (h\<lparr>th_size := n\<rparr>) ys ss"
  using assms take_add_prefix [of "length ys" "length gs" "th_heap h" "map Some ys" "map Some gs"]
  by (simp add: th_rep_def)

lemma compact_state:
  assumes env: "env_ok env" and st: "th_state h xs ss fl"
  obtains h' xs' where "ntt_timer_heap_compact env h = Some h'" "th_state h' xs' ss fl"
    "live_mset ss xs' = live_mset ss xs" "th_seq_next h' = th_seq_next h"
    "mset xs' \<subseteq># mset xs" "unat (th_tombstones h') * 2 \<le> length xs'"
proof (cases "th_tombstones h * 2 \<le> th_size h")
  case True
  have "unat (th_tombstones h * 2) = unat (th_tombstones h) * 2"
    using th_state_dead_le [OF st] st by (subst unat_mult_noflow) (simp_all add: th_state_def TH_MAX_def)
  then have "unat (th_tombstones h) * 2 \<le> length xs"
    using True st by (simp add: word_le_nat_alt th_state_def th_rep_def)
  then show thesis using that [of h xs] st True by (simp add: ntt_timer_heap_compact_def)
next
  case False
  let ?ys = "filter (te_live ss) xs"
  have rep: "th_rep h xs ss" and n: "length xs < TH_MAX"
    and b: "book xs ss (th_seq_next h) (unat (th_tombstones h))" using st by (auto simp: th_state_def)
  obtain out a gs where filt: "compact_filter env h 0 0 = Some (out, h\<lparr>th_heap := a\<rparr>)"
    and rep1: "th_rep (h\<lparr>th_heap := a\<rparr>) (?ys @ gs) ss" and out: "unat out = length ?ys"
    using compact_filter_ok [of h "[]" "[]" xs ss 0 0 env] rep th_state_index [OF st] by auto
  let ?h2 = "h\<lparr>th_heap := a, th_size := out, th_tombstones := 0\<rparr>"
  have rep2: "th_rep ?h2 ?ys ss" using th_rep_cut [OF rep1 out] by (simp add: th_rep_def)
  have ylen: "length ?ys < TH_MAX" using n length_filter_le le_less_trans by blast
  obtain b zs where rebuilt: "(if th_size ?h2 > 1 then compact_rebuild env ?h2 (th_size ?h2 div 2)
        else Some ?h2) = Some (?h2\<lparr>th_heap := b\<rparr>)"
    and rep3: "th_rep (?h2\<lparr>th_heap := b\<rparr>) zs ss" and heap: "is_heap ntt_timer_heap_less zs"
    and perm: "mset zs = mset ?ys"
    by (rule compact_rebuild_heap [OF rep2 ylen])
  have zlen: "length zs < TH_MAX" using perm ylen by (metis size_mset)
  obtain c d where shr: "ntt_timer_heap_shrink env (?h2\<lparr>th_heap := b\<rparr>) =
      Some (?h2\<lparr>th_heap := b, th_heap := c, th_heap_cap := d\<rparr>)"
    and rep4: "th_rep (?h2\<lparr>th_heap := b, th_heap := c, th_heap_cap := d\<rparr>) zs ss"
    by (rule shrink_ok [OF env rep3 zlen])
  have "book zs ss (th_seq_next h) 0"
    using book_filter [OF b] book_perm [OF perm] by simp
  then have "th_state (?h2\<lparr>th_heap := b, th_heap := c, th_heap_cap := d\<rparr>) zs ss fl"
    using rep4 heap zlen st by (simp add: th_state_def)
  moreover have "ntt_timer_heap_compact env h = Some (?h2\<lparr>th_heap := b, th_heap := c, th_heap_cap := d\<rparr>)"
    using False filt rebuilt shr by (simp add: ntt_timer_heap_compact_def Let_def)
  moreover have "live_mset ss zs = live_mset ss xs" using perm by (simp add: filter_filter_mset)
  moreover have "mset zs \<subseteq># mset xs" using perm by simp
  ultimately show thesis using that by simp
qed

section \<open>Dropping the root\<close>

lemma mset_pop_root:
  assumes "xs \<noteq> []"
  shows "mset xs = mset (xs ! 0 # pop_min ntt_timer_heap_less xs)"
proof -
  have "xs ! 0 \<in># mset xs" using assms by simp
  then show ?thesis by (simp add: mset_pop_min [OF assms])
qed

lemma pop_dead_state:
  assumes env: "env_ok env" and st: "th_state h xs ss fl" and ne: "xs \<noteq> []"
    and dead: "\<not> te_live ss (xs ! 0)"
  obtains h1 where "ntt_timer_heap_pop_root env h = Some h1" "0 < unat (th_tombstones h1)"
    "ntt_timer_heap_elem_live env h1 (xs ! 0) = Some False"
    "th_state (h1\<lparr>th_tombstones := th_tombstones h1 - 1\<rparr>) (pop_min ntt_timer_heap_less xs) ss fl"
    "th_seq_next h1 = th_seq_next h"
proof -
  let ?ys = "pop_min ntt_timer_heap_less xs"
  let ?h = "\<lambda>a c. h\<lparr>th_size := th_size h - 1, th_heap := a, th_heap_cap := c\<rparr>"
  have rep: "th_rep h xs ss" and n: "length xs < TH_MAX"
    and b: "book xs ss (th_seq_next h) (unat (th_tombstones h))" using st by (auto simp: th_state_def)
  obtain a c where pop: "ntt_timer_heap_pop_root env h = Some (?h a c)" and rep1: "th_rep (?h a c) ?ys ss"
    by (rule pop_root_ok [OF env rep n ne])
  let ?h1 = "?h a c"
  have b': "book (xs ! 0 # ?ys) ss (th_seq_next h) (unat (th_tombstones h))"
    using b book_perm [OF mset_pop_root [OF ne]] by simp
  note dropped = book_dropped [OF b' dead]
  have "th_state (?h1\<lparr>th_tombstones := th_tombstones ?h1 - 1\<rparr>) ?ys ss fl"
    using st rep1 dropped timer_order.pop_min_heap
    by (auto simp: th_state_def th_rep_def unat_pred)
  moreover have "ntt_timer_heap_elem_live env ?h1 (xs ! 0) = Some False"
    using elem_live_rep [OF rep1, of "xs ! 0"] th_state_index [OF st, of "xs ! 0"] ne dead by simp
  ultimately show thesis using that [OF pop] dropped(2) by simp
qed

lemma drop_dead_root_state:
  assumes env: "env_ok env" and st: "th_state h xs ss fl"
  shows "\<exists>h' xs'. ntt_timer_heap_drop_dead_root env h = Some h' \<and> th_state h' xs' ss fl \<and>
    (xs' \<noteq> [] \<longrightarrow> te_live ss (xs' ! 0)) \<and> live_mset ss xs' = live_mset ss xs \<and>
    th_seq_next h' = th_seq_next h"
  using st
proof (induction "length xs" arbitrary: h xs rule: less_induct)
  case less
  have size: "unat (th_size h) = length xs" using less.prems by (simp add: th_state_def th_rep_def)
  show ?case
  proof (cases "xs = []")
    case True
    then show ?thesis using size less.prems
      by (subst ntt_timer_heap_drop_dead_root.simps) (auto simp: word_less_nat_alt)
  next
    case False
    then have at: "ntt_timer_heap_elem_at env h 0 = Some (xs ! 0)"
      and live: "ntt_timer_heap_elem_live env h (xs ! 0) = Some (te_live ss (xs ! 0))"
      using less.prems elem_at_rep [of h xs ss 0] elem_live_rep [of h xs ss "xs ! 0"]
        th_state_index [OF less.prems, of "xs ! 0"] by (auto simp: th_state_def)
    show ?thesis
    proof (cases "te_live ss (xs ! 0)")
      case True
      then show ?thesis using size False at live less.prems
        by (subst ntt_timer_heap_drop_dead_root.simps) (auto simp: word_less_nat_alt)
    next
      case dead: False
      obtain h1 where pop: "ntt_timer_heap_pop_root env h = Some h1" "0 < unat (th_tombstones h1)"
        and st1: "th_state (h1\<lparr>th_tombstones := th_tombstones h1 - 1\<rparr>) (pop_min ntt_timer_heap_less xs) ss fl"
        and seq: "th_seq_next h1 = th_seq_next h"
        by (rule pop_dead_state [OF env less.prems False dead])
      have "live_mset ss xs = live_mset ss (pop_min ntt_timer_heap_less xs)"
        using dead by (subst mset_pop_root [OF False]) simp
      moreover have "length (pop_min ntt_timer_heap_less xs) < length xs" using False by simp
      ultimately obtain h' xs' where
        "ntt_timer_heap_drop_dead_root env (h1\<lparr>th_tombstones := th_tombstones h1 - 1\<rparr>) = Some h'"
        "th_state h' xs' ss fl" "xs' \<noteq> [] \<longrightarrow> te_live ss (xs' ! 0)"
        "live_mset ss xs' = live_mset ss xs" "th_seq_next h' = th_seq_next h"
        using less.hyps [OF _ st1] seq by auto
      then show ?thesis using size False at live dead pop
        by (subst ntt_timer_heap_drop_dead_root.simps) (auto simp: word_less_nat_alt)
    qed
  qed
qed

section \<open>Slots\<close>

text \<open>
  Allocating a slot and storing the task in it, as \<open>ntt_timer_heap_push\<close> does before it
  touches the heap. The entry \<open>e\<close> that is about to be pushed carries the index and the version.
\<close>

lemma alloc_slot_reuse:
  assumes st: "th_state h xs ss fl" and fh: "th_free_head h \<noteq> NTT_TIMER_SLOT_NONE"
  obtains s n a fl' where
    "ntt_timer_heap_alloc_slot env h = Some (th_free_head h, h\<lparr>th_free_head := n, th_slots := a\<rparr>)"
    "th_rep (h\<lparr>th_free_head := n, th_slots := a\<rparr>) xs (ss[unat (th_free_head h) := s])"
    "unat (th_free_head h) < length ss" "even (ts_version (ss ! unat (th_free_head h)))"
    "ts_version s = ts_version (ss ! unat (th_free_head h)) + 1"
    "\<forall>s'. odd (ts_version s') \<longrightarrow> free_list (ss[unat (th_free_head h) := s']) n fl'"
proof -
  let ?i = "th_free_head h"
  have rep: "th_rep h xs ss" and fl: "free_list ss ?i fl" using st by (auto simp: th_state_def)
  let ?w = "\<lambda>s. s\<lparr>ts_version := ts_version s + 1\<rparr>"
  obtain n fl' where i: "fl = ?i # fl'" "unat ?i < length ss" "even (ts_version (ss ! unat ?i))"
    "ts_next_free (ss ! unat ?i) = Some n"
    and pop: "\<forall>s'. odd (ts_version s') \<longrightarrow> free_list (ss[unat ?i := s']) n fl'"
    by (rule free_list_pop [OF fl fh])
  have rep': "th_rep (h\<lparr>th_free_head := n\<rparr>) xs ss" using rep by (simp add: th_rep_def)
  obtain a where put: "slot_put (h\<lparr>th_free_head := n\<rparr>) ?i (?w (ss ! unat ?i)) =
      Some (h\<lparr>th_free_head := n, th_slots := a\<rparr>)"
    and rep1: "th_rep (h\<lparr>th_free_head := n, th_slots := a\<rparr>) xs (ss[unat ?i := ?w (ss ! unat ?i)])"
    by (rule slot_put_rep [OF rep' i(2)])
  have "ntt_timer_heap_alloc_slot env h = Some (?i, h\<lparr>th_free_head := n, th_slots := a\<rparr>)"
    using fh slot_at_rep [OF rep i(2)] i put by (simp add: ntt_timer_heap_alloc_slot_def Let_def)
  then show thesis using that rep1 i pop by simp
qed

lemma alloc_slot_extend:
  assumes env: "env_ok env" and st: "th_state h xs ss fl" and fh: "th_free_head h = NTT_TIMER_SLOT_NONE"
    and room: "length ss < TH_MAX"
  obtains s a c where
    "ntt_timer_heap_alloc_slot env h =
       Some (th_slot_cnt h, h\<lparr>th_slot_cap := c, th_slot_cnt := th_slot_cnt h + 1, th_slots := a\<rparr>)"
    "th_rep (h\<lparr>th_slot_cap := c, th_slot_cnt := th_slot_cnt h + 1, th_slots := a\<rparr>) xs (ss @ [s])"
    "ts_version s = 1"
proof -
  let ?i = "th_slot_cnt h"
  have rep: "th_rep h xs ss" and cnt: "unat ?i = length ss" using st by (auto simp: th_state_def th_rep_def)
  have cnt1: "unat (?i + 1) = length ss + 1"
    using cnt room by (subst unat_add_noflow) (simp_all add: TH_MAX_def)
  obtain a c where res: "ntt_timer_heap_reserve_slot env h ?i = Some (h\<lparr>th_slots := a, th_slot_cap := c\<rparr>)"
    and rep1: "th_rep (h\<lparr>th_slots := a, th_slot_cap := c\<rparr>) xs ss" and c: "length ss < unat c"
    by (rule reserve_slot_ok [OF env rep room])
  define s where "s = (case arr_read a ?i of
      None \<Rightarrow> \<lparr>ts_task = None, ts_version = 1, ts_next_free = None\<rparr> | Some slot \<Rightarrow> slot\<lparr>ts_version := 1\<rparr>)"
  have a: "a = map Some ss @ drop (length ss) a" "length a = unat c"
    using th_rep_slots [OF rep1] rep1 by (auto simp: th_rep_def)
  let ?a = "map Some (ss @ [s]) @ tl (drop (length ss) a)"
  have w: "arr_write a ?i s = Some ?a"
    by (rule arr_write_next [OF a(1) cnt]) (use a(2) c in auto)
  have "ntt_timer_heap_alloc_slot env h = Some (?i, h\<lparr>th_slots := a, th_slot_cap := c, th_slot_cnt := ?i + 1, th_slots := ?a\<rparr>)"
    using fh res cnt cnt1 w
    by (simp add: ntt_timer_heap_alloc_slot_def Let_def slot_put_def word_less_nat_alt s_def)
  moreover have "th_rep (h\<lparr>th_slot_cap := c, th_slot_cnt := ?i + 1, th_slots := ?a\<rparr>) xs (ss @ [s])"
    using rep1 cnt1 a(2) c by (simp add: th_rep_def)
  moreover have "ts_version s = 1" by (simp add: s_def split: option.splits)
  ultimately show thesis using that by simp
qed

lemma slot_taken_reuse:
  assumes st: "th_state h xs ss fl" and seq: "th_seq_next h < th_seq_next h + 1"
    and i: "unat i < length ss" "even (ts_version (ss ! unat i))"
      "ts_version s = ts_version (ss ! unat i) + 1"
    and fl: "\<forall>s'. odd (ts_version s') \<longrightarrow> free_list (ss[unat i := s']) (th_free_head h1) fl'"
  shows "slot_taken h xs ss h1 (ss[unat i := s]) fl' i"
  unfolding slot_taken_def
proof (intro allI impI)
  fix s' :: ntt_timer_slot and e :: ntt_timer_heap_elem
  assume "ts_version s' = ts_version (ss[unat i := s] ! unat i)" "ts_task s' \<noteq> None"
    "te_index e = i" "te_version e = ts_version (ss[unat i := s] ! unat i)" "te_seq e = th_seq_next h"
  then have e: "ts_version s' = ts_version s" "ts_task s' \<noteq> None" "te_index e = i"
    "te_version e = ts_version s" "te_seq e = th_seq_next h" using i by auto
  let ?ss = "ss[unat i := s']"
  have b: "book xs ss (th_seq_next h) (unat (th_tombstones h))" using st by (simp add: th_state_def)
  have other: "te_index x \<noteq> i" if "x \<in> set xs" "te_live ss x" for x
    using b that i(2) by (auto simp: book_def te_wf_def te_live_def)
  have bk: "book (e # xs) (ss[unat (te_index e) := s']) (th_seq_next h + 1) (unat (th_tombstones h))"
    by (rule book_reused [OF b]) (use e i seq in auto)
  have stale: "\<not> te_live ?ss x" if "x \<in> set xs" "te_index x = i" for x
  proof -
    have "te_tag e \<notin> te_tag ` set xs" using bk by (simp add: book_def)
    then have "te_tag x \<noteq> te_tag e" using that(1) by (metis imageI)
    then show ?thesis using that e i by (auto simp: te_live_def te_tag_def)
  qed
  have live: "te_live ?ss x \<longleftrightarrow> te_live ss x" if "x \<in> set xs" for x
    using other [OF that] stale [OF that] by (cases "te_index x = i") (auto simp: te_live_def)
  have slot: "\<forall>x \<in> set xs. te_live ss x \<longrightarrow> slot_of ?ss x = slot_of ss x"
    using other by (metis nth_list_update_neq unat_eq_iff)
  have "odd (ts_version s')" using e i by simp
  then show "book (e # xs) (ss[unat i := s, unat i := s']) (th_seq_next h + 1) (unat (th_tombstones h)) \<and>
     free_list (ss[unat i := s, unat i := s']) (th_free_head h1) fl' \<and>
     (\<forall>x \<in> set xs. te_live (ss[unat i := s, unat i := s']) x \<longleftrightarrow> te_live ss x) \<and>
     (\<forall>x \<in> set xs. te_live ss x \<longrightarrow> slot_of (ss[unat i := s, unat i := s']) x = slot_of ss x)"
    using bk e fl live slot by simp
qed

lemma slot_taken_extend:
  assumes st: "th_state h xs ss fl" and seq: "th_seq_next h < th_seq_next h + 1"
    and i: "unat i = length ss" and s: "ts_version s = 1" and fh: "th_free_head h1 = th_free_head h"
  shows "slot_taken h xs ss h1 (ss @ [s]) fl i"
  unfolding slot_taken_def
proof (intro allI impI)
  fix s' :: ntt_timer_slot and e :: ntt_timer_heap_elem
  assume "ts_version s' = ts_version ((ss @ [s]) ! unat i)" "ts_task s' \<noteq> None"
    "te_index e = i" "te_version e = ts_version ((ss @ [s]) ! unat i)" "te_seq e = th_seq_next h"
  then have e: "ts_version s' = 1" "ts_task s' \<noteq> None" "te_index e = i"
    "te_version e = 1" "te_seq e = th_seq_next h" using i s by auto
  have b: "book xs ss (th_seq_next h) (unat (th_tombstones h))"
    and fl: "free_list ss (th_free_head h) fl" using st by (auto simp: th_state_def)
  have bk: "book (e # xs) (ss @ [s']) (th_seq_next h + 1) (unat (th_tombstones h))"
    by (rule book_extended [OF b]) (use e i s seq in auto)
  have "(ss @ [s])[unat i := s'] = ss @ [s']" using i by (simp add: list_update_append)
  then show "book (e # xs) ((ss @ [s])[unat i := s']) (th_seq_next h + 1) (unat (th_tombstones h)) \<and>
     free_list ((ss @ [s])[unat i := s']) (th_free_head h1) fl \<and>
     (\<forall>x \<in> set xs. te_live ((ss @ [s])[unat i := s']) x \<longleftrightarrow> te_live ss x) \<and>
     (\<forall>x \<in> set xs. te_live ss x \<longrightarrow> slot_of ((ss @ [s])[unat i := s']) x = slot_of ss x)"
    using bk e fh free_list_extend [OF fl, of s'] th_state_index [OF st]
    by (simp add: te_live_def nth_append)
qed

lemma alloc_slot_state:
  assumes env: "env_ok env" and st: "th_state h xs ss fl"
    and room: "th_free_head h = NTT_TIMER_SLOT_NONE \<Longrightarrow> length ss < TH_MAX"
    and seq: "th_seq_next h < th_seq_next h + 1"
  obtains i h1 ss1 fl1 where
    "ntt_timer_heap_alloc_slot env h = Some (i, h1)" "th_rep h1 xs ss1" "unat i < length ss1"
    "th_size h1 = th_size h" "th_tombstones h1 = th_tombstones h"
    "th_seq_next h1 = th_seq_next h" "length ss1 \<le> TH_MAX" "slot_taken h xs ss h1 ss1 fl1 i"
proof (cases "th_free_head h = NTT_TIMER_SLOT_NONE")
  case False
  let ?i = "th_free_head h"
  obtain s n a fl' where alloc: "ntt_timer_heap_alloc_slot env h = Some (?i, h\<lparr>th_free_head := n, th_slots := a\<rparr>)"
    and rep: "th_rep (h\<lparr>th_free_head := n, th_slots := a\<rparr>) xs (ss[unat ?i := s])"
    and i: "unat ?i < length ss" "even (ts_version (ss ! unat ?i))"
      "ts_version s = ts_version (ss ! unat ?i) + 1"
    and fl: "\<forall>s'. odd (ts_version s') \<longrightarrow> free_list (ss[unat ?i := s']) n fl'"
    by (rule alloc_slot_reuse [OF st False, where env = env])
  have "slot_taken h xs ss (h\<lparr>th_free_head := n, th_slots := a\<rparr>) (ss[unat ?i := s]) fl' ?i"
    by (rule slot_taken_reuse [OF st seq i]) (use fl in simp)
  then show thesis using that [OF alloc rep] i st by (simp add: th_state_def)
next
  case True
  let ?i = "th_slot_cnt h"
  obtain s a c where alloc: "ntt_timer_heap_alloc_slot env h =
       Some (?i, h\<lparr>th_slot_cap := c, th_slot_cnt := ?i + 1, th_slots := a\<rparr>)" (is "_ = Some (_, ?h a c)")
    and rep: "th_rep (h\<lparr>th_slot_cap := c, th_slot_cnt := ?i + 1, th_slots := a\<rparr>) xs (ss @ [s])"
    and s: "ts_version s = 1"
    by (rule alloc_slot_extend [OF env st True room [OF True]])
  have i: "unat ?i = length ss" using st by (simp add: th_state_def th_rep_def)
  have "slot_taken h xs ss (h\<lparr>th_slot_cap := c, th_slot_cnt := ?i + 1, th_slots := a\<rparr>) (ss @ [s]) fl ?i"
    by (rule slot_taken_extend [OF st seq i s]) simp
  then show thesis using that [OF alloc rep] i room [OF True] by simp
qed

section \<open>Arming a timer\<close>

text \<open>The cell the new entry is carried to is not read before it is written.\<close>

lemma sift_up_hole:
  assumes "unat pos < length (th_heap h)"
  shows "ntt_timer_heap_sift_up env (h\<lparr>th_heap := (th_heap h)[unat pos := c]\<rparr>) pos e =
    ntt_timer_heap_sift_up env h pos e"
proof -
  let ?h = "h\<lparr>th_heap := (th_heap h)[unat pos := c]\<rparr>"
  have place: "ntt_timer_heap_place env ?h pos x = ntt_timer_heap_place env h pos x" for x
    using assms by (simp add: ntt_timer_heap_place_def arr_write_def)
  have at: "ntt_timer_heap_elem_at env ?h ((pos - 1) div 2) = ntt_timer_heap_elem_at env h ((pos - 1) div 2)"
    if "0 < unat pos"
  proof -
    have "unat ((pos - 1) div 2) \<noteq> unat pos"
      using unat_pred_half [OF that] parent_less [OF that] by simp
    then show ?thesis by (simp add: ntt_timer_heap_elem_at_def arr_read_def)
  qed
  show ?thesis
  proof (cases "0 < unat pos")
    case True
    then show ?thesis
      by (subst (1 2) ntt_timer_heap_sift_up.simps)
        (simp only: Let_def place at word_less_nat_alt unat_0 if_True)
  next
    case False
    then show ?thesis
      by (subst (1 2) ntt_timer_heap_sift_up.simps)
        (simp only: place word_less_nat_alt unat_0 if_False)
  qed
qed

lemma push_entry_rep:
  assumes rep: "th_rep h xs ss" and cap: "length xs < unat (th_heap_cap h)"
    and n: "unat n = length xs + 1"
  obtains a where "ntt_timer_heap_sift_up env (h\<lparr>th_size := n, th_seq_next := q\<rparr>) (th_size h) e =
      Some (h\<lparr>th_size := n, th_seq_next := q, th_heap := a\<rparr>)"
    "th_rep (h\<lparr>th_size := n, th_seq_next := q, th_heap := a\<rparr>)
       (hole_up ntt_timer_heap_less (xs @ [e]) (length xs) e) ss"
proof -
  let ?h = "h\<lparr>th_size := n, th_seq_next := q\<rparr>"
  let ?a = "(th_heap h)[unat (th_size h) := Some e]"
  have len: "unat (th_size h) = length xs" "length xs < length (th_heap h)"
    using rep cap by (auto simp: th_rep_def)
  have "take (length xs + 1) ?a = map Some (xs @ [e])"
    using rep len by (simp add: th_rep_def take_Suc_conv_app_nth)
  then have rep1: "th_rep (?h\<lparr>th_heap := ?a\<rparr>) (xs @ [e]) ss"
    using rep n by (simp add: th_rep_def)
  have hole: "ntt_timer_heap_sift_up env (?h\<lparr>th_heap := ?a\<rparr>) (th_size h) e =
      ntt_timer_heap_sift_up env ?h (th_size h) e"
    using sift_up_hole [where h = ?h and pos = "th_size h" and c = "Some e" and env = env and e = e] len
    by simp
  obtain a where "ntt_timer_heap_sift_up env (?h\<lparr>th_heap := ?a\<rparr>) (th_size h) e =
      Some (?h\<lparr>th_heap := ?a, th_heap := a\<rparr>)"
    "th_rep (?h\<lparr>th_heap := ?a, th_heap := a\<rparr>)
       (hole_up ntt_timer_heap_less (xs @ [e]) (unat (th_size h)) e) ss"
    by (rule sift_up_rep [OF rep1, where pos = "th_size h" and env = env and e = e]) (use len in simp)
  then show thesis
    by (intro that [where a = a]) (simp_all only: hole [symmetric] len, simp_all)
qed

lemma push_state:
  assumes env: "env_ok env" and st: "th_state h xs ss fl" and room: "th_room h"
    and task: "task \<noteq> NULL" "ntt_task_unlinked m task"
  obtains e h' xs' ss' fl' where
    "ntt_timer_heap_push env m h deadline task = Some (te_tag e, h')" "th_state h' xs' ss' fl'"
    "mset xs' = add_mset e (mset xs)" "te_deadline e = deadline" "te_seq e = th_seq_next h"
    "te_live ss' e" "ts_task (slot_of ss' e) = Some task" "th_seq_next h' = th_seq_next h + 1"
    "\<forall>x \<in> set xs. te_live ss' x \<longleftrightarrow> te_live ss x"
    "\<forall>x \<in> set xs. te_live ss x \<longrightarrow> slot_of ss' x = slot_of ss x"
proof -
  have sizes: "length xs + 1 < TH_MAX" "th_free_head h = NTT_TIMER_SLOT_NONE \<Longrightarrow> length ss < TH_MAX"
    "th_seq_next h < th_seq_next h + 1"
    using room st by (auto simp: th_room_def th_state_def th_rep_def)
  obtain i h1 ss1 fl1 where alloc: "ntt_timer_heap_alloc_slot env h = Some (i, h1)"
    and rep1: "th_rep h1 xs ss1" and i: "unat i < length ss1"
    and h1: "th_size h1 = th_size h" "th_tombstones h1 = th_tombstones h"
      "th_seq_next h1 = th_seq_next h" "length ss1 \<le> TH_MAX"
    and taken: "slot_taken h xs ss h1 ss1 fl1 i"
    by (rule alloc_slot_state [OF env st sizes(2,3)])
  define s where "s = ss1 ! unat i"
  let ?s = "s\<lparr>ts_task := Some task\<rparr>" and ?pos = "th_size h"
  let ?ss = "ss1[unat i := ?s]"
  let ?e = "\<lparr>te_deadline = deadline, te_seq = th_seq_next h, te_index = i, te_version = ts_version s\<rparr>"
  obtain b where put: "slot_put h1 i ?s = Some (h1\<lparr>th_slots := b\<rparr>)"
    and rep2: "th_rep (h1\<lparr>th_slots := b\<rparr>) xs ?ss"
    by (rule slot_put_rep [OF rep1 i])
  obtain c d where res: "ntt_timer_heap_reserve_elem env (h1\<lparr>th_slots := b\<rparr>) (th_size (h1\<lparr>th_slots := b\<rparr>)) =
      Some (h1\<lparr>th_slots := b, th_heap := c, th_heap_cap := d\<rparr>)"
    and rep3: "th_rep (h1\<lparr>th_slots := b, th_heap := c, th_heap_cap := d\<rparr>) xs ?ss" and d: "length xs < unat d"
    by (rule reserve_elem_ok [OF env rep2]) (use sizes(1) in simp)
  let ?h3 = "h1\<lparr>th_slots := b, th_heap := c, th_heap_cap := d\<rparr>"
  have n: "unat (?pos + 1) = length xs + 1"
    using st sizes(1) by (subst unat_add_noflow) (simp_all add: th_state_def th_rep_def TH_MAX_def)
  obtain f where up: "ntt_timer_heap_sift_up env (?h3\<lparr>th_size := ?pos + 1, th_seq_next := th_seq_next h + 1\<rparr>)
        (th_size ?h3) ?e = Some (?h3\<lparr>th_size := ?pos + 1, th_seq_next := th_seq_next h + 1, th_heap := f\<rparr>)"
    and rep4: "th_rep (?h3\<lparr>th_size := ?pos + 1, th_seq_next := th_seq_next h + 1, th_heap := f\<rparr>)
      (hole_up ntt_timer_heap_less (xs @ [?e]) (length xs) ?e) ?ss"
    by (rule push_entry_rep [OF rep3, where n = "?pos + 1" and q = "th_seq_next h + 1" and e = ?e and env = env])
      (use d n in simp_all)
  let ?h6 = "?h3\<lparr>th_size := ?pos + 1, th_seq_next := th_seq_next h + 1, th_heap := f\<rparr>"
  let ?xs = "hole_up ntt_timer_heap_less (xs @ [?e]) (length xs) ?e"
  have push: "ntt_timer_heap_push env m h deadline task = Some (te_tag ?e, ?h6)"
    using task alloc slot_at_rep [OF rep1 i] put res up h1 s_def
    by (simp add: ntt_timer_heap_push_def Let_def te_tag_def)
  have m: "mset ?xs = mset (?e # xs)" by (simp add: mset_hole_up)
  have all: "book (?e # xs) ?ss (th_seq_next h + 1) (unat (th_tombstones h))"
    "free_list ?ss (th_free_head h1) fl1"
    "\<forall>x \<in> set xs. te_live ?ss x \<longleftrightarrow> te_live ss x"
    "\<forall>x \<in> set xs. te_live ss x \<longrightarrow> slot_of ?ss x = slot_of ss x"
    using taken [unfolded slot_taken_def, rule_format, of ?s ?e] by (auto simp: s_def)
  have "is_heap ntt_timer_heap_less ?xs"
    using st by (intro timer_order.push_heap) (simp add: th_state_def)
  then have "th_state ?h6 ?xs ?ss fl1"
    using rep4 all(1,2) book_perm [OF m] sizes(1) h1 by (simp add: th_state_def)
  then show thesis
    by (rule that [OF push]) (use all m i in \<open>auto simp: te_live_def\<close>)
qed

section \<open>Vacating a slot\<close>

lemma free_slot_rep:
  assumes rep: "th_rep h xs ss" and i: "unat i < length ss" and odd: "odd (ts_version (ss ! unat i))"
  obtains a where "ntt_timer_heap_free_slot env h i = Some (h\<lparr>th_slots := a, th_free_head := i\<rparr>)"
    "th_rep (h\<lparr>th_slots := a, th_free_head := i\<rparr>) xs (ss[unat i := vacated (ss ! unat i) (th_free_head h)])"
proof -
  obtain a where put: "slot_put h i (vacated (ss ! unat i) (th_free_head h)) = Some (h\<lparr>th_slots := a\<rparr>)"
    and rep1: "th_rep (h\<lparr>th_slots := a\<rparr>) xs (ss[unat i := vacated (ss ! unat i) (th_free_head h)])"
    by (rule slot_put_rep [OF rep i])
  have "ntt_timer_heap_free_slot env h i = Some (h\<lparr>th_slots := a, th_free_head := i\<rparr>)"
    using slot_at_rep [OF rep i] odd put
    by (simp add: ntt_timer_heap_free_slot_def Let_def vacated_def)
  moreover have "th_rep (h\<lparr>th_slots := a, th_free_head := i\<rparr>) xs
      (ss[unat i := vacated (ss ! unat i) (th_free_head h)])"
    using rep1 by (simp add: th_rep_def)
  ultimately show thesis by (rule that)
qed

lemma live_slot:
  assumes "th_state h xs ss fl" "x \<in> set xs" "te_live ss x"
  shows "unat (te_index x) < length ss" "odd (ts_version (slot_of ss x))"
    "ts_version (slot_of ss x) = te_version x" "ts_task (slot_of ss x) \<noteq> None"
proof -
  have b: "book xs ss (th_seq_next h) (unat (th_tombstones h))" using assms by (simp add: th_state_def)
  show i: "unat (te_index x) < length ss" and v: "ts_version (slot_of ss x) = te_version x"
    and o: "odd (ts_version (slot_of ss x))"
    using b assms(2,3) by (auto simp: book_def te_wf_def te_live_def)
  show "ts_task (slot_of ss x) \<noteq> None" using b i o by (auto simp: book_def slot_wf_def)
qed

section \<open>Firing the root\<close>

lemma fire_state:
  assumes env: "env_ok env" and st: "th_state h xs ss fl" and ne: "xs \<noteq> []"
    and live: "te_live ss (xs ! 0)" and wrap: "te_version (xs ! 0) + 1 \<noteq> 0"
  obtains h1 h2 s where "ntt_timer_heap_pop_root env h = Some h1"
    "ntt_timer_heap_elem_live env h1 (xs ! 0) = Some True"
    "ntt_timer_heap_slot_at env h1 (te_index (xs ! 0)) = Some (slot_of ss (xs ! 0))"
    "ntt_timer_heap_free_slot env h1 (te_index (xs ! 0)) = Some h2"
    "th_state h2 (pop_min ntt_timer_heap_less xs) (ss[unat (te_index (xs ! 0)) := s])
       (te_index (xs ! 0) # fl)" "ts_version s = te_version (xs ! 0) + 1"
    "th_seq_next h2 = th_seq_next h"
proof -
  let ?x = "xs ! 0" and ?ys = "pop_min ntt_timer_heap_less xs"
  let ?h = "\<lambda>a c. h\<lparr>th_size := th_size h - 1, th_heap := a, th_heap_cap := c\<rparr>"
  let ?s = "vacated (slot_of ss ?x) (th_free_head h)"
  have rep: "th_rep h xs ss" and n: "length xs < TH_MAX"
    and b: "book xs ss (th_seq_next h) (unat (th_tombstones h))"
    and fl: "free_list ss (th_free_head h) fl" using st by (auto simp: th_state_def)
  have "?x \<in> set xs" using ne by simp
  note x = live_slot [OF st this live]
  obtain a c where pop: "ntt_timer_heap_pop_root env h = Some (?h a c)" and rep1: "th_rep (?h a c) ?ys ss"
    by (rule pop_root_ok [OF env rep n ne])
  obtain d where free: "ntt_timer_heap_free_slot env (?h a c) (te_index ?x) =
      Some (?h a c\<lparr>th_slots := d, th_free_head := te_index ?x\<rparr>)"
    and rep2: "th_rep (?h a c\<lparr>th_slots := d, th_free_head := te_index ?x\<rparr>) ?ys
      (ss[unat (te_index ?x) := vacated (slot_of ss ?x) (th_free_head (?h a c))])"
    by (rule free_slot_rep [OF rep1 x(1,2)])
  have "book (?x # ?ys) ss (th_seq_next h) (unat (th_tombstones h))"
    using b book_perm [OF mset_pop_root [OF ne]] by simp
  then have "book ?ys (ss[unat (te_index ?x) := ?s]) (th_seq_next h) (unat (th_tombstones h))"
    by (rule book_vacated [OF _ live]) (use x wrap in \<open>simp_all add: vacated_def\<close>)
  moreover have "free_list (ss[unat (te_index ?x) := ?s]) (te_index ?x) (te_index ?x # fl)"
    by (rule free_list_push [OF fl x(1,2)]) (use x in \<open>simp_all add: vacated_def\<close>)
  ultimately have st2: "th_state (?h a c\<lparr>th_slots := d, th_free_head := te_index ?x\<rparr>) ?ys
      (ss[unat (te_index ?x) := ?s]) (te_index ?x # fl)"
    using st rep2 timer_order.pop_min_heap by (auto simp: th_state_def)
  show thesis
    by (rule that [OF pop _ _ free st2])
      (use elem_live_rep [OF rep1 x(1)] slot_at_rep [OF rep1 x(1)] live x in \<open>simp_all add: vacated_def\<close>)
qed

section \<open>Cancelling\<close>

lemma book_cancelled:
  assumes b: "book xs ss seq dead" and x: "x \<in> set xs" and live: "te_live ss x"
    and s': "ts_version s' = te_version x + 1" "te_version x + 1 \<noteq> 0"
  shows "book xs (ss[unat (te_index x) := s']) seq (Suc dead)"
    and "filter_mset (te_live (ss[unat (te_index x) := s'])) (mset xs) = live_mset ss xs - {#x#}"
proof -
  let ?ss = "ss[unat (te_index x) := s']"
  obtain ys where m: "mset xs = mset (x # ys)" using x by (auto intro: that [of "remove1 x xs"])
  have b': "book (x # ys) ss seq dead" using b book_perm [OF m] by simp
  have wf: "te_wf ss seq x" using b x by (simp add: book_def)
  then have i: "unat (te_index x) < length ss" by (simp add: te_wf_def)
  have nlive: "\<not> te_live ?ss x"
    using i s' word_less_succ [OF s'(2)] by (auto simp: te_live_def)
  have "te_wf ?ss seq x"
    using wf i s' word_less_succ [OF s'(2)] by (simp add: te_wf_def less_imp_le)
  moreover have "te_tag x \<notin> te_tag ` set ys" "te_seq x \<notin> te_seq ` set ys"
    using b' by (simp_all add: book_def)
  ultimately have "book (x # ys) ?ss seq (Suc dead)"
    using book_dead_head [OF book_vacated [OF b' live s']] nlive by blast
  then show "book xs ?ss seq (Suc dead)" using book_perm [OF m] by simp
  have "filter_mset (te_live ?ss) (mset ys) = live_mset ss ys"
    using vacated_live(1) [OF b' live s'(1)] by (intro filter_mset_cong refl) simp
  moreover have "live_mset ss xs = add_mset x (live_mset ss ys)" using m live by simp
  ultimately show "filter_mset (te_live ?ss) (mset xs) = live_mset ss xs - {#x#}"
    using m nlive by simp
qed

lemma cancel_state:
  assumes env: "env_ok env" and st: "th_state h xs ss fl" and x: "x \<in> set xs" and live: "te_live ss x"
    and wrap: "te_version x + 1 \<noteq> 0"
  obtains h' xs' s where
    "ntt_timer_heap_cancel env h (te_tag x) =
       Some (ntt_task_destroy_inl (the (ts_task (slot_of ss x))), h')"
    "th_state h' xs' (ss[unat (te_index x) := s]) (te_index x # fl)"
    "ts_version s = te_version x + 1" "th_seq_next h' = th_seq_next h"
    "live_mset (ss[unat (te_index x) := s]) xs' = live_mset ss xs - {#x#}"
    "mset xs' \<subseteq># mset xs" "unat (th_tombstones h') * 2 \<le> length xs'"
proof -
  let ?i = "te_index x" and ?s = "vacated (slot_of ss x) (th_free_head h)"
  let ?ss = "ss[unat ?i := ?s]"
  note s = live_slot [OF st x live]
  obtain task where task: "ts_task (slot_of ss x) = Some task" using s(4) by blast
  have rep: "th_rep h xs ss" and fl: "free_list ss (th_free_head h) fl"
    and b: "book xs ss (th_seq_next h) (unat (th_tombstones h))"
    and n: "length xs < TH_MAX" using st by (auto simp: th_state_def)
  obtain a where free: "ntt_timer_heap_free_slot env h ?i = Some (h\<lparr>th_slots := a, th_free_head := ?i\<rparr>)"
    and rep1: "th_rep (h\<lparr>th_slots := a, th_free_head := ?i\<rparr>) xs ?ss"
    by (rule free_slot_rep [OF rep s(1,2)])
  have ver: "ts_version ?s = te_version x + 1" using s by (simp add: vacated_def)
  let ?h2 = "h\<lparr>th_slots := a, th_free_head := ?i, th_tombstones := th_tombstones h + 1\<rparr>"
  have tomb: "unat (th_tombstones h + 1) = Suc (unat (th_tombstones h))"
    using th_state_dead_le [OF st] n by (subst unat_add_noflow) (simp_all add: TH_MAX_def)
  have "free_list ?ss ?i (?i # fl)"
    by (rule free_list_push [OF fl s(1,2)]) (use s in \<open>simp_all add: vacated_def\<close>)
  then have st2: "th_state ?h2 xs ?ss (?i # fl)"
    using st rep1 tomb book_cancelled(1) [OF b x live ver wrap] by (simp add: th_state_def th_rep_def)
  obtain h' xs' where compact: "ntt_timer_heap_compact env ?h2 = Some h'"
    and st': "th_state h' xs' ?ss (?i # fl)" and lm: "live_mset ?ss xs' = live_mset ?ss xs"
    and seq: "th_seq_next h' = th_seq_next ?h2" and sub: "mset xs' \<subseteq># mset xs"
    and half: "unat (th_tombstones h') * 2 \<le> length xs'"
    by (rule compact_state [OF env st2])
  have odd: "te_version x \<noteq> 0" using s by auto
  have "ntt_timer_heap_cancel env h (te_tag x) = Some (ntt_task_destroy_inl task, h')"
    using s odd rep task free compact slot_at_rep [OF rep s(1)]
    by (simp add: ntt_timer_heap_cancel_def te_tag_def ntt_timer_tag_is_null_def Let_def
        word_less_nat_alt word_le_nat_alt th_rep_slot_cnt)
  then show thesis
    using that [OF _ st' ver] seq sub half lm book_cancelled(2) [OF b x live ver wrap] task by simp
qed

end
