(* ===== verification/Timer_Heap_Spec.thy ===== *)
theory Timer_Heap_Spec
  imports Timer_Heap_Ops "HOL-Library.Product_Lexorder"
begin

text \<open>
  What a timer heap stands for: a map from the tags of the armed timers to their deadline,
  arming number and task (\<open>th_armed\<close>), the list of the due timers in firing order (\<open>th_due\<close>),
  and an abstract machine on such maps (\<open>ts_step\<close>) that the operations implement.
\<close>

section \<open>The abstract view\<close>

text \<open>
  What the heap stands for: a finite map from the tags of the armed timers to their deadline,
  their place in the order of arming, and their task.
\<close>

type_synonym armed = "u64 \<times> u64 \<times> ptr"

definition armed_of :: "ntt_timer_heap_elem list \<Rightarrow> ntt_timer_slot list \<Rightarrow> ntt_timer_tag \<rightharpoonup> armed" where
  "armed_of xs ss =
     map_of (map (\<lambda>e. (te_tag e, te_deadline e, te_seq e, the (ts_task (slot_of ss e))))
       (filter (te_live ss) xs))"

definition th_entries :: "ntt_timer_heap \<Rightarrow> ntt_timer_heap_elem list" where
  "th_entries h = map the (take (unat (th_size h)) (th_heap h))"

definition th_slot_list :: "ntt_timer_heap \<Rightarrow> ntt_timer_slot list" where
  "th_slot_list h = map the (take (unat (th_slot_cnt h)) (th_slots h))"

definition th_armed :: "ntt_timer_heap \<Rightarrow> ntt_timer_tag \<rightharpoonup> armed" where
  "th_armed h = armed_of (th_entries h) (th_slot_list h)"

definition te_val :: "ntt_timer_slot list \<Rightarrow> ntt_timer_heap_elem \<Rightarrow> armed" where
  "te_val ss e = (te_deadline e, te_seq e, the (ts_task (slot_of ss e)))"

definition due_of :: "u64 \<Rightarrow> ntt_timer_heap_elem list \<Rightarrow> ntt_timer_slot list \<Rightarrow> armed list" where
  "due_of now xs ss = sort (map (te_val ss) (filter (\<lambda>e. te_live ss e \<and> te_deadline e \<le> now) xs))"

definition th_due :: "u64 \<Rightarrow> ntt_timer_heap \<Rightarrow> armed list" where
  "th_due now h = due_of now (th_entries h) (th_slot_list h)"

definition th_ok :: "ntt_timer_heap \<Rightarrow> bool" where
  "th_ok h \<longleftrightarrow> th_inv h \<and> (\<forall>t \<in> dom (th_armed h). tag_version t \<noteq> - 1)"

abbreviation due_mset :: "u64 \<Rightarrow> ntt_timer_slot list \<Rightarrow> ntt_timer_heap_elem list \<Rightarrow> armed multiset" where
  "due_mset now ss xs \<equiv> image_mset (te_val ss) (filter_mset (\<lambda>e. te_deadline e \<le> now) (live_mset ss xs))"

datatype timer_op = TArm u64 ptr | TCancel ntt_timer_tag | TPeek

datatype timer_resp = RTag ntt_timer_tag | RDone "task_event list" | RDeadline "u64 option"

type_synonym timer_spec = "(ntt_timer_tag \<rightharpoonup> armed) \<times> u64"

inductive ts_step :: "timer_spec \<Rightarrow> timer_op \<Rightarrow> timer_resp \<Rightarrow> timer_spec \<Rightarrow> bool" where
  ts_arm: "a t = None \<Longrightarrow> \<not> ntt_timer_tag_is_null t \<Longrightarrow>
    ts_step (a, q) (TArm d k) (RTag t) (a(t \<mapsto> (d, q, k)), q + 1)"
| ts_cancel: "a t = Some (d, q', k) \<Longrightarrow>
    ts_step (a, q) (TCancel t) (RDone (ntt_task_destroy_inl k)) (a(t := None), q)"
| ts_peek_none: "a = Map.empty \<Longrightarrow> ts_step (a, q) TPeek (RDeadline None) (a, q)"
| ts_peek_some: "a t = Some (d, q', k) \<Longrightarrow> (\<forall>t' d' q' k'. a t' = Some (d', q', k') \<longrightarrow> d \<le> d') \<Longrightarrow>
    ts_step (a, q) TPeek (RDeadline (Some d)) (a, q)"

inductive ts_run :: "timer_spec \<Rightarrow> timer_op list \<Rightarrow> timer_resp list \<Rightarrow> timer_spec \<Rightarrow> bool" where
  ts_done: "ts_run s [] [] s"
| ts_more: "ts_step s op r s' \<Longrightarrow> ts_run s' ops rs s'' \<Longrightarrow> ts_run s (op # ops) (r # rs) s''"

fun th_apply :: "env \<Rightarrow> nmem \<Rightarrow> timer_op \<Rightarrow> ntt_timer_heap \<Rightarrow> (timer_resp \<times> ntt_timer_heap) option" where
  "th_apply env m (TArm d k) h = do { (t, h') \<leftarrow> ntt_timer_heap_push env m h d k; Some (RTag t, h') }"
| "th_apply env m (TCancel t) h = do { (evs, h') \<leftarrow> ntt_timer_heap_cancel env h t; Some (RDone evs, h') }"
| "th_apply env m TPeek h = do { (d, h') \<leftarrow> ntt_timer_heap_peek env h; Some (RDeadline d, h') }"

fun th_exec :: "env \<Rightarrow> nmem \<Rightarrow> timer_op list \<Rightarrow> ntt_timer_heap \<Rightarrow> (timer_resp list \<times> ntt_timer_heap) option" where
  "th_exec env m [] h = Some ([], h)"
| "th_exec env m (op # ops) h = do {
     (r, h') \<leftarrow> th_apply env m op h;
     (rs, h'') \<leftarrow> th_exec env m ops h';
     Some (r # rs, h'')
   }"

definition th_abs :: "ntt_timer_heap \<Rightarrow> timer_spec" where
  "th_abs h = (th_armed h, th_seq_next h)"

fun th_allowed :: "nmem \<Rightarrow> timer_op \<Rightarrow> ntt_timer_heap \<Rightarrow> bool" where
  "th_allowed m (TArm d k) h \<longleftrightarrow> k \<noteq> NULL \<and> ntt_task_unlinked m k \<and> th_room h"
| "th_allowed m (TCancel t) h \<longleftrightarrow> th_armed h t \<noteq> None \<and> tag_version t \<noteq> - 1"
| "th_allowed m TPeek h \<longleftrightarrow> True"

fun th_all_allowed :: "env \<Rightarrow> nmem \<Rightarrow> timer_op list \<Rightarrow> ntt_timer_heap \<Rightarrow> bool" where
  "th_all_allowed env m [] h \<longleftrightarrow> True"
| "th_all_allowed env m (op # ops) h \<longleftrightarrow> th_allowed m op h \<and>
     (case th_apply env m op h of None \<Rightarrow> True | Some (r, h') \<Rightarrow> th_all_allowed env m ops h')"

section \<open>The armed timers\<close>

lemma th_armed_rep: "th_rep h xs ss \<Longrightarrow> th_armed h = armed_of xs ss"
  by (simp add: th_armed_def th_entries_def th_slot_list_def th_rep_def comp_def)

lemma th_armed_state: "th_state h xs ss fl \<Longrightarrow> th_armed h = armed_of xs ss"
  by (simp add: th_armed_rep th_state_def)

text \<open>Every armed timer has one live entry, and every live entry is an armed timer.\<close>

lemma distinct_tags_filter:
  "distinct (map te_tag xs) \<Longrightarrow> distinct (map fst (map (\<lambda>e. (te_tag e, f e)) (filter P xs)))"
  by (simp add: comp_def distinct_map_filter)

lemma armed_of_iff:
  assumes "book xs ss seq dead"
  shows "armed_of xs ss t = Some (d, q, k) \<longleftrightarrow>
    (\<exists>x \<in> set xs. te_live ss x \<and> te_tag x = t \<and> te_deadline x = d \<and> te_seq x = q \<and>
       the (ts_task (slot_of ss x)) = k)"
proof -
  let ?f = "\<lambda>e. (te_deadline e, te_seq e, the (ts_task (slot_of ss e)))"
  have "distinct (map te_tag xs)" using assms by (simp add: book_def)
  from map_of_eq_Some_iff [OF distinct_tags_filter [OF this, where f = ?f and P = "te_live ss"]]
  have "armed_of xs ss t = Some (d, q, k) \<longleftrightarrow>
      (t, d, q, k) \<in> (\<lambda>e. (te_tag e, ?f e)) ` set (filter (te_live ss) xs)"
    unfolding armed_of_def by (simp only: set_map)
  then show ?thesis by (auto simp: image_iff)
qed

lemma armed_of_None_iff:
  "armed_of xs ss t = None \<longleftrightarrow> (\<forall>x \<in> set xs. te_live ss x \<longrightarrow> te_tag x \<noteq> t)"
  by (force simp: armed_of_def map_of_eq_None_iff)

lemma armed_of_empty_iff: "armed_of xs ss = Map.empty \<longleftrightarrow> (\<forall>x \<in> set xs. \<not> te_live ss x)"
  by (auto simp: armed_of_None_iff fun_eq_iff)

text \<open>
  Two states with the same live entries, with the same tasks, stand for the same timers.
\<close>

lemma armed_of_cong:
  assumes b: "book xs ss seq dead" "book xs' ss' seq' dead'"
    and m: "live_mset ss' xs' = live_mset ss xs"
    and s: "\<And>x. x \<in> set xs \<Longrightarrow> te_live ss x \<Longrightarrow> slot_of ss' x = slot_of ss x"
  shows "armed_of xs' ss' = armed_of xs ss"
proof -
  have live: "x \<in> set xs' \<and> te_live ss' x \<longleftrightarrow> x \<in> set xs \<and> te_live ss x" for x
    using arg_cong [OF m, of set_mset] by auto
  have "armed_of xs' ss' t = Some v \<longleftrightarrow> armed_of xs ss t = Some v" for t v
  proof (cases v)
    case (fields d q k)
    have "x \<in> set xs' \<and> te_live ss' x \<and> the (ts_task (slot_of ss' x)) = k \<longleftrightarrow>
        x \<in> set xs \<and> te_live ss x \<and> the (ts_task (slot_of ss x)) = k" for x
      using live [of x] s [of x] by auto
    then show ?thesis unfolding fields armed_of_iff [OF b(1)] armed_of_iff [OF b(2)] by auto
  qed
  then show ?thesis by (rule map_eqI)
qed

text \<open>One live entry more, or one less.\<close>

lemma armed_of_add:
  assumes b: "book xs ss seq dead" "book xs' ss' seq' dead'"
    and m: "live_mset ss' xs' = add_mset e (live_mset ss xs)"
    and s: "\<And>x. x \<in> set xs \<Longrightarrow> te_live ss x \<Longrightarrow> slot_of ss' x = slot_of ss x"
  shows "armed_of xs' ss' =
      (armed_of xs ss)(te_tag e \<mapsto> (te_deadline e, te_seq e, the (ts_task (slot_of ss' e))))"
    and "armed_of xs ss (te_tag e) = None"
proof -
  have live: "x \<in> set xs' \<and> te_live ss' x \<longleftrightarrow> x = e \<or> x \<in> set xs \<and> te_live ss x" for x
    using arg_cong [OF m, of set_mset] by auto
  have d: "distinct (map te_tag xs')" using b(2) by (simp add: book_def)
  have "e \<notin># live_mset ss xs"
  proof
    assume "e \<in># live_mset ss xs"
    then have "2 \<le> count (live_mset ss' xs') e" unfolding m by simp
    moreover have "count (mset xs') e \<le> 1"
      using conjunct1 [OF d [unfolded distinct_map]] by (simp add: distinct_count_atmost_1)
    moreover have "count (live_mset ss' xs') e \<le> count (mset xs') e" by simp
    ultimately show False by linarith
  qed
  then have e: "e \<in> set xs'" "te_live ss' e" "\<not> (e \<in> set xs \<and> te_live ss e)"
    using live by auto
  have uniq: "x = y" if "x \<in> set xs'" "y \<in> set xs'" "te_tag x = te_tag y" for x y
    using d that by (simp add: distinct_map inj_on_def)
  show none: "armed_of xs ss (te_tag e) = None"
    unfolding armed_of_None_iff using uniq live e by metis
  have "armed_of xs' ss' t = Some v \<longleftrightarrow>
     ((armed_of xs ss)(te_tag e \<mapsto> (te_deadline e, te_seq e, the (ts_task (slot_of ss' e))))) t = Some v" for t v
  proof (cases v)
    case (fields d q k)
    show ?thesis
    proof (cases "t = te_tag e")
      case True
      then show ?thesis unfolding fields armed_of_iff [OF b(2)] using e uniq by auto
    next
      case False
      then have "x \<in> set xs' \<and> te_live ss' x \<and> te_tag x = t \<and> the (ts_task (slot_of ss' x)) = k \<longleftrightarrow>
        x \<in> set xs \<and> te_live ss x \<and> te_tag x = t \<and> the (ts_task (slot_of ss x)) = k" for x
        using live [of x] s [of x] by auto
      with False show ?thesis unfolding fields armed_of_iff [OF b(2)]
        by (auto simp: armed_of_iff [OF b(1)])
    qed
  qed
  then show "armed_of xs' ss' =
      (armed_of xs ss)(te_tag e \<mapsto> (te_deadline e, te_seq e, the (ts_task (slot_of ss' e))))"
    by (rule map_eqI)
qed

lemma armed_of_remove:
  assumes b: "book xs ss seq dead" "book xs' ss' seq' dead'"
    and m: "live_mset ss' xs' = live_mset ss xs - {#e#}" and e: "e \<in> set xs" "te_live ss e"
    and s: "\<And>x. x \<in> set xs' \<Longrightarrow> te_live ss' x \<Longrightarrow> slot_of ss' x = slot_of ss x"
  shows "armed_of xs' ss' = (armed_of xs ss)(te_tag e := None)"
proof -
  have "live_mset ss xs = add_mset e (live_mset ss' xs')" using e m by simp
  from armed_of_add [OF b(2,1) this s [symmetric]] show ?thesis by auto
qed

lemma th_due_state: "th_state h xs ss fl \<Longrightarrow> th_due now h = due_of now xs ss"
  by (simp add: th_due_def th_entries_def th_slot_list_def th_rep_def comp_def th_state_def)

lemma th_invI: "th_state h xs ss fl \<Longrightarrow> th_inv h"
  by (auto simp: th_inv_def)

lemma th_state_book: "th_state h xs ss fl \<Longrightarrow> book xs ss (th_seq_next h) (unat (th_tombstones h))"
  by (simp add: th_state_def)

section \<open>Arming\<close>

lemma push_armed:
  assumes env: "env_ok env" and inv: "th_inv h" and room: "th_room h"
    and task: "task \<noteq> NULL" "ntt_task_unlinked m task"
  shows "\<exists>tag h'. ntt_timer_heap_push env m h deadline task = Some (tag, h') \<and> th_inv h' \<and>
     \<not> ntt_timer_tag_is_null tag \<and> odd (tag_version tag) \<and> th_armed h tag = None \<and>
     th_armed h' = (th_armed h)(tag \<mapsto> (deadline, th_seq_next h, task)) \<and>
     th_seq_next h' = th_seq_next h + 1"
proof -
  obtain xs ss fl where st: "th_state h xs ss fl" using inv by (auto simp: th_inv_def)
  obtain e h' xs' ss' fl' where push: "ntt_timer_heap_push env m h deadline task = Some (te_tag e, h')"
    and st': "th_state h' xs' ss' fl'" and ms: "mset xs' = add_mset e (mset xs)"
    and e: "te_deadline e = deadline" "te_seq e = th_seq_next h" "te_live ss' e"
      "ts_task (slot_of ss' e) = Some task" and seq: "th_seq_next h' = th_seq_next h + 1"
    and keep: "\<forall>x \<in> set xs. te_live ss' x \<longleftrightarrow> te_live ss x"
      "\<forall>x \<in> set xs. te_live ss x \<longrightarrow> slot_of ss' x = slot_of ss x"
    by (rule push_state [OF env st room task, where deadline = deadline])
  note b = th_state_book [OF st] th_state_book [OF st']
  have "live_mset ss' xs' = add_mset e (live_mset ss xs)"
    using keep(1) e(3) by (simp add: ms) (intro filter_mset_cong; simp)
  note arm = armed_of_add [OF b this keep(2) [rule_format]]
  have "e \<in> set xs'" using arg_cong [OF ms, of set_mset] by simp
  then have o: "odd (te_version e)" using b(2) by (simp add: book_def te_wf_def)
  then have "te_version e \<noteq> 0" by auto
  then show ?thesis
    using push arm e seq st' o
    by (auto simp: th_inv_def th_armed_state [OF st] th_armed_state [OF st']
        ntt_timer_tag_is_null_def te_tag_def)
qed

section \<open>Cancelling\<close>

lemma armed_entry:
  assumes "th_state h xs ss fl" "th_armed h tag = Some (d, q, k)"
  obtains x where "x \<in> set xs" "te_live ss x" "te_tag x = tag" "te_deadline x = d" "te_seq x = q"
    "ts_task (slot_of ss x) = Some k"
proof -
  obtain x where x: "x \<in> set xs" "te_live ss x" "te_tag x = tag" "te_deadline x = d" "te_seq x = q"
    "the (ts_task (slot_of ss x)) = k"
    using assms(2) unfolding th_armed_state [OF assms(1)] armed_of_iff [OF th_state_book [OF assms(1)]]
    by blast
  with live_slot(4) [OF assms(1) x(1,2)] show thesis by (intro that) auto
qed

text \<open>A vacated slot changes nothing for the timers that stay.\<close>

lemma slot_kept:
  assumes st: "th_state h xs ss fl" and x: "x \<in> set xs" "te_live ss x"
    and s: "ts_version s = te_version x + 1"
    and y: "y \<in> set xs" "te_live (ss[unat (te_index x) := s]) y"
  shows "slot_of (ss[unat (te_index x) := s]) y = slot_of ss y"
proof (cases "te_index y = te_index x")
  case True
  have "odd (te_version y)" "odd (te_version x)"
    using th_state_book [OF st] x y by (auto simp: book_def te_wf_def)
  moreover have "te_version y = te_version x + 1"
    using True y live_slot(1) [OF st x] s by (simp add: te_live_def)
  ultimately show ?thesis by (metis even_plus_one_iff)
qed simp

lemma cancel_armed:
  assumes env: "env_ok env" and inv: "th_inv h" and armed: "th_armed h tag = Some (d, q, k)"
    and wrap: "tag_version tag \<noteq> - 1"
  shows "\<exists>h'. ntt_timer_heap_cancel env h tag = Some (ntt_task_destroy_inl k, h') \<and> th_inv h' \<and>
     th_armed h' = (th_armed h)(tag := None) \<and> th_seq_next h' = th_seq_next h \<and>
     2 * unat (th_tombstones h') \<le> unat (th_size h')"
proof -
  obtain xs ss fl where st: "th_state h xs ss fl" using inv by (auto simp: th_inv_def)
  obtain x where x: "x \<in> set xs" "te_live ss x" and tag: "te_tag x = tag"
    and k: "ts_task (slot_of ss x) = Some k" by (rule armed_entry [OF st armed])
  have w: "te_version x + 1 \<noteq> 0" using wrap tag by (auto simp: te_tag_def add_eq_0_iff2)
  obtain h' xs' s where c: "ntt_timer_heap_cancel env h (te_tag x) =
       Some (ntt_task_destroy_inl (the (ts_task (slot_of ss x))), h')"
    and st': "th_state h' xs' (ss[unat (te_index x) := s]) (te_index x # fl)"
    and s: "ts_version s = te_version x + 1" and seq: "th_seq_next h' = th_seq_next h"
    and live: "live_mset (ss[unat (te_index x) := s]) xs' = live_mset ss xs - {#x#}"
    and sub: "mset xs' \<subseteq># mset xs" and half: "unat (th_tombstones h') * 2 \<le> length xs'"
    by (rule cancel_state [OF env st x w])
  have "set xs' \<subseteq> set xs" using set_mset_mono [OF sub] by simp
  then have "slot_of (ss[unat (te_index x) := s]) y = slot_of ss y"
    if "y \<in> set xs'" "te_live (ss[unat (te_index x) := s]) y" for y
    using slot_kept [OF st x s] that by blast
  note armed_of_remove [OF th_state_book [OF st] th_state_book [OF st'] live x this]
  moreover have "th_inv h'" using st' by (rule th_invI)
  moreover have "unat (th_size h') = length xs'" using st' by (simp add: th_state_def th_rep_def)
  ultimately show ?thesis
    using c tag k seq half by (simp add: th_armed_state [OF st] th_armed_state [OF st'])
qed

text \<open>A slot whose version is the odd version of a tag belongs to the timer of that tag.\<close>

lemma stale_version:
  assumes inv: "th_inv h" and stale: "th_armed h tag = None" and odd: "odd (tag_version tag)"
    and i: "tag_index tag < th_slot_cnt h"
  obtains s where "ntt_timer_heap_slot_at env h (tag_index tag) = Some s" "ts_version s \<noteq> tag_version tag"
proof -
  obtain xs ss fl where st: "th_state h xs ss fl" using inv by (auto simp: th_inv_def)
  then have rep: "th_rep h xs ss" by (simp add: th_state_def)
  let ?s = "ss ! unat (tag_index tag)"
  have i': "unat (tag_index tag) < length ss" using i rep by (simp add: word_less_nat_alt th_rep_def)
  have "ts_version ?s \<noteq> tag_version tag"
  proof
    assume v: "ts_version ?s = tag_version tag"
    then obtain x where x: "x \<in> set xs" "unat (te_index x) = unat (tag_index tag)" "te_live ss x"
      using th_state_book [OF st] i' odd by (auto simp: book_def slot_wf_def)
    then have "te_tag x = tag" using v by (simp add: te_tag_def te_live_def)
    then show False
      using stale x unfolding th_armed_state [OF st] armed_of_None_iff by blast
  qed
  then show thesis by (rule that [OF slot_at_rep [OF rep i']])
qed

lemma cancel_stale:
  assumes inv: "th_inv h" and stale: "th_armed h tag = None" and odd: "odd (tag_version tag)"
  shows "ntt_timer_heap_cancel env h tag = (if ndebug env then Some ([], h) else None)"
proof (cases "tag_index tag < th_slot_cnt h")
  case True
  obtain s where s: "ntt_timer_heap_slot_at env h (tag_index tag) = Some s" "ts_version s \<noteq> tag_version tag"
    by (rule stale_version [OF inv stale odd True])
  then show ?thesis using True odd
    by (auto simp: ntt_timer_heap_cancel_def ntt_assert_def ntt_timer_tag_is_null_def)
next
  case False
  then show ?thesis using odd
    by (auto simp: ntt_timer_heap_cancel_def ntt_assert_def ntt_timer_tag_is_null_def)
qed

section \<open>Counting\<close>

lemma dom_armed_of: "dom (armed_of xs ss) = te_tag ` set (filter (te_live ss) xs)"
  by (auto simp: armed_of_def dom_map_of_conv_image_fst image_image)

lemma card_armed:
  assumes st: "th_state h xs ss fl"
  shows "card (dom (th_armed h)) = length (filter (te_live ss) xs)"
proof -
  have "distinct (map te_tag (filter (te_live ss) xs))"
    using th_state_book [OF st] by (simp add: book_def distinct_map_filter)
  then have "card (set (map te_tag (filter (te_live ss) xs))) = length (filter (te_live ss) xs)"
    by (simp add: distinct_card del: set_map)
  then show ?thesis by (simp add: th_armed_state [OF st] dom_armed_of)
qed

lemma live_plus_dead:
  assumes st: "th_state h xs ss fl"
  shows "card (dom (th_armed h)) + unat (th_tombstones h) = unat (th_size h)"
proof -
  have "unat (th_tombstones h) = length (filter (\<lambda>x. \<not> te_live ss x) xs)"
    using th_state_book [OF st] by (simp add: book_def)
  then show ?thesis
    using sum_length_filter_compl [of "te_live ss" xs] card_armed [OF st] st
    by (simp add: th_state_def th_rep_def)
qed

lemma size_armed:
  assumes "th_inv h"
  shows "unat (ntt_timer_heap_size h) = card (dom (th_armed h))"
    and "ntt_timer_heap_empty h \<longleftrightarrow> th_armed h = Map.empty"
proof -
  obtain xs ss fl where st: "th_state h xs ss fl" using assms by (auto simp: th_inv_def)
  note sum = live_plus_dead [OF st]
  then show "unat (ntt_timer_heap_size h) = card (dom (th_armed h))"
    by (simp add: ntt_timer_heap_size_def unat_sub_noflow)
  have "finite (dom (th_armed h))" by (simp add: th_armed_state [OF st] dom_armed_of)
  then have "th_armed h = Map.empty \<longleftrightarrow> card (dom (th_armed h)) = 0" by simp
  also have "\<dots> \<longleftrightarrow> unat (th_size h) = unat (th_tombstones h)" using sum by linarith
  finally show "ntt_timer_heap_empty h \<longleftrightarrow> th_armed h = Map.empty"
    by (simp add: ntt_timer_heap_empty_def)
qed

section \<open>The next deadline\<close>

lemma armed_of_live_cong:
  assumes "th_state h xs ss fl" "th_state h' xs' ss fl'" "live_mset ss xs' = live_mset ss xs"
  shows "th_armed h' = th_armed h"
  unfolding th_armed_state [OF assms(1)] th_armed_state [OF assms(2)]
  by (rule armed_of_cong [OF th_state_book [OF assms(1)] th_state_book [OF assms(2)] assms(3)]) simp

lemma root_earliest:
  assumes st: "th_state h xs ss fl" and y: "y \<in> set xs"
  shows "te_deadline (xs ! 0) \<le> te_deadline y"
    and "te_deadline (xs ! 0) = te_deadline y \<Longrightarrow> te_seq (xs ! 0) \<le> te_seq y"
proof -
  obtain i where i: "i < length xs" "y = xs ! i" using y by (auto simp: in_set_conv_nth)
  have "\<not> ntt_timer_heap_less y (xs ! 0)"
    using timer_order.heap_root_min [of xs i] st i by (simp add: th_state_def)
  then show "te_deadline (xs ! 0) \<le> te_deadline y"
    "te_deadline (xs ! 0) = te_deadline y \<Longrightarrow> te_seq (xs ! 0) \<le> te_seq y"
    by (auto simp: ntt_timer_heap_less_def split: if_splits)
qed

lemma peek_armed:
  assumes env: "env_ok env" and inv: "th_inv h"
  shows "\<exists>r h'. ntt_timer_heap_peek env h = Some (r, h') \<and> th_inv h' \<and> th_armed h' = th_armed h \<and>
    th_seq_next h' = th_seq_next h \<and>
    (case r of None \<Rightarrow> th_armed h = Map.empty
     | Some d \<Rightarrow> (\<exists>tag q k. th_armed h tag = Some (d, q, k)) \<and>
         (\<forall>tag d' q k. th_armed h tag = Some (d', q, k) \<longrightarrow> d \<le> d'))"
proof -
  obtain xs ss fl where st: "th_state h xs ss fl" using inv by (auto simp: th_inv_def)
  obtain h' xs' where drop: "ntt_timer_heap_drop_dead_root env h = Some h'"
    and st': "th_state h' xs' ss fl" and live: "xs' \<noteq> [] \<longrightarrow> te_live ss (xs' ! 0)"
    and lm: "live_mset ss xs' = live_mset ss xs" and seq: "th_seq_next h' = th_seq_next h"
    using drop_dead_root_state [OF env st] by blast
  have rep: "th_rep h' xs' ss" using st' by (simp add: th_state_def)
  have same: "th_armed h' = th_armed h" by (rule armed_of_live_cong [OF st st' lm])
  show ?thesis
  proof (cases "xs' = []")
    case True
    then have "th_armed h' = Map.empty" by (simp add: th_armed_state [OF st'] armed_of_empty_iff)
    then show ?thesis using drop True rep same seq th_invI [OF st']
      by (simp add: ntt_timer_heap_peek_def th_rep_def)
  next
    case False
    let ?r = "xs' ! 0"
    have r: "?r \<in> set xs'" "te_live ss ?r" using False live by auto
    have "th_size h' \<noteq> 0" using rep False by (auto simp: th_rep_def)
    then have peek: "ntt_timer_heap_peek env h = Some (Some (te_deadline ?r), h')"
      using drop False elem_at_rep [OF rep, of 0] by (simp add: ntt_timer_heap_peek_def)
    have "th_armed h' (te_tag ?r) = Some (te_deadline ?r, te_seq ?r, the (ts_task (slot_of ss ?r)))"
      using r unfolding th_armed_state [OF st'] armed_of_iff [OF th_state_book [OF st']] by blast
    moreover have "te_deadline ?r \<le> d'" if "th_armed h' tag = Some (d', q, k)" for tag d' q k
      by (rule armed_entry [OF st' that]) (use root_earliest(1) [OF st'] in auto)
    ultimately show ?thesis using peek th_invI [OF st'] seq same by auto
  qed
qed

section \<open>Destruction\<close>

lemma deinit_loop_ok:
  assumes st: "th_state h xs ss fl" and p: "unat pos \<le> length xs"
  shows "deinit_loop env h pos = Some (concat (map (\<lambda>e. ntt_task_destroy_inl (the (ts_task (slot_of ss e))))
    (filter (te_live ss) (drop (unat pos) xs))))"
  using p
proof (induction "length xs - unat pos" arbitrary: pos rule: less_induct)
  case less
  have rep: "th_rep h xs ss" using st by (simp add: th_state_def)
  show ?case
  proof (cases "unat pos < length xs")
    case False
    then show ?thesis using rep by (subst deinit_loop.simps) (simp add: word_less_nat_alt th_rep_def)
  next
    case True
    let ?x = "xs ! unat pos"
    have x: "?x \<in> set xs" using True by simp
    have s: "unat (pos + 1) = unat pos + 1"
      using unat_succ_below [of pos "th_size h"] True rep by (simp add: th_rep_def)
    have dr: "drop (unat pos) xs = ?x # drop (unat pos + 1) xs" using True by (simp add: Cons_nth_drop_Suc)
    have ih: "deinit_loop env h (pos + 1) = Some (concat (map (\<lambda>e. ntt_task_destroy_inl (the (ts_task (slot_of ss e))))
        (filter (te_live ss) (drop (unat pos + 1) xs))))"
      using less.hyps [of "pos + 1"] s True by simp
    have idx: "unat (te_index ?x) < length ss" by (rule th_state_index [OF st x])
    have tsk: "te_live ss ?x \<Longrightarrow> \<exists>k. ts_task (slot_of ss ?x) = Some k"
      using live_slot(4) [OF st x] by blast
    show ?thesis
      using True rep ih tsk by (subst deinit_loop.simps)
        (auto simp: dr elem_at_rep elem_live_rep [OF rep idx] slot_at_rep [OF rep idx]
          word_less_nat_alt th_rep_size)
  qed
qed

lemma deinit_armed:
  assumes inv: "th_inv h"
  shows "\<exists>tags. ntt_timer_heap_deinit env h =
      Some (concat (map (\<lambda>t. ntt_task_destroy_inl (snd (snd (the (th_armed h t))))) tags), ntt_timer_heap_init) \<and>
    distinct tags \<and> set tags = dom (th_armed h)"
proof -
  obtain xs ss fl where st: "th_state h xs ss fl" using inv by (auto simp: th_inv_def)
  let ?ys = "filter (te_live ss) xs"
  have "th_armed h (te_tag e) = Some (te_deadline e, te_seq e, the (ts_task (slot_of ss e)))"
    if "e \<in> set ?ys" for e
    using that unfolding th_armed_state [OF st] armed_of_iff [OF th_state_book [OF st]] by auto
  then have "map (\<lambda>e. ntt_task_destroy_inl (the (ts_task (slot_of ss e)))) ?ys =
    map (\<lambda>t. ntt_task_destroy_inl (snd (snd (the (th_armed h t))))) (map te_tag ?ys)"
    by simp
  moreover have "distinct (map te_tag ?ys)"
    using th_state_book [OF st] by (simp add: book_def distinct_map_filter)
  moreover have "set (map te_tag ?ys) = dom (th_armed h)"
    by (simp add: th_armed_state [OF st] dom_armed_of)
  moreover have "ntt_timer_heap_deinit env h =
    Some (concat (map (\<lambda>e. ntt_task_destroy_inl (the (ts_task (slot_of ss e)))) ?ys), ntt_timer_heap_init)"
    using deinit_loop_ok [OF st, of 0] by (simp add: ntt_timer_heap_deinit_def)
  ultimately show ?thesis by metis
qed

section \<open>Running the expired timers\<close>

lemma mset_due_of: "mset (map (te_val ss) (filter (\<lambda>e. te_live ss e \<and> te_deadline e \<le> now) xs)) = due_mset now ss xs"
  by (simp add: filter_filter_mset conj_commute)

lemma due_of_cong: "due_mset now ss' xs' = due_mset now ss xs \<Longrightarrow> due_of now xs' ss' = due_of now xs ss"
  unfolding due_of_def by (rule sort_mset_cong) (simp only: mset_due_of)

lemma due_of_Nil_iff: "due_of now xs ss = [] \<longleftrightarrow> (\<forall>x \<in> set xs. te_live ss x \<longrightarrow> now < te_deadline x)"
proof -
  have "length (due_of now xs ss) = length (filter (\<lambda>e. te_live ss e \<and> te_deadline e \<le> now) xs)"
    by (simp add: due_of_def)
  then have "due_of now xs ss = [] \<longleftrightarrow> filter (\<lambda>e. te_live ss e \<and> te_deadline e \<le> now) xs = []"
    by (simp only: length_0_conv [symmetric])
  then show ?thesis by (auto simp: filter_empty_conv not_le)
qed

lemma due_pop_dead:
  assumes "xs \<noteq> []" "\<not> te_live ss (xs ! 0)"
  shows "due_of now (pop_min ntt_timer_heap_less xs) ss = due_of now xs ss"
  by (rule due_of_cong) (use assms(2) in \<open>simp add: mset_pop_root [OF assms(1)]\<close>)

lemma te_val_cong:
  "slot_of ss' x = slot_of ss x \<Longrightarrow> te_val ss' x = te_val ss x"
  by (simp add: te_val_def)

text \<open>The timer that fires is the first of the due ones; the others stay.\<close>

lemma vacated_tail:
  assumes st: "th_state h xs ss fl" and ne: "xs \<noteq> []" and live: "te_live ss (xs ! 0)"
    and s: "ts_version s = te_version (xs ! 0) + 1"
  defines "ss' \<equiv> ss[unat (te_index (xs ! 0)) := s]" and "ys \<equiv> pop_min ntt_timer_heap_less xs"
  shows "live_mset ss' ys = live_mset ss xs - {#xs ! 0#}"
    and "\<And>y. y \<in> set ys \<Longrightarrow> te_live ss' y \<Longrightarrow> slot_of ss' y = slot_of ss y"
proof -
  have m: "mset xs = add_mset (xs ! 0) (mset ys)" using mset_pop_root [OF ne] by (simp add: ys_def)
  have b: "book (xs ! 0 # ys) ss (th_seq_next h) (unat (th_tombstones h))"
    using th_state_book [OF st] book_perm [of xs "xs ! 0 # ys"] m by simp
  note same = vacated_live [OF b live s, folded ss'_def]
  then show "live_mset ss' ys = live_mset ss xs - {#xs ! 0#}"
    using live by (simp add: m) (intro filter_mset_cong; simp)
  show "slot_of ss' y = slot_of ss y" if "y \<in> set ys" "te_live ss' y" for y
    using same [OF that(1)] that(2) by (simp add: ss'_def)
qed

lemma due_fire:
  assumes st: "th_state h xs ss fl" and ne: "xs \<noteq> []" and live: "te_live ss (xs ! 0)"
    and s: "ts_version s = te_version (xs ! 0) + 1" and due: "te_deadline (xs ! 0) \<le> now"
  shows "due_of now xs ss = te_val ss (xs ! 0) #
    due_of now (pop_min ntt_timer_heap_less xs) (ss[unat (te_index (xs ! 0)) := s])"
proof -
  let ?x = "xs ! 0" and ?ys = "pop_min ntt_timer_heap_less xs" and ?ss = "ss[unat (te_index (xs ! 0)) := s]"
  note t = vacated_tail [OF st ne live s]
  have x: "?x \<in> set xs" using ne by simp
  have lm: "live_mset ss xs = add_mset ?x (live_mset ?ss ?ys)" using t(1) live x by simp
  have "due_mset now ?ss ?ys = image_mset (te_val ss) (filter_mset (\<lambda>e. te_deadline e \<le> now) (live_mset ?ss ?ys))"
    by (intro image_mset_cong te_val_cong t(2)) auto
  then have split: "due_mset now ss xs = add_mset (te_val ss ?x) (due_mset now ?ss ?ys)"
    using due by (simp add: lm)
  have le: "te_val ss ?x \<le> v" if v: "v \<in># due_mset now ss xs" for v
  proof -
    obtain y where y: "y \<in> set xs" "v = te_val ss y" using v by auto
    have d: "te_seq ?x = te_seq y \<Longrightarrow> ?x = y"
      using th_state_book [OF st] x y(1) by (auto simp: book_def distinct_map inj_on_def)
    show ?thesis unfolding y(2) te_val_def
      using root_earliest [OF st y(1)] d by (auto simp: le_less)
  qed
  show ?thesis unfolding due_of_def
  proof (rule sort_Cons_min)
    show "mset (map (te_val ss) (filter (\<lambda>e. te_live ss e \<and> te_deadline e \<le> now) xs)) =
      add_mset (te_val ss ?x)
        (mset (map (te_val ?ss) (filter (\<lambda>e. te_live ?ss e \<and> te_deadline e \<le> now) ?ys)))"
      using split by (simp only: mset_due_of)
    fix w assume "w \<in> set (map (te_val ?ss) (filter (\<lambda>e. te_live ?ss e \<and> te_deadline e \<le> now) ?ys))"
    then have "w \<in># due_mset now ?ss ?ys" unfolding mset_due_of [symmetric] by (simp only: set_mset_mset)
    then show "te_val ss ?x \<le> w" using le split by simp
  qed
qed

lemma svc_loop_stop:
  assumes st: "th_state h xs ss fl" and stop: "xs = [] \<or> now < te_deadline (xs ! 0)"
  shows "svc_loop env run now h cnt evs = Some (cnt, evs, h)" "th_due now h = []"
proof -
  have rep: "th_rep h xs ss" using st by (simp add: th_state_def)
  show "svc_loop env run now h cnt evs = Some (cnt, evs, h)"
  proof (cases "xs = []")
    case True
    then have "th_size h = 0" using rep by (simp add: th_rep_def)
    then show ?thesis by (subst svc_loop.simps) simp
  next
    case False
    then have "ntt_timer_heap_elem_at env h 0 = Some (xs ! 0)" using elem_at_rep [OF rep, of 0] by simp
    then show ?thesis using stop False by (subst svc_loop.simps) auto
  qed
  have "now < te_deadline x" if "x \<in> set xs" for x
    using stop root_earliest(1) [OF st that] that by (cases xs) auto
  then show "th_due now h = []" unfolding th_due_state [OF st] by (simp add: due_of_Nil_iff)
qed

lemma svc_loop_dead:
  assumes env: "env_ok env" and st: "th_state h xs ss fl" and ne: "xs \<noteq> []"
    and due: "te_deadline (xs ! 0) \<le> now" and dead: "\<not> te_live ss (xs ! 0)"
  obtains h1 where "th_state h1 (pop_min ntt_timer_heap_less xs) ss fl"
    "svc_loop env run now h cnt evs = svc_loop env run now h1 cnt evs"
    "th_armed h1 = th_armed h" "th_due now h1 = th_due now h"
proof -
  obtain h1 where pop: "ntt_timer_heap_pop_root env h = Some h1" "0 < unat (th_tombstones h1)"
    "ntt_timer_heap_elem_live env h1 (xs ! 0) = Some False"
    and st1: "th_state (h1\<lparr>th_tombstones := th_tombstones h1 - 1\<rparr>) (pop_min ntt_timer_heap_less xs) ss fl"
    by (rule pop_dead_state [OF env st ne dead])
  let ?h1 = "h1\<lparr>th_tombstones := th_tombstones h1 - 1\<rparr>"
  have rep: "th_rep h xs ss" using st by (simp add: th_state_def)
  then have at: "ntt_timer_heap_elem_at env h 0 = Some (xs ! 0)" "th_size h \<noteq> 0"
    using ne elem_at_rep [OF rep, of 0] by (auto simp: th_rep_def)
  then have step: "svc_loop env run now h cnt evs = svc_loop env run now ?h1 cnt evs"
    using pop leD [OF due] by (subst svc_loop.simps) (simp add: word_gt_0 unat_gt_0)
  have "live_mset ss (pop_min ntt_timer_heap_less xs) = live_mset ss xs"
    using dead by (simp add: mset_pop_root [OF ne])
  from armed_of_live_cong [OF st st1 this] show thesis
    by (rule that [OF st1 step])
      (simp add: th_due_state [OF st] th_due_state [OF st1] due_pop_dead [OF ne dead])
qed

lemma svc_loop_fire:
  assumes env: "env_ok env" and st: "th_state h xs ss fl" and ne: "xs \<noteq> []"
    and due: "te_deadline (xs ! 0) \<le> now" and live: "te_live ss (xs ! 0)"
    and wrap: "te_version (xs ! 0) \<noteq> - 1"
  obtains d q k h2 where "th_inv h2" "th_due now h = (d, q, k) # th_due now h2"
    "th_armed h (te_tag (xs ! 0)) = Some (d, q, k)"
    "th_armed h2 = (th_armed h)(te_tag (xs ! 0) := None)"
    "svc_loop env run now h cnt evs = (run k h2 \<bind> (\<lambda>(sub, h3).
       svc_loop env run now h3 (cnt + 1) (evs @ ntt_task_svc_inl k @ sub @ ntt_task_destroy_inl k)))"
proof -
  let ?x = "xs ! 0"
  have w: "te_version ?x + 1 \<noteq> 0" using wrap by (simp add: add_eq_0_iff2)
  obtain h1 h2 s where pop: "ntt_timer_heap_pop_root env h = Some h1"
    "ntt_timer_heap_elem_live env h1 ?x = Some True"
    "ntt_timer_heap_slot_at env h1 (te_index ?x) = Some (slot_of ss ?x)"
    "ntt_timer_heap_free_slot env h1 (te_index ?x) = Some h2"
    and st2: "th_state h2 (pop_min ntt_timer_heap_less xs) (ss[unat (te_index ?x) := s])
       (te_index ?x # fl)" and s: "ts_version s = te_version ?x + 1"
    by (rule fire_state [OF env st ne live w])
  have rep: "th_rep h xs ss" using st by (simp add: th_state_def)
  then have at: "ntt_timer_heap_elem_at env h 0 = Some ?x" "th_size h \<noteq> 0"
    using ne elem_at_rep [OF rep, of 0] by (auto simp: th_rep_def)
  have x: "?x \<in> set xs" using ne by simp
  obtain k where k: "ts_task (slot_of ss ?x) = Some k" using live_slot(4) [OF st x live] by blast
  have "svc_loop env run now h cnt evs = (run k h2 \<bind> (\<lambda>(sub, h3).
       svc_loop env run now h3 (cnt + 1) (evs @ ntt_task_svc_inl k @ sub @ ntt_task_destroy_inl k)))"
    using pop at leD [OF due] k by (subst svc_loop.simps) simp
  moreover have "th_due now h = (te_deadline ?x, te_seq ?x, k) # th_due now h2"
    using due_fire [OF st ne live s due] k
    by (simp add: th_due_state [OF st] th_due_state [OF st2] te_val_def)
  moreover have "th_armed h (te_tag ?x) = Some (te_deadline ?x, te_seq ?x, k)"
    using x live k unfolding th_armed_state [OF st] armed_of_iff [OF th_state_book [OF st]] by force
  moreover have "th_armed h2 = (th_armed h)(te_tag ?x := None)"
    unfolding th_armed_state [OF st] th_armed_state [OF st2]
    using vacated_tail [OF st ne live s]
    by (intro armed_of_remove [OF th_state_book [OF st] th_state_book [OF st2] _ x live]) auto
  ultimately show thesis using that [OF th_invI [OF st2]] by blast
qed

text \<open>
  The loop up to the next timer it runs: it returns when no timer is due, and otherwise takes
  the first of the due ones.
\<close>

lemma svc_loop_next:
  assumes env: "env_ok env" and ok: "th_ok h"
  shows "th_due now h = [] \<Longrightarrow> \<exists>h'. svc_loop env run now h cnt evs = Some (cnt, evs, h') \<and> th_ok h' \<and>
      th_armed h' = th_armed h \<and> th_due now h' = []"
    and "th_due now h = (d, q, k) # rest \<Longrightarrow> \<exists>tag h'. th_ok h' \<and> th_due now h' = rest \<and>
      th_armed h tag = Some (d, q, k) \<and> th_armed h' = (th_armed h)(tag := None) \<and>
      svc_loop env run now h cnt evs = (run k h' \<bind> (\<lambda>(sub, h3).
        svc_loop env run now h3 (cnt + 1) (evs @ ntt_task_svc_inl k @ sub @ ntt_task_destroy_inl k)))"
proof -
  obtain xs ss fl where "th_state h xs ss fl" using ok by (auto simp: th_ok_def th_inv_def)
  then have "(th_due now h = [] \<longrightarrow> (\<exists>h'. svc_loop env run now h cnt evs = Some (cnt, evs, h') \<and> th_ok h' \<and>
      th_armed h' = th_armed h \<and> th_due now h' = [])) \<and>
    (th_due now h = (d, q, k) # rest \<longrightarrow> (\<exists>tag h'. th_ok h' \<and> th_due now h' = rest \<and>
      th_armed h tag = Some (d, q, k) \<and> th_armed h' = (th_armed h)(tag := None) \<and>
      svc_loop env run now h cnt evs = (run k h' \<bind> (\<lambda>(sub, h3).
        svc_loop env run now h3 (cnt + 1) (evs @ ntt_task_svc_inl k @ sub @ ntt_task_destroy_inl k)))))"
    using ok
  proof (induction "length xs" arbitrary: h xs rule: less_induct)
    case less
    note st = less.prems(1)
    consider (stop) "xs = [] \<or> now < te_deadline (xs ! 0)"
      | (dead) "xs \<noteq> []" "te_deadline (xs ! 0) \<le> now" "\<not> te_live ss (xs ! 0)"
      | (fire) "xs \<noteq> []" "te_deadline (xs ! 0) \<le> now" "te_live ss (xs ! 0)" by fastforce
    then show ?case
    proof cases
      case stop
      then show ?thesis using svc_loop_stop [OF st stop] less.prems(2) by auto
    next
      case dead
      obtain h1 where st1: "th_state h1 (pop_min ntt_timer_heap_less xs) ss fl"
        and eq: "svc_loop env run now h cnt evs = svc_loop env run now h1 cnt evs"
          "th_armed h1 = th_armed h" "th_due now h1 = th_due now h"
        by (rule svc_loop_dead [OF env st dead])
      have "th_ok h1" using less.prems(2) eq(2) th_invI [OF st1] by (simp add: th_ok_def)
      moreover have "length (pop_min ntt_timer_heap_less xs) < length xs"
        using dead(1) arg_cong [OF mset_pop_root [OF dead(1)], of size] by simp
      ultimately show ?thesis using less.hyps [OF _ st1] eq by simp
    next
      case fire
      have x: "xs ! 0 \<in> set xs" using fire by simp
      have "te_tag (xs ! 0) \<in> dom (th_armed h)"
        using x fire by (simp add: th_armed_state [OF st] dom_armed_of)
      then have w: "te_version (xs ! 0) \<noteq> - 1"
        using less.prems(2) unfolding th_ok_def by (metis te_tag_def ntt_timer_tag.select_convs(2))
      obtain d' q' k' h2 where r: "th_inv h2" "th_due now h = (d', q', k') # th_due now h2"
        "th_armed h (te_tag (xs ! 0)) = Some (d', q', k')"
        "th_armed h2 = (th_armed h)(te_tag (xs ! 0) := None)"
        "svc_loop env run now h cnt evs = (run k' h2 \<bind> (\<lambda>(sub, h3).
         svc_loop env run now h3 (cnt + 1) (evs @ ntt_task_svc_inl k' @ sub @ ntt_task_destroy_inl k')))"
        by (rule svc_loop_fire [OF env st fire w])
      have "th_ok h2" using less.prems(2) r(1,4) by (auto simp: th_ok_def)
      with r show ?thesis by auto
    qed
  qed
  then show "th_due now h = [] \<Longrightarrow> \<exists>h'. svc_loop env run now h cnt evs = Some (cnt, evs, h') \<and> th_ok h' \<and>
      th_armed h' = th_armed h \<and> th_due now h' = []"
    and "th_due now h = (d, q, k) # rest \<Longrightarrow> \<exists>tag h'. th_ok h' \<and> th_due now h' = rest \<and>
      th_armed h tag = Some (d, q, k) \<and> th_armed h' = (th_armed h)(tag := None) \<and>
      svc_loop env run now h cnt evs = (run k h' \<bind> (\<lambda>(sub, h3).
        svc_loop env run now h3 (cnt + 1) (evs @ ntt_task_svc_inl k @ sub @ ntt_task_destroy_inl k)))"
    by blast+
qed

lemma svc_loop_order:
  assumes env: "env_ok env"
    and run: "\<forall>k h. th_ok h \<longrightarrow> (\<exists>h'. run k h = Some (sub k, h') \<and> th_ok h' \<and> th_due now h' = th_due now h)"
    and ok: "th_ok h"
  shows "\<exists>h'. svc_loop env run now h cnt evs = Some (cnt + of_nat (length (th_due now h)),
      evs @ concat (map (\<lambda>(d, q, k). ntt_task_svc_inl k @ sub k @ ntt_task_destroy_inl k) (th_due now h)), h') \<and>
    th_ok h' \<and> th_due now h' = []"
  using ok
proof (induction "th_due now h" arbitrary: h cnt evs)
  case Nil
  from svc_loop_next(1) [OF env Nil.prems Nil.hyps [symmetric], of run cnt evs] show ?case
    unfolding Nil.hyps [symmetric] by auto
next
  case (Cons v rest)
  obtain d q k where v: "v = (d, q, k)" by (cases v)
  obtain h1 where h1: "th_ok h1" "th_due now h1 = rest"
    and loop: "svc_loop env run now h cnt evs = (run k h1 \<bind> (\<lambda>(sub, h3).
        svc_loop env run now h3 (cnt + 1) (evs @ ntt_task_svc_inl k @ sub @ ntt_task_destroy_inl k)))"
    using svc_loop_next(2) [OF env Cons.prems Cons.hyps(2) [symmetric, unfolded v],
      where run = run and cnt = cnt and evs = evs] by blast
  obtain h2 where h2: "run k h1 = Some (sub k, h2)" "th_ok h2" "th_due now h2 = rest"
    using run h1 by blast
  from Cons.hyps(1) [OF h2(3) [symmetric] h2(2), of "cnt + 1"
      "evs @ ntt_task_svc_inl k @ sub k @ ntt_task_destroy_inl k"] show ?case
    unfolding Cons.hyps(2) [symmetric] v loop h2(1) h2(3) by (simp add: add.assoc)
qed

lemma svc_loop_total:
  assumes env: "env_ok env"
    and run: "\<forall>k h. th_ok h \<longrightarrow> (\<exists>sub h'. run k h = Some (sub, h') \<and> th_ok h' \<and>
      length (th_due now h') \<le> length (th_due now h))"
    and ok: "th_ok h"
  shows "\<exists>n evs' h'. svc_loop env run now h cnt evs = Some (n, evs', h') \<and> th_ok h' \<and> th_due now h' = []"
  using ok
proof (induction "length (th_due now h)" arbitrary: h cnt evs rule: less_induct)
  case less
  show ?case
  proof (cases "th_due now h")
    case Nil
    then show ?thesis using svc_loop_next(1) [OF env less.prems Nil] by blast
  next
    case (Cons v rest)
    obtain d q k where v: "v = (d, q, k)" by (cases v)
    obtain h1 where h1: "th_ok h1" "th_due now h1 = rest"
      and loop: "svc_loop env run now h cnt evs = (run k h1 \<bind> (\<lambda>(sub, h3).
          svc_loop env run now h3 (cnt + 1) (evs @ ntt_task_svc_inl k @ sub @ ntt_task_destroy_inl k)))"
      using svc_loop_next(2) [OF env less.prems Cons [unfolded v],
        where run = run and cnt = cnt and evs = evs] by blast
    obtain sub h2 where h2: "run k h1 = Some (sub, h2)" "th_ok h2" "length (th_due now h2) \<le> length rest"
      using run h1 by blast
    have "length (th_due now h2) < length (th_due now h)" using h2(3) Cons by simp
    from less.hyps [OF this h2(2), of "cnt + 1" "evs @ ntt_task_svc_inl k @ sub @ ntt_task_destroy_inl k"]
    show ?thesis unfolding loop h2(1) by simp
  qed
qed

lemma th_apply_refines:
  assumes env: "env_ok env" and inv: "th_inv h" and ok: "th_allowed m op h"
  shows "\<exists>r h'. th_apply env m op h = Some (r, h') \<and> th_inv h' \<and> ts_step (th_abs h) op r (th_abs h')"
proof (cases op)
  case (TArm d k)
  with ok push_armed [OF env inv, of k m d] show ?thesis
    by (auto simp: th_abs_def intro: ts_arm)
next
  case (TCancel t)
  with ok obtain d q k where t: "th_armed h t = Some (d, q, k)" "tag_version t \<noteq> - 1" by auto
  from cancel_armed [OF env inv this] show ?thesis
    using TCancel t(1) by (auto simp: th_abs_def intro: ts_cancel)
next
  case TPeek
  obtain r h' where p: "ntt_timer_heap_peek env h = Some (r, h')" "th_inv h'" "th_armed h' = th_armed h"
    "th_seq_next h' = th_seq_next h"
    and r: "case r of None \<Rightarrow> th_armed h = Map.empty
     | Some d \<Rightarrow> (\<exists>tag q k. th_armed h tag = Some (d, q, k)) \<and>
         (\<forall>tag d' q k. th_armed h tag = Some (d', q, k) \<longrightarrow> d \<le> d')"
    using peek_armed [OF env inv] by blast
  have "ts_step (th_abs h) TPeek (RDeadline r) (th_abs h')"
  proof (cases r)
    case None
    then show ?thesis using r p(3,4) by (simp add: th_abs_def ts_peek_none)
  next
    case (Some d)
    then obtain tag q k where "th_armed h tag = Some (d, q, k)" using r by auto
    moreover have "\<forall>tag d' q k. th_armed h tag = Some (d', q, k) \<longrightarrow> d \<le> d'" using r Some by simp
    ultimately show ?thesis using ts_peek_some p(3,4) Some by (simp only: th_abs_def)
  qed
  with TPeek p(1,2) show ?thesis by auto
qed

lemma th_exec_refines:
  assumes env: "env_ok env" and inv: "th_inv h" and ok: "th_all_allowed env m ops h"
  shows "\<exists>rs h'. th_exec env m ops h = Some (rs, h') \<and> th_inv h' \<and> ts_run (th_abs h) ops rs (th_abs h')"
  using inv ok
proof (induction ops arbitrary: h)
  case Nil
  then show ?case by (auto intro: ts_done)
next
  case (Cons op ops)
  obtain r h1 where r: "th_apply env m op h = Some (r, h1)" "th_inv h1" "ts_step (th_abs h) op r (th_abs h1)"
    using th_apply_refines [OF env Cons.prems(1)] Cons.prems(2) by fastforce
  with Cons.prems(2) have "th_all_allowed env m ops h1" by simp
  from Cons.IH [OF r(2) this] show ?case using r by (auto intro: ts_more)
qed

lemma th_inv_init: "th_inv ntt_timer_heap_init" and th_armed_init: "th_armed ntt_timer_heap_init = Map.empty"
proof -
  have st: "th_state ntt_timer_heap_init [] [] []"
    by (simp add: th_state_def th_rep_def ntt_timer_heap_init_def heap_from_def book_def free_list_def TH_MAX_def)
  then show "th_inv ntt_timer_heap_init" by (rule th_invI)
  show "th_armed ntt_timer_heap_init = Map.empty" unfolding th_armed_state [OF st] by (simp add: armed_of_def)
qed

lemma th_seq_next_init: "th_seq_next ntt_timer_heap_init = 0"
  by (simp add: ntt_timer_heap_init_def)

text \<open>Beyond the bounds.\<close>

lemma grow_capacity_loop_zero: "cnt \<noteq> 0 \<Longrightarrow> grow_capacity_loop 0 cnt = None"
proof (rule ccontr)
  assume "cnt \<noteq> 0" "grow_capacity_loop 0 cnt \<noteq> None"
  then obtain y where y: "grow_capacity_loop 0 cnt = Some y" by blast
  have "\<not> ((0 :: u32) = 0 \<and> cnt \<noteq> 0)"
    by (rule grow_capacity_loop.raw_induct [OF _ y, of "\<lambda>c n _. \<not> (c = 0 \<and> n \<noteq> 0)"])
      (auto simp: word_gt_0 split: if_splits)
  with \<open>cnt \<noteq> 0\<close> show False by simp
qed

lemma grow_capacity_diverges:
  assumes "0x80000000 < cnt"
  shows "ntt_timer_heap_grow_capacity 0x80000000 cnt = None"
proof -
  have "cnt \<noteq> 0" using assms by auto
  moreover have "(0x80000000 :: u32) * 2 = 0" by code_simp
  ultimately show ?thesis using assms grow_capacity_loop.simps [of "0x80000000" cnt]
    by (simp only: ntt_timer_heap_grow_capacity_def if_True) (simp add: grow_capacity_loop_zero)
qed

lemma shrink_overflow:
  assumes env: "env_ok env" and h: "th_heap_cap h = 0x80000000" "0x40000000 \<le> th_size h" "th_size h \<le> 0x60000000"
  shows "\<exists>h'. ntt_timer_heap_shrink env h = Some h' \<and> th_size h' = th_size h \<and> th_heap_cap h' = 0x40000000"
proof -
  have s: "1073741824 \<le> unat (th_size h)" "unat (th_size h) \<le> 1610612736" using h by (simp_all add: word_le_nat_alt)
  have "unat (th_size h * 4) = (unat (th_size h) * 4) mod 4294967296"
    by (simp add: unat_word_ariths)
  also have "\<dots> = (unat (th_size h) - 1073741824) * 4 mod 4294967296"
    using s mod_add_self2 [of "(unat (th_size h) - 1073741824) * 4" 4294967296] by (simp add: diff_mult_distrib)
  also have "\<dots> \<le> (unat (th_size h) - 1073741824) * 4" by simp
  also have "\<dots> \<le> 2147483648" using s by simp
  finally have "\<not> th_heap_cap h < th_size h * 4" using h by (simp add: word_less_nat_alt)
  then show ?thesis using env h
    by (simp add: ntt_timer_heap_shrink_def NTT_TIMER_MIN_CAPACITY_def ntt_realloc_or_die_def Let_def)
qed

text \<open>The due timers are the armed ones whose deadline has come, in firing order.\<close>

lemma due_armed:
  assumes st: "th_state h xs ss fl"
  shows "distinct (th_due now h)" "sorted (th_due now h)"
    "set (th_due now h) = {v \<in> ran (th_armed h). fst v \<le> now}"
proof -
  have "distinct (map te_seq xs)" using th_state_book [OF st] by (simp add: book_def)
  then have "distinct (map (te_val ss) (filter P xs))" for P
    by (auto simp: distinct_map te_val_def inj_on_def)
  then show "distinct (th_due now h)" by (simp add: th_due_state [OF st] due_of_def)
  show "sorted (th_due now h)" by (simp add: th_due_state [OF st] due_of_def)
  have "v \<in> set (th_due now h) \<longleftrightarrow> v \<in> ran (th_armed h) \<and> fst v \<le> now" for v
    by (cases v) (auto simp: th_due_state [OF st] due_of_def te_val_def ran_def th_armed_state [OF st]
        armed_of_iff [OF th_state_book [OF st]])
  then show "set (th_due now h) = {v \<in> ran (th_armed h). fst v \<le> now}" by blast
qed

lemma th_due_cong:
  assumes "th_inv h" "th_inv h'" "th_armed h' = th_armed h"
  shows "th_due now h' = th_due now h"
proof -
  obtain xs ss fl xs' ss' fl' where st: "th_state h xs ss fl" "th_state h' xs' ss' fl'"
    using assms by (auto simp: th_inv_def)
  show ?thesis
    by (rule sorted_distinct_set_unique) (simp_all add: due_armed [OF st(1)] due_armed [OF st(2)] assms(3))
qed

lemma th_room_code [code]:
  "th_room h \<longleftrightarrow> th_size h < 0x3FFFFFFF \<and>
     (th_free_head h = NTT_TIMER_SLOT_NONE \<longrightarrow> th_slot_cnt h < 0x40000000) \<and>
     th_seq_next h < th_seq_next h + 1"
  by (auto simp: th_room_def TH_MAX_def word_less_nat_alt)

end
