(* ===== verification/Timer_Heap_Props.thy ===== *)
theory Timer_Heap_Props
  imports Timer_Heap_Spec
begin

text \<open>
  The properties of the timer heap, each over the definitions of \<open>Timer_Heap\<close>, with an
  instance at a concrete heap: a debug build, tasks that are in no list, and a heap with one
  timer armed.
\<close>

section \<open>A heap to evaluate on\<close>

definition debug_env :: env where
  "debug_env = \<lparr>ndebug = False, can_alloc = (\<lambda>_. True)\<rparr>"

definition mem0 :: nmem where
  "mem0 = (\<lambda>_. \<lparr>nd_next = NULL, nd_prev = NULL\<rparr>)"

definition one_timer :: ntt_timer_heap where
  "one_timer =
     \<lparr>th_heap = Some \<lparr>te_deadline = 5, te_seq = 0, te_index = 0, te_version = 1\<rparr> # replicate 7 None,
      th_heap_cap = 8,
      th_slots = Some \<lparr>ts_task = Some 64, ts_version = 1, ts_next_free = None\<rparr> # replicate 7 None,
      th_slot_cap = 8, th_size = 1, th_tombstones = 0, th_slot_cnt = 1,
      th_free_head = NTT_TIMER_SLOT_NONE, th_seq_next = 1\<rparr>"

lemma one_timer_pushed: "ntt_timer_heap_push debug_env mem0 ntt_timer_heap_init 5 64 = Some (\<lparr>tag_index = 0, tag_version = 1\<rparr>, one_timer)"
  by code_simp

lemma one_timer_armed: "th_armed one_timer \<lparr>tag_index = 0, tag_version = 1\<rparr> = Some (5, 0, 64)"
  by code_simp

lemma debug_env_ok [simp]: "env_ok debug_env"
  by (simp add: debug_env_def env_ok_def)

lemma mem0_unlinked [simp]: "ntt_task_unlinked mem0 k"
  by (simp add: mem0_def ntt_task_unlinked_def ntt_node_unlinked_def ntt_node_next_def)

lemma init_room [simp]: "th_room ntt_timer_heap_init"
  by code_simp

lemma one_timer_inv [simp]: "th_inv one_timer"
  using push_armed [OF debug_env_ok th_inv_init init_room, of 64 mem0 5] one_timer_pushed by simp

lemma one_timer_ok [simp]: "th_ok one_timer"
proof -
  have "th_armed one_timer = [\<lparr>tag_index = 0, tag_version = 1\<rparr> \<mapsto> (5, 0, 64)]"
    using push_armed [OF debug_env_ok th_inv_init init_room, of 64 mem0 5] one_timer_pushed
    by (simp add: th_armed_init th_seq_next_init)
  then show ?thesis by (simp add: th_ok_def)
qed

section \<open>Arming and cancelling\<close>

text \<open>
  Arming a timer returns a fresh tag that is never null, and the heap then holds exactly the
  timers it held before and the new one, with the deadline and the task it was given and the
  next place in the order of arming. The invariant holds again.
\<close>

theorem timer_push_arms:
  assumes "env_ok env" "th_inv h" "th_room h" "task \<noteq> NULL" "ntt_task_unlinked m task"
  shows "\<exists>tag h'. ntt_timer_heap_push env m h deadline task = Some (tag, h') \<and> th_inv h' \<and>
     \<not> ntt_timer_tag_is_null tag \<and> th_armed h tag = None \<and>
     th_armed h' = (th_armed h)(tag \<mapsto> (deadline, th_seq_next h, task)) \<and>
     th_seq_next h' = th_seq_next h + 1"
  using push_armed [OF assms] by blast

theorem timer_push_arms_witness:
  "\<exists>tag h'. ntt_timer_heap_push debug_env mem0 ntt_timer_heap_init 5 64 = Some (tag, h') \<and> th_inv h' \<and>
     \<not> ntt_timer_tag_is_null tag \<and> th_armed ntt_timer_heap_init tag = None \<and>
     th_armed h' = (th_armed ntt_timer_heap_init)(tag \<mapsto> (5, th_seq_next ntt_timer_heap_init, 64)) \<and>
     th_seq_next h' = th_seq_next ntt_timer_heap_init + 1"
  by (rule timer_push_arms) (simp_all add: th_inv_init)

text \<open>
  Cancelling an armed timer destroys its task without running it, once, and the heap then
  holds the other timers unchanged. At most half of the entries are tombstones afterwards, so
  cancelled timers cannot accumulate.
\<close>

theorem timer_cancel_disarms:
  assumes "env_ok env" "th_inv h" "th_armed h tag = Some (d, q, k)" "tag_version tag \<noteq> - 1"
  shows "\<exists>h'. ntt_timer_heap_cancel env h tag = Some (ntt_task_destroy_inl k, h') \<and> th_inv h' \<and>
     th_armed h' = (th_armed h)(tag := None) \<and> th_seq_next h' = th_seq_next h \<and>
     2 * unat (th_tombstones h') \<le> unat (th_size h')"
  by (rule cancel_armed [OF assms])

theorem timer_cancel_disarms_witness:
  "\<exists>h'. ntt_timer_heap_cancel debug_env one_timer \<lparr>tag_index = 0, tag_version = 1\<rparr> =
       Some (ntt_task_destroy_inl 64, h') \<and> th_inv h' \<and>
     th_armed h' = (th_armed one_timer)(\<lparr>tag_index = 0, tag_version = 1\<rparr> := None) \<and>
     th_seq_next h' = th_seq_next one_timer \<and> 2 * unat (th_tombstones h') \<le> unat (th_size h')"
  by (rule timer_cancel_disarms [OF debug_env_ok one_timer_inv one_timer_armed]) simp

text \<open>
  Cancelling with a tag \<open>ntt_timer_heap_push\<close> could have returned (an odd version) whose timer
  has fired or was cancelled before is a contract error: it aborts a debug build, and a release
  build ignores it, whatever has become of the slot since.
\<close>

theorem timer_cancel_stale:
  assumes "th_inv h" "th_armed h tag = None" "odd (tag_version tag)"
  shows "ntt_timer_heap_cancel env h tag = (if ndebug env then Some ([], h) else None)"
  by (rule cancel_stale [OF assms])

theorem timer_cancel_stale_witness:
  "ntt_timer_heap_cancel \<lparr>ndebug = True, can_alloc = (\<lambda>_. True)\<rparr> one_timer \<lparr>tag_index = 0, tag_version = 3\<rparr> =
     Some ([], one_timer)"
proof -
  have "th_armed one_timer \<lparr>tag_index = 0, tag_version = 3\<rparr> = None" by code_simp
  from timer_cancel_stale [OF one_timer_inv this, of "\<lparr>ndebug = True, can_alloc = (\<lambda>_. True)\<rparr>"]
  show ?thesis by simp
qed

section \<open>The next deadline\<close>

text \<open>
  Peeking returns the earliest deadline among the armed timers, or nothing when no timer is
  armed; it drops tombstones, and no timer is lost or changed by it.
\<close>

theorem timer_peek_earliest:
  assumes "env_ok env" "th_inv h"
  shows "\<exists>r h'. ntt_timer_heap_peek env h = Some (r, h') \<and> th_inv h' \<and> th_armed h' = th_armed h \<and>
    (case r of None \<Rightarrow> th_armed h = Map.empty
     | Some d \<Rightarrow> (\<exists>tag q k. th_armed h tag = Some (d, q, k)) \<and>
         (\<forall>tag d' q k. th_armed h tag = Some (d', q, k) \<longrightarrow> d \<le> d'))"
  using peek_armed [OF assms] by blast

theorem timer_peek_earliest_witness:
  "\<exists>r h'. ntt_timer_heap_peek debug_env one_timer = Some (r, h') \<and> th_inv h' \<and>
    th_armed h' = th_armed one_timer \<and>
    (case r of None \<Rightarrow> th_armed one_timer = Map.empty
     | Some d \<Rightarrow> (\<exists>tag q k. th_armed one_timer tag = Some (d, q, k)) \<and>
         (\<forall>tag d' q k. th_armed one_timer tag = Some (d', q, k) \<longrightarrow> d \<le> d'))"
  by (rule timer_peek_earliest [OF debug_env_ok one_timer_inv])

section \<open>Firing\<close>

text \<open>
  C4. Running the expired timers terminates, runs every due timer exactly once, each task being run
  and then destroyed before the next one starts, counts them, and leaves no due timer behind. The
  due timers are the armed ones whose deadline is not later than \<open>now\<close>, and the order is that of
  their deadlines and, for equal deadlines, of their arming. The callbacks may use the heap, as
  long as they leave it well formed and the due timers alone.
\<close>

theorem timer_svc_in_order:
  assumes "env_ok env" "th_ok h"
    and "\<forall>k h. th_ok h \<longrightarrow>
      (\<exists>h'. run k h = Some (sub k, h') \<and> th_ok h' \<and> th_due now h' = th_due now h)"
  shows "\<exists>h'. ntt_timer_heap_svc env run h now =
      Some (of_nat (length (th_due now h)),
        concat (map (\<lambda>(d, q, k). ntt_task_svc_inl k @ sub k @ ntt_task_destroy_inl k) (th_due now h)), h') \<and>
    th_ok h' \<and> th_due now h' = [] \<and> sorted (th_due now h) \<and> distinct (th_due now h) \<and>
    set (th_due now h) = {v \<in> ran (th_armed h). fst v \<le> now}"
proof -
  obtain xs ss fl where "th_state h xs ss fl" using assms(2) by (auto simp: th_ok_def th_inv_def)
  then show ?thesis
    using svc_loop_order [OF assms(1,3,2), of 0 "[]"] due_armed by (simp add: ntt_timer_heap_svc_def)
qed

theorem timer_svc_in_order_witness:
  "\<exists>h'. ntt_timer_heap_svc debug_env
        (\<lambda>k h. do { (d, h') \<leftarrow> ntt_timer_heap_peek debug_env h; Some ([], h') }) one_timer 7 =
      Some (1, [Callback 64 NTT_TASK_RUN, Callback 64 NTT_TASK_DROP, FreeNode 32], h') \<and>
    th_ok h' \<and> th_due 7 h' = []"
proof -
  let ?run = "\<lambda>(k :: ptr) h. do { (d, h') \<leftarrow> ntt_timer_heap_peek debug_env h; Some ([] :: task_event list, h') }"
  have run: "\<forall>k h. th_ok h \<longrightarrow>
      (\<exists>h'. ?run k h = Some ([], h') \<and> th_ok h' \<and> th_due 7 h' = th_due 7 h)"
  proof (intro allI impI)
    fix k h
    assume ok: "th_ok h"
    then have inv: "th_inv h" by (simp add: th_ok_def)
    obtain r h' where p: "ntt_timer_heap_peek debug_env h = Some (r, h')" "th_inv h'" "th_armed h' = th_armed h"
      using peek_armed [OF debug_env_ok inv] by blast
    then show "\<exists>h'. ?run k h = Some ([], h') \<and> th_ok h' \<and> th_due 7 h' = th_due 7 h"
      using ok th_due_cong [OF inv p(2,3)] by (simp add: th_ok_def)
  qed
  have due: "th_due 7 one_timer = [(5, 0, 64)]" by code_simp
  from timer_svc_in_order [OF debug_env_ok one_timer_ok run, unfolded due] show ?thesis
    by (auto simp: ntt_task_svc_inl_def ntt_task_destroy_inl_def task_node_of_def task_payload_offset_def)
qed

text \<open>
  Running the expired timers returns, with no due timer left, for every callback that leaves
  the heap well formed and does not raise the number of due timers: one that arms timers for
  later only, cancels timers, or arms as many due timers as it cancels.
\<close>

theorem timer_svc_returns:
  assumes "env_ok env" "th_ok h"
    and "\<forall>k h. th_ok h \<longrightarrow> (\<exists>sub h'. run k h = Some (sub, h') \<and> th_ok h' \<and>
      length (th_due now h') \<le> length (th_due now h))"
  shows "\<exists>n evs h'. ntt_timer_heap_svc env run h now = Some (n, evs, h') \<and> th_ok h' \<and> th_due now h' = []"
  using svc_loop_total [OF assms(1,3,2), of 0 "[]"] by (simp add: ntt_timer_heap_svc_def)

theorem timer_svc_returns_witness:
  "\<exists>n evs h'. ntt_timer_heap_svc debug_env (\<lambda>k h. Some ([], h)) one_timer 7 = Some (n, evs, h') \<and>
     th_ok h' \<and> th_due 7 h' = []"
  by (rule timer_svc_returns) simp_all

section \<open>Counting and destroying\<close>

text \<open>
  The size is the number of armed timers, tombstones excluded, and the heap reports itself
  empty exactly when no timer is armed.
\<close>

theorem timer_size_counts:
  assumes "th_inv h"
  shows "unat (ntt_timer_heap_size h) = card (dom (th_armed h)) \<and>
    (ntt_timer_heap_empty h \<longleftrightarrow> th_armed h = Map.empty)"
  using size_armed [OF assms] by blast

theorem timer_size_counts_witness:
  "unat (ntt_timer_heap_size one_timer) = card (dom (th_armed one_timer)) \<and>
    (ntt_timer_heap_empty one_timer \<longleftrightarrow> th_armed one_timer = Map.empty)"
  by (rule timer_size_counts [OF one_timer_inv])

text \<open>
  Releasing the heap destroys the task of every armed timer, once each and without running
  it, touches no task whose timer has fired or was cancelled, and leaves an empty heap.
\<close>

theorem timer_deinit_destroys:
  assumes "th_inv h"
  shows "\<exists>tags. ntt_timer_heap_deinit env h =
      Some (concat (map (\<lambda>t. ntt_task_destroy_inl (snd (snd (the (th_armed h t))))) tags),
        ntt_timer_heap_init) \<and>
    distinct tags \<and> set tags = dom (th_armed h)"
  by (rule deinit_armed [OF assms])

theorem timer_deinit_destroys_witness:
  "\<exists>tags. ntt_timer_heap_deinit debug_env one_timer =
      Some (concat (map (\<lambda>t. ntt_task_destroy_inl (snd (snd (the (th_armed one_timer t))))) tags),
        ntt_timer_heap_init) \<and>
    distinct tags \<and> set tags = dom (th_armed one_timer)"
  by (rule timer_deinit_destroys [OF one_timer_inv])

section \<open>Refinement\<close>

text \<open>
  C30. Any sequence of arming, cancelling and peeking that respects the preconditions runs on the
  word-level heap from its initial state without aborting, answers what the abstract timer map
  allows, and leaves the heap in the state the abstract run ends in.
\<close>

theorem timer_heap_refines:
  assumes "env_ok env" "th_all_allowed env m ops ntt_timer_heap_init"
  shows "\<exists>rs h'. th_exec env m ops ntt_timer_heap_init = Some (rs, h') \<and> th_inv h' \<and>
    ts_run (Map.empty, 0) ops rs (th_armed h', th_seq_next h')"
  using th_exec_refines [OF assms(1) th_inv_init assms(2)]
  by (simp add: th_abs_def th_armed_init th_seq_next_init)

theorem timer_heap_refines_witness:
  "\<exists>rs h'. th_exec debug_env mem0 [TArm 9 64, TArm 5 128, TPeek,
       TCancel \<lparr>tag_index = 1, tag_version = 1\<rparr>, TPeek] ntt_timer_heap_init = Some (rs, h') \<and> th_inv h' \<and>
    ts_run (Map.empty, 0) [TArm 9 64, TArm 5 128, TPeek,
       TCancel \<lparr>tag_index = 1, tag_version = 1\<rparr>, TPeek] rs (th_armed h', th_seq_next h')"
proof -
  have "th_all_allowed debug_env mem0 [TArm 9 64, TArm 5 128, TPeek,
      TCancel \<lparr>tag_index = 1, tag_version = 1\<rparr>, TPeek] ntt_timer_heap_init" by code_simp
  then show ?thesis by (rule timer_heap_refines [OF debug_env_ok])
qed

section \<open>Capacity\<close>

text \<open>
  Growing an array for up to \<open>2 ^ 31\<close> elements returns a capacity that holds them, and less
  than twice as many unless the array was already large enough or takes its minimal size.
\<close>

theorem timer_grow_capacity_bounds:
  assumes "unat cnt \<le> 2147483648"
  shows "\<exists>r. ntt_timer_heap_grow_capacity cap cnt = Some r \<and> unat cnt \<le> unat r \<and>
    (r = cap \<or> r = NTT_TIMER_MIN_CAPACITY \<or> unat r < 2 * unat cnt)"
proof -
  have "0 < unat (if cap = 0 then NTT_TIMER_MIN_CAPACITY else cap)"
    by (simp add: NTT_TIMER_MIN_CAPACITY_def unat_gt_0)
  from grow_capacity_loop_ok [OF this assms] show ?thesis
    by (auto simp: ntt_timer_heap_grow_capacity_def split: if_splits)
qed

theorem timer_grow_capacity_bounds_witness:
  "\<exists>r. ntt_timer_heap_grow_capacity 8 20 = Some r \<and> unat (20 :: u32) \<le> unat r \<and>
    (r = 8 \<or> r = NTT_TIMER_MIN_CAPACITY \<or> unat r < 2 * unat (20 :: u32))"
  by (rule timer_grow_capacity_bounds) simp

text \<open>
  Above \<open>2 ^ 31\<close> elements the doubling wraps around to zero and the loop never returns.
\<close>

theorem timer_grow_capacity_wraps:
  assumes "0x80000000 < cnt"
  shows "ntt_timer_heap_grow_capacity 0x80000000 cnt = None"
  by (rule grow_capacity_diverges [OF assms])

theorem timer_grow_capacity_wraps_witness:
  "(0x80000000 :: u32) < 0x80000001 \<and> ntt_timer_heap_grow_capacity 0x80000000 0x80000001 = None"
  using timer_grow_capacity_wraps [of "0x80000001"] by simp

text \<open>
  The test that decides to halve the array multiplies the size by four in 32 bits: with
  between \<open>2 ^ 30\<close> and \<open>3 * 2 ^ 29\<close> entries in an array of \<open>2 ^ 31\<close> the product wraps around, and the
  array is cut to \<open>2 ^ 30\<close> cells although it holds more entries.
\<close>

theorem timer_shrink_wraps:
  assumes "env_ok env" "th_heap_cap h = 0x80000000"
    and "0x40000000 < th_size h" "th_size h \<le> 0x60000000"
  shows "\<exists>h'. ntt_timer_heap_shrink env h = Some h' \<and> th_size h' = th_size h \<and>
    th_heap_cap h' < th_size h'"
  using shrink_overflow [OF assms(1,2) less_imp_le [OF assms(3)] assms(4)] assms(3) by auto

theorem timer_shrink_wraps_witness:
  "\<exists>h'. ntt_timer_heap_shrink debug_env (one_timer\<lparr>th_heap_cap := 0x80000000, th_size := 0x40000001\<rparr>) =
      Some h' \<and> th_size h' = th_size (one_timer\<lparr>th_heap_cap := 0x80000000, th_size := 0x40000001\<rparr>) \<and>
    th_heap_cap h' < th_size h'"
  by (rule timer_shrink_wraps [OF debug_env_ok]) simp_all

end
