(* ===== verification/Task_List.thy ===== *)
theory Task_List
  imports Ntt_Task
begin

text \<open>
  The intrusive lists: \<open>src/src/list.h\<close> and the task lists of \<open>src/src/task_list.h\<close> on top of it.

  A list is known by the address of its sentinel node, which is also the address of the
  \<open>ntt_list\<close> and of the \<open>ntt_task_list\<close> that hold it as their first member. \<open>list_rep m s ns\<close> says
  that the nodes reachable from the sentinel \<open>s\<close> are \<open>ns\<close>, linked in both directions. The contract
  of a first-in first-out list is the locale \<open>fifo\<close>, which the task list interprets.
\<close>

section \<open>Lists of nodes\<close>

definition ntt_list_init :: "nmem \<Rightarrow> ptr \<Rightarrow> nmem" where
  "ntt_list_init m self = node_set_prev (ntt_node_set_next m self self) self self"

definition ntt_list_empty :: "nmem \<Rightarrow> ptr \<Rightarrow> bool" where
  "ntt_list_empty m self \<longleftrightarrow> ntt_node_next m self = self"

definition ntt_list_push_back :: "nmem \<Rightarrow> ptr \<Rightarrow> ptr \<Rightarrow> bool \<times> nmem" where
  "ntt_list_push_back m self node = (
     let rc = ntt_list_empty m self;
         m1 = ntt_node_set_next m node self;
         m2 = node_set_prev m1 node (nd_prev (m1 self));
         m3 = ntt_node_set_next m2 (nd_prev (m2 self)) node;
         m4 = node_set_prev m3 self node
     in (rc, m4))"

definition ntt_list_front :: "nmem \<Rightarrow> ptr \<Rightarrow> ptr" where
  "ntt_list_front m self = ntt_node_next m self"

definition ntt_list_next :: "nmem \<Rightarrow> ptr \<Rightarrow> ptr \<times> nmem" where
  "ntt_list_next m self = (
     let head = ntt_node_next m self;
         nxt = ntt_node_next m head;
         m1 = ntt_node_set_next m self nxt;
         m2 = node_set_prev m1 nxt self;
         m3 = ntt_node_set_next m2 head NULL
     in (if nxt \<noteq> self then nxt else NULL, m3))"

section \<open>Lists of tasks\<close>

definition ntt_task_list_init :: "nmem \<Rightarrow> ptr \<Rightarrow> nmem" where
  "ntt_task_list_init m self = ntt_list_init m self"

definition ntt_task_list_push :: "env \<Rightarrow> nmem \<Rightarrow> ptr \<Rightarrow> ptr \<Rightarrow> (bool \<times> nmem) option" where
  "ntt_task_list_push env m self task = do {
     ntt_assert env (ntt_task_unlinked m task);
     Some (ntt_list_push_back m self (task_node_of task))
   }"

definition ntt_task_list_empty :: "nmem \<Rightarrow> ptr \<Rightarrow> bool" where
  "ntt_task_list_empty m self = ntt_list_empty m self"

definition ntt_task_list_front :: "env \<Rightarrow> nmem \<Rightarrow> ptr \<Rightarrow> ptr option" where
  "ntt_task_list_front env m self = do {
     ntt_assert env (\<not> ntt_task_list_empty m self);
     Some (task_of_node (ntt_list_front m self))
   }"

text \<open>The next task, \<open>NULL\<close> when there is none.\<close>

definition ntt_task_list_next :: "env \<Rightarrow> nmem \<Rightarrow> ptr \<Rightarrow> (ptr \<times> nmem) option" where
  "ntt_task_list_next env m self = do {
     ntt_assert env (\<not> ntt_task_list_empty m self);
     let (node, m') = ntt_list_next m self;
     Some (if node = NULL then NULL else task_of_node node, m')
   }"

section \<open>What a list of nodes stands for\<close>

text \<open>\<open>links m p ns s\<close>: following the links from \<open>p\<close> visits \<open>ns\<close> and then \<open>s\<close>, and back.\<close>

fun links :: "nmem \<Rightarrow> ptr \<Rightarrow> ptr list \<Rightarrow> ptr \<Rightarrow> bool" where
  "links m p [] s \<longleftrightarrow> nd_next (m p) = s \<and> nd_prev (m s) = p"
| "links m p (n # ns) s \<longleftrightarrow> nd_next (m p) = n \<and> nd_prev (m n) = p \<and> links m n ns s"

definition list_rep :: "nmem \<Rightarrow> ptr \<Rightarrow> ptr list \<Rightarrow> bool" where
  "list_rep m s ns \<longleftrightarrow> links m s ns s \<and> distinct (s # ns) \<and> NULL \<notin> set (s # ns)"

text \<open>The tasks of a task list, each known by the address of its payload.\<close>

definition tasks_rep :: "nmem \<Rightarrow> ptr \<Rightarrow> ptr list \<Rightarrow> bool" where
  "tasks_rep m s ts \<longleftrightarrow> list_rep m s (map task_node_of ts) \<and> NULL \<notin> set ts"

definition task_fresh :: "ptr \<Rightarrow> nmem \<Rightarrow> ptr \<Rightarrow> bool" where
  "task_fresh s m t \<longleftrightarrow> t \<noteq> NULL \<and> ntt_task_unlinked m t \<and> task_node_of t \<noteq> NULL \<and> task_node_of t \<noteq> s"

text \<open>Forgetting the first task, with the task behind it as an option.\<close>

definition task_list_forget :: "env \<Rightarrow> ptr \<Rightarrow> nmem \<Rightarrow> (ptr option \<times> nmem) option" where
  "task_list_forget env s m = do {
     (t, m') \<leftarrow> ntt_task_list_next env m s;
     Some (if t = NULL then None else Some t, m')
   }"

section \<open>A contract for first-in first-out lists\<close>

text \<open>
  The operations the queues use: pushing reports whether the list was empty, taking the next one
  forgets the first and returns the one behind it. \<open>fresh\<close> is the condition under which an
  element may be pushed.
\<close>

locale fifo =
  fixes rep :: "'s \<Rightarrow> 'a list \<Rightarrow> bool"
    and fresh :: "'s \<Rightarrow> 'a \<Rightarrow> bool"
    and push :: "'s \<Rightarrow> 'a \<Rightarrow> (bool \<times> 's) option"
    and is_empty :: "'s \<Rightarrow> bool"
    and front :: "'s \<Rightarrow> 'a option"
    and forget :: "'s \<Rightarrow> ('a option \<times> 's) option"
  assumes empty_iff: "rep s xs \<Longrightarrow> is_empty s \<longleftrightarrow> xs = []"
    and push_back: "rep s xs \<Longrightarrow> fresh s x \<Longrightarrow>
      \<exists>s'. push s x = Some (xs = [], s') \<and> rep s' (xs @ [x]) \<and> (\<forall>y. y \<noteq> x \<longrightarrow> fresh s y \<longrightarrow> fresh s' y)"
    and front_first: "rep s (x # xs) \<Longrightarrow> front s = Some x"
    and forget_first: "rep s (x # xs) \<Longrightarrow>
      \<exists>s'. forget s = Some (case xs of [] \<Rightarrow> None | y # ys \<Rightarrow> Some y, s') \<and> rep s' xs \<and> fresh s' x \<and>
        (\<forall>y. fresh s y \<longrightarrow> fresh s' y)"
begin

fun push_all :: "'s \<Rightarrow> 'a list \<Rightarrow> 's option" where
  "push_all s [] = Some s"
| "push_all s (x # xs) = (case push s x of None \<Rightarrow> None | Some (b, s') \<Rightarrow> push_all s' xs)"

text \<open>Taking up to \<open>n\<close> elements out, the way a queue is drained.\<close>

fun drain :: "nat \<Rightarrow> 's \<Rightarrow> ('a list \<times> 's) option" where
  "drain 0 s = Some ([], s)"
| "drain (Suc n) s =
     (if is_empty s then Some ([], s)
      else case front s of None \<Rightarrow> None | Some x \<Rightarrow>
        (case forget s of None \<Rightarrow> None | Some (y, s') \<Rightarrow>
          (case drain n s' of None \<Rightarrow> None | Some (xs, s'') \<Rightarrow> Some (x # xs, s''))))"

lemma push_all_rep:
  assumes "rep s xs" "distinct ys" "\<forall>y \<in> set ys. fresh s y"
  shows "\<exists>s'. push_all s ys = Some s' \<and> rep s' (xs @ ys)"
  using assms
proof (induction ys arbitrary: s xs)
  case (Cons y ys)
  obtain s' where s': "push s y = Some (xs = [], s')" "rep s' (xs @ [y])"
    "\<forall>z. z \<noteq> y \<longrightarrow> fresh s z \<longrightarrow> fresh s' z"
    using push_back [OF Cons.prems(1), of y] Cons.prems(3) by auto
  then have "\<forall>z \<in> set ys. fresh s' z" using Cons.prems(2,3) by auto
  from Cons.IH [OF s'(2) _ this] show ?case using Cons.prems(2) s'(1) by auto
qed auto

lemma drain_rep:
  assumes "rep s xs"
  shows "\<exists>s'. drain n s = Some (take n xs, s') \<and> rep s' (drop n xs)"
  using assms
proof (induction n arbitrary: s xs)
  case (Suc n)
  show ?case
  proof (cases xs)
    case Nil
    then show ?thesis using Suc.prems empty_iff [OF Suc.prems] by simp
  next
    case (Cons x ys)
    obtain s' where s': "forget s = Some (case ys of [] \<Rightarrow> None | y # zs \<Rightarrow> Some y, s')" "rep s' ys"
      using forget_first Suc.prems unfolding Cons by blast
    from Suc.IH [OF s'(2)] show ?thesis
      using s'(1) front_first [OF Suc.prems [unfolded Cons]] empty_iff [OF Suc.prems] Cons by auto
  qed
qed auto

text \<open>What goes in comes out, in the same order.\<close>

lemma push_drain:
  assumes "rep s []" "distinct ys" "\<forall>y \<in> set ys. fresh s y"
  shows "\<exists>s' s''. push_all s ys = Some s' \<and> drain (length ys) s' = Some (ys, s'') \<and> rep s'' []"
  using push_all_rep [OF assms] drain_rep [of _ ys "length ys"] by force

end

section \<open>Lists of nodes, proved\<close>

lemmas node_defs = ntt_node_next_def ntt_node_set_next_def node_set_prev_def

lemma links_cong:
  assumes "\<And>x. x \<in> set (p # ns) \<Longrightarrow> nd_next (m' x) = nd_next (m x)"
    and "\<And>x. x \<in> set (ns @ [s]) \<Longrightarrow> nd_prev (m' x) = nd_prev (m x)"
  shows "links m' p ns s = links m p ns s"
  using assms by (induction ns arbitrary: p) auto

lemma links_snoc: "links m p (ns @ [n]) s \<longleftrightarrow> links m p ns n \<and> nd_next (m n) = s \<and> nd_prev (m s) = n"
  by (induction ns arbitrary: p) auto

lemma links_last: "links m p ns s \<Longrightarrow> nd_prev (m s) = last (p # ns) \<and> nd_next (m (last (p # ns))) = s"
  by (induction ns arbitrary: p) auto

lemma list_init_rep: "s \<noteq> NULL \<Longrightarrow> list_rep (ntt_list_init m s) s []"
  by (simp add: list_rep_def ntt_list_init_def node_defs)

lemma list_empty_iff: "list_rep m s ns \<Longrightarrow> ntt_list_empty m s \<longleftrightarrow> ns = []"
  by (cases ns) (auto simp: list_rep_def ntt_list_empty_def ntt_node_next_def)

text \<open>The effect of the two updates, link by link.\<close>

lemma push_back_links:
  assumes "n \<noteq> s" "nd_prev (m s) = t" "t \<noteq> n"
  shows "nd_next (snd (ntt_list_push_back m s n) x) = (if x = t then n else if x = n then s else nd_next (m x))"
    and "nd_prev (snd (ntt_list_push_back m s n) x) = (if x = s then n else if x = n then t else nd_prev (m x))"
  using assms by (simp_all add: ntt_list_push_back_def node_defs Let_def)

lemma next_links:
  assumes "nd_next (m s) = n" "nd_next (m n) = k" "n \<noteq> s" "n \<noteq> k"
  shows "nd_next (snd (ntt_list_next m s) x) = (if x = n then NULL else if x = s then k else nd_next (m x))"
    and "nd_prev (snd (ntt_list_next m s) x) = (if x = k then s else nd_prev (m x))"
  using assms by (simp_all add: ntt_list_next_def node_defs Let_def)

lemma list_push_back_rep:
  assumes rep: "list_rep m s ns" and n: "n \<notin> set (s # ns)" "n \<noteq> NULL"
  shows "\<exists>m'. ntt_list_push_back m s n = (ns = [], m') \<and> list_rep m' s (ns @ [n]) \<and>
    (\<forall>x. x \<notin> set (s # n # ns) \<longrightarrow> m' x = m x)"
proof -
  define t where "t = last (s # ns)"
  have l: "links m s ns s" "distinct (s # ns)" "NULL \<notin> set (s # ns)" using rep by (auto simp: list_rep_def)
  have prev: "nd_prev (m s) = t" using links_last [OF l(1)] by (simp add: t_def)
  have t: "t \<in> set (s # ns)" unfolding t_def by (rule last_in_set) simp
  then have tn: "t \<noteq> n" "n \<noteq> s" using n by auto
  define m' where "m' = snd (ntt_list_push_back m s n)"
  note m' = push_back_links [where m = m, OF tn(2) prev tn(1), folded m'_def]
  have "links m' s (ns @ [n]) s"
  proof (cases ns rule: rev_cases)
    case Nil
    then show ?thesis using n by (simp add: m' t_def)
  next
    case (snoc ks k)
    then have tk: "t = k" by (simp add: t_def)
    have "links m' s ks k = links m s ks k"
      using l(2) n tk snoc by (intro links_cong) (auto simp: m')
    then show ?thesis using l n unfolding snoc tk [symmetric] by (simp add: links_snoc m' del: append_assoc)
  qed
  moreover have "m' x = m x" if "x \<notin> set (s # n # ns)" for x
  proof -
    have "x \<noteq> t" using that t by auto
    then show ?thesis using that by (intro ntt_node.equality) (simp_all add: m')
  qed
  moreover have "ntt_list_push_back m s n = (ns = [], m')"
    using list_empty_iff [OF rep] by (simp add: m'_def ntt_list_push_back_def Let_def)
  ultimately show ?thesis using l n by (auto simp: list_rep_def)
qed

lemma list_next_rep:
  assumes rep: "list_rep m s (n # ns)"
  shows "\<exists>m'. ntt_list_next m s = (case ns of [] \<Rightarrow> NULL | k # ks \<Rightarrow> k, m') \<and> list_rep m' s ns \<and>
    nd_next (m' n) = NULL \<and> (\<forall>x. x \<notin> set (s # n # ns) \<longrightarrow> m' x = m x)"
proof -
  have l: "nd_next (m s) = n" "links m n ns s" "distinct (s # n # ns)" "NULL \<notin> set (s # n # ns)"
    using rep by (auto simp: list_rep_def)
  define k where "k = hd (ns @ [s])"
  have k: "nd_next (m n) = k" using l(2) by (cases ns) (auto simp: k_def)
  have kn: "n \<noteq> k" "n \<noteq> s" "k \<in> set (s # ns)" using l(3) by (cases ns; auto simp: k_def)+
  define m' where "m' = snd (ntt_list_next m s)"
  note m' = next_links [where m = m, OF l(1) k kn(2,1), folded m'_def]
  have "links m' s ns s"
  proof (cases ns)
    case Nil
    then show ?thesis using l(3) by (simp add: m' k_def)
  next
    case (Cons j js)
    then have "links m' j js s = links m j js s"
      using l(3) by (intro links_cong) (auto simp: m' k_def)
    then show ?thesis using Cons l by (simp add: m' k_def)
  qed
  moreover have "fst (ntt_list_next m s) = (case ns of [] \<Rightarrow> NULL | k # ks \<Rightarrow> k)"
    using l(1,3) k by (cases ns) (auto simp: ntt_list_next_def ntt_node_next_def k_def Let_def)
  moreover have "m' x = m x" if "x \<notin> set (s # n # ns)" for x
  proof -
    have "x \<noteq> k" using that kn(3) by auto
    then show ?thesis using that by (intro ntt_node.equality) (simp_all add: m')
  qed
  moreover have "nd_next (m' n) = NULL" by (simp add: m')
  ultimately show ?thesis using l by (intro exI [of _ m']) (simp add: list_rep_def m'_def prod_eq_iff)
qed

lemma list_rep_linked:
  assumes "list_rep m s ns" "n \<in> set ns"
  shows "nd_next (m n) \<noteq> NULL"
proof -
  have "links m p ns s \<Longrightarrow> n \<in> set ns \<Longrightarrow> nd_next (m n) \<in> set (s # ns)" for p
    by (induction ns arbitrary: p) (auto split: if_splits, (case_tac ns; auto)+)
  then show ?thesis using assms by (auto simp: list_rep_def)
qed

section \<open>Lists of tasks, proved\<close>

lemma fresh_notin:
  assumes "tasks_rep m s ts" "task_fresh s m t"
  shows "task_node_of t \<notin> set (s # map task_node_of ts)"
  using assms list_rep_linked [of m s "map task_node_of ts" "task_node_of t"]
  by (auto simp: tasks_rep_def task_fresh_def ntt_task_unlinked_def ntt_node_unlinked_def ntt_node_next_def)

lemma task_node_of_eq_iff [simp]: "task_node_of a = task_node_of b \<longleftrightarrow> a = b"
  by (simp add: task_node_of_def)

text \<open>The task list interprets the contract; the sentinel \<open>s\<close> and the build are arbitrary.\<close>

lemma task_list_push_back:
  assumes rep: "tasks_rep m s ts" and fr: "task_fresh s m t"
  shows "\<exists>m'. ntt_task_list_push env m s t = Some (ts = [], m') \<and> tasks_rep m' s (ts @ [t]) \<and>
    (\<forall>y. y \<noteq> t \<longrightarrow> task_fresh s m y \<longrightarrow> task_fresh s m' y)"
proof -
  obtain m' where p: "ntt_list_push_back m s (task_node_of t) = (ts = [], m')"
    "list_rep m' s (map task_node_of (ts @ [t]))"
    "\<forall>x. x \<notin> set (s # task_node_of t # map task_node_of ts) \<longrightarrow> m' x = m x"
    using list_push_back_rep [of m s "map task_node_of ts" "task_node_of t"] fresh_notin [OF rep fr] rep fr
    by (auto simp: tasks_rep_def task_fresh_def)
  have "task_fresh s m' y" if "y \<noteq> t" "task_fresh s m y" for y
    using fresh_notin [OF rep that(2)] p(3) that
    by (auto simp: task_fresh_def ntt_task_unlinked_def ntt_node_unlinked_def ntt_node_next_def)
  then show ?thesis using p fr rep by (auto simp: ntt_task_list_push_def tasks_rep_def task_fresh_def)
qed

lemma task_list_empty_iff: "tasks_rep m s ts \<Longrightarrow> ntt_task_list_empty m s \<longleftrightarrow> ts = []"
  using list_empty_iff by (fastforce simp: tasks_rep_def ntt_task_list_empty_def)

lemma task_list_front_first:
  assumes rep: "tasks_rep m s (t # ts)"
  shows "ntt_task_list_front env m s = Some t"
  using assms task_list_empty_iff [OF assms]
  by (simp add: ntt_task_list_front_def ntt_list_front_def ntt_node_next_def tasks_rep_def list_rep_def)

lemma task_list_next_first:
  assumes rep: "tasks_rep m s (t # ts)"
  shows "\<exists>m'. ntt_task_list_next env m s = Some (case ts of [] \<Rightarrow> NULL | u # us \<Rightarrow> u, m') \<and>
    tasks_rep m' s ts \<and> task_fresh s m' t \<and> (\<forall>y. task_fresh s m y \<longrightarrow> task_fresh s m' y)"
proof -
  obtain m' where p: "ntt_list_next m s = (case map task_node_of ts of [] \<Rightarrow> NULL | k # ks \<Rightarrow> k, m')"
    "list_rep m' s (map task_node_of ts)" "nd_next (m' (task_node_of t)) = NULL"
    "\<forall>x. x \<notin> set (s # task_node_of t # map task_node_of ts) \<longrightarrow> m' x = m x"
    using list_next_rep [of m s "task_node_of t" "map task_node_of ts"] rep by (auto simp: tasks_rep_def)
  have nn: "\<forall>u \<in> set (t # ts). u \<noteq> NULL \<and> task_node_of u \<noteq> NULL \<and> task_node_of u \<noteq> s"
    using rep by (force simp: tasks_rep_def list_rep_def)
  have "task_fresh s m' y" if "task_fresh s m y" for y
    using fresh_notin [OF rep that] p(4) that
    by (auto simp: task_fresh_def ntt_task_unlinked_def ntt_node_unlinked_def ntt_node_next_def)
  moreover have "task_fresh s m' t"
    using p(3) nn by (simp add: task_fresh_def ntt_task_unlinked_def ntt_node_unlinked_def ntt_node_next_def)
  moreover have "ntt_task_list_next env m s = Some (case ts of [] \<Rightarrow> NULL | u # us \<Rightarrow> u, m')"
    using p(1) nn task_list_empty_iff [OF rep] by (cases ts) (auto simp: ntt_task_list_next_def)
  ultimately show ?thesis using p(2) nn by (auto simp: tasks_rep_def)
qed

interpretation task_fifo: fifo "\<lambda>m. tasks_rep m s" "task_fresh s" "\<lambda>m. ntt_task_list_push env m s"
  "\<lambda>m. ntt_task_list_empty m s" "\<lambda>m. ntt_task_list_front env m s" "task_list_forget env s" for env s
proof (unfold_locales, goal_cases)
  case (1 m ts)
  then show ?case by (rule task_list_empty_iff)
next
  case (2 m ts t)
  then show ?case by (rule task_list_push_back)
next
  case (3 m t ts)
  then show ?case by (rule task_list_front_first)
next
  case (4 m t ts)
  then have "\<forall>u \<in> set ts. u \<noteq> NULL" by (auto simp: tasks_rep_def)
  then show ?case using task_list_next_first [OF 4, of env]
    by (cases ts) (auto simp: task_list_forget_def)
qed

lemma tasks_init_rep: "s \<noteq> NULL \<Longrightarrow> tasks_rep (ntt_task_list_init m s) s []"
  by (simp add: tasks_rep_def ntt_task_list_init_def list_init_rep)

section \<open>Properties\<close>

lemma clear_mem_fresh: "t \<noteq> NULL \<Longrightarrow> task_node_of t \<noteq> NULL \<Longrightarrow> task_node_of t \<noteq> s \<Longrightarrow>
  task_fresh s (ntt_task_list_init (\<lambda>_. \<lparr>nd_next = NULL, nd_prev = NULL\<rparr>) s) t"
  by (simp add: task_fresh_def ntt_task_list_init_def ntt_list_init_def ntt_task_unlinked_def
      ntt_node_unlinked_def node_defs)

text \<open>
  Pushing an unlinked task appends it to the list, reports whether the list was empty before,
  and writes to no node outside the list.
\<close>

theorem task_list_push_appends:
  assumes "tasks_rep m s ts" "task_fresh s m t"
  shows "\<exists>m'. ntt_task_list_push env m s t = Some (ntt_task_list_empty m s, m') \<and>
    tasks_rep m' s (ts @ [t]) \<and>
    (\<forall>x. x \<notin> set (s # task_node_of t # map task_node_of ts) \<longrightarrow> m' x = m x)"
proof -
  have "list_rep m s (map task_node_of ts)" using assms(1) by (simp add: tasks_rep_def)
  from list_push_back_rep [OF this fresh_notin [OF assms]] show ?thesis
    using assms list_empty_iff [OF \<open>list_rep m s (map task_node_of ts)\<close>]
    by (auto simp: ntt_task_list_push_def tasks_rep_def task_fresh_def ntt_task_list_empty_def)
qed

theorem task_list_push_appends_witness:
  "\<exists>m'. ntt_task_list_push \<lparr>ndebug = False, can_alloc = (\<lambda>_. True)\<rparr>
        (ntt_task_list_init (\<lambda>_. \<lparr>nd_next = NULL, nd_prev = NULL\<rparr>) 8) 8 64 =
      Some (ntt_task_list_empty (ntt_task_list_init (\<lambda>_. \<lparr>nd_next = NULL, nd_prev = NULL\<rparr>) 8) 8, m') \<and>
    tasks_rep m' 8 ([] @ [64]) \<and>
    (\<forall>x. x \<notin> set (8 # task_node_of 64 # map task_node_of []) \<longrightarrow>
       m' x = ntt_task_list_init (\<lambda>_. \<lparr>nd_next = NULL, nd_prev = NULL\<rparr>) 8 x)"
  by (rule task_list_push_appends [OF tasks_init_rep clear_mem_fresh])
    (simp_all add: task_node_of_def task_payload_offset_def)

text \<open>
  Tasks pushed to an initialised list come out in the order they went in: taking the front and
  forgetting it, as often as tasks were pushed, returns exactly the pushed tasks and leaves an
  empty list, whatever links the memory held before.
\<close>

theorem task_list_fifo:
  assumes "s \<noteq> NULL" "distinct ts" "\<forall>t \<in> set ts. task_fresh s (ntt_task_list_init m s) t"
  shows "\<exists>m' m''. fifo.push_all (\<lambda>m. ntt_task_list_push env m s) (ntt_task_list_init m s) ts = Some m' \<and>
    fifo.drain (\<lambda>m. ntt_task_list_empty m s) (\<lambda>m. ntt_task_list_front env m s) (task_list_forget env s)
      (length ts) m' = Some (ts, m'') \<and> tasks_rep m'' s []"
  by (rule task_fifo.push_drain [OF tasks_init_rep [OF assms(1)] assms(2,3)])

theorem task_list_fifo_witness:
  "\<exists>m' m''. fifo.push_all (\<lambda>m. ntt_task_list_push \<lparr>ndebug = False, can_alloc = (\<lambda>_. True)\<rparr> m 8)
        (ntt_task_list_init (\<lambda>_. \<lparr>nd_next = NULL, nd_prev = NULL\<rparr>) 8) [128, 64, 192] = Some m' \<and>
    fifo.drain (\<lambda>m. ntt_task_list_empty m 8)
      (\<lambda>m. ntt_task_list_front \<lparr>ndebug = False, can_alloc = (\<lambda>_. True)\<rparr> m 8)
      (task_list_forget \<lparr>ndebug = False, can_alloc = (\<lambda>_. True)\<rparr> 8)
      (length [128, 64, 192 :: ptr]) m' = Some ([128, 64, 192], m'') \<and> tasks_rep m'' 8 []"
  by (rule task_list_fifo) (simp_all add: clear_mem_fresh task_node_of_def task_payload_offset_def)

end
