(* ===== verification/Slab.thy ===== *)
theory Slab
  imports Ntt_Task
begin

text \<open>
  The slab of queues: \<open>src/src/slab.h\<close> and \<open>src/src/slab.c\<close>, with the default
  \<open>NTT_FIRST_SLAB_BLOCK_LEN_LOG2 = 6\<close>. Indices, strides and offsets are the 32-bit words of the
  code, addresses are 64-bit words, and the heads of the objects live in a memory indexed by
  address: two indices whose addresses coincide share a head, as they would in the program.

  \<open>aligned k n\<close> is what \<open>aligned_alloc\<close> of the C library returns for the \<open>k\<close>th block of a slab when
  asked for \<open>n\<close> bytes, \<open>None\<close> when it fails. The lock only serialises the operations and is left
  out: each operation is one step.
\<close>

section \<open>Data\<close>

definition NTT_FIRST_SLAB_BLOCK_LEN_LOG2 :: nat where
  "NTT_FIRST_SLAB_BLOCK_LEN_LOG2 = 6"

definition NTT_FIRST_SLAB_BLOCK_LEN :: u32 where
  "NTT_FIRST_SLAB_BLOCK_LEN = push_bit NTT_FIRST_SLAB_BLOCK_LEN_LOG2 1"

definition NTT_SLAB_CAPACITY :: u32 where
  "NTT_SLAB_CAPACITY = ucast (push_bit 32 (1 :: u64) - 1)"

definition NTT_SLAB_NONE :: u32 where
  "NTT_SLAB_NONE = NTT_SLAB_CAPACITY"

definition NTT_SLAB_FULL_BLOCKS :: u32 where
  "NTT_SLAB_FULL_BLOCKS = 32 - of_nat NTT_FIRST_SLAB_BLOCK_LEN_LOG2"

definition NTT_SLAB_LAST_BLOCK_LEN :: u32 where
  "NTT_SLAB_LAST_BLOCK_LEN = NTT_FIRST_SLAB_BLOCK_LEN - 1"

definition NTT_SLAB_BLOCKS :: u32 where
  "NTT_SLAB_BLOCKS = NTT_SLAB_FULL_BLOCKS + (if NTT_SLAB_LAST_BLOCK_LEN \<noteq> 0 then 1 else 0)"

text \<open>\<open>uint_fast32_t\<close> is 64 bits wide on the platforms the library builds for.\<close>

record ntt_slab_head =
  sh_generation :: u64
  sh_index :: u32
  sh_next_free :: "u32 option"

record ntt_slab =
  sl_blocks :: "ptr list"
  sl_size :: u64
  sl_stride :: u32
  sl_block_cnt :: u32
  sl_free_head :: u32
  sl_mem :: "ptr \<Rightarrow> ntt_slab_head option"

type_synonym aligned_alloc = "u32 \<Rightarrow> u64 \<Rightarrow> ptr option"

section \<open>Address arithmetic\<close>

text \<open>Leading zeros below bit \<open>n\<close>.\<close>

fun clz_below :: "nat \<Rightarrow> u32 \<Rightarrow> nat" where
  "clz_below 0 w = 0"
| "clz_below (Suc n) w = (if bit w n then 0 else Suc (clz_below n w))"

definition builtin_clz :: "u32 \<Rightarrow> u32" where
  "builtin_clz w = of_nat (clz_below 32 w)"

definition ntt_slab_block_of :: "u32 \<Rightarrow> u32" where
  "ntt_slab_block_of index = 31 - builtin_clz (drop_bit NTT_FIRST_SLAB_BLOCK_LEN_LOG2 index + 1)"

definition ntt_slab_block_first :: "u32 \<Rightarrow> u32" where
  "ntt_slab_block_first block = NTT_FIRST_SLAB_BLOCK_LEN * (push_bit (unat block) 1 - 1)"

definition ntt_slab_block_len :: "u32 \<Rightarrow> u32" where
  "ntt_slab_block_len block = push_bit (unat block) NTT_FIRST_SLAB_BLOCK_LEN"

definition slab_block_base :: "ntt_slab \<Rightarrow> u32 \<Rightarrow> ptr option" where
  "slab_block_base self block =
     (if unat block < length (sl_blocks self) then Some (sl_blocks self ! unat block) else None)"

text \<open>The product of the offset and the stride is computed in 32 bits.\<close>

definition ntt_slab_fresh_at :: "ntt_slab \<Rightarrow> u32 \<Rightarrow> ptr option" where
  "ntt_slab_fresh_at self index = do {
     let block = ntt_slab_block_of index;
     base \<leftarrow> slab_block_base self block;
     Some (base + ucast ((index - ntt_slab_block_first block) * sl_stride self))
   }"

definition ntt_slab_at :: "env \<Rightarrow> ntt_slab \<Rightarrow> u32 \<Rightarrow> ptr option" where
  "ntt_slab_at env self index = do {
     ntt_assert env (ucast index < sl_size self);
     let block = ntt_slab_block_of index;
     base \<leftarrow> slab_block_base self block;
     Some (base + ucast ((index - ntt_slab_block_first block) * sl_stride self))
   }"

section \<open>Heads\<close>

definition ntt_slab_index :: "ntt_slab \<Rightarrow> ptr \<Rightarrow> u32 option" where
  "ntt_slab_index self object = map_option sh_index (sl_mem self object)"

definition ntt_slab_generation :: "ntt_slab \<Rightarrow> ptr \<Rightarrow> u32 option" where
  "ntt_slab_generation self object = do {
     h \<leftarrow> sl_mem self object;
     Some (ucast (sh_generation h))
   }"

definition ntt_slab_retire :: "ntt_slab \<Rightarrow> ptr \<Rightarrow> (u32 \<times> ntt_slab) option" where
  "ntt_slab_retire self object = do {
     h \<leftarrow> sl_mem self object;
     let g = sh_generation h;
     Some (ucast g + 1,
       self\<lparr>sl_mem := (sl_mem self)(object \<mapsto> h\<lparr>sh_generation := g + 1\<rparr>)\<rparr>)
   }"

section \<open>The operations of the slab\<close>

definition ntt_slab_init :: "u64 \<Rightarrow> ntt_slab" where
  "ntt_slab_init object_size =
     \<lparr>sl_blocks = replicate (unat NTT_SLAB_BLOCKS) NULL, sl_size = 0,
      sl_stride = ucast (((object_size + 63) div 64) * 64), sl_block_cnt = 0,
      sl_free_head = NTT_SLAB_NONE, sl_mem = Map.empty\<rparr>"

definition ntt_slab_deinit :: "ntt_slab \<Rightarrow> ntt_slab" where
  "ntt_slab_deinit self =
     self\<lparr>sl_blocks := replicate (min (unat (sl_block_cnt self)) (length (sl_blocks self))) NULL @
            drop (unat (sl_block_cnt self)) (sl_blocks self),
          sl_block_cnt := 0, sl_free_head := NTT_SLAB_NONE, sl_size := 0, sl_mem := Map.empty\<rparr>"

text \<open>Allocating the next block when the slot is the first one of it.\<close>

definition slab_add_block :: "aligned_alloc \<Rightarrow> ntt_slab \<Rightarrow> u32 \<Rightarrow> ntt_slab option" where
  "slab_add_block aligned self slot =
     (if slot = ntt_slab_block_first (sl_block_cnt self) then do {
        let cnt = (if sl_block_cnt self = NTT_SLAB_FULL_BLOCKS then NTT_SLAB_LAST_BLOCK_LEN
                     else ntt_slab_block_len (sl_block_cnt self));
        base \<leftarrow> (case aligned (sl_block_cnt self) (ucast (sl_stride self) * ucast cnt) of
                  None \<Rightarrow> ntt_die | Some p \<Rightarrow> Some p);
        (if unat (sl_block_cnt self) < length (sl_blocks self)
         then Some (self\<lparr>sl_blocks := (sl_blocks self)[unat (sl_block_cnt self) := base],
                        sl_block_cnt := sl_block_cnt self + 1\<rparr>)
         else None)
      } else Some self)"

text \<open>
  Taking a slot returns the address of its object. A head that was never written keeps its
  free list link uninitialised.
\<close>

definition ntt_slab_take :: "aligned_alloc \<Rightarrow> ntt_slab \<Rightarrow> (ptr \<times> ntt_slab) option" where
  "ntt_slab_take aligned self = (
     let slot = sl_free_head self in
     if slot \<noteq> NTT_SLAB_NONE then do {
       head \<leftarrow> ntt_slab_fresh_at self slot;
       h \<leftarrow> sl_mem self head;
       next_free \<leftarrow> sh_next_free h;
       let self' = self\<lparr>sl_free_head := next_free\<rparr>;
       p \<leftarrow> ntt_slab_fresh_at self' slot;
       Some (p, self')
     } else do {
       let slot = (ucast (sl_size self) :: u32);
       (if slot = NTT_SLAB_CAPACITY then ntt_die else Some ());
       self1 \<leftarrow> slab_add_block aligned self slot;
       head \<leftarrow> ntt_slab_fresh_at self1 slot;
       let h = (case sl_mem self1 head of
                  None \<Rightarrow> \<lparr>sh_generation = 1, sh_index = slot, sh_next_free = None\<rparr>
                | Some h \<Rightarrow> h\<lparr>sh_index := slot, sh_generation := 1\<rparr>);
       let self2 = self1\<lparr>sl_mem := (sl_mem self1)(head \<mapsto> h), sl_size := ucast (slot + 1)\<rparr>;
       p \<leftarrow> ntt_slab_fresh_at self2 slot;
       Some (p, self2)
     })"

definition ntt_slab_give :: "env \<Rightarrow> ntt_slab \<Rightarrow> u32 \<Rightarrow> ntt_slab option" where
  "ntt_slab_give env self index = do {
     head \<leftarrow> ntt_slab_at env self index;
     (g, self1) \<leftarrow> ntt_slab_retire self head;
     h \<leftarrow> sl_mem self1 head;
     Some (self1\<lparr>sl_mem := (sl_mem self1)(head \<mapsto> h\<lparr>sh_next_free := Some (sl_free_head self1)\<rparr>),
                 sl_free_head := index\<rparr>)
   }"

text \<open>The first slots are in the first block.\<close>

lemma slab_consts: "ntt_slab_block_of 0 = 0" "ntt_slab_block_first 0 = 0" "NTT_SLAB_CAPACITY \<noteq> 0" "NTT_SLAB_FULL_BLOCKS \<noteq> 0"
  "unat NTT_SLAB_BLOCKS = 27" "ntt_slab_block_of 1 = 0" "ntt_slab_block_first 1 = 64" "NTT_SLAB_CAPACITY \<noteq> 1" "ntt_slab_block_len 0 = 64"
  by code_simp+

end
