(* ===== verification/Queue_Heap.thy ===== *)
theory Queue_Heap
  imports Binary_Heap Slab
begin

text \<open>
  The heap of queue registrations of the timer service: \<open>src/src/queue_heap.h\<close> and
  \<open>src/src/queue_heap.c\<close>. An entry refers to a queue by its slab index and to one registration of
  it by a generation; whether it still stands is asked of the slab.

  \<open>qh_elems\<close> is the allocated array, as long as \<open>qh_capacity\<close>. The array accesses of the code carry
  no assertion; an access outside the array or to a cell never written is \<open>None\<close>.
\<close>

section \<open>Data\<close>

definition NTT_QUEUE_HEAP_MIN_CAPACITY :: u32 where
  "NTT_QUEUE_HEAP_MIN_CAPACITY = 8"

record ntt_queue_heap_elem =
  qe_deadline :: u64
  qe_index :: u32
  qe_generation :: u32

record ntt_queue_heap =
  qh_elems :: "ntt_queue_heap_elem carray"
  qh_size :: u32
  qh_tombstones :: u32
  qh_capacity :: u32

definition ntt_queue_heap_less :: "ntt_queue_heap_elem \<Rightarrow> ntt_queue_heap_elem \<Rightarrow> bool" where
  "ntt_queue_heap_less lhs rhs \<longleftrightarrow> qe_deadline lhs < qe_deadline rhs"

definition ntt_queue_heap_live :: "env \<Rightarrow> ntt_slab \<Rightarrow> ntt_queue_heap_elem \<Rightarrow> bool option" where
  "ntt_queue_heap_live env slab elem = do {
     queue \<leftarrow> ntt_slab_at env slab (qe_index elem);
     g \<leftarrow> ntt_slab_generation slab queue;
     Some (g = qe_generation elem)
   }"

section \<open>Sifting\<close>

text \<open>Writing \<open>self->elems[pos]\<close>.\<close>

definition queue_heap_put ::
    "ntt_queue_heap \<Rightarrow> u32 \<Rightarrow> ntt_queue_heap_elem \<Rightarrow> ntt_queue_heap option" where
  "queue_heap_put self pos elem = do {
     elems \<leftarrow> arr_write (qh_elems self) pos elem;
     Some (self\<lparr>qh_elems := elems\<rparr>)
   }"

function ntt_queue_heap_sift_up ::
    "ntt_queue_heap \<Rightarrow> u32 \<Rightarrow> ntt_queue_heap_elem \<Rightarrow> ntt_queue_heap option" where
  "ntt_queue_heap_sift_up self pos elem =
     (if pos > 0 then do {
        let parent = (pos - 1) div 2;
        p \<leftarrow> arr_read (qh_elems self) parent;
        (if \<not> ntt_queue_heap_less elem p then queue_heap_put self pos elem
         else do {
           self' \<leftarrow> queue_heap_put self pos p;
           ntt_queue_heap_sift_up self' parent elem
         })
      } else queue_heap_put self pos elem)"
  by pat_completeness auto
termination
  by (relation "measure (\<lambda>(self, pos, elem). unat pos)")
    (auto simp: word_less_nat_alt unat_pred_half)

partial_function (option) ntt_queue_heap_sift_down ::
    "ntt_queue_heap \<Rightarrow> u32 \<Rightarrow> ntt_queue_heap_elem \<Rightarrow> ntt_queue_heap option" where
  "ntt_queue_heap_sift_down self pos elem = (
     let left = (pos * 2) + 1 in
     if left \<ge> qh_size self then queue_heap_put self pos elem
     else do {
       let right = left + 1;
       child \<leftarrow> (if right < qh_size self then do {
           r \<leftarrow> arr_read (qh_elems self) right;
           l \<leftarrow> arr_read (qh_elems self) left;
           Some (if ntt_queue_heap_less r l then right else left)
         } else Some left);
       c \<leftarrow> arr_read (qh_elems self) child;
       (if \<not> ntt_queue_heap_less c elem then queue_heap_put self pos elem
        else do {
          self' \<leftarrow> queue_heap_put self pos c;
          ntt_queue_heap_sift_down self' child elem
        })
     })"

section \<open>Capacity\<close>

text \<open>The loop of \<open>ntt_queue_heap_reserve\<close>.\<close>

partial_function (option) queue_heap_grow :: "u32 \<Rightarrow> u32 \<Rightarrow> u32 option" where
  "queue_heap_grow capacity cnt =
     (if capacity < cnt then queue_heap_grow (capacity * 2) cnt else Some capacity)"

definition ntt_queue_heap_reserve :: "env \<Rightarrow> ntt_queue_heap \<Rightarrow> u32 \<Rightarrow> ntt_queue_heap option" where
  "ntt_queue_heap_reserve env self cnt =
     (if cnt \<le> qh_capacity self then Some self
      else do {
        capacity \<leftarrow> queue_heap_grow
          (if qh_capacity self = 0 then NTT_QUEUE_HEAP_MIN_CAPACITY else qh_capacity self) cnt;
        elems \<leftarrow> ntt_realloc_or_die env (qh_elems self) 16 capacity;
        Some (self\<lparr>qh_elems := elems, qh_capacity := capacity\<rparr>)
      })"

section \<open>Dropping entries\<close>

definition ntt_queue_heap_pop_root :: "env \<Rightarrow> ntt_queue_heap \<Rightarrow> ntt_queue_heap option" where
  "ntt_queue_heap_pop_root env self = do {
     ntt_assert env (qh_size self > 0);
     let last = qh_size self - 1;
     (if last = 0 then Some (self\<lparr>qh_size := 0\<rparr>)
      else do {
        elem \<leftarrow> arr_read (qh_elems self) last;
        ntt_queue_heap_sift_down (self\<lparr>qh_size := last\<rparr>) 0 elem
      })
   }"

partial_function (option) ntt_queue_heap_drop_dead_root ::
    "env \<Rightarrow> ntt_slab \<Rightarrow> ntt_queue_heap \<Rightarrow> ntt_queue_heap option" where
  "ntt_queue_heap_drop_dead_root env slab self =
     (if qh_size self > 0 then do {
        elem \<leftarrow> arr_read (qh_elems self) 0;
        live \<leftarrow> ntt_queue_heap_live env slab elem;
        (if live then Some self
         else do {
           self1 \<leftarrow> ntt_queue_heap_pop_root env self;
           ntt_queue_heap_drop_dead_root env slab
             (if qh_tombstones self1 > 0
              then self1\<lparr>qh_tombstones := qh_tombstones self1 - 1\<rparr> else self1)
         })
      } else Some self)"

text \<open>The two loops of \<open>ntt_queue_heap_compact\<close>.\<close>

function queue_compact_filter ::
    "env \<Rightarrow> ntt_slab \<Rightarrow> ntt_queue_heap \<Rightarrow> u32 \<Rightarrow> u32 \<Rightarrow> (u32 \<times> ntt_queue_heap) option" where
  "queue_compact_filter env slab self pos out =
     (if pos < qh_size self then do {
        elem \<leftarrow> arr_read (qh_elems self) pos;
        live \<leftarrow> ntt_queue_heap_live env slab elem;
        (if live then do {
           elems \<leftarrow> arr_write (qh_elems self) out elem;
           queue_compact_filter env slab (self\<lparr>qh_elems := elems\<rparr>) (pos + 1) (out + 1)
         } else queue_compact_filter env slab self (pos + 1) out)
      } else Some (out, self))"
  by pat_completeness auto
termination
  by (relation "measure (\<lambda>(env, slab, self, pos, out). unat (qh_size self) - unat pos)")
    (auto simp: word_less_nat_alt unat_succ_below)

function queue_compact_rebuild :: "ntt_queue_heap \<Rightarrow> u32 \<Rightarrow> ntt_queue_heap option" where
  "queue_compact_rebuild self i =
     (if i > 0 then do {
        let i' = i - 1;
        elem \<leftarrow> arr_read (qh_elems self) i';
        self' \<leftarrow> ntt_queue_heap_sift_down self i' elem;
        queue_compact_rebuild self' i'
      } else Some self)"
  by pat_completeness auto
termination
  by (relation "measure (\<lambda>(self, i). unat i)") (auto simp: word_less_nat_alt unat_sub_noflow)

declare ntt_queue_heap_sift_up.simps [simp del] queue_compact_filter.simps [simp del]
  queue_compact_rebuild.simps [simp del]

definition ntt_queue_heap_compact ::
    "env \<Rightarrow> ntt_queue_heap \<Rightarrow> ntt_slab \<Rightarrow> ntt_queue_heap option" where
  "ntt_queue_heap_compact env self slab =
     (if qh_tombstones self * 2 \<le> qh_size self then Some self
      else do {
        (out, self1) \<leftarrow> queue_compact_filter env slab self 0 0;
        let self2 = self1\<lparr>qh_size := out, qh_tombstones := 0\<rparr>;
        (if qh_size self2 > 1 then queue_compact_rebuild self2 (qh_size self2 div 2)
         else Some self2)
      })"

section \<open>The operations of the heap\<close>

definition ntt_queue_heap_init :: ntt_queue_heap where
  "ntt_queue_heap_init = \<lparr>qh_elems = [], qh_size = 0, qh_tombstones = 0, qh_capacity = 0\<rparr>"

definition ntt_queue_heap_deinit :: "ntt_queue_heap \<Rightarrow> ntt_queue_heap" where
  "ntt_queue_heap_deinit self = ntt_queue_heap_init"

function queue_heap_any_live :: "env \<Rightarrow> ntt_slab \<Rightarrow> ntt_queue_heap \<Rightarrow> u32 \<Rightarrow> bool option" where
  "queue_heap_any_live env slab self pos =
     (if pos < qh_size self then do {
        elem \<leftarrow> arr_read (qh_elems self) pos;
        live \<leftarrow> ntt_queue_heap_live env slab elem;
        (if live then Some True else queue_heap_any_live env slab self (pos + 1))
      } else Some False)"
  by pat_completeness auto
termination
  by (relation "measure (\<lambda>(env, slab, self, pos). unat (qh_size self) - unat pos)")
    (auto simp: word_less_nat_alt unat_succ_below)

declare queue_heap_any_live.simps [simp del]

definition ntt_queue_heap_has_live :: "env \<Rightarrow> ntt_queue_heap \<Rightarrow> ntt_slab \<Rightarrow> bool option" where
  "ntt_queue_heap_has_live env self slab = queue_heap_any_live env slab self 0"

definition ntt_queue_heap_top :: "ntt_queue_heap \<Rightarrow> u64 option option" where
  "ntt_queue_heap_top self =
     (if qh_size self = 0 then Some None
      else do {
        elem \<leftarrow> arr_read (qh_elems self) 0;
        Some (Some (qe_deadline elem))
      })"

definition ntt_queue_heap_push ::
    "env \<Rightarrow> ntt_queue_heap \<Rightarrow> u32 \<Rightarrow> u32 \<Rightarrow> u64 \<Rightarrow> ntt_queue_heap option" where
  "ntt_queue_heap_push env self index generation deadline = do {
     self1 \<leftarrow> ntt_queue_heap_reserve env self (qh_size self + 1);
     let pos = qh_size self1;
     let self2 = self1\<lparr>qh_size := pos + 1\<rparr>;
     ntt_queue_heap_sift_up self2 pos
       \<lparr>qe_deadline = deadline, qe_index = index, qe_generation = generation\<rparr>
   }"

definition ntt_queue_heap_take_expired ::
    "env \<Rightarrow> ntt_queue_heap \<Rightarrow> ntt_slab \<Rightarrow> u64 \<Rightarrow> (ntt_queue_heap_elem option \<times> ntt_queue_heap) option"
where
  "ntt_queue_heap_take_expired env self slab now = do {
     self1 \<leftarrow> ntt_queue_heap_drop_dead_root env slab self;
     (if qh_size self1 = 0 then Some (None, self1)
      else do {
        root \<leftarrow> arr_read (qh_elems self1) 0;
        (if qe_deadline root > now then Some (None, self1)
         else do {
           self2 \<leftarrow> ntt_queue_heap_pop_root env self1;
           Some (Some root, self2)
         })
      })
   }"

definition ntt_queue_heap_retire ::
    "env \<Rightarrow> ntt_queue_heap \<Rightarrow> ntt_slab \<Rightarrow> u32 \<Rightarrow> ntt_queue_heap option" where
  "ntt_queue_heap_retire env self slab cnt = do {
     let self1 = self\<lparr>qh_tombstones := qh_tombstones self + cnt\<rparr>;
     let self2 = (if qh_tombstones self1 > qh_size self1
                  then self1\<lparr>qh_tombstones := qh_size self1\<rparr> else self1);
     ntt_queue_heap_compact env self2 slab
   }"

declare ntt_queue_heap_sift_down.simps [code] queue_heap_grow.simps [code]
  ntt_queue_heap_drop_dead_root.simps [code]

end
