(* ===== verification/Slab_Inv.thy ===== *)
theory Slab_Inv
  imports Slab
begin

text \<open>
  The geometry of a slab, its invariant, and what taking and giving slots does. \<open>slab_state\<close> says
  that the blocks allocated so far hold every slot handed out, that the head of each slot carries
  its own index, and that the vacant slots form the chain \<open>fl\<close>. The contract of a store of reusable
  handles is the locale \<open>handle_store\<close>, which the slab interprets.

  The bound behind the invariant is that the slots span less than \<open>2 ^ 32\<close> bytes, the range of the
  32-bit offset computation.
\<close>

section \<open>The invariant\<close>

text \<open>The index of the first slot of a block, as a number.\<close>

definition block_start :: "nat \<Rightarrow> nat" where
  "block_start b = 64 * (2 ^ b - 1)"

definition slot_off :: "u32 \<Rightarrow> nat" where
  "slot_off i = unat i - block_start (unat (ntt_slab_block_of i))"

definition block_bytes :: "u32 \<Rightarrow> u32 \<Rightarrow> u64" where
  "block_bytes stride k = ucast stride *
     ucast (if k = NTT_SLAB_FULL_BLOCKS then NTT_SLAB_LAST_BLOCK_LEN else ntt_slab_block_len k)"

definition alloc_ok :: "aligned_alloc \<Rightarrow> u32 \<Rightarrow> bool" where
  "alloc_ok aligned stride \<longleftrightarrow>
     (\<forall>k. unat k \<le> 26 \<longrightarrow> (\<exists>p. aligned k (block_bytes stride k) = Some p \<and>
        unat p + unat (block_bytes stride k) < 18446744073709551616)) \<and>
     (\<forall>k l p q. unat k \<le> 26 \<longrightarrow> unat l \<le> 26 \<longrightarrow> k \<noteq> l \<longrightarrow>
        aligned k (block_bytes stride k) = Some p \<longrightarrow> aligned l (block_bytes stride l) = Some q \<longrightarrow>
        unat p + unat (block_bytes stride k) \<le> unat q \<or> unat q + unat (block_bytes stride l) \<le> unat p)"

definition slot_addr :: "ntt_slab \<Rightarrow> u32 \<Rightarrow> ptr" where
  "slot_addr s i = the (ntt_slab_fresh_at s i)"

definition slab_geom :: "aligned_alloc \<Rightarrow> ntt_slab \<Rightarrow> bool" where
  "slab_geom aligned s \<longleftrightarrow>
     length (sl_blocks s) = 27 \<and> 64 \<le> unat (sl_stride s) \<and>
     unat (sl_size s) * unat (sl_stride s) < 4294967296 \<and>
     (\<forall>k. unat k < unat (sl_block_cnt s) \<longrightarrow>
        aligned k (block_bytes (sl_stride s) k) = Some (sl_blocks s ! unat k)) \<and>
     unat (sl_size s) \<le> block_start (unat (sl_block_cnt s)) \<and>
     (sl_block_cnt s = 0 \<or> block_start (unat (sl_block_cnt s) - 1) < unat (sl_size s))"

fun slab_chain :: "ntt_slab \<Rightarrow> u32 \<Rightarrow> u32 list \<Rightarrow> bool" where
  "slab_chain s p [] \<longleftrightarrow> p = NTT_SLAB_NONE"
| "slab_chain s p (i # is) \<longleftrightarrow>
     p = i \<and> unat i < unat (sl_size s) \<and>
     (case sl_mem s (slot_addr s i) of None \<Rightarrow> False
      | Some h \<Rightarrow> (case sh_next_free h of None \<Rightarrow> False | Some n \<Rightarrow> slab_chain s n is))"

definition slab_state :: "aligned_alloc \<Rightarrow> ntt_slab \<Rightarrow> u32 list \<Rightarrow> bool" where
  "slab_state aligned s fl \<longleftrightarrow>
     alloc_ok aligned (sl_stride s) \<and> slab_geom aligned s \<and>
     (\<forall>i. unat i < unat (sl_size s) \<longrightarrow> (\<exists>h. sl_mem s (slot_addr s i) = Some h \<and> sh_index h = i)) \<and>
     slab_chain s (sl_free_head s) fl \<and> distinct fl"

text \<open>The slots in use, and the generation of a slot.\<close>

definition slab_live :: "ntt_slab \<Rightarrow> u32 list \<Rightarrow> u32 set" where
  "slab_live s fl = {i. unat i < unat (sl_size s)} - set fl"

definition slab_gen :: "ntt_slab \<Rightarrow> u32 \<Rightarrow> u64" where
  "slab_gen s i = sh_generation (the (sl_mem s (slot_addr s i)))"

text \<open>Room for one more object: the offsets of the slots stay below \<open>2 ^ 32\<close> bytes.\<close>

definition slab_room :: "ntt_slab \<Rightarrow> bool" where
  "slab_room s \<longleftrightarrow> (unat (sl_size s) + 1) * unat (sl_stride s) < 4294967296"

definition slab_handles :: "aligned_alloc \<Rightarrow> ntt_slab \<Rightarrow> u32 set \<Rightarrow> bool" where
  "slab_handles aligned s L \<longleftrightarrow> (\<exists>fl. slab_state aligned s fl \<and> L = slab_live s fl)"

definition slab_take_index :: "aligned_alloc \<Rightarrow> ntt_slab \<Rightarrow> (u32 \<times> ntt_slab) option" where
  "slab_take_index aligned s = do {
     (p, s') \<leftarrow> ntt_slab_take aligned s;
     i \<leftarrow> ntt_slab_index s' p;
     Some (i, s')
   }"

section \<open>Geometry\<close>

lemma clz_below_bound: "clz_below n w \<le> n"
  by (induction n) auto

lemma clz_below_range:
  assumes "unat w < 2 ^ n" "w \<noteq> 0"
  shows "clz_below n w < n \<and> 2 ^ (n - 1 - clz_below n w) \<le> unat w \<and> unat w < 2 ^ (n - clz_below n w)"
  using assms
proof (induction n)
  case 0
  then show ?case by simp
next
  case (Suc n)
  show ?case
  proof (cases "bit w n")
    case True
    then have "bit (unat w) n" by (simp add: bit_unsigned_iff)
    then have "odd (unat w div 2 ^ n)" by (simp add: bit_iff_odd)
    then have "0 < unat w div 2 ^ n" by (metis even_zero gr0I)
    then have "2 ^ n \<le> unat w" by (simp add: div_greater_zero_iff)
    with True Suc.prems show ?thesis by simp
  next
    case False
    then have "\<not> bit (unat w) n" by (simp add: bit_unsigned_iff)
    then have "even (unat w div 2 ^ n)" by (simp add: bit_iff_odd)
    moreover have "unat w div 2 ^ n < 2" using Suc.prems by (simp add: less_mult_imp_div_less)
    ultimately have "unat w div 2 ^ n = 0" by (auto dest!: less_2_cases)
    then have "unat w < 2 ^ n" by (simp add: div_eq_0_iff)
    from Suc.IH [OF this Suc.prems(2)] show ?thesis using False by auto
  qed
qed

lemma unat_block_pos: "unat (drop_bit 6 (i :: u32) + 1) = unat i div 64 + 1"
proof -
  have "unat (drop_bit 6 i) = unat i div 64" by (simp add: drop_bit_eq_div unat_div)
  moreover have "unat i div 64 + 1 < 4294967296" using unat_u32_bound [of i] by linarith
  ultimately show ?thesis by (simp add: unat_add_noflow)
qed

lemma block_of_range:
  shows "unat (ntt_slab_block_of i) \<le> 26"
    and "2 ^ unat (ntt_slab_block_of i) \<le> unat i div 64 + 1"
    and "unat i div 64 + 1 < 2 ^ Suc (unat (ntt_slab_block_of i))"
proof -
  let ?w = "drop_bit 6 i + 1"
  have w: "unat ?w = unat i div 64 + 1" by (rule unat_block_pos)
  then have nz: "?w \<noteq> 0" by (metis unat_0 add_is_0 zero_neq_one)
  have "unat ?w < 2 ^ 32" using unsigned_less [of ?w] by simp
  note c = clz_below_range [OF this nz]
  have u: "unat (builtin_clz ?w) = clz_below 32 ?w"
    using c by (simp add: builtin_clz_def unat_of_nat)
  have b: "unat (ntt_slab_block_of i) = 31 - clz_below 32 ?w"
    unfolding ntt_slab_block_of_def NTT_FIRST_SLAB_BLOCK_LEN_LOG2_def
    using c u by (subst unat_sub_noflow) simp_all
  show lo: "2 ^ unat (ntt_slab_block_of i) \<le> unat i div 64 + 1" using c w b by simp
  show "unat i div 64 + 1 < 2 ^ Suc (unat (ntt_slab_block_of i))"
  proof -
    have "Suc (31 - clz_below 32 ?w) = 32 - clz_below 32 ?w" using c by linarith
    then show ?thesis using c w b by simp
  qed
  have "unat i \<le> 4294967295" using unat_u32_bound [of i] by linarith
  then have "unat i div 64 + 1 < 2 ^ 27" using div_le_mono [of "unat i" 4294967295 64] by simp
  with lo have "(2 :: nat) ^ unat (ntt_slab_block_of i) < 2 ^ 27" by linarith
  then have "unat (ntt_slab_block_of i) < 27" by (rule power_less_imp_less_exp [rotated]) simp
  then show "unat (ntt_slab_block_of i) \<le> 26" by simp
qed

lemma block_start_mono: "b \<le> c \<Longrightarrow> block_start b \<le> block_start c"
  by (simp add: block_start_def diff_le_mono)

lemma block_start_Suc: "block_start (Suc b) = block_start b + 64 * 2 ^ b"
proof -
  have "(1 :: nat) \<le> 2 ^ b" by simp
  then show ?thesis by (simp add: block_start_def diff_mult_distrib2)
qed

lemma unat_pow2: "n < 32 \<Longrightarrow> unat (push_bit n 1 :: u32) = 2 ^ n"
proof -
  assume n: "n < 32"
  have "(2 :: nat) ^ n < 2 ^ 32" using n by (intro power_strict_increasing) auto
  then have "unat (of_nat (2 ^ n) :: u32) = 2 ^ n" by (simp add: unat_of_nat del: of_nat_power)
  then show ?thesis by (simp add: push_bit_eq_mult)
qed

lemma unat_block_first:
  assumes "unat b \<le> 26"
  shows "unat (ntt_slab_block_first b) = block_start (unat b)"
proof -
  have p: "(2 :: nat) ^ unat b \<le> 2 ^ 26" using assms by (intro power_increasing) auto
  have "unat (push_bit (unat b) 1 - 1 :: u32) = 2 ^ unat b - 1"
    using assms unat_pow2 [of "unat b"] by (subst unat_sub_noflow) (simp_all del: push_bit_of_1)
  moreover have "unat NTT_FIRST_SLAB_BLOCK_LEN = 64"
    by (simp add: NTT_FIRST_SLAB_BLOCK_LEN_def NTT_FIRST_SLAB_BLOCK_LEN_LOG2_def unat_pow2)
  ultimately show ?thesis
    unfolding ntt_slab_block_first_def block_start_def using p by (subst unat_mult_noflow) simp_all
qed

text \<open>The block of an index holds it.\<close>

lemma block_of_holds:
  "block_start (unat (ntt_slab_block_of i)) \<le> unat i"
  "unat i < block_start (Suc (unat (ntt_slab_block_of i)))"
  using block_of_range [of i] by (simp_all add: block_start_def)

lemma block_of_unique:
  assumes "block_start b \<le> unat i" "unat i < block_start (Suc b)"
  shows "unat (ntt_slab_block_of i) = b"
proof (rule ccontr)
  let ?c = "unat (ntt_slab_block_of i)"
  assume "?c \<noteq> b"
  then consider "Suc ?c \<le> b" | "Suc b \<le> ?c" by linarith
  then show False
    using block_of_holds [of i] assms block_start_mono by cases (meson le_less_trans not_le order.trans)+
qed

lemma unat_slot_off: "unat (i - ntt_slab_block_first (ntt_slab_block_of i)) = slot_off i"
  using block_of_holds(1) [of i] unat_block_first [OF block_of_range(1) [of i]]
  by (simp add: slot_off_def unat_sub_noflow)

lemma geom_size: "slab_geom aligned s \<Longrightarrow> unat (sl_size s) < 67108864"
proof -
  assume g: "slab_geom aligned s"
  then have "unat (sl_size s) * 64 \<le> unat (sl_size s) * unat (sl_stride s)"
    by (intro mult_le_mono2) (simp add: slab_geom_def)
  moreover have "unat (sl_size s) * unat (sl_stride s) < 4294967296" using g by (simp add: slab_geom_def)
  ultimately show ?thesis by linarith
qed

lemma block_of_small:
  assumes "unat i < 67108864"
  shows "unat (ntt_slab_block_of i) \<le> 20"
proof -
  have "unat i div 64 + 1 < 2 ^ 21" using assms div_le_mono [of "unat i" 67108863 64] by simp
  with block_of_range(2) [of i] have "(2 :: nat) ^ unat (ntt_slab_block_of i) < 2 ^ 21" by linarith
  then have "unat (ntt_slab_block_of i) < 21" by (rule power_less_imp_less_exp [rotated]) simp
  then show ?thesis by simp
qed

lemma unat_block_bytes:
  assumes "unat k \<le> 25"
  shows "unat (block_bytes stride k) = unat stride * (64 * 2 ^ unat k)"
proof -
  have k: "k \<noteq> NTT_SLAB_FULL_BLOCKS"
    using assms by (auto simp: NTT_SLAB_FULL_BLOCKS_def NTT_FIRST_SLAB_BLOCK_LEN_LOG2_def)
  have p: "(2 :: nat) ^ unat k \<le> 2 ^ 25" using assms by (intro power_increasing) auto
  have "ntt_slab_block_len k = push_bit (6 + unat k) 1"
    by (simp add: ntt_slab_block_len_def NTT_FIRST_SLAB_BLOCK_LEN_def NTT_FIRST_SLAB_BLOCK_LEN_LOG2_def push_bit_push_bit add.commute del: push_bit_of_1)
  then have l: "unat (ntt_slab_block_len k) = 64 * 2 ^ unat k"
    using unat_pow2 [of "6 + unat k"] assms by (simp add: power_add del: push_bit_of_1)
  have "unat stride * (64 * 2 ^ unat k) \<le> 4294967295 * (64 * 2 ^ 25)"
    using unat_u32_bound [of stride] p by (intro mult_le_mono) (auto simp del: unat_u32_bound)
  also have "\<dots> < 18446744073709551616" by simp
  finally have "unat (ucast stride * ucast (ntt_slab_block_len k) :: u64) = unat stride * (64 * 2 ^ unat k)"
    using l by (subst unat_mult_lem [THEN iffD1]) simp_all
  then show ?thesis using k by (simp add: block_bytes_def)
qed

lemma slot_off_less: "slot_off i < 64 * 2 ^ unat (ntt_slab_block_of i)"
  using block_of_holds [of i] by (simp add: slot_off_def block_start_Suc)

text \<open>Where a slot is.\<close>

lemma fresh_at_addr:
  assumes g: "slab_geom aligned s" and i: "unat i < unat (sl_size s)" and a: "alloc_ok aligned (sl_stride s)"
  defines "k \<equiv> ntt_slab_block_of i"
  shows "ntt_slab_fresh_at s i = Some (slot_addr s i)"
    and "aligned k (block_bytes (sl_stride s) k) = Some (sl_blocks s ! unat k)"
    and "unat k \<le> 20" "unat k < unat (sl_block_cnt s)"
    and "unat (slot_addr s i) = unat (sl_blocks s ! unat k) + slot_off i * unat (sl_stride s)"
    and "slot_off i * unat (sl_stride s) + unat (sl_stride s) \<le> unat (block_bytes (sl_stride s) k)"
proof -
  have i26: "unat i < 67108864" using geom_size [OF g] i by linarith
  show k20: "unat k \<le> 20" unfolding k_def by (rule block_of_small [OF i26])
  have len: "length (sl_blocks s) = 27" using g by (simp add: slab_geom_def)
  show kc: "unat k < unat (sl_block_cnt s)"
  proof (rule ccontr)
    assume "\<not> ?thesis"
    then have "block_start (unat (sl_block_cnt s)) \<le> block_start (unat k)" by (simp add: block_start_mono)
    then show False using block_of_holds(1) [of i] i g by (simp add: k_def slab_geom_def)
  qed
  then show al: "aligned k (block_bytes (sl_stride s) k) = Some (sl_blocks s ! unat k)"
    using g by (simp add: slab_geom_def)
  show fr: "ntt_slab_fresh_at s i = Some (slot_addr s i)"
    using k20 len by (simp add: slot_addr_def ntt_slab_fresh_at_def slab_block_base_def k_def Let_def)
  have "slot_off i * unat (sl_stride s) \<le> unat (sl_size s) * unat (sl_stride s)"
    using i by (intro mult_le_mono1) (simp add: slot_off_def)
  moreover have "unat (sl_size s) * unat (sl_stride s) < 4294967296" using g by (simp add: slab_geom_def)
  ultimately have off32: "slot_off i * unat (sl_stride s) < 4294967296" by linarith
  then have off: "unat ((i - ntt_slab_block_first k) * sl_stride s) = slot_off i * unat (sl_stride s)"
    by (subst unat_mult_noflow) (simp_all add: unat_slot_off k_def)
  have k25: "unat k \<le> 25" using k20 by simp
  have "slot_off i * unat (sl_stride s) + unat (sl_stride s) = (slot_off i + 1) * unat (sl_stride s)" by simp
  also have "\<dots> \<le> (64 * 2 ^ unat k) * unat (sl_stride s)"
    using slot_off_less [of i] by (intro mult_le_mono1) (simp add: k_def)
  finally show bytes: "slot_off i * unat (sl_stride s) + unat (sl_stride s) \<le> unat (block_bytes (sl_stride s) k)"
    using unat_block_bytes [OF k25] by (simp add: mult.commute)
  have "unat (sl_blocks s ! unat k) + unat (block_bytes (sl_stride s) k) < 18446744073709551616"
  proof -
    obtain p where "aligned k (block_bytes (sl_stride s) k) = Some p"
      "unat p + unat (block_bytes (sl_stride s) k) < 18446744073709551616"
      using conjunct1 [OF a [unfolded alloc_ok_def], rule_format, of k] k25 by auto
    then show ?thesis using al by simp
  qed
  then have fits: "unat (sl_blocks s ! unat k) + slot_off i * unat (sl_stride s) < 18446744073709551616" using bytes by linarith
  have "slot_addr s i = sl_blocks s ! unat k + ucast ((i - ntt_slab_block_first k) * sl_stride s)"
    using k20 len by (simp add: slot_addr_def ntt_slab_fresh_at_def slab_block_base_def k_def Let_def)
  then show "unat (slot_addr s i) = unat (sl_blocks s ! unat k) + slot_off i * unat (sl_stride s)"
    using off fits by (simp add: unat_add64_noflow)
qed

text \<open>Objects do not overlap.\<close>

lemma slot_addr_apart:
  assumes g: "slab_geom aligned s" and a: "alloc_ok aligned (sl_stride s)"
    and i: "unat i < unat (sl_size s)" and j: "unat j < unat (sl_size s)" and ne: "i \<noteq> j"
  shows "unat (slot_addr s i) + unat (sl_stride s) \<le> unat (slot_addr s j) \<or>
    unat (slot_addr s j) + unat (sl_stride s) \<le> unat (slot_addr s i)"
proof -
  let ?k = "ntt_slab_block_of i" and ?l = "ntt_slab_block_of j" and ?st = "unat (sl_stride s)"
  note I = fresh_at_addr [OF g i a] and J = fresh_at_addr [OF g j a]
  show ?thesis
  proof (cases "?k = ?l")
    case True
    then have "slot_off i \<noteq> slot_off j"
      using block_of_holds(1) [of i] block_of_holds(1) [of j] ne eq_diff_iff
      by (fastforce simp: slot_off_def)
    then consider "slot_off i + 1 \<le> slot_off j" | "slot_off j + 1 \<le> slot_off i" by linarith
    then have "slot_off i * ?st + ?st \<le> slot_off j * ?st \<or> slot_off j * ?st + ?st \<le> slot_off i * ?st"
    proof cases
      case 1
      from mult_le_mono1 [OF this, of ?st] show ?thesis by simp
    next
      case 2
      from mult_le_mono1 [OF this, of ?st] show ?thesis by simp
    qed
    then show ?thesis using I(5) J(5) True by auto
  next
    case False
    have "unat (sl_blocks s ! unat ?k) + unat (block_bytes (sl_stride s) ?k) \<le> unat (sl_blocks s ! unat ?l) \<or>
      unat (sl_blocks s ! unat ?l) + unat (block_bytes (sl_stride s) ?l) \<le> unat (sl_blocks s ! unat ?k)"
      using a I(2,3) J(2,3) False unfolding alloc_ok_def by auto
    then show ?thesis using I(5,6) J(5,6) by linarith
  qed
qed

lemma NTT_SLAB_NONE_unat: "unat NTT_SLAB_NONE = 4294967295"
proof -
  have "NTT_SLAB_NONE = - 1" by code_simp
  then have "unat NTT_SLAB_NONE = unat (- 1 :: u32)" by (rule arg_cong)
  also note unat_max_u32
  finally show ?thesis .
qed

lemma slot_addr_free_head [simp]: "slot_addr (s\<lparr>sl_free_head := x\<rparr>) i = slot_addr s i"
  by (simp add: slot_addr_def ntt_slab_fresh_at_def slab_block_base_def Let_def cong: if_cong)

lemma slot_addr_mem [simp]: "slot_addr (s\<lparr>sl_mem := x\<rparr>) i = slot_addr s i"
  by (simp add: slot_addr_def ntt_slab_fresh_at_def slab_block_base_def Let_def cong: if_cong)

lemma slot_addr_size [simp]: "slot_addr (s\<lparr>sl_size := x\<rparr>) i = slot_addr s i"
  by (simp add: slot_addr_def ntt_slab_fresh_at_def slab_block_base_def Let_def cong: if_cong)

lemma slab_chain_cong:
  assumes "sl_size s \<le> sl_size s'"
    and "\<And>i. i \<in> set is \<Longrightarrow> unat i < unat (sl_size s) \<Longrightarrow> sl_mem s' (slot_addr s' i) = sl_mem s (slot_addr s i)"
    and "slab_chain s p is"
  shows "slab_chain s' p is"
  using assms(2,3)
proof (induction "is" arbitrary: p)
  case (Cons i "is")
  then have "unat i < unat (sl_size s)" by simp
  moreover from this have "unat i < unat (sl_size s')" using assms(1) by (simp add: word_le_nat_alt)
  ultimately show ?case using Cons by (auto split: option.splits)
qed simp

lemma slab_at_state:
  assumes st: "slab_state aligned s fl" and i: "unat i < unat (sl_size s)"
  shows "ntt_slab_fresh_at s i = Some (slot_addr s i)" "ntt_slab_at env s i = Some (slot_addr s i)"
proof -
  have "slab_geom aligned s" "alloc_ok aligned (sl_stride s)" using st by (auto simp: slab_state_def)
  from fresh_at_addr(1) [OF this(1) i this(2)] show f: "ntt_slab_fresh_at s i = Some (slot_addr s i)" .
  have "ucast i < sl_size s" using i by (simp add: word_less_nat_alt)
  then show "ntt_slab_at env s i = Some (slot_addr s i)"
    using f by (simp add: ntt_slab_at_def ntt_slab_fresh_at_def)
qed

lemma slot_addr_inj:
  assumes st: "slab_state aligned s fl" and i: "unat i < unat (sl_size s)" and j: "unat j < unat (sl_size s)"
  shows "slot_addr s i = slot_addr s j \<longleftrightarrow> i = j"
proof -
  have g: "slab_geom aligned s" "alloc_ok aligned (sl_stride s)" using st by (auto simp: slab_state_def)
  then have "64 \<le> unat (sl_stride s)" by (simp add: slab_geom_def)
  then show ?thesis using slot_addr_apart [OF g i j] by fastforce
qed

section \<open>Taking and giving\<close>

lemma take_reuse:
  assumes st: "slab_state aligned s (i # fl)"
  obtains n where "ntt_slab_take aligned s = Some (slot_addr s i, s\<lparr>sl_free_head := n\<rparr>)"
    "slab_state aligned (s\<lparr>sl_free_head := n\<rparr>) fl"
proof -
  have i: "sl_free_head s = i" "unat i < unat (sl_size s)" using st by (auto simp: slab_state_def)
  then obtain h n where h: "sl_mem s (slot_addr s i) = Some h" "sh_next_free h = Some n" "slab_chain s n fl"
    using st by (auto simp: slab_state_def split: option.splits)
  have g: "slab_geom aligned s" using st by (simp add: slab_state_def)
  have "i \<noteq> NTT_SLAB_NONE" using i(2) geom_size [OF g] NTT_SLAB_NONE_unat by auto
  moreover have "ntt_slab_fresh_at (s\<lparr>sl_free_head := n\<rparr>) i = ntt_slab_fresh_at s i"
    by (simp add: ntt_slab_fresh_at_def slab_block_base_def Let_def cong: if_cong)
  ultimately have "ntt_slab_take aligned s = Some (slot_addr s i, s\<lparr>sl_free_head := n\<rparr>)"
    using i h slab_at_state(1) [OF st i(2)] by (simp add: ntt_slab_take_def Let_def)
  moreover have "slab_chain (s\<lparr>sl_free_head := n\<rparr>) n fl" by (rule slab_chain_cong [OF _ _ h(3)]) simp_all
  ultimately show thesis using st by (intro that) (auto simp: slab_state_def slab_geom_def)
qed

lemma block_cnt_small:
  assumes "slab_geom aligned s"
  shows "unat (sl_block_cnt s) \<le> 21"
proof (rule ccontr)
  assume "\<not> ?thesis"
  then have c: "21 \<le> unat (sl_block_cnt s) - 1" "sl_block_cnt s \<noteq> 0" by auto
  then have "block_start 21 \<le> block_start (unat (sl_block_cnt s) - 1)" by (intro block_start_mono)
  then show False using assms geom_size [OF assms] c(2) by (simp add: slab_geom_def block_start_def)
qed

lemma add_block_geom:
  assumes g: "slab_geom aligned s" and a: "alloc_ok aligned (sl_stride s)" and room: "slab_room s"
  obtains s1 where "slab_add_block aligned s (ucast (sl_size s)) = Some s1"
    "slab_geom aligned (s1\<lparr>sl_size := sl_size s + 1\<rparr>)" "sl_mem s1 = sl_mem s" "sl_stride s1 = sl_stride s"
    "sl_free_head s1 = sl_free_head s" "sl_size s1 = sl_size s"
    "\<forall>i. unat i < unat (sl_size s) \<longrightarrow> slot_addr s1 i = slot_addr s i"
proof -
  let ?c = "sl_block_cnt s" and ?n = "unat (sl_size s)"
  have n26: "?n < 67108864" by (rule geom_size [OF g])
  have c21: "unat ?c \<le> 21" by (rule block_cnt_small [OF g])
  have u: "unat (ucast (sl_size s) :: u32) = ?n" using n26 by (simp add: unsigned_ucast_eq take_bit_nat_eq_self)
  have n1: "unat (sl_size s + 1) = ?n + 1" using n26 by (subst unat_add64_noflow) simp_all
  have len: "length (sl_blocks s) = 27" using g by (simp add: slab_geom_def)
  show thesis
  proof (cases "(ucast (sl_size s) :: u32) = ntt_slab_block_first ?c")
    case False
    then have "unat (ucast (sl_size s) :: u32) \<noteq> unat (ntt_slab_block_first ?c)" by simp
    then have "?n \<noteq> block_start (unat ?c)" using u unat_block_first [of ?c] c21 by simp
    moreover have "sl_block_cnt s = 0 \<longrightarrow> ?n = 0" using g by (auto simp: slab_geom_def block_start_def)
    ultimately have "slab_geom aligned (s\<lparr>sl_size := sl_size s + 1\<rparr>)"
      using g room n1 by (auto simp: slab_geom_def slab_room_def block_start_def)
    then show thesis using False that [of s] by (simp add: slab_add_block_def)
  next
    case True
    have fu: "block_start (unat ?c) = ?n" using arg_cong [OF True, of unat] u unat_block_first [of ?c] c21 by simp
    obtain p where p: "aligned ?c (block_bytes (sl_stride s) ?c) = Some p"
      using conjunct1 [OF a [unfolded alloc_ok_def], rule_format, of ?c] c21 by auto
    let ?s = "s\<lparr>sl_blocks := (sl_blocks s)[unat ?c := p], sl_block_cnt := ?c + 1\<rparr>"
    have c1: "unat (?c + 1) = unat ?c + 1" using c21 by (subst unat_add_noflow) simp_all
    have add: "slab_add_block aligned s (ucast (sl_size s)) = Some ?s"
      using True p c21 len by (simp add: slab_add_block_def block_bytes_def Let_def)
    have bl: "aligned k (block_bytes (sl_stride s) k) = Some ((sl_blocks s)[unat ?c := p] ! unat k)"
      if "unat k < unat ?c + 1" for k
    proof (cases "k = ?c")
      case True
      then show ?thesis using p len c21 by simp
    next
      case False
      then have "unat k \<noteq> unat ?c" by simp
      then have "unat k < unat ?c" using that by linarith
      then show ?thesis using g False len by (simp add: slab_geom_def nth_list_update)
    qed
    have "?n + 1 \<le> block_start (unat ?c + 1)" using fu block_start_Suc [of "unat ?c"] by simp
    then have "slab_geom aligned (?s\<lparr>sl_size := sl_size s + 1\<rparr>)"
      using g room n1 c1 fu bl len unfolding slab_geom_def slab_room_def by auto
    moreover have "slot_addr ?s i = slot_addr s i" if "unat i < ?n" for i
    proof -
      have "?c \<noteq> ntt_slab_block_of i" using fresh_at_addr(4) [OF g that a] by auto
      then show ?thesis
        by (simp add: slot_addr_def ntt_slab_fresh_at_def slab_block_base_def Let_def nth_list_update)
    qed
    ultimately show thesis using that [OF add] by simp
  qed
qed

lemma mem_others:
  assumes st: "slab_state aligned s fl" and i: "unat i < unat (sl_size s)" and j: "unat j < unat (sl_size s)" "j \<noteq> i"
  shows "((sl_mem s)(slot_addr s i \<mapsto> h)) (slot_addr s j) = sl_mem s (slot_addr s j)"
  using slot_addr_inj [OF st j(1) i] j(2) by simp

lemma take_extend:
  assumes st: "slab_state aligned s []" and room: "slab_room s"
  obtains i s' where "unat i = unat (sl_size s)" "ntt_slab_take aligned s = Some (slot_addr s' i, s')"
    "slab_state aligned s' []" "sl_size s' = sl_size s + 1" "sl_stride s' = sl_stride s" "slab_gen s' i = 1"
    "\<forall>j. unat j < unat (sl_size s) \<longrightarrow> slot_addr s' j = slot_addr s j \<and> slab_gen s' j = slab_gen s j"
proof -
  have g: "slab_geom aligned s" and a: "alloc_ok aligned (sl_stride s)" and fh: "sl_free_head s = NTT_SLAB_NONE"
    using st by (auto simp: slab_state_def)
  let ?i = "ucast (sl_size s) :: u32"
  have n26: "unat (sl_size s) < 67108864" by (rule geom_size [OF g])
  have u: "unat ?i = unat (sl_size s)" using n26 by (simp add: unsigned_ucast_eq take_bit_nat_eq_self)
  have n1: "unat (sl_size s + 1) = unat (sl_size s) + 1" using n26 by (subst unat_add64_noflow) simp_all
  have "unat (?i + 1) = unat (sl_size s) + 1" using n26 u by (subst unat_add_noflow) simp_all
  then have i1: "(ucast (?i + 1) :: u64) = sl_size s + 1" using n1 by (simp add: word_unat_eq_iff)
  have cap: "?i \<noteq> NTT_SLAB_CAPACITY" using u n26 NTT_SLAB_NONE_unat by (auto simp: NTT_SLAB_NONE_def)
  obtain s1 where s1: "slab_add_block aligned s ?i = Some s1"
    "slab_geom aligned (s1\<lparr>sl_size := sl_size s + 1\<rparr>)" "sl_mem s1 = sl_mem s" "sl_stride s1 = sl_stride s"
    "sl_free_head s1 = sl_free_head s" "sl_size s1 = sl_size s"
    "\<forall>i. unat i < unat (sl_size s) \<longrightarrow> slot_addr s1 i = slot_addr s i"
    by (rule add_block_geom [OF g a room])
  let ?s1 = "s1\<lparr>sl_size := sl_size s + 1\<rparr>"
  have a1: "alloc_ok aligned (sl_stride ?s1)" using a s1 by simp
  have lt: "unat ?i < unat (sl_size ?s1)" using u n1 by simp
  have fr: "ntt_slab_fresh_at (s1\<lparr>sl_mem := y, sl_size := x\<rparr>) j = ntt_slab_fresh_at s1 j" for x y j
    by (simp add: ntt_slab_fresh_at_def slab_block_base_def Let_def cong: if_cong)
  have at: "ntt_slab_fresh_at s1 ?i = Some (slot_addr s1 ?i)"
    using fresh_at_addr(1) [OF s1(2) lt a1]
    by (simp add: ntt_slab_fresh_at_def slab_block_base_def Let_def cong: if_cong)
  define h where "h = (case sl_mem s1 (slot_addr s1 ?i) of
      None \<Rightarrow> \<lparr>sh_generation = 1, sh_index = ?i, sh_next_free = None\<rparr>
    | Some h \<Rightarrow> h\<lparr>sh_index := ?i, sh_generation := 1\<rparr>)"
  define s' where "s' = s1\<lparr>sl_mem := (sl_mem s1)(slot_addr s1 ?i \<mapsto> h), sl_size := ucast (?i + 1)\<rparr>"
  have h: "sh_index h = ?i" "sh_generation h = 1" by (simp_all add: h_def split: option.splits)
  have take: "ntt_slab_take aligned s = Some (slot_addr s' ?i, s')"
    using fh cap s1(1) at fr [where x = "ucast (?i + 1)" and y = "(sl_mem s1)(slot_addr s1 ?i \<mapsto> h)" and j = ?i]
    by (simp add: ntt_slab_take_def Let_def s'_def h_def [symmetric])
  have addr: "slot_addr s' j = slot_addr s1 j" for j by (simp add: s'_def)
  have s'1: "sl_size s' = sl_size s + 1" "sl_stride s' = sl_stride s" using s1 i1 by (simp_all add: s'_def)
  have g': "slab_geom aligned s'" using s1(2) i1 by (simp add: s'_def slab_geom_def)
  have other: "sl_mem s' (slot_addr s' j) = sl_mem s (slot_addr s j)" if j: "unat j < unat (sl_size s)" for j
  proof -
    have "unat j < unat (sl_size s')" "unat ?i < unat (sl_size s')" "j \<noteq> ?i"
      using j u n1 s'1 by auto
    note apart = slot_addr_apart [OF g' _ this]
    have "alloc_ok aligned (sl_stride s')" "64 \<le> unat (sl_stride s')"
      using a s'1 g' by (simp_all add: slab_geom_def)
    then have "unat (slot_addr s' j) \<noteq> unat (slot_addr s' ?i)" using apart by linarith
    then have "slot_addr s' j \<noteq> slot_addr s' ?i" by auto
    then show ?thesis using s1(3,7) j by (simp add: s'_def)
  qed
  have new: "sl_mem s' (slot_addr s' ?i) = Some h" by (simp add: s'_def)
  have "\<exists>h. sl_mem s' (slot_addr s' j) = Some h \<and> sh_index h = j" if "unat j < unat (sl_size s')" for j
  proof (cases "j = ?i")
    case True
    then show ?thesis using new h by simp
  next
    case False
    then have "unat j \<noteq> unat ?i" by simp
    moreover have "unat (sl_size s') = unat (sl_size s) + 1" using s'1 n1 by simp
    ultimately have "unat j < unat (sl_size s)" using that u by linarith
    then show ?thesis using other st by (simp add: slab_state_def)
  qed
  moreover have "sl_free_head s' = NTT_SLAB_NONE" using s1(5) fh by (simp add: s'_def)
  ultimately have "slab_state aligned s' []" using g' a s'1 by (simp add: slab_state_def)
  moreover have "slab_gen s' ?i = 1" using new h by (simp add: slab_gen_def)
  moreover have "\<forall>j. unat j < unat (sl_size s) \<longrightarrow> slot_addr s' j = slot_addr s j \<and> slab_gen s' j = slab_gen s j"
    using other s1(7) addr by (simp add: slab_gen_def)
  ultimately show thesis using that [OF u take] s'1 by simp
qed

lemma give_state:
  assumes st: "slab_state aligned s fl" and i: "i \<in> slab_live s fl"
  obtains s' where "ntt_slab_give env s i = Some s'" "slab_state aligned s' (i # fl)" "sl_size s' = sl_size s"
    "sl_stride s' = sl_stride s" "\<forall>j. slot_addr s' j = slot_addr s j" "slab_gen s' i = slab_gen s i + 1"
    "\<forall>j. unat j < unat (sl_size s) \<longrightarrow> j \<noteq> i \<longrightarrow> slab_gen s' j = slab_gen s j"
proof -
  have lt: "unat i < unat (sl_size s)" and notin: "i \<notin> set fl" using i by (auto simp: slab_live_def)
  obtain h where h: "sl_mem s (slot_addr s i) = Some h" "sh_index h = i" using st lt by (auto simp: slab_state_def)
  let ?h = "h\<lparr>sh_generation := sh_generation h + 1, sh_next_free := Some (sl_free_head s)\<rparr>"
  let ?s = "s\<lparr>sl_mem := (sl_mem s)(slot_addr s i \<mapsto> ?h), sl_free_head := i\<rparr>"
  have give: "ntt_slab_give env s i = Some ?s"
    using slab_at_state(2) [OF st lt] h by (simp add: ntt_slab_give_def ntt_slab_retire_def Let_def)
  have other: "sl_mem ?s (slot_addr ?s j) = sl_mem s (slot_addr s j)"
    if "unat j < unat (sl_size s)" "j \<noteq> i" for j
    using mem_others [OF st lt that] by simp
  have new: "sl_mem ?s (slot_addr ?s i) = Some ?h" by simp
  have "slab_chain ?s (sl_free_head s) fl"
  proof (rule slab_chain_cong [of s])
    show "slab_chain s (sl_free_head s) fl" using st by (simp add: slab_state_def)
    show "sl_mem ?s (slot_addr ?s j) = sl_mem s (slot_addr s j)"
      if "j \<in> set fl" "unat j < unat (sl_size s)" for j
      using notin that(1) by (intro other [OF that(2)]) auto
  qed simp
  then have chain: "slab_chain ?s (sl_free_head ?s) (i # fl)" using lt new by simp
  have heads: "\<exists>h. sl_mem ?s (slot_addr ?s j) = Some h \<and> sh_index h = j" if j: "unat j < unat (sl_size s)" for j
  proof (cases "j = i")
    case True
    then show ?thesis using new h by simp
  next
    case False
    from other [OF j False] show ?thesis using st j by (simp add: slab_state_def)
  qed
  have "slab_geom aligned ?s" using st by (simp add: slab_state_def slab_geom_def)
  then have st': "slab_state aligned ?s (i # fl)"
    using st chain heads notin unfolding slab_state_def by simp
  show thesis
    by (rule that [OF give st']) (use other new h in \<open>simp_all add: slab_gen_def\<close>)
qed

section \<open>A contract for reusable handles\<close>

text \<open>
  A handle is in use or not; taking returns one that was not, giving it back changes its
  generation and no other, so that whoever remembers a handle with its generation can tell that
  it was given back.
\<close>

locale handle_store =
  fixes inv :: "'s \<Rightarrow> 'h set \<Rightarrow> bool"
    and room :: "'s \<Rightarrow> bool"
    and take_handle :: "'s \<Rightarrow> ('h \<times> 's) option"
    and give_handle :: "'s \<Rightarrow> 'h \<Rightarrow> 's option"
    and gen :: "'s \<Rightarrow> 'h \<Rightarrow> 'g"
  assumes take_law: "inv s L \<Longrightarrow> room s \<Longrightarrow>
      \<exists>h s'. take_handle s = Some (h, s') \<and> h \<notin> L \<and> inv s' (insert h L) \<and> (\<forall>x \<in> L. gen s' x = gen s x)"
    and give_law: "inv s L \<Longrightarrow> h \<in> L \<Longrightarrow>
      \<exists>s'. give_handle s h = Some s' \<and> inv s' (L - {h}) \<and> gen s' h \<noteq> gen s h \<and>
        (\<forall>x \<in> L - {h}. gen s' x = gen s x)"
begin

text \<open>Taking several handles in a row, as long as there is room.\<close>

fun take_many :: "nat \<Rightarrow> 's \<Rightarrow> ('h list \<times> 's) option" where
  "take_many 0 s = Some ([], s)"
| "take_many (Suc n) s =
     (if \<not> room s then Some ([], s)
      else case take_handle s of None \<Rightarrow> None
        | Some (h, s') \<Rightarrow> (case take_many n s' of None \<Rightarrow> None | Some (hs, s'') \<Rightarrow> Some (h # hs, s'')))"

lemma take_many_distinct:
  assumes "inv s L"
  shows "\<exists>hs s'. take_many n s = Some (hs, s') \<and> distinct hs \<and> set hs \<inter> L = {} \<and> inv s' (set hs \<union> L) \<and>
    (\<forall>x \<in> L. gen s' x = gen s x)"
  using assms
proof (induction n arbitrary: s L)
  case (Suc n)
  show ?case
  proof (cases "room s")
    case True
    obtain h s1 where h: "take_handle s = Some (h, s1)" "h \<notin> L" "inv s1 (insert h L)"
      "\<forall>x \<in> L. gen s1 x = gen s x"
      using take_law [OF Suc.prems True] by blast
    obtain hs s' where hs: "take_many n s1 = Some (hs, s')" "distinct hs" "set hs \<inter> insert h L = {}"
      "inv s' (set hs \<union> insert h L)" "\<forall>x \<in> insert h L. gen s' x = gen s1 x"
      using Suc.IH [OF h(3)] by blast
    have "take_many (Suc n) s = Some (h # hs, s')" using True h(1) hs(1) by simp
    moreover have "inv s' (set (h # hs) \<union> L)" using hs(4) by simp
    ultimately show ?thesis using h hs by fastforce
  qed (use Suc.prems in auto)
qed auto

text \<open>A reference to a handle that was given back is recognised by its generation.\<close>

lemma stale_reference:
  assumes "inv s L" "h \<in> L" "give_handle s h = Some s'"
  shows "gen s' h \<noteq> gen s h" "inv s' (L - {h})"
  using give_law [OF assms(1,2)] assms(3) by auto

end

section \<open>The slab as a store of handles\<close>

lemma slab_init_state:
  assumes "alloc_ok aligned (sl_stride (ntt_slab_init n))" "64 \<le> unat (sl_stride (ntt_slab_init n))"
  shows "slab_state aligned (ntt_slab_init n) []"
proof -
  have "length (sl_blocks (ntt_slab_init n)) = 27"
    by (simp add: ntt_slab_init_def NTT_SLAB_BLOCKS_def NTT_SLAB_FULL_BLOCKS_def NTT_SLAB_LAST_BLOCK_LEN_def
        NTT_FIRST_SLAB_BLOCK_LEN_def NTT_FIRST_SLAB_BLOCK_LEN_LOG2_def)
  then show ?thesis using assms
    by (simp add: slab_state_def slab_geom_def) (simp add: ntt_slab_init_def block_start_def)
qed

lemma slab_take_state:
  assumes st: "slab_state aligned s fl" and room: "fl \<noteq> [] \<or> slab_room s"
  obtains i s' fl' where "ntt_slab_take aligned s = Some (slot_addr s' i, s')" "slab_state aligned s' fl'"
    "ntt_slab_index s' (slot_addr s' i) = Some i" "i \<notin> slab_live s fl"
    "slab_live s' fl' = insert i (slab_live s fl)" "sl_stride s' = sl_stride s"
    "\<forall>j. unat j < unat (sl_size s) \<longrightarrow> slot_addr s' j = slot_addr s j \<and> slab_gen s' j = slab_gen s j"
    "sl_size s \<le> sl_size s'"
proof (cases fl)
  case Nil
  then have rm: "slab_room s" using room by simp
  obtain i s' where i: "unat i = unat (sl_size s)" "ntt_slab_take aligned s = Some (slot_addr s' i, s')"
    "slab_state aligned s' []" "sl_size s' = sl_size s + 1" "sl_stride s' = sl_stride s"
    "\<forall>j. unat j < unat (sl_size s) \<longrightarrow> slot_addr s' j = slot_addr s j \<and> slab_gen s' j = slab_gen s j"
    by (rule take_extend [OF st [unfolded Nil] rm])
  have "slab_geom aligned s" using st by (simp add: slab_state_def)
  then have "unat (sl_size s) < 67108864" by (rule geom_size)
  then have n1: "unat (sl_size s') = Suc (unat (sl_size s))" using i(4) by (simp add: unat_add64_noflow)
  have "unat i < unat (sl_size s')" using i(1) n1 by simp
  then have idx: "ntt_slab_index s' (slot_addr s' i) = Some i"
    using i(3) by (auto simp: slab_state_def ntt_slab_index_def)
  have "j = i \<longleftrightarrow> unat j = unat (sl_size s)" for j
    unfolding i(1) [symmetric] by simp
  then have "slab_live s' [] = insert i (slab_live s fl)"
    unfolding slab_live_def n1 Nil by (auto simp: less_Suc_eq)
  moreover have "i \<notin> slab_live s fl" using i(1) by (simp add: slab_live_def)
  ultimately show thesis using that [OF i(2,3) idx] i(5,6) n1 by (simp add: word_le_nat_alt)
next
  case (Cons i fl')
  obtain n where n: "ntt_slab_take aligned s = Some (slot_addr s i, s\<lparr>sl_free_head := n\<rparr>)"
    "slab_state aligned (s\<lparr>sl_free_head := n\<rparr>) fl'"
    by (rule take_reuse [OF st [unfolded Cons]])
  have i: "unat i < unat (sl_size s)" "i \<notin> set fl'" using st Cons by (auto simp: slab_state_def)
  then have "ntt_slab_index (s\<lparr>sl_free_head := n\<rparr>) (slot_addr s i) = Some i"
    using st by (auto simp: slab_state_def ntt_slab_index_def)
  moreover have "slab_live (s\<lparr>sl_free_head := n\<rparr>) fl' = insert i (slab_live s fl)"
    using i Cons by (auto simp: slab_live_def)
  moreover have "i \<notin> slab_live s fl" using Cons by (simp add: slab_live_def)
  ultimately show thesis
    using that [of "s\<lparr>sl_free_head := n\<rparr>" i fl'] n by (simp add: slab_gen_def)
qed

lemma odd_ucast: "odd (ucast (w :: u64) :: u32) \<longleftrightarrow> odd w"
proof -
  have "bit (ucast w :: u32) 0 \<longleftrightarrow> bit w 0" by (simp only: bit_ucast_iff) simp
  then show ?thesis by (simp only: bit_0)
qed

lemma ucast_succ_neq: "(ucast ((g :: u64) + 1) :: u32) \<noteq> ucast g"
  using odd_ucast [of "g + 1"] odd_ucast [of g] by auto

interpretation slab: handle_store "slab_handles aligned" slab_room "slab_take_index aligned"
  "ntt_slab_give env" "\<lambda>s i. (ucast (slab_gen s i) :: u32)" for aligned env
proof (unfold_locales, goal_cases)
  case (1 s L)
  then obtain fl where st: "slab_state aligned s fl" and L: "L = slab_live s fl" by (auto simp: slab_handles_def)
  obtain i s' fl' where "ntt_slab_take aligned s = Some (slot_addr s' i, s')" "slab_state aligned s' fl'"
    "ntt_slab_index s' (slot_addr s' i) = Some i" "i \<notin> slab_live s fl"
    "slab_live s' fl' = insert i (slab_live s fl)"
    "\<forall>j. unat j < unat (sl_size s) \<longrightarrow> slot_addr s' j = slot_addr s j \<and> slab_gen s' j = slab_gen s j"
    by (rule slab_take_state [OF st disjI2 [OF 1(2)]])
  then show ?case unfolding L
    by (intro exI [of _ i] exI [of _ s']) (auto simp: slab_take_index_def slab_handles_def slab_live_def)
next
  case (2 s L i)
  then obtain fl where st: "slab_state aligned s fl" and L: "L = slab_live s fl" by (auto simp: slab_handles_def)
  obtain s' where s': "ntt_slab_give env s i = Some s'" "slab_state aligned s' (i # fl)" "sl_size s' = sl_size s"
    "slab_gen s' i = slab_gen s i + 1" "\<forall>j. unat j < unat (sl_size s) \<longrightarrow> j \<noteq> i \<longrightarrow> slab_gen s' j = slab_gen s j"
    by (rule give_state [OF st 2(2) [unfolded L]])
  have "slab_live s' (i # fl) = L - {i}" using s'(3) L by (auto simp: slab_live_def)
  then have "slab_handles aligned s' (L - {i})" using s'(2) by (auto simp: slab_handles_def)
  then show ?case using s' ucast_succ_neq L by (auto simp: slab_live_def)
qed

end
