(* ===== verification/Queue_Heap_Inv.thy ===== *)
theory Queue_Heap_Inv
  imports Queue_Heap Slab_Inv
begin

text \<open>
  The invariant of the heap of registrations and every routine of \<open>queue_heap.c\<close> under it. The
  entries of the array are the list \<open>xs\<close>; an entry stands (\<open>qe_live\<close>) when the generation it carries
  is the one the slab has for its slot now. The count of tombstones is a hint in the code and no
  part of the invariant.
\<close>

section \<open>The invariant\<close>

definition QH_MAX :: nat where
  "QH_MAX = 1073741824"

definition qh_rep :: "ntt_queue_heap \<Rightarrow> ntt_queue_heap_elem list \<Rightarrow> bool" where
  "qh_rep h xs \<longleftrightarrow>
     take (length xs) (qh_elems h) = map Some xs \<and> unat (qh_size h) = length xs \<and>
     length (qh_elems h) = unat (qh_capacity h)"

definition qe_live :: "ntt_slab \<Rightarrow> ntt_queue_heap_elem \<Rightarrow> bool" where
  "qe_live slab e \<longleftrightarrow> ucast (slab_gen slab (qe_index e)) = qe_generation e"

definition qe_known :: "ntt_slab \<Rightarrow> ntt_queue_heap_elem \<Rightarrow> bool" where
  "qe_known slab e \<longleftrightarrow> unat (qe_index e) < unat (sl_size slab)"

definition qh_state :: "ntt_slab \<Rightarrow> ntt_queue_heap \<Rightarrow> ntt_queue_heap_elem list \<Rightarrow> bool" where
  "qh_state slab h xs \<longleftrightarrow>
     qh_rep h xs \<and> is_heap ntt_queue_heap_less xs \<and> length xs < QH_MAX \<and> (\<forall>x \<in> set xs. qe_known slab x)"

abbreviation standing :: "ntt_slab \<Rightarrow> ntt_queue_heap_elem list \<Rightarrow> ntt_queue_heap_elem multiset" where
  "standing slab xs \<equiv> filter_mset (qe_live slab) (mset xs)"

interpretation queue_order: heap_order ntt_queue_heap_less
  by unfold_locales (auto simp: ntt_queue_heap_less_def)

section \<open>Sifting is the generic sifting\<close>

lemma put_prefix:
  assumes "qh_elems h = map Some xs @ rest" "unat pos < length xs"
  shows "queue_heap_put h pos e = Some (h\<lparr>qh_elems := map Some (xs[unat pos := e]) @ rest\<rparr>)"
  using assms by (simp add: queue_heap_put_def arr_write_prefix)

lemma queue_sift_up_eq:
  assumes "qh_elems h = map Some xs @ rest" "unat pos < length xs"
  shows "ntt_queue_heap_sift_up h pos e =
    Some (h\<lparr>qh_elems := map Some (hole_up ntt_queue_heap_less xs (unat pos) e) @ rest\<rparr>)"
  using assms
proof (induction "unat pos" arbitrary: pos h xs rule: less_induct)
  case less
  show ?case
  proof (cases "pos = 0")
    case True
    with less.prems show ?thesis
      by (subst ntt_queue_heap_sift_up.simps, subst hole_up.simps) (simp add: put_prefix)
  next
    case False
    then have pos: "0 < unat pos" by (simp add: unat_gt_0)
    let ?w = "(pos - 1) div 2" and ?p = "(unat pos - 1) div 2"
    have p: "unat ?w = ?p" by (rule unat_pred_half [OF pos])
    have lt: "?p < unat pos" by (rule parent_less [OF pos])
    have at: "arr_read (qh_elems h) ?w = Some (xs ! ?p)"
      using arr_read_prefix [OF less.prems(1), of ?w] less.prems(2) lt p by simp
    show ?thesis
    proof (cases "ntt_queue_heap_less e (xs ! ?p)")
      case True
      let ?h = "h\<lparr>qh_elems := map Some (xs[unat pos := xs ! ?p]) @ rest\<rparr>"
      have "ntt_queue_heap_sift_up ?h ?w e =
        Some (?h\<lparr>qh_elems := map Some (hole_up ntt_queue_heap_less (xs[unat pos := xs ! ?p])
                 (unat ?w) e) @ rest\<rparr>)"
        using less.prems lt p by (intro less.hyps) auto
      then show ?thesis
        using less.prems False pos at p True
        by (subst ntt_queue_heap_sift_up.simps, subst hole_up.simps)
          (simp add: put_prefix word_less_nat_alt)
    next
      case nless: False
      then show ?thesis
        using less.prems False pos at
        by (subst ntt_queue_heap_sift_up.simps, subst hole_up.simps)
          (simp add: put_prefix word_less_nat_alt)
    qed
  qed
qed

lemma queue_sift_down_child:
  assumes h: "qh_elems h = map Some xs @ rest" "unat (qh_size h) = length xs"
    and l: "2 * unat pos + 1 < length xs" "length xs \<le> 1073741824"
  obtains w where "unat w = min_child ntt_queue_heap_less xs (unat pos)"
    and "ntt_queue_heap_sift_down h pos e =
      (if \<not> ntt_queue_heap_less (xs ! unat w) e then queue_heap_put h pos e
       else queue_heap_put h pos (xs ! unat w) \<bind> (\<lambda>self'. ntt_queue_heap_sift_down self' w e))"
proof -
  let ?l = "pos * 2 + 1"
  define w where "w = (if ?l + 1 < qh_size h \<and>
    ntt_queue_heap_less (xs ! unat (?l + 1)) (xs ! unat ?l) then ?l + 1 else ?l)"
  have u: "unat ?l = 2 * unat pos + 1" "unat (?l + 1) = 2 * unat pos + 2"
    using l unat_left [of pos] by auto
  have nl: "(qh_size h \<le> ?l) = False" using h l u by (simp add: word_le_nat_alt)
  have w: "unat w = min_child ntt_queue_heap_less xs (unat pos)"
    using h u by (auto simp: w_def min_child_def word_less_nat_alt)
  then have wlt: "unat w < length xs" using min_child_bounds [OF l(1)] by simp
  have child: "(if ?l + 1 < qh_size h then do {
         r \<leftarrow> arr_read (qh_elems h) (?l + 1);
         l \<leftarrow> arr_read (qh_elems h) ?l;
         Some (if ntt_queue_heap_less r l then ?l + 1 else ?l)
       } else Some ?l) = Some w"
    using l by (simp add: w_def arr_read_prefix [OF h(1)] h(2) u word_less_nat_alt)
  show thesis
    by (rule that [OF w], subst ntt_queue_heap_sift_down.simps)
      (simp only: Let_def nl child arr_read_prefix [OF h(1) wlt] if_False bind.bind_lunit)
qed

lemma queue_sift_down_eq:
  assumes "qh_elems h = map Some xs @ rest" "unat (qh_size h) = length xs" "unat pos < length xs"
    "length xs \<le> 1073741824"
  shows "ntt_queue_heap_sift_down h pos e =
    Some (h\<lparr>qh_elems := map Some (hole_down ntt_queue_heap_less xs (unat pos) e) @ rest\<rparr>)"
  using assms
proof (induction "length xs - unat pos" arbitrary: pos h xs rule: less_induct)
  case less
  let ?i = "unat pos"
  show ?case
  proof (cases "2 * ?i + 1 < length xs")
    case False
    then have "qh_size h \<le> pos * 2 + 1"
      using less.prems unat_left [of pos] by (simp add: word_le_nat_alt)
    then show ?thesis using less.prems False
      by (subst ntt_queue_heap_sift_down.simps, subst hole_down.simps) (simp add: put_prefix Let_def)
  next
    case True
    let ?c = "min_child ntt_queue_heap_less xs ?i"
    obtain w where w: "unat w = ?c" and step: "ntt_queue_heap_sift_down h pos e =
      (if \<not> ntt_queue_heap_less (xs ! unat w) e then queue_heap_put h pos e
       else queue_heap_put h pos (xs ! unat w) \<bind> (\<lambda>self'. ntt_queue_heap_sift_down self' w e))"
      by (rule queue_sift_down_child [OF less.prems(1,2) True less.prems(4)])
    let ?h = "h\<lparr>qh_elems := map Some (xs[?i := xs ! ?c]) @ rest\<rparr>"
    note c = min_child_bounds [OF True, of ntt_queue_heap_less]
    have "ntt_queue_heap_sift_down ?h w e =
      Some (?h\<lparr>qh_elems := map Some (hole_down ntt_queue_heap_less (xs[?i := xs ! ?c])
               (unat w) e) @ rest\<rparr>)"
      by (rule less.hyps) (use less.prems c w in auto)
    then show ?thesis
      using less.prems True w
      by (subst step, subst hole_down.simps) (simp add: put_prefix)
  qed
qed

section \<open>Access under the invariant\<close>

lemma qh_rep_elems: "qh_rep h xs \<Longrightarrow> qh_elems h = map Some xs @ drop (length xs) (qh_elems h)"
  by (metis append_take_drop_id qh_rep_def)

lemma qh_rep_fits:
  assumes "qh_rep h xs"
  shows "length xs \<le> length (qh_elems h)"
proof -
  have "length (take (length xs) (qh_elems h)) = length xs" using assms by (simp only: qh_rep_def length_map)
  then show ?thesis by simp
qed

lemma qh_read: "qh_rep h xs \<Longrightarrow> unat i < length xs \<Longrightarrow> arr_read (qh_elems h) i = Some (xs ! unat i)"
  by (rule arr_read_prefix [OF qh_rep_elems])

lemma qh_write:
  assumes "qh_rep h xs" "unat i < length xs"
  obtains a where "arr_write (qh_elems h) i e = Some a" "qh_rep (h\<lparr>qh_elems := a\<rparr>) (xs[unat i := e])"
proof
  let ?a = "map Some (xs[unat i := e]) @ drop (length xs) (qh_elems h)"
  show "arr_write (qh_elems h) i e = Some ?a"
    by (rule arr_write_prefix [OF qh_rep_elems [OF assms(1)] assms(2)])
  show "qh_rep (h\<lparr>qh_elems := ?a\<rparr>) (xs[unat i := e])"
    using assms qh_rep_fits [OF assms(1)] by (simp add: qh_rep_def)
qed

lemma queue_live_slab:
  assumes "slab_state aligned slab fl" "qe_known slab e"
  shows "ntt_queue_heap_live env slab e = Some (qe_live slab e)"
proof -
  have i: "unat (qe_index e) < unat (sl_size slab)" using assms(2) by (simp add: qe_known_def)
  obtain h where "sl_mem slab (slot_addr slab (qe_index e)) = Some h"
    using assms(1) i by (auto simp: slab_state_def)
  then show ?thesis using slab_at_state(2) [OF assms(1) i]
    by (simp add: ntt_queue_heap_live_def ntt_slab_generation_def qe_live_def slab_gen_def)
qed

section \<open>Capacity\<close>

lemma queue_heap_grow_ok:
  assumes "0 < unat cap" "unat cnt \<le> 2147483648"
  shows "\<exists>r. queue_heap_grow cap cnt = Some r \<and> unat cnt \<le> unat r"
  using assms(1)
proof (induction "unat cnt - unat cap" arbitrary: cap rule: less_induct)
  case less
  show ?case
  proof (cases "cap < cnt")
    case False
    then show ?thesis by (subst queue_heap_grow.simps) (auto simp: word_less_nat_alt)
  next
    case True
    then have lt: "unat cap < unat cnt" by (simp add: word_less_nat_alt)
    then have m: "unat (cap * 2) = 2 * unat cap"
      using assms(2) by (subst unat_mult_noflow) auto
    have "unat cnt - unat (cap * 2) < unat cnt - unat cap" "0 < unat (cap * 2)" using m lt less.prems by auto
    from less.hyps [OF this] True show ?thesis by (subst queue_heap_grow.simps) auto
  qed
qed

lemma queue_reserve_ok:
  assumes env: "env_ok env" and rep: "qh_rep h xs" and n: "length xs + 1 < QH_MAX"
  obtains a c where "ntt_queue_heap_reserve env h (qh_size h + 1) = Some (h\<lparr>qh_elems := a, qh_capacity := c\<rparr>)"
    "qh_rep (h\<lparr>qh_elems := a, qh_capacity := c\<rparr>) xs" "length xs < length a"
proof -
  have s: "unat (qh_size h + 1) = length xs + 1"
    using rep n by (subst unat_add_noflow) (simp_all add: qh_rep_def QH_MAX_def)
  show thesis
  proof (cases "qh_size h + 1 \<le> qh_capacity h")
    case True
    then have "length xs < length (qh_elems h)" using s rep by (simp add: word_le_nat_alt qh_rep_def)
    then show thesis using that [where a = "qh_elems h" and c = "qh_capacity h"] True rep
      by (simp add: ntt_queue_heap_reserve_def)
  next
    case False
    have "0 < unat (if qh_capacity h = 0 then NTT_QUEUE_HEAP_MIN_CAPACITY else qh_capacity h)"
      by (simp add: NTT_QUEUE_HEAP_MIN_CAPACITY_def unat_gt_0)
    moreover have "unat (qh_size h + 1) \<le> 2147483648" using s n by (simp add: QH_MAX_def)
    ultimately obtain c where c: "queue_heap_grow
        (if qh_capacity h = 0 then NTT_QUEUE_HEAP_MIN_CAPACITY else qh_capacity h) (qh_size h + 1) = Some c"
      "length xs + 1 \<le> unat c"
      using queue_heap_grow_ok s by metis
    have "take (length xs) (resize (qh_elems h) (unat c)) = map Some xs"
      using resize_prefix [OF qh_rep_elems [OF rep], of "unat c"] c(2) by simp
    then have "qh_rep (h\<lparr>qh_elems := resize (qh_elems h) (unat c), qh_capacity := c\<rparr>) xs"
      using rep by (simp add: qh_rep_def)
    then show thesis
      using that [where a = "resize (qh_elems h) (unat c)" and c = c] False c env
      by (simp add: ntt_queue_heap_reserve_def ntt_realloc_or_die_def)
  qed
qed

section \<open>Dropping entries\<close>

lemma queue_pop_root_ok:
  assumes rep: "qh_rep h xs" and n: "length xs < QH_MAX" and ne: "xs \<noteq> []"
  obtains a where "ntt_queue_heap_pop_root env h = Some (h\<lparr>qh_size := qh_size h - 1, qh_elems := a\<rparr>)"
    "qh_rep (h\<lparr>qh_size := qh_size h - 1, qh_elems := a\<rparr>) (pop_min ntt_queue_heap_less xs)"
proof -
  have size: "unat (qh_size h) = length xs" "0 < unat (qh_size h)" using rep ne by (auto simp: qh_rep_def)
  then have last: "unat (qh_size h - 1) = length xs - 1" by (simp add: unat_pred)
  show thesis
  proof (cases "qh_size h - 1 = 0")
    case True
    then have l1: "length xs = 1" using last ne by (cases xs) auto
    have "qh_rep (h\<lparr>qh_size := 0\<rparr>) []" using rep by (simp add: qh_rep_def)
    then show thesis
      using that [where a = "qh_elems h"] True size l1
      by (simp add: ntt_queue_heap_pop_root_def word_less_nat_alt pop_min_def)
  next
    case False
    then have l2: "1 < length xs" using last by (metis One_nat_def diff_is_0_eq linorder_not_le unat_eq_zero_iff)
    let ?ys = "butlast xs" and ?last = "qh_size h - 1"
    let ?rest = "Some (last xs) # drop (length xs) (qh_elems h)"
    let ?zs = "hole_down ntt_queue_heap_less ?ys 0 (last xs)"
    have "map Some xs = map Some (?ys @ [last xs])" using ne by simp
    with qh_rep_elems [OF rep] have heap: "qh_elems h = map Some ?ys @ ?rest" by simp
    have at: "arr_read (qh_elems h) ?last = Some (last xs)"
      using qh_read [OF rep, of ?last] last ne by (simp add: last_conv_nth)
    have down: "ntt_queue_heap_sift_down (h\<lparr>qh_size := ?last\<rparr>) 0 (last xs) =
      Some (h\<lparr>qh_size := ?last, qh_elems := map Some ?zs @ ?rest\<rparr>)"
      using queue_sift_down_eq [of "h\<lparr>qh_size := ?last\<rparr>" ?ys ?rest 0 "last xs"] heap last l2 n
      by (simp add: QH_MAX_def)
    have "qh_rep (h\<lparr>qh_size := ?last, qh_elems := map Some ?zs @ ?rest\<rparr>) ?zs"
      using rep last l2 qh_rep_fits [OF rep] by (simp add: qh_rep_def)
    then show thesis
      using that [where a = "map Some ?zs @ ?rest"] False size l2 at down
      by (simp add: ntt_queue_heap_pop_root_def word_less_nat_alt pop_min_def)
  qed
qed

lemma mset_queue_pop:
  assumes "xs \<noteq> []"
  shows "mset xs = add_mset (xs ! 0) (mset (pop_min ntt_queue_heap_less xs))"
proof -
  have "xs ! 0 \<in># mset xs" using assms by simp
  then show ?thesis by (simp add: mset_pop_min [OF assms])
qed

lemma queue_pop_state:
  assumes st: "qh_state slab h xs" and ne: "xs \<noteq> []"
  obtains h' where "ntt_queue_heap_pop_root env h = Some h'" "qh_state slab h' (pop_min ntt_queue_heap_less xs)"
    "qh_tombstones h' = qh_tombstones h"
proof -
  have rep: "qh_rep h xs" and n: "length xs < QH_MAX" using st by (auto simp: qh_state_def)
  obtain a where pop: "ntt_queue_heap_pop_root env h = Some (h\<lparr>qh_size := qh_size h - 1, qh_elems := a\<rparr>)"
    and rep': "qh_rep (h\<lparr>qh_size := qh_size h - 1, qh_elems := a\<rparr>) (pop_min ntt_queue_heap_less xs)"
    by (rule queue_pop_root_ok [OF rep n ne])
  have "set (pop_min ntt_queue_heap_less xs) \<subseteq> set xs"
    using arg_cong [OF mset_queue_pop [OF ne], of set_mset] by auto
  then have "qh_state slab (h\<lparr>qh_size := qh_size h - 1, qh_elems := a\<rparr>) (pop_min ntt_queue_heap_less xs)"
    using st rep' queue_order.pop_min_heap n by (auto simp: qh_state_def)
  then show thesis using that pop by simp
qed

lemma qh_state_tombstones [simp]: "qh_state slab (h\<lparr>qh_tombstones := t\<rparr>) xs \<longleftrightarrow> qh_state slab h xs"
  by (simp add: qh_state_def qh_rep_def)

lemma queue_root:
  assumes "qh_state slab h xs" "xs \<noteq> []"
  shows "0 < qh_size h" "arr_read (qh_elems h) 0 = Some (xs ! 0)"
  using assms qh_read [of h xs 0] by (auto simp: qh_state_def qh_rep_def word_less_nat_alt)

lemma queue_drop_dead_root_state:
  assumes slab: "slab_state aligned slab fl" and st: "qh_state slab h xs"
  shows "\<exists>h' xs'. ntt_queue_heap_drop_dead_root env slab h = Some h' \<and> qh_state slab h' xs' \<and>
    (xs' \<noteq> [] \<longrightarrow> qe_live slab (xs' ! 0)) \<and> standing slab xs' = standing slab xs \<and> mset xs' \<subseteq># mset xs"
  using st
proof (induction "length xs" arbitrary: h xs rule: less_induct)
  case less
  show ?case
  proof (cases "xs = []")
    case True
    then have "qh_size h = 0" using less.prems by (simp add: qh_state_def qh_rep_def)
    then show ?thesis using True less.prems by (subst ntt_queue_heap_drop_dead_root.simps) auto
  next
    case False
    note root = queue_root [OF less.prems False]
    have live: "ntt_queue_heap_live env slab (xs ! 0) = Some (qe_live slab (xs ! 0))"
      using less.prems False by (intro queue_live_slab [OF slab]) (simp add: qh_state_def)
    show ?thesis
    proof (cases "qe_live slab (xs ! 0)")
      case True
      then show ?thesis using root live less.prems by (subst ntt_queue_heap_drop_dead_root.simps) auto
    next
      case dead: False
      obtain h1 where pop: "ntt_queue_heap_pop_root env h = Some h1" "qh_state slab h1 (pop_min ntt_queue_heap_less xs)"
        by (rule queue_pop_state [OF less.prems False])
      let ?h = "if qh_tombstones h1 > 0 then h1\<lparr>qh_tombstones := qh_tombstones h1 - 1\<rparr> else h1"
      have "qh_state slab ?h (pop_min ntt_queue_heap_less xs)" using pop(2) by simp
      moreover have "length (pop_min ntt_queue_heap_less xs) < length xs" using False by simp
      ultimately obtain h' xs' where ih: "ntt_queue_heap_drop_dead_root env slab ?h = Some h'" "qh_state slab h' xs'"
        "xs' \<noteq> [] \<longrightarrow> qe_live slab (xs' ! 0)" "standing slab xs' = standing slab (pop_min ntt_queue_heap_less xs)"
        "mset xs' \<subseteq># mset (pop_min ntt_queue_heap_less xs)"
        using less.hyps by blast
      have "ntt_queue_heap_drop_dead_root env slab h = Some h'"
        using root live dead pop(1) ih(1) by (subst ntt_queue_heap_drop_dead_root.simps) simp
      moreover have "standing slab xs = standing slab (pop_min ntt_queue_heap_less xs)"
        using dead by (simp add: mset_queue_pop [OF False])
      moreover have "mset xs' \<subseteq># mset xs"
        using ih(5) mset_subset_eq_add_right subset_mset.order_trans unfolding mset_queue_pop [OF False] by fastforce
      ultimately show ?thesis using ih by auto
    qed
  qed
qed

lemma queue_root_earliest:
  assumes st: "qh_state slab h xs" and y: "y \<in> set xs"
  shows "qe_deadline (xs ! 0) \<le> qe_deadline y"
proof -
  obtain i where "i < length xs" "y = xs ! i" using y by (auto simp: in_set_conv_nth)
  then show ?thesis
    using queue_order.heap_root_min [of xs i] st by (auto simp: qh_state_def ntt_queue_heap_less_def)
qed

lemma queue_take_expired_state:
  assumes slab: "slab_state aligned slab fl" and st: "qh_state slab h xs"
  obtains r h' xs' where "ntt_queue_heap_take_expired env h slab now = Some (r, h')" "qh_state slab h' xs'"
    "case r of None \<Rightarrow> standing slab xs' = standing slab xs \<and> (\<forall>x \<in># standing slab xs. now < qe_deadline x)
     | Some e \<Rightarrow> e \<in># standing slab xs \<and> standing slab xs' = standing slab xs - {#e#} \<and> qe_deadline e \<le> now \<and>
         (\<forall>x \<in># standing slab xs. qe_deadline e \<le> qe_deadline x)"
    "mset xs' + (case r of None \<Rightarrow> {#} | Some e \<Rightarrow> {#e#}) \<subseteq># mset xs"
proof -
  obtain h1 ys where drop: "ntt_queue_heap_drop_dead_root env slab h = Some h1" and st1: "qh_state slab h1 ys"
    and live: "ys \<noteq> [] \<longrightarrow> qe_live slab (ys ! 0)" and same: "standing slab ys = standing slab xs" and sub: "mset ys \<subseteq># mset xs"
    using queue_drop_dead_root_state [OF slab st] by blast
  have least: "qe_deadline (ys ! 0) \<le> qe_deadline x" if "x \<in># standing slab xs" for x
    using that queue_root_earliest [OF st1, of x] unfolding same [symmetric] by simp
  show thesis
  proof (cases "ys = []")
    case True
    then have e: "standing slab xs = {#}" using same by simp
    have "qh_size h1 = 0" using True st1 by (simp add: qh_state_def qh_rep_def)
    then show thesis using that [of None h1 ys] drop st1 same e sub
      by (simp add: ntt_queue_heap_take_expired_def)
  next
    case False
    note root = queue_root [OF st1 False]
    show thesis
    proof (cases "qe_deadline (ys ! 0) > now")
      case True
      then have "\<forall>x \<in># standing slab xs. now < qe_deadline x" using least by (meson less_le_trans)
      then show thesis using that [of None h1 ys] drop st1 same sub root True
        by (simp add: ntt_queue_heap_take_expired_def word_gt_0)
    next
      case due: False
      obtain h2 where pop: "ntt_queue_heap_pop_root env h1 = Some h2" "qh_state slab h2 (pop_min ntt_queue_heap_less ys)"
        by (rule queue_pop_state [OF st1 False])
      have l: "qe_live slab (ys ! 0)" using live False by simp
      have split: "standing slab xs = add_mset (ys ! 0) (standing slab (pop_min ntt_queue_heap_less ys))"
        unfolding same [symmetric] using l by (simp add: mset_queue_pop [OF False])
      have "ntt_queue_heap_take_expired env h slab now = Some (Some (ys ! 0), h2)"
        using drop root due pop(1) by (simp add: ntt_queue_heap_take_expired_def word_gt_0)
      moreover have "ys ! 0 \<in># standing slab xs" unfolding split by simp
      moreover have "standing slab (pop_min ntt_queue_heap_less ys) = standing slab xs - {#ys ! 0#}"
        unfolding split by simp
      ultimately show thesis
        using least due sub mset_queue_pop [OF False]
        by (intro that [of "Some (ys ! 0)" h2, OF _ pop(2)]) (simp_all add: not_less del: mset_filter)
    qed
  qed
qed

section \<open>Pushing\<close>

lemma queue_sift_up_hole:
  assumes "unat pos < length (qh_elems h)"
  shows "ntt_queue_heap_sift_up (h\<lparr>qh_elems := (qh_elems h)[unat pos := c]\<rparr>) pos e = ntt_queue_heap_sift_up h pos e"
proof -
  let ?h = "h\<lparr>qh_elems := (qh_elems h)[unat pos := c]\<rparr>"
  have put: "queue_heap_put ?h pos x = queue_heap_put h pos x" for x
    using assms by (simp add: queue_heap_put_def arr_write_def)
  have at: "arr_read (qh_elems ?h) ((pos - 1) div 2) = arr_read (qh_elems h) ((pos - 1) div 2)" if "0 < unat pos"
  proof -
    have "unat ((pos - 1) div 2) \<noteq> unat pos"
      using unat_pred_half [OF that] parent_less [OF that] by simp
    then show ?thesis by (simp add: arr_read_def)
  qed
  show ?thesis
  proof (cases "0 < unat pos")
    case True
    then show ?thesis
      by (subst (1 2) ntt_queue_heap_sift_up.simps)
        (simp only: Let_def put at word_less_nat_alt unat_0 if_True)
  next
    case False
    then show ?thesis
      by (subst (1 2) ntt_queue_heap_sift_up.simps)
        (simp only: put word_less_nat_alt unat_0 if_False)
  qed
qed

lemma queue_push_entry:
  assumes rep: "qh_rep h xs" and cap: "length xs < length (qh_elems h)" and n: "unat n = length xs + 1"
  obtains a where "ntt_queue_heap_sift_up (h\<lparr>qh_size := n\<rparr>) (qh_size h) e = Some (h\<lparr>qh_size := n, qh_elems := a\<rparr>)"
    "qh_rep (h\<lparr>qh_size := n, qh_elems := a\<rparr>) (hole_up ntt_queue_heap_less (xs @ [e]) (length xs) e)"
proof -
  let ?h = "h\<lparr>qh_size := n\<rparr>" and ?a = "(qh_elems h)[unat (qh_size h) := Some e]"
  let ?zs = "hole_up ntt_queue_heap_less (xs @ [e]) (length xs) e"
  have len: "unat (qh_size h) = length xs" using rep by (simp add: qh_rep_def)
  have tk: "take (length (xs @ [e])) ?a = map Some (xs @ [e])"
    using rep len cap by (simp add: qh_rep_def take_Suc_conv_app_nth)
  define rest where "rest = drop (length (xs @ [e])) ?a"
  have a: "?a = map Some (xs @ [e]) @ rest" using tk by (metis append_take_drop_id rest_def)
  have "ntt_queue_heap_sift_up (?h\<lparr>qh_elems := ?a\<rparr>) (qh_size h) e =
      Some (?h\<lparr>qh_elems := ?a, qh_elems := map Some ?zs @ rest\<rparr>)"
    using queue_sift_up_eq [of "?h\<lparr>qh_elems := ?a\<rparr>" "xs @ [e]" rest "qh_size h" e] a len by simp
  moreover have "ntt_queue_heap_sift_up (?h\<lparr>qh_elems := ?a\<rparr>) (qh_size h) e = ntt_queue_heap_sift_up ?h (qh_size h) e"
    using queue_sift_up_hole [of "qh_size h" ?h "Some e" e] len cap by simp
  ultimately have up: "ntt_queue_heap_sift_up ?h (qh_size h) e = Some (h\<lparr>qh_size := n, qh_elems := map Some ?zs @ rest\<rparr>)"
    by simp
  have "length rest = length (qh_elems h) - (length xs + 1)" by (simp add: rest_def)
  then have "qh_rep (h\<lparr>qh_size := n, qh_elems := map Some ?zs @ rest\<rparr>) ?zs"
    using rep n cap by (simp add: qh_rep_def)
  with up show thesis by (rule that)
qed

lemma queue_push_state:
  assumes env: "env_ok env" and st: "qh_state slab h xs" and n: "length xs + 1 < QH_MAX"
    and known: "unat index < unat (sl_size slab)"
  obtains h' xs' where "ntt_queue_heap_push env h index generation deadline = Some h'" "qh_state slab h' xs'"
    "mset xs' = add_mset \<lparr>qe_deadline = deadline, qe_index = index, qe_generation = generation\<rparr> (mset xs)"
    "qh_tombstones h' = qh_tombstones h"
proof -
  define e where "e = \<lparr>qe_deadline = deadline, qe_index = index, qe_generation = generation\<rparr>"
  have rep: "qh_rep h xs" using st by (simp add: qh_state_def)
  obtain a c where res: "ntt_queue_heap_reserve env h (qh_size h + 1) = Some (h\<lparr>qh_elems := a, qh_capacity := c\<rparr>)"
    and rep1: "qh_rep (h\<lparr>qh_elems := a, qh_capacity := c\<rparr>) xs" and cap: "length xs < length a"
    by (rule queue_reserve_ok [OF env rep n])
  let ?h1 = "h\<lparr>qh_elems := a, qh_capacity := c\<rparr>"
  have s: "unat (qh_size h + 1) = length xs + 1"
    using rep n by (subst unat_add_noflow) (simp_all add: qh_rep_def QH_MAX_def)
  obtain b where up: "ntt_queue_heap_sift_up (?h1\<lparr>qh_size := qh_size h + 1\<rparr>) (qh_size ?h1) e =
      Some (?h1\<lparr>qh_size := qh_size h + 1, qh_elems := b\<rparr>)"
    and rep2: "qh_rep (?h1\<lparr>qh_size := qh_size h + 1, qh_elems := b\<rparr>) (hole_up ntt_queue_heap_less (xs @ [e]) (length xs) e)"
    by (rule queue_push_entry [OF rep1 _ s]) (use cap in simp)
  let ?zs = "hole_up ntt_queue_heap_less (xs @ [e]) (length xs) e"
  have m: "mset ?zs = add_mset e (mset xs)" by (simp add: mset_hole_up)
  have set: "set ?zs = insert e (set xs)" using arg_cong [OF m, of set_mset] by simp
  have push: "ntt_queue_heap_push env h index generation deadline = Some (?h1\<lparr>qh_size := qh_size h + 1, qh_elems := b\<rparr>)"
    using res up by (simp add: ntt_queue_heap_push_def Let_def e_def)
  have "is_heap ntt_queue_heap_less ?zs" using st by (intro queue_order.push_heap) (simp add: qh_state_def)
  then have "qh_state slab (?h1\<lparr>qh_size := qh_size h + 1, qh_elems := b\<rparr>) ?zs"
    using rep2 st n known set by (auto simp: qh_state_def qe_known_def e_def)
  then show thesis by (rule that [OF push]) (simp_all add: m e_def [symmetric])
qed

section \<open>Compaction\<close>

lemma queue_compact_filter_ok:
  assumes slab: "slab_state aligned slab fl"
    and "qh_rep h (fs @ gs @ zs)" "unat pos = length (fs @ gs)" "unat out = length fs" "\<forall>z \<in> set zs. qe_known slab z"
  shows "\<exists>n a gs'. queue_compact_filter env slab h pos out = Some (n, h\<lparr>qh_elems := a\<rparr>) \<and>
    qh_rep (h\<lparr>qh_elems := a\<rparr>) (fs @ filter (qe_live slab) zs @ gs') \<and>
    unat n = length fs + length (filter (qe_live slab) zs)"
  using assms(2-)
proof (induction zs arbitrary: h fs gs pos out)
  case Nil
  then have "\<not> pos < qh_size h" by (simp add: qh_rep_def word_less_nat_alt)
  with Nil show ?case
    by (subst queue_compact_filter.simps) (auto intro!: exI [of _ "qh_elems h"] exI [of _ gs])
next
  case (Cons z zs)
  let ?xs = "fs @ gs @ z # zs"
  have lt: "pos < qh_size h" "unat pos < length ?xs" "unat out < length ?xs" "out < qh_size h"
    using Cons.prems by (auto simp: qh_rep_def word_less_nat_alt)
  have pos1: "unat (pos + 1) = length (fs @ gs) + 1"
    using Cons.prems(2) unat_succ_below lt(1) by (simp add: word_less_nat_alt)
  have at: "arr_read (qh_elems h) pos = Some z"
    using qh_read [OF Cons.prems(1) lt(2)] Cons.prems(2) by (simp add: nth_append)
  have live: "ntt_queue_heap_live env slab z = Some (qe_live slab z)"
    by (rule queue_live_slab [OF slab]) (use Cons.prems(4) in simp)
  show ?case
  proof (cases "qe_live slab z")
    case True
    obtain a where w: "arr_write (qh_elems h) out z = Some a"
      and rep: "qh_rep (h\<lparr>qh_elems := a\<rparr>) (?xs[unat out := z])"
      by (rule qh_write [OF Cons.prems(1) lt(3)])
    have upd: "?xs[unat out := z] = (fs @ [z]) @ tl (gs @ [z]) @ zs"
      using Cons.prems(3) by (cases gs) (simp_all add: list_update_append)
    have out1: "unat (out + 1) = length (fs @ [z])"
      using Cons.prems(3) unat_succ_below lt(4) by (simp add: word_less_nat_alt)
    obtain n b gs' where "queue_compact_filter env slab (h\<lparr>qh_elems := a\<rparr>) (pos + 1) (out + 1) =
        Some (n, h\<lparr>qh_elems := b\<rparr>)"
      "qh_rep (h\<lparr>qh_elems := b\<rparr>) ((fs @ [z]) @ filter (qe_live slab) zs @ gs')"
      "unat n = length (fs @ [z]) + length (filter (qe_live slab) zs)"
      using Cons.IH [of "h\<lparr>qh_elems := a\<rparr>" "fs @ [z]" "tl (gs @ [z])" "pos + 1" "out + 1"]
        rep upd pos1 out1 Cons.prems(4) by auto
    then show ?thesis using True lt at live w
      by (subst queue_compact_filter.simps) auto
  next
    case False
    have "\<exists>n b gs'. queue_compact_filter env slab h (pos + 1) out = Some (n, h\<lparr>qh_elems := b\<rparr>) \<and>
      qh_rep (h\<lparr>qh_elems := b\<rparr>) (fs @ filter (qe_live slab) zs @ gs') \<and>
      unat n = length fs + length (filter (qe_live slab) zs)"
      by (rule Cons.IH [where gs = "gs @ [z]"]) (use Cons.prems pos1 in auto)
    then show ?thesis using False lt at live
      by (subst queue_compact_filter.simps) auto
  qed
qed

lemma queue_compact_rebuild_ok:
  assumes "qh_rep h xs" "unat i \<le> length xs" "length xs < QH_MAX"
  shows "\<exists>a. queue_compact_rebuild h i = Some (h\<lparr>qh_elems := a\<rparr>) \<and>
    qh_rep (h\<lparr>qh_elems := a\<rparr>) (floyd ntt_queue_heap_less xs (unat i))"
  using assms
proof (induction "unat i" arbitrary: i h xs)
  case 0
  then show ?case
    by (subst queue_compact_rebuild.simps) (auto intro!: exI [of _ "qh_elems h"] simp: word_less_nat_alt)
next
  case (Suc k)
  have i: "0 < i" "unat (i - 1) = k" using Suc.hyps(2) unat_pred [of i] by (auto simp: word_less_nat_alt)
  have k: "unat (i - 1) < length xs" using Suc i by simp
  let ?zs = "hole_down ntt_queue_heap_less xs k (xs ! k)"
  define a where "a = map Some ?zs @ drop (length xs) (qh_elems h)"
  have down: "ntt_queue_heap_sift_down h (i - 1) (xs ! k) = Some (h\<lparr>qh_elems := a\<rparr>)"
    using queue_sift_down_eq [OF qh_rep_elems [OF Suc.prems(1)] _ k, of "xs ! k"] Suc.prems(1,3) i
    by (simp add: qh_rep_def QH_MAX_def a_def)
  have rep: "qh_rep (h\<lparr>qh_elems := a\<rparr>) ?zs"
    using Suc.prems(1) qh_rep_fits [OF Suc.prems(1)] by (simp add: qh_rep_def a_def)
  have "\<exists>b. queue_compact_rebuild (h\<lparr>qh_elems := a\<rparr>) (i - 1) = Some (h\<lparr>qh_elems := a, qh_elems := b\<rparr>) \<and>
    qh_rep (h\<lparr>qh_elems := a, qh_elems := b\<rparr>) (floyd ntt_queue_heap_less ?zs (unat (i - 1)))"
    by (rule Suc.hyps(1)) (use rep i k Suc.prems in auto)
  then show ?case using i down qh_read [OF Suc.prems(1) k] Suc.hyps(2)
    by (subst queue_compact_rebuild.simps) (auto simp flip: Suc.hyps(2))
qed

lemma queue_rebuild_heap:
  assumes rep: "qh_rep h ys" and n: "length ys < QH_MAX"
  obtains a zs where "(if qh_size h > 1 then queue_compact_rebuild h (qh_size h div 2) else Some h) =
      Some (h\<lparr>qh_elems := a\<rparr>)" "qh_rep (h\<lparr>qh_elems := a\<rparr>) zs" "is_heap ntt_queue_heap_less zs" "mset zs = mset ys"
proof (cases "qh_size h > 1")
  case True
  let ?zs = "floyd ntt_queue_heap_less ys (length ys div 2)"
  have half: "unat (qh_size h div 2) = length ys div 2" using rep by (simp add: qh_rep_def unat_half)
  then obtain a where "queue_compact_rebuild h (qh_size h div 2) = Some (h\<lparr>qh_elems := a\<rparr>)"
    "qh_rep (h\<lparr>qh_elems := a\<rparr>) ?zs"
    using queue_compact_rebuild_ok [OF rep, of "qh_size h div 2"] n by auto
  then show thesis
    using that [where a = a and zs = ?zs] True queue_order.floyd_half_heap [of ys] by (simp add: mset_floyd)
next
  case False
  then have "length ys \<le> 1" using rep by (simp add: qh_rep_def word_less_nat_alt)
  then have "is_heap ntt_queue_heap_less ys" by (auto simp: heap_from_def)
  then show thesis using that [where a = "qh_elems h" and zs = ys] rep False by simp
qed

lemma queue_compact_state:
  assumes slab: "slab_state aligned slab fl" and st: "qh_state slab h xs"
  obtains h' xs' where "ntt_queue_heap_compact env h slab = Some h'" "qh_state slab h' xs'"
    "standing slab xs' = standing slab xs"
    "h' = h \<and> qh_tombstones h * 2 \<le> qh_size h \<or> qh_tombstones h' = 0 \<and> (\<forall>x \<in> set xs'. qe_live slab x)"
proof (cases "qh_tombstones h * 2 \<le> qh_size h")
  case True
  then show thesis using that [of h xs] st by (simp add: ntt_queue_heap_compact_def)
next
  case False
  let ?ys = "filter (qe_live slab) xs"
  have rep: "qh_rep h xs" and n: "length xs < QH_MAX" and k: "\<forall>x \<in> set xs. qe_known slab x"
    using st by (auto simp: qh_state_def)
  obtain out a gs where filt: "queue_compact_filter env slab h 0 0 = Some (out, h\<lparr>qh_elems := a\<rparr>)"
    and rep1: "qh_rep (h\<lparr>qh_elems := a\<rparr>) (?ys @ gs)" and out: "unat out = length ?ys"
    using queue_compact_filter_ok [OF slab, of h "[]" "[]" xs 0 0 env] rep k by auto
  let ?h2 = "h\<lparr>qh_elems := a, qh_size := out, qh_tombstones := 0\<rparr>"
  have "take (length ?ys) a = map Some ?ys"
    using rep1 take_add_prefix [of "length ?ys" "length gs" a "map Some ?ys" "map Some gs"] by (simp add: qh_rep_def)
  then have rep2: "qh_rep ?h2 ?ys" using rep1 out by (simp add: qh_rep_def)
  have ylen: "length ?ys < QH_MAX" using n length_filter_le le_less_trans by blast
  obtain b zs where rebuilt: "(if qh_size ?h2 > 1 then queue_compact_rebuild ?h2 (qh_size ?h2 div 2)
        else Some ?h2) = Some (?h2\<lparr>qh_elems := b\<rparr>)"
    and rep3: "qh_rep (?h2\<lparr>qh_elems := b\<rparr>) zs" and heap: "is_heap ntt_queue_heap_less zs" and perm: "mset zs = mset ?ys"
    by (rule queue_rebuild_heap [OF rep2 ylen])
  have set: "set zs = set ?ys" using perm by (rule mset_eq_setD)
  have "length zs < QH_MAX" using perm ylen by (metis size_mset)
  then have "qh_state slab (?h2\<lparr>qh_elems := b\<rparr>) zs" using rep3 heap k set by (simp add: qh_state_def)
  moreover have "ntt_queue_heap_compact env h slab = Some (?h2\<lparr>qh_elems := b\<rparr>)"
    using False filt rebuilt by (simp add: ntt_queue_heap_compact_def Let_def)
  moreover have "standing slab zs = standing slab xs" using perm by (simp add: filter_filter_mset)
  ultimately show thesis using that [of "?h2\<lparr>qh_elems := b\<rparr>" zs] set by auto
qed

lemma queue_retire_state:
  assumes slab: "slab_state aligned slab fl" and st: "qh_state slab h xs"
  obtains h' xs' where "ntt_queue_heap_retire env h slab cnt = Some h'" "qh_state slab h' xs'"
    "standing slab xs' = standing slab xs" "qh_tombstones h' \<le> qh_size h'" "qh_tombstones h' * 2 \<le> qh_size h'"
proof -
  let ?h1 = "h\<lparr>qh_tombstones := qh_tombstones h + cnt\<rparr>"
  let ?h2 = "if qh_tombstones ?h1 > qh_size ?h1 then ?h1\<lparr>qh_tombstones := qh_size ?h1\<rparr> else ?h1"
  have st2: "qh_state slab ?h2 xs" using st by simp
  have le: "qh_tombstones ?h2 \<le> qh_size ?h2" by auto
  obtain h' xs' where c: "ntt_queue_heap_compact env ?h2 slab = Some h'" "qh_state slab h' xs'"
    "standing slab xs' = standing slab xs"
    "h' = ?h2 \<and> qh_tombstones ?h2 * 2 \<le> qh_size ?h2 \<or> qh_tombstones h' = 0 \<and> (\<forall>x \<in> set xs'. qe_live slab x)"
    by (rule queue_compact_state [OF slab st2])
  have "ntt_queue_heap_retire env h slab cnt = Some h'"
    using c(1) by (simp only: ntt_queue_heap_retire_def Let_def)
  moreover have "qh_tombstones h' \<le> qh_size h' \<and> qh_tombstones h' * 2 \<le> qh_size h'"
    using c(4)
  proof
    assume h: "h' = ?h2 \<and> qh_tombstones ?h2 * 2 \<le> qh_size ?h2"
    show ?thesis unfolding conjunct1 [OF h] by (intro conjI le conjunct2 [OF h])
  qed simp
  ultimately show thesis using that c(2,3) by blast
qed

lemma queue_any_live_ok:
  assumes slab: "slab_state aligned slab fl" and st: "qh_state slab h xs" and p: "unat pos \<le> length xs"
  shows "queue_heap_any_live env slab h pos = Some (\<exists>x \<in> set (drop (unat pos) xs). qe_live slab x)"
  using p
proof (induction "length xs - unat pos" arbitrary: pos rule: less_induct)
  case less
  have rep: "qh_rep h xs" using st by (simp add: qh_state_def)
  show ?case
  proof (cases "unat pos < length xs")
    case False
    then show ?thesis using rep by (subst queue_heap_any_live.simps) (simp add: word_less_nat_alt qh_rep_def)
  next
    case True
    let ?x = "xs ! unat pos"
    have s: "unat (pos + 1) = unat pos + 1"
      using unat_succ_below [of pos "qh_size h"] True rep by (simp add: qh_rep_def)
    have dr: "drop (unat pos) xs = ?x # drop (unat pos + 1) xs" using True by (simp add: Cons_nth_drop_Suc)
    have "ntt_queue_heap_live env slab ?x = Some (qe_live slab ?x)"
      using st True by (intro queue_live_slab [OF slab]) (simp add: qh_state_def)
    moreover have "queue_heap_any_live env slab h (pos + 1) = Some (\<exists>x \<in> set (drop (unat pos + 1) xs). qe_live slab x)"
      using less.hyps [of "pos + 1"] s True by simp
    ultimately show ?thesis
      using True rep qh_read [OF rep True] unfolding dr
      by (subst queue_heap_any_live.simps) (simp add: word_less_nat_alt qh_rep_def)
  qed
qed

lemma queue_heap_init_state: "qh_state slab ntt_queue_heap_init []"
  by (simp add: qh_state_def qh_rep_def ntt_queue_heap_init_def heap_from_def QH_MAX_def)

end
