(* ===== verification/Slab_Props.thy ===== *)
theory Slab_Props
  imports Slab_Inv
begin

text \<open>
  The properties of the slab, with instances on a slab of objects of 256 bytes whose blocks an
  allocator places \<open>2 ^ 40\<close> bytes apart.
\<close>

section \<open>A slab to evaluate on\<close>

definition apart_alloc :: aligned_alloc where
  "apart_alloc k n = Some (push_bit 40 (ucast k + 1))"

definition slab0 :: ntt_slab where
  "slab0 = ntt_slab_init 200"

text \<open>Two objects, taken one after the other.\<close>

definition slab2 :: ntt_slab where
  "slab2 = snd (the (ntt_slab_take apart_alloc (snd (the (ntt_slab_take apart_alloc slab0)))))"

lemma slab0_stride [simp]: "sl_stride slab0 = 256"
  by code_simp

lemma apart_base:
  assumes "unat k \<le> 26"
  shows "unat (push_bit 40 (ucast (k :: u32) + 1) :: u64) = 1099511627776 * (unat k + 1)"
proof -
  have k1: "unat (ucast k + 1 :: u64) = unat k + 1" using assms by (subst unat_add64_noflow) simp_all
  have "push_bit 40 (ucast k + 1 :: u64) = 1099511627776 * (ucast k + 1)"
    by (simp add: push_bit_eq_mult mult.commute)
  then show ?thesis using assms k1 by (simp only:) (subst unat_mult_lem [THEN iffD1]; simp)
qed

lemma apart_bytes:
  assumes "unat k \<le> 26"
  shows "unat (block_bytes 256 k) < 1099511627776"
proof (cases "unat k \<le> 25")
  case True
  have "(2 :: nat) ^ unat k \<le> 2 ^ 25" using True by (intro power_increasing) auto
  then show ?thesis using unat_block_bytes [OF True, of 256] by simp
next
  case False
  then have "unat k = unat (26 :: u32)" using assms by simp
  then have "k = 26" by (simp only: unat_eq_iff)
  then have "block_bytes 256 k = 16128"
    by (simp add: block_bytes_def NTT_SLAB_FULL_BLOCKS_def NTT_SLAB_LAST_BLOCK_LEN_def
        NTT_FIRST_SLAB_BLOCK_LEN_def NTT_FIRST_SLAB_BLOCK_LEN_LOG2_def)
  then show ?thesis by simp
qed

lemma apart_alloc_ok: "alloc_ok apart_alloc 256"
proof -
  have "unat (push_bit 40 (ucast k + 1) :: u64) + unat (block_bytes 256 k) < 18446744073709551616"
    if "unat k \<le> 26" for k :: u32
  proof -
    have "1099511627776 * (unat k + 1) \<le> 1099511627776 * 27" using that by (intro mult_le_mono2) simp
    then show ?thesis using apart_base [OF that] apart_bytes [OF that] by simp
  qed
  moreover have "unat (push_bit 40 (ucast k + 1) :: u64) + unat (block_bytes 256 k) \<le> unat (push_bit 40 (ucast l + 1) :: u64) \<or>
      unat (push_bit 40 (ucast l + 1) :: u64) + unat (block_bytes 256 l) \<le> unat (push_bit 40 (ucast k + 1) :: u64)"
    if "unat k \<le> 26" "unat l \<le> 26" "k \<noteq> l" for k l :: u32
  proof -
    have "unat k \<noteq> unat l" using that(3) by simp
    then consider "unat k + 1 \<le> unat l" | "unat l + 1 \<le> unat k" by linarith
    then show ?thesis
      using apart_base [OF that(1)] apart_base [OF that(2)] apart_bytes [OF that(1)] apart_bytes [OF that(2)]
      by cases simp_all
  qed
  ultimately show ?thesis unfolding alloc_ok_def apart_alloc_def by (metis option.inject)
qed

lemma slab0_state: "slab_state apart_alloc slab0 []"
  unfolding slab0_def by (rule slab_init_state) (use apart_alloc_ok slab0_stride in \<open>simp_all add: slab0_def\<close>)

lemma slab0_room: "slab_room slab0"
  by (simp add: slab_room_def) (simp add: slab0_def ntt_slab_init_def)

section \<open>Addressing\<close>

text \<open>
  The block computed for an index, from the position of the highest bit, is the one that holds
  it: every 32-bit index falls between the first slot of its block and the first slot of the next,
  and the block table has an entry for it.
\<close>

theorem slab_block_of_holds:
  "unat (ntt_slab_block_of i) < unat NTT_SLAB_BLOCKS \<and>
   unat (ntt_slab_block_first (ntt_slab_block_of i)) \<le> unat i \<and>
   unat i < unat (ntt_slab_block_first (ntt_slab_block_of i)) + 64 * 2 ^ unat (ntt_slab_block_of i)"
proof -
  have "unat NTT_SLAB_BLOCKS = 27"
    by (simp add: NTT_SLAB_BLOCKS_def NTT_SLAB_FULL_BLOCKS_def NTT_SLAB_LAST_BLOCK_LEN_def
        NTT_FIRST_SLAB_BLOCK_LEN_def NTT_FIRST_SLAB_BLOCK_LEN_LOG2_def)
  then show ?thesis
    using block_of_range(1) [of i] block_of_holds [of i] unat_block_first [OF block_of_range(1) [of i]]
    by (simp add: block_start_Suc)
qed

text \<open>
  C37. Objects of different slots never overlap: their addresses are at least a stride apart, within
  a block and across blocks, as long as the slots handed out span less than \<open>2 ^ 32\<close> bytes.
\<close>

theorem slab_objects_apart:
  assumes "slab_state aligned s fl" "unat i < unat (sl_size s)" "unat j < unat (sl_size s)" "i \<noteq> j"
  shows "\<exists>p q. ntt_slab_at env s i = Some p \<and> ntt_slab_at env s j = Some q \<and>
    (unat p + unat (sl_stride s) \<le> unat q \<or> unat q + unat (sl_stride s) \<le> unat p)"
  using slot_addr_apart [OF _ _ assms(2-4)] assms(1) slab_at_state(2) [OF assms(1,2)]
    slab_at_state(2) [OF assms(1,3)] by (auto simp: slab_state_def)

lemma slab2_state: "slab_state apart_alloc slab2 []" "sl_size slab2 = 2"
proof -
  obtain i s1 where s1: "ntt_slab_take apart_alloc slab0 = Some (slot_addr s1 i, s1)"
    "slab_state apart_alloc s1 []" "sl_size s1 = sl_size slab0 + 1" "sl_stride s1 = sl_stride slab0"
    by (rule take_extend [OF slab0_state slab0_room])
  have n0: "sl_size slab0 = 0" by (simp add: slab0_def ntt_slab_init_def)
  have "slab_room s1" using s1(3,4) n0 by (simp add: slab_room_def)
  then obtain j s2 where s2: "ntt_slab_take apart_alloc s1 = Some (slot_addr s2 j, s2)"
    "slab_state apart_alloc s2 []" "sl_size s2 = sl_size s1 + 1"
    by (rule take_extend [OF s1(2)])
  have "slab2 = s2" using s1(1) s2(1) by (simp add: slab2_def)
  then show "slab_state apart_alloc slab2 []" "sl_size slab2 = 2" using s2 s1(3) n0 by simp_all
qed

theorem slab_objects_apart_witness:
  "\<exists>p q. ntt_slab_at \<lparr>ndebug = False, can_alloc = (\<lambda>_. True)\<rparr> slab2 0 = Some p \<and>
     ntt_slab_at \<lparr>ndebug = False, can_alloc = (\<lambda>_. True)\<rparr> slab2 1 = Some q \<and>
    (unat p + unat (sl_stride slab2) \<le> unat q \<or> unat q + unat (sl_stride slab2) \<le> unat p)"
  by (rule slab_objects_apart [OF slab2_state(1)]) (simp_all add: slab2_state(2))

text \<open>
  C38. The offset of an object is computed in 32 bits: once a block spans more than \<open>2 ^ 32\<close> bytes, two
  of its indices whose distance times the stride is a multiple of \<open>2 ^ 32\<close> resolve to the same
  object, although both are below the capacity.
\<close>

theorem slab_offset_wraps:
  assumes "d * sl_stride s = 0" "ntt_slab_block_of (i + d) = ntt_slab_block_of i"
  shows "ntt_slab_fresh_at s (i + d) = ntt_slab_fresh_at s i"
proof -
  have "(i + d - f) * sl_stride s = (i - f) * sl_stride s" for f
    using assms(1) by (simp add: algebra_simps)
  then show ?thesis by (simp add: ntt_slab_fresh_at_def assms(2))
qed

theorem slab_offset_wraps_witness:
  "ntt_slab_fresh_at slab0 (0x1FFFFC0 + 0x1000000) = ntt_slab_fresh_at slab0 0x1FFFFC0"
proof (rule slab_offset_wraps)
  show "0x1000000 * sl_stride slab0 = 0" by code_simp
  show "ntt_slab_block_of (0x1FFFFC0 + 0x1000000) = ntt_slab_block_of 0x1FFFFC0" by code_simp
qed

section \<open>Taking and giving\<close>

text \<open>
  Taking a slot succeeds while there is room, returns an object whose head carries the index of a
  slot nobody uses, and neither moves nor changes the generation of any slot handed out before.
\<close>

theorem slab_take_fresh:
  assumes "slab_state aligned s fl" "fl \<noteq> [] \<or> slab_room s"
  shows "\<exists>i p s' fl'. ntt_slab_take aligned s = Some (p, s') \<and> slab_state aligned s' fl' \<and>
    ntt_slab_at env s' i = Some p \<and> ntt_slab_index s' p = Some i \<and> i \<notin> slab_live s fl \<and>
    slab_live s' fl' = insert i (slab_live s fl) \<and>
    (\<forall>j. unat j < unat (sl_size s) \<longrightarrow>
       ntt_slab_at env s' j = ntt_slab_at env s j \<and> slab_gen s' j = slab_gen s j)"
proof -
  obtain i s' fl' where r: "ntt_slab_take aligned s = Some (slot_addr s' i, s')" "slab_state aligned s' fl'"
    "ntt_slab_index s' (slot_addr s' i) = Some i" "i \<notin> slab_live s fl"
    "slab_live s' fl' = insert i (slab_live s fl)" "sl_stride s' = sl_stride s"
    "\<forall>j. unat j < unat (sl_size s) \<longrightarrow> slot_addr s' j = slot_addr s j \<and> slab_gen s' j = slab_gen s j"
    "sl_size s \<le> sl_size s'"
    by (rule slab_take_state [OF assms])
  have "i \<in> slab_live s' fl'" using r(5) by simp
  then have i: "unat i < unat (sl_size s')" by (simp add: slab_live_def)
  have "ntt_slab_at env s' j = ntt_slab_at env s j" if j: "unat j < unat (sl_size s)" for j
  proof -
    have "unat j < unat (sl_size s')" using j r(8) by (simp add: word_le_nat_alt)
    then show ?thesis using slab_at_state(2) [OF r(2)] slab_at_state(2) [OF assms(1) j] r(7) j by simp
  qed
  then show ?thesis using r slab_at_state(2) [OF r(2) i] by blast
qed

theorem slab_take_fresh_witness:
  "\<exists>i p s' fl'. ntt_slab_take apart_alloc slab0 = Some (p, s') \<and> slab_state apart_alloc s' fl' \<and>
    ntt_slab_at \<lparr>ndebug = False, can_alloc = (\<lambda>_. True)\<rparr> s' i = Some p \<and> ntt_slab_index s' p = Some i \<and>
    i \<notin> slab_live slab0 [] \<and> slab_live s' fl' = insert i (slab_live slab0 []) \<and>
    (\<forall>j. unat j < unat (sl_size slab0) \<longrightarrow>
       ntt_slab_at \<lparr>ndebug = False, can_alloc = (\<lambda>_. True)\<rparr> s' j =
         ntt_slab_at \<lparr>ndebug = False, can_alloc = (\<lambda>_. True)\<rparr> slab0 j \<and> slab_gen s' j = slab_gen slab0 j)"
  by (rule slab_take_fresh [OF slab0_state]) (simp add: slab0_room)

text \<open>
  Giving a slot back makes it vacant, changes its generation, so that a reference that remembers
  the old one is recognised as stale, and leaves every other slot in use as it is.
\<close>

theorem slab_give_stale:
  assumes "slab_state aligned s fl" "i \<in> slab_live s fl"
  shows "\<exists>s' p g g'. ntt_slab_give env s i = Some s' \<and> slab_state aligned s' (i # fl) \<and>
    slab_live s' (i # fl) = slab_live s fl - {i} \<and> ntt_slab_at env s i = Some p \<and>
    ntt_slab_generation s p = Some g \<and> ntt_slab_generation s' p = Some g' \<and> g' \<noteq> g \<and>
    (\<forall>j \<in> slab_live s fl - {i}. slab_gen s' j = slab_gen s j)"
proof -
  obtain s' where s': "ntt_slab_give env s i = Some s'" "slab_state aligned s' (i # fl)" "sl_size s' = sl_size s"
    "\<forall>j. slot_addr s' j = slot_addr s j" "slab_gen s' i = slab_gen s i + 1"
    "\<forall>j. unat j < unat (sl_size s) \<longrightarrow> j \<noteq> i \<longrightarrow> slab_gen s' j = slab_gen s j"
    by (rule give_state [OF assms])
  have i: "unat i < unat (sl_size s)" using assms(2) by (simp add: slab_live_def)
  obtain h h' where "sl_mem s (slot_addr s i) = Some h" "sl_mem s' (slot_addr s i) = Some h'"
    using assms(1) s'(2,3,4) i by (fastforce simp: slab_state_def)
  moreover from this have "(ucast (sh_generation h') :: u32) \<noteq> ucast (sh_generation h)"
    using s'(4,5) ucast_succ_neq by (simp add: slab_gen_def)
  moreover have "slab_live s' (i # fl) = slab_live s fl - {i}" using s'(3) by (auto simp: slab_live_def)
  ultimately show ?thesis
    using s' slab_at_state(2) [OF assms(1) i] by (auto simp: ntt_slab_generation_def slab_live_def)
qed

theorem slab_give_stale_witness:
  "\<exists>s' p g g'. ntt_slab_give \<lparr>ndebug = False, can_alloc = (\<lambda>_. True)\<rparr> slab2 1 = Some s' \<and>
    slab_state apart_alloc s' [1] \<and> slab_live s' [1] = slab_live slab2 [] - {1} \<and>
    ntt_slab_at \<lparr>ndebug = False, can_alloc = (\<lambda>_. True)\<rparr> slab2 1 = Some p \<and>
    ntt_slab_generation slab2 p = Some g \<and> ntt_slab_generation s' p = Some g' \<and> g' \<noteq> g \<and>
    (\<forall>j \<in> slab_live slab2 [] - {1}. slab_gen s' j = slab_gen slab2 j)"
  by (rule slab_give_stale [OF slab2_state(1)]) (simp add: slab_live_def slab2_state(2))

text \<open>
  Slots taken one after the other are different from each other and from every slot in use.
\<close>

theorem slab_takes_distinct:
  assumes "slab_handles aligned s L"
  shows "\<exists>is s'. handle_store.take_many slab_room (slab_take_index aligned) n s = Some (is, s') \<and>
    distinct is \<and> set is \<inter> L = {} \<and> slab_handles aligned s' (set is \<union> L)"
  using slab.take_many_distinct [OF assms, of n] by blast

theorem slab_takes_distinct_witness:
  "\<exists>is s'. handle_store.take_many slab_room (slab_take_index apart_alloc) 3 slab0 = Some (is, s') \<and>
    distinct is \<and> set is \<inter> slab_live slab0 [] = {} \<and> slab_handles apart_alloc s' (set is \<union> slab_live slab0 [])"
  by (rule slab_takes_distinct) (use slab0_state in \<open>auto simp: slab_handles_def\<close>)

end
