(* ===== verification/Queue_Heap_Props.thy ===== *)
theory Queue_Heap_Props
  imports Queue_Heap_Inv Slab_Props
begin

text \<open>
  The properties of the heap of registrations, with instances on the slab with two objects of
  \<open>Slab_Props\<close> and a heap with one registration.
\<close>

section \<open>A heap to evaluate on\<close>

definition rel_env :: env where
  "rel_env = \<lparr>ndebug = True, can_alloc = (\<lambda>_. True)\<rparr>"

definition one_queue :: ntt_queue_heap where
  "one_queue = the (ntt_queue_heap_push rel_env ntt_queue_heap_init 1 1 30)"

lemma rel_env_ok [simp]: "env_ok rel_env"
  by (simp add: rel_env_def env_ok_def)

lemma one_queue_state:
  "qh_state slab2 one_queue [\<lparr>qe_deadline = 30, qe_index = 1, qe_generation = 1\<rparr>]"
proof -
  obtain h xs where h: "ntt_queue_heap_push rel_env ntt_queue_heap_init 1 1 30 = Some h" "qh_state slab2 h xs"
    "mset xs = add_mset \<lparr>qe_deadline = 30, qe_index = 1, qe_generation = 1\<rparr> (mset [])"
    by (rule queue_push_state [OF rel_env_ok queue_heap_init_state [of slab2],
        where index = 1 and generation = 1 and deadline = 30])
      (simp_all add: QH_MAX_def slab2_state(2))
  then have "xs = [\<lparr>qe_deadline = 30, qe_index = 1, qe_generation = 1\<rparr>]" by simp
  then show ?thesis using h by (simp add: one_queue_def)
qed

section \<open>Registrations\<close>

text \<open>
  Pushing a registration of a slot of the slab adds exactly that entry to the heap, whatever the
  capacity was.
\<close>

theorem queue_heap_push_registers:
  assumes "env_ok env" "qh_state slab h xs" "length xs + 1 < QH_MAX" "unat index < unat (sl_size slab)"
  shows "\<exists>h' xs'. ntt_queue_heap_push env h index generation deadline = Some h' \<and> qh_state slab h' xs' \<and>
    mset xs' = add_mset \<lparr>qe_deadline = deadline, qe_index = index, qe_generation = generation\<rparr> (mset xs)"
  by (rule queue_push_state [OF assms]) blast

theorem queue_heap_push_registers_witness:
  "\<exists>h' xs'. ntt_queue_heap_push rel_env one_queue 0 1 20 = Some h' \<and> qh_state slab2 h' xs' \<and>
    mset xs' = add_mset \<lparr>qe_deadline = 20, qe_index = 0, qe_generation = 1\<rparr>
      (mset [\<lparr>qe_deadline = 30, qe_index = 1, qe_generation = 1\<rparr>])"
  by (rule queue_heap_push_registers [OF rel_env_ok one_queue_state]) (simp_all add: QH_MAX_def slab2_state(2))

text \<open>
  Taking an expired registration returns one that still stands, whose deadline has passed and is
  the earliest of the standing ones, and removes it; it returns nothing exactly when no standing
  registration has expired. No other standing registration is lost, and retired ones are never
  returned.
\<close>

theorem queue_heap_take_earliest:
  assumes "slab_state aligned slab fl" "qh_state slab h xs"
  shows "\<exists>r h' xs'. ntt_queue_heap_take_expired env h slab now = Some (r, h') \<and> qh_state slab h' xs' \<and>
    (case r of
       None \<Rightarrow> standing slab xs' = standing slab xs \<and> (\<forall>x \<in># standing slab xs. now < qe_deadline x)
     | Some e \<Rightarrow> e \<in># standing slab xs \<and> standing slab xs' = standing slab xs - {#e#} \<and>
         qe_deadline e \<le> now \<and> (\<forall>x \<in># standing slab xs. qe_deadline e \<le> qe_deadline x))"
  by (rule queue_take_expired_state [OF assms]) blast

theorem queue_heap_take_earliest_witness:
  "\<exists>r h' xs'. ntt_queue_heap_take_expired rel_env one_queue slab2 40 = Some (r, h') \<and> qh_state slab2 h' xs' \<and>
    (case r of
       None \<Rightarrow> standing slab2 xs' = standing slab2 [\<lparr>qe_deadline = 30, qe_index = 1, qe_generation = 1\<rparr>] \<and>
         (\<forall>x \<in># standing slab2 [\<lparr>qe_deadline = 30, qe_index = 1, qe_generation = 1\<rparr>]. 40 < qe_deadline x)
     | Some e \<Rightarrow> e \<in># standing slab2 [\<lparr>qe_deadline = 30, qe_index = 1, qe_generation = 1\<rparr>] \<and>
         standing slab2 xs' = standing slab2 [\<lparr>qe_deadline = 30, qe_index = 1, qe_generation = 1\<rparr>] - {#e#} \<and>
         qe_deadline e \<le> 40 \<and>
         (\<forall>x \<in># standing slab2 [\<lparr>qe_deadline = 30, qe_index = 1, qe_generation = 1\<rparr>].
            qe_deadline e \<le> qe_deadline x))"
  by (rule queue_heap_take_earliest [OF slab2_state(1) one_queue_state])

text \<open>
  Retiring registrations keeps every one that still stands, whatever the count handed over is,
  and afterwards at most half of the entries are counted as tombstones.
\<close>

theorem queue_heap_retire_keeps:
  assumes "slab_state aligned slab fl" "qh_state slab h xs"
  shows "\<exists>h' xs'. ntt_queue_heap_retire env h slab cnt = Some h' \<and> qh_state slab h' xs' \<and>
    standing slab xs' = standing slab xs \<and> qh_tombstones h' \<le> qh_size h' \<and>
    qh_tombstones h' * 2 \<le> qh_size h'"
  by (rule queue_retire_state [OF assms]) blast

theorem queue_heap_retire_keeps_witness:
  "\<exists>h' xs'. ntt_queue_heap_retire rel_env one_queue slab2 1 = Some h' \<and> qh_state slab2 h' xs' \<and>
    standing slab2 xs' = standing slab2 [\<lparr>qe_deadline = 30, qe_index = 1, qe_generation = 1\<rparr>] \<and>
    qh_tombstones h' \<le> qh_size h' \<and> qh_tombstones h' * 2 \<le> qh_size h'"
  by (rule queue_heap_retire_keeps [OF slab2_state(1) one_queue_state])

text \<open>
  The top of the heap is the earliest deadline of all its entries, retired ones included: never
  later than the deadline of a standing registration.
\<close>

theorem queue_heap_top_earliest:
  assumes "qh_state slab h xs"
  shows "\<exists>r. ntt_queue_heap_top h = Some r \<and>
    (case r of None \<Rightarrow> xs = []
     | Some d \<Rightarrow> d \<in> qe_deadline ` set xs \<and> (\<forall>x \<in> set xs. d \<le> qe_deadline x))"
proof (cases "xs = []")
  case True
  then show ?thesis using assms by (simp add: ntt_queue_heap_top_def qh_state_def qh_rep_def)
next
  case False
  have "xs ! 0 \<in> set xs" using False by simp
  then show ?thesis
    using queue_root [OF assms False] queue_root_earliest [OF assms]
    by (auto simp: ntt_queue_heap_top_def word_gt_0)
qed

theorem queue_heap_top_earliest_witness:
  "\<exists>r. ntt_queue_heap_top one_queue = Some r \<and>
    (case r of None \<Rightarrow> [\<lparr>qe_deadline = 30, qe_index = 1, qe_generation = 1\<rparr>] = []
     | Some d \<Rightarrow> d \<in> qe_deadline ` set [\<lparr>qe_deadline = 30, qe_index = 1, qe_generation = 1\<rparr>] \<and>
         (\<forall>x \<in> set [\<lparr>qe_deadline = 30, qe_index = 1, qe_generation = 1\<rparr>]. d \<le> qe_deadline x))"
  by (rule queue_heap_top_earliest [OF one_queue_state])

text \<open>
  The check for a standing registration finds one exactly when there is one.
\<close>

theorem queue_heap_has_live_iff:
  assumes "slab_state aligned slab fl" "qh_state slab h xs"
  shows "ntt_queue_heap_has_live env h slab = Some (\<exists>x \<in> set xs. qe_live slab x)"
  using queue_any_live_ok [OF assms, of 0] by (simp add: ntt_queue_heap_has_live_def)

theorem queue_heap_has_live_iff_witness:
  "ntt_queue_heap_has_live rel_env one_queue slab2 =
     Some (\<exists>x \<in> set [\<lparr>qe_deadline = 30, qe_index = 1, qe_generation = 1\<rparr>]. qe_live slab2 x)"
  by (rule queue_heap_has_live_iff [OF slab2_state(1) one_queue_state])

end
