(* ===== verification/Event.thy ===== *)
theory Event
  imports Slab
begin

text \<open>
  The events of a loop: \<open>src/src/event.h\<close>, \<open>src/src/event.c\<close> and \<open>src/include/ntt/event.h\<close>.

  An event lives in a slot of the event slab; the record \<open>ntt_event\<close> is one such slot, with the
  generation of its slab head. What differs between threads is made explicit: every call of the
  interface and every task of a queue is a job, and \<open>ev_job_step\<close> carries a job through its next
  atomic access. The operations on the packed state word are the words of the code; a
  compare-exchange loop is one atomic step, and the loops themselves are modelled next to it with
  the values they may see.

  User callbacks and the calls into the loop, its slab and the queues are log entries, in the order
  the code makes them. Whether a side has a queue is all that the event needs to know of it:
  \<open>False\<close> stands for a \<open>NULL\<close> queue.
\<close>

section \<open>Sides and masks\<close>

datatype ntt_interest = NTT_INTEREST_READABLE | NTT_INTEREST_WRITABLE

fun interest_bits :: "ntt_interest \<Rightarrow> u32" where
  "interest_bits NTT_INTEREST_READABLE = 1"
| "interest_bits NTT_INTEREST_WRITABLE = 2"

definition NTT_EVENT_SIDES :: nat where
  "NTT_EVENT_SIDES = 2"

definition NTT_EVENT_SIDE_READY :: u32 where
  "NTT_EVENT_SIDE_READY = 1"

definition NTT_EVENT_SIDE_BUSY :: u32 where
  "NTT_EVENT_SIDE_BUSY = 2"

definition NTT_EVENT_SIDE_BITS :: nat where
  "NTT_EVENT_SIDE_BITS = 2"

definition NTT_EVENT_CLOSED :: u32 where
  "NTT_EVENT_CLOSED = push_bit (NTT_EVENT_SIDES * NTT_EVENT_SIDE_BITS) 1"

definition NTT_EVENT_WORK :: u8 where
  "NTT_EVENT_WORK = 1"

definition NTT_EVENT_SERIAL :: u8 where
  "NTT_EVENT_SERIAL = 2"

text \<open>The masks of \<open>epoll\<close>.\<close>

definition EPOLLIN :: u32 where "EPOLLIN = 0x001"
definition EPOLLOUT :: u32 where "EPOLLOUT = 0x004"
definition EPOLLERR :: u32 where "EPOLLERR = 0x008"
definition EPOLLHUP :: u32 where "EPOLLHUP = 0x010"
definition EPOLLET :: u32 where "EPOLLET = 0x80000000"

definition ntt_event_side_index :: "ntt_interest \<Rightarrow> nat" where
  "ntt_event_side_index side = (if side = NTT_INTEREST_READABLE then 0 else 1)"

definition ntt_event_side_shift :: "ntt_interest \<Rightarrow> nat" where
  "ntt_event_side_shift side = ntt_event_side_index side * NTT_EVENT_SIDE_BITS"

definition ntt_event_side_state :: "u32 \<Rightarrow> u32 \<Rightarrow> u32" where
  "ntt_event_side_state sides bits = (
     let state = 0;
         state = (if sides AND interest_bits NTT_INTEREST_READABLE \<noteq> 0
                  then state OR push_bit (ntt_event_side_shift NTT_INTEREST_READABLE) bits else state);
         state = (if sides AND interest_bits NTT_INTEREST_WRITABLE \<noteq> 0
                  then state OR push_bit (ntt_event_side_shift NTT_INTEREST_WRITABLE) bits else state)
     in state)"

definition ntt_event_sides_of :: "u32 \<Rightarrow> u32 \<Rightarrow> u32" where
  "ntt_event_sides_of events interest = (
     let sides = 0;
         sides = (if events AND (EPOLLIN OR EPOLLERR OR EPOLLHUP) \<noteq> 0
                  then sides OR interest_bits NTT_INTEREST_READABLE else sides);
         sides = (if events AND (EPOLLOUT OR EPOLLERR OR EPOLLHUP) \<noteq> 0
                  then sides OR interest_bits NTT_INTEREST_WRITABLE else sides)
     in sides AND interest)"

section \<open>Handles\<close>

definition ntt_event_handle_index :: "u64 \<Rightarrow> u32" where
  "ntt_event_handle_index handle = ucast handle"

definition ntt_event_handle_generation :: "u64 \<Rightarrow> u32" where
  "ntt_event_handle_generation handle = ucast (drop_bit 32 handle)"

text \<open>The handle of the event in slot \<open>index\<close> at the given generation.\<close>

definition ntt_event_handle_of :: "u32 \<Rightarrow> u32 \<Rightarrow> u64" where
  "ntt_event_handle_of index generation = ucast index OR push_bit 32 (ucast generation)"

section \<open>Events\<close>

text \<open>
  \<open>ev_index\<close> and \<open>ev_generation\<close> are in the slab head of the slot, \<open>ev_open\<close> says that it is taken. \<open>ev_read_queue\<close> and \<open>ev_write_queue\<close> say which entries of
  \<open>queues\<close> are not \<open>NULL\<close>, \<open>ev_rc\<close> and \<open>ev_wc\<close> which of the two cancelled callbacks are given.
\<close>

record ntt_event =
  ev_index :: u32
  ev_generation :: u32
  ev_open :: bool
  ev_read_queue :: bool
  ev_write_queue :: bool
  ev_rc :: bool
  ev_wc :: bool
  ev_refs :: u32
  ev_state :: u32
  ev_interest :: u8
  ev_flags :: u8

definition ev_queue :: "ntt_event \<Rightarrow> ntt_interest \<Rightarrow> bool" where
  "ev_queue self side = (if ntt_event_side_index side = 0 then ev_read_queue self else ev_write_queue self)"

text \<open>What an event is started with.\<close>

record ntt_event_params =
  pa_readable :: bool
  pa_writable :: bool
  pa_rc :: bool
  pa_wc :: bool
  pa_interest :: u32
  pa_read_queue :: bool
  pa_write_queue :: bool
  pa_same_loop :: bool

section \<open>The packed state\<close>

text \<open>
  One attempt at the compare-exchange of each loop: \<open>None\<close> when the loop gives up with \<open>0\<close>, otherwise
  the result and the word it tries to store over the word it has seen.
\<close>

definition claim_next :: "ntt_interest \<Rightarrow> u32 \<Rightarrow> u32 option" where
  "claim_next side state = (
     let shift = ntt_event_side_shift side;
         ready = push_bit shift NTT_EVENT_SIDE_READY;
         busy = push_bit shift NTT_EVENT_SIDE_BUSY
     in if state AND ready = 0 \<or> state AND (busy OR NTT_EVENT_CLOSED) \<noteq> 0 then None
        else Some ((state AND NOT ready) OR busy))"

definition leave_next :: "ntt_interest \<Rightarrow> u32 \<Rightarrow> bool \<times> u32" where
  "leave_next side state = (
     let shift = ntt_event_side_shift side;
         ready = push_bit shift NTT_EVENT_SIDE_READY;
         busy = push_bit shift NTT_EVENT_SIDE_BUSY;
         again = (state AND ready \<noteq> 0 \<and> state AND NTT_EVENT_CLOSED = 0)
     in (again, if again then state AND NOT ready else state AND NOT (ready OR busy)))"

definition acquire_next :: "u32 \<Rightarrow> u32 option" where
  "acquire_next refs = (if refs = 0 then None else Some (refs + 1))"

text \<open>
  The loops, given what the memory holds at each attempt and whether the attempt fails spuriously.
  The result is the value returned, the last value of the memory seen, and the value stored, if any;
  \<open>None\<close> when the attempts run out.
\<close>

fun claim_loop :: "ntt_interest \<Rightarrow> u32 \<Rightarrow> (u32 \<times> bool) list \<Rightarrow> (bool \<times> u32 \<times> u32 option) option" where
  "claim_loop side state mems =
     (case claim_next side state of
        None \<Rightarrow> Some (False, state, None)
      | Some new \<Rightarrow>
          (case mems of [] \<Rightarrow> None
           | (mem, spurious) # rest \<Rightarrow>
               if mem = state \<and> \<not> spurious then Some (True, mem, Some new)
               else claim_loop side mem rest))"

fun leave_loop :: "ntt_interest \<Rightarrow> u32 \<Rightarrow> (u32 \<times> bool) list \<Rightarrow> (bool \<times> u32 \<times> u32 option) option" where
  "leave_loop side state [] = None"
| "leave_loop side state ((mem, spurious) # rest) =
     (let (again, new) = leave_next side state in
      if mem = state \<and> \<not> spurious then Some (again, mem, Some new)
      else leave_loop side mem rest)"

fun acquire_loop :: "u32 \<Rightarrow> (u32 \<times> bool) list \<Rightarrow> (bool \<times> u32 \<times> u32 option) option" where
  "acquire_loop refs mems =
     (case acquire_next refs of
        None \<Rightarrow> Some (False, refs, None)
      | Some new \<Rightarrow>
          (case mems of [] \<Rightarrow> None
           | (mem, spurious) # rest \<Rightarrow>
               if mem = refs \<and> \<not> spurious then Some (True, mem, Some new)
               else acquire_loop mem rest))"

text \<open>The same, as one atomic step.\<close>

definition ntt_event_claim_side :: "ntt_event \<Rightarrow> ntt_interest \<Rightarrow> bool \<times> ntt_event" where
  "ntt_event_claim_side self side =
     (case claim_next side (ev_state self) of
        None \<Rightarrow> (False, self)
      | Some state \<Rightarrow> (True, self\<lparr>ev_state := state\<rparr>))"

definition ntt_event_leave_side :: "ntt_event \<Rightarrow> ntt_interest \<Rightarrow> bool \<times> ntt_event" where
  "ntt_event_leave_side self side =
     (let (again, state) = leave_next side (ev_state self) in (again, self\<lparr>ev_state := state\<rparr>))"

definition ntt_event_acquire_if_live :: "ntt_event \<Rightarrow> bool \<times> ntt_event" where
  "ntt_event_acquire_if_live self =
     (case acquire_next (ev_refs self) of
        None \<Rightarrow> (False, self)
      | Some refs \<Rightarrow> (True, self\<lparr>ev_refs := refs\<rparr>))"

section \<open>Jobs\<close>

datatype ev_call = EvDispatch u32 | EvCancel

datatype ev_ret = RetDispatch | RetCancel | RetTask | RetStale

text \<open>
  Where a thread or a task is. Every job but \<open>JCancelled\<close> holds references of the event.
  \<open>JRun side k\<close> is a handler that runs: in a task, or for \<open>k = Some rest\<close> inside a dispatch that has
  the sides \<open>rest\<close> still to deliver.
\<close>

datatype ev_job =
    JLive u64 ev_call
  | JPublish u64 u32
  | JDeliver u64 "ntt_interest list"
  | JPost u64 ntt_interest "ntt_interest list"
  | JPlain u64 "ntt_interest list"
  | JTask ntt_interest
  | JRun u64 ntt_interest "ntt_interest list option"
  | JDrop nat ev_ret
  | JCancelled ntt_interest

datatype ev_log =
    LCall u64 ntt_interest
  | LCancelled ntt_interest
  | LReturn ev_ret
  | LEpollAdd u64 u32
  | LEpollDel
  | LQueueAcquire ntt_interest
  | LQueueRelease ntt_interest
  | LWorkEnter
  | LWorkLeave
  | LSlabTake
  | LSlabGive

definition ev_handle :: "ntt_event \<Rightarrow> u64" where
  "ev_handle self = ntt_event_handle_of (ev_index self) (ev_generation self)"

definition ntt_event_call :: "u64 \<Rightarrow> ntt_interest \<Rightarrow> ev_log list" where
  "ntt_event_call handle side = [LCall handle side]"

definition ntt_event_post_side ::
    "ntt_event \<Rightarrow> ntt_interest \<Rightarrow> ntt_event \<times> ev_job" where
  "ntt_event_post_side self side = (self\<lparr>ev_refs := ev_refs self + 1\<rparr>, JTask side)"

definition ntt_event_report_cancelled :: "ntt_event \<Rightarrow> ntt_interest \<Rightarrow> ev_log list" where
  "ntt_event_report_cancelled self side =
     (if (if side = NTT_INTEREST_READABLE then ev_rc self else ev_wc self)
      then [LCancelled side] else [])"

text \<open>Giving the slot back bumps its generation.\<close>

definition ev_give_slot :: "ntt_event \<Rightarrow> ntt_event" where
  "ev_give_slot self = self\<lparr>ev_generation := ev_generation self + 1, ev_open := False\<rparr>"

definition ntt_event_finish :: "ntt_event \<Rightarrow> ntt_event \<times> ev_log list" where
  "ntt_event_finish self =
     (ev_give_slot self,
      [LSlabGive]
      @ (if ev_queue self NTT_INTEREST_READABLE then [LQueueRelease NTT_INTEREST_READABLE] else [])
      @ (if ev_queue self NTT_INTEREST_WRITABLE then [LQueueRelease NTT_INTEREST_WRITABLE] else [])
      @ (if ev_flags self AND NTT_EVENT_WORK \<noteq> 0 then [LWorkLeave] else []))"

definition ntt_event_post_cancelled :: "ntt_interest \<Rightarrow> ev_job" where
  "ntt_event_post_cancelled side = JCancelled side"

definition ntt_event_cancelled_task_svc ::
    "ntt_event \<Rightarrow> ntt_interest \<Rightarrow> ntt_event \<times> ev_job list \<times> ev_log list" where
  "ntt_event_cancelled_task_svc self side = (
     let evs = ntt_event_report_cancelled self side in
     if side = NTT_INTEREST_WRITABLE \<and> ev_queue self NTT_INTEREST_READABLE
     then (self, [ntt_event_post_cancelled NTT_INTEREST_READABLE], evs)
     else let (self', fin) = ntt_event_finish self in (self', [], evs @ fin))"

text \<open>An event without queues, as the loop opens its own, has one side.\<close>

definition ntt_event_teardown :: "ntt_event \<Rightarrow> ntt_event \<times> ev_log list" where
  "ntt_event_teardown self =
     (ev_give_slot self,
      ntt_event_report_cancelled self
        (if ev_interest self = ucast (interest_bits NTT_INTEREST_READABLE)
         then NTT_INTEREST_READABLE else NTT_INTEREST_WRITABLE)
      @ [LSlabGive]
      @ (if ev_flags self AND NTT_EVENT_WORK \<noteq> 0 then [LWorkLeave] else []))"

definition ntt_event_release :: "ntt_event \<Rightarrow> ntt_event \<times> ev_job list \<times> ev_log list" where
  "ntt_event_release self = (
     let refs = ev_refs self;
         self1 = self\<lparr>ev_refs := refs - 1\<rparr>
     in if refs \<noteq> 1 then (self1, [], [])
        else if \<not> ev_queue self1 NTT_INTEREST_READABLE \<and> \<not> ev_queue self1 NTT_INTEREST_WRITABLE
        then let (self2, evs) = ntt_event_teardown self1 in (self2, [], evs)
        else (self1, [ntt_event_post_cancelled
               (if ev_queue self1 NTT_INTEREST_WRITABLE
                then NTT_INTEREST_WRITABLE else NTT_INTEREST_READABLE)], []))"

text \<open>The call of the interface starts by taking a reference; a dead event ends it at once.\<close>

definition ntt_event_live :: "ntt_event \<Rightarrow> u64 \<Rightarrow> ev_call \<Rightarrow> ntt_event \<times> ev_job list" where
  "ntt_event_live self handle call = (
     let (live, self') = ntt_event_acquire_if_live self
     in (self', if live then [JLive handle call] else []))"

definition ntt_event_open ::
    "ntt_event \<Rightarrow> ntt_event_params \<Rightarrow> u32 \<Rightarrow> u8 \<Rightarrow> ntt_event \<times> ev_log list" where
  "ntt_event_open self params events flags = (
     let self' = self\<lparr>ev_open := True, ev_read_queue := pa_read_queue params,
           ev_write_queue := pa_write_queue params, ev_rc := pa_rc params, ev_wc := pa_wc params,
           ev_interest := ucast (pa_interest params), ev_flags := flags, ev_state := 0, ev_refs := 1\<rparr>
     in (self',
         [LSlabTake]
         @ (if ev_queue self' NTT_INTEREST_READABLE then [LQueueAcquire NTT_INTEREST_READABLE] else [])
         @ (if ev_queue self' NTT_INTEREST_WRITABLE then [LQueueAcquire NTT_INTEREST_WRITABLE] else [])
         @ (if flags AND NTT_EVENT_WORK \<noteq> 0 then [LWorkEnter] else [])
         @ [LEpollAdd (ev_handle self') events]))"

text \<open>The guards of \<open>ntt_event_start\<close> and the mask and flags it opens the event with.\<close>

definition ntt_event_start :: "env \<Rightarrow> ntt_event_params \<Rightarrow> (u32 \<times> u8) option" where
  "ntt_event_start env params = do {
     ntt_assert env (pa_interest params \<noteq> 0);
     ntt_assert env (pa_interest params AND interest_bits NTT_INTEREST_READABLE = 0 \<or>
       (pa_readable params \<and> pa_read_queue params));
     ntt_assert env (pa_interest params AND interest_bits NTT_INTEREST_WRITABLE = 0 \<or>
       (pa_writable params \<and> pa_write_queue params));
     ntt_assert env (if pa_interest params AND interest_bits NTT_INTEREST_READABLE \<noteq> 0
       then pa_rc params else pa_wc params);
     ntt_assert env (\<not> pa_read_queue params \<or> \<not> pa_write_queue params \<or> pa_same_loop params);
     let events = 0;
     let events = (if pa_interest params AND interest_bits NTT_INTEREST_READABLE \<noteq> 0
                   then events OR EPOLLIN OR EPOLLET else events);
     let events = (if pa_interest params AND interest_bits NTT_INTEREST_WRITABLE \<noteq> 0
                   then events OR EPOLLOUT OR EPOLLET else events);
     Some (events, NTT_EVENT_WORK OR NTT_EVENT_SERIAL)
   }"

text \<open>After the generation has been checked.\<close>

definition mask_sides :: "u32 \<Rightarrow> ntt_interest list \<Rightarrow> ntt_interest list" where
  "mask_sides sides order = filter (\<lambda>s. sides AND interest_bits s \<noteq> 0) order"

definition ntt_event_dispatch :: "ntt_event \<Rightarrow> u64 \<Rightarrow> u32 \<Rightarrow> ev_job" where
  "ntt_event_dispatch self handle events = (
     let sides = ntt_event_sides_of events (ucast (ev_interest self)) in
     if ev_flags self AND NTT_EVENT_SERIAL = 0
     then JPlain handle (mask_sides sides [NTT_INTEREST_READABLE, NTT_INTEREST_WRITABLE])
     else if sides \<noteq> 0 then JPublish handle sides else JDrop 1 RetDispatch)"

definition ntt_event_cancel :: "ntt_event \<Rightarrow> ntt_event \<times> ev_job list \<times> ev_log list" where
  "ntt_event_cancel self = (
     let state = ev_state self;
         self' = self\<lparr>ev_state := state OR NTT_EVENT_CLOSED\<rparr>
     in if state AND NTT_EVENT_CLOSED = 0
        then (self', [JDrop 2 RetCancel], [LEpollDel])
        else (self', [JDrop 1 RetCancel], []))"

definition event_publish :: "ntt_event \<Rightarrow> u64 \<Rightarrow> u32 \<Rightarrow> ntt_event \<times> ev_job" where
  "event_publish self handle sides =
     (self\<lparr>ev_state := ev_state self OR ntt_event_side_state sides NTT_EVENT_SIDE_READY\<rparr>,
      JDeliver handle (mask_sides sides [NTT_INTEREST_WRITABLE, NTT_INTEREST_READABLE]))"

definition ntt_event_deliver_side ::
    "ntt_event \<Rightarrow> u64 \<Rightarrow> ntt_interest \<Rightarrow> ntt_interest list \<Rightarrow> ntt_event \<times> ev_job list \<times> ev_log list"
where
  "ntt_event_deliver_side self handle side rest = (
     let (taken, self') = ntt_event_claim_side self side in
     if \<not> taken then (self', [JDeliver handle rest], [])
     else if ev_queue self' side then (self', [JPost handle side rest], [])
     else (self', [JRun handle side (Some rest)], ntt_event_call handle side))"

text \<open>The handler has returned: it runs again, or the side is given up.\<close>

definition ntt_event_serve_side ::
    "ntt_event \<Rightarrow> u64 \<Rightarrow> ntt_interest \<Rightarrow> ntt_interest list option
     \<Rightarrow> ntt_event \<times> ev_job list \<times> ev_log list"
where
  "ntt_event_serve_side self handle side k = (
     let (again, self') = ntt_event_leave_side self side in
     if again then (self', [JRun handle side k], ntt_event_call handle side)
     else (self', [case k of None \<Rightarrow> JDrop 1 RetTask | Some rest \<Rightarrow> JDeliver handle rest], []))"

text \<open>The task of a side begins with the call of the handler.\<close>

definition ntt_event_side_task_svc ::
    "ntt_event \<Rightarrow> ntt_interest \<Rightarrow> ntt_event \<times> ev_job list \<times> ev_log list" where
  "ntt_event_side_task_svc self side = (
     let handle = ev_handle self in (self, [JRun handle side None], ntt_event_call handle side))"

fun ev_job_step :: "ntt_event \<Rightarrow> ev_job \<Rightarrow> ntt_event \<times> ev_job list \<times> ev_log list" where
  "ev_job_step self (JLive handle call) =
     (if ev_generation self \<noteq> ntt_event_handle_generation handle then (self, [JDrop 1 RetStale], [])
      else case call of
        EvDispatch events \<Rightarrow> (self, [ntt_event_dispatch self handle events], [])
      | EvCancel \<Rightarrow> ntt_event_cancel self)"
| "ev_job_step self (JPublish handle sides) =
     (let (self', j) = event_publish self handle sides in (self', [j], []))"
| "ev_job_step self (JDeliver handle []) = (self, [JDrop 1 RetDispatch], [])"
| "ev_job_step self (JDeliver handle (side # rest)) = ntt_event_deliver_side self handle side rest"
| "ev_job_step self (JPost handle side rest) =
     (let (self', j) = ntt_event_post_side self side in (self', [j, JDeliver handle rest], []))"
| "ev_job_step self (JPlain handle []) = (self, [JDrop 1 RetDispatch], [])"
| "ev_job_step self (JPlain handle (side # rest)) =
     (self, [JPlain handle rest], ntt_event_call handle side)"
| "ev_job_step self (JTask side) = ntt_event_side_task_svc self side"
| "ev_job_step self (JRun handle side k) = ntt_event_serve_side self handle side k"
| "ev_job_step self (JDrop n c) =
     (let (self', js, evs) = ntt_event_release self
      in (self', js @ (if n > 1 then [JDrop (n - 1) c] else []),
          evs @ (if n > 1 then [] else [LReturn c])))"
| "ev_job_step self (JCancelled side) = ntt_event_cancelled_task_svc self side"

section \<open>The slot and everything that is in flight on it\<close>

record ev_sys =
  es_event :: ntt_event
  es_jobs :: "ev_job multiset"
  es_log :: "ev_log list"

text \<open>
  A step opens the event in a vacant slot, starts a call with some handle of this slot, or carries
  one of the jobs one access further. Less than \<open>2 ^ 32 - 2\<close> references are held at a time.
\<close>

inductive ev_step :: "ev_sys \<Rightarrow> ev_sys \<Rightarrow> bool" where
  ev_open_step: "\<not> ev_open (es_event s) \<Longrightarrow>
    ntt_event_open (es_event s) params events flags = (e, evs) \<Longrightarrow>
    ev_step s (s\<lparr>es_event := e, es_log := es_log s @ evs\<rparr>)"
| ev_call_step: "unat (ev_refs (es_event s)) < 4294967294 \<Longrightarrow>
    ntt_event_handle_index handle = ev_index (es_event s) \<Longrightarrow>
    ntt_event_live (es_event s) handle call = (e, js) \<Longrightarrow>
    ev_step s (s\<lparr>es_event := e, es_jobs := es_jobs s + mset js\<rparr>)"
| ev_job_step: "j \<in># es_jobs s \<Longrightarrow> unat (ev_refs (es_event s)) < 4294967294 \<Longrightarrow>
    ev_job_step (es_event s) j = (e, js, evs) \<Longrightarrow>
    ev_step s \<lparr>es_event = e, es_jobs = es_jobs s - {#j#} + mset js, es_log = es_log s @ evs\<rparr>"

text \<open>Slot \<open>index\<close> as the slab hands it out for the first time.\<close>

definition ev_init :: "u32 \<Rightarrow> ev_sys" where
  "ev_init index =
     \<lparr>es_event = \<lparr>ev_index = index, ev_generation = 1, ev_open = False, ev_read_queue = False,
        ev_write_queue = False, ev_rc = False, ev_wc = False, ev_refs = 0, ev_state = 0,
        ev_interest = 0, ev_flags = 0\<rparr>,
      es_jobs = {#}, es_log = []\<rparr>"

inductive ev_reachable :: "ev_sys \<Rightarrow> bool" where
  ev_start: "ev_reachable (ev_init index)"
| ev_next: "ev_reachable s \<Longrightarrow> ev_step s s' \<Longrightarrow> ev_reachable s'"

end
