(* ===== verification/Event_Inv.thy ===== *)
theory Event_Inv
  imports Event
begin

text \<open>
  The invariant of a slot of the event slab: what the jobs in flight hold of the reference counter
  and of the bits of the state word (\<open>ev_ok\<close>), that every access keeps it, and that it holds in
  every reachable state.
\<close>

section \<open>What the jobs hold\<close>

definition ready_bit :: "ntt_interest \<Rightarrow> nat" where
  "ready_bit s = 2 * ntt_event_side_index s"

definition busy_bit :: "ntt_interest \<Rightarrow> nat" where
  "busy_bit s = 2 * ntt_event_side_index s + 1"

abbreviation closed :: "ntt_event \<Rightarrow> bool" where
  "closed e \<equiv> bit (ev_state e) 4"

fun job_refs :: "ev_job \<Rightarrow> nat" where
  "job_refs (JDrop n c) = n"
| "job_refs (JCancelled s) = 0"
| "job_refs j = 1"

fun job_owns :: "ntt_interest \<Rightarrow> ev_job \<Rightarrow> bool" where
  "job_owns s (JPost h t rest) \<longleftrightarrow> t = s"
| "job_owns s (JTask t) \<longleftrightarrow> t = s"
| "job_owns s (JRun h t k) \<longleftrightarrow> t = s"
| "job_owns s j \<longleftrightarrow> False"

fun job_pending :: "ntt_interest \<Rightarrow> ev_job \<Rightarrow> bool" where
  "job_pending s (JDeliver h rest) \<longleftrightarrow> s \<in> set rest"
| "job_pending s (JPost h t rest) \<longleftrightarrow> s \<in> set rest"
| "job_pending s (JRun h t (Some rest)) \<longleftrightarrow> s \<in> set rest"
| "job_pending s j \<longleftrightarrow> False"

fun job_wf :: "ev_job \<Rightarrow> bool" where
  "job_wf (JDrop n c) \<longleftrightarrow> 0 < n"
| "job_wf j \<longleftrightarrow> True"

fun job_cancelled :: "ev_job \<Rightarrow> bool" where
  "job_cancelled (JCancelled s) \<longleftrightarrow> True"
| "job_cancelled j \<longleftrightarrow> False"

definition refs_held :: "ev_job multiset \<Rightarrow> nat" where
  "refs_held J = (\<Sum>j \<in># J. job_refs j)"

definition owners :: "ntt_interest \<Rightarrow> ev_job multiset \<Rightarrow> nat" where
  "owners s J = size (filter_mset (job_owns s) J)"

definition reporters :: "ev_job multiset \<Rightarrow> nat" where
  "reporters J = size (filter_mset job_cancelled J)"

definition ev_ok :: "ntt_event \<Rightarrow> ev_job multiset \<Rightarrow> bool" where
  "ev_ok e J \<longleftrightarrow>
     unat (ev_refs e) = (if ev_open e \<and> \<not> closed e then 1 else 0) + refs_held J \<and>
     (\<forall>s. owners s J = (if bit (ev_state e) (busy_bit s) then 1 else 0)) \<and>
     reporters J = (if ev_open e \<and> ev_refs e = 0 then 1 else 0) \<and>
     (\<not> ev_open e \<longrightarrow> ev_refs e = 0) \<and> (\<forall>j \<in># J. job_wf j) \<and>
     (\<forall>s. bit (ev_state e) (ready_bit s) \<longrightarrow> \<not> closed e \<longrightarrow> ev_open e \<longrightarrow>
        bit (ev_state e) (busy_bit s) \<or> (\<exists>j \<in># J. job_pending s j))"

definition ev_inv :: "ev_sys \<Rightarrow> bool" where
  "ev_inv s \<longleftrightarrow> ev_ok (es_event s) (es_jobs s)"

section \<open>Bits\<close>

lemma side_index_cases: "ntt_event_side_index s = 0 \<or> ntt_event_side_index s = 1"
  by (simp add: ntt_event_side_index_def)

lemma side_bits_less [simp]: "ready_bit s < 4" "busy_bit s < 4"
  using side_index_cases [of s] by (auto simp: ready_bit_def busy_bit_def)

lemma side_bits_not_closed [simp]: "ready_bit s \<noteq> 4" "busy_bit s \<noteq> 4" "4 \<noteq> ready_bit s" "4 \<noteq> busy_bit s"
  using side_bits_less [of s] by linarith+

lemma side_bits_distinct [simp]:
  "ready_bit s \<noteq> busy_bit t" "busy_bit t \<noteq> ready_bit s" "ready_bit s = ready_bit t \<longleftrightarrow> s = t"
  "busy_bit s = busy_bit t \<longleftrightarrow> s = t"
  by (cases s; cases t; simp add: ready_bit_def busy_bit_def ntt_event_side_index_def)+

lemma bit_pow [simp]: "bit (2 ^ n :: u32) m \<longleftrightarrow> m = n \<and> n < 32"
  by (auto simp: bit_exp_iff)

lemma and_bit_eq_0: "n < 32 \<Longrightarrow> (w :: u32) AND 2 ^ n = 0 \<longleftrightarrow> \<not> bit w n"
proof
  assume n: "n < 32" and z: "w AND 2 ^ n = 0"
  have "bit (w AND 2 ^ n) n = bit w n" using n by (simp add: bit_and_iff)
  then show "\<not> bit w n" using z by simp
next
  assume "n < 32" "\<not> bit w n"
  then show "w AND 2 ^ n = 0"
    by (intro bit_eqI) (auto simp: bit_and_iff)
qed

lemma ready_word: "push_bit (ntt_event_side_shift s) NTT_EVENT_SIDE_READY = 2 ^ ready_bit s"
  by (simp add: ntt_event_side_shift_def NTT_EVENT_SIDE_BITS_def NTT_EVENT_SIDE_READY_def ready_bit_def mult.commute)

lemma busy_word: "push_bit (ntt_event_side_shift s) NTT_EVENT_SIDE_BUSY = 2 ^ busy_bit s"
proof -
  have "push_bit (ntt_event_side_shift s) (push_bit 1 1 :: u32) = push_bit (ntt_event_side_shift s + 1) 1"
    by (simp only: push_bit_push_bit)
  then show ?thesis
    by (simp add: NTT_EVENT_SIDE_BUSY_def ntt_event_side_shift_def NTT_EVENT_SIDE_BITS_def busy_bit_def mult.commute)
qed

lemma closed_word: "NTT_EVENT_CLOSED = 2 ^ 4"
  by (simp only: NTT_EVENT_CLOSED_def NTT_EVENT_SIDES_def NTT_EVENT_SIDE_BITS_def) simp

lemma claim_next_eq:
  "claim_next s st = (if bit st (ready_bit s) \<and> \<not> bit st (busy_bit s) \<and> \<not> bit st 4
     then Some ((st AND NOT (2 ^ ready_bit s)) OR 2 ^ busy_bit s) else None)"
proof -
  have lt: "ready_bit s < 32" "busy_bit s < 32" using side_bits_less [of s] by linarith+
  have "st AND (2 ^ busy_bit s OR 2 ^ 4) = 0 \<longleftrightarrow> \<not> bit st (busy_bit s) \<and> \<not> bit st 4"
    using and_bit_eq_0 [OF lt(2), of st] and_bit_eq_0 [of 4 st]
    by (simp add: bit.conj_disj_distrib or_eq_0_iff )
  then show ?thesis
    unfolding claim_next_def Let_def ready_word busy_word closed_word and_bit_eq_0 [OF lt(1)] by simp
qed

lemma bit_claim:
  assumes "claim_next s st = Some st'"
  shows "bit st (ready_bit s)" "\<not> bit st (busy_bit s)" "\<not> bit st 4"
    and "bit st' m \<longleftrightarrow> (m = busy_bit s \<or> (m \<noteq> ready_bit s \<and> bit st m))"
proof -
  have lt: "ready_bit s < 32" "busy_bit s < 32" using side_bits_less [of s] by linarith+
  have c: "bit st (ready_bit s) \<and> \<not> bit st (busy_bit s) \<and> \<not> bit st 4"
    "st' = (st AND NOT (2 ^ ready_bit s)) OR 2 ^ busy_bit s"
    using assms unfolding claim_next_eq by (auto split: if_splits)
  then show "bit st (ready_bit s)" "\<not> bit st (busy_bit s)" "\<not> bit st 4" by auto
  have "bit st m \<Longrightarrow> m < 32" using bit_imp_le_length [of st m] by simp
  then show "bit st' m \<longleftrightarrow> (m = busy_bit s \<or> (m \<noteq> ready_bit s \<and> bit st m))"
    using lt by (auto simp: c(2) bit_or_iff bit_and_iff bit_not_iff)
qed

lemma bit_leave:
  shows "fst (leave_next s st) \<longleftrightarrow> bit st (ready_bit s) \<and> \<not> bit st 4"
    and "bit (snd (leave_next s st)) m \<longleftrightarrow>
      m \<noteq> ready_bit s \<and> (m \<noteq> busy_bit s \<or> fst (leave_next s st)) \<and> bit st m"
proof -
  have lt: "ready_bit s < 32" "busy_bit s < 32" using side_bits_less [of s] by linarith+
  show f: "fst (leave_next s st) \<longleftrightarrow> bit st (ready_bit s) \<and> \<not> bit st 4"
    unfolding leave_next_def Let_def ready_word busy_word closed_word
    using and_bit_eq_0 [OF lt(1), of st] and_bit_eq_0 [of 4 st] by simp
  have w: "snd (leave_next s st) = (if fst (leave_next s st) then st AND NOT (2 ^ ready_bit s)
      else st AND NOT (2 ^ ready_bit s OR 2 ^ busy_bit s))"
    unfolding leave_next_def Let_def ready_word busy_word closed_word by simp
  have "bit st m \<Longrightarrow> m < 32" using bit_imp_le_length [of st m] by simp
  then show "bit (snd (leave_next s st)) m \<longleftrightarrow>
      m \<noteq> ready_bit s \<and> (m \<noteq> busy_bit s \<or> fst (leave_next s st)) \<and> bit st m"
    using lt unfolding w by (auto simp: bit_and_iff bit_not_iff bit_or_iff)
qed

lemma mask_sides_iff [simp]: "s \<in> set (mask_sides sides order) \<longleftrightarrow> s \<in> set order \<and> sides AND interest_bits s \<noteq> 0"
  by (auto simp: mask_sides_def)

lemma bit_publish:
  "bit (st OR ntt_event_side_state sides NTT_EVENT_SIDE_READY) m \<longleftrightarrow>
     bit st m \<or> (\<exists>s. m = ready_bit s \<and> sides AND interest_bits s \<noteq> 0)"
proof -
  have lt: "ready_bit s < 32" for s using side_bits_less(1) [of s] by linarith
  have "ntt_event_side_state sides NTT_EVENT_SIDE_READY =
    (if sides AND interest_bits NTT_INTEREST_READABLE \<noteq> 0 then 2 ^ ready_bit NTT_INTEREST_READABLE else 0) OR
    (if sides AND interest_bits NTT_INTEREST_WRITABLE \<noteq> 0 then 2 ^ ready_bit NTT_INTEREST_WRITABLE else 0)"
    unfolding ntt_event_side_state_def Let_def ready_word by simp
  then have b: "bit (ntt_event_side_state sides NTT_EVENT_SIDE_READY) m \<longleftrightarrow>
      (m = ready_bit NTT_INTEREST_READABLE \<and> sides AND interest_bits NTT_INTEREST_READABLE \<noteq> 0) \<or>
      (m = ready_bit NTT_INTEREST_WRITABLE \<and> sides AND interest_bits NTT_INTEREST_WRITABLE \<noteq> 0)"
    using lt by (auto simp: bit_or_iff)
  have ex: "(\<exists>s. P s) \<longleftrightarrow> P NTT_INTEREST_READABLE \<or> P NTT_INTEREST_WRITABLE" for P
    by (metis ntt_interest.exhaust)
  show ?thesis unfolding bit_or_iff b ex ..
qed

lemma bit_close: "bit (st OR NTT_EVENT_CLOSED) m \<longleftrightarrow> bit st m \<or> m = 4"
  by (auto simp only: closed_word bit_or_iff bit_pow)

lemma closed_test: "(st AND NTT_EVENT_CLOSED = 0) \<longleftrightarrow> \<not> bit st 4"
  unfolding closed_word by (rule and_bit_eq_0) simp

section \<open>What the jobs hold\<close>

lemma refs_held_simps [simp]:
  "refs_held {#} = 0" "refs_held (add_mset j J) = job_refs j + refs_held J" "refs_held (J + K) = refs_held J + refs_held K"
  by (simp_all add: refs_held_def)

lemma owners_simps [simp]:
  "owners s {#} = 0" "owners s (add_mset j J) = (if job_owns s j then 1 else 0) + owners s J"
  "owners s (J + K) = owners s J + owners s K"
  by (simp_all add: owners_def)

lemma reporters_simps [simp]:
  "reporters {#} = 0" "reporters (add_mset j J) = (if job_cancelled j then 1 else 0) + reporters J"
  "reporters (J + K) = reporters J + reporters K"
  by (simp_all add: reporters_def)

lemma owners_pos: "0 < owners s J \<longleftrightarrow> (\<exists>j \<in># J. job_owns s j)"
  by (induction J) auto

lemma reporters_pos: "0 < reporters J \<longleftrightarrow> (\<exists>j \<in># J. job_cancelled j)"
  by (induction J) auto

lemma unat_refs_pred: "(r :: u32) \<noteq> 0 \<Longrightarrow> unat (r - 1) = unat r - 1"
  by (simp add: unat_pred unat_gt_0)

lemma unat_refs_succ: "unat (r :: u32) < 4294967294 \<Longrightarrow> unat (r + 1) = unat r + 1"
  by (subst unat_add_noflow) simp_all

text \<open>A step that changes neither the counter nor the state word.\<close>

lemma ev_ok_swap:
  assumes ok: "ev_ok e (add_mset j R)" and j: "job_refs j' = job_refs j" "\<And>s. job_owns s j' = job_owns s j"
    "job_cancelled j' = job_cancelled j" "job_wf j'"
    and p: "\<And>s. job_pending s j \<Longrightarrow> bit (ev_state e) (ready_bit s) \<Longrightarrow> \<not> closed e \<Longrightarrow>
      job_pending s j' \<or> bit (ev_state e) (busy_bit s)"
  shows "ev_ok e (add_mset j' R)"
proof -
  have "bit (ev_state e) (busy_bit s) \<or> (\<exists>j \<in># add_mset j' R. job_pending s j)"
    if "bit (ev_state e) (ready_bit s)" "\<not> closed e" "ev_open e" for s
    using ok that p [of s] by (auto simp: ev_ok_def)
  then show ?thesis using ok j by (simp add: ev_ok_def)
qed

lemma job_refs_pos: "job_wf j \<Longrightarrow> \<not> job_cancelled j \<Longrightarrow> 0 < job_refs j"
  by (cases j) auto

lemma ev_ok_open: "ev_ok e (add_mset j R) \<Longrightarrow> \<not> job_cancelled j \<Longrightarrow> ev_open e \<and> ev_refs e \<noteq> 0"
  using job_refs_pos [of j] by (auto simp: ev_ok_def split: if_splits)

section \<open>Every access keeps the invariant\<close>

lemma ev_ok_cancel:
  assumes ok: "ev_ok e (add_mset (JLive g c) R)" and c: "ntt_event_cancel e = (e', js, evs)"
  shows "ev_ok e' (mset js + R)"
proof -
  have op: "ev_open e" "ev_refs e \<noteq> 0" using ev_ok_open [OF ok] by auto
  have e': "e' = e\<lparr>ev_state := ev_state e OR NTT_EVENT_CLOSED\<rparr>"
    and j: "js = [JDrop (if closed e then 1 else 2) RetCancel]"
    using c by (auto simp: ntt_event_cancel_def Let_def closed_test split: if_splits)
  have b: "bit (ev_state e') m \<longleftrightarrow> bit (ev_state e) m \<or> m = 4" for m by (simp add: e' bit_close)
  have "busy_bit s \<noteq> 4" for s using side_bits_less(2) [of s] by linarith
  then show ?thesis using ok op by (auto simp: ev_ok_def b) (auto simp: e' j)
qed

lemma ev_ok_publish:
  assumes ok: "ev_ok e (add_mset (JPublish h sides) R)" and c: "event_publish e h sides = (e', j)"
  shows "ev_ok e' (add_mset j R)"
proof -
  have e': "e' = e\<lparr>ev_state := ev_state e OR ntt_event_side_state sides NTT_EVENT_SIDE_READY\<rparr>"
    and j: "j = JDeliver h (mask_sides sides [NTT_INTEREST_WRITABLE, NTT_INTEREST_READABLE])"
    using c by (auto simp: event_publish_def)
  have b: "bit (ev_state e') m \<longleftrightarrow> bit (ev_state e) m \<or> (\<exists>s. m = ready_bit s \<and> sides AND interest_bits s \<noteq> 0)" for m
    by (simp add: e' bit_publish)
  have "4 \<noteq> ready_bit s" for s using side_bits_less(1) [of s] by linarith
  then have bits: "closed e' = closed e" "bit (ev_state e') (busy_bit s) = bit (ev_state e) (busy_bit s)"
    "bit (ev_state e') (ready_bit s) \<longleftrightarrow> bit (ev_state e) (ready_bit s) \<or> sides AND interest_bits s \<noteq> 0" for s
    by (auto simp: b)
  have pend: "job_pending s j \<longleftrightarrow> sides AND interest_bits s \<noteq> 0" for s
    unfolding j by (cases s) (simp_all del: interest_bits.simps)
  have r: "ev_refs e' = ev_refs e" "ev_open e' = ev_open e" by (simp_all add: e')
  have "job_refs j = 1" "\<not> job_owns s j" "\<not> job_cancelled j" "job_wf j" for s by (simp_all add: j)
  then show ?thesis using ok unfolding ev_ok_def r bits by (auto simp: pend)
qed

lemma ev_ok_deliver:
  assumes ok: "ev_ok e (add_mset (JDeliver h (s # rest)) R)" and d: "ntt_event_deliver_side e h s rest = (e', js, evs)"
  shows "ev_ok e' (mset js + R)"
proof (cases "claim_next s (ev_state e)")
  case None
  then have e': "e' = e" "js = [JDeliver h rest]"
    using d by (auto simp: ntt_event_deliver_side_def ntt_event_claim_side_def)
  have "\<not> (bit (ev_state e) (ready_bit s) \<and> \<not> bit (ev_state e) (busy_bit s) \<and> \<not> closed e)"
    using None unfolding claim_next_eq by (auto split: if_splits)
  then have "ev_ok e (add_mset (JDeliver h rest) R)" by (intro ev_ok_swap [OF ok]) auto
  then show ?thesis by (simp add: e')
next
  case (Some st)
  note c = bit_claim [OF Some]
  have e': "e' = e\<lparr>ev_state := st\<rparr>" and js: "js = [JPost h s rest] \<or> js = [JRun h s (Some rest)]"
    using d Some by (auto simp: ntt_event_deliver_side_def ntt_event_claim_side_def split: if_splits)
  have n4: "busy_bit t \<noteq> 4" "ready_bit t \<noteq> 4" for t using side_bits_less [of t] by linarith+
  have b: "bit (ev_state e') m \<longleftrightarrow> (m = busy_bit s \<or> (m \<noteq> ready_bit s \<and> bit (ev_state e) m))" for m
    using c(4) [of m] by (simp add: e')
  have r: "ev_refs e' = ev_refs e" "ev_open e' = ev_open e" by (simp_all add: e')
  have "job_refs j = 1 \<and> (\<forall>t. job_owns t j \<longleftrightarrow> t = s) \<and> \<not> job_cancelled j \<and> job_wf j \<and> (\<forall>t. job_pending t j \<longleftrightarrow> t \<in> set rest)"
    if "js = [j]" for j using js that by auto
  then obtain j where j: "js = [j]" "job_refs j = 1" "\<And>t. job_owns t j \<longleftrightarrow> t = s" "\<not> job_cancelled j" "job_wf j"
    "\<And>t. job_pending t j \<longleftrightarrow> t \<in> set rest" using js by blast
  show ?thesis using ok c(1-3) n4 unfolding ev_ok_def j(1) b r by (auto simp: j)
qed

lemma ev_ok_post:
  assumes ok: "ev_ok e (add_mset (JPost h s rest) R)" and b: "unat (ev_refs e) < 4294967294"
    and p: "ntt_event_post_side e s = (e', j)"
  shows "ev_ok e' (add_mset j (add_mset (JDeliver h rest) R))"
proof -
  have e': "e' = e\<lparr>ev_refs := ev_refs e + 1\<rparr>" "j = JTask s" using p by (auto simp: ntt_event_post_side_def)
  have u: "unat (ev_refs e + 1) = unat (ev_refs e) + 1" by (rule unat_refs_succ [OF b])
  then have "ev_refs e + 1 \<noteq> 0" by (metis unat_0 Suc_eq_plus1 nat.distinct(1))
  then show ?thesis using ok u ev_ok_open [OF ok] unfolding ev_ok_def e' by auto
qed

lemma ev_ok_serve:
  assumes ok: "ev_ok e (add_mset (JRun h s k) R)" and d: "ntt_event_serve_side e h s k = (e', js, evs)"
  shows "ev_ok e' (mset js + R)"
proof -
  define again where "again = fst (leave_next s (ev_state e))"
  have e': "e' = e\<lparr>ev_state := snd (leave_next s (ev_state e))\<rparr>"
    and js: "js = (if again then [JRun h s k] else [case k of None \<Rightarrow> JDrop 1 RetTask | Some rest \<Rightarrow> JDeliver h rest])"
    using d by (auto simp: ntt_event_serve_side_def ntt_event_leave_side_def again_def case_prod_beta Let_def split: if_splits)
  have b: "bit (ev_state e') m \<longleftrightarrow> m \<noteq> ready_bit s \<and> (m \<noteq> busy_bit s \<or> again) \<and> bit (ev_state e) m" for m
    by (simp add: e' bit_leave(2) again_def)
  have ag: "again \<longleftrightarrow> bit (ev_state e) (ready_bit s) \<and> \<not> closed e" by (simp add: again_def bit_leave(1))
  have n4: "busy_bit t \<noteq> 4" "ready_bit t \<noteq> 4" for t using side_bits_less [of t] by linarith+
  have r: "ev_refs e' = ev_refs e" "ev_open e' = ev_open e" by (simp_all add: e')
  have op: "ev_open e" "ev_refs e \<noteq> 0" using ev_ok_open [OF ok] by auto
  have all: "(if s = t then 1 else 0) + owners t R = (if bit (ev_state e) (busy_bit t) then 1 else 0)" for t
    using ok unfolding ev_ok_def by simp
  have own: "owners s R = 0" "bit (ev_state e) (busy_bit s)" using all [of s] by (auto split: if_splits)
  have other: "owners t R = (if t \<noteq> s \<and> bit (ev_state e) (busy_bit t) then 1 else 0)" for t
    using all [of t] own by auto
  show ?thesis
  proof (cases k)
    case None
    then show ?thesis using ok own(2) op n4 unfolding ev_ok_def js b r by (auto simp: ag other)
  next
    case (Some rest)
    then show ?thesis using ok own(2) op n4 unfolding ev_ok_def js b r by (auto simp: ag other)
  qed
qed

lemma ev_ok_release:
  assumes ok: "ev_ok e (add_mset (JDrop n c) R)" and d: "ev_job_step e (JDrop n c) = (e', js, evs)"
  shows "ev_ok e' (mset js + R)"
proof -
  have op: "ev_open e" "ev_refs e \<noteq> 0" using ev_ok_open [OF ok] by auto
  have n: "0 < n" and refs: "unat (ev_refs e) = (if \<not> closed e then 1 else 0) + n + refs_held R"
    using ok op by (auto simp: ev_ok_def)
  let ?e = "e\<lparr>ev_refs := ev_refs e - 1\<rparr>" and ?k = "if n > 1 then [JDrop (n - 1) c] else []"
  have u: "unat (ev_refs e - 1) = unat (ev_refs e) - 1" by (rule unat_refs_pred [OF op(2)])
  have rep: "reporters R = 0" using ok op by (simp add: ev_ok_def)
  show ?thesis
  proof (cases "ev_refs e = 1")
    case False
    then have ne: "ev_refs e - 1 \<noteq> 0" by simp
    have e': "e' = ?e" "js = ?k" using d False by (auto simp: ntt_event_release_def Let_def)
    show ?thesis using ok op n u ne unfolding ev_ok_def e' by auto
  next
    case True
    then have "unat (ev_refs e) = 1" by simp
    then have cl: "closed e" "n = 1" "refs_held R = 0" using refs n by (auto split: if_splits)
    have owns: "\<forall>s. owners s R = (if bit (ev_state e) (busy_bit s) then 1 else 0)" and wf: "\<forall>j \<in># R. job_wf j"
      using ok by (auto simp: ev_ok_def)
    show ?thesis
    proof (cases "ev_queue ?e NTT_INTEREST_READABLE \<or> ev_queue ?e NTT_INTEREST_WRITABLE")
      case q: True
      then obtain s where "e' = ?e" "js = [JCancelled s]"
        using d True cl(2) by (auto simp: ntt_event_release_def ntt_event_post_cancelled_def Let_def)
      then show ?thesis using op cl owns wf rep True unfolding ev_ok_def by simp
    next
      case q: False
      then have "js = []" "e' = ?e\<lparr>ev_generation := ev_generation e + 1, ev_open := False\<rparr>"
        using d True cl(2)
        by (auto simp: ntt_event_release_def ntt_event_teardown_def ev_give_slot_def Let_def)
      then show ?thesis using cl owns wf rep True unfolding ev_ok_def by simp
    qed
  qed
qed

lemma ev_ok_cancelled:
  assumes ok: "ev_ok e (add_mset (JCancelled s) R)" and d: "ntt_event_cancelled_task_svc e s = (e', js, evs)"
  shows "ev_ok e' (mset js + R)"
proof -
  have op: "ev_open e" "ev_refs e = 0" "reporters R = 0" using ok by (auto simp: ev_ok_def split: if_splits)
  then have z: "closed e" "refs_held R = 0" using ok by (auto simp: ev_ok_def split: if_splits)
  consider "e' = e" "js = [JCancelled NTT_INTEREST_READABLE]"
    | "js = []" "e' = e\<lparr>ev_generation := ev_generation e + 1, ev_open := False\<rparr>"
    using d by (auto simp: ntt_event_cancelled_task_svc_def ntt_event_post_cancelled_def ntt_event_finish_def ev_give_slot_def Let_def
        split: if_splits)
  then show ?thesis
  proof cases
    case 1
    then show ?thesis using ok by (auto simp: ev_ok_def)
  next
    case 2
    then show ?thesis using ok op z unfolding ev_ok_def by simp
  qed
qed

lemma ev_ok_dispatch:
  assumes "ev_ok e (add_mset (JLive g c) R)"
  shows "ev_ok e (add_mset (ntt_event_dispatch e h events) R)"
  by (rule ev_ok_swap [OF assms]) (simp_all add: ntt_event_dispatch_def Let_def)

lemma ev_ok_job:
  assumes ok: "ev_ok e (add_mset j R)" and b: "unat (ev_refs e) < 4294967294"
    and d: "ev_job_step e j = (e', js, evs)"
  shows "ev_ok e' (mset js + R)"
proof (cases j)
  case (JLive g c)
  show ?thesis
  proof (cases "ev_generation e = ntt_event_handle_generation g")
    case False
    then have "e' = e" "js = [JDrop 1 RetStale]" using d JLive by auto
    moreover have "ev_ok e (add_mset (JDrop 1 RetStale) R)" using ok unfolding JLive by (rule ev_ok_swap) auto
    ultimately show ?thesis by simp
  next
    case True
    show ?thesis
    proof (cases c)
      case (EvDispatch events)
      then have "e' = e" "js = [ntt_event_dispatch e g events]" using d JLive True by auto
      then show ?thesis using ev_ok_dispatch [OF ok [unfolded JLive]] by simp
    next
      case EvCancel
      then have "ntt_event_cancel e = (e', js, evs)" using d JLive True by simp
      then show ?thesis by (rule ev_ok_cancel [OF ok [unfolded JLive]])
    qed
  qed
next
  case (JPublish h sides)
  obtain e'' k where c: "event_publish e h sides = (e'', k)" by fastforce
  then have "e' = e''" "js = [k]" using d JPublish by auto
  then show ?thesis using ev_ok_publish [OF ok [unfolded JPublish] c] by simp
next
  case (JDeliver h rest)
  show ?thesis
  proof (cases rest)
    case Nil
    then have "e' = e" "js = [JDrop 1 RetDispatch]" using d JDeliver by auto
    moreover have "ev_ok e (add_mset (JDrop 1 RetDispatch) R)"
      using ok unfolding JDeliver Nil by (rule ev_ok_swap) auto
    ultimately show ?thesis by simp
  next
    case (Cons s ss)
    then have "ntt_event_deliver_side e h s ss = (e', js, evs)" using d JDeliver by simp
    then show ?thesis by (rule ev_ok_deliver [OF ok [unfolded JDeliver Cons]])
  qed
next
  case (JPost h s rest)
  obtain e'' k where c: "ntt_event_post_side e s = (e'', k)" by fastforce
  then have "e' = e''" "js = [k, JDeliver h rest]" using d JPost by auto
  then show ?thesis using ev_ok_post [OF ok [unfolded JPost] b c] by simp
next
  case (JPlain h rest)
  then obtain k where k: "e' = e" "js = [k]" "job_refs k = 1" "\<And>s. \<not> job_owns s k" "\<not> job_cancelled k" "job_wf k"
    using d by (cases rest) auto
  have "ev_ok e (add_mset k R)" using ok unfolding JPlain by (rule ev_ok_swap) (use k in auto)
  then show ?thesis using k by simp
next
  case (JTask s)
  then have "e' = e" "js = [JRun (ev_handle e) s None]" using d by (auto simp: ntt_event_side_task_svc_def Let_def)
  moreover have "ev_ok e (add_mset (JRun (ev_handle e) s None) R)" using ok unfolding JTask by (rule ev_ok_swap) auto
  ultimately show ?thesis by simp
next
  case (JRun h s k)
  then have "ntt_event_serve_side e h s k = (e', js, evs)" using d by simp
  then show ?thesis by (rule ev_ok_serve [OF ok [unfolded JRun]])
next
  case (JDrop n c)
  show ?thesis by (rule ev_ok_release [OF ok [unfolded JDrop] d [unfolded JDrop]])
next
  case (JCancelled s)
  then have "ntt_event_cancelled_task_svc e s = (e', js, evs)" using d by simp
  then show ?thesis by (rule ev_ok_cancelled [OF ok [unfolded JCancelled]])
qed

lemma ev_ok_no_jobs:
  assumes ok: "ev_ok e J" and cl: "\<not> ev_open e"
  shows "J = {#}"
proof (rule ccontr)
  assume "J \<noteq> {#}"
  then obtain j R where J: "J = add_mset j R" by (meson multiset_cases)
  show False
  proof (cases "job_cancelled j")
    case True
    then show ?thesis using ok cl by (simp add: J ev_ok_def)
  next
    case False
    then show ?thesis using ev_ok_open [OF ok [unfolded J]] cl by simp
  qed
qed

lemma ev_ok_call:
  assumes ok: "ev_ok e J" and b: "unat (ev_refs e) < 4294967294" and l: "ntt_event_live e g c = (e', js)"
  shows "ev_ok e' (J + mset js)"
proof (cases "ev_refs e = 0")
  case True
  then show ?thesis using l ok by (auto simp: ntt_event_live_def ntt_event_acquire_if_live_def acquire_next_def)
next
  case False
  have u: "unat (ev_refs e + 1) = unat (ev_refs e) + 1" by (rule unat_refs_succ [OF b])
  then have nz: "ev_refs e + 1 \<noteq> 0" by (metis unat_0 Suc_eq_plus1 nat.distinct(1))
  have e': "e' = e\<lparr>ev_refs := ev_refs e + 1\<rparr>" "js = [JLive g c]"
    using l False by (auto simp: ntt_event_live_def ntt_event_acquire_if_live_def acquire_next_def)
  show ?thesis using ok u nz False unfolding ev_ok_def e' by auto
qed

lemma ev_step_inv:
  assumes "ev_step s s'" "ev_inv s"
  shows "ev_inv s'"
  using assms
proof (induction rule: ev_step.cases)
  case (ev_open_step s params events flags e evs)
  then have "es_jobs s = {#}" using ev_ok_no_jobs by (auto simp: ev_inv_def)
  then show ?case using ev_open_step by (auto simp: ev_inv_def ev_ok_def ntt_event_open_def Let_def)
next
  case (ev_call_step s g c e js)
  then show ?case using ev_ok_call [of "es_event s" "es_jobs s" g c e js] by (auto simp: ev_inv_def)
next
  case (ev_job_step j s e js evs)
  let ?R = "es_jobs s - {#j#}"
  have "ev_ok (es_event s) (add_mset j ?R)" using ev_job_step by (auto simp: ev_inv_def)
  from ev_ok_job [OF this] show ?case using ev_job_step by (auto simp: ev_inv_def union_commute)
qed

lemma ev_reachable_inv: "ev_reachable s \<Longrightarrow> ev_inv s"
proof (induction rule: ev_reachable.induct)
  case ev_start
  show ?case by (simp add: ev_inv_def ev_ok_def ev_init_def)
next
  case (ev_next s s')
  then show ?case using ev_step_inv by blast
qed

end
