(* ===== verification/Event_Log.thy ===== *)
theory Event_Log
  imports Event_Inv
begin

text \<open>
  What an event does to the rest of the program, read off the log: the resources it takes and gives
  back (\<open>log_balanced\<close>) and the reports of the cancellation it makes (\<open>log_reports\<close>), as an
  invariant of the reachable states.
\<close>

section \<open>Reading the log\<close>

text \<open>What has been logged since the slot was taken last.\<close>

definition incarnation :: "ev_log list \<Rightarrow> ev_log list" where
  "incarnation evs = rev (takeWhile (\<lambda>l. l \<noteq> LSlabTake) (rev evs))"

fun report_of :: "ev_log \<Rightarrow> ntt_interest option" where
  "report_of (LCancelled s) = Some s"
| "report_of l = None"

definition cancel_reports :: "ev_log list \<Rightarrow> ntt_interest list" where
  "cancel_reports evs = List.map_filter report_of evs"

text \<open>The reports an event owes its user, in order.\<close>

definition report_side :: "ntt_event \<Rightarrow> ntt_interest \<Rightarrow> ntt_interest list" where
  "report_side e s = (if (if s = NTT_INTEREST_READABLE then ev_rc e else ev_wc e) then [s] else [])"

definition reports_before :: "ntt_event \<Rightarrow> ntt_interest \<Rightarrow> ntt_interest list" where
  "reports_before e s = (if s = NTT_INTEREST_READABLE \<and> ev_write_queue e
     then report_side e NTT_INTEREST_WRITABLE else [])"

definition reports_due :: "ntt_event \<Rightarrow> ntt_interest list" where
  "reports_due e =
     (if \<not> ev_read_queue e \<and> \<not> ev_write_queue e
      then report_side e (if ev_interest e = 1 then NTT_INTEREST_READABLE else NTT_INTEREST_WRITABLE)
      else (if ev_write_queue e then report_side e NTT_INTEREST_WRITABLE else [])
        @ (if ev_read_queue e then report_side e NTT_INTEREST_READABLE else []))"

fun is_epoll_add :: "ev_log \<Rightarrow> bool" where
  "is_epoll_add (LEpollAdd h w) \<longleftrightarrow> True"
| "is_epoll_add l \<longleftrightarrow> False"

definition epoll_adds :: "ev_log list \<Rightarrow> nat" where
  "epoll_adds evs = length (filter is_epoll_add evs)"

fun is_private :: "ev_log \<Rightarrow> bool" where
  "is_private (LCall h s) \<longleftrightarrow> True"
| "is_private (LReturn c) \<longleftrightarrow> True"
| "is_private l \<longleftrightarrow> False"

definition log_balanced :: "ntt_event \<Rightarrow> ev_log list \<Rightarrow> bool" where
  "log_balanced e evs \<longleftrightarrow>
     count_list evs LSlabTake = count_list evs LSlabGive + of_bool (ev_open e) \<and>
     count_list evs LWorkEnter = count_list evs LWorkLeave
       + of_bool (ev_open e \<and> ev_flags e AND NTT_EVENT_WORK \<noteq> 0) \<and>
     (\<forall>s. count_list evs (LQueueAcquire s) = count_list evs (LQueueRelease s) + of_bool (ev_open e \<and> ev_queue e s)) \<and>
     epoll_adds evs = count_list evs LEpollDel + of_bool (ev_open e \<and> \<not> closed e)"

definition log_reports :: "ntt_event \<Rightarrow> ev_job multiset \<Rightarrow> ev_log list \<Rightarrow> bool" where
  "log_reports e J evs \<longleftrightarrow>
     (ev_open e \<and> ev_refs e \<noteq> 0 \<longrightarrow> cancel_reports (incarnation evs) = []) \<and>
     (\<forall>s. JCancelled s \<in># J \<longrightarrow> ev_queue e s \<and> cancel_reports (incarnation evs) = reports_before e s) \<and>
     (\<not> ev_open e \<and> LSlabTake \<in> set evs \<longrightarrow> cancel_reports (incarnation evs) = reports_due e)"

definition ev_log_ok :: "ev_sys \<Rightarrow> bool" where
  "ev_log_ok s \<longleftrightarrow> log_balanced (es_event s) (es_log s) \<and>
     log_reports (es_event s) (es_jobs s) (es_log s)"

fun job_special :: "ev_job \<Rightarrow> bool" where
  "job_special (JLive h EvCancel) \<longleftrightarrow> True"
| "job_special (JDrop n c) \<longleftrightarrow> True"
| "job_special (JCancelled s) \<longleftrightarrow> True"
| "job_special j \<longleftrightarrow> False"

section \<open>The log\<close>

lemma incarnation_append:
  "LSlabTake \<notin> set ys \<Longrightarrow> incarnation (xs @ ys) = incarnation xs @ ys"
  unfolding incarnation_def rev_append by (subst takeWhile_append2) auto

lemma incarnation_take: "LSlabTake \<notin> set ys \<Longrightarrow> incarnation (xs @ LSlabTake # ys) = ys"
  using incarnation_append [of ys "xs @ [LSlabTake]"] by (simp add: incarnation_def)

lemma cancel_reports_simps [simp]:
  "cancel_reports [] = []"
  "cancel_reports (xs @ ys) = cancel_reports xs @ cancel_reports ys"
  "cancel_reports (l # xs) = (case report_of l of None \<Rightarrow> cancel_reports xs | Some s \<Rightarrow> s # cancel_reports xs)"
  by (simp_all add: cancel_reports_def List.map_filter_def split: option.splits)

lemma epoll_adds_simps [simp]:
  "epoll_adds [] = 0" "epoll_adds (xs @ ys) = epoll_adds xs + epoll_adds ys"
  "epoll_adds (l # xs) = of_bool (is_epoll_add l) + epoll_adds xs"
  by (simp_all add: epoll_adds_def)

lemma private_logs:
  assumes "list_all is_private evs"
  shows "LSlabTake \<notin> set evs" "cancel_reports evs = []" "epoll_adds evs = 0" "\<not> is_private l \<Longrightarrow> count_list evs l = 0"
  using assms by (induction evs rule: list.induct) (auto elim: is_private.elims)

text \<open>Steps that only call handlers or return.\<close>

lemma log_quiet:
  assumes ok: "log_balanced e evs" "log_reports e J evs" and p: "list_all is_private new"
    and e: "ev_open e' = ev_open e" "ev_flags e' = ev_flags e" "ev_read_queue e' = ev_read_queue e"
      "ev_write_queue e' = ev_write_queue e" "ev_rc e' = ev_rc e" "ev_wc e' = ev_wc e"
      "ev_interest e' = ev_interest e" "closed e' = closed e"
    and r: "ev_refs e' \<noteq> 0 \<Longrightarrow> ev_refs e \<noteq> 0"
    and J: "\<And>s. JCancelled s \<in># J' \<Longrightarrow> JCancelled s \<in># J"
  shows "log_balanced e' (evs @ new) \<and> log_reports e' J' (evs @ new)"
proof
  have q: "ev_queue e' s = ev_queue e s" "report_side e' s = report_side e s" for s
    using e by (simp_all add: ev_queue_def report_side_def)
  then have "reports_before e' s = reports_before e s" "reports_due e' = reports_due e" for s
    using e by (simp_all add: reports_before_def reports_due_def)
  then show "log_reports e' J' (evs @ new)"
    using ok(2) r J e private_logs [OF p] q by (auto simp: log_reports_def incarnation_append)
  show "log_balanced e' (evs @ new)"
    using ok(1) e private_logs [OF p] q by (simp add: log_balanced_def)
qed

lemma ev_ok_no_reporter: "ev_ok e J \<Longrightarrow> ev_refs e \<noteq> 0 \<Longrightarrow> JCancelled s \<notin># J"
  by (cases "JCancelled s \<in># J") (auto simp: ev_ok_def dest!: multi_member_split)

lemma log_cancel:
  assumes ok: "ev_ok e (add_mset j R)" and c: "ntt_event_cancel e = (e', js, new)" and j: "\<not> job_cancelled j"
    and l: "log_balanced e evs" "log_reports e (add_mset j R) evs"
  shows "log_balanced e' (evs @ new) \<and> log_reports e' (mset js + R) (evs @ new)"
proof (cases "closed e")
  case True
  then have "new = []" "js = [JDrop 1 RetCancel]" "closed e'" "e' = e\<lparr>ev_state := ev_state e OR NTT_EVENT_CLOSED\<rparr>"
    using c by (auto simp: ntt_event_cancel_def Let_def closed_test bit_close split: if_splits)
  then show ?thesis using True by (intro log_quiet [OF l]) auto
next
  case False
  have op: "ev_open e" "ev_refs e \<noteq> 0" using ev_ok_open [OF ok j] by auto
  have e': "e' = e\<lparr>ev_state := ev_state e OR NTT_EVENT_CLOSED\<rparr>" "new = [LEpollDel]" "js = [JDrop 2 RetCancel]"
    using c False by (auto simp: ntt_event_cancel_def Let_def closed_test split: if_splits)
  have cl: "closed e'" by (simp add: e' bit_close)
  have "ev_queue e' s = ev_queue e s" for s by (simp add: e' ev_queue_def)
  then have "log_balanced e' (evs @ new)" using l(1) False cl op by (simp add: log_balanced_def) (simp add: e')
  moreover have "JCancelled s \<notin># mset js + R" for s using ev_ok_no_reporter [OF ok op(2)] by (simp add: e')
  then have "log_reports e' (mset js + R) (evs @ new)"
    using l(2) op by (simp add: log_reports_def incarnation_append e')
  ultimately show ?thesis ..
qed

text \<open>The slot goes back once all reports are out.\<close>

lemma log_give:
  assumes op: "ev_open e" "closed e" "log_balanced e evs" and J: "\<And>s. JCancelled s \<notin># J"
    and new: "new = pre @ [LSlabGive]
      @ (if ev_queue e NTT_INTEREST_READABLE then [LQueueRelease NTT_INTEREST_READABLE] else [])
      @ (if ev_queue e NTT_INTEREST_WRITABLE then [LQueueRelease NTT_INTEREST_WRITABLE] else [])
      @ (if ev_flags e AND NTT_EVENT_WORK \<noteq> 0 then [LWorkLeave] else []) @ post"
    and pre: "pre = ntt_event_report_cancelled e s" and post: "list_all is_private post"
    and due: "cancel_reports (incarnation evs) @ report_side e s = reports_due e"
  shows "log_balanced (ev_give_slot e) (evs @ new) \<and> log_reports (ev_give_slot e) J (evs @ new)"
proof
  have p: "count_list pre l = 0" "epoll_adds pre = 0" "LSlabTake \<notin> set pre" "cancel_reports pre = report_side e s"
    if "\<not> is_private l" "report_of l = None" for l
    using that by (auto simp: pre ntt_event_report_cancelled_def report_side_def)
  note q = private_logs [OF post]
  show "log_balanced (ev_give_slot e) (evs @ new)"
    unfolding log_balanced_def
  proof (intro conjI allI)
    fix t
    show "count_list (evs @ new) (LQueueAcquire t) = count_list (evs @ new) (LQueueRelease t)
        + of_bool (ev_open (ev_give_slot e) \<and> ev_queue (ev_give_slot e) t)"
      using op p(1) q(4) by (cases t) (simp_all add: log_balanced_def new ev_give_slot_def)
  qed (use op p(1) p(2) [of LSlabTake] q in \<open>simp_all add: log_balanced_def new ev_give_slot_def\<close>)
  have n: "LSlabTake \<notin> set new" "cancel_reports new = report_side e s"
    using p(3,4) [of LSlabTake] q(1,2) by (auto simp: new)
  have "reports_due (ev_give_slot e) = reports_due e"
    by (simp add: ev_give_slot_def reports_due_def report_side_def)
  then show "log_reports (ev_give_slot e) J (evs @ new)"
    using J due n by (simp add: log_reports_def incarnation_append) (simp add: ev_give_slot_def)
qed

lemma log_release:
  assumes ok: "ev_ok e (add_mset (JDrop n c) R)" and d: "ev_job_step e (JDrop n c) = (e', js, new)"
    and l: "log_balanced e evs" "log_reports e (add_mset (JDrop n c) R) evs"
  shows "log_balanced e' (evs @ new) \<and> log_reports e' (mset js + R) (evs @ new)"
proof -
  have op: "ev_open e" "ev_refs e \<noteq> 0" using ev_ok_open [OF ok] by auto
  have none: "JCancelled s \<notin># R" for s using ev_ok_no_reporter [OF ok op(2)] by simp
  let ?e = "e\<lparr>ev_refs := ev_refs e - 1\<rparr>"
  have rep: "cancel_reports (incarnation evs) = []" using l(2) op by (simp add: log_reports_def)
  show ?thesis
  proof (cases "ev_refs e = 1")
    case False
    then have "ntt_event_release e = (?e, [], [])" by (simp add: ntt_event_release_def)
    then have "(e', js, new) = (?e, if n > 1 then [JDrop (n - 1) c] else [], if n > 1 then [] else [LReturn c])"
      unfolding d [symmetric] by simp
    then have "e' = ?e" "js = (if n > 1 then [JDrop (n - 1) c] else [])" "new = (if n > 1 then [] else [LReturn c])"
      by (simp_all only: prod.inject)
    then show ?thesis using op(2) none by (intro log_quiet [OF l]) simp_all
  next
    case True
    then have "unat (ev_refs e) = 1" by simp
    moreover have "0 < n" "unat (ev_refs e) = (if \<not> closed e then 1 else 0) + n + refs_held R"
      using ok op by (auto simp: ev_ok_def)
    ultimately have cl: "closed e" "n = 1" by (auto split: if_splits)
    have l': "log_balanced ?e evs" using l(1) by (simp add: log_balanced_def ev_queue_def)
    show ?thesis
    proof (cases "ev_queue ?e NTT_INTEREST_READABLE \<or> ev_queue ?e NTT_INTEREST_WRITABLE")
      case q: True
      let ?s = "if ev_queue ?e NTT_INTEREST_WRITABLE then NTT_INTEREST_WRITABLE else NTT_INTEREST_READABLE"
      have e': "e' = ?e" "js = [JCancelled ?s]" "new = [LReturn c]"
        using d True cl(2) q by (auto simp: ntt_event_release_def ntt_event_post_cancelled_def Let_def)
      have "ev_queue ?e ?s" "reports_before ?e ?s = []" using q
        by (auto simp: reports_before_def ev_queue_def ntt_event_side_index_def)
      then have "log_reports e' (mset js + R) (evs @ new)"
        using True op none rep by (simp add: e' log_reports_def incarnation_append)
      moreover have "log_balanced e' (evs @ new)" using l' by (simp add: e' log_balanced_def)
      ultimately show ?thesis by blast
    next
      case q: False
      let ?s = "if ev_interest ?e = ucast (interest_bits NTT_INTEREST_READABLE)
        then NTT_INTEREST_READABLE else NTT_INTEREST_WRITABLE"
      have q': "\<not> ev_read_queue e" "\<not> ev_write_queue e" using q by (simp_all add: ev_queue_def ntt_event_side_index_def)
      have e': "e' = ev_give_slot ?e" "js = []" using d True cl(2) q
        by (auto simp: ntt_event_release_def ntt_event_teardown_def Let_def)
      have new: "new = ntt_event_report_cancelled ?e ?s @ [LSlabGive]
          @ (if ev_queue ?e NTT_INTEREST_READABLE then [LQueueRelease NTT_INTEREST_READABLE] else [])
          @ (if ev_queue ?e NTT_INTEREST_WRITABLE then [LQueueRelease NTT_INTEREST_WRITABLE] else [])
          @ (if ev_flags ?e AND NTT_EVENT_WORK \<noteq> 0 then [LWorkLeave] else []) @ [LReturn c]"
        using d True cl(2) q by (simp add: ntt_event_release_def ntt_event_teardown_def Let_def)
      have "cancel_reports (incarnation evs) @ report_side ?e ?s = reports_due ?e"
        using rep q' by (simp add: reports_due_def)
      from log_give [OF _ _ l' none new refl _ this] show ?thesis using op cl by (simp add: e')
    qed
  qed
qed

lemma log_cancelled:
  assumes ok: "ev_ok e (add_mset (JCancelled s) R)" and d: "ntt_event_cancelled_task_svc e s = (e', js, new)"
    and l: "log_balanced e evs" "log_reports e (add_mset (JCancelled s) R) evs"
  shows "log_balanced e' (evs @ new) \<and> log_reports e' (mset js + R) (evs @ new)"
proof -
  have op: "ev_open e" "ev_refs e = 0" "reporters R = 0" using ok by (auto simp: ev_ok_def split: if_splits)
  then have cl: "closed e" using ok by (auto simp: ev_ok_def split: if_splits)
  have none: "JCancelled t \<notin># R" for t using op(3) by (auto dest!: multi_member_split)
  have rep: "ev_queue e s" "cancel_reports (incarnation evs) = reports_before e s"
    using l(2) by (simp_all add: log_reports_def)
  show ?thesis
  proof (cases "s = NTT_INTEREST_WRITABLE \<and> ev_queue e NTT_INTEREST_READABLE")
    case True
    then have e': "e' = e" "js = [JCancelled NTT_INTEREST_READABLE]" "new = ntt_event_report_cancelled e s"
      using d by (auto simp: ntt_event_cancelled_task_svc_def ntt_event_post_cancelled_def)
    have p: "LSlabTake \<notin> set new" "cancel_reports new = report_side e s" "epoll_adds new = 0"
      "report_of l = None \<Longrightarrow> count_list new l = 0" for l
      by (auto simp: e' ntt_event_report_cancelled_def report_side_def)
    have "ev_write_queue e" using rep(1) True by (simp add: ev_queue_def ntt_event_side_index_def)
    then have "log_reports e' (mset js + R) (evs @ new)"
      using True rep op none p by (simp add: log_reports_def incarnation_append e'(1,2) reports_before_def)
    moreover have "log_balanced e' (evs @ new)" using l(1) p by (simp add: log_balanced_def e'(1))
    ultimately show ?thesis by blast
  next
    case False
    have e': "e' = ev_give_slot e" "js = []" "new = ntt_event_report_cancelled e s @ snd (ntt_event_finish e)"
      using d False by (auto simp: ntt_event_cancelled_task_svc_def ntt_event_finish_def Let_def)
    have new: "new = ntt_event_report_cancelled e s @ [LSlabGive]
        @ (if ev_queue e NTT_INTEREST_READABLE then [LQueueRelease NTT_INTEREST_READABLE] else [])
        @ (if ev_queue e NTT_INTEREST_WRITABLE then [LQueueRelease NTT_INTEREST_WRITABLE] else [])
        @ (if ev_flags e AND NTT_EVENT_WORK \<noteq> 0 then [LWorkLeave] else []) @ []"
      by (simp add: e'(3) ntt_event_finish_def)
    have "cancel_reports (incarnation evs) @ report_side e s = reports_due e"
      using rep False by (cases s) (auto simp: reports_due_def reports_before_def ev_queue_def ntt_event_side_index_def)
    from log_give [OF op(1) cl l(1) none new refl _ this] show ?thesis by (simp add: e'(1,2))
  qed
qed

lemma leave_closed [simp]: "bit (snd (leave_next s st)) 4 = bit st 4"
  by (simp add: bit_leave(2))

lemma claim_closed: "claim_next s st = Some st' \<Longrightarrow> bit st' 4 = bit st 4"
  by (simp add: bit_claim(4))

lemma publish_closed [simp]: "bit (st OR ntt_event_side_state sides NTT_EVENT_SIDE_READY) 4 = bit st 4"
  by (simp add: bit_publish)

lemmas ev_step_defs = ntt_event_dispatch_def event_publish_def ntt_event_deliver_side_def ntt_event_claim_side_def
  ntt_event_call_def ntt_event_post_side_def ntt_event_side_task_svc_def ntt_event_serve_side_def
  ntt_event_leave_side_def ntt_event_cancel_def ntt_event_release_def ntt_event_teardown_def
  ntt_event_cancelled_task_svc_def ntt_event_finish_def ntt_event_report_cancelled_def ntt_event_post_cancelled_def
  Let_def case_prod_beta

text \<open>All other jobs leave the event open and touch nothing but the counter and the state word.\<close>

lemma job_quiet:
  assumes "ev_job_step e j = (e', js, new)" "\<not> job_special j"
  shows "list_all is_private new" "ev_open e' = ev_open e" "ev_flags e' = ev_flags e" "ev_read_queue e' = ev_read_queue e"
    "ev_write_queue e' = ev_write_queue e" "ev_rc e' = ev_rc e" "ev_wc e' = ev_wc e"
    "ev_interest e' = ev_interest e" "closed e' = closed e" "\<not> list_ex job_cancelled js"
    "ev_index e' = ev_index e" "ev_generation e' = ev_generation e"
  using assms
  by (induction e j rule: ev_job_step.induct)
     (auto simp: ev_step_defs claim_closed split: if_splits option.splits ev_call.splits)

lemma ev_log_job:
  assumes ok: "ev_ok e (add_mset j R)" and d: "ev_job_step e j = (e', js, new)"
    and l: "log_balanced e evs" "log_reports e (add_mset j R) evs" and b: "unat (ev_refs e) < 4294967294"
  shows "log_balanced e' (evs @ new) \<and> log_reports e' (mset js + R) (evs @ new)"
proof (cases "job_special j")
  case False
  note q = job_quiet [OF d False]
  have nc: "\<not> job_cancelled j" using False by (cases j) auto
  have op: "ev_open e" "ev_refs e \<noteq> 0" using ev_ok_open [OF ok nc] by auto
  have "JCancelled s \<notin> set js" for s using q(10) by (auto simp: list_ex_iff)
  then show ?thesis using q op(2) by (intro log_quiet [OF l q(1)]) auto
next
  case True
  then consider h where "j = JLive h EvCancel" | n c where "j = JDrop n c" | s where "j = JCancelled s"
    by (cases j rule: job_special.cases) auto
  then show ?thesis
  proof cases
    case (1 h)
    show ?thesis
    proof (cases "ev_generation e = ntt_event_handle_generation h")
      case True
      then have "ntt_event_cancel e = (e', js, new)" using d 1 by simp
      from log_cancel [OF ok this _ l] show ?thesis using 1 by simp
    next
      case False
      then have e': "e' = e" "js = [JDrop 1 RetStale]" "new = []" using d 1 by auto
      show ?thesis by (intro log_quiet [OF l]) (auto simp: e')
    qed
  next
    case (2 n c)
    show ?thesis using log_release ok d l unfolding 2 by blast
  next
    case (3 s)
    then have "ntt_event_cancelled_task_svc e s = (e', js, new)" using d by simp
    then show ?thesis using log_cancelled ok l unfolding 3 by blast
  qed
qed

lemma ev_log_open:
  assumes "\<not> ev_open e" "log_balanced e evs" "ntt_event_open e params events flags = (e', new)"
  shows "log_balanced e' (evs @ new) \<and> log_reports e' {#} (evs @ new)"
proof
  define pre where "pre = (if pa_read_queue params then [LQueueAcquire NTT_INTEREST_READABLE] else [])
    @ (if pa_write_queue params then [LQueueAcquire NTT_INTEREST_WRITABLE] else [])
    @ (if flags AND NTT_EVENT_WORK \<noteq> 0 then [LWorkEnter] else [])"
  have new: "new = LSlabTake # pre @ [LEpollAdd (ev_handle e') events]"
    and e': "ev_open e'" "ev_flags e' = flags" "ev_state e' = 0" "ev_refs e' = 1"
      "ev_read_queue e' = pa_read_queue params" "ev_write_queue e' = pa_write_queue params"
    using assms(3) by (auto simp: ntt_event_open_def Let_def pre_def ev_queue_def ntt_event_side_index_def)
  have pre: "LSlabTake \<notin> set pre" "cancel_reports pre = []" "epoll_adds pre = 0" by (auto simp: pre_def)
  show "log_reports e' {#} (evs @ new)"
    using pre e' by (simp add: log_reports_def new incarnation_take)
  show "log_balanced e' (evs @ new)"
    unfolding log_balanced_def
  proof (intro conjI allI)
    fix s
    show "count_list (evs @ new) (LQueueAcquire s) = count_list (evs @ new) (LQueueRelease s) + of_bool (ev_open e' \<and> ev_queue e' s)"
      using assms(1,2) e' by (cases s) (simp_all add: log_balanced_def new pre_def ev_queue_def ntt_event_side_index_def)
  qed (use assms(1,2) e' pre in \<open>simp_all add: log_balanced_def new, simp_all add: pre_def\<close>)
qed

lemma ev_step_log:
  assumes "ev_step s s'" "ev_inv s" "ev_log_ok s"
  shows "ev_log_ok s'"
  using assms
proof (induction rule: ev_step.cases)
  case (ev_open_step s params events flags e evs)
  then have "es_jobs s = {#}" using ev_ok_no_jobs by (auto simp: ev_inv_def)
  then show ?case using ev_open_step ev_log_open [of "es_event s" "es_log s" params events flags e evs]
    by (simp add: ev_log_ok_def)
next
  case (ev_call_step s h c e js)
  have "log_balanced e (es_log s @ []) \<and> log_reports e (es_jobs s + mset js) (es_log s @ [])"
    by (rule log_quiet [of "es_event s" _ "es_jobs s"])
      (use ev_call_step in \<open>auto simp: ev_log_ok_def ntt_event_live_def ntt_event_acquire_if_live_def
        acquire_next_def case_prod_beta split: if_splits\<close>)
  then show ?case using ev_call_step by (simp add: ev_log_ok_def)
next
  case (ev_job_step j s e js evs)
  let ?R = "es_jobs s - {#j#}"
  have J: "add_mset j ?R = es_jobs s" using ev_job_step by simp
  have "ev_ok (es_event s) (add_mset j ?R)" "log_balanced (es_event s) (es_log s)"
    "log_reports (es_event s) (add_mset j ?R) (es_log s)"
    using ev_job_step unfolding J by (auto simp: ev_inv_def ev_log_ok_def)
  from ev_log_job [OF this(1) _ this(2,3)] show ?case using ev_job_step by (simp add: ev_log_ok_def union_commute)
qed

lemma ev_reachable_log: "ev_reachable s \<Longrightarrow> ev_log_ok s"
proof (induction rule: ev_reachable.induct)
  case (ev_start index)
  show ?case by (simp add: ev_log_ok_def log_balanced_def log_reports_def ev_init_def)
next
  case (ev_next s s')
  then show ?case using ev_step_log ev_reachable_inv by blast
qed

end
