(* ===== verification/Draining.thy ===== *)
theory Draining
  imports Main
begin

text \<open>
  Systems that come to rest: every step of what is in flight uses up some work, and as long as the
  system is not at rest a step is possible. The events interpret this locale for the end of a
  cancelled event, the queues for running a queue dry.
\<close>

locale draining =
  fixes step :: "'s \<Rightarrow> 's \<Rightarrow> bool"
    and inv :: "'s \<Rightarrow> bool"
    and work :: "'s \<Rightarrow> nat"
    and rest :: "'s \<Rightarrow> bool"
  assumes step_inv: "inv s \<Longrightarrow> step s s' \<Longrightarrow> inv s'"
    and step_work: "inv s \<Longrightarrow> step s s' \<Longrightarrow> work s' < work s"
    and progress: "inv s \<Longrightarrow> \<not> rest s \<Longrightarrow> \<exists>s'. step s s'"
begin

lemma steps_bound: "(step ^^ n) s s' \<Longrightarrow> inv s \<Longrightarrow> inv s' \<and> n + work s' \<le> work s"
proof (induction n arbitrary: s')
  case (Suc n)
  then obtain t where t: "(step ^^ n) s t" "step t s'" by auto
  from Suc.IH [OF t(1) Suc.prems(2)] have "inv t" "n + work t \<le> work s" by auto
  with step_inv [OF \<open>inv t\<close> t(2)] step_work [OF \<open>inv t\<close> t(2)] show ?case by simp
qed simp

text \<open>However the steps are chosen, there is only so much to do, and it goes on until the rest.\<close>

lemma every_run:
  assumes "inv s" "(step ^^ n) s s'"
  shows "n \<le> work s \<and> (rest s' \<or> (\<exists>s''. step s' s''))"
  using steps_bound [OF assms(2,1)] progress by auto

lemma comes_to_rest:
  assumes inv: "inv s"
  shows "\<exists>n s'. (step ^^ n) s s' \<and> rest s'"
proof (rule ccontr)
  assume none: "\<not> ?thesis"
  have "\<exists>s'. (step ^^ n) s s'" for n
  proof (induction n)
    case (Suc n)
    then obtain t where t: "(step ^^ n) s t" by blast
    with none every_run [OF inv t] obtain t' where "step t t'" by blast
    with t show ?case by auto
  qed simp
  then obtain s' where "(step ^^ Suc (work s)) s s'" by blast
  from every_run [OF inv this] show False by simp
qed

end

end
