(* ===== verification/Event_Live.thy ===== *)
theory Event_Live
  imports Event_Log Draining
begin

text \<open>
  Handles, the end of a cancelled event and the compare-exchange loops: every handle in flight is the
  handle of the event in the slot (\<open>ev_handles_ok\<close>), a cancelled event runs out of work
  (\<open>ev_drain\<close>, \<open>ev_work\<close>), and a loop does what its one-step operation does.
\<close>

section \<open>Handles, measures and drains\<close>

fun job_handle :: "ev_job \<Rightarrow> u64 option" where
  "job_handle (JPublish h sides) = Some h"
| "job_handle (JDeliver h rest) = Some h"
| "job_handle (JPost h s rest) = Some h"
| "job_handle (JPlain h rest) = Some h"
| "job_handle (JRun h s k) = Some h"
| "job_handle j = None"

fun job_call :: "ev_job \<Rightarrow> u64 option" where
  "job_call (JLive h c) = Some h"
| "job_call j = None"

fun log_call :: "ev_log \<Rightarrow> u64 option" where
  "log_call (LCall h s) = Some h"
| "log_call l = None"

definition ev_handles_ok :: "ntt_event \<Rightarrow> ev_job multiset \<Rightarrow> ev_log list \<Rightarrow> bool" where
  "ev_handles_ok e J evs \<longleftrightarrow>
     (\<forall>j \<in># J. (\<forall>h. job_handle j = Some h \<longrightarrow> h = ev_handle e) \<and>
        (\<forall>h. job_call j = Some h \<longrightarrow> ntt_event_handle_index h = ev_index e)) \<and>
     (ev_open e \<longrightarrow> (\<forall>l \<in> set (incarnation evs). \<forall>h. log_call l = Some h \<longrightarrow> h = ev_handle e))"

text \<open>How many accesses a job has still to make once no side can be claimed any more.\<close>

fun job_work :: "ev_job \<Rightarrow> nat" where
  "job_work (JLive h c) = 8"
| "job_work (JPublish h sides) = 7"
| "job_work (JDeliver h rest) = 4 + length rest"
| "job_work (JPost h s rest) = 10 + length rest"
| "job_work (JPlain h rest) = 4 + length rest"
| "job_work (JTask s) = 5"
| "job_work (JRun h s k) = (case k of None \<Rightarrow> 4 | Some rest \<Rightarrow> 5 + length rest)"
| "job_work (JDrop n c) = 3 * n"
| "job_work (JCancelled s) = (if s = NTT_INTEREST_WRITABLE then 2 else 1)"

definition ev_work :: "ev_job multiset \<Rightarrow> nat" where
  "ev_work J = (\<Sum>j \<in># J. job_work j)"

text \<open>A step that carries on what is in flight, without a new call and without a new event.\<close>

inductive ev_drain :: "ev_sys \<Rightarrow> ev_sys \<Rightarrow> bool" where
  ev_drain_job: "j \<in># es_jobs s \<Longrightarrow> unat (ev_refs (es_event s)) < 4294967294 \<Longrightarrow>
    ev_job_step (es_event s) j = (e, js, evs) \<Longrightarrow>
    ev_drain s \<lparr>es_event = e, es_jobs = es_jobs s - {#j#} + mset js, es_log = es_log s @ evs\<rparr>"

fun job_post :: "ev_job \<Rightarrow> nat" where
  "job_post (JPost h s rest) = 1"
| "job_post j = 0"

definition ev_ceiling :: "ev_sys \<Rightarrow> nat" where
  "ev_ceiling s = unat (ev_refs (es_event s)) + (\<Sum>j \<in># es_jobs s. job_post j)"

definition ev_closing :: "ev_sys \<Rightarrow> bool" where
  "ev_closing s \<longleftrightarrow> ev_inv s \<and> closed (es_event s) \<and> ev_ceiling s < 4294967294"

section \<open>Handles\<close>

lemma handle_split:
  fixes h :: u64
  shows "ntt_event_handle_of (ntt_event_handle_index h) (ntt_event_handle_generation h) = h"
proof (rule bit_eqI)
  fix n assume "possible_bit TYPE(u64) n"
  then have n: "n < 64" by simp
  show "bit (ntt_event_handle_of (ntt_event_handle_index h) (ntt_event_handle_generation h)) n = bit h n"
    using n bit_imp_le_length [of h n]
    by (auto simp: ntt_event_handle_of_def ntt_event_handle_index_def ntt_event_handle_generation_def
        bit_or_iff bit_push_bit_iff bit_unsigned_iff bit_drop_bit_eq)
qed

lemma handle_parts:
  "ntt_event_handle_index (ntt_event_handle_of i g) = i"
  "ntt_event_handle_generation (ntt_event_handle_of i g) = g"
proof -
  have lt: "\<not> bit i n" "\<not> bit g n" if "32 \<le> n" for n
    using that bit_imp_le_length [of i n] bit_imp_le_length [of g n] by auto
  show "ntt_event_handle_index (ntt_event_handle_of i g) = i"
    by (rule bit_eqI) (auto simp: ntt_event_handle_of_def ntt_event_handle_index_def
        bit_or_iff bit_push_bit_iff bit_unsigned_iff)
  show "ntt_event_handle_generation (ntt_event_handle_of i g) = g"
    by (rule bit_eqI) (use lt in \<open>auto simp: ntt_event_handle_of_def ntt_event_handle_generation_def
        bit_or_iff bit_push_bit_iff bit_unsigned_iff bit_drop_bit_eq\<close>)
qed

text \<open>A handle that passes the check of the generation is the handle of the event.\<close>

lemma handle_checked:
  "ntt_event_handle_index h = ev_index e \<Longrightarrow> ev_generation e = ntt_event_handle_generation h \<Longrightarrow> h = ev_handle e"
  using handle_split [of h] by (simp add: ev_handle_def)

text \<open>Every job hands on the handle it was given or takes the one of the event.\<close>

lemma job_handles:
  assumes "ev_job_step e j = (e', js, new)"
    and "\<And>h. job_handle j = Some h \<Longrightarrow> h = ev_handle e"
    and "\<And>h. job_call j = Some h \<Longrightarrow> ntt_event_handle_index h = ev_index e"
  shows "k \<in> set js \<Longrightarrow> job_handle k = Some h \<Longrightarrow> h = ev_handle e"
    and "k \<in> set js \<Longrightarrow> job_call k = None"
    and "l \<in> set new \<Longrightarrow> log_call l = Some h \<Longrightarrow> h = ev_handle e"
  using assms
  by (induction e j rule: ev_job_step.induct)
     (auto simp: ev_step_defs handle_checked split: if_splits option.splits ev_call.splits)

lemma job_step_index:
  assumes "ev_job_step e j = (e', js, new)"
  shows "ev_index e' = ev_index e" "ev_open e' \<Longrightarrow> ev_open e" "LSlabTake \<notin> set new"
    "ev_generation e' = (if ev_open e \<and> \<not> ev_open e' then ev_generation e + 1 else ev_generation e) \<or> \<not> ev_open e"
  using assms
  by (induction e j rule: ev_job_step.induct)
     (auto simp: ev_step_defs ev_give_slot_def split: if_splits option.splits ev_call.splits)

lemma ev_handles_job:
  assumes ok: "ev_ok e (add_mset j R)" "ev_handles_ok e (add_mset j R) evs" and d: "ev_job_step e j = (e', js, new)"
    and ok': "ev_ok e' (mset js + R)"
  shows "ev_handles_ok e' (mset js + R) (evs @ new)"
proof (cases "ev_open e'")
  case False
  then have "mset js + R = {#}" using ev_ok_no_jobs [OF ok'] by simp
  then show ?thesis using False by (simp add: ev_handles_ok_def)
next
  case True
  note s = job_step_index [OF d]
  have h: "ev_handle e' = ev_handle e" using s(1,2,4) True by (auto simp: ev_handle_def)
  have "\<And>h. job_handle j = Some h \<Longrightarrow> h = ev_handle e"
    "\<And>h. job_call j = Some h \<Longrightarrow> ntt_event_handle_index h = ev_index e" using ok(2) by (auto simp: ev_handles_ok_def)
  note jh = job_handles [OF d this]
  have "(\<forall>h. job_handle k = Some h \<longrightarrow> h = ev_handle e) \<and> (\<forall>h. job_call k = Some h \<longrightarrow> ntt_event_handle_index h = ev_index e)"
    if "k \<in># mset js + R" for k
    using that jh(1,2) [of k] ok(2) by (auto simp: ev_handles_ok_def)
  moreover have "h = ev_handle e" if "l \<in> set (incarnation (evs @ new))" "log_call l = Some h" for l h
    using that jh(3) [of l h] ok(2) s(2,3) True by (auto simp: ev_handles_ok_def incarnation_append)
  ultimately show ?thesis unfolding ev_handles_ok_def h s(1) by blast
qed

lemma ev_step_handles:
  assumes "ev_step s s'" "ev_inv s" "ev_handles_ok (es_event s) (es_jobs s) (es_log s)"
  shows "ev_handles_ok (es_event s') (es_jobs s') (es_log s')"
  using assms
proof (induction rule: ev_step.cases)
  case (ev_open_step s params events flags e evs)
  then have J: "es_jobs s = {#}" using ev_ok_no_jobs by (auto simp: ev_inv_def)
  have inc: "incarnation (es_log s @ evs) = tl evs"
    using incarnation_take [of "tl evs" "es_log s"] ev_open_step by (auto simp: ntt_event_open_def Let_def)
  have "log_call l = None" if "l \<in> set (tl evs)" for l
    using that ev_open_step by (auto simp: ntt_event_open_def Let_def split: if_splits)
  then show ?case using ev_open_step J inc by (auto simp: ev_handles_ok_def)
next
  case (ev_call_step s h c e js)
  then have "ev_handle e = ev_handle (es_event s)" "ev_index e = ev_index (es_event s)" "ev_open e = ev_open (es_event s)"
    "js = [] \<or> js = [JLive h c]"
    by (auto simp: ntt_event_live_def ntt_event_acquire_if_live_def ev_handle_def case_prod_beta acquire_next_def split: if_splits)
  then show ?case using ev_call_step by (auto simp: ev_handles_ok_def)
next
  case (ev_job_step j s e js evs)
  let ?R = "es_jobs s - {#j#}"
  have J: "add_mset j ?R = es_jobs s" using ev_job_step by simp
  have ok: "ev_ok (es_event s) (add_mset j ?R)" "ev_handles_ok (es_event s) (add_mset j ?R) (es_log s)"
    using ev_job_step unfolding J by (auto simp: ev_inv_def)
  from ev_handles_job [OF ok _ ev_ok_job [OF ok(1)]] show ?case using ev_job_step by (simp add: union_commute)
qed

lemma ev_reachable_handles: "ev_reachable s \<Longrightarrow> ev_handles_ok (es_event s) (es_jobs s) (es_log s)"
proof (induction rule: ev_reachable.induct)
  case (ev_start index)
  show ?case by (simp add: ev_handles_ok_def ev_init_def)
next
  case (ev_next s s')
  then show ?case using ev_step_handles ev_reachable_inv by blast
qed

section \<open>After the cancellation\<close>

lemma mask_sides_length: "length (mask_sides sides [a, b]) < 3" "length (mask_sides sides [a, b]) < 4"
  by (simp_all add: mask_sides_def)

lemma job_work_step:
  assumes "ev_job_step e j = (e', js, new)" "closed e" "job_wf j"
  shows "sum_list (map job_work js) < job_work j"
  using assms
  by (induction e j rule: ev_job_step.induct)
     (auto simp: ev_step_defs claim_next_eq bit_leave closed_test mask_sides_length
       split: if_splits option.splits ev_call.splits)

lemma ev_drain_step: "ev_drain s s' \<Longrightarrow> ev_step s s'"
  by (auto elim!: ev_drain.cases intro: ev_step.ev_job_step)

lemma ev_work_simps [simp]: "ev_work {#} = 0" "ev_work (add_mset j J) = job_work j + ev_work J"
  "ev_work (J + K) = ev_work J + ev_work K" "ev_work (mset js) = sum_list (map job_work js)"
  by (simp_all add: ev_work_def flip: sum_mset_sum_list mset_map)

lemma job_step_closed:
  assumes "ev_job_step e j = (e', js, new)" "closed e"
  shows "closed e'"
  using assms
  by (induction e j rule: ev_job_step.induct)
     (auto simp: ev_step_defs ev_give_slot_def claim_closed bit_close
       split: if_splits option.splits ev_call.splits)

lemma ev_drain_work:
  assumes "ev_drain s s'" "ev_inv s" "closed (es_event s)"
  shows "ev_work (es_jobs s') < ev_work (es_jobs s)" "closed (es_event s')" "ev_inv s'"
proof -
  show "ev_inv s'" using assms ev_drain_step ev_step_inv by blast
  from assms show "ev_work (es_jobs s') < ev_work (es_jobs s)"
  proof cases
    case (ev_drain_job j e js evs)
    obtain R where R: "es_jobs s = add_mset j R" using ev_drain_job(2) by (meson multi_member_split)
    have "job_wf j" using assms(2) R by (simp add: ev_inv_def ev_ok_def)
    from job_work_step [OF ev_drain_job(4) assms(3) this] show ?thesis by (simp add: ev_drain_job(1) R)
  qed
  from assms(1) show "closed (es_event s')"
    by cases (use job_step_closed assms(3) in auto)
qed

text \<open>While the event is open and closed for claims, something is in flight.\<close>

lemma ev_drain_progress:
  assumes inv: "ev_inv s" and cl: "closed (es_event s)" and op: "ev_open (es_event s)"
    and b: "unat (ev_refs (es_event s)) < 4294967294"
  shows "\<exists>s'. ev_drain s s'"
proof -
  have "es_jobs s \<noteq> {#}" using inv cl op by (auto simp: ev_inv_def ev_ok_def split: if_splits)
  then obtain j where j: "j \<in># es_jobs s" by blast
  obtain e js evs where "ev_job_step (es_event s) j = (e, js, evs)" by (metis prod_cases3)
  from ev_drain_job [OF j b this] show ?thesis by blast
qed

lemma job_ceiling:
  assumes "ev_job_step e j = (e', js, new)" "closed e" "\<not> job_cancelled j \<Longrightarrow> ev_refs e \<noteq> 0"
    and "unat (ev_refs e) < 4294967294"
  shows "unat (ev_refs e') + sum_list (map job_post js) \<le> unat (ev_refs e) + job_post j"
  using assms
  by (induction e j rule: ev_job_step.induct)
     (auto simp: ev_step_defs ev_give_slot_def claim_next_eq bit_leave unat_refs_pred unat_refs_succ
       split: if_splits option.splits ev_call.splits)

lemma ev_drain_ceiling:
  assumes "ev_drain s s'" "ev_inv s" "closed (es_event s)"
  shows "ev_ceiling s' \<le> ev_ceiling s"
  using assms
proof cases
  case (ev_drain_job j e js evs)
  obtain R where R: "es_jobs s = add_mset j R" using ev_drain_job(2) by (meson multi_member_split)
  have "\<not> job_cancelled j \<Longrightarrow> ev_refs (es_event s) \<noteq> 0"
    using assms(2) ev_ok_open [of "es_event s" j R] by (auto simp: ev_inv_def R)
  from job_ceiling [OF ev_drain_job(4) assms(3) this ev_drain_job(3)] show ?thesis
    by (simp add: ev_ceiling_def ev_drain_job(1) R add.commute flip: sum_mset_sum_list mset_map)
qed

lemma posts_le_owners: "(\<Sum>j \<in># J. job_post j) \<le> owners NTT_INTEREST_READABLE J + owners NTT_INTEREST_WRITABLE J"
proof (induction J)
  case (add j J)
  moreover have "job_post j \<le> of_bool (job_owns NTT_INTEREST_READABLE j) + of_bool (job_owns NTT_INTEREST_WRITABLE j)"
    by (cases j) (auto intro: ntt_interest.exhaust)
  ultimately show ?case by (auto simp: of_bool_def split: if_splits)
qed simp

lemma ev_ceiling_start: "ev_inv s \<Longrightarrow> ev_ceiling s \<le> unat (ev_refs (es_event s)) + 2"
proof -
  assume "ev_inv s"
  then have "owners t (es_jobs s) \<le> 1" for t by (simp add: ev_inv_def ev_ok_def)
  from this [of NTT_INTEREST_READABLE] this [of NTT_INTEREST_WRITABLE] posts_le_owners [of "es_jobs s"]
  show ?thesis by (simp add: ev_ceiling_def)
qed

interpretation ev_draining: draining ev_drain ev_closing "\<lambda>s. ev_work (es_jobs s)" "\<lambda>s. \<not> ev_open (es_event s)"
proof
  fix s s'
  assume s: "ev_closing s" "ev_drain s s'"
  then show "ev_closing s'" using ev_drain_work(2,3) ev_drain_ceiling by (fastforce simp: ev_closing_def)
  show "ev_work (es_jobs s') < ev_work (es_jobs s)" using s ev_drain_work(1) by (simp add: ev_closing_def)
next
  fix s
  assume "ev_closing s" "\<not> \<not> ev_open (es_event s)"
  then show "\<exists>s'. ev_drain s s'" by (intro ev_drain_progress) (auto simp: ev_closing_def ev_ceiling_def)
qed

lemma ev_closing_start:
  "ev_inv s \<Longrightarrow> closed (es_event s) \<Longrightarrow> unat (ev_refs (es_event s)) < 4294967292 \<Longrightarrow> ev_closing s"
  using ev_ceiling_start [of s] by (simp add: ev_closing_def)

section \<open>Attempts of the loops\<close>

declare claim_loop.simps [simp del] acquire_loop.simps [simp del]

lemma claim_loop_last:
  assumes "claim_loop side state mems = Some (r, mem, new)"
  shows "mem \<in> set (state # map fst mems) \<and> claim_next side mem = new \<and> (r \<longleftrightarrow> new \<noteq> None)"
  using assms
proof (induction mems arbitrary: state)
  case Nil
  then show ?case by (subst (asm) claim_loop.simps) (auto split: option.splits)
next
  case (Cons m mems)
  then show ?case by (subst (asm) (2) claim_loop.simps) (auto split: option.splits if_splits prod.splits, metis)
qed

lemma leave_loop_last:
  assumes "leave_loop side state mems = Some (r, mem, new)"
  shows "mem \<in> set (map fst mems) \<and> (\<exists>w. new = Some w \<and> leave_next side mem = (r, w))"
  using assms
  by (induction side state mems rule: leave_loop.induct) (auto split: if_splits prod.splits)

lemma acquire_loop_last:
  assumes "acquire_loop refs mems = Some (r, mem, new)"
  shows "mem \<in> set (refs # map fst mems) \<and> acquire_next mem = new \<and> (r \<longleftrightarrow> new \<noteq> None)"
  using assms
proof (induction mems arbitrary: refs)
  case Nil
  then show ?case by (subst (asm) acquire_loop.simps) (auto split: option.splits)
next
  case (Cons m mems)
  then show ?case by (subst (asm) (2) acquire_loop.simps) (auto split: option.splits if_splits prod.splits, metis)
qed

text \<open>A loop returns as soon as an attempt is not disturbed.\<close>

lemma claim_loop_returns: "claim_loop side state (mems @ [(m, sp), (m, False)]) \<noteq> None"
proof (induction mems arbitrary: state)
  case Nil
  then show ?case
    by (subst claim_loop.simps, simp split: option.split, subst claim_loop.simps, auto split: option.split)
next
  case (Cons a mems)
  then show ?case by (subst claim_loop.simps) (auto split: option.split prod.split)
qed

lemma leave_loop_returns: "leave_loop side state (mems @ [(m, sp), (m, False)]) \<noteq> None"
  by (induction mems arbitrary: state) (auto simp: Let_def split: prod.split)

lemma acquire_loop_returns: "acquire_loop refs (mems @ [(m, sp), (m, False)]) \<noteq> None"
proof (induction mems arbitrary: refs)
  case Nil
  then show ?case
    by (subst acquire_loop.simps, simp split: option.split, subst acquire_loop.simps, auto split: option.split)
next
  case (Cons a mems)
  then show ?case by (subst acquire_loop.simps) (auto split: option.split prod.split)
qed

end
