(* ===== verification/Schedules.thy ===== *)
theory Schedules
  imports Main
begin

text \<open>
  Schedules: lists of actions that are carried out one after the other, \<open>None\<close> as soon as one is not possible. What the actions
  of a machine keep, a schedule keeps; the machines interpret the locale with the states they reach.
\<close>

fun run_acts :: "('a \<Rightarrow> 's \<Rightarrow> 's option) \<Rightarrow> 'a list \<Rightarrow> 's \<Rightarrow> 's option" where
  "run_acts step [] s = Some s"
| "run_acts step (a # as) s = (case step a s of None \<Rightarrow> None | Some s' \<Rightarrow> run_acts step as s')"

text \<open>An action under its guard.\<close>

definition guarded :: "('s \<Rightarrow> 'a \<Rightarrow> bool) \<Rightarrow> ('a \<Rightarrow> 's \<Rightarrow> 's option) \<Rightarrow> 'a \<Rightarrow> 's \<Rightarrow> 's option" where
  "guarded enabled act a s = (if enabled s a then act a s else None)"

lemma guarded_simp [simp]: "guarded enabled act a s = (if enabled s a then act a s else None)"
  by (simp add: guarded_def)

locale scheduled =
  fixes step :: "'a \<Rightarrow> 's \<Rightarrow> 's option"
    and reach :: "'s \<Rightarrow> bool"
  assumes step_reach: "reach s \<Longrightarrow> step a s = Some s' \<Longrightarrow> reach s'"
begin

lemma run_reach: "reach s \<Longrightarrow> run_acts step as s = Some s' \<Longrightarrow> reach s'"
  by (induction as arbitrary: s) (auto intro: step_reach split: option.splits)

lemma run_append: "run_acts step (as @ bs) s = (case run_acts step as s of None \<Rightarrow> None | Some t \<Rightarrow> run_acts step bs t)"
  by (induction as arbitrary: s) (auto split: option.splits)

end

end
