(* ===== verification/Event_Props.thy ===== *)
theory Event_Props
  imports Event_Live Schedules
begin

text \<open>
  The properties of the events, each over all reachable states of a slot, with a concrete schedule
  that shows where they apply: an event is opened, one side is dispatched, and the event is cancelled
  while the task of that side waits in its queue.
\<close>

section \<open>Schedules\<close>

datatype ev_act = ActOpen ntt_event_params u32 u8 | ActCall u64 ev_call | ActJob ev_job

fun ev_act_step :: "ev_act \<Rightarrow> ev_sys \<Rightarrow> ev_sys option" where
  "ev_act_step (ActOpen params events flags) s =
     (if ev_open (es_event s) then None
      else let (e, evs) = ntt_event_open (es_event s) params events flags
           in Some (s\<lparr>es_event := e, es_log := es_log s @ evs\<rparr>))"
| "ev_act_step (ActCall handle call) s =
     (if unat (ev_refs (es_event s)) < 4294967294 \<and> ntt_event_handle_index handle = ev_index (es_event s)
      then let (e, js) = ntt_event_live (es_event s) handle call
           in Some (s\<lparr>es_event := e, es_jobs := es_jobs s + mset js\<rparr>)
      else None)"
| "ev_act_step (ActJob j) s =
     (if j \<in># es_jobs s \<and> unat (ev_refs (es_event s)) < 4294967294
      then let (e, js, evs) = ev_job_step (es_event s) j
           in Some \<lparr>es_event = e, es_jobs = es_jobs s - {#j#} + mset js, es_log = es_log s @ evs\<rparr>
      else None)"

definition demo_params :: ntt_event_params where
  "demo_params = \<lparr>pa_readable = True, pa_writable = True, pa_rc = True, pa_wc = True, pa_interest = 3,
     pa_read_queue = True, pa_write_queue = True, pa_same_loop = True\<rparr>"

definition demo_handle :: u64 where
  "demo_handle = 0x100000003"

text \<open>A readiness is dispatched, and the event is cancelled while the task of the side waits in its queue.\<close>

definition demo_acts :: "ev_act list" where
  "demo_acts = [ActOpen demo_params 5 3, ActCall demo_handle (EvDispatch 1),
     ActJob (JLive demo_handle (EvDispatch 1)), ActJob (JPublish demo_handle 1),
     ActJob (JDeliver demo_handle [NTT_INTEREST_READABLE]),
     ActJob (JPost demo_handle NTT_INTEREST_READABLE []), ActJob (JDeliver demo_handle []), ActJob (JDrop 1 RetDispatch),
     ActCall demo_handle EvCancel, ActJob (JLive demo_handle EvCancel), ActJob (JDrop 2 RetCancel), ActJob (JDrop 1 RetCancel)]"

definition demo_end :: "ev_act list" where
  "demo_end = [ActJob (JTask NTT_INTEREST_READABLE), ActJob (JRun demo_handle NTT_INTEREST_READABLE None),
     ActJob (JDrop 1 RetTask), ActJob (JCancelled NTT_INTEREST_WRITABLE), ActJob (JCancelled NTT_INTEREST_READABLE)]"

definition demo_waiting :: ev_sys where
  "demo_waiting = \<lparr>es_event = \<lparr>ev_index = 3, ev_generation = 1, ev_open = True, ev_read_queue = True,
       ev_write_queue = True, ev_rc = True, ev_wc = True, ev_refs = 1, ev_state = 18, ev_interest = 3, ev_flags = 3\<rparr>,
     es_jobs = {#JTask NTT_INTEREST_READABLE#},
     es_log = [LSlabTake, LQueueAcquire NTT_INTEREST_READABLE, LQueueAcquire NTT_INTEREST_WRITABLE, LWorkEnter,
       LEpollAdd 0x100000003 5, LReturn RetDispatch, LEpollDel, LReturn RetCancel]\<rparr>"

definition demo_over :: ev_sys where
  "demo_over = \<lparr>es_event = \<lparr>ev_index = 3, ev_generation = 2, ev_open = False, ev_read_queue = True,
       ev_write_queue = True, ev_rc = True, ev_wc = True, ev_refs = 0, ev_state = 16, ev_interest = 3, ev_flags = 3\<rparr>,
     es_jobs = {#},
     es_log = es_log demo_waiting @ [LCall 0x100000003 NTT_INTEREST_READABLE, LReturn RetTask,
       LCancelled NTT_INTEREST_WRITABLE, LCancelled NTT_INTEREST_READABLE,
       LSlabGive, LQueueRelease NTT_INTEREST_READABLE, LQueueRelease NTT_INTEREST_WRITABLE, LWorkLeave]\<rparr>"

definition demo_published :: ev_sys where
  "demo_published = the (run_acts ev_act_step (take 4 demo_acts) (ev_init 3))"

text \<open>A call with the handle of the event that was in the slot before.\<close>

definition demo_stale :: ev_sys where
  "demo_stale = the (run_acts ev_act_step [ActOpen demo_params 5 3, ActCall demo_handle EvCancel] demo_over)"

section \<open>Schedules\<close>

lemma ev_act_sound: "ev_act_step a s = Some s' \<Longrightarrow> ev_step s s'"
  by (cases a) (auto intro: ev_step.intros simp del: subset_mset.add_diff_assoc2 diff_union_single_conv split: if_splits prod.splits)

interpretation ev_run: scheduled ev_act_step ev_reachable
  by unfold_locales (use ev_act_sound ev_reachable.ev_next in blast)

lemmas ev_eval = ev_step_defs ev_give_slot_def ntt_event_open_def ntt_event_live_def ntt_event_acquire_if_live_def
  acquire_next_def claim_next_def leave_next_def mask_sides_def ntt_event_sides_of_def ntt_event_side_state_def
  ntt_event_side_shift_def ntt_event_side_index_def ntt_event_handle_of_def ntt_event_handle_index_def
  ntt_event_handle_generation_def NTT_EVENT_CLOSED_def NTT_EVENT_SIDES_def NTT_EVENT_SIDE_BITS_def
  NTT_EVENT_SIDE_READY_def NTT_EVENT_SIDE_BUSY_def NTT_EVENT_WORK_def NTT_EVENT_SERIAL_def EPOLLIN_def EPOLLOUT_def EPOLLERR_def
  EPOLLHUP_def ev_queue_def ev_handle_def ev_init_def demo_params_def demo_handle_def

lemma demo_waiting_reached: "ev_reachable demo_waiting"
proof (rule ev_run.run_reach [OF ev_start])
  show "run_acts ev_act_step demo_acts (ev_init 3) = Some demo_waiting"
    by (simp add: demo_acts_def demo_waiting_def ev_eval)
qed

lemma demo_over_reached: "ev_reachable demo_over"
proof (rule ev_run.run_reach [OF demo_waiting_reached])
  show "run_acts ev_act_step demo_end demo_waiting = Some demo_over"
    by (simp add: demo_end_def demo_waiting_def demo_over_def ev_eval)
qed

lemma job_cancelled_cases: "job_cancelled j \<Longrightarrow> \<exists>t. j = JCancelled t"
  by (cases j) auto

lemma no_jobs_left:
  assumes wf: "\<forall>j \<in># J. job_wf j" and "refs_held J = 0" "reporters J = 0"
  shows "J = {#}"
  using assms job_refs_pos by (cases J) (fastforce split: if_splits)+

lemma ev_ok_last_reporter:
  assumes ok: "ev_ok e J" and op: "ev_open e" "ev_refs e = 0"
  shows "\<exists>t. J = {#JCancelled t#}"
proof -
  have z: "refs_held J = 0" "reporters J = 1" "\<forall>j \<in># J. job_wf j" using ok op by (auto simp: ev_ok_def)
  then obtain j where "j \<in># J" "job_cancelled j" using reporters_pos [of J] by auto
  then obtain t R where J: "J = add_mset (JCancelled t) R" using job_cancelled_cases multi_member_split by metis
  have "R = {#}" by (rule no_jobs_left) (use z in \<open>simp_all add: J\<close>)
  then show ?thesis using J by blast
qed

lemma report_alone:
  assumes ok: "ev_ok e (add_mset j R)" and d: "ev_job_step e j = (e', js, evs)" and r: "LCancelled t \<in> set evs"
  shows "R = {#}"
proof -
  have "job_special j" using job_quiet(1) [OF d] r by (fastforce simp: list_all_iff)
  then consider h where "j = JLive h EvCancel" | n c where "j = JDrop n c" | s where "j = JCancelled s"
    by (cases j rule: job_special.cases) auto
  then show ?thesis
  proof cases
    case (1 h)
    then show ?thesis using d r by (auto simp: ntt_event_cancel_def Let_def split: if_splits)
  next
    case (2 n c)
    have op: "ev_open e" "ev_refs e \<noteq> 0" using ev_ok_open [OF ok] by (auto simp: 2)
    have "ev_refs e = 1" using d r by (auto simp: 2 ntt_event_release_def Let_def split: if_splits)
    then have "unat (ev_refs e) = 1" by simp
    then have "refs_held R = 0" "reporters R = 0" "\<forall>j \<in># R. job_wf j"
      using ok op by (auto simp: ev_ok_def 2 split: if_splits)
    then show ?thesis by (intro no_jobs_left)
  next
    case (3 s)
    then have "ev_open e \<and> ev_refs e = 0" using ok by (auto simp: ev_ok_def split: if_splits)
    then obtain u where "add_mset j R = {#JCancelled u#}" using ev_ok_last_reporter [OF ok] by blast
    then show ?thesis by (metis add_mset_eq_single)
  qed
qed

text \<open>
  C6. The reference counter of an event is exact in every reachable state: it counts the reference of the
  caller of \<open>ntt_event_start\<close>, until the event is cancelled, and what the calls and tasks in flight hold.
  So it never runs below zero, a vacant slot has nothing in flight, and when the counter of a taken slot is
  zero, the task that reports the cancellation is all that is left.
\<close>

theorem event_refs_exact:
  assumes "ev_reachable s"
  shows "unat (ev_refs (es_event s)) = (if ev_open (es_event s) \<and> \<not> closed (es_event s) then 1 else 0) + refs_held (es_jobs s)
    \<and> (\<not> ev_open (es_event s) \<longrightarrow> ev_refs (es_event s) = 0 \<and> es_jobs s = {#})
    \<and> (ev_open (es_event s) \<and> ev_refs (es_event s) = 0 \<longrightarrow> (\<exists>t. es_jobs s = {#JCancelled t#}))"
proof -
  have ok: "ev_ok (es_event s) (es_jobs s)" using ev_reachable_inv [OF assms] by (simp add: ev_inv_def)
  show ?thesis using ev_ok_no_jobs [OF ok] ev_ok_last_reporter [OF ok] ok unfolding ev_ok_def by auto
qed

theorem event_refs_exact_witness:
  "ev_reachable demo_waiting \<and> ev_refs (es_event demo_waiting) = 1 \<and> refs_held (es_jobs demo_waiting) = 1"
  using event_refs_exact [OF demo_waiting_reached] demo_waiting_reached by (simp add: demo_waiting_def)

text \<open>
  C12. A side never runs twice at once: in every reachable state at most one job owns a side - it is on its way
  to the queue, waits there, or runs the handler - and the BUSY bit of the side is set exactly when there is one.
\<close>

theorem event_side_exclusive:
  assumes "ev_reachable s"
  shows "owners side (es_jobs s) \<le> 1
    \<and> (bit (ev_state (es_event s)) (busy_bit side) \<longleftrightarrow> (\<exists>j \<in># es_jobs s. job_owns side j))"
proof -
  have "owners side (es_jobs s) = (if bit (ev_state (es_event s)) (busy_bit side) then 1 else 0)"
    using ev_reachable_inv [OF assms] by (simp add: ev_inv_def ev_ok_def)
  then show ?thesis using owners_pos [of side "es_jobs s"] by (auto split: if_splits)
qed

theorem event_side_exclusive_witness:
  "ev_reachable demo_waiting \<and> bit (ev_state (es_event demo_waiting)) 1
   \<and> owners NTT_INTEREST_READABLE (es_jobs demo_waiting) \<le> 1"
  using event_side_exclusive [OF demo_waiting_reached, of NTT_INTEREST_READABLE] demo_waiting_reached
  by (simp add: demo_waiting_def busy_bit_def ntt_event_side_index_def)

text \<open>
  C3. No notification is lost: while an event is not cancelled, a side whose READY bit is set has a holder,
  which looks at the bit again before it leaves, or a dispatch that has still to try to claim the side.
\<close>

theorem event_no_lost_notification:
  assumes "ev_reachable s" "ev_open (es_event s)" "\<not> closed (es_event s)"
    and "bit (ev_state (es_event s)) (ready_bit side)"
  shows "\<exists>j \<in># es_jobs s. job_owns side j \<or> job_pending side j"
proof -
  have ok: "ev_ok (es_event s) (es_jobs s)" using ev_reachable_inv [OF assms(1)] by (simp add: ev_inv_def)
  then consider "bit (ev_state (es_event s)) (busy_bit side)" | "\<exists>j \<in># es_jobs s. job_pending side j"
    using assms by (auto simp: ev_ok_def)
  then show ?thesis
  proof cases
    case 1
    then have "owners side (es_jobs s) = 1" using ok by (simp add: ev_ok_def)
    then show ?thesis using owners_pos [of side "es_jobs s"] by auto
  qed blast
qed

theorem event_no_lost_notification_witness:
  "\<exists>j \<in># es_jobs demo_published. job_owns NTT_INTEREST_READABLE j \<or> job_pending NTT_INTEREST_READABLE j"
proof (rule event_no_lost_notification)
  show "ev_reachable demo_published"
    by (rule ev_run.run_reach [OF ev_start [of 3], where as = "take 4 demo_acts"])
      (simp add: demo_published_def demo_acts_def ev_eval)
qed (simp_all add: demo_published_def demo_acts_def ev_eval ready_bit_def)

text \<open>
  C8. The end of an event is reported to its user once per side with a queue, the writable side before the
  readable one, and for an event of the loop itself once. Nothing is reported while a reference is left, and
  when a report is made, the job that makes it is the only one there is: no handler runs or waits any more.
\<close>

theorem event_cancel_reports:
  assumes "ev_reachable s"
  shows "(ev_open (es_event s) \<and> ev_refs (es_event s) \<noteq> 0 \<longrightarrow> cancel_reports (incarnation (es_log s)) = [])
    \<and> (\<not> ev_open (es_event s) \<and> LSlabTake \<in> set (es_log s) \<longrightarrow>
        cancel_reports (incarnation (es_log s)) = reports_due (es_event s))
    \<and> (\<forall>j e js evs t. j \<in># es_jobs s \<and> ev_job_step (es_event s) j = (e, js, evs) \<and> LCancelled t \<in> set evs \<longrightarrow>
        es_jobs s = {#j#})"
proof -
  have "es_jobs s = {#j#}" if j: "j \<in># es_jobs s" and d: "ev_job_step (es_event s) j = (e, js, evs)" "LCancelled t \<in> set evs"
    for j e js evs t
  proof -
    obtain R where R: "es_jobs s = add_mset j R" using j by (meson multi_member_split)
    have "ev_ok (es_event s) (add_mset j R)" using ev_reachable_inv [OF assms] by (simp add: ev_inv_def R)
    from report_alone [OF this d] show ?thesis by (simp add: R)
  qed
  then show ?thesis using ev_reachable_log [OF assms] by (auto simp: ev_log_ok_def log_reports_def)
qed

theorem event_cancel_reports_witness:
  "cancel_reports (incarnation (es_log demo_over)) = [NTT_INTEREST_WRITABLE, NTT_INTEREST_READABLE]"
  using event_cancel_reports [OF demo_over_reached]
  by (simp add: demo_over_def demo_waiting_def reports_due_def report_side_def)

text \<open>
  What an event takes it gives back: in every reachable state the slab slot, the work of the loop, the
  references of the two queues and the registration with epoll have been taken as often as they have been
  given up, but for what the event that is open holds; the registration goes with the cancellation, all the
  rest with the end of the event.
\<close>

theorem event_resources_balanced:
  assumes "ev_reachable s"
  shows "count_list (es_log s) LSlabTake = count_list (es_log s) LSlabGive + of_bool (ev_open (es_event s))
    \<and> count_list (es_log s) LWorkEnter = count_list (es_log s) LWorkLeave
        + of_bool (ev_open (es_event s) \<and> ev_flags (es_event s) AND NTT_EVENT_WORK \<noteq> 0)
    \<and> count_list (es_log s) (LQueueAcquire side) = count_list (es_log s) (LQueueRelease side)
        + of_bool (ev_open (es_event s) \<and> ev_queue (es_event s) side)
    \<and> epoll_adds (es_log s) = count_list (es_log s) LEpollDel
        + of_bool (ev_open (es_event s) \<and> \<not> closed (es_event s))"
  using ev_reachable_log [OF assms] by (simp add: ev_log_ok_def log_balanced_def)

theorem event_resources_balanced_witness:
  "ev_reachable demo_over \<and> \<not> ev_open (es_event demo_over)
   \<and> count_list (es_log demo_over) LWorkEnter = count_list (es_log demo_over) LWorkLeave"
  using event_resources_balanced [OF demo_over_reached, of NTT_INTEREST_READABLE] demo_over_reached
  by (simp add: demo_over_def)

text \<open>
  A handle of an event that is gone does nothing. Every handler that runs while an event is open is given
  the handle of that very event, and a call with any other handle of the slot only gives back the reference it
  has taken, without touching the state word.
\<close>

theorem event_handle_current:
  assumes "ev_reachable s" "ev_open (es_event s)"
  shows "(\<forall>h side. LCall h side \<in> set (incarnation (es_log s)) \<longrightarrow> h = ev_handle (es_event s))
    \<and> (\<forall>h call. JLive h call \<in># es_jobs s \<and> h \<noteq> ev_handle (es_event s) \<longrightarrow>
        ev_job_step (es_event s) (JLive h call) = (es_event s, [JDrop 1 RetStale], []))"
proof -
  note ok = ev_reachable_handles [OF assms(1)]
  have "h = ev_handle (es_event s)" if "LCall h side \<in> set (incarnation (es_log s))" for h side
    using ok assms(2) that by (auto simp: ev_handles_ok_def dest!: bspec [of _ _ "LCall h side"])
  moreover have "ev_generation (es_event s) \<noteq> ntt_event_handle_generation h"
    if "JLive h call \<in># es_jobs s" "h \<noteq> ev_handle (es_event s)" for h call
    using ok that handle_checked [of h "es_event s"] by (auto simp: ev_handles_ok_def)
  ultimately show ?thesis by auto
qed

theorem event_handle_current_witness:
  "ev_job_step (es_event demo_stale) (JLive demo_handle EvCancel) = (es_event demo_stale, [JDrop 1 RetStale], [])"
proof -
  have r: "ev_reachable demo_stale"
    by (rule ev_run.run_reach [OF demo_over_reached, where as = "[ActOpen demo_params 5 3, ActCall demo_handle EvCancel]"])
      (simp add: demo_stale_def demo_over_def ev_eval)
  have o: "ev_open (es_event demo_stale)" "JLive demo_handle EvCancel \<in># es_jobs demo_stale"
    "demo_handle \<noteq> ev_handle (es_event demo_stale)"
    by (simp_all add: demo_stale_def demo_over_def ev_eval)
  show ?thesis using event_handle_current [OF r o(1)] o by blast
qed

text \<open>
  C32. A cancelled event comes to its end. Once the CLOSED bit is set, what is in flight can make no more than
  \<open>ev_work\<close> steps, whatever the order of the threads; as long as the slot is taken some step is possible; and so
  the event ends with the slot given back.
\<close>

theorem event_cancel_ends:
  assumes "ev_reachable s" "closed (es_event s)" "unat (ev_refs (es_event s)) < 4294967292"
  shows "(\<forall>n s'. (ev_drain ^^ n) s s' \<longrightarrow> n \<le> ev_work (es_jobs s)
      \<and> (ev_open (es_event s') \<longrightarrow> (\<exists>s''. ev_drain s' s'')))
    \<and> (\<exists>n s'. (ev_drain ^^ n) s s' \<and> \<not> ev_open (es_event s'))"
proof -
  have "ev_closing s" using ev_closing_start [OF ev_reachable_inv [OF assms(1)] assms(2,3)] .
  then show ?thesis using ev_draining.every_run [of s] ev_draining.comes_to_rest [of s] by blast
qed

theorem event_cancel_ends_witness:
  "\<exists>n s'. (ev_drain ^^ n) demo_waiting s' \<and> \<not> ev_open (es_event s')"
proof -
  have "closed (es_event demo_waiting)" "unat (ev_refs (es_event demo_waiting)) < 4294967292"
    by (simp_all add: demo_waiting_def)
  from event_cancel_ends [OF demo_waiting_reached this] show ?thesis by blast
qed

text \<open>
  C39. The three compare-exchange loops are atomic: whatever other threads store between the attempts and
  however often an attempt fails spuriously, a loop that returns has done what the one-step operation does on
  the value of the memory its last attempt met; and it returns as soon as nobody disturbs an attempt.
\<close>

theorem event_loops_atomic:
  "(claim_loop side state mems = Some (r, mem, new) \<longrightarrow>
      mem \<in> set (state # map fst mems) \<and> claim_next side mem = new \<and> (r \<longleftrightarrow> new \<noteq> None))
   \<and> (leave_loop side state mems = Some (r, mem, new) \<longrightarrow>
      mem \<in> set (map fst mems) \<and> (\<exists>w. new = Some w \<and> leave_next side mem = (r, w)))
   \<and> (acquire_loop state mems = Some (r, mem, new) \<longrightarrow>
      mem \<in> set (state # map fst mems) \<and> acquire_next mem = new \<and> (r \<longleftrightarrow> new \<noteq> None))
   \<and> claim_loop side state (mems @ [(m, sp), (m, False)]) \<noteq> None
   \<and> leave_loop side state (mems @ [(m, sp), (m, False)]) \<noteq> None
   \<and> acquire_loop state (mems @ [(m, sp), (m, False)]) \<noteq> None"
  using claim_loop_last [of side state mems r mem new] leave_loop_last [of side state mems r mem new]
    acquire_loop_last [of state mems r mem new] claim_loop_returns [of side state mems m sp]
    leave_loop_returns [of side state mems m sp] acquire_loop_returns [of state mems m sp] by blast

theorem event_loops_atomic_witness:
  "leave_loop NTT_INTEREST_READABLE 2 [(3, False), (3, True), (3, False)] = Some (True, 3, Some 2)
   \<and> leave_next NTT_INTEREST_READABLE 3 = (True, 2)"
proof -
  have "leave_loop NTT_INTEREST_READABLE 2 [(3, False), (3, True), (3, False)] = Some (True, 3, Some 2)"
    by (simp add: ev_eval)
  then show ?thesis
    using event_loops_atomic [of NTT_INTEREST_READABLE 2 "[(3, False), (3, True), (3, False)]" True 3 "Some 2" 3 True]
    by blast
qed

text \<open>
  A handle carries the index and the generation of its event and nothing else, so the two can be read back
  from it, and two handles are equal only if they name the same slot at the same generation.
\<close>

theorem event_handle_roundtrip:
  "ntt_event_handle_index (ntt_event_handle_of i g) = i
   \<and> ntt_event_handle_generation (ntt_event_handle_of i g) = g
   \<and> ntt_event_handle_of (ntt_event_handle_index h) (ntt_event_handle_generation h) = h"
  by (simp add: handle_split handle_parts)

text \<open>
  A side whose task waits in its queue when the event is cancelled still runs its handler, after
  \<open>ntt_event_cancel\<close> has returned.
\<close>

theorem event_handler_after_cancel:
  "\<exists>s h side before after. ev_reachable s \<and> es_log s = before @ LReturn RetCancel # after
     \<and> LSlabTake \<notin> set after \<and> LCall h side \<in> set after"
proof (intro exI conjI)
  show "ev_reachable demo_over" by (rule demo_over_reached)
  show "es_log demo_over = [LSlabTake, LQueueAcquire NTT_INTEREST_READABLE, LQueueAcquire NTT_INTEREST_WRITABLE,
      LWorkEnter, LEpollAdd 0x100000003 5, LReturn RetDispatch, LEpollDel] @ LReturn RetCancel #
      [LCall 0x100000003 NTT_INTEREST_READABLE, LReturn RetTask, LCancelled NTT_INTEREST_WRITABLE,
       LCancelled NTT_INTEREST_READABLE, LSlabGive, LQueueRelease NTT_INTEREST_READABLE,
       LQueueRelease NTT_INTEREST_WRITABLE, LWorkLeave]"
    by (simp add: demo_over_def demo_waiting_def)
qed simp_all

end
