(* ===== verification/Queue.thy ===== *)
theory Queue
  imports Ntt_Task
begin

text \<open>
  The serial queues: \<open>src/src/queue.h\<close>, \<open>src/src/queue.c\<close> and \<open>src/include/ntt/queue.h\<close>. Of the
  timers a queue has here the number that is armed and the reference they hold; the heap, the registration and the
  service are in \<open>Timer_Heap\<close> and \<open>Timer_Service\<close>.

  A queue lives in a slot of the queue slab; \<open>ntt_queue\<close> is one such slot. Every call of the interface
  and every worker that runs the queue is a job, and \<open>q_job_step\<close> carries a job through its next
  section under the lock, its next atomic access or its next callback. The task list is given by its
  contents, which \<open>Task_List\<close> proves of the linked list, and \<open>qu_linked\<close> says whether the node of the
  queue is in the list of a combine.

  User callbacks and the calls into the loop and its slab are log entries.
\<close>

section \<open>Queues\<close>

text \<open>
  \<open>qu_open\<close> says that the slot is taken, \<open>qu_loop\<close> that the queue has a loop, \<open>qu_timers\<close> is the number of armed timers and
  \<open>qu_timer_self_ref\<close> says that they hold a reference of their queue.
\<close>

record ntt_queue =
  qu_open :: bool
  qu_external_refs :: u64
  qu_tasks :: "ptr list"
  qu_linked :: bool
  qu_loop :: bool
  qu_timers :: nat
  qu_timer_self_ref :: bool

datatype q_log =
    QLPushed ptr
  | QLTask task_event
  | QLSlabTake
  | QLSlabGive
  | QLFree
  | QLWorkEnter
  | QLWorkLeave

definition ntt_queue_unlinked :: "ntt_queue \<Rightarrow> bool" where
  "ntt_queue_unlinked queue \<longleftrightarrow> \<not> qu_linked queue"

definition ntt_queue_empty :: "ntt_queue \<Rightarrow> bool" where
  "ntt_queue_empty queue \<longleftrightarrow> qu_tasks queue = []"

definition ntt_queue_use_count :: "ntt_queue \<Rightarrow> u64" where
  "ntt_queue_use_count self = qu_external_refs self"

definition ntt_queue_front :: "env \<Rightarrow> ntt_queue \<Rightarrow> ptr option" where
  "ntt_queue_front env queue = do {
     ntt_assert env (\<not> ntt_queue_empty queue);
     (case qu_tasks queue of [] \<Rightarrow> None | task # rest \<Rightarrow> Some task)
   }"

text \<open>The next task, as an option for \<open>NULL\<close>.\<close>

definition ntt_queue_next :: "env \<Rightarrow> ntt_queue \<Rightarrow> (ptr option \<times> ntt_queue) option" where
  "ntt_queue_next env queue = do {
     ntt_assert env (ntt_queue_unlinked queue);
     ntt_assert env (\<not> ntt_queue_empty queue);
     (case qu_tasks queue of
        [] \<Rightarrow> None
      | task # rest \<Rightarrow> Some (case rest of [] \<Rightarrow> None | t # ts \<Rightarrow> Some t, queue\<lparr>qu_tasks := rest\<rparr>))
   }"

text \<open>The section of a push under the lock, and whether the queue was empty before.\<close>

definition ntt_queue_push_task_without_wakeup ::
    "env \<Rightarrow> ntt_queue \<Rightarrow> ptr \<Rightarrow> (bool \<times> ntt_queue) option" where
  "ntt_queue_push_task_without_wakeup env queue task = do {
     ntt_assert env (task \<notin> set (qu_tasks queue));
     Some (qu_tasks queue = [], queue\<lparr>qu_tasks := qu_tasks queue @ [task]\<rparr>)
   }"

section \<open>References\<close>

definition ntt_queue_acquire :: "env \<Rightarrow> ntt_queue \<Rightarrow> ntt_queue option" where
  "ntt_queue_acquire env self = do {
     ntt_assert env (ntt_queue_use_count self \<noteq> 0);
     Some (self\<lparr>qu_external_refs := qu_external_refs self + 1\<rparr>)
   }"

definition ntt_queue_acquire_if_live :: "ntt_queue \<Rightarrow> bool \<times> ntt_queue" where
  "ntt_queue_acquire_if_live self =
     (if qu_external_refs self = 0 then (False, self)
      else (True, self\<lparr>qu_external_refs := qu_external_refs self + 1\<rparr>))"

definition ntt_queue_from_slab :: "ntt_queue \<Rightarrow> bool" where
  "ntt_queue_from_slab self \<longleftrightarrow> qu_loop self"

definition ntt_queue_init :: "ntt_queue \<Rightarrow> bool \<Rightarrow> ntt_queue \<times> q_log list" where
  "ntt_queue_init self loop =
     (self\<lparr>qu_external_refs := 1, qu_tasks := [], qu_linked := False, qu_loop := loop, qu_timers := 0,
        qu_timer_self_ref := False\<rparr>,
      if loop then [QLWorkEnter] else [])"

definition ntt_queue_create_in :: "ntt_queue \<Rightarrow> ntt_queue \<times> q_log list" where
  "ntt_queue_create_in slot = (
     let (self, evs) = ntt_queue_init (slot\<lparr>qu_open := True\<rparr>) True in (self, QLSlabTake # evs))"

definition ntt_queue_deinit :: "env \<Rightarrow> ntt_queue \<Rightarrow> unit option" where
  "ntt_queue_deinit env self = do {
     ntt_assert env (ntt_queue_use_count self = 0);
     ntt_assert env (ntt_queue_empty self);
     ntt_assert env (ntt_queue_unlinked self);
     ntt_assert env (qu_timers self = 0);
     Some ()
   }"

definition ntt_queue_release :: "env \<Rightarrow> ntt_queue \<Rightarrow> (ntt_queue \<times> q_log list) option" where
  "ntt_queue_release env self = (
     let prev = ntt_queue_use_count self;
         self1 = self\<lparr>qu_external_refs := prev - 1\<rparr>
     in if prev = 1 then do {
          ntt_queue_deinit env self1;
          Some (self1\<lparr>qu_open := False\<rparr>,
            [if ntt_queue_from_slab self1 then QLSlabGive else QLFree]
            @ (if qu_loop self1 then [QLWorkLeave] else []))
        } else Some (self1, []))"

section \<open>Jobs\<close>

text \<open>
  A call holds a reference of its own, or it is made from a task that the queue runs, and then the
  reference of the run covers it.
\<close>

datatype q_owner = Own | Borrowed

text \<open>
  \<open>QHold\<close> is a reference in the hands of a user. A push goes through \<open>QPush\<close>, and through \<open>QAcquire\<close>
  and \<open>QWakeup\<close> if the queue was empty. A worker that has taken the queue from the combine starts at
  \<open>QStart\<close> with the limit of tasks to run, \<open>None\<close> for \<open>ntt_queue_svc\<close>; \<open>QRun\<close> is a task whose callback
  runs, \<open>QNext\<close> one whose callback has returned, \<open>QDestroy\<close> one that is no longer in the list. \<open>QSync\<close> is the end of
  a call of the timer interface from a task of the queue. A job that needs it carries the variable \<open>t_queue\<close> of its thread.
\<close>

datatype q_ctx = NoQueue | ThisQueue | OtherQueue

datatype q_turn = Turn (turn_ctx: q_ctx) (turn_limit: "u64 option")

datatype q_job =
    QHold
  | QPush ptr q_owner
  | QAcquire q_owner
  | QWakeup q_owner
  | QStart q_turn
  | QRun q_turn u64 ptr
  | QNext q_turn u64 ptr
  | QDestroy q_turn u64 ptr "ptr option"
  | QLeave u64
  | QRepush
  | QRelease
  | QSync q_ctx

fun call_over :: "q_owner \<Rightarrow> q_job list" where
  "call_over Own = [QHold]"
| "call_over Borrowed = []"

text \<open>The wakeup callback of the queues of a loop.\<close>

definition queue_combine_push :: "env \<Rightarrow> ntt_queue \<Rightarrow> ntt_queue option" where
  "queue_combine_push env queue = do {
     ntt_assert env (\<not> ntt_queue_empty queue);
     ntt_assert env (ntt_queue_unlinked queue);
     Some (queue\<lparr>qu_linked := True\<rparr>)
   }"

definition ntt_queue_push_task ::
    "env \<Rightarrow> ntt_queue \<Rightarrow> ptr \<Rightarrow> q_owner \<Rightarrow> (ntt_queue \<times> q_job list \<times> q_log list) option" where
  "ntt_queue_push_task env queue task owner = do {
     (was_empty, queue') \<leftarrow> ntt_queue_push_task_without_wakeup env queue task;
     Some (queue', if was_empty then [QAcquire owner] else call_over owner, [QLPushed task])
   }"

text \<open>
  What \<open>ntt_queue_sync_timers\<close> does for the references: armed timers hold one. The caller is a task of the queue.
\<close>

definition sync_self_ref :: "env \<Rightarrow> ntt_queue \<Rightarrow> q_ctx \<Rightarrow> (ntt_queue \<times> q_log list) option" where
  "sync_self_ref env queue t_queue = do {
     ntt_assert env (t_queue = ThisQueue);
     if qu_timers queue = 0 then
       (if qu_timer_self_ref queue then ntt_queue_release env (queue\<lparr>qu_timer_self_ref := False\<rparr>) else Some (queue, []))
     else if \<not> qu_timer_self_ref queue then do {
       queue' \<leftarrow> ntt_queue_acquire env queue;
       Some (queue'\<lparr>qu_timer_self_ref := True\<rparr>, [])
     }
     else Some (queue, [])
   }"

text \<open>
  The body of the loops of \<open>ntt_queue_svc\<close> and \<open>ntt_queue_svc_with_limit\<close>. The turn begins with \<open>t_queue\<close> set to the
  queue and ends when it is set back.
\<close>

definition svc_begin ::
    "env \<Rightarrow> ntt_queue \<Rightarrow> q_turn \<Rightarrow> (ntt_queue \<times> q_job list \<times> q_log list) option" where
  "svc_begin env queue turn = do {
     ntt_assert env (turn_limit turn \<noteq> Some 0);
     ntt_assert env (\<not> ntt_queue_empty queue);
     ntt_assert env (ntt_queue_unlinked queue);
     ntt_assert env (turn_ctx turn = NoQueue);
     task \<leftarrow> ntt_queue_front env queue;
     Some (queue, [QRun (Turn ThisQueue (turn_limit turn)) 0 task], map QLTask (ntt_task_svc_inl task))
   }"

definition svc_next ::
    "env \<Rightarrow> ntt_queue \<Rightarrow> q_turn \<Rightarrow> u64 \<Rightarrow> ptr \<Rightarrow> (ntt_queue \<times> q_job list \<times> q_log list) option" where
  "svc_next env queue turn cnt prev = do {
     (task, queue') \<leftarrow> ntt_queue_next env queue;
     Some (queue', [QDestroy turn cnt prev task], [])
   }"

text \<open>The loop is left with the assertion that \<open>t_queue\<close> is still the queue.\<close>

definition svc_end :: "env \<Rightarrow> ntt_queue \<Rightarrow> q_turn \<Rightarrow> q_job \<Rightarrow> q_log list \<Rightarrow> (ntt_queue \<times> q_job list \<times> q_log list) option" where
  "svc_end env queue turn job evs = do {
     ntt_assert env (turn_ctx turn = ThisQueue);
     Some (queue, [job], evs)
   }"

definition svc_destroy ::
    "env \<Rightarrow> ntt_queue \<Rightarrow> q_turn \<Rightarrow> u64 \<Rightarrow> ptr \<Rightarrow> ptr option \<Rightarrow> (ntt_queue \<times> q_job list \<times> q_log list) option" where
  "svc_destroy env queue turn cnt prev task = (
     let drop = map QLTask (ntt_task_destroy_inl prev);
         cnt' = cnt + 1
     in case turn_limit turn of
          None \<Rightarrow>
            (case task of
               None \<Rightarrow> svc_end env queue turn QRelease drop
             | Some t \<Rightarrow> Some (queue, [QRun turn cnt t], drop @ map QLTask (ntt_task_svc_inl t)))
        | Some l \<Rightarrow>
            if cnt' = l then svc_end env queue turn (QLeave (if task \<noteq> None then 0 else cnt')) drop
            else (case task of
                    None \<Rightarrow> svc_end env queue turn (QLeave cnt') drop
                  | Some t \<Rightarrow> Some (queue, [QRun turn cnt' t], drop @ map QLTask (ntt_task_svc_inl t))))"

text \<open>
  After the loop a queue with nothing left is released. Otherwise the combine, which has got \<open>0\<close>, takes
  it back.
\<close>

definition svc_leave :: "ntt_queue \<Rightarrow> u64 \<Rightarrow> ntt_queue \<times> q_job list \<times> q_log list" where
  "svc_leave queue cnt = (queue, [if cnt \<noteq> 0 then QRelease else QRepush], [])"

fun q_job_step :: "env \<Rightarrow> ntt_queue \<Rightarrow> q_job \<Rightarrow> (ntt_queue \<times> q_job list \<times> q_log list) option" where
  "q_job_step env queue QHold = Some (queue, [QRelease], [])"
| "q_job_step env queue (QPush task owner) = ntt_queue_push_task env queue task owner"
| "q_job_step env queue (QAcquire owner) =
     map_option (\<lambda>queue'. (queue', [QWakeup owner], [])) (ntt_queue_acquire env queue)"
| "q_job_step env queue (QWakeup owner) =
     map_option (\<lambda>queue'. (queue', call_over owner, [])) (queue_combine_push env queue)"
| "q_job_step env queue (QStart turn) = svc_begin env queue turn"
| "q_job_step env queue (QRun turn cnt task) = Some (queue, [QNext turn cnt task], [])"
| "q_job_step env queue (QNext turn cnt task) = svc_next env queue turn cnt task"
| "q_job_step env queue (QDestroy turn cnt prev task) = svc_destroy env queue turn cnt prev task"
| "q_job_step env queue (QLeave cnt) = Some (svc_leave queue cnt)"
| "q_job_step env queue QRepush =
     map_option (\<lambda>queue'. (queue', [], [])) (queue_combine_push env queue)"
| "q_job_step env queue QRelease =
     map_option (\<lambda>(queue', evs). (queue', [], evs)) (ntt_queue_release env queue)"
| "q_job_step env queue (QSync t_queue) =
     map_option (\<lambda>(queue', evs). (queue', [], evs)) (sync_self_ref env queue t_queue)"

section \<open>The slot and everything that is in flight on it\<close>

record q_sys =
  qs_queue :: ntt_queue
  qs_jobs :: "q_job multiset"
  qs_log :: "q_log list"

fun job_runs :: "q_job \<Rightarrow> bool" where
  "job_runs (QRun turn cnt task) \<longleftrightarrow> True"
| "job_runs j \<longleftrightarrow> False"

fun job_borrows :: "q_job \<Rightarrow> bool" where
  "job_borrows (QPush task owner) \<longleftrightarrow> owner = Borrowed"
| "job_borrows (QAcquire owner) \<longleftrightarrow> owner = Borrowed"
| "job_borrows (QWakeup owner) \<longleftrightarrow> owner = Borrowed"
| "job_borrows (QSync t_queue) \<longleftrightarrow> True"
| "job_borrows j \<longleftrightarrow> False"

fun job_syncs :: "q_job \<Rightarrow> bool" where
  "job_syncs (QSync t_queue) \<longleftrightarrow> True"
| "job_syncs j \<longleftrightarrow> False"

fun job_task :: "q_job \<Rightarrow> ptr option" where
  "job_task (QPush task owner) = Some task"
| "job_task (QRun turn cnt task) = Some task"
| "job_task (QNext turn cnt task) = Some task"
| "job_task (QDestroy turn cnt prev task) = Some prev"
| "job_task j = None"

text \<open>The user pushes a task that is in no list and on its way to none.\<close>

definition task_free :: "q_sys \<Rightarrow> ptr \<Rightarrow> bool" where
  "task_free s t \<longleftrightarrow> t \<notin> set (qu_tasks (qs_queue s)) \<and> (\<forall>j \<in># qs_jobs s. job_task j \<noteq> Some t)"

text \<open>
  A step creates the queue in a vacant slot, takes or upgrades a reference, starts a push, lets a
  worker take the queue from the combine, lets a task arm, cancel or run timers, or carries a job on. A task returns only
  after the calls it has made, and it makes one call about timers at a time. A worker takes a queue while it runs none,
  so its variable \<open>t_queue\<close> is \<open>NULL\<close>: a loop that is run inside a task is in \<open>Thread_Context\<close>. Less than \<open>2 ^ 64 - 2\<close> references are held at a time.
\<close>

inductive q_step :: "env \<Rightarrow> q_sys \<Rightarrow> q_sys \<Rightarrow> bool" for env where
  q_create: "\<not> qu_open (qs_queue s) \<Longrightarrow> ntt_queue_create_in (qs_queue s) = (q, evs) \<Longrightarrow>
    q_step env s \<lparr>qs_queue = q, qs_jobs = add_mset QHold (qs_jobs s), qs_log = qs_log s @ evs\<rparr>"
| q_acquire: "QHold \<in># qs_jobs s \<or> (\<exists>j \<in># qs_jobs s. job_runs j) \<Longrightarrow>
    unat (qu_external_refs (qs_queue s)) < 18446744073709551614 \<Longrightarrow>
    ntt_queue_acquire env (qs_queue s) = Some q \<Longrightarrow>
    q_step env s (s\<lparr>qs_queue := q, qs_jobs := add_mset QHold (qs_jobs s)\<rparr>)"
| q_acquire_if_live: "unat (qu_external_refs (qs_queue s)) < 18446744073709551614 \<Longrightarrow>
    ntt_queue_acquire_if_live (qs_queue s) = (live, q) \<Longrightarrow>
    q_step env s (s\<lparr>qs_queue := q, qs_jobs := qs_jobs s + (if live then {#QHold#} else {#})\<rparr>)"
| q_push_own: "QHold \<in># qs_jobs s \<Longrightarrow> task_free s t \<Longrightarrow>
    q_step env s (s\<lparr>qs_jobs := add_mset (QPush t Own) (qs_jobs s - {#QHold#})\<rparr>)"
| q_push_borrowed: "\<exists>j \<in># qs_jobs s. job_runs j \<Longrightarrow> task_free s t \<Longrightarrow>
    q_step env s (s\<lparr>qs_jobs := add_mset (QPush t Borrowed) (qs_jobs s)\<rparr>)"
| q_take: "qu_linked (qs_queue s) \<Longrightarrow> limit \<noteq> Some 0 \<Longrightarrow>
    q_step env s (s\<lparr>qs_queue := (qs_queue s)\<lparr>qu_linked := False\<rparr>, qs_jobs := add_mset (QStart (Turn NoQueue limit)) (qs_jobs s)\<rparr>)"
| q_timers: "QRun turn cnt t \<in># qs_jobs s \<Longrightarrow> \<forall>k \<in># qs_jobs s. \<not> job_syncs k \<Longrightarrow>
    q_step env s (s\<lparr>qs_queue := (qs_queue s)\<lparr>qu_timers := n\<rparr>, qs_jobs := add_mset (QSync (turn_ctx turn)) (qs_jobs s)\<rparr>)"
| q_job: "j \<in># qs_jobs s \<Longrightarrow> (job_runs j \<Longrightarrow> \<forall>k \<in># qs_jobs s. \<not> job_borrows k) \<Longrightarrow>
    unat (qu_external_refs (qs_queue s)) < 18446744073709551614 \<Longrightarrow>
    q_job_step env (qs_queue s) j = Some (q, js, evs) \<Longrightarrow>
    q_step env s \<lparr>qs_queue = q, qs_jobs = qs_jobs s - {#j#} + mset js, qs_log = qs_log s @ evs\<rparr>"

definition q_init :: q_sys where
  "q_init = \<lparr>qs_queue = \<lparr>qu_open = False, qu_external_refs = 0, qu_tasks = [], qu_linked = False,
       qu_loop = False, qu_timers = 0, qu_timer_self_ref = False\<rparr>, qs_jobs = {#}, qs_log = []\<rparr>"

inductive q_reachable :: "env \<Rightarrow> q_sys \<Rightarrow> bool" for env where
  q_start: "q_reachable env q_init"
| q_next: "q_reachable env s \<Longrightarrow> q_step env s s' \<Longrightarrow> q_reachable env s'"

end
