(* ===== verification/Queue_Inv.thy ===== *)
theory Queue_Inv
  imports Queue
begin

text \<open>
  The invariant of a slot of the queue slab: what the jobs hold of the references and of the right to
  run the queue (\<open>q_ok\<close>), that every step keeps it and no assertion fails on the way, and that it
  holds in every reachable state.
\<close>

section \<open>What the jobs hold\<close>

fun qjob_refs :: "q_job \<Rightarrow> nat" where
  "qjob_refs (QPush t owner) = of_bool (owner = Own)"
| "qjob_refs (QAcquire owner) = of_bool (owner = Own)"
| "qjob_refs (QWakeup owner) = 1 + of_bool (owner = Own)"
| "qjob_refs (QSync t_queue) = 0"
| "qjob_refs j = 1"

text \<open>
  The right to run the queue: it is on its way to the combine, or a worker has it, up to the moment
  it finds the queue empty.
\<close>

fun qjob_token :: "q_job \<Rightarrow> nat" where
  "qjob_token QHold = 0"
| "qjob_token (QPush t owner) = 0"
| "qjob_token (QDestroy limit cnt prev task) = of_bool (task \<noteq> None)"
| "qjob_token (QLeave cnt) = of_bool (cnt = 0)"
| "qjob_token QRelease = 0"
| "qjob_token (QSync t_queue) = 0"
| "qjob_token j = 1"

fun qjob_pushes :: "ptr \<Rightarrow> q_job \<Rightarrow> nat" where
  "qjob_pushes t (QPush u owner) = of_bool (u = t)"
| "qjob_pushes t j = 0"

definition within :: "q_turn \<Rightarrow> u64 \<Rightarrow> bool" where
  "within turn cnt \<longleftrightarrow> turn_ctx turn = ThisQueue \<and> (case turn_limit turn of None \<Rightarrow> True | Some limit \<Rightarrow> cnt < limit)"

text \<open>What a worker knows of the first task, that it is below its limit, and its variable \<open>t_queue\<close>.\<close>

fun qjob_wf :: "ptr list \<Rightarrow> q_job \<Rightarrow> bool" where
  "qjob_wf ts (QStart turn) \<longleftrightarrow> turn_ctx turn = NoQueue \<and> turn_limit turn \<noteq> Some 0"
| "qjob_wf ts (QSync t_queue) \<longleftrightarrow> t_queue = ThisQueue"
| "qjob_wf ts (QRun limit cnt task) \<longleftrightarrow> ts \<noteq> [] \<and> hd ts = task \<and> within limit cnt"
| "qjob_wf ts (QNext limit cnt task) \<longleftrightarrow> ts \<noteq> [] \<and> hd ts = task \<and> within limit cnt"
| "qjob_wf ts (QDestroy limit cnt prev task) \<longleftrightarrow> within limit cnt \<and> (task = None \<or> ts \<noteq> [] \<and> task = Some (hd ts))"
| "qjob_wf ts j \<longleftrightarrow> True"

definition sum_jobs :: "('j \<Rightarrow> nat) \<Rightarrow> 'j multiset \<Rightarrow> nat" where
  "sum_jobs f J = (\<Sum>j \<in># J. f j)"

definition q_ok :: "ntt_queue \<Rightarrow> q_job multiset \<Rightarrow> bool" where
  "q_ok q J \<longleftrightarrow>
     unat (qu_external_refs q) = sum_jobs qjob_refs J + of_bool (qu_linked q) + of_bool (qu_timer_self_ref q) \<and>
     sum_jobs qjob_token J + of_bool (qu_linked q) = of_bool (qu_tasks q \<noteq> []) \<and>
     (\<forall>j \<in># J. qjob_wf (qu_tasks q) j) \<and>
     ((\<exists>j \<in># J. job_borrows j) \<longrightarrow> (\<exists>j \<in># J. job_runs j)) \<and>
     (\<forall>t. sum_jobs (qjob_pushes t) J + count_list (qu_tasks q) t \<le> 1) \<and>
     (qu_open q \<longleftrightarrow> qu_external_refs q \<noteq> 0) \<and>
     ((\<forall>j \<in># J. \<not> job_syncs j) \<longrightarrow> (qu_timer_self_ref q \<longleftrightarrow> qu_timers q \<noteq> 0))"

definition q_inv :: "q_sys \<Rightarrow> bool" where
  "q_inv s \<longleftrightarrow> q_ok (qs_queue s) (qs_jobs s)"

section \<open>What the jobs hold\<close>

lemma sum_jobs_simps [simp]:
  "sum_jobs f {#} = 0" "sum_jobs f (add_mset j J) = f j + sum_jobs f J" "sum_jobs f (J + K) = sum_jobs f J + sum_jobs f K"
  by (simp_all add: sum_jobs_def)

lemma sum_jobs_member: "j \<in># J \<Longrightarrow> f j \<le> sum_jobs f J"
  by (auto dest!: multi_member_split)

lemma sum_jobs_mset [simp]: "sum_jobs f (mset js) = sum_list (map f js)"
  by (induction js) auto

lemma q_okI:
  assumes "unat (qu_external_refs q) = sum_jobs qjob_refs J + of_bool (qu_linked q) + of_bool (qu_timer_self_ref q)"
    and "sum_jobs qjob_token J + of_bool (qu_linked q) = of_bool (qu_tasks q \<noteq> [])"
    and "\<And>j. j \<in># J \<Longrightarrow> qjob_wf (qu_tasks q) j"
    and "\<And>j. j \<in># J \<Longrightarrow> job_borrows j \<Longrightarrow> \<exists>j \<in># J. job_runs j"
    and "\<And>t. sum_jobs (qjob_pushes t) J + count_list (qu_tasks q) t \<le> 1"
    and "qu_open q \<longleftrightarrow> qu_external_refs q \<noteq> 0"
    and "\<forall>j \<in># J. \<not> job_syncs j \<Longrightarrow> qu_timer_self_ref q \<longleftrightarrow> qu_timers q \<noteq> 0"
  shows "q_ok q J"
  using assms by (auto simp: q_ok_def)

lemma q_okD:
  assumes "q_ok q J"
  shows "unat (qu_external_refs q) = sum_jobs qjob_refs J + of_bool (qu_linked q) + of_bool (qu_timer_self_ref q)"
    and "sum_jobs qjob_token J + of_bool (qu_linked q) = of_bool (qu_tasks q \<noteq> [])"
    and "j \<in># J \<Longrightarrow> qjob_wf (qu_tasks q) j"
    and "j \<in># J \<Longrightarrow> job_borrows j \<Longrightarrow> \<exists>j \<in># J. job_runs j"
    and "sum_jobs (qjob_pushes t) J + count_list (qu_tasks q) t \<le> 1"
    and "qu_open q \<longleftrightarrow> qu_external_refs q \<noteq> 0"
    and "\<forall>j \<in># J. \<not> job_syncs j \<Longrightarrow> qu_timer_self_ref q \<longleftrightarrow> qu_timers q \<noteq> 0"
  using assms unfolding q_ok_def by (blast, blast, blast, blast, blast, blast, blast)

lemma runs_token: "job_runs j \<Longrightarrow> qjob_token j = 1"
  by (cases j) auto

lemma not_own [simp]: "owner \<noteq> Own \<longleftrightarrow> owner = Borrowed"
  by (cases owner) auto

lemma no_refs_borrows: "qjob_refs j = 0 \<Longrightarrow> job_borrows j"
  by (cases j) auto

lemma q_ok_no_jobs:
  assumes ok: "q_ok q J" and z: "qu_external_refs q = 0"
  shows "J = {#}"
proof (rule ccontr)
  assume "J \<noteq> {#}"
  have s: "sum_jobs qjob_refs J = 0" using ok z by (simp add: q_ok_def)
  have all: "qjob_refs j = 0" if "j \<in># J" for j using sum_jobs_member [OF that, of qjob_refs] s by simp
  obtain j where j: "j \<in># J" using \<open>J \<noteq> {#}\<close> by blast
  have "job_borrows j" by (rule no_refs_borrows [OF all [OF j]])
  then obtain k where "k \<in># J" "job_runs k" using ok j unfolding q_ok_def by blast
  then show False using all [of k] by (cases k) auto
qed

lemma unat64_pred: "(r :: u64) \<noteq> 0 \<Longrightarrow> unat (r - 1) = unat r - 1"
  by (simp add: unat_sub word_le_nat_alt unat_gt_0 Suc_le_eq)

lemma unat64_succ: "unat (r :: u64) < 18446744073709551614 \<Longrightarrow> unat (r + 1) = unat r + 1"
  by (subst unat_add64_noflow) simp_all

lemma unat64_succ_below:
  fixes cnt l :: u64
  assumes "cnt < l"
  shows "unat (cnt + 1) = unat cnt + 1"
proof -
  have "unat cnt < unat l" "unat l < 2 ^ LENGTH(64)" using assms by (simp add: word_less_nat_alt, intro unsigned_less)
  then show ?thesis by (subst unat_add64_noflow) simp_all
qed

lemma within_succ: "within turn cnt \<Longrightarrow> turn_limit turn = Some l \<Longrightarrow> cnt + 1 \<noteq> l \<Longrightarrow> within turn (cnt + 1)"
  using unat64_succ_below [of cnt l] by (simp add: within_def word_less_nat_alt word_unat_eq_iff)

lemma within_nonzero: "within turn cnt \<Longrightarrow> turn_limit turn = Some l \<Longrightarrow> cnt + 1 \<noteq> 0"
  using unat64_succ_below [of cnt l] by (auto simp: within_def)

section \<open>Every step keeps the invariant\<close>

lemma q_ok_open: "q_ok q (add_mset j R) \<Longrightarrow> qu_external_refs q \<noteq> 0 \<and> qu_open q"
  using q_ok_no_jobs [of q "add_mset j R"] by (auto simp: q_ok_def)

lemma q_ok_release:
  assumes ok: "q_ok q (add_mset QRelease R)"
  shows "\<exists>q' js evs. q_job_step env q QRelease = Some (q', js, evs) \<and> q_ok q' (mset js + R)"
proof -
  have nz: "qu_external_refs q \<noteq> 0" "qu_open q" using q_ok_open [OF ok] by auto
  note d = q_okD [OF ok]
  let ?q = "q\<lparr>qu_external_refs := qu_external_refs q - 1\<rparr>"
  have u: "unat (qu_external_refs q - 1) = unat (qu_external_refs q) - 1" by (rule unat64_pred [OF nz(1)])
  have borrow: "\<exists>k \<in># R. job_runs k" if "k \<in># R" "job_borrows k" for k using d(4) [of k] that by auto
  have c: "sum_jobs (qjob_pushes t) R + count_list (qu_tasks q) t \<le> 1" for t using d(5) [of t] by simp
  have refs: "unat (qu_external_refs q - 1) = sum_jobs qjob_refs R + of_bool (qu_linked q) + of_bool (qu_timer_self_ref q)"
    using d(1) u by simp
  have sync: "\<forall>j \<in># R. \<not> job_syncs j \<Longrightarrow> qu_timer_self_ref q \<longleftrightarrow> qu_timers q \<noteq> 0" using d(7) by simp
  have tok: "sum_jobs qjob_token R + of_bool (qu_linked q) = of_bool (qu_tasks q \<noteq> [])" using d(2) by simp
  show ?thesis
  proof (cases "qu_external_refs q = 1")
    case False
    then have "qu_external_refs q - 1 \<noteq> 0" by simp
    then have "q_ok ?q (mset [] + R)"
      using nz(2) borrow c refs tok d(3) sync by (intro q_okI) auto
    moreover have "q_job_step env q QRelease = Some (?q, [], [])"
      using False by (simp add: ntt_queue_release_def ntt_queue_use_count_def)
    ultimately show ?thesis by blast
  next
    case True
    have z: "sum_jobs qjob_refs R = 0" "\<not> qu_linked q" "\<not> qu_timer_self_ref q" using refs True by (auto simp: of_bool_def split: if_splits)
    have ok': "q_ok (?q\<lparr>qu_open := False\<rparr>) R"
      using borrow c refs tok d(3) sync True by (intro q_okI) auto
    then have R: "R = {#}" by (rule q_ok_no_jobs) (simp add: True)
    then have "qu_timers q = 0" using sync z by simp
    moreover have "qu_tasks q = []" using R tok z by (auto simp: of_bool_def split: if_splits)
    ultimately have "\<exists>evs. q_job_step env q QRelease = Some (?q\<lparr>qu_open := False\<rparr>, [], evs)"
      using True z by (simp add: ntt_queue_release_def ntt_queue_deinit_def ntt_queue_use_count_def
          ntt_queue_empty_def ntt_queue_unlinked_def Let_def)
    then show ?thesis using ok' by auto
  qed
qed

text \<open>A step that changes neither the queue nor the tasks.\<close>

lemma q_ok_swap:
  assumes "q_ok q (add_mset j R)" "sum_list (map qjob_refs js) = qjob_refs j" "sum_list (map qjob_token js) = qjob_token j"
    "\<And>t. sum_list (map (qjob_pushes t) js) \<le> qjob_pushes t j" "\<forall>k \<in> set js. qjob_wf (qu_tasks q) k"
    "\<not> job_syncs j" "\<forall>k \<in> set js. job_borrows k \<longrightarrow> job_borrows j" "job_runs j \<Longrightarrow> (\<exists>k \<in> set js. job_runs k) \<or> (\<forall>k \<in># R. \<not> job_borrows k)"
  shows "q_ok q (mset js + R)"
proof (rule q_okI)
  note d = q_okD [OF assms(1)]
  show "unat (qu_external_refs q) = sum_jobs qjob_refs (mset js + R) + of_bool (qu_linked q) + of_bool (qu_timer_self_ref q)"
    using d(1) assms(2) by simp
  show "sum_jobs qjob_token (mset js + R) + of_bool (qu_linked q) = of_bool (qu_tasks q \<noteq> [])" using d(2) assms(3) by simp
  show "qjob_wf (qu_tasks q) k" if "k \<in># mset js + R" for k using d(3) [of k] assms(5) that by auto
  show "\<exists>k \<in># mset js + R. job_runs k" if "k \<in># mset js + R" "job_borrows k" for k
  proof -
    have nb: "\<not> (job_runs j \<and> job_borrows j)" by (cases j) auto
    show ?thesis using d(4) [of k] d(4) [of j] assms(7,8) that nb by (simp add: bex_Un) blast
  qed
  show "sum_jobs (qjob_pushes t) (mset js + R) + count_list (qu_tasks q) t \<le> 1" for t
    using d(5) [of t] assms(4) [of t] by simp
  show "qu_open q \<longleftrightarrow> qu_external_refs q \<noteq> 0" by (rule d(6))
  show "qu_timer_self_ref q \<longleftrightarrow> qu_timers q \<noteq> 0" if "\<forall>k \<in># mset js + R. \<not> job_syncs k"
    using d(7) that assms(6) by simp
qed

lemma q_ok_push:
  assumes ok: "q_ok q (add_mset (QPush t owner) R)"
  shows "\<exists>q' js evs. q_job_step env q (QPush t owner) = Some (q', js, evs) \<and> q_ok q' (mset js + R)"
proof -
  let ?q = "q\<lparr>qu_tasks := qu_tasks q @ [t]\<rparr>"
  have c: "sum_jobs (qjob_pushes u) R + of_bool (t = u) + count_list (qu_tasks q) u \<le> 1" for u
    using q_okD(5) [OF ok, of u] by simp
  from c [of t] have notin: "t \<notin> set (qu_tasks q)" by (auto simp: count_list_0_iff)
  have wf: "\<forall>j \<in># R. qjob_wf (qu_tasks q @ [t]) j"
  proof
    fix j assume "j \<in># R"
    then have "qjob_wf (qu_tasks q) j" using ok by (simp add: q_ok_def)
    then show "qjob_wf (qu_tasks q @ [t]) j" by (cases j) auto
  qed
  define js where "js = (if qu_tasks q = [] then [QAcquire owner] else call_over owner)"
  have "q_job_step env q (QPush t owner) = Some (?q, js, [QLPushed t])"
    using notin by (simp add: ntt_queue_push_task_def ntt_queue_push_task_without_wakeup_def js_def)
  moreover have "q_ok ?q (mset js + R)"
  proof (rule q_okI)
    note d = q_okD [OF ok]
    show "unat (qu_external_refs ?q) = sum_jobs qjob_refs (mset js + R) + of_bool (qu_linked ?q) + of_bool (qu_timer_self_ref ?q)"
      using d(1) by (cases owner) (simp_all add: js_def)
    show "sum_jobs qjob_token (mset js + R) + of_bool (qu_linked ?q) = of_bool (qu_tasks ?q \<noteq> [])"
      using d(2) by (cases owner) (simp_all add: js_def)
    show "qjob_wf (qu_tasks ?q) k" if "k \<in># mset js + R" for k
      using that wf by (cases owner) (auto simp: js_def split: if_splits)
    show "\<exists>k \<in># mset js + R. job_runs k" if "k \<in># mset js + R" "job_borrows k" for k
      using that d(4) [of k] d(4) [of "QPush t owner"] by (cases owner) (auto simp: js_def split: if_splits)
    show "sum_jobs (qjob_pushes u) (mset js + R) + count_list (qu_tasks ?q) u \<le> 1" for u
      using c [of u] by (cases owner) (auto simp: js_def)
    show "qu_open ?q \<longleftrightarrow> qu_external_refs ?q \<noteq> 0" using d(6) by simp
    show "qu_timer_self_ref ?q \<longleftrightarrow> qu_timers ?q \<noteq> 0" if "\<forall>k \<in># mset js + R. \<not> job_syncs k" using d(7) that by simp
  qed
  ultimately show ?thesis by blast
qed

lemma q_ok_acquire:
  assumes ok: "q_ok q (add_mset (QAcquire owner) R)" and b: "unat (qu_external_refs q) < 18446744073709551614"
  shows "\<exists>q' js evs. q_job_step env q (QAcquire owner) = Some (q', js, evs) \<and> q_ok q' (mset js + R)"
proof -
  let ?q = "q\<lparr>qu_external_refs := qu_external_refs q + 1\<rparr>"
  have nz: "qu_external_refs q \<noteq> 0" using q_ok_open [OF ok] by simp
  have u: "unat (qu_external_refs q + 1) = unat (qu_external_refs q) + 1" by (rule unat64_succ [OF b])
  then have "qu_external_refs q + 1 \<noteq> 0" by (metis unat_0 Suc_eq_plus1 nat.distinct(1))
  then have "q_ok ?q (mset [QWakeup owner] + R)" using ok u q_ok_open [OF ok] unfolding q_ok_def by auto
  moreover have "q_job_step env q (QAcquire owner) = Some (?q, [QWakeup owner], [])"
    using nz by (simp add: ntt_queue_acquire_def ntt_queue_use_count_def)
  ultimately show ?thesis by blast
qed

text \<open>Whoever has the right to run a queue finds it not empty and not linked.\<close>

lemma q_ok_token:
  assumes "q_ok q (add_mset j R)" "qjob_token j = 1"
  shows "qu_tasks q \<noteq> []" "\<not> qu_linked q" "sum_jobs qjob_token R = 0"
  using assms unfolding q_ok_def by (auto simp: of_bool_def split: if_splits)

lemma q_ok_combine:
  assumes ok: "q_ok q (add_mset j R)" and j: "j = QWakeup owner \<or> j = QRepush"
  shows "\<exists>q' js evs. q_job_step env q j = Some (q', js, evs) \<and> q_ok q' (mset js + R)"
proof -
  let ?q = "q\<lparr>qu_linked := True\<rparr>"
  have "qjob_token j = 1" using j by auto
  note t = q_ok_token [OF ok this]
  define js where "js = (if j = QRepush then [] else call_over owner)"
  have "q_job_step env q j = Some (?q, js, [])"
    using j t by (auto simp: queue_combine_push_def ntt_queue_empty_def ntt_queue_unlinked_def js_def)
  moreover have "q_ok ?q (mset js + R)"
    using ok t j q_ok_open [OF ok] unfolding q_ok_def js_def by (cases owner) auto
  ultimately show ?thesis by blast
qed

lemma q_ok_begin:
  assumes ok: "q_ok q (add_mset (QStart turn) R)"
  shows "\<exists>q' js evs. q_job_step env q (QStart turn) = Some (q', js, evs) \<and> q_ok q' (mset js + R)"
proof -
  let ?job = "QRun (Turn ThisQueue (turn_limit turn)) 0 (hd (qu_tasks q))"
  have t: "qu_tasks q \<noteq> []" "\<not> qu_linked q" using q_ok_token [OF ok] by auto
  have l: "turn_limit turn \<noteq> Some 0" "turn_ctx turn = NoQueue" using ok by (auto simp: q_ok_def)
  have "q_job_step env q (QStart turn) = Some (q, [?job], map QLTask (ntt_task_svc_inl (hd (qu_tasks q))))"
    using t l by (cases "qu_tasks q") (auto simp: svc_begin_def ntt_queue_empty_def ntt_queue_unlinked_def ntt_queue_front_def)
  moreover have "within (Turn ThisQueue (turn_limit turn)) 0" using l by (auto simp: within_def word_gt_0 split: option.split)
  then have "q_ok q (mset [?job] + R)" using t by (intro q_ok_swap [OF ok]) auto
  ultimately show ?thesis by blast
qed

lemma q_ok_svc_next:
  assumes ok: "q_ok q (add_mset (QNext limit cnt t) R)"
  shows "\<exists>q' js evs. q_job_step env q (QNext limit cnt t) = Some (q', js, evs) \<and> q_ok q' (mset js + R)"
proof -
  have t: "\<not> qu_linked q" "sum_jobs qjob_token R = 0" using q_ok_token [OF ok] by auto
  obtain ts where ts: "qu_tasks q = t # ts" using ok by (cases "qu_tasks q") (auto simp: q_ok_def)
  let ?q = "q\<lparr>qu_tasks := ts\<rparr>" and ?n = "case ts of [] \<Rightarrow> None | u # us \<Rightarrow> Some u"
  have wf: "qjob_wf ts j" if "j \<in># R" for j
  proof -
    have z: "qjob_token j = 0" using sum_jobs_member [OF that, of qjob_token] t(2) by simp
    have "qjob_wf (qu_tasks q) j" using ok that by (simp add: q_ok_def)
    then show ?thesis using z by (cases j) auto
  qed
  have runs: "\<not> job_runs j" if "j \<in># R" for j
    using sum_jobs_member [OF that, of qjob_token] t(2) runs_token [of j] by auto
  have c: "sum_jobs (qjob_pushes u) R + count_list ts u \<le> 1" for u
  proof -
    have "sum_jobs (qjob_pushes u) R + count_list (t # ts) u \<le> 1" using ok ts unfolding q_ok_def by auto
    then show ?thesis by (auto split: if_splits)
  qed
  have "q_job_step env q (QNext limit cnt t) = Some (?q, [QDestroy limit cnt t ?n], [])"
    using t ts by (simp add: svc_next_def ntt_queue_next_def ntt_queue_empty_def ntt_queue_unlinked_def)
  moreover have "q_ok ?q (mset [QDestroy limit cnt t ?n] + R)"
  proof (rule q_okI)
    note d = q_okD [OF ok]
    show "unat (qu_external_refs ?q) = sum_jobs qjob_refs (mset [QDestroy limit cnt t ?n] + R) + of_bool (qu_linked ?q)
      + of_bool (qu_timer_self_ref ?q)"
      using d(1) by simp
    show "sum_jobs qjob_token (mset [QDestroy limit cnt t ?n] + R) + of_bool (qu_linked ?q) = of_bool (qu_tasks ?q \<noteq> [])"
      using t by (cases ts) simp_all
    show "qjob_wf (qu_tasks ?q) k" if "k \<in># mset [QDestroy limit cnt t ?n] + R" for k
      using that wf d(3) [of "QNext limit cnt t"] by (cases ts) auto
    show "\<exists>k \<in># mset [QDestroy limit cnt t ?n] + R. job_runs k"
      if "k \<in># mset [QDestroy limit cnt t ?n] + R" "job_borrows k" for k
      using that d(4) [of k] runs by auto
    show "sum_jobs (qjob_pushes u) (mset [QDestroy limit cnt t ?n] + R) + count_list (qu_tasks ?q) u \<le> 1" for u
      using c [of u] by simp
    show "qu_open ?q \<longleftrightarrow> qu_external_refs ?q \<noteq> 0" using d(6) by simp
    show "qu_timer_self_ref ?q \<longleftrightarrow> qu_timers ?q \<noteq> 0" if "\<forall>k \<in># mset [QDestroy limit cnt t ?n] + R. \<not> job_syncs k"
      using d(7) that by simp
  qed
  ultimately show ?thesis by blast
qed

lemma q_ok_destroy:
  assumes ok: "q_ok q (add_mset (QDestroy limit cnt prev task) R)"
  shows "\<exists>q' js evs. q_job_step env q (QDestroy limit cnt prev task) = Some (q', js, evs) \<and> q_ok q' (mset js + R)"
proof -
  have wf: "within limit cnt" "task = None \<or> qu_tasks q \<noteq> [] \<and> task = Some (hd (qu_tasks q))"
    using q_okD(3) [OF ok, of "QDestroy limit cnt prev task"] by auto
  have "\<exists>j evs. svc_destroy env q limit cnt prev task = Some (q, [j], evs) \<and> qjob_refs j = 1 \<and>
    qjob_token j = of_bool (task \<noteq> None) \<and> (\<forall>t. qjob_pushes t j = 0) \<and> qjob_wf (qu_tasks q) j \<and> \<not> job_borrows j"
  proof (cases "turn_limit limit")
    case None
    then show ?thesis using wf by (cases task) (auto simp: svc_destroy_def svc_end_def within_def Let_def)
  next
    case (Some l)
    have ctx: "turn_ctx limit = ThisQueue" using wf(1) by (simp add: within_def)
    note n = within_succ [OF wf(1) Some] within_nonzero [OF wf(1) Some]
    show ?thesis using wf n Some ctx by (cases task; cases "cnt + 1 = l") (auto simp: svc_destroy_def svc_end_def)
  qed
  then obtain j evs where step: "svc_destroy env q limit cnt prev task = Some (q, [j], evs)"
    and j: "qjob_refs j = 1" "qjob_token j = of_bool (task \<noteq> None)" "\<And>t. qjob_pushes t j = 0" "qjob_wf (qu_tasks q) j"
      "\<not> job_borrows j" by blast
  have "q_ok q (mset [j] + R)" by (rule q_ok_swap [OF ok]) (use j in auto)
  then show ?thesis using step by auto
qed

lemma ok_release_other:
  assumes "qu_external_refs q \<noteq> 1"
  shows "ntt_queue_release env q = Some (q\<lparr>qu_external_refs := qu_external_refs q - 1\<rparr>, [])"
  using assms by (simp add: ntt_queue_release_def ntt_queue_use_count_def)

text \<open>The end of a call about timers: the task that made it still holds the reference of its run.\<close>

lemma sync_holds:
  assumes "q_ok q (add_mset (QSync t_queue) R)"
  shows "1 \<le> sum_jobs qjob_refs R" "\<exists>k \<in># R. job_runs k"
proof -
  obtain k where k: "k \<in># R" "job_runs k" using q_okD(4) [OF assms, of "QSync t_queue"] by auto
  show "1 \<le> sum_jobs qjob_refs R" using sum_jobs_member [OF k(1), of qjob_refs] k(2) by (cases k) auto
  show "\<exists>k \<in># R. job_runs k" using k by blast
qed

lemma sync_not_last: "q_ok q (add_mset (QSync t_queue) R) \<Longrightarrow> qu_timer_self_ref q \<Longrightarrow> qu_external_refs q \<noteq> 1"
  using q_okD(1) [of q "add_mset (QSync t_queue) R"] sync_holds [of q t_queue R] by auto

lemma sync_shape:
  assumes "q_ok q (add_mset (QSync t_queue) R)" "sync_self_ref env q t_queue = Some (q', evs)"
  shows "evs = [] \<and> (\<exists>refs r. q' = q\<lparr>qu_external_refs := refs, qu_timer_self_ref := r\<rparr>)"
proof (cases q)
  case (fields opened refs tasks linked loop timers self_ref)
  show ?thesis using assms(2) sync_not_last [OF assms(1)]
    by (auto simp: sync_self_ref_def ok_release_other ntt_queue_acquire_def Option.bind_eq_Some_conv fields split: if_splits)
qed

lemma q_ok_sync:
  assumes ok: "q_ok q (add_mset (QSync t_queue) R)" and b: "unat (qu_external_refs q) < 18446744073709551614"
  shows "\<exists>refs r. q_job_step env q (QSync t_queue) = Some (q\<lparr>qu_external_refs := refs, qu_timer_self_ref := r\<rparr>, [], []) \<and>
    q_ok (q\<lparr>qu_external_refs := refs, qu_timer_self_ref := r\<rparr>) R \<and> unat refs \<le> unat (qu_external_refs q) + 1"
proof -
  note d = q_okD [OF ok]
  note one = sync_holds(1) [OF ok] and runs = sync_holds(2) [OF ok]
  have ctx: "t_queue = ThisQueue" using d(3) [of "QSync t_queue"] by simp
  have keep: "q_ok (q\<lparr>qu_external_refs := refs, qu_timer_self_ref := (qu_timers q \<noteq> 0)\<rparr>) R"
    if "unat refs = sum_jobs qjob_refs R + of_bool (qu_linked q) + of_bool (qu_timers q \<noteq> 0)" for refs
  proof -
    have "refs \<noteq> 0" using that one by auto
    then show ?thesis using that d(2,3,5) d(6) runs q_ok_open [OF ok] by (intro q_okI) auto
  qed
  consider "qu_timers q = 0" "qu_timer_self_ref q" | "qu_timers q \<noteq> 0" "\<not> qu_timer_self_ref q" | "qu_timer_self_ref q = (qu_timers q \<noteq> 0)"
    by blast
  then show ?thesis
  proof cases
    case 1
    have refs: "unat (qu_external_refs q - 1) = sum_jobs qjob_refs R + of_bool (qu_linked q) + of_bool (qu_timers q \<noteq> 0)"
      using unat64_pred [of "qu_external_refs q"] q_ok_open [OF ok] d(1) 1 by simp
    have "qu_external_refs q \<noteq> 1" using sync_not_last [OF ok] 1 by simp
    then have "q_job_step env q (QSync t_queue) = Some (q\<lparr>qu_external_refs := qu_external_refs q - 1, qu_timer_self_ref := (qu_timers q \<noteq> 0)\<rparr>, [], [])"
      using 1 ctx by (cases q) (simp add: sync_self_ref_def ok_release_other)
    then show ?thesis using keep [OF refs] refs d(1) 1 by fastforce
  next
    case 2
    have refs: "unat (qu_external_refs q + 1) = sum_jobs qjob_refs R + of_bool (qu_linked q) + of_bool (qu_timers q \<noteq> 0)"
      using unat64_succ [OF b] d(1) 2 by simp
    have "q_job_step env q (QSync t_queue) = Some (q\<lparr>qu_external_refs := qu_external_refs q + 1, qu_timer_self_ref := (qu_timers q \<noteq> 0)\<rparr>, [], [])"
      using 2 ctx q_ok_open [OF ok] by (simp add: sync_self_ref_def ntt_queue_acquire_def ntt_queue_use_count_def)
    then show ?thesis using keep [OF refs] unat64_succ [OF b] by fastforce
  next
    case 3
    have eq: "q\<lparr>qu_external_refs := qu_external_refs q, qu_timer_self_ref := (qu_timers q \<noteq> 0)\<rparr> = q" using 3 by (cases q) simp
    have "q_job_step env q (QSync t_queue) = Some (q, [], [])" using 3 ctx by (auto simp: sync_self_ref_def)
    moreover have "q_ok (q\<lparr>qu_external_refs := qu_external_refs q, qu_timer_self_ref := (qu_timers q \<noteq> 0)\<rparr>) R"
      by (rule keep) (use d(1) 3 in simp)
    ultimately show ?thesis using eq by (metis le_add1)
  qed
qed

lemma q_ok_job:
  assumes ok: "q_ok q (add_mset j R)" and b: "unat (qu_external_refs q) < 18446744073709551614"
    and run: "job_runs j \<Longrightarrow> \<forall>k \<in># R. \<not> job_borrows k"
  shows "\<exists>q' js evs. q_job_step env q j = Some (q', js, evs) \<and> q_ok q' (mset js + R)"
proof (cases j)
  case QHold
  have "q_ok q (mset [QRelease] + R)" using ok unfolding QHold by (rule q_ok_swap) auto
  then show ?thesis using QHold by auto
next
  case (QPush t owner)
  show ?thesis using q_ok_push ok unfolding QPush by blast
next
  case (QAcquire owner)
  show ?thesis using q_ok_acquire [OF _ b] ok unfolding QAcquire by blast
next
  case (QWakeup owner)
  then show ?thesis using q_ok_combine [OF ok] by blast
next
  case (QStart limit)
  show ?thesis using q_ok_begin ok unfolding QStart by blast
next
  case (QRun limit cnt t)
  have "qjob_wf (qu_tasks q) j" using q_okD(3) [OF ok, of j] by simp
  then have "q_ok q (mset [QNext limit cnt t] + R)" using run by (intro q_ok_swap [OF ok]) (auto simp: QRun)
  then show ?thesis using QRun by auto
next
  case (QNext limit cnt t)
  show ?thesis using q_ok_svc_next ok unfolding QNext by blast
next
  case (QDestroy limit cnt prev task)
  show ?thesis using q_ok_destroy ok unfolding QDestroy by blast
next
  case (QLeave cnt)
  have "q_ok q (mset [if cnt \<noteq> 0 then QRelease else QRepush] + R)"
    using ok unfolding QLeave by (rule q_ok_swap) auto
  then show ?thesis using QLeave by (auto simp: svc_leave_def)
next
  case QRepush
  then show ?thesis using q_ok_combine [OF ok] by blast
next
  case QRelease
  show ?thesis using q_ok_release ok unfolding QRelease by blast
next
  case (QSync t_queue)
  then show ?thesis using q_ok_sync [of q t_queue R env] ok b by auto
qed

lemma task_free_counts:
  assumes "task_free s t"
  shows "sum_jobs (qjob_pushes t) (qs_jobs s) = 0" "count_list (qu_tasks (qs_queue s)) t = 0"
proof -
  have "\<forall>j \<in># J. job_task j \<noteq> Some t \<Longrightarrow> sum_jobs (qjob_pushes t) J = 0" for J
  proof (induction J)
    case (add j J)
    then show ?case by (cases j) auto
  qed simp
  then show "sum_jobs (qjob_pushes t) (qs_jobs s) = 0" using assms by (simp add: task_free_def)
  show "count_list (qu_tasks (qs_queue s)) t = 0" using assms by (simp add: task_free_def count_list_0_iff)
qed

lemma q_ok_acquired:
  assumes ok: "q_ok q J" and b: "unat (qu_external_refs q) < 18446744073709551614" and nz: "qu_external_refs q \<noteq> 0"
  shows "q_ok (q\<lparr>qu_external_refs := qu_external_refs q + 1\<rparr>) (add_mset QHold J)"
proof -
  note d = q_okD [OF ok]
  have u: "unat (qu_external_refs q + 1) = unat (qu_external_refs q) + 1" by (rule unat64_succ [OF b])
  then have "qu_external_refs q + 1 \<noteq> 0" by (metis unat_0 Suc_eq_plus1 nat.distinct(1))
  then show ?thesis using d(1,2,5,6,7) d(3,4) u nz by (intro q_okI) auto
qed

lemma q_ok_call:
  assumes ok: "q_ok q J" and t: "sum_jobs (qjob_pushes t) J = 0" "count_list (qu_tasks q) t = 0"
    and r: "\<exists>j \<in># J. job_runs j"
  shows "q_ok q (add_mset (QPush t Borrowed) J)"
proof -
  note d = q_okD [OF ok]
  have "sum_jobs (qjob_pushes u) (add_mset (QPush t Borrowed) J) + count_list (qu_tasks q) u \<le> 1" for u
    using d(5) [of u] t by (cases "u = t") auto
  then show ?thesis using d(1,2,6,7) d(3,4) r by (intro q_okI) auto
qed

lemma q_ok_own:
  assumes ok: "q_ok q (add_mset QHold R)" and t: "sum_jobs (qjob_pushes t) (add_mset QHold R) = 0" "count_list (qu_tasks q) t = 0"
  shows "q_ok q (add_mset (QPush t Own) R)"
proof -
  note d = q_okD [OF ok]
  have c: "sum_jobs (qjob_pushes u) (add_mset (QPush t Own) R) + count_list (qu_tasks q) u \<le> 1" for u
    using d(5) [of u] t by (cases "u = t") auto
  have "\<exists>j \<in># add_mset (QPush t Own) R. job_runs j" if "j \<in># add_mset (QPush t Own) R" "job_borrows j" for j
    using d(4) [of j] that by auto
  then show ?thesis using d(1,2,6,7) d(3) c by (intro q_okI) auto
qed

lemma q_ok_take:
  assumes ok: "q_ok q J" and l: "qu_linked q" "limit \<noteq> Some 0"
  shows "q_ok (q\<lparr>qu_linked := False\<rparr>) (add_mset (QStart (Turn NoQueue limit)) J)"
proof -
  note d = q_okD [OF ok]
  let ?J = "add_mset (QStart (Turn NoQueue limit)) J"
  have "\<exists>j \<in># ?J. job_runs j" if "j \<in># ?J" "job_borrows j" for j
    using d(4) [of j] that by auto
  then show ?thesis using d(1,2,5,6,7) d(3) l by (intro q_okI) auto
qed

lemma q_ok_timers:
  assumes ok: "q_ok q J" and run: "QRun turn cnt t \<in># J"
  shows "q_ok (q\<lparr>qu_timers := n\<rparr>) (add_mset (QSync (turn_ctx turn)) J)"
proof -
  note d = q_okD [OF ok]
  have "turn_ctx turn = ThisQueue" using d(3) [OF run] by (simp add: within_def)
  moreover have "\<exists>j \<in># J. job_runs j" using run by force
  ultimately show ?thesis using d(1,2,5,6) d(3) by (intro q_okI) auto
qed

lemma q_step_inv:
  assumes "q_step env s s'" "q_inv s"
  shows "q_inv s'"
  using assms
proof (induction rule: q_step.cases)
  case (q_create s q evs)
  then have ok: "q_ok (qs_queue s) (qs_jobs s)" and z: "qu_external_refs (qs_queue s) = 0"
    by (auto simp: q_inv_def q_ok_def)
  have J: "qs_jobs s = {#}" by (rule q_ok_no_jobs [OF ok z])
  have "q_ok q {#QHold#}" using q_create
    by (intro q_okI) (auto simp: ntt_queue_create_in_def ntt_queue_init_def Let_def)
  then show ?case using q_create J by (simp add: q_inv_def)
next
  case (q_acquire s q)
  have ok: "q_ok (qs_queue s) (qs_jobs s)" using q_acquire by (simp add: q_inv_def)
  have "qs_jobs s \<noteq> {#}" using q_acquire by auto
  then have "qu_external_refs (qs_queue s) \<noteq> 0" using q_ok_no_jobs [OF ok] by blast
  with q_ok_acquired [OF ok] q_acquire show ?case
    by (auto simp: q_inv_def ntt_queue_acquire_def ntt_queue_use_count_def)
next
  case (q_acquire_if_live s live q)
  then show ?case using q_ok_acquired [of "qs_queue s" "qs_jobs s"]
    by (auto simp: q_inv_def ntt_queue_acquire_if_live_def split: if_splits)
next
  case (q_push_own s t)
  then have J: "qs_jobs s = add_mset QHold (qs_jobs s - {#QHold#})" by simp
  show ?case using q_push_own q_ok_own [of "qs_queue s" "qs_jobs s - {#QHold#}" t] task_free_counts [of s t] J
    by (simp add: q_inv_def)
next
  case (q_push_borrowed s t)
  then show ?case using q_ok_call [of "qs_queue s" "qs_jobs s" t] task_free_counts [of s t] by (simp add: q_inv_def)
next
  case (q_take s limit)
  then show ?case using q_ok_take [of "qs_queue s" "qs_jobs s" limit] by (simp add: q_inv_def)
next
  case (q_timers turn cnt t s n)
  then show ?case using q_ok_timers [of "qs_queue s" "qs_jobs s"] by (simp add: q_inv_def)
next
  case (q_job j s q js evs)
  let ?R = "qs_jobs s - {#j#}"
  have J: "add_mset j ?R = qs_jobs s" using q_job by simp
  have ok: "q_ok (qs_queue s) (add_mset j ?R)" using q_job unfolding J by (simp add: q_inv_def)
  have "\<forall>k \<in># ?R. \<not> job_borrows k" if "job_runs j" using q_job that by (auto dest: in_diffD)
  from q_ok_job [OF ok _ this, of env] q_job show ?case by (auto simp: q_inv_def union_commute)
qed

lemma q_reachable_inv: "q_reachable env s \<Longrightarrow> q_inv s"
proof (induction rule: q_reachable.induct)
  case q_start
  show ?case by (simp add: q_inv_def q_init_def q_ok_def)
next
  case (q_next s s')
  then show ?case using q_step_inv by blast
qed

end
