(* ===== verification/Queue_Live.thy ===== *)
theory Queue_Live
  imports Queue_Inv Draining
begin

text \<open>
  What a queue does, read off the log - the order of the tasks (\<open>q_fifo\<close>), their destruction
  (\<open>q_destroys\<close>), what is held of the loop (\<open>q_held\<close>) - and that a queue runs dry: \<open>q_drain\<close> is an
  interpretation of \<open>draining\<close>.
\<close>

section \<open>Reading the log\<close>

fun pushed_of :: "q_log \<Rightarrow> ptr option" where
  "pushed_of (QLPushed t) = Some t"
| "pushed_of l = None"

fun ran_of :: "q_log \<Rightarrow> ptr option" where
  "ran_of (QLTask (Callback t NTT_TASK_RUN)) = Some t"
| "ran_of l = None"

fun dropped_of :: "q_log \<Rightarrow> ptr option" where
  "dropped_of (QLTask (Callback t NTT_TASK_DROP)) = Some t"
| "dropped_of l = None"

abbreviation tasks_pushed :: "q_log list \<Rightarrow> ptr list" where
  "tasks_pushed evs \<equiv> List.map_filter pushed_of evs"

abbreviation tasks_ran :: "q_log list \<Rightarrow> ptr list" where
  "tasks_ran evs \<equiv> List.map_filter ran_of evs"

abbreviation tasks_dropped :: "q_log list \<Rightarrow> ptr list" where
  "tasks_dropped evs \<equiv> List.map_filter dropped_of evs"

fun qjob_started :: "q_job \<Rightarrow> bool" where
  "qjob_started (QRun limit cnt t) \<longleftrightarrow> True"
| "qjob_started (QNext limit cnt t) \<longleftrightarrow> True"
| "qjob_started j \<longleftrightarrow> False"

fun qjob_live :: "ptr \<Rightarrow> q_job \<Rightarrow> nat" where
  "qjob_live t (QRun limit cnt u) = of_bool (u = t)"
| "qjob_live t (QNext limit cnt u) = of_bool (u = t)"
| "qjob_live t (QDestroy limit cnt u task) = of_bool (u = t)"
| "qjob_live t j = 0"

definition q_fifo :: "ntt_queue \<Rightarrow> q_job multiset \<Rightarrow> q_log list \<Rightarrow> bool" where
  "q_fifo q J evs \<longleftrightarrow> tasks_pushed evs = tasks_ran evs @ (if \<exists>j \<in># J. qjob_started j then tl (qu_tasks q) else qu_tasks q)"

definition q_destroys :: "q_job multiset \<Rightarrow> q_log list \<Rightarrow> bool" where
  "q_destroys J evs \<longleftrightarrow> (\<forall>t. count_list (tasks_ran evs) t = count_list (tasks_dropped evs) t + sum_jobs (qjob_live t) J)"

definition q_held :: "ntt_queue \<Rightarrow> q_log list \<Rightarrow> bool" where
  "q_held q evs \<longleftrightarrow> (qu_open q \<longrightarrow> qu_loop q) \<and>
     count_list evs QLSlabTake = count_list evs QLSlabGive + of_bool (qu_open q) \<and>
     count_list evs QLWorkEnter = count_list evs QLWorkLeave + of_bool (qu_open q)"

definition q_log_ok :: "q_sys \<Rightarrow> bool" where
  "q_log_ok s \<longleftrightarrow> q_fifo (qs_queue s) (qs_jobs s) (qs_log s) \<and> q_destroys (qs_jobs s) (qs_log s) \<and>
     q_held (qs_queue s) (qs_log s)"

text \<open>A step of a worker or of a call that is under way, without new calls.\<close>

inductive q_drain :: "env \<Rightarrow> q_sys \<Rightarrow> q_sys \<Rightarrow> bool" for env where
  q_drain_take: "qu_linked (qs_queue s) \<Longrightarrow> limit \<noteq> Some 0 \<Longrightarrow>
    q_drain env s (s\<lparr>qs_queue := (qs_queue s)\<lparr>qu_linked := False\<rparr>, qs_jobs := add_mset (QStart (Turn NoQueue limit)) (qs_jobs s)\<rparr>)"
| q_drain_job: "j \<in># qs_jobs s \<Longrightarrow> j \<noteq> QHold \<Longrightarrow> (job_runs j \<Longrightarrow> \<forall>k \<in># qs_jobs s. \<not> job_borrows k) \<Longrightarrow>
    unat (qu_external_refs (qs_queue s)) < 18446744073709551614 \<Longrightarrow>
    q_job_step env (qs_queue s) j = Some (q, js, evs) \<Longrightarrow>
    q_drain env s \<lparr>qs_queue = q, qs_jobs = qs_jobs s - {#j#} + mset js, qs_log = qs_log s @ evs\<rparr>"

fun qjob_work :: "q_job \<Rightarrow> nat" where
  "qjob_work QHold = 0"
| "qjob_work (QPush t owner) = 30"
| "qjob_work (QAcquire owner) = 9"
| "qjob_work (QWakeup owner) = 8"
| "qjob_work (QStart limit) = 6"
| "qjob_work (QRun limit cnt t) = 5"
| "qjob_work (QNext limit cnt t) = 4"
| "qjob_work (QDestroy limit cnt t task) = 13"
| "qjob_work (QLeave cnt) = 12"
| "qjob_work QRepush = 11"
| "qjob_work QRelease = 1"
| "qjob_work (QSync t_queue) = 1"

definition q_work :: "q_sys \<Rightarrow> nat" where
  "q_work s = 20 * length (qu_tasks (qs_queue s)) + 7 * of_bool (qu_linked (qs_queue s)) + sum_jobs qjob_work (qs_jobs s)"

text \<open>How far the counter can still rise.\<close>

fun qjob_rise :: "q_job \<Rightarrow> nat" where
  "qjob_rise (QPush t owner) = 1"
| "qjob_rise (QAcquire owner) = 1"
| "qjob_rise (QSync t_queue) = 1"
| "qjob_rise j = 0"

definition q_ceiling :: "q_sys \<Rightarrow> nat" where
  "q_ceiling s = unat (qu_external_refs (qs_queue s)) + sum_jobs qjob_rise (qs_jobs s)"

text \<open>Nothing is under way: only users hold the queue, or its timers.\<close>

definition q_rest :: "q_sys \<Rightarrow> bool" where
  "q_rest s \<longleftrightarrow> \<not> qu_linked (qs_queue s) \<and> (\<forall>j \<in># qs_jobs s. j = QHold)"

definition q_bounded :: "q_sys \<Rightarrow> bool" where
  "q_bounded s \<longleftrightarrow> q_inv s \<and> q_ceiling s < 18446744073709551614"

section \<open>The log of a queue\<close>

lemma map_filter_append [simp]: "List.map_filter f (xs @ ys) = List.map_filter f xs @ List.map_filter f ys"
  by (simp add: List.map_filter_def)

lemma map_filter_Cons [simp]:
  "List.map_filter f (x # xs) = (case f x of None \<Rightarrow> List.map_filter f xs | Some y \<Rightarrow> y # List.map_filter f xs)"
  by (simp add: List.map_filter_def split: option.split)

lemma map_filter_Nil [simp]: "List.map_filter f [] = []"
  by (simp add: List.map_filter_def)

lemma started_token: "qjob_started j \<Longrightarrow> qjob_token j = 1"
  by (cases j) auto

lemma no_other_started:
  assumes "q_ok q (add_mset j R)" "qjob_token j = 1"
  shows "\<not> (\<exists>k \<in># R. qjob_started k)"
  using q_ok_token(3) [OF assms] sum_jobs_member [of _ R qjob_token] started_token by fastforce

lemma started_tasks: "q_ok q J \<Longrightarrow> \<exists>k \<in># J. qjob_started k \<Longrightarrow> qu_tasks q \<noteq> []"
  using q_okD(3) [of q J] by (fastforce elim!: qjob_started.elims)

lemmas q_step_defs = ntt_queue_push_task_def ntt_queue_push_task_without_wakeup_def ntt_queue_acquire_def
  queue_combine_push_def svc_begin_def svc_next_def svc_destroy_def svc_end_def svc_leave_def ntt_queue_next_def ntt_queue_front_def
  ntt_queue_release_def ntt_queue_deinit_def ntt_task_svc_inl_def ntt_task_destroy_inl_def Let_def
  ntt_assert_def Option.bind_eq_Some_conv

lemma call_over_hold: "k \<in> set (call_over owner) \<Longrightarrow> k = QHold"
  by (cases owner) auto

lemma q_fifo_job:
  assumes ok: "q_ok q (add_mset j R)" and l: "q_fifo q (add_mset j R) evs"
    and d: "q_job_step env q j = Some (q', js, new)"
  shows "q_fifo q' (mset js + R) (evs @ new)"
proof (cases "qjob_token j = 1")
  case True
  note n = no_other_started [OF ok True]
  have ne: "qu_tasks q \<noteq> []" using q_ok_token [OF ok True] by simp
  have wf: "qjob_wf (qu_tasks q) j" using q_okD(3) [OF ok] by simp
  show ?thesis using True n ne l d wf
    by (cases j) (auto simp: q_fifo_def q_step_defs of_bool_def bex_Un split: if_splits list.splits option.splits
        dest!: call_over_hold)
next
  case False
  show ?thesis
  proof (cases j)
    case (QSync t_queue)
    then show ?thesis using l d sync_shape [of q t_queue R env] ok by (auto simp: q_fifo_def)
  qed (use False l d started_tasks [OF ok] in \<open>auto simp: q_fifo_def q_step_defs of_bool_def bex_Un
      split: if_splits list.splits option.splits dest!: call_over_hold\<close>)
qed

lemma call_over_live [simp]: "sum_list (map (qjob_live t) (call_over owner)) = 0"
  by (cases owner) auto

lemma q_destroys_job:
  assumes l: "q_destroys (add_mset j R) evs" and d: "q_job_step env q j = Some (q', js, new)"
    and ok: "q_ok q (add_mset j R)"
  shows "q_destroys (mset js + R) (evs @ new)"
proof (cases j)
  case (QSync t_queue)
  then show ?thesis using l d sync_shape [of q t_queue R env] ok by (auto simp: q_destroys_def)
qed (use l d q_okD(3) [OF ok, of j] in \<open>auto simp: q_destroys_def q_step_defs
    split: if_splits list.splits option.splits dest!: call_over_hold\<close>)

lemma q_held_job:
  assumes l: "q_held q evs" and d: "q_job_step env q j = Some (q', js, new)" and ok: "q_ok q (add_mset j R)"
  shows "q_held q' (evs @ new)"
proof (cases j)
  case (QSync t_queue)
  then show ?thesis using l d sync_shape [of q t_queue R env] ok by (auto simp: q_held_def)
qed (use l d q_ok_open [OF ok] in \<open>auto simp: q_held_def q_step_defs ntt_queue_from_slab_def
    split: if_splits list.splits option.splits\<close>)

lemma q_step_log:
  assumes "q_step env s s'" "q_inv s" "q_log_ok s"
  shows "q_log_ok s'"
  using assms
proof (induction rule: q_step.cases)
  case (q_create s q evs)
  then have ok: "q_ok (qs_queue s) (qs_jobs s)" and z: "qu_external_refs (qs_queue s) = 0"
    by (auto simp: q_inv_def q_ok_def)
  have J: "qs_jobs s = {#}" by (rule q_ok_no_jobs [OF ok z])
  have "qu_tasks (qs_queue s) = []" using q_okD(1,2) [OF ok] z J by (auto simp: of_bool_def split: if_splits)
  then show ?case using q_create J
    by (auto simp: q_log_ok_def q_fifo_def q_destroys_def q_held_def ntt_queue_create_in_def ntt_queue_init_def Let_def)
next
  case (q_acquire s q)
  then show ?case
    by (auto simp: q_log_ok_def q_fifo_def q_destroys_def q_held_def ntt_queue_acquire_def Option.bind_eq_Some_conv)
next
  case (q_acquire_if_live s live q)
  then show ?case
    by (auto simp: q_log_ok_def q_fifo_def q_destroys_def q_held_def ntt_queue_acquire_if_live_def split: if_splits)
next
  case (q_push_own s t)
  then obtain R where R: "qs_jobs s = add_mset QHold R" by (meson multi_member_split)
  show ?case using q_push_own by (simp add: q_log_ok_def q_fifo_def q_destroys_def R)
next
  case (q_push_borrowed s t)
  then show ?case by (simp add: q_log_ok_def q_fifo_def q_destroys_def)
next
  case (q_take s limit)
  then show ?case by (simp add: q_log_ok_def q_fifo_def q_destroys_def q_held_def)
next
  case (q_timers turn cnt t s n)
  then show ?case by (simp add: q_log_ok_def q_fifo_def q_destroys_def q_held_def)
next
  case (q_job j s q js evs)
  let ?R = "qs_jobs s - {#j#}"
  have J: "add_mset j ?R = qs_jobs s" using q_job by simp
  have ok: "q_ok (qs_queue s) (add_mset j ?R)" "q_fifo (qs_queue s) (add_mset j ?R) (qs_log s)"
    "q_destroys (add_mset j ?R) (qs_log s)" "q_held (qs_queue s) (qs_log s)"
    using q_job unfolding J by (simp_all add: q_inv_def q_log_ok_def)
  have "q_fifo q (mset js + ?R) (qs_log s @ evs)" by (rule q_fifo_job [OF ok(1,2)]) (rule q_job)
  moreover have "q_destroys (mset js + ?R) (qs_log s @ evs)" by (rule q_destroys_job [OF ok(3) _ ok(1)]) (rule q_job)
  moreover have "q_held q (qs_log s @ evs)" by (rule q_held_job [OF ok(4) _ ok(1)]) (rule q_job)
  ultimately show ?case using q_job by (simp add: q_log_ok_def union_commute)
qed

lemma q_reachable_log: "q_reachable env s \<Longrightarrow> q_log_ok s"
proof (induction rule: q_reachable.induct)
  case q_start
  show ?case by (simp add: q_log_ok_def q_init_def q_fifo_def q_destroys_def q_held_def)
next
  case (q_next s s')
  then show ?case using q_step_log q_reachable_inv by blast
qed

section \<open>Running a queue dry\<close>

lemma q_drain_step: "q_drain env s s' \<Longrightarrow> q_step env s s'"
  by (erule q_drain.cases) (simp add: q_step.q_take, simp only:, rule q_step.q_job, assumption+)

lemma call_over_work [simp]: "sum_list (map qjob_work (call_over owner)) = 0" "sum_list (map qjob_rise (call_over owner)) = 0"
  by (cases owner; simp)+

lemma q_job_work:
  assumes ok: "q_ok q (add_mset j R)" and d: "q_job_step env q j = Some (q', js, new)" and j: "j \<noteq> QHold"
  shows "20 * length (qu_tasks q') + 7 * of_bool (qu_linked q') + sum_list (map qjob_work js)
    < 20 * length (qu_tasks q) + 7 * of_bool (qu_linked q) + qjob_work j"
proof (cases j)
  case (QSync t_queue)
  then show ?thesis using d sync_shape [of q t_queue R env] ok by auto
qed (use d j q_ok_token [OF ok] in \<open>auto simp: q_step_defs split: if_splits list.splits option.splits\<close>)

lemma q_job_ceiling:
  assumes ok: "q_ok q (add_mset j R)" and d: "q_job_step env q j = Some (q', js, new)"
    and b: "unat (qu_external_refs q) < 18446744073709551614"
  shows "unat (qu_external_refs q') + sum_list (map qjob_rise js) \<le> unat (qu_external_refs q) + qjob_rise j"
proof (cases j)
  case (QSync t_queue)
  then show ?thesis using d q_ok_sync [of q t_queue R env] ok b by auto
qed (use d b q_ok_open [OF ok] in \<open>auto simp: q_step_defs ntt_queue_use_count_def unat64_pred unat64_succ
    split: if_splits list.splits option.splits\<close>)

lemma q_drain_work:
  assumes "q_drain env s s'" "q_inv s"
  shows "q_inv s'" "q_work s' < q_work s" "q_ceiling s' \<le> q_ceiling s"
proof -
  show "q_inv s'" using assms q_drain_step q_step_inv by blast
  show "q_work s' < q_work s" "q_ceiling s' \<le> q_ceiling s"
    using assms(1)
  proof (induction rule: q_drain.cases)
    case (q_drain_take s limit)
    case 1
    then show ?case using q_drain_take by (simp add: q_work_def)
    case 2
    then show ?case using q_drain_take by (simp add: q_ceiling_def)
  next
    case (q_drain_job j s q js evs)
    obtain R where R: "qs_jobs s = add_mset j R" using q_drain_job by (meson multi_member_split)
    have ok: "q_ok (qs_queue s) (add_mset j R)" using assms(2) q_drain_job R by (simp add: q_inv_def)
    case 1
    show ?case using q_job_work [OF ok q_drain_job(7) q_drain_job(4)] q_drain_job by (simp add: q_work_def R)
    case 2
    show ?case using q_job_ceiling [OF ok q_drain_job(7) q_drain_job(6)] q_drain_job by (simp add: q_ceiling_def R)
  qed
qed

lemma sum_jobs_pos: "0 < sum_jobs f J \<Longrightarrow> \<exists>j \<in># J. 0 < f j"
  by (induction J) auto

text \<open>A queue that is not at rest can always be carried on, first the calls that its task has made.\<close>

lemma q_drain_progress:
  assumes inv: "q_inv s" and ne: "\<not> q_rest s"
    and b: "unat (qu_external_refs (qs_queue s)) < 18446744073709551614"
  shows "\<exists>s'. q_drain env s s'"
proof (cases "qu_linked (qs_queue s)")
  case True
  then show ?thesis using q_drain_take [of s None] by blast
next
  case False
  have ok: "q_ok (qs_queue s) (qs_jobs s)" using inv by (simp add: q_inv_def)
  have go: "\<exists>s'. q_drain env s s'"
    if j: "j \<in># qs_jobs s" "j \<noteq> QHold" "job_runs j \<Longrightarrow> \<forall>k \<in># qs_jobs s. \<not> job_borrows k" for j
  proof -
    obtain R where R: "qs_jobs s = add_mset j R" using j by (meson multi_member_split)
    have "q_ok (qs_queue s) (add_mset j R)" using ok by (simp add: R)
    then obtain q js evs where "q_job_step env (qs_queue s) j = Some (q, js, evs)"
      using q_ok_job [of "qs_queue s" j R env] b j(3) R by auto
    from q_drain_job [OF j b this] show ?thesis by blast
  qed
  show ?thesis
  proof (cases "\<exists>k \<in># qs_jobs s. job_borrows k")
    case True
    then obtain k where "k \<in># qs_jobs s" "job_borrows k" by blast
    then show ?thesis by (intro go [of k]) (cases k; simp)+
  next
    case nb: False
    obtain j where "j \<in># qs_jobs s" "j \<noteq> QHold" using ne False by (auto simp: q_rest_def)
    then show ?thesis using nb by (intro go [of j]) auto
  qed
qed

lemma hold_sums:
  assumes "\<forall>j \<in># J. j = QHold"
  shows "sum_jobs qjob_token J = 0" "sum_jobs qjob_refs J = size J" "\<forall>j \<in># J. \<not> job_syncs j"
  using assms by (induction J) auto

text \<open>A queue at rest has no tasks, and it is there as long as a user or an armed timer holds it.\<close>

lemma q_rest_gone:
  assumes inv: "q_inv s" and rest: "q_rest s"
  shows "qu_tasks (qs_queue s) = []"
    and "qu_open (qs_queue s) \<longleftrightarrow> QHold \<in># qs_jobs s \<or> qu_timers (qs_queue s) \<noteq> 0"
proof -
  have ok: "q_ok (qs_queue s) (qs_jobs s)" using inv by (simp add: q_inv_def)
  have hold: "\<forall>j \<in># qs_jobs s. j = QHold" and nl: "\<not> qu_linked (qs_queue s)" using rest by (simp_all add: q_rest_def)
  note d = q_okD [OF ok] and h = hold_sums [OF hold]
  show "qu_tasks (qs_queue s) = []" using d(2) h(1) nl by (simp split: if_splits)
  have "QHold \<in># qs_jobs s \<longleftrightarrow> size (qs_jobs s) \<noteq> 0" using hold by (metis multiset_nonemptyE size_eq_0_iff_empty empty_iff set_mset_empty)
  moreover have "qu_external_refs (qs_queue s) = 0 \<longleftrightarrow> unat (qu_external_refs (qs_queue s)) = 0" by (simp add: unat_eq_0)
  ultimately show "qu_open (qs_queue s) \<longleftrightarrow> QHold \<in># qs_jobs s \<or> qu_timers (qs_queue s) \<noteq> 0"
    using d(1,6) d(7) [OF h(3)] h(2) nl by auto
qed

interpretation q_draining: draining "q_drain env" q_bounded q_work q_rest for env
proof
  fix s s'
  assume s: "q_bounded s" "q_drain env s s'"
  then show "q_bounded s'" using q_drain_work(1,3) by (fastforce simp: q_bounded_def)
  show "q_work s' < q_work s" using s q_drain_work(2) by (simp add: q_bounded_def)
next
  fix s
  assume "q_bounded s" "\<not> q_rest s"
  then show "\<exists>s'. q_drain env s s'" by (intro q_drain_progress) (auto simp: q_bounded_def q_ceiling_def)
qed

lemma q_drain_reachable: "(q_drain env ^^ n) s s' \<Longrightarrow> q_reachable env s \<Longrightarrow> q_reachable env s'"
proof (induction n arbitrary: s')
  case (Suc n)
  then obtain t where "(q_drain env ^^ n) s t" "q_drain env t s'" by auto
  then show ?case using Suc.IH Suc.prems q_drain_step q_reachable.q_next by blast
qed simp

end
