(* ===== verification/Queue_Props.thy ===== *)
theory Queue_Props
  imports Queue_Live Schedules
begin

text \<open>
  The properties of the queues, each over all reachable states of a slot, with a concrete schedule
  on which they are instantiated.
\<close>

section \<open>Schedules\<close>

datatype q_act = ActCreate | ActPush ptr | ActTake "u64 option" | ActTimers q_job nat | ActRun q_job

fun q_act_step :: "env \<Rightarrow> q_act \<Rightarrow> q_sys \<Rightarrow> q_sys option" where
  "q_act_step env ActCreate s =
     (if qu_open (qs_queue s) then None
      else let (q, evs) = ntt_queue_create_in (qs_queue s)
           in Some \<lparr>qs_queue = q, qs_jobs = add_mset QHold (qs_jobs s), qs_log = qs_log s @ evs\<rparr>)"
| "q_act_step env (ActPush t) s =
     (if QHold \<in># qs_jobs s \<and> task_free s t
      then Some (s\<lparr>qs_jobs := add_mset (QPush t Own) (qs_jobs s - {#QHold#})\<rparr>) else None)"
| "q_act_step env (ActTake limit) s =
     (if qu_linked (qs_queue s) \<and> limit \<noteq> Some 0
      then Some (s\<lparr>qs_queue := (qs_queue s)\<lparr>qu_linked := False\<rparr>, qs_jobs := add_mset (QStart (Turn NoQueue limit)) (qs_jobs s)\<rparr>)
      else None)"
| "q_act_step env (ActTimers j n) s =
     (case j of
        QRun turn cnt t \<Rightarrow>
          if j \<in># qs_jobs s \<and> (\<forall>k \<in># qs_jobs s. \<not> job_syncs k)
          then Some (s\<lparr>qs_queue := (qs_queue s)\<lparr>qu_timers := n\<rparr>, qs_jobs := add_mset (QSync (turn_ctx turn)) (qs_jobs s)\<rparr>)
          else None
      | _ \<Rightarrow> None)"
| "q_act_step env (ActRun j) s =
     (if j \<in># qs_jobs s \<and> (job_runs j \<longrightarrow> (\<forall>k \<in># qs_jobs s. \<not> job_borrows k)) \<and>
        unat (qu_external_refs (qs_queue s)) < 18446744073709551614
      then (case q_job_step env (qs_queue s) j of
              None \<Rightarrow> None
            | Some (q, js, evs) \<Rightarrow>
                Some \<lparr>qs_queue = q, qs_jobs = qs_jobs s - {#j#} + mset js, qs_log = qs_log s @ evs\<rparr>)
      else None)"

text \<open>Two tasks are pushed, and a worker that may run one task at a time has begun the first, which has armed a timer.\<close>

definition chk_env :: env where
  "chk_env = \<lparr>ndebug = False, can_alloc = (\<lambda>_. True)\<rparr>"

definition demo_queue_acts :: "q_act list" where
  "demo_queue_acts = [ActCreate, ActPush 100, ActRun (QPush 100 Own), ActRun (QAcquire Own), ActRun (QWakeup Own),
     ActPush 200, ActRun (QPush 200 Own), ActTake (Some 1), ActRun (QStart (Turn NoQueue (Some 1))),
     ActTimers (QRun (Turn ThisQueue (Some 1)) 0 100) 1, ActRun (QSync ThisQueue)]"

definition demo_queue :: q_sys where
  "demo_queue = \<lparr>qs_queue = \<lparr>qu_open = True, qu_external_refs = 3, qu_tasks = [100, 200], qu_linked = False, qu_loop = True,
       qu_timers = 1, qu_timer_self_ref = True\<rparr>,
     qs_jobs = {#QHold, QRun (Turn ThisQueue (Some 1)) 0 100#},
     qs_log = [QLSlabTake, QLWorkEnter, QLPushed 100, QLPushed 200, QLTask (Callback 100 NTT_TASK_RUN)]\<rparr>"

section \<open>Schedules\<close>

lemma q_act_sound: "q_act_step env a s = Some s' \<Longrightarrow> q_step env s s'"
proof (cases a)
  case (ActRun j)
  assume "q_act_step env a s = Some s'"
  then show ?thesis using ActRun
    by (auto simp del: subset_mset.add_diff_assoc2 diff_union_single_conv split: if_splits option.splits intro: q_step.q_job)
qed (auto intro: q_step.intros split: if_splits prod.splits q_job.splits)

interpretation q_run: scheduled "q_act_step env" "q_reachable env" for env
  by unfold_locales (use q_act_sound q_reachable.q_next in blast)

lemma demo_queue_reached: "q_reachable chk_env demo_queue"
proof (rule q_run.run_reach [OF q_start])
  show "run_acts (q_act_step chk_env) demo_queue_acts q_init = Some demo_queue"
    by (simp add: demo_queue_acts_def demo_queue_def q_init_def ntt_queue_create_in_def ntt_queue_init_def
        task_free_def ntt_queue_push_task_def ntt_queue_push_task_without_wakeup_def ntt_queue_acquire_def
        ntt_queue_use_count_def queue_combine_push_def ntt_queue_empty_def ntt_queue_unlinked_def svc_begin_def
        ntt_queue_front_def ntt_task_svc_inl_def sync_self_ref_def ntt_assert_def chk_env_def)
qed

section \<open>Properties\<close>

text \<open>
  C2. A queue is serial: in every reachable state, whatever the threads do, at most one job is between the start
  of a task and its leaving the list, so no two tasks of a queue run at the same time.
  And the queue is not forgotten: it has tasks exactly when there is exactly one right to run it, with a
  push on its way to the combine, in the list of the combine, or with a worker.
\<close>

theorem queue_serial:
  assumes "q_reachable env s"
  shows "size (filter_mset qjob_started (qs_jobs s)) \<le> 1 \<and>
    sum_jobs qjob_token (qs_jobs s) + of_bool (qu_linked (qs_queue s)) = of_bool (qu_tasks (qs_queue s) \<noteq> [])"
proof -
  have ok: "q_ok (qs_queue s) (qs_jobs s)" using q_reachable_inv [OF assms] by (simp add: q_inv_def)
  have "size (filter_mset qjob_started J) \<le> sum_jobs qjob_token J" for J
  proof (induction J)
    case (add j J)
    then show ?case using started_token [of j] by (cases "qjob_started j") auto
  qed simp
  from this [of "qs_jobs s"] q_okD(2) [OF ok]
  have "size (filter_mset qjob_started (qs_jobs s)) \<le> of_bool (qu_tasks (qs_queue s) \<noteq> [])" by linarith
  also have "\<dots> \<le> 1" by simp
  finally show ?thesis using q_okD(2) [OF ok] by blast
qed

theorem queue_serial_witness:
  "qu_tasks (qs_queue demo_queue) = [100, 200] \<and> size (filter_mset qjob_started (qs_jobs demo_queue)) \<le> 1"
  using queue_serial [OF demo_queue_reached] by (simp add: demo_queue_def)

text \<open>
  C5. The tasks of a queue run in the order in which they were pushed, each once: what has been pushed is what
  has run followed by what waits. And a task that has run is destroyed once: it has been destroyed already, or the
  worker that ran it has still to do so.
\<close>

theorem queue_runs_in_order:
  assumes "q_reachable env s"
  shows "tasks_pushed (qs_log s) = tasks_ran (qs_log s)
      @ (if \<exists>j \<in># qs_jobs s. qjob_started j then tl (qu_tasks (qs_queue s)) else qu_tasks (qs_queue s))
    \<and> (\<forall>t. count_list (tasks_ran (qs_log s)) t = count_list (tasks_dropped (qs_log s)) t + sum_jobs (qjob_live t) (qs_jobs s))"
  using q_reachable_log [OF assms] by (simp add: q_log_ok_def q_fifo_def q_destroys_def)

theorem queue_runs_in_order_witness:
  "tasks_pushed (qs_log demo_queue) = [100] @ [200]"
  using queue_runs_in_order [OF demo_queue_reached] by (simp add: demo_queue_def)

text \<open>
  C34. No assertion of \<open>ntt_queue_svc\<close>, \<open>ntt_queue_svc_with_limit\<close>, \<open>ntt_queue_push_task\<close>, \<open>ntt_queue_acquire\<close>,
  \<open>ntt_queue_release\<close>, \<open>ntt_queue_deinit\<close>, \<open>ntt_queue_sync_timers\<close> and of the push to the combine fails, for a queue that
  workers take while they run no other queue. Every job of a reachable state can make its next step in a debug build:
  a worker finds the queue it has taken not empty and not linked and its \<open>t_queue\<close> is \<open>NULL\<close>, and at the end of the turn \<open>t_queue\<close> is
  the queue; a queue that goes to the combine is in no list, nobody acquires a queue that is gone, and a queue that is released for the
  last time has no tasks and no armed timers. The counter of references is exact: it counts what the jobs, the combine and the armed
  timers hold, and a slot is vacant exactly when it is zero.
\<close>

theorem queue_asserts_hold:
  assumes "q_reachable env s" "unat (qu_external_refs (qs_queue s)) < 18446744073709551614"
    and "j \<in># qs_jobs s" "job_runs j \<longrightarrow> (\<forall>k \<in># qs_jobs s. \<not> job_borrows k)"
  shows "q_job_step env (qs_queue s) j \<noteq> None \<and> qu_open (qs_queue s) \<and>
    unat (qu_external_refs (qs_queue s)) =
      sum_jobs qjob_refs (qs_jobs s) + of_bool (qu_linked (qs_queue s)) + of_bool (qu_timer_self_ref (qs_queue s))"
proof -
  obtain R where R: "qs_jobs s = add_mset j R" using assms(3) by (meson multi_member_split)
  have ok: "q_ok (qs_queue s) (add_mset j R)" using q_reachable_inv [OF assms(1)] by (simp add: q_inv_def R)
  obtain q' js evs where "q_job_step env (qs_queue s) j = Some (q', js, evs)"
    using q_ok_job [OF ok assms(2), of env] assms(4) R by auto
  then show ?thesis using q_ok_open [OF ok] q_okD(1) [OF ok] by (simp add: R)
qed

theorem queue_asserts_hold_witness:
  "q_job_step chk_env (qs_queue demo_queue) (QRun (Turn ThisQueue (Some 1)) 0 100) \<noteq> None \<and> qu_open (qs_queue demo_queue) \<and>
    unat (qu_external_refs (qs_queue demo_queue)) =
      sum_jobs qjob_refs (qs_jobs demo_queue) + of_bool (qu_linked (qs_queue demo_queue)) + of_bool (qu_timer_self_ref (qs_queue demo_queue))"
  by (rule queue_asserts_hold [OF demo_queue_reached]) (simp_all add: demo_queue_def)

text \<open>
  C31. Every task that has been pushed runs, and a queue that nobody holds goes away. From any reachable state, with
  workers taking the queue from the combine with any limits, there is a bounded number of steps left without new calls, and a step is
  possible until the queue is at rest, which it comes to. At rest all tasks that were pushed have run, and the slot is taken
  exactly as long as a user holds a reference or a timer is armed; otherwise it has been given back to the slab.
\<close>

theorem queue_runs_dry:
  assumes "q_reachable env s" "q_ceiling s < 18446744073709551614"
  shows "(\<forall>n s'. (q_drain env ^^ n) s s' \<longrightarrow> n \<le> q_work s \<and> (q_rest s' \<or> (\<exists>s''. q_drain env s' s''))
      \<and> (q_rest s' \<longrightarrow> tasks_pushed (qs_log s') = tasks_ran (qs_log s')
          \<and> (qu_open (qs_queue s') \<longleftrightarrow> QHold \<in># qs_jobs s' \<or> qu_timers (qs_queue s') \<noteq> 0)
          \<and> count_list (qs_log s') QLSlabTake = count_list (qs_log s') QLSlabGive + of_bool (qu_open (qs_queue s'))))
    \<and> (\<exists>n s'. (q_drain env ^^ n) s s' \<and> q_rest s')"
proof -
  have b: "q_bounded s" using q_reachable_inv [OF assms(1)] assms(2) by (simp add: q_bounded_def)
  have "tasks_pushed (qs_log s') = tasks_ran (qs_log s')
      \<and> (qu_open (qs_queue s') \<longleftrightarrow> QHold \<in># qs_jobs s' \<or> qu_timers (qs_queue s') \<noteq> 0)
      \<and> count_list (qs_log s') QLSlabTake = count_list (qs_log s') QLSlabGive + of_bool (qu_open (qs_queue s'))"
    if s': "(q_drain env ^^ n) s s'" "q_rest s'" for n s'
  proof -
    have reach: "q_reachable env s'" by (rule q_drain_reachable [OF s'(1) assms(1)])
    note g = q_rest_gone [OF q_reachable_inv [OF reach] s'(2)]
    have log: "q_log_ok s'" by (rule q_reachable_log [OF reach])
    then have "tasks_pushed (qs_log s') = tasks_ran (qs_log s')" using g(1) by (simp add: q_log_ok_def q_fifo_def)
    then show ?thesis using g(2) log by (simp add: q_log_ok_def q_held_def)
  qed
  then show ?thesis using q_draining.comes_to_rest [OF b] q_draining.every_run [OF b] by blast
qed

theorem queue_runs_dry_witness:
  "\<exists>n s'. (q_drain chk_env ^^ n) demo_queue s' \<and> tasks_pushed (qs_log s') = tasks_ran (qs_log s')
    \<and> (qu_open (qs_queue s') \<longleftrightarrow> QHold \<in># qs_jobs s' \<or> qu_timers (qs_queue s') \<noteq> 0)"
proof -
  have "q_ceiling demo_queue < 18446744073709551614" by (simp add: q_ceiling_def demo_queue_def)
  from queue_runs_dry [OF demo_queue_reached this] show ?thesis by blast
qed

end
