(* ===== verification/Timer_Service.thy ===== *)
theory Timer_Service
  imports Timer_Heap Queue_Heap
begin

text \<open>
  The timers of the queues and the service that wakes them: \<open>src/src/timer_service.h\<close>,
  \<open>src/src/timer_service.c\<close>, the timer part of \<open>src/src/queue.c\<close> and \<open>src/src/timer.c\<close>, on top of the
  timer heap of a queue, the heap of registrations of the service and the slab the queues live in.

  A queue is named by its index in the slab. Every operation is split where other threads can come
  in between: at the atomic accesses to the generation of a queue and at the lock of the service.
  The functions of the code are the compositions of these parts; \<open>Timer_Machine\<close> interleaves them.

  \<open>settime sec nsec\<close> says whether \<open>timerfd_settime\<close> of the kernel accepts a time.
\<close>

section \<open>Data\<close>

definition UINT64_MAX :: u64 where
  "UINT64_MAX = - 1"

definition NTT_TIMER_SERVICE_BATCH :: nat where
  "NTT_TIMER_SERVICE_BATCH = 16"

text \<open>\<open>sv_timerfd\<close> is the time the descriptor was set to last, in seconds and nanoseconds.\<close>

record ntt_timer_service =
  sv_queues :: ntt_queue_heap
  sv_armed :: u64
  sv_timerfd :: "(u64 \<times> u64) option"

text \<open>The fields of a queue that its timers use.\<close>

record queue_timers =
  qt_refs :: u64
  qt_timers :: ntt_timer_heap
  qt_reg_gen :: u32
  qt_reg_deadline :: u64
  qt_self_ref :: bool
  qt_tombstones :: u32

record timer_sys =
  tm_slab :: ntt_slab
  tm_service :: ntt_timer_service
  tm_queues :: "u32 \<Rightarrow> queue_timers"

definition set_queue :: "u32 \<Rightarrow> (queue_timers \<Rightarrow> queue_timers) \<Rightarrow> timer_sys \<Rightarrow> timer_sys" where
  "set_queue i f s = s\<lparr>tm_queues := (tm_queues s)(i := f (tm_queues s i))\<rparr>"

section \<open>The service\<close>

definition ntt_timer_service_init :: "ntt_timer_service" where
  "ntt_timer_service_init = \<lparr>sv_queues = ntt_queue_heap_init, sv_armed = UINT64_MAX, sv_timerfd = None\<rparr>"

definition ntt_timer_service_deinit :: "env \<Rightarrow> ntt_timer_service \<Rightarrow> ntt_slab \<Rightarrow> ntt_timer_service option" where
  "ntt_timer_service_deinit env self slab = do {
     live \<leftarrow> ntt_queue_heap_has_live env (sv_queues self) slab;
     ntt_assert env (\<not> live);
     Some (self\<lparr>sv_queues := ntt_queue_heap_deinit (sv_queues self)\<rparr>)
   }"

definition ntt_timer_service_arm_locked ::
    "(u64 \<Rightarrow> u64 \<Rightarrow> bool) \<Rightarrow> ntt_timer_service \<Rightarrow> ntt_timer_service option" where
  "ntt_timer_service_arm_locked settime self = do {
     top \<leftarrow> ntt_queue_heap_top (sv_queues self);
     (case top of
        None \<Rightarrow> Some self
      | Some deadline \<Rightarrow>
          if deadline \<ge> sv_armed self then Some self
          else do {
            let tv_sec = deadline div 1000000000;
            let tv_nsec = deadline mod 1000000000;
            let tv_nsec = (if tv_sec = 0 \<and> tv_nsec = 0 then 1 else tv_nsec);
            (if settime tv_sec tv_nsec
             then Some (self\<lparr>sv_timerfd := Some (tv_sec, tv_nsec), sv_armed := deadline\<rparr>)
             else ntt_die)
          })
   }"

definition ntt_timer_service_register ::
    "env \<Rightarrow> (u64 \<Rightarrow> u64 \<Rightarrow> bool) \<Rightarrow> ntt_slab \<Rightarrow> ntt_timer_service \<Rightarrow> u32 \<Rightarrow> u32 \<Rightarrow> u64 \<Rightarrow> u32 \<Rightarrow>
     ntt_timer_service option" where
  "ntt_timer_service_register env settime slab self index generation deadline tombstones = do {
     queues \<leftarrow> ntt_queue_heap_push env (sv_queues self) index generation deadline;
     queues \<leftarrow> (if tombstones \<noteq> 0 then ntt_queue_heap_retire env queues slab tombstones else Some queues);
     ntt_timer_service_arm_locked settime (self\<lparr>sv_queues := queues\<rparr>)
   }"

section \<open>References and generations of a queue\<close>

definition ntt_queue_timer_generation :: "ntt_slab \<Rightarrow> u32 \<Rightarrow> u32 option" where
  "ntt_queue_timer_generation slab i = do {
     queue \<leftarrow> ntt_slab_fresh_at slab i;
     ntt_slab_generation slab queue
   }"

definition ntt_queue_retire_timer_generation :: "ntt_slab \<Rightarrow> u32 \<Rightarrow> (u32 \<times> ntt_slab) option" where
  "ntt_queue_retire_timer_generation slab i = do {
     queue \<leftarrow> ntt_slab_fresh_at slab i;
     ntt_slab_retire slab queue
   }"

text \<open>
  Taking a reference. \<open>ntt_queue_acquire\<close> asserts that there is one already: \<open>Timer_Props\<close> shows that the counter of a queue on which a call
  is under way is exact, and not zero, so the assertion holds.
\<close>

definition queue_ref :: "u32 \<Rightarrow> timer_sys \<Rightarrow> timer_sys" where
  "queue_ref i s = set_queue i (\<lambda>q. q\<lparr>qt_refs := qt_refs q + 1\<rparr>) s"

text \<open>Releasing a queue, as far as its timers and its slot go.\<close>

definition queue_unref :: "env \<Rightarrow> u32 \<Rightarrow> timer_sys \<Rightarrow> timer_sys option" where
  "queue_unref env i s = (
     let prev = qt_refs (tm_queues s i);
         s1 = set_queue i (\<lambda>q. q\<lparr>qt_refs := prev - 1\<rparr>) s
     in if prev = 1 then do {
          ntt_assert env (ntt_timer_heap_empty (qt_timers (tm_queues s1 i)));
          (evs, timers) \<leftarrow> ntt_timer_heap_deinit env (qt_timers (tm_queues s1 i));
          slab \<leftarrow> ntt_slab_give env (tm_slab s1) i;
          Some (set_queue i (\<lambda>q. q\<lparr>qt_timers := timers\<rparr>) (s1\<lparr>tm_slab := slab\<rparr>))
        } else Some s1)"

definition queue_timers_init :: "queue_timers" where
  "queue_timers_init =
     \<lparr>qt_refs = 1, qt_timers = ntt_timer_heap_init, qt_reg_gen = 0, qt_reg_deadline = UINT64_MAX,
      qt_self_ref = False, qt_tombstones = 0\<rparr>"

definition queue_create :: "aligned_alloc \<Rightarrow> timer_sys \<Rightarrow> (u32 \<times> timer_sys) option" where
  "queue_create aligned s = do {
     (queue, slab) \<leftarrow> ntt_slab_take aligned (tm_slab s);
     i \<leftarrow> ntt_slab_index slab queue;
     Some (i, set_queue i (\<lambda>_. queue_timers_init) (s\<lparr>tm_slab := slab\<rparr>))
   }"

section \<open>Registering the earliest deadline\<close>

text \<open>
  \<open>ntt_queue_sync_timers\<close> in three parts: it looks at the generation and at the earliest deadline, it
  decides what to do and bumps the generation, and it takes a new registration to the service. The assertion that the caller is a
  task of the queue is in \<open>sync_self_ref\<close> of \<open>Queue\<close>, and in \<open>Thread_Context\<close>.
\<close>

datatype sync_pc = SyncLooked bool "u64 option" | SyncRegister u32 u64 u32

definition sync_look :: "env \<Rightarrow> u32 \<Rightarrow> timer_sys \<Rightarrow> (bool \<times> u64 option \<times> timer_sys) option" where
  "sync_look env i s = do {
     generation \<leftarrow> ntt_queue_timer_generation (tm_slab s) i;
     let registered = (generation = qt_reg_gen (tm_queues s i));
     (deadline, timers) \<leftarrow> ntt_timer_heap_peek env (qt_timers (tm_queues s i));
     Some (registered, deadline, set_queue i (\<lambda>q. q\<lparr>qt_timers := timers\<rparr>) s)
   }"

definition sync_drop :: "env \<Rightarrow> u32 \<Rightarrow> bool \<Rightarrow> timer_sys \<Rightarrow> timer_sys option" where
  "sync_drop env i registered s = do {
     s1 \<leftarrow> (if registered then do {
              (g, slab) \<leftarrow> ntt_queue_retire_timer_generation (tm_slab s) i;
              Some (set_queue i (\<lambda>q. q\<lparr>qt_tombstones := qt_tombstones q + 1\<rparr>) (s\<lparr>tm_slab := slab\<rparr>))
            } else Some s);
     (if qt_self_ref (tm_queues s1 i)
      then queue_unref env i (set_queue i (\<lambda>q. q\<lparr>qt_self_ref := False\<rparr>) s1)
      else Some s1)
   }"

definition sync_hold :: "u32 \<Rightarrow> timer_sys \<Rightarrow> timer_sys" where
  "sync_hold i s =
     (if \<not> qt_self_ref (tm_queues s i)
      then set_queue i (\<lambda>q. q\<lparr>qt_self_ref := True\<rparr>) (queue_ref i s) else s)"

definition sync_decide ::
    "env \<Rightarrow> u32 \<Rightarrow> bool \<Rightarrow> u64 option \<Rightarrow> timer_sys \<Rightarrow> (sync_pc option \<times> timer_sys) option" where
  "sync_decide env i registered deadline s =
     (case deadline of
        None \<Rightarrow> map_option (\<lambda>s'. (None, s')) (sync_drop env i registered s)
      | Some d \<Rightarrow> (
          let s1 = sync_hold i s in
          if registered \<and> qt_reg_deadline (tm_queues s1 i) \<le> d then Some (None, s1)
          else do {
            let t = qt_tombstones (tm_queues s1 i) + (if registered then 1 else 0);
            (g, slab) \<leftarrow> ntt_queue_retire_timer_generation (tm_slab s1) i;
            Some (Some (SyncRegister g d t),
              set_queue i (\<lambda>q. q\<lparr>qt_reg_gen := g, qt_reg_deadline := d, qt_tombstones := 0\<rparr>)
                (s1\<lparr>tm_slab := slab\<rparr>))
          }))"

definition sync_register ::
    "env \<Rightarrow> (u64 \<Rightarrow> u64 \<Rightarrow> bool) \<Rightarrow> u32 \<Rightarrow> u32 \<Rightarrow> u64 \<Rightarrow> u32 \<Rightarrow> timer_sys \<Rightarrow> timer_sys option" where
  "sync_register env settime i g d t s = do {
     service \<leftarrow> ntt_timer_service_register env settime (tm_slab s) (tm_service s) i g d t;
     Some (s\<lparr>tm_service := service\<rparr>)
   }"

definition ntt_queue_sync_timers ::
    "env \<Rightarrow> (u64 \<Rightarrow> u64 \<Rightarrow> bool) \<Rightarrow> u32 \<Rightarrow> timer_sys \<Rightarrow> timer_sys option" where
  "ntt_queue_sync_timers env settime i s = do {
     (registered, deadline, s1) \<leftarrow> sync_look env i s;
     (pc, s2) \<leftarrow> sync_decide env i registered deadline s1;
     (case pc of
        Some (SyncRegister g d t) \<Rightarrow> sync_register env settime i g d t s2
      | _ \<Rightarrow> Some s2)
   }"

section \<open>Arming, cancelling and running timers\<close>

definition queue_arm :: "env \<Rightarrow> nmem \<Rightarrow> u32 \<Rightarrow> u64 \<Rightarrow> ptr \<Rightarrow> timer_sys \<Rightarrow> (ntt_timer_tag \<times> timer_sys) option" where
  "queue_arm env m i deadline task s = do {
     (tag, timers) \<leftarrow> ntt_timer_heap_push env m (qt_timers (tm_queues s i)) deadline task;
     Some (tag, set_queue i (\<lambda>q. q\<lparr>qt_timers := timers\<rparr>) s)
   }"

definition queue_disarm :: "env \<Rightarrow> u32 \<Rightarrow> ntt_timer_tag \<Rightarrow> timer_sys \<Rightarrow> (task_event list \<times> timer_sys) option" where
  "queue_disarm env i tag s = do {
     (evs, timers) \<leftarrow> ntt_timer_heap_cancel env (qt_timers (tm_queues s i)) tag;
     Some (evs, set_queue i (\<lambda>q. q\<lparr>qt_timers := timers\<rparr>) s)
   }"

definition ntt_self_wakeup_at ::
    "env \<Rightarrow> (u64 \<Rightarrow> u64 \<Rightarrow> bool) \<Rightarrow> nmem \<Rightarrow> u32 \<Rightarrow> u64 \<Rightarrow> ptr \<Rightarrow> timer_sys \<Rightarrow> (ntt_timer_tag \<times> timer_sys) option"
where
  "ntt_self_wakeup_at env settime m queue deadline task s = do {
     (tag, s1) \<leftarrow> queue_arm env m queue deadline task s;
     s2 \<leftarrow> ntt_queue_sync_timers env settime queue s1;
     Some (tag, s2)
   }"

text \<open>\<open>now\<close> is what the clock says. The sum wraps around.\<close>

definition ntt_self_wakeup_after ::
    "env \<Rightarrow> (u64 \<Rightarrow> u64 \<Rightarrow> bool) \<Rightarrow> nmem \<Rightarrow> u32 \<Rightarrow> u64 \<Rightarrow> u64 \<Rightarrow> ptr \<Rightarrow> timer_sys \<Rightarrow>
     (ntt_timer_tag \<times> timer_sys) option" where
  "ntt_self_wakeup_after env settime m queue now delay task s =
     ntt_self_wakeup_at env settime m queue (now + delay) task s"

definition ntt_self_cancel_timer ::
    "env \<Rightarrow> (u64 \<Rightarrow> u64 \<Rightarrow> bool) \<Rightarrow> u32 \<Rightarrow> ntt_timer_tag \<Rightarrow> timer_sys \<Rightarrow> (task_event list \<times> timer_sys) option"
where
  "ntt_self_cancel_timer env settime queue tag s = do {
     (evs, s1) \<leftarrow> queue_disarm env queue tag s;
     s2 \<leftarrow> ntt_queue_sync_timers env settime queue s1;
     Some (evs, s2)
   }"

text \<open>
  One round of the loop of \<open>ntt_timer_heap_svc\<close>: it drops the cancelled timers it meets and stops
  at the first one that runs, with its task, or at the first that is not due.
\<close>

partial_function (option) timer_fire_next ::
    "env \<Rightarrow> u64 \<Rightarrow> ntt_timer_heap \<Rightarrow> (ptr option \<times> ntt_timer_heap) option" where
  "timer_fire_next env now self =
     (if th_size self = 0 then Some (None, self)
      else do {
        elem \<leftarrow> ntt_timer_heap_elem_at env self 0;
        (if te_deadline elem > now then Some (None, self)
         else do {
           self1 \<leftarrow> ntt_timer_heap_pop_root env self;
           live \<leftarrow> ntt_timer_heap_elem_live env self1 elem;
           (if \<not> live then do {
              ntt_assert env (th_tombstones self1 > 0);
              timer_fire_next env now (self1\<lparr>th_tombstones := th_tombstones self1 - 1\<rparr>)
            } else do {
              slot \<leftarrow> ntt_timer_heap_slot_at env self1 (te_index elem);
              task \<leftarrow> ts_task slot;
              self2 \<leftarrow> ntt_timer_heap_free_slot env self1 (te_index elem);
              Some (Some task, self2)
            })
         })
      })"

section \<open>Waking queues\<close>

text \<open>
  The parts of the locked section of \<open>ntt_timer_service_ready\<close>: an expired registration is taken, the
  queue is upgraded to a reference and its generation checked, the registration is retired.
\<close>

definition service_pop :: "env \<Rightarrow> u64 \<Rightarrow> timer_sys \<Rightarrow> (ntt_queue_heap_elem option \<times> timer_sys) option" where
  "service_pop env now s = do {
     (elem, queues) \<leftarrow> ntt_queue_heap_take_expired env (sv_queues (tm_service s)) (tm_slab s) now;
     Some (elem, s\<lparr>tm_service := (tm_service s)\<lparr>sv_queues := queues\<rparr>\<rparr>)
   }"

definition service_upgrade :: "env \<Rightarrow> ntt_queue_heap_elem \<Rightarrow> timer_sys \<Rightarrow> (bool \<times> timer_sys) option" where
  "service_upgrade env elem s = do {
     queue \<leftarrow> ntt_slab_at env (tm_slab s) (qe_index elem);
     Some (if qt_refs (tm_queues s (qe_index elem)) = 0 then (False, s) else (True, queue_ref (qe_index elem) s))
   }"

definition service_compare :: "env \<Rightarrow> ntt_queue_heap_elem \<Rightarrow> timer_sys \<Rightarrow> (bool \<times> timer_sys) option" where
  "service_compare env elem s = do {
     generation \<leftarrow> ntt_queue_timer_generation (tm_slab s) (qe_index elem);
     (if generation \<noteq> qe_generation elem then do {
        s1 \<leftarrow> queue_unref env (qe_index elem) s;
        Some (False, s1)
      } else Some (True, s))
   }"

definition service_check :: "env \<Rightarrow> ntt_queue_heap_elem \<Rightarrow> timer_sys \<Rightarrow> (bool \<times> timer_sys) option" where
  "service_check env elem s = do {
     (live, s1) \<leftarrow> service_upgrade env elem s;
     (if live then service_compare env elem s1 else Some (False, s1))
   }"

definition service_retire :: "u32 \<Rightarrow> timer_sys \<Rightarrow> timer_sys option" where
  "service_retire i s = do {
     (g, slab) \<leftarrow> ntt_queue_retire_timer_generation (tm_slab s) i;
     Some (s\<lparr>tm_slab := slab\<rparr>)
   }"

definition service_rearm :: "(u64 \<Rightarrow> u64 \<Rightarrow> bool) \<Rightarrow> timer_sys \<Rightarrow> timer_sys option" where
  "service_rearm settime s = do {
     service \<leftarrow> ntt_timer_service_arm_locked settime ((tm_service s)\<lparr>sv_armed := UINT64_MAX\<rparr>);
     Some (s\<lparr>tm_service := service\<rparr>)
   }"

text \<open>The locked section as it runs when no queue comes in between, with the queues to wake.\<close>

partial_function (option) service_batch ::
    "env \<Rightarrow> u64 \<Rightarrow> u32 list \<Rightarrow> timer_sys \<Rightarrow> (u32 list \<times> timer_sys) option" where
  "service_batch env now batch s =
     (if length batch < NTT_TIMER_SERVICE_BATCH then do {
        (elem, s1) \<leftarrow> service_pop env now s;
        (case elem of
           None \<Rightarrow> Some (batch, s1)
         | Some e \<Rightarrow> do {
             (live, s2) \<leftarrow> service_check env e s1;
             (if \<not> live then service_batch env now batch s2
              else do {
                s3 \<leftarrow> service_retire (qe_index e) s2;
                service_batch env now (batch @ [qe_index e]) s3
              })
           })
      } else Some (batch, s))"

declare timer_fire_next.simps [code] service_batch.simps [code]

end
