(* ===== verification/Timer_Machine.thy ===== *)
theory Timer_Machine
  imports Timer_Service Timer_Heap_Spec Queue_Heap_Inv
begin

text \<open>
  All the queues of a loop, their timers and the timer service at once. The steps of \<open>tm_step\<close> interleave
  the code that runs in the contexts of the queues, the worker that has the lock of the service, the
  workers that wake queues, and users that take and drop references and push tasks.
\<close>

section \<open>The state\<close>

text \<open>
  Where the context of a queue is: nothing runs in it, or one of its tasks does. The task that drains
  the timers carries the time it runs them for as long as it does. At \<open>PIdle\<close> the code that runs may
  arm and cancel, at \<open>PChanged\<close> the timers have changed, and in \<open>PSync\<close> it is in \<open>ntt_queue_sync_timers\<close>.
\<close>

datatype ctx_pc = PIdle | PChanged | PSync sync_pc

datatype q_ctx = Away | Inside "u64 option" ctx_pc

text \<open>Where the worker that has the lock of the service is, with the time and the queues to wake.\<close>

datatype svc_pc =
    SvcFree
  | SvcTake u64 "u32 list"
  | SvcTaken u64 "u32 list" ntt_queue_heap_elem
  | SvcHeld u64 "u32 list" ntt_queue_heap_elem
  | SvcChecked u64 "u32 list" u32

text \<open>
  \<open>tx_batch\<close> are the queues that are about to be given the task that drains their timers. \<open>tx_tasks\<close> are
  the tasks of a queue, \<open>True\<close> for one that drains the timers; the first one is in the list while it
  runs. \<open>tx_user\<close> counts the references users hold.
\<close>

record tm_state =
  tx_sys :: timer_sys
  tx_ctx :: "u32 \<Rightarrow> q_ctx"
  tx_svc :: svc_pc
  tx_batch :: "u32 multiset"
  tx_tasks :: "u32 \<Rightarrow> bool list"
  tx_user :: "u32 \<Rightarrow> nat"

section \<open>Tasks\<close>

text \<open>A push takes a reference if the queue was empty, and the run that empties it gives it back.\<close>

definition push_drain :: "u32 \<Rightarrow> bool \<Rightarrow> tm_state \<Rightarrow> tm_state" where
  "push_drain i drain s =
     s\<lparr>tx_sys := (if tx_tasks s i = [] then queue_ref i (tx_sys s) else tx_sys s),
       tx_tasks := (tx_tasks s)(i := tx_tasks s i @ [drain])\<rparr>"

definition finish_task :: "env \<Rightarrow> u32 \<Rightarrow> tm_state \<Rightarrow> tm_state option" where
  "finish_task env i s = do {
     let rest = tl (tx_tasks s i);
     sys \<leftarrow> (if rest = [] then queue_unref env i (tx_sys s) else Some (tx_sys s));
     Some (s\<lparr>tx_sys := sys, tx_tasks := (tx_tasks s)(i := rest), tx_ctx := (tx_ctx s)(i := Away)\<rparr>)
   }"

definition wake_queue :: "env \<Rightarrow> u32 \<Rightarrow> tm_state \<Rightarrow> tm_state option" where
  "wake_queue env i s = do {
     let s1 = push_drain i True s;
     sys \<leftarrow> queue_unref env i (tx_sys s1);
     Some (s1\<lparr>tx_sys := sys, tx_batch := tx_batch s1 - {#i#}\<rparr>)
   }"

section \<open>Limits\<close>

text \<open>
  The generations of the slots and the references have not run out of their types, no timer has a
  slot that has been reused \<open>2 ^ 31\<close> times, and there is room for another queue and another registration.
\<close>

definition gens_small :: "ntt_slab \<Rightarrow> bool" where
  "gens_small slab \<longleftrightarrow> (\<forall>i. unat i < unat (sl_size slab) \<longrightarrow> unat (slab_gen slab i) < 4294967295)"

definition refs_small :: "timer_sys \<Rightarrow> bool" where
  "refs_small s \<longleftrightarrow> (\<forall>i. unat (qt_refs (tm_queues s i)) < 18446744073709551615)"

definition versions_small :: "ntt_timer_heap \<Rightarrow> bool" where
  "versions_small h \<longleftrightarrow> (\<forall>t \<in> dom (th_armed h). tag_version t \<noteq> - 1)"

definition within_limits :: "tm_state \<Rightarrow> bool" where
  "within_limits s \<longleftrightarrow> gens_small (tm_slab (tx_sys s)) \<and> refs_small (tx_sys s) \<and>
     (sl_free_head (tm_slab (tx_sys s)) \<noteq> NTT_SLAB_NONE \<or> slab_room (tm_slab (tx_sys s))) \<and>
     unat (qh_size (sv_queues (tm_service (tx_sys s)))) + 1 < QH_MAX \<and>
     (\<forall>i. versions_small (qt_timers (tm_queues (tx_sys s) i)))"

section \<open>Steps\<close>

inductive tm_step :: "env \<Rightarrow> aligned_alloc \<Rightarrow> (u64 \<Rightarrow> u64 \<Rightarrow> bool) \<Rightarrow> tm_state \<Rightarrow> tm_state \<Rightarrow> bool"
  for env aligned settime where
  st_create: "within_limits s \<Longrightarrow> queue_create aligned (tx_sys s) = Some (i, sys) \<Longrightarrow>
    tm_step env aligned settime s (s\<lparr>tx_sys := sys, tx_user := (tx_user s)(i := tx_user s i + 1)\<rparr>)"
| st_acquire: "within_limits s \<Longrightarrow> tx_user s i > 0 \<or> tx_ctx s i \<noteq> Away \<Longrightarrow>
    tm_step env aligned settime s (s\<lparr>tx_sys := queue_ref i (tx_sys s), tx_user := (tx_user s)(i := tx_user s i + 1)\<rparr>)"
| st_release: "within_limits s \<Longrightarrow> tx_user s i > 0 \<Longrightarrow> queue_unref env i (tx_sys s) = Some sys \<Longrightarrow>
    tm_step env aligned settime s (s\<lparr>tx_sys := sys, tx_user := (tx_user s)(i := tx_user s i - 1)\<rparr>)"
| st_push: "within_limits s \<Longrightarrow> tx_user s i > 0 \<or> tx_ctx s i \<noteq> Away \<Longrightarrow>
    tm_step env aligned settime s (push_drain i False s)"
| st_begin: "within_limits s \<Longrightarrow> tx_ctx s i = Away \<Longrightarrow> tx_tasks s i = drain # rest \<Longrightarrow>
    tm_step env aligned settime s (s\<lparr>tx_ctx := (tx_ctx s)(i := Inside (if drain then Some now else None) PIdle)\<rparr>)"
| st_finish: "within_limits s \<Longrightarrow> tx_ctx s i = Inside None PIdle \<Longrightarrow> finish_task env i s = Some s' \<Longrightarrow>
    tm_step env aligned settime s s'"
| st_arm: "within_limits s \<Longrightarrow> tx_ctx s i = Inside drain PIdle \<Longrightarrow> th_room (qt_timers (tm_queues (tx_sys s) i)) \<Longrightarrow>
    task \<noteq> NULL \<Longrightarrow> ntt_task_unlinked m task \<Longrightarrow> queue_arm env m i deadline task (tx_sys s) = Some (tag, sys) \<Longrightarrow>
    tm_step env aligned settime s (s\<lparr>tx_sys := sys, tx_ctx := (tx_ctx s)(i := Inside drain PChanged)\<rparr>)"
| st_cancel: "within_limits s \<Longrightarrow> tx_ctx s i = Inside drain PIdle \<Longrightarrow>
    th_armed (qt_timers (tm_queues (tx_sys s) i)) tag \<noteq> None \<Longrightarrow> queue_disarm env i tag (tx_sys s) = Some (evs, sys) \<Longrightarrow>
    tm_step env aligned settime s (s\<lparr>tx_sys := sys, tx_ctx := (tx_ctx s)(i := Inside drain PChanged)\<rparr>)"
| st_fire: "within_limits s \<Longrightarrow> tx_ctx s i = Inside (Some now) PIdle \<Longrightarrow>
    timer_fire_next env now (qt_timers (tm_queues (tx_sys s) i)) = Some (task, timers) \<Longrightarrow>
    tm_step env aligned settime s (s\<lparr>tx_sys := set_queue i (\<lambda>q. q\<lparr>qt_timers := timers\<rparr>) (tx_sys s),
      tx_ctx := (tx_ctx s)(i := (if task = None then Inside None PChanged else Inside (Some now) PIdle))\<rparr>)"
| st_look: "within_limits s \<Longrightarrow> tx_ctx s i = Inside drain PChanged \<Longrightarrow>
    sync_look env i (tx_sys s) = Some (registered, deadline, sys) \<Longrightarrow>
    tm_step env aligned settime s
      (s\<lparr>tx_sys := sys, tx_ctx := (tx_ctx s)(i := Inside drain (PSync (SyncLooked registered deadline)))\<rparr>)"
| st_decide: "within_limits s \<Longrightarrow> tx_ctx s i = Inside drain (PSync (SyncLooked registered deadline)) \<Longrightarrow>
    sync_decide env i registered deadline (tx_sys s) = Some (pc, sys) \<Longrightarrow>
    tm_step env aligned settime s (s\<lparr>tx_sys := sys,
      tx_ctx := (tx_ctx s)(i := Inside drain (case pc of None \<Rightarrow> PIdle | Some p \<Rightarrow> PSync p))\<rparr>)"
| st_register: "within_limits s \<Longrightarrow> tx_ctx s i = Inside drain (PSync (SyncRegister g d t)) \<Longrightarrow> tx_svc s = SvcFree \<Longrightarrow>
    sync_register env settime i g d t (tx_sys s) = Some sys \<Longrightarrow>
    tm_step env aligned settime s (s\<lparr>tx_sys := sys, tx_ctx := (tx_ctx s)(i := Inside drain PIdle)\<rparr>)"
| st_lock: "within_limits s \<Longrightarrow> tx_svc s = SvcFree \<Longrightarrow> tm_step env aligned settime s (s\<lparr>tx_svc := SvcTake now []\<rparr>)"
| st_pop: "within_limits s \<Longrightarrow> tx_svc s = SvcTake now batch \<Longrightarrow> length batch < NTT_TIMER_SERVICE_BATCH \<Longrightarrow>
    service_pop env now (tx_sys s) = Some (Some e, sys) \<Longrightarrow>
    tm_step env aligned settime s (s\<lparr>tx_sys := sys, tx_svc := SvcTaken now batch e\<rparr>)"
| st_upgrade: "within_limits s \<Longrightarrow> tx_svc s = SvcTaken now batch e \<Longrightarrow> service_upgrade env e (tx_sys s) = Some (live, sys) \<Longrightarrow>
    tm_step env aligned settime s (s\<lparr>tx_sys := sys, tx_svc := (if live then SvcHeld now batch e else SvcTake now batch)\<rparr>)"
| st_compare: "within_limits s \<Longrightarrow> tx_svc s = SvcHeld now batch e \<Longrightarrow> service_compare env e (tx_sys s) = Some (live, sys) \<Longrightarrow>
    tm_step env aligned settime s
      (s\<lparr>tx_sys := sys, tx_svc := (if live then SvcChecked now batch (qe_index e) else SvcTake now batch)\<rparr>)"
| st_retire: "within_limits s \<Longrightarrow> tx_svc s = SvcChecked now batch i \<Longrightarrow> service_retire i (tx_sys s) = Some sys \<Longrightarrow>
    tm_step env aligned settime s (s\<lparr>tx_sys := sys, tx_svc := SvcTake now (batch @ [i])\<rparr>)"
| st_unlock: "within_limits s \<Longrightarrow> tx_svc s = SvcTake now batch \<Longrightarrow>
    (if length batch < NTT_TIMER_SERVICE_BATCH then service_pop env now (tx_sys s) = Some (None, sys1) else sys1 = tx_sys s) \<Longrightarrow>
    service_rearm settime sys1 = Some sys \<Longrightarrow>
    tm_step env aligned settime s (s\<lparr>tx_sys := sys, tx_svc := SvcFree, tx_batch := tx_batch s + mset batch\<rparr>)"
| st_wake: "within_limits s \<Longrightarrow> i \<in># tx_batch s \<Longrightarrow> wake_queue env i s = Some s' \<Longrightarrow> tm_step env aligned settime s s'"

text \<open>A loop starts with an empty slab for objects of the size of a queue and a fresh service.\<close>

definition tm_init :: "u64 \<Rightarrow> tm_state" where
  "tm_init object_size = \<lparr>tx_sys = \<lparr>tm_slab = ntt_slab_init object_size, tm_service = ntt_timer_service_init,
       tm_queues = (\<lambda>_. queue_timers_init\<lparr>qt_refs := 0\<rparr>)\<rparr>,
     tx_ctx = (\<lambda>_. Away), tx_svc = SvcFree, tx_batch = {#}, tx_tasks = (\<lambda>_. []), tx_user = (\<lambda>_. 0)\<rparr>"

inductive tm_reachable :: "env \<Rightarrow> aligned_alloc \<Rightarrow> (u64 \<Rightarrow> u64 \<Rightarrow> bool) \<Rightarrow> u64 \<Rightarrow> tm_state \<Rightarrow> bool"
  for env aligned settime n where
  tm_start: "tm_reachable env aligned settime n (tm_init n)"
| tm_next: "tm_reachable env aligned settime n s \<Longrightarrow> tm_step env aligned settime s s' \<Longrightarrow>
    tm_reachable env aligned settime n s'"

end
