(* ===== verification/Timer_Effects.thy ===== *)
theory Timer_Effects
  imports Timer_Machine
begin

text \<open>
  What the operations on the parts of the timer system do: one round of the expired timers of a queue, the
  generations of the slots of the slab of queues, and the service with its heap of registrations and its
  descriptor.
\<close>

section \<open>What is known of the slab and of the service\<close>

text \<open>The generation of a slot, zero for one that has never been taken.\<close>

definition gen_of :: "ntt_slab \<Rightarrow> u32 \<Rightarrow> nat" where
  "gen_of slab i = (if unat i < unat (sl_size slab) then unat (slab_gen slab i) else 0)"

text \<open>The slots in use are those with references, and the generations are numbers of 32 bits.\<close>

definition slab_ok :: "aligned_alloc \<Rightarrow> ntt_slab \<Rightarrow> (u32 \<Rightarrow> u64) \<Rightarrow> bool" where
  "slab_ok aligned slab refs \<longleftrightarrow>
     (\<exists>fl. slab_state aligned slab fl \<and> slab_live slab fl = {i. refs i \<noteq> 0}) \<and>
     (\<forall>i. unat i < unat (sl_size slab) \<longrightarrow> 0 < gen_of slab i \<and> gen_of slab i < 4294967296)"

definition sv_entries :: "ntt_timer_service \<Rightarrow> ntt_queue_heap_elem list" where
  "sv_entries sv = map the (take (unat (qh_size (sv_queues sv))) (qh_elems (sv_queues sv)))"

text \<open>What the descriptor is set to for a deadline; zero would disarm it.\<close>

definition timerfd_at :: "u64 \<Rightarrow> u64 \<times> u64" where
  "timerfd_at d = (d div 1000000000, if d = 0 then 1 else d mod 1000000000)"

text \<open>
  The heap of registrations is well formed, and \<open>armed\<close> is what the descriptor is set to.
\<close>

definition svc_ok :: "ntt_slab \<Rightarrow> ntt_timer_service \<Rightarrow> bool" where
  "svc_ok slab sv \<longleftrightarrow> qh_state slab (sv_queues sv) (sv_entries sv) \<and>
     (sv_armed sv \<noteq> UINT64_MAX \<longrightarrow> sv_timerfd sv = Some (timerfd_at (sv_armed sv)))"

text \<open>The kernel accepts times whose nanoseconds are below a second.\<close>

definition settime_ok :: "(u64 \<Rightarrow> u64 \<Rightarrow> bool) \<Rightarrow> bool" where
  "settime_ok settime \<longleftrightarrow> (\<forall>sec nsec. unat sec \<le> 18446744073 \<longrightarrow> unat nsec < 1000000000 \<longrightarrow> settime sec nsec)"

text \<open>An entry that stands: its generation is the one of its slot.\<close>

definition stands :: "ntt_slab \<Rightarrow> ntt_queue_heap_elem \<Rightarrow> bool" where
  "stands slab e \<longleftrightarrow> gen_of slab (qe_index e) = unat (qe_generation e)"

section \<open>One round of the expired timers\<close>

lemma th_root_at:
  assumes "th_state h xs ss fl" "xs \<noteq> []"
  shows "ntt_timer_heap_elem_at env h 0 = Some (xs ! 0)" "th_size h \<noteq> 0"
proof -
  have rep: "th_rep h xs ss" using assms(1) by (simp add: th_state_def)
  then show "ntt_timer_heap_elem_at env h 0 = Some (xs ! 0)" "th_size h \<noteq> 0"
    using assms(2) elem_at_rep [OF rep, of 0] by (auto simp: th_rep_def)
qed

lemma fire_next_stop:
  assumes "th_state h xs ss fl" "xs = [] \<or> now < te_deadline (xs ! 0)"
  shows "timer_fire_next env now h = Some (None, h)"
proof (cases "xs = []")
  case True
  then have "th_size h = 0" using assms(1) by (simp add: th_state_def th_rep_def)
  then show ?thesis by (subst timer_fire_next.simps) simp
next
  case False
  then show ?thesis using th_root_at [OF assms(1)] assms(2) by (subst timer_fire_next.simps) simp
qed

lemma fire_next_dead:
  assumes env: "env_ok env" and st: "th_state h xs ss fl" and ne: "xs \<noteq> []"
    and due: "te_deadline (xs ! 0) \<le> now" and dead: "\<not> te_live ss (xs ! 0)"
  obtains h1 where "th_state h1 (pop_min ntt_timer_heap_less xs) ss fl" "th_armed h1 = th_armed h"
    "timer_fire_next env now h = timer_fire_next env now h1"
proof -
  obtain h1 where pop: "ntt_timer_heap_pop_root env h = Some h1" "0 < unat (th_tombstones h1)"
    "ntt_timer_heap_elem_live env h1 (xs ! 0) = Some False"
    and st1: "th_state (h1\<lparr>th_tombstones := th_tombstones h1 - 1\<rparr>) (pop_min ntt_timer_heap_less xs) ss fl"
    by (rule pop_dead_state [OF env st ne dead])
  have "timer_fire_next env now h = timer_fire_next env now (h1\<lparr>th_tombstones := th_tombstones h1 - 1\<rparr>)"
    using pop th_root_at [OF st ne] leD [OF due] by (subst timer_fire_next.simps) (simp add: word_gt_0 unat_gt_0)
  moreover have "live_mset ss (pop_min ntt_timer_heap_less xs) = live_mset ss xs"
    using dead by (simp add: mset_pop_root [OF ne])
  ultimately show thesis using armed_of_live_cong [OF st st1] that [OF st1] by blast
qed

lemma fire_next_fires:
  assumes env: "env_ok env" and st: "th_state h xs ss fl" and ne: "xs \<noteq> []"
    and due: "te_deadline (xs ! 0) \<le> now" and live: "te_live ss (xs ! 0)" and wrap: "te_version (xs ! 0) \<noteq> - 1"
  obtains d q k h2 where "th_inv h2" "th_armed h (te_tag (xs ! 0)) = Some (d, q, k)" "d \<le> now"
    "th_armed h2 = (th_armed h)(te_tag (xs ! 0) := None)" "timer_fire_next env now h = Some (Some k, h2)"
proof -
  let ?x = "xs ! 0"
  have w: "te_version ?x + 1 \<noteq> 0" using wrap by (simp add: add_eq_0_iff2)
  have x: "?x \<in> set xs" using ne by simp
  obtain k where k: "ts_task (slot_of ss ?x) = Some k" using live_slot(4) [OF st x live] by blast
  obtain h1 h2 s where pop: "ntt_timer_heap_pop_root env h = Some h1"
    "ntt_timer_heap_elem_live env h1 ?x = Some True"
    "ntt_timer_heap_slot_at env h1 (te_index ?x) = Some (slot_of ss ?x)"
    "ntt_timer_heap_free_slot env h1 (te_index ?x) = Some h2"
    and st2: "th_state h2 (pop_min ntt_timer_heap_less xs) (ss[unat (te_index ?x) := s]) (te_index ?x # fl)"
    and s: "ts_version s = te_version ?x + 1"
    by (rule fire_state [OF env st ne live w])
  have "timer_fire_next env now h = Some (Some k, h2)"
    using pop th_root_at [OF st ne] leD [OF due] k by (subst timer_fire_next.simps) simp
  moreover have "th_armed h (te_tag ?x) = Some (te_deadline ?x, te_seq ?x, k)"
    using x live k unfolding th_armed_state [OF st] armed_of_iff [OF th_state_book [OF st]] by force
  moreover have "th_armed h2 = (th_armed h)(te_tag ?x := None)"
    unfolding th_armed_state [OF st] th_armed_state [OF st2]
    using vacated_tail [OF st ne live s]
    by (intro armed_of_remove [OF th_state_book [OF st] th_state_book [OF st2] _ x live]) auto
  ultimately show thesis using that [OF th_invI [OF st2]] due by blast
qed

lemma fire_next_effect:
  assumes env: "env_ok env" and inv: "th_inv h" and v: "versions_small h"
  obtains r h' where "timer_fire_next env now h = Some (r, h')" "th_inv h'"
    "r = None \<Longrightarrow> th_armed h' = th_armed h" 
    "r \<noteq> None \<Longrightarrow> \<exists>tag d q. th_armed h tag = Some (d, q, the r) \<and> d \<le> now \<and> th_armed h' = (th_armed h)(tag := None)"
proof -
  obtain xs ss fl where "th_state h xs ss fl" using inv by (auto simp: th_inv_def)
  then have "\<exists>r h'. timer_fire_next env now h = Some (r, h') \<and> th_inv h' \<and> (r = None \<longrightarrow> th_armed h' = th_armed h) \<and>
    (r \<noteq> None \<longrightarrow> (\<exists>tag d q. th_armed h tag = Some (d, q, the r) \<and> d \<le> now \<and> th_armed h' = (th_armed h)(tag := None)))"
    using v
  proof (induction "length xs" arbitrary: h xs rule: less_induct)
    case less
    note st = less.prems(1)
    consider (stop) "xs = [] \<or> now < te_deadline (xs ! 0)"
      | (dead) "xs \<noteq> []" "te_deadline (xs ! 0) \<le> now" "\<not> te_live ss (xs ! 0)"
      | (fire) "xs \<noteq> []" "te_deadline (xs ! 0) \<le> now" "te_live ss (xs ! 0)" by fastforce
    then show ?case
    proof cases
      case stop
      then show ?thesis using fire_next_stop [OF st] th_invI [OF st] by blast
    next
      case dead
      obtain h1 where st1: "th_state h1 (pop_min ntt_timer_heap_less xs) ss fl" and eq: "th_armed h1 = th_armed h"
        "timer_fire_next env now h = timer_fire_next env now h1"
        by (rule fire_next_dead [OF env st dead])
      have "length (pop_min ntt_timer_heap_less xs) < length xs"
        using dead(1) arg_cong [OF mset_pop_root [OF dead(1)], of size] by simp
      moreover have "versions_small h1" using less.prems(2) by (simp add: versions_small_def eq)
      ultimately show ?thesis using less.hyps [OF _ st1] by (simp add: eq)
    next
      case fire
      have "te_tag (xs ! 0) \<in> dom (th_armed h)"
        using fire by (simp add: th_armed_state [OF st] dom_armed_of)
      then have w: "te_version (xs ! 0) \<noteq> - 1"
        using less.prems(2) unfolding versions_small_def by (metis te_tag_def ntt_timer_tag.select_convs(2))
      obtain d q k h2 where "th_inv h2" "th_armed h (te_tag (xs ! 0)) = Some (d, q, k)" "d \<le> now"
        "th_armed h2 = (th_armed h)(te_tag (xs ! 0) := None)" "timer_fire_next env now h = Some (Some k, h2)"
        by (rule fire_next_fires [OF env st fire w])
      then show ?thesis by auto
    qed
  qed
  then show thesis using that by blast
qed

section \<open>The slab of the queues\<close>

lemma slab_okE:
  assumes "slab_ok aligned slab refs"
  obtains fl where "slab_state aligned slab fl" "slab_live slab fl = {i. refs i \<noteq> 0}"
  using assms by (auto simp: slab_ok_def)

lemma slab_ok_gen:
  assumes "slab_ok aligned slab refs"
  shows "gen_of slab i = 0 \<longleftrightarrow> unat (sl_size slab) \<le> unat i" "gen_of slab i < 4294967296"
  using assms by (auto simp: slab_ok_def gen_of_def not_less split: if_splits)

lemma slab_ok_used: "slab_ok aligned slab refs \<Longrightarrow> refs i \<noteq> 0 \<Longrightarrow> gen_of slab i \<noteq> 0"
proof -
  assume ok: "slab_ok aligned slab refs" and "refs i \<noteq> 0"
  then have "unat i < unat (sl_size slab)" by (auto simp: slab_ok_def slab_live_def)
  then show ?thesis by (simp add: slab_ok_gen(1) [OF ok])
qed

lemma ucast_gen: "unat (g :: u64) < 4294967296 \<Longrightarrow> (ucast g :: u32) = of_nat (unat g)"
  by (simp add: word_unat_eq_iff unat_of_nat unsigned_ucast_eq take_bit_eq_mod)

lemma gens_smallD: "gens_small slab \<Longrightarrow> gen_of slab i < 4294967295"
  by (simp add: gens_small_def gen_of_def)

lemma timer_generation_ok:
  assumes ok: "slab_ok aligned slab refs" and i: "gen_of slab i \<noteq> 0"
  shows "ntt_queue_timer_generation slab i = Some (of_nat (gen_of slab i))" "ntt_slab_at env slab i \<noteq> None"
proof -
  obtain fl where st: "slab_state aligned slab fl" using ok by (rule slab_okE)
  have lt: "unat i < unat (sl_size slab)" using i by (simp add: gen_of_def split: if_splits)
  obtain h where h: "sl_mem slab (slot_addr slab i) = Some h" using st lt by (auto simp: slab_state_def)
  have "unat (slab_gen slab i) < 4294967296" using slab_ok_gen(2) [OF ok, of i] lt by (simp add: gen_of_def)
  then have "ucast (sh_generation h) = (of_nat (gen_of slab i) :: u32)"
    using ucast_gen [of "slab_gen slab i"] lt by (simp add: h slab_gen_def gen_of_def)
  then show "ntt_queue_timer_generation slab i = Some (of_nat (gen_of slab i))"
    by (simp add: ntt_queue_timer_generation_def ntt_slab_generation_def slab_at_state(1) [OF st lt] h)
  show "ntt_slab_at env slab i \<noteq> None" using slab_at_state(2) [OF st lt] by simp
qed

lemma retire_state:
  assumes st: "slab_state aligned s fl" and lt: "unat i < unat (sl_size s)"
  obtains s' where "ntt_slab_retire s (slot_addr s i) = Some (ucast (slab_gen s i) + 1, s')" "slab_state aligned s' fl"
    "sl_size s' = sl_size s" "slab_gen s' i = slab_gen s i + 1"
    "\<forall>j. unat j < unat (sl_size s) \<longrightarrow> j \<noteq> i \<longrightarrow> slab_gen s' j = slab_gen s j"
proof -
  obtain h where h: "sl_mem s (slot_addr s i) = Some h" "sh_index h = i" using st lt by (auto simp: slab_state_def)
  let ?h = "h\<lparr>sh_generation := sh_generation h + 1\<rparr>"
  let ?s = "s\<lparr>sl_mem := (sl_mem s)(slot_addr s i \<mapsto> ?h)\<rparr>"
  have other: "sl_mem ?s (slot_addr ?s j) = sl_mem s (slot_addr s j)"
    if "unat j < unat (sl_size s)" "j \<noteq> i" for j
    using mem_others [OF st lt that] by simp
  have new: "sl_mem ?s (slot_addr ?s i) = Some ?h" by simp
  have heads: "\<exists>h'. sl_mem ?s (slot_addr ?s j) = Some h' \<and> sh_index h' = j \<and>
      (\<forall>g. sl_mem s (slot_addr s j) = Some g \<longrightarrow> sh_next_free h' = sh_next_free g)" if j: "unat j < unat (sl_size s)" for j
  proof (cases "j = i")
    case True
    then show ?thesis using new h by simp
  next
    case False
    from other [OF j False] show ?thesis using st j by (auto simp: slab_state_def)
  qed
  have "slab_chain s p is \<Longrightarrow> slab_chain ?s p is" for p "is"
  proof (induction "is" arbitrary: p)
    case (Cons j "is")
    then have j: "unat j < unat (sl_size s)" by simp
    obtain g where g: "sl_mem s (slot_addr s j) = Some g" using st j by (auto simp: slab_state_def)
    show ?case using Cons heads [OF j] g by (auto split: option.splits)
  qed simp
  then have "slab_chain ?s (sl_free_head ?s) fl" using st by (simp add: slab_state_def)
  moreover have "slab_geom aligned ?s" using st by (simp add: slab_state_def slab_geom_def)
  moreover have "\<forall>j. unat j < unat (sl_size ?s) \<longrightarrow> (\<exists>h. sl_mem ?s (slot_addr ?s j) = Some h \<and> sh_index h = j)"
    using heads by fastforce
  ultimately have st': "slab_state aligned ?s fl" using st unfolding slab_state_def by simp
  show thesis
    by (rule that [OF _ st']) (use other new h in \<open>simp_all add: slab_gen_def ntt_slab_retire_def Let_def\<close>)
qed

lemma unat_gen_succ: "unat (g :: u64) < 4294967296 \<Longrightarrow> unat (g + 1) = unat g + 1"
  by (simp add: unat_add64_noflow)

text \<open>The slab after the generation of one slot has been bumped.\<close>

lemma slab_ok_bumped:
  assumes ok: "slab_ok aligned slab refs" and small: "gens_small slab" and lt: "unat i < unat (sl_size slab)"
    and st: "slab_state aligned slab' fl" "slab_live slab' fl = {j. refs' j \<noteq> 0}" and sz: "sl_size slab' = sl_size slab"
    and g: "slab_gen slab' i = slab_gen slab i + 1"
      "\<forall>j. unat j < unat (sl_size slab) \<longrightarrow> j \<noteq> i \<longrightarrow> slab_gen slab' j = slab_gen slab j"
  shows "slab_ok aligned slab' refs' \<and> gen_of slab' = (gen_of slab)(i := gen_of slab i + 1)"
proof -
  have si: "unat (slab_gen slab i) < 4294967295" using gens_smallD [OF small, of i] lt by (simp add: gen_of_def)
  then have gi: "gen_of slab' i = gen_of slab i + 1"
    using lt by (simp add: gen_of_def sz g(1) unat_gen_succ)
  then have eq: "gen_of slab' = (gen_of slab)(i := gen_of slab i + 1)"
    using g(2) lt by (auto simp: gen_of_def sz fun_eq_iff)
  have "0 < gen_of slab' j \<and> gen_of slab' j < 4294967296" if "unat j < unat (sl_size slab')" for j
    using slab_ok_gen [OF ok, of j] that gens_smallD [OF small, of j] by (auto simp: eq sz)
  with st eq show ?thesis by (auto simp: slab_ok_def)
qed

lemma slab_ok_retire:
  assumes ok: "slab_ok aligned slab refs" and small: "gens_small slab" and i: "gen_of slab i \<noteq> 0"
  obtains slab' where "ntt_queue_retire_timer_generation slab i = Some (of_nat (gen_of slab i + 1), slab')"
    "slab_ok aligned slab' refs" "gen_of slab' = (gen_of slab)(i := gen_of slab i + 1)" "sl_size slab' = sl_size slab"
proof -
  obtain fl where st: "slab_state aligned slab fl" and live: "slab_live slab fl = {i. refs i \<noteq> 0}"
    using ok by (rule slab_okE)
  have lt: "unat i < unat (sl_size slab)" using i by (simp add: gen_of_def split: if_splits)
  obtain s' where s': "ntt_slab_retire slab (slot_addr slab i) = Some (ucast (slab_gen slab i) + 1, s')"
    "slab_state aligned s' fl" "sl_size s' = sl_size slab" "slab_gen s' i = slab_gen slab i + 1"
    "\<forall>j. unat j < unat (sl_size slab) \<longrightarrow> j \<noteq> i \<longrightarrow> slab_gen s' j = slab_gen slab j"
    by (rule retire_state [OF st lt])
  have "slab_live s' fl = {i. refs i \<noteq> 0}" using live s'(3) by (simp add: slab_live_def)
  note ok' = slab_ok_bumped [OF ok small lt s'(2) this s'(3,4,5)]
  have g: "unat (slab_gen slab i) < 4294967296" using gens_smallD [OF small, of i] lt by (simp add: gen_of_def)
  have "(ucast (slab_gen slab i) :: u32) + 1 = of_nat (gen_of slab i + 1)"
    using lt unfolding ucast_gen [OF g] gen_of_def by (simp only: if_True of_nat_add of_nat_1)
  then have "ntt_queue_retire_timer_generation slab i = Some (of_nat (gen_of slab i + 1), s')"
    using s'(1) by (simp add: ntt_queue_retire_timer_generation_def slab_at_state(1) [OF st lt])
  then show thesis using that ok' s'(3) by blast
qed

lemma slab_ok_give:
  assumes ok: "slab_ok aligned slab refs" and small: "gens_small slab" and i: "refs i \<noteq> 0"
  obtains slab' where "ntt_slab_give env slab i = Some slab'" "slab_ok aligned slab' (refs(i := 0))"
    "gen_of slab' = (gen_of slab)(i := gen_of slab i + 1)" "sl_size slab' = sl_size slab"
proof -
  obtain fl where st: "slab_state aligned slab fl" and live: "slab_live slab fl = {i. refs i \<noteq> 0}"
    using ok by (rule slab_okE)
  have il: "i \<in> slab_live slab fl" using live i by simp
  then have lt: "unat i < unat (sl_size slab)" by (simp add: slab_live_def)
  obtain s' where s': "ntt_slab_give env slab i = Some s'" "slab_state aligned s' (i # fl)" "sl_size s' = sl_size slab"
    "slab_gen s' i = slab_gen slab i + 1"
    "\<forall>j. unat j < unat (sl_size slab) \<longrightarrow> j \<noteq> i \<longrightarrow> slab_gen s' j = slab_gen slab j"
    by (rule give_state [OF st il])
  have "slab_live s' (i # fl) = slab_live slab fl - {i}" using s'(3) by (auto simp: slab_live_def)
  also have "\<dots> = {j. (refs(i := 0)) j \<noteq> 0}" by (auto simp: live)
  finally have "slab_live s' (i # fl) = {j. (refs(i := 0)) j \<noteq> 0}" .
  from slab_ok_bumped [OF ok small lt s'(2) this s'(3,4,5)] show thesis using that s'(1,3) by blast
qed

lemma slab_take_gens:
  assumes st: "slab_state aligned s fl" and take: "ntt_slab_take aligned s = Some (p, s')" and room: "fl \<noteq> [] \<or> slab_room s"
    and j: "unat j < unat (sl_size s')"
  shows "unat j < unat (sl_size s) \<or> slab_gen s' j = 1"
proof (cases fl)
  case Nil
  then have rm: "slab_room s" using room by simp
  obtain i t where i: "unat i = unat (sl_size s)" "ntt_slab_take aligned s = Some (slot_addr t i, t)"
    "sl_size t = sl_size s + 1" "slab_gen t i = 1"
    by (rule take_extend [OF st [unfolded Nil] rm])
  have t: "t = s'" using take i(2) by simp
  have "slab_geom aligned s" using st by (simp add: slab_state_def)
  then have "unat (sl_size s) < 67108864" by (rule geom_size)
  then have "unat (sl_size s') = Suc (unat (sl_size s))" using i(3) t by (simp add: unat_add64_noflow)
  then have "unat j < unat (sl_size s) \<or> unat j = unat i" using j i(1) by linarith
  then show ?thesis using i(4) t by (auto simp: word_unat_eq_iff [symmetric])
next
  case (Cons i fl')
  obtain n where "ntt_slab_take aligned s = Some (slot_addr s i, s\<lparr>sl_free_head := n\<rparr>)"
    by (rule take_reuse [OF st [unfolded Cons]])
  then show ?thesis using take j by auto
qed

lemma slab_ok_take:
  assumes ok: "slab_ok aligned slab refs" and room: "sl_free_head slab \<noteq> NTT_SLAB_NONE \<or> slab_room slab" and r: "r \<noteq> 0"
  obtains p i slab' where "ntt_slab_take aligned slab = Some (p, slab')" "ntt_slab_index slab' p = Some i" "refs i = 0"
    "slab_ok aligned slab' (refs(i := r))" "\<forall>j. gen_of slab j \<noteq> 0 \<longrightarrow> gen_of slab' j = gen_of slab j"
    "sl_size slab \<le> sl_size slab'"
proof -
  obtain fl where st: "slab_state aligned slab fl" and live: "slab_live slab fl = {i. refs i \<noteq> 0}"
    using ok by (rule slab_okE)
  have rm: "fl \<noteq> [] \<or> slab_room slab" using room st by (cases fl) (auto simp: slab_state_def)
  obtain i s' fl' where s': "ntt_slab_take aligned slab = Some (slot_addr s' i, s')" "slab_state aligned s' fl'"
    "ntt_slab_index s' (slot_addr s' i) = Some i" "i \<notin> slab_live slab fl"
    "slab_live s' fl' = insert i (slab_live slab fl)"
    "\<forall>j. unat j < unat (sl_size slab) \<longrightarrow> slot_addr s' j = slot_addr slab j \<and> slab_gen s' j = slab_gen slab j"
    "sl_size slab \<le> sl_size s'"
    by (rule slab_take_state [OF st rm])
  have sz: "unat (sl_size slab) \<le> unat (sl_size s')" using s'(7) by (simp add: word_le_nat_alt)
  have old: "gen_of s' j = gen_of slab j" if "unat j < unat (sl_size slab)" for j
    using that s'(6) sz by (simp add: gen_of_def)
  have "0 < gen_of s' j \<and> gen_of s' j < 4294967296" if j: "unat j < unat (sl_size s')" for j
  proof (cases "unat j < unat (sl_size slab)")
    case True
    then show ?thesis using old slab_ok_gen [OF ok, of j] by simp
  next
    case False
    then show ?thesis using slab_take_gens [OF st s'(1) rm j] j by (simp add: gen_of_def)
  qed
  moreover have "slab_live s' fl' = {j. (refs(i := r)) j \<noteq> 0}" using s'(5) live r by auto
  ultimately have "slab_ok aligned s' (refs(i := r))" using s'(2) unfolding slab_ok_def by blast
  moreover have "\<forall>j. gen_of slab j \<noteq> 0 \<longrightarrow> gen_of s' j = gen_of slab j"
    using old by (auto simp: slab_ok_gen(1) [OF ok] not_le)
  moreover have "refs i = 0" using s'(4) live by auto
  ultimately show thesis using that [OF s'(1,3)] s'(7) by blast
qed

lemma slab_ok_refs_cong:
  assumes "slab_ok aligned slab refs" "\<And>i. refs i \<noteq> 0 \<longleftrightarrow> refs' i \<noteq> 0"
  shows "slab_ok aligned slab refs'"
  using assms by (simp add: slab_ok_def)

lemma unat_u64_bound: "unat (x :: u64) < 18446744073709551616"
  using unsigned_less [of x] by simp

lemma in_diff_other: "e \<in># M \<Longrightarrow> x \<noteq> e \<Longrightarrow> e \<in># M - {#x#}"
  by (auto simp: in_diff_count)

section \<open>The service\<close>

lemma sv_entries_rep: "qh_rep (sv_queues sv) xs \<Longrightarrow> sv_entries sv = xs"
  by (simp add: sv_entries_def qh_rep_def comp_def)

lemma sv_entries_state: "qh_state slab (sv_queues sv) xs \<Longrightarrow> sv_entries sv = xs"
  by (simp add: qh_state_def sv_entries_rep)

lemma svc_ok_mono: "svc_ok slab sv \<Longrightarrow> sl_size slab \<le> sl_size slab' \<Longrightarrow> svc_ok slab' sv"
  by (fastforce simp: svc_ok_def qh_state_def qe_known_def word_le_nat_alt)

lemma svc_ok_known:
  assumes "slab_ok aligned slab refs" "svc_ok slab sv" "e \<in> set (sv_entries sv)"
  shows "gen_of slab (qe_index e) \<noteq> 0"
  using assms(2,3) by (auto simp: slab_ok_gen(1) [OF assms(1)] svc_ok_def qh_state_def qe_known_def)

lemma stands_live:
  assumes ok: "slab_ok aligned slab refs" and e: "gen_of slab (qe_index e) \<noteq> 0"
  shows "qe_live slab e \<longleftrightarrow> stands slab e"
proof -
  have i: "gen_of slab (qe_index e) = unat (slab_gen slab (qe_index e))" using e by (simp add: gen_of_def split: if_splits)
  then have g: "unat (slab_gen slab (qe_index e)) < 4294967296" using slab_ok_gen(2) [OF ok, of "qe_index e"] by simp
  have "qe_live slab e \<longleftrightarrow> of_nat (unat (slab_gen slab (qe_index e))) = qe_generation e"
    by (simp only: qe_live_def ucast_gen [OF g])
  also have "\<dots> \<longleftrightarrow> unat (slab_gen slab (qe_index e)) = unat (qe_generation e)"
    using g by (simp only: word_unat_eq_iff unat_of_nat len_num1) (simp add: take_bit_eq_mod)
  finally show ?thesis by (simp add: stands_def i)
qed

lemma standing_iff:
  assumes "slab_ok aligned slab refs" "qh_state slab h xs"
  shows "e \<in># standing slab xs \<longleftrightarrow> e \<in> set xs \<and> stands slab e"
  using stands_live [OF assms(1)] assms(2) by (auto simp: qh_state_def qe_known_def slab_ok_gen(1) [OF assms(1)])

lemma arm_locked_effect:
  assumes ok: "svc_ok slab sv" and set: "settime_ok settime"
  obtains sv' where "ntt_timer_service_arm_locked settime sv = Some sv'" "sv_queues sv' = sv_queues sv" "svc_ok slab sv'"
    "\<forall>e \<in> set (sv_entries sv). sv_armed sv' \<le> qe_deadline e"
proof -
  let ?h = "sv_queues sv" and ?xs = "sv_entries sv"
  have st: "qh_state slab ?h ?xs" using ok by (simp add: svc_ok_def)
  then have rep: "qh_rep ?h ?xs" by (simp add: qh_state_def)
  show thesis
  proof (cases "?xs = []")
    case True
    then have "qh_size ?h = 0" using rep by (simp add: qh_rep_def)
    then show thesis using that [of sv] ok True by (simp add: ntt_timer_service_arm_locked_def ntt_queue_heap_top_def)
  next
    case False
    let ?d = "qe_deadline (?xs ! 0)"
    have "arr_read (qh_elems ?h) 0 = Some (?xs ! 0)" using qh_read [OF rep, of 0] False by simp
    moreover have "qh_size ?h \<noteq> 0" using rep False by (auto simp: qh_rep_def)
    ultimately have top: "ntt_queue_heap_top ?h = Some (Some ?d)" by (simp add: ntt_queue_heap_top_def)
    have least: "?d \<le> qe_deadline e" if "e \<in> set ?xs" for e using queue_root_earliest [OF st that] .
    show thesis
    proof (cases "?d \<ge> sv_armed sv")
      case True
      then show thesis using that [of sv] ok top least by (force simp: ntt_timer_service_arm_locked_def)
    next
      case False
      let ?sv = "sv\<lparr>sv_timerfd := Some (timerfd_at ?d), sv_armed := ?d\<rparr>"
      have z: "?d div 1000000000 = 0 \<and> ?d mod 1000000000 = 0 \<longleftrightarrow> ?d = 0"
        by (metis add_0 div_mult_mod_eq mult_zero_left div_0 mod_0)
      have "unat (?d div 1000000000) \<le> 18446744073"
        using unat_u64_bound [of ?d] by (simp add: unat_div)
      moreover have "unat (snd (timerfd_at ?d)) < 1000000000" by (simp add: timerfd_at_def unat_mod)
      ultimately have "settime (fst (timerfd_at ?d)) (snd (timerfd_at ?d))"
        using set by (simp add: settime_ok_def timerfd_at_def)
      then have "ntt_timer_service_arm_locked settime sv = Some ?sv"
        using False top z by (simp add: ntt_timer_service_arm_locked_def Let_def timerfd_at_def)
      moreover have "svc_ok slab ?sv" using st by (simp add: svc_ok_def sv_entries_def)
      ultimately show thesis using that [of ?sv] least by simp
    qed
  qed
qed

lemma register_effect:
  assumes env: "env_ok env" and set: "settime_ok settime" and slab: "slab_ok aligned slab refs" and ok: "svc_ok slab sv"
    and i: "gen_of slab i \<noteq> 0" and room: "unat (qh_size (sv_queues sv)) + 1 < QH_MAX"
  obtains sv' where "ntt_timer_service_register env settime slab sv i g d t = Some sv'" "svc_ok slab sv'"
    "\<forall>e. stands slab e \<longrightarrow> e \<in> set (sv_entries sv) \<or> e = \<lparr>qe_deadline = d, qe_index = i, qe_generation = g\<rparr> \<longrightarrow>
       e \<in> set (sv_entries sv')"
    "\<forall>e \<in> set (sv_entries sv'). sv_armed sv' \<le> qe_deadline e"
proof -
  obtain fl where fl: "slab_state aligned slab fl" using slab by (rule slab_okE)
  let ?h = "sv_queues sv" and ?xs = "sv_entries sv"
  have st: "qh_state slab ?h ?xs" using ok by (simp add: svc_ok_def)
  then have n: "length ?xs + 1 < QH_MAX" using room by (simp add: qh_state_def qh_rep_def)
  have known: "unat i < unat (sl_size slab)" using i by (simp add: slab_ok_gen(1) [OF slab])
  obtain h1 ys where push: "ntt_queue_heap_push env ?h i g d = Some h1" and st1: "qh_state slab h1 ys"
    and ys: "mset ys = add_mset \<lparr>qe_deadline = d, qe_index = i, qe_generation = g\<rparr> (mset ?xs)"
    by (rule queue_push_state [OF env st n known])
  obtain h2 zs where h2: "(if t \<noteq> 0 then ntt_queue_heap_retire env h1 slab t else Some h1) = Some h2"
    and st2: "qh_state slab h2 zs" and zs: "standing slab zs = standing slab ys"
    using queue_retire_state [OF fl st1] st1 by (metis (full_types))
  let ?sv = "sv\<lparr>sv_queues := h2\<rparr>"
  have ent: "sv_entries ?sv = zs" using st2 by (simp add: sv_entries_state)
  have "svc_ok slab ?sv" using ok st2 ent by (simp add: svc_ok_def)
  then obtain sv' where sv': "ntt_timer_service_arm_locked settime ?sv = Some sv'" "sv_queues sv' = h2" "svc_ok slab sv'"
    "\<forall>e \<in> set (sv_entries ?sv). sv_armed sv' \<le> qe_deadline e"
    by (rule arm_locked_effect [OF _ set]) simp
  have ent': "sv_entries sv' = zs" using st2 sv'(2) by (intro sv_entries_state) simp
  have "e \<in> set zs" if e: "stands slab e" "e \<in> set ?xs \<or> e = \<lparr>qe_deadline = d, qe_index = i, qe_generation = g\<rparr>" for e
  proof -
    have "e \<in># mset ys" using e(2) unfolding ys by auto
    then have "e \<in># standing slab ys" using standing_iff [OF slab st1] e(1) by simp
    then show ?thesis unfolding zs [symmetric] using standing_iff [OF slab st2] by blast
  qed
  moreover have "ntt_timer_service_register env settime slab sv i g d t = Some sv'"
    using push h2 sv'(1) by (simp add: ntt_timer_service_register_def)
  ultimately show thesis using that sv'(3,4) ent ent' by auto
qed

lemma pop_effect:
  assumes slab: "slab_ok aligned (tm_slab s) refs" and ok: "svc_ok (tm_slab s) (tm_service s)"
  obtains r sv' where "service_pop env now s = Some (r, s\<lparr>tm_service := sv'\<rparr>)" "svc_ok (tm_slab s) sv'"
    "sv_armed sv' = sv_armed (tm_service s)"
    "\<forall>e. r = Some e \<longrightarrow> e \<in> set (sv_entries (tm_service s)) \<and> stands (tm_slab s) e \<and> qe_deadline e \<le> now"
    "\<forall>e. stands (tm_slab s) e \<longrightarrow> e \<in> set (sv_entries (tm_service s)) \<longrightarrow> r \<noteq> Some e \<longrightarrow> e \<in> set (sv_entries sv')"
    "set (sv_entries sv') \<subseteq> set (sv_entries (tm_service s))"
    "r \<noteq> None \<longrightarrow> length (sv_entries sv') < length (sv_entries (tm_service s))"
    "r = None \<longrightarrow> (\<forall>e \<in> set (sv_entries (tm_service s)). stands (tm_slab s) e \<longrightarrow> now < qe_deadline e)"
proof -
  obtain fl where fl: "slab_state aligned (tm_slab s) fl" using slab by (rule slab_okE)
  let ?sv = "tm_service s" and ?L = "tm_slab s"
  let ?xs = "sv_entries ?sv"
  have st: "qh_state ?L (sv_queues ?sv) ?xs" using ok by (simp add: svc_ok_def)
  obtain r h' ys where r: "ntt_queue_heap_take_expired env (sv_queues ?sv) ?L now = Some (r, h')" "qh_state ?L h' ys"
    "case r of None \<Rightarrow> standing ?L ys = standing ?L ?xs \<and> (\<forall>x \<in># standing ?L ?xs. now < qe_deadline x)
     | Some e \<Rightarrow> e \<in># standing ?L ?xs \<and> standing ?L ys = standing ?L ?xs - {#e#} \<and> qe_deadline e \<le> now \<and>
         (\<forall>x \<in># standing ?L ?xs. qe_deadline e \<le> qe_deadline x)"
    "mset ys + (case r of None \<Rightarrow> {#} | Some e \<Rightarrow> {#e#}) \<subseteq># mset ?xs"
    by (rule queue_take_expired_state [OF fl st])
  let ?sv' = "?sv\<lparr>sv_queues := h'\<rparr>"
  have ent: "sv_entries ?sv' = ys" using r(2) by (intro sv_entries_state) simp
  have keep: "e \<in> set ys" if e: "stands ?L e" "e \<in> set ?xs" "r \<noteq> Some e" for e
  proof -
    have "e \<in># standing ?L ?xs" using e standing_iff [OF slab st] by blast
    moreover have "standing ?L ys = standing ?L ?xs \<or> (\<exists>x. x \<noteq> e \<and> standing ?L ys = standing ?L ?xs - {#x#})"
      using r(3) e(3) by (cases r) auto
    ultimately have "e \<in># standing ?L ys" using in_diff_other by metis
    then show ?thesis using standing_iff [OF slab r(2)] by blast
  qed
  have sub: "set ys \<subseteq> set ?xs" using set_mset_mono [OF r(4)] by simp
  have len: "length ys < length ?xs" if "r \<noteq> None" using size_mset_mono [OF r(4)] that by auto
  have taken: "e \<in># standing ?L ?xs \<and> qe_deadline e \<le> now" if "r = Some e" for e using r(3) that by simp
  have none: "now < qe_deadline e" if "r = None" "e \<in># standing ?L ?xs" for e using r(3) that by simp
  show thesis
  proof (rule that [of r ?sv'])
    show "service_pop env now s = Some (r, s\<lparr>tm_service := ?sv'\<rparr>)" using r(1) by (simp add: service_pop_def)
    show "svc_ok ?L ?sv'" using ok r(2) ent by (simp add: svc_ok_def)
    show "\<forall>e. r = Some e \<longrightarrow> e \<in> set ?xs \<and> stands ?L e \<and> qe_deadline e \<le> now"
      using taken standing_iff [OF slab st] by blast
    show "r = None \<longrightarrow> (\<forall>e \<in> set ?xs. stands ?L e \<longrightarrow> now < qe_deadline e)"
      using none standing_iff [OF slab st] by blast
  qed (use keep sub len ent in auto)
qed

lemma rearm_effect:
  assumes ok: "svc_ok (tm_slab s) (tm_service s)" and set: "settime_ok settime"
  obtains sv' where "service_rearm settime s = Some (s\<lparr>tm_service := sv'\<rparr>)" "svc_ok (tm_slab s) sv'"
    "sv_entries sv' = sv_entries (tm_service s)" "\<forall>e \<in> set (sv_entries sv'). sv_armed sv' \<le> qe_deadline e"
proof -
  let ?sv = "(tm_service s)\<lparr>sv_armed := UINT64_MAX\<rparr>"
  have ent: "sv_entries ?sv = sv_entries (tm_service s)" by (simp add: sv_entries_def)
  have "svc_ok (tm_slab s) ?sv" using ok by (simp add: svc_ok_def ent)
  then obtain sv' where sv': "ntt_timer_service_arm_locked settime ?sv = Some sv'" "sv_queues sv' = sv_queues ?sv"
    "svc_ok (tm_slab s) sv'" "\<forall>e \<in> set (sv_entries ?sv). sv_armed sv' \<le> qe_deadline e"
    by (rule arm_locked_effect [OF _ set])
  have ent': "sv_entries sv' = sv_entries (tm_service s)" using sv'(2) by (simp add: sv_entries_def)
  show thesis
    by (rule that [of sv']) (use sv' ent ent' in \<open>simp_all add: service_rearm_def\<close>)
qed

end
