(* ===== verification/Timer_Queue_Effects.thy ===== *)
theory Timer_Queue_Effects
  imports Timer_Effects
begin

text \<open>
  What the steps of a queue and of the service do to the timer system, as changes of what is seen of the queues
  (\<open>view\<close>), of the generations of their slots and of the registrations.
\<close>

section \<open>What is seen of the queues\<close>

text \<open>What is seen of the timers of a queue: numbers for words and the armed timers for the heap.\<close>

record qview =
  v_refs :: nat
  v_armed :: "ntt_timer_tag \<rightharpoonup> armed"
  v_reg_gen :: nat
  v_reg_deadline :: u64
  v_self :: bool

definition view :: "timer_sys \<Rightarrow> u32 \<Rightarrow> qview" where
  "view s i = (let q = tm_queues s i in
     \<lparr>v_refs = unat (qt_refs q), v_armed = th_armed (qt_timers q), v_reg_gen = unat (qt_reg_gen q),
      v_reg_deadline = qt_reg_deadline q, v_self = qt_self_ref q\<rparr>)"

abbreviation gen :: "timer_sys \<Rightarrow> u32 \<Rightarrow> nat" where
  "gen s \<equiv> gen_of (tm_slab s)"

definition sys_ok :: "aligned_alloc \<Rightarrow> timer_sys \<Rightarrow> bool" where
  "sys_ok aligned s \<longleftrightarrow> slab_ok aligned (tm_slab s) (\<lambda>i. qt_refs (tm_queues s i)) \<and>
     svc_ok (tm_slab s) (tm_service s) \<and> (\<forall>i. th_inv (qt_timers (tm_queues s i)))"

definition new_view :: qview where
  "new_view = \<lparr>v_refs = 1, v_armed = Map.empty, v_reg_gen = 0, v_reg_deadline = UINT64_MAX, v_self = False\<rparr>"

text \<open>The earliest deadline of the armed timers.\<close>

definition earliest :: "(ntt_timer_tag \<rightharpoonup> armed) \<Rightarrow> u64 option \<Rightarrow> bool" where
  "earliest A r \<longleftrightarrow> (case r of None \<Rightarrow> A = Map.empty
     | Some d \<Rightarrow> (\<exists>tag q k. A tag = Some (d, q, k)) \<and> (\<forall>tag d' q k. A tag = Some (d', q, k) \<longrightarrow> d \<le> d'))"

section \<open>The queues\<close>

lemma view_simps [simp]:
  "v_refs (view s i) = unat (qt_refs (tm_queues s i))" "v_armed (view s i) = th_armed (qt_timers (tm_queues s i))"
  "v_reg_gen (view s i) = unat (qt_reg_gen (tm_queues s i))" "v_reg_deadline (view s i) = qt_reg_deadline (tm_queues s i)"
  "v_self (view s i) = qt_self_ref (tm_queues s i)"
  by (simp_all add: view_def Let_def)

lemma set_queue_simps [simp]:
  "tm_slab (set_queue i f s) = tm_slab s" "tm_service (set_queue i f s) = tm_service s"
  "tm_queues (set_queue i f s) = (tm_queues s)(i := f (tm_queues s i))"
  by (simp_all add: set_queue_def)

lemma view_cong [simp]: "view (s\<lparr>tm_slab := x\<rparr>) = view s" "view (s\<lparr>tm_service := y\<rparr>) = view s"
  by (auto simp: view_def fun_eq_iff)

lemma sys_okD:
  assumes "sys_ok aligned s"
  shows "slab_ok aligned (tm_slab s) (\<lambda>i. qt_refs (tm_queues s i))" "svc_ok (tm_slab s) (tm_service s)"
    "th_inv (qt_timers (tm_queues s i))"
  using assms by (auto simp: sys_ok_def)

lemma sys_ok_open: "sys_ok aligned s \<Longrightarrow> v_refs (view s i) \<noteq> 0 \<Longrightarrow> gen s i \<noteq> 0"
  using slab_ok_used [OF sys_okD(1)] by (simp add: unat_eq_zero)

text \<open>Changing a queue without touching its slot.\<close>

lemma set_queue_ok:
  assumes "sys_ok aligned s" "th_inv (qt_timers (f (tm_queues s i)))"
    and "qt_refs (f (tm_queues s i)) = 0 \<longleftrightarrow> qt_refs (tm_queues s i) = 0"
  shows "sys_ok aligned (set_queue i f s)"
proof -
  have "slab_ok aligned (tm_slab s) (\<lambda>j. qt_refs (((tm_queues s)(i := f (tm_queues s i))) j))"
    by (rule slab_ok_refs_cong [OF sys_okD(1) [OF assms(1)]]) (use assms(3) in auto)
  then show ?thesis using assms by (simp add: sys_ok_def)
qed

lemma set_service_ok: "sys_ok aligned s \<Longrightarrow> svc_ok (tm_slab s) sv \<Longrightarrow> sys_ok aligned (s\<lparr>tm_service := sv\<rparr>)"
  by (simp add: sys_ok_def)

lemma set_slab_ok:
  assumes "sys_ok aligned s" "slab_ok aligned slab (\<lambda>i. qt_refs (tm_queues s i))" "sl_size slab = sl_size (tm_slab s)"
  shows "sys_ok aligned (s\<lparr>tm_slab := slab\<rparr>)"
  using assms svc_ok_mono [OF sys_okD(2) [OF assms(1)], of slab] by (simp add: sys_ok_def)

text \<open>The timers of a queue change.\<close>

lemma set_timers_effect:
  assumes "sys_ok aligned s" "th_inv h"
  shows "sys_ok aligned (set_queue i (\<lambda>q. q\<lparr>qt_timers := h\<rparr>) s)"
    "view (set_queue i (\<lambda>q. q\<lparr>qt_timers := h\<rparr>) s) = (view s)(i := (view s i)\<lparr>v_armed := th_armed h\<rparr>)"
  using assms by (auto intro!: set_queue_ok simp: view_def fun_eq_iff Let_def)

lemma refs_smallD: "refs_small s \<Longrightarrow> v_refs (view s i) < 18446744073709551615"
  by (simp add: refs_small_def)

lemma queue_ref_effect:
  assumes "sys_ok aligned s" "refs_small s" "v_refs (view s i) \<noteq> 0"
  shows "sys_ok aligned (queue_ref i s)" "tm_slab (queue_ref i s) = tm_slab s" "tm_service (queue_ref i s) = tm_service s"
    "view (queue_ref i s) = (view s)(i := (view s i)\<lparr>v_refs := v_refs (view s i) + 1\<rparr>)"
proof -
  have r: "unat (qt_refs (tm_queues s i) + 1) = unat (qt_refs (tm_queues s i)) + 1"
    using refs_smallD [OF assms(2), of i] by (simp add: unat_add64_noflow)
  then have "qt_refs (tm_queues s i) + 1 \<noteq> 0" by (metis add_is_0 one_neq_zero unat_0)
  then show "sys_ok aligned (queue_ref i s)"
    unfolding queue_ref_def using assms sys_okD(3) [OF assms(1)] by (intro set_queue_ok) (auto simp: unat_eq_zero)
  show "view (queue_ref i s) = (view s)(i := (view s i)\<lparr>v_refs := v_refs (view s i) + 1\<rparr>)"
    using r by (simp add: queue_ref_def view_def fun_eq_iff Let_def)
qed (simp_all add: queue_ref_def)

lemma unat64_iff [simp]: "unat (a :: u64) = unat b \<longleftrightarrow> a = b"
  by (simp add: word_unat_eq_iff)

lemma unat64_1 [simp]: "unat (a :: u64) = Suc 0 \<longleftrightarrow> a = 1"
  using unat64_iff [of a 1] by simp

lemma unat_pred64: "(a :: u64) \<noteq> 0 \<Longrightarrow> unat (a - 1) = unat a - 1"
  by (metis unat_minus_one)

lemma queue_unref_effect:
  assumes ok: "sys_ok aligned s" and small: "v_refs (view s i) = 1 \<Longrightarrow> gens_small (tm_slab s)" and r: "v_refs (view s i) \<noteq> 0"
    and last: "v_refs (view s i) = 1 \<Longrightarrow> v_armed (view s i) = Map.empty"
  obtains s' where "queue_unref env i s = Some s'" "sys_ok aligned s'" "tm_service s' = tm_service s"
    "view s' = (view s)(i := (view s i)\<lparr>v_refs := v_refs (view s i) - 1\<rparr>)"
    "gen s' = (gen s)(i := gen s i + of_bool (v_refs (view s i) = 1))"
proof -
  let ?r = "qt_refs (tm_queues s i)"
  let ?s1 = "set_queue i (\<lambda>q. q\<lparr>qt_refs := ?r - 1\<rparr>) s"
  have nz: "?r \<noteq> 0" using r by (simp add: unat_eq_zero)
  have v1: "view ?s1 = (view s)(i := (view s i)\<lparr>v_refs := v_refs (view s i) - 1\<rparr>)"
    using unat_pred64 [OF nz] by (auto simp: view_def fun_eq_iff Let_def)
  show thesis
  proof (cases "?r = 1")
    case False
    then have "sys_ok aligned ?s1" using nz sys_okD(3) [OF ok] by (intro set_queue_ok [OF ok]) auto
    moreover have "v_refs (view s i) \<noteq> 1" using False by simp
    ultimately show thesis using that [of ?s1] v1 False by (simp add: queue_unref_def Let_def)
  next
    case True
    have inv: "th_inv (qt_timers (tm_queues s i))" using sys_okD(3) [OF ok] .
    have armed: "th_armed (qt_timers (tm_queues s i)) = Map.empty" using last True by simp
    then have empty: "ntt_timer_heap_empty (qt_timers (tm_queues s i))" using size_armed(2) [OF inv] by simp
    obtain evs where deinit: "ntt_timer_heap_deinit env (qt_timers (tm_queues s i)) = Some (evs, ntt_timer_heap_init)"
      using deinit_armed [OF inv, of env] by blast
    obtain slab where slab: "ntt_slab_give env (tm_slab s) i = Some slab"
      "slab_ok aligned slab ((\<lambda>i. qt_refs (tm_queues s i))(i := 0))" "gen_of slab = (gen s)(i := gen s i + 1)"
      "sl_size slab = sl_size (tm_slab s)"
      by (rule slab_ok_give [OF sys_okD(1) [OF ok] small nz]) (use True in simp)
    let ?s2 = "set_queue i (\<lambda>q. q\<lparr>qt_timers := ntt_timer_heap_init\<rparr>) (?s1\<lparr>tm_slab := slab\<rparr>)"
    have un: "queue_unref env i s = Some ?s2"
      using True empty deinit slab(1) by (simp add: queue_unref_def Let_def)
    have refs: "(\<lambda>j. qt_refs (tm_queues ?s2 j)) = (\<lambda>i. qt_refs (tm_queues s i))(i := 0)"
      using True by (auto simp: fun_eq_iff)
    have init: "th_inv ntt_timer_heap_init" "th_armed ntt_timer_heap_init = Map.empty"
      by (simp_all add: th_inv_init th_armed_init)
    have "sys_ok aligned ?s2"
      unfolding sys_ok_def refs using slab(2) svc_ok_mono [OF sys_okD(2) [OF ok], of slab] slab(4) sys_okD(3) [OF ok] init(1)
      by simp
    moreover have "view ?s2 = view ?s1"
      using armed init(2) by (auto simp: view_def fun_eq_iff Let_def)
    moreover have "gen ?s2 = (gen s)(i := gen s i + of_bool (v_refs (view s i) = 1))" using slab(3) True by simp
    ultimately show thesis using that [OF un] v1 by simp
  qed
qed

lemma queue_create_effect:
  assumes ok: "sys_ok aligned s" and room: "sl_free_head (tm_slab s) \<noteq> NTT_SLAB_NONE \<or> slab_room (tm_slab s)"
  obtains i s' where "queue_create aligned s = Some (i, s')" "sys_ok aligned s'" "v_refs (view s i) = 0"
    "tm_service s' = tm_service s" "view s' = (view s)(i := new_view)" "\<forall>j. gen s j \<noteq> 0 \<longrightarrow> gen s' j = gen s j"
    "gen s' i \<noteq> 0"
proof -
  obtain p i slab where t: "ntt_slab_take aligned (tm_slab s) = Some (p, slab)" "ntt_slab_index slab p = Some i"
    "qt_refs (tm_queues s i) = 0" "slab_ok aligned slab ((\<lambda>i. qt_refs (tm_queues s i))(i := 1))"
    "\<forall>j. gen s j \<noteq> 0 \<longrightarrow> gen_of slab j = gen s j" "sl_size (tm_slab s) \<le> sl_size slab"
    by (rule slab_ok_take [OF sys_okD(1) [OF ok] room, of 1]) simp
  let ?s = "set_queue i (\<lambda>_. queue_timers_init) (s\<lparr>tm_slab := slab\<rparr>)"
  have refs: "(\<lambda>j. qt_refs (tm_queues ?s j)) = (\<lambda>i. qt_refs (tm_queues s i))(i := 1)"
    by (auto simp: fun_eq_iff queue_timers_init_def)
  have "sys_ok aligned ?s"
    unfolding sys_ok_def refs using t(4) svc_ok_mono [OF sys_okD(2) [OF ok] t(6)] sys_okD(3) [OF ok]
    by (simp add: queue_timers_init_def th_inv_init)
  moreover have "queue_create aligned s = Some (i, ?s)" using t(1,2) by (simp add: queue_create_def)
  moreover have "view ?s = (view s)(i := new_view)"
    by (auto simp: view_def fun_eq_iff new_view_def queue_timers_init_def th_armed_init Let_def)
  moreover have "gen ?s i \<noteq> 0" using slab_ok_used [OF t(4), of i] by simp
  ultimately show thesis using that t(3,5) by simp
qed

lemma of_nat_gen: "n < 4294967296 \<Longrightarrow> (of_nat n :: u32) = g \<longleftrightarrow> n = unat g"
  by (auto simp: word_unat_eq_iff unat_of_nat take_bit_eq_mod)

lemma sync_look_effect:
  assumes env: "env_ok env" and ok: "sys_ok aligned s" and i: "gen s i \<noteq> 0"
  obtains r s' where "sync_look env i s = Some (gen s i = v_reg_gen (view s i), r, s')" "sys_ok aligned s'"
    "tm_service s' = tm_service s" "tm_slab s' = tm_slab s" "view s' = view s" "earliest (v_armed (view s i)) r"
proof -
  obtain r h where r: "ntt_timer_heap_peek env (qt_timers (tm_queues s i)) = Some (r, h)" "th_inv h"
    "th_armed h = th_armed (qt_timers (tm_queues s i))"
    "case r of None \<Rightarrow> th_armed (qt_timers (tm_queues s i)) = Map.empty
     | Some d \<Rightarrow> (\<exists>tag q k. th_armed (qt_timers (tm_queues s i)) tag = Some (d, q, k)) \<and>
         (\<forall>tag d' q k. th_armed (qt_timers (tm_queues s i)) tag = Some (d', q, k) \<longrightarrow> d \<le> d')"
    using peek_armed [OF env sys_okD(3) [OF ok, of i]] by blast
  note s' = set_timers_effect [OF ok r(2), of i]
  have "view s = (view s)(i := (view s i)\<lparr>v_armed := th_armed h\<rparr>)" using r(3) by (auto simp: view_def fun_eq_iff Let_def)
  moreover have "gen s i < 4294967296" using slab_ok_gen(2) [OF sys_okD(1) [OF ok]] .
  ultimately show thesis
    using that [of r "set_queue i (\<lambda>q. q\<lparr>qt_timers := h\<rparr>) s"] r(1,4) s' timer_generation_ok(1) [OF sys_okD(1) [OF ok] i]
    by (simp add: sync_look_def earliest_def of_nat_gen)
qed

lemma timer_retire_effect:
  assumes ok: "sys_ok aligned s" and small: "gens_small (tm_slab s)" and i: "gen s i \<noteq> 0"
  obtains slab where "ntt_queue_retire_timer_generation (tm_slab s) i = Some (of_nat (gen s i + 1), slab)"
    "sys_ok aligned (s\<lparr>tm_slab := slab\<rparr>)" "gen_of slab = (gen s)(i := gen s i + 1)"
proof -
  obtain slab where "ntt_queue_retire_timer_generation (tm_slab s) i = Some (of_nat (gen s i + 1), slab)"
    "slab_ok aligned slab (\<lambda>i. qt_refs (tm_queues s i))" "gen_of slab = (gen s)(i := gen s i + 1)"
    "sl_size slab = sl_size (tm_slab s)"
    by (rule slab_ok_retire [OF sys_okD(1) [OF ok] small i])
  then show thesis using that set_slab_ok [OF ok] by blast
qed

lemma sync_drop_effect:
  assumes ok: "sys_ok aligned s" and small: "gens_small (tm_slab s)" and r: "v_refs (view s i) > of_bool (v_self (view s i))"
  obtains s' where "sync_drop env i r s = Some s'" "sys_ok aligned s'" "tm_service s' = tm_service s"
    "view s' = (view s)(i := (view s i)\<lparr>v_refs := v_refs (view s i) - of_bool (v_self (view s i)), v_self := False\<rparr>)"
    "gen s' = (gen s)(i := gen s i + of_bool r)"
proof -
  have i: "gen s i \<noteq> 0" using r by (intro sys_ok_open [OF ok]) simp
  obtain s1 where s1: "(if r then do {
        (g, slab) \<leftarrow> ntt_queue_retire_timer_generation (tm_slab s) i;
        Some (set_queue i (\<lambda>q. q\<lparr>qt_tombstones := qt_tombstones q + 1\<rparr>) (s\<lparr>tm_slab := slab\<rparr>))
      } else Some s) = Some s1" "sys_ok aligned s1" "tm_service s1 = tm_service s" "view s1 = view s"
      "gen s1 = (gen s)(i := gen s i + of_bool r)"
  proof (cases r)
    case False
    then show thesis using that [of s] ok by simp
  next
    case True
    obtain slab where slab: "ntt_queue_retire_timer_generation (tm_slab s) i = Some (of_nat (gen s i + 1), slab)"
      "sys_ok aligned (s\<lparr>tm_slab := slab\<rparr>)" "gen_of slab = (gen s)(i := gen s i + 1)"
      by (rule timer_retire_effect [OF ok small i])
    let ?s = "set_queue i (\<lambda>q. q\<lparr>qt_tombstones := qt_tombstones q + 1\<rparr>) (s\<lparr>tm_slab := slab\<rparr>)"
    have "sys_ok aligned ?s" by (rule set_queue_ok [OF slab(2)]) (simp_all add: sys_okD(3) [OF ok])
    moreover have "view ?s = view s" by (auto simp: view_def fun_eq_iff Let_def)
    ultimately show thesis using that [of ?s] slab True by simp
  qed
  have fields: "qt_refs (tm_queues s1 i) = qt_refs (tm_queues s i)" "qt_self_ref (tm_queues s1 i) = v_self (view s i)"
    using view_simps(1,5) [of s1 i] unfolding s1(4) by simp_all
  show thesis
  proof (cases "v_self (view s i)")
    case False
    then have "sync_drop env i r s = Some s1" using s1(1) fields by (simp add: sync_drop_def)
    then show thesis using that [of s1] s1 False by (simp add: fun_eq_iff)
  next
    case True
    let ?s2 = "set_queue i (\<lambda>q. q\<lparr>qt_self_ref := False\<rparr>) s1"
    have ok2: "sys_ok aligned ?s2" by (rule set_queue_ok [OF s1(2)]) (simp_all add: sys_okD(3) [OF s1(2)])
    have v2: "view ?s2 = (view s1)(i := (view s1 i)\<lparr>v_self := False\<rparr>)" by (auto simp: view_def fun_eq_iff Let_def)
    have big: "v_refs (view ?s2 i) \<noteq> 1" "v_refs (view ?s2 i) \<noteq> 0" unfolding v2 s1(4) using r True by auto
    obtain s' where s': "queue_unref env i ?s2 = Some s'" "sys_ok aligned s'" "tm_service s' = tm_service ?s2"
      "view s' = (view ?s2)(i := (view ?s2 i)\<lparr>v_refs := v_refs (view ?s2 i) - 1\<rparr>)"
      "gen s' = (gen ?s2)(i := gen ?s2 i + of_bool (v_refs (view ?s2 i) = 1))"
      by (rule queue_unref_effect [OF ok2 _ big(2)]) (use big(1) in simp_all)
    have "sync_drop env i r s = Some s'" using s1(1) s'(1) fields True by (simp add: sync_drop_def)
    moreover have "view s' = (view s)(i := (view s i)\<lparr>v_refs := v_refs (view s i) - 1, v_self := False\<rparr>)"
      unfolding s'(4) v2 s1(4) by (simp add: view_def fun_eq_iff Let_def)
    moreover have "gen s' = gen s1" unfolding s'(5) using big(1) by simp
    ultimately show thesis using that s'(2,3) s1(3,5) True by simp
  qed
qed

lemma sync_hold_effect:
  assumes ok: "sys_ok aligned s" and small: "refs_small s" and r: "v_refs (view s i) \<noteq> 0"
  shows "sys_ok aligned (sync_hold i s)" "tm_service (sync_hold i s) = tm_service s" "tm_slab (sync_hold i s) = tm_slab s"
    "view (sync_hold i s) = (view s)(i := (view s i)\<lparr>v_refs := v_refs (view s i) + of_bool (\<not> v_self (view s i)), v_self := True\<rparr>)"
proof -
  note ref = queue_ref_effect [OF ok small r]
  let ?s = "set_queue i (\<lambda>q. q\<lparr>qt_self_ref := True\<rparr>) (queue_ref i s)"
  have ok': "sys_ok aligned ?s" by (rule set_queue_ok [OF ref(1)]) (simp_all add: sys_okD(3) [OF ref(1)])
  have v: "view ?s = (view (queue_ref i s))(i := (view (queue_ref i s) i)\<lparr>v_self := True\<rparr>)"
    by (auto simp: view_def fun_eq_iff Let_def)
  show "sys_ok aligned (sync_hold i s)" using ok ok' by (simp add: sync_hold_def)
  show "tm_service (sync_hold i s) = tm_service s" "tm_slab (sync_hold i s) = tm_slab s"
    using ref(2,3) by (simp_all add: sync_hold_def)
  show "view (sync_hold i s) = (view s)(i := (view s i)\<lparr>v_refs := v_refs (view s i) + of_bool (\<not> v_self (view s i)), v_self := True\<rparr>)"
  proof (cases "v_self (view s i)")
    case True
    then show ?thesis by (simp add: sync_hold_def view_def fun_eq_iff Let_def)
  next
    case False
    then have "sync_hold i s = ?s" by (simp add: sync_hold_def)
    then show ?thesis unfolding v ref(4) using False v ref(4) by (simp add: fun_eq_iff)
  qed
qed

lemma sync_decide_effect:
  assumes ok: "sys_ok aligned s" and small: "gens_small (tm_slab s)" "refs_small s" and r: "v_refs (view s i) \<noteq> 0"
  defines "v \<equiv> (view s i)\<lparr>v_refs := v_refs (view s i) + of_bool (\<not> v_self (view s i)), v_self := True\<rparr>"
  obtains (stays) s' where "b" "v_reg_deadline (view s i) \<le> d" "sync_decide env i b (Some d) s = Some (None, s')"
      "sys_ok aligned s'" "tm_service s' = tm_service s" "gen s' = gen s" "view s' = (view s)(i := v)"
    | (renews) s' t where "sync_decide env i b (Some d) s = Some (Some (SyncRegister (of_nat (gen s i + 1)) d t), s')"
      "sys_ok aligned s'" "tm_service s' = tm_service s" "gen s' = (gen s)(i := gen s i + 1)"
      "view s' = (view s)(i := v\<lparr>v_reg_gen := gen s i + 1, v_reg_deadline := d\<rparr>)"
proof -
  let ?s1 = "sync_hold i s"
  note hold = sync_hold_effect [OF ok small(2) r]
  have v1: "view ?s1 = (view s)(i := v)" using hold(4) by (simp add: v_def)
  have "v_reg_deadline (view ?s1 i) = v_reg_deadline (view s i)" unfolding v1 v_def by simp
  then have rd: "qt_reg_deadline (tm_queues ?s1 i) = v_reg_deadline (view s i)" by simp
  show thesis
  proof (cases "b \<and> v_reg_deadline (view s i) \<le> d")
    case True
    then have "sync_decide env i b (Some d) s = Some (None, ?s1)" using rd by (simp add: sync_decide_def Let_def)
    then show thesis using stays [of ?s1] True hold v1 by simp
  next
    case False
    have i: "gen ?s1 i \<noteq> 0" using sys_ok_open [OF ok r] hold(3) by simp
    obtain slab where slab: "ntt_queue_retire_timer_generation (tm_slab ?s1) i = Some (of_nat (gen s i + 1), slab)"
      "sys_ok aligned (?s1\<lparr>tm_slab := slab\<rparr>)" "gen_of slab = (gen s)(i := gen s i + 1)"
      using timer_retire_effect [OF hold(1) _ i] small(1) unfolding hold(3) by metis
    let ?f = "\<lambda>q. q\<lparr>qt_reg_gen := of_nat (gen s i + 1), qt_reg_deadline := d, qt_tombstones := 0\<rparr>"
    let ?s2 = "set_queue i ?f (?s1\<lparr>tm_slab := slab\<rparr>)"
    have ok2: "sys_ok aligned ?s2" by (rule set_queue_ok [OF slab(2)]) (simp_all add: sys_okD(3) [OF hold(1)])
    have g: "gen s i + 1 < 4294967296" using gens_smallD [OF small(1), of i] by simp
    then have g': "unat (of_nat (gen s i + 1) :: u32) = gen s i + 1" by (metis of_nat_gen)
    have "view ?s2 = (view ?s1)(i := (view ?s1 i)\<lparr>v_reg_gen := gen s i + 1, v_reg_deadline := d\<rparr>)"
      by (simp add: view_def fun_eq_iff Let_def g' [folded Suc_eq_plus1] del: of_nat_add of_nat_Suc)
    then have v2: "view ?s2 = (view s)(i := v\<lparr>v_reg_gen := gen s i + 1, v_reg_deadline := d\<rparr>)" by (simp add: v1)
    have "sync_decide env i b (Some d) s = Some (Some (SyncRegister (of_nat (gen s i + 1)) d
        (qt_tombstones (tm_queues ?s1 i) + (if b then 1 else 0))), ?s2)"
      using False rd slab(1) by (simp add: sync_decide_def Let_def del: of_nat_add of_nat_Suc)
    then show thesis by (rule renews) (use ok2 hold(2) slab(3) v2 in simp_all)
  qed
qed

lemma service_upgrade_effect:
  assumes ok: "sys_ok aligned s" and small: "refs_small s" and e: "gen s (qe_index e) \<noteq> 0"
  obtains s' where "service_upgrade env e s = Some (v_refs (view s (qe_index e)) \<noteq> 0, s')" "sys_ok aligned s'"
    "tm_service s' = tm_service s" "tm_slab s' = tm_slab s"
    "view s' = (view s)(qe_index e := (view s (qe_index e))\<lparr>v_refs := v_refs (view s (qe_index e)) +
       of_bool (v_refs (view s (qe_index e)) \<noteq> 0)\<rparr>)"
proof -
  obtain p where p: "ntt_slab_at env (tm_slab s) (qe_index e) = Some p"
    using timer_generation_ok(2) [OF sys_okD(1) [OF ok] e] by blast
  show thesis
  proof (cases "v_refs (view s (qe_index e)) = 0")
    case True
    then have z: "qt_refs (tm_queues s (qe_index e)) = 0" by (simp add: unat_eq_zero)
    then have "service_upgrade env e s = Some (False, s)" using p by (simp add: service_upgrade_def)
    then show thesis using that [of s] z ok True by (simp add: view_def fun_eq_iff Let_def)
  next
    case False
    then have nz: "qt_refs (tm_queues s (qe_index e)) \<noteq> 0" by (simp add: unat_eq_zero)
    then have "service_upgrade env e s = Some (True, queue_ref (qe_index e) s)"
      using p by (simp add: service_upgrade_def)
    then show thesis using that queue_ref_effect [OF ok small False] nz False by (simp add: unat_eq_zero)
  qed
qed

lemma service_compare_effect:
  assumes ok: "sys_ok aligned s" and small: "gens_small (tm_slab s)" and r: "v_refs (view s (qe_index e)) \<noteq> 0"
    and last: "v_refs (view s (qe_index e)) = 1 \<Longrightarrow> v_armed (view s (qe_index e)) = Map.empty"
  obtains (same) "stands (tm_slab s) e" "service_compare env e s = Some (True, s)"
    | (stale) s' where "\<not> stands (tm_slab s) e" "service_compare env e s = Some (False, s')"
    "sys_ok aligned s'" "tm_service s' = tm_service s"
    "view s' = (view s)(qe_index e := (view s (qe_index e))\<lparr>v_refs := v_refs (view s (qe_index e)) - 1\<rparr>)"
    "gen s' = (gen s)(qe_index e := gen s (qe_index e) + of_bool (v_refs (view s (qe_index e)) = 1))"
proof -
  have i: "gen s (qe_index e) \<noteq> 0" using sys_ok_open [OF ok r] .
  have g: "ntt_queue_timer_generation (tm_slab s) (qe_index e) = Some (of_nat (gen s (qe_index e)))"
    using timer_generation_ok(1) [OF sys_okD(1) [OF ok] i] .
  have eq: "of_nat (gen s (qe_index e)) = qe_generation e \<longleftrightarrow> stands (tm_slab s) e"
    using slab_ok_gen(2) [OF sys_okD(1) [OF ok], of "qe_index e"] by (simp add: stands_def of_nat_gen)
  show thesis
  proof (cases "stands (tm_slab s) e")
    case True
    then show thesis using same g eq by (simp add: service_compare_def)
  next
    case False
    obtain s' where s': "queue_unref env (qe_index e) s = Some s'" "sys_ok aligned s'" "tm_service s' = tm_service s"
      "view s' = (view s)(qe_index e := (view s (qe_index e))\<lparr>v_refs := v_refs (view s (qe_index e)) - 1\<rparr>)"
      "gen s' = (gen s)(qe_index e := gen s (qe_index e) + of_bool (v_refs (view s (qe_index e)) = 1))"
      by (rule queue_unref_effect [OF ok small r last])
    then have "service_compare env e s = Some (False, s')" using g eq False by (simp add: service_compare_def)
    then show thesis using stale [OF False] s' by blast
  qed
qed

end
