(* ===== verification/Timer_Machine_Inv.thy ===== *)
theory Timer_Machine_Inv
  imports Timer_Queue_Effects
begin

text \<open>
  The invariant of all queues and the timer service at once: references are counted exactly, and a queue that
  is between two of its timer operations is registered with the service or about to be woken. Every step keeps it and
  returns, and it holds in every reachable state.
\<close>

section \<open>Who holds a queue and who wakes it\<close>

text \<open>The references the service holds, and the queues it is about to wake.\<close>

fun svc_holds :: "svc_pc \<Rightarrow> u32 \<Rightarrow> nat" where
  "svc_holds SvcFree i = 0"
| "svc_holds (SvcTake now batch) i = count_list batch i"
| "svc_holds (SvcTaken now batch e) i = count_list batch i"
| "svc_holds (SvcHeld now batch e) i = count_list batch i + of_bool (qe_index e = i)"
| "svc_holds (SvcChecked now batch j) i = count_list batch i + of_bool (j = i)"

fun svc_wakes :: "nat \<Rightarrow> svc_pc \<Rightarrow> u32 \<Rightarrow> bool" where
  "svc_wakes g SvcFree i \<longleftrightarrow> False"
| "svc_wakes g (SvcTake now batch) i \<longleftrightarrow> i \<in> set batch"
| "svc_wakes g (SvcTaken now batch e) i \<longleftrightarrow> i \<in> set batch \<or> qe_index e = i \<and> unat (qe_generation e) = g"
| "svc_wakes g (SvcHeld now batch e) i \<longleftrightarrow> i \<in> set batch \<or> qe_index e = i \<and> unat (qe_generation e) = g"
| "svc_wakes g (SvcChecked now batch j) i \<longleftrightarrow> i \<in> set batch \<or> j = i"

fun svc_has :: "nat \<Rightarrow> svc_pc \<Rightarrow> u32 \<Rightarrow> bool" where
  "svc_has g (SvcTaken now batch e) i \<longleftrightarrow> qe_index e = i \<and> unat (qe_generation e) = g"
| "svc_has g (SvcHeld now batch e) i \<longleftrightarrow> qe_index e = i \<and> unat (qe_generation e) = g"
| "svc_has g (SvcChecked now batch j) i \<longleftrightarrow> j = i"
| "svc_has g p i \<longleftrightarrow> False"

definition holders :: "tm_state \<Rightarrow> u32 \<Rightarrow> nat" where
  "holders S i = tx_user S i + of_bool (v_self (view (tx_sys S) i)) + of_bool (tx_tasks S i \<noteq> []) +
     count (tx_batch S) i + svc_holds (tx_svc S) i"

text \<open>
  A queue is going to be woken: it has the task that drains its timers waiting, or the service or a
  worker is about to give it one.
\<close>

definition waiting :: "q_ctx \<Rightarrow> bool list \<Rightarrow> bool list" where
  "waiting c ts = (if c = Away then ts else tl ts)"

definition pending :: "tm_state \<Rightarrow> u32 \<Rightarrow> bool" where
  "pending S i \<longleftrightarrow> True \<in> set (waiting (tx_ctx S i) (tx_tasks S i)) \<or> i \<in># tx_batch S \<or>
     svc_wakes (gen (tx_sys S) i) (tx_svc S) i"

text \<open>The heap of the service has the entry the queue registered last, or the service has just taken it.\<close>

definition reg_entry :: "u32 \<Rightarrow> qview \<Rightarrow> ntt_queue_heap_elem \<Rightarrow> bool" where
  "reg_entry i v e \<longleftrightarrow> qe_index e = i \<and> unat (qe_generation e) = v_reg_gen v \<and> qe_deadline e = v_reg_deadline v"

definition heaped :: "tm_state \<Rightarrow> u32 \<Rightarrow> bool" where
  "heaped S i \<longleftrightarrow> (\<exists>e \<in> set (sv_entries (tm_service (tx_sys S))). reg_entry i (view (tx_sys S) i) e) \<or>
     svc_has (gen (tx_sys S) i) (tx_svc S) i"

definition no_later :: "u64 \<Rightarrow> qview \<Rightarrow> bool" where
  "no_later d v \<longleftrightarrow> (\<forall>tag d' q k. v_armed v tag = Some (d', q, k) \<longrightarrow> d \<le> d')"

text \<open>
  What holds of a queue between two of its timer operations: with timers armed it holds itself, and it is
  going to be woken or its registration stands with a deadline that is not later than any of them.
\<close>

definition rested :: "qview \<Rightarrow> nat \<Rightarrow> bool \<Rightarrow> bool" where
  "rested v g p \<longleftrightarrow> v_armed v = Map.empty \<or> v_self v \<and> (p \<or> g = v_reg_gen v \<and> no_later (v_reg_deadline v) v)"

fun registering :: "q_ctx \<Rightarrow> bool" where
  "registering (Inside drain (PSync (SyncRegister g d t))) \<longleftrightarrow> True"
| "registering c \<longleftrightarrow> False"

fun ctx_ok :: "q_ctx \<Rightarrow> qview \<Rightarrow> nat \<Rightarrow> bool \<Rightarrow> bool" where
  "ctx_ok Away v g p \<longleftrightarrow> rested v g p"
| "ctx_ok (Inside drain PIdle) v g p \<longleftrightarrow> drain = None \<longrightarrow> rested v g p"
| "ctx_ok (Inside drain PChanged) v g p \<longleftrightarrow> True"
| "ctx_ok (Inside drain (PSync (SyncLooked r d))) v g p \<longleftrightarrow>
     earliest (v_armed v) d \<and> (if r then p \<or> g = v_reg_gen v else g \<noteq> v_reg_gen v)"
| "ctx_ok (Inside drain (PSync (SyncRegister rg d t))) v g p \<longleftrightarrow>
     unat rg = v_reg_gen v \<and> d = v_reg_deadline v \<and> no_later d v \<and> v_self v \<and> (p \<or> g = v_reg_gen v)"

definition q_good :: "q_ctx \<Rightarrow> qview \<Rightarrow> nat \<Rightarrow> bool \<Rightarrow> bool \<Rightarrow> bool" where
  "q_good c v g p h \<longleftrightarrow> v_reg_gen v \<le> g \<and> (g = v_reg_gen v \<longrightarrow> h \<or> registering c) \<and> ctx_ok c v g p"

fun svc_inv :: "svc_pc \<Rightarrow> timer_sys \<Rightarrow> bool" where
  "svc_inv SvcFree s \<longleftrightarrow> (\<forall>e \<in> set (sv_entries (tm_service s)). sv_armed (tm_service s) \<le> qe_deadline e)"
| "svc_inv (SvcTaken now batch e) s \<longleftrightarrow> gen s (qe_index e) \<noteq> 0"
| "svc_inv p s \<longleftrightarrow> True"

definition tm_inv :: "aligned_alloc \<Rightarrow> tm_state \<Rightarrow> bool" where
  "tm_inv aligned S \<longleftrightarrow> sys_ok aligned (tx_sys S) \<and> svc_inv (tx_svc S) (tx_sys S) \<and>
     (\<forall>i. v_refs (view (tx_sys S) i) = holders S i) \<and> (\<forall>i. tx_ctx S i \<noteq> Away \<longrightarrow> tx_tasks S i \<noteq> []) \<and>
     (\<forall>i. v_refs (view (tx_sys S) i) \<noteq> 0 \<longrightarrow>
        q_good (tx_ctx S i) (view (tx_sys S) i) (gen (tx_sys S) i) (pending S i) (heaped S i)) \<and>
     (\<forall>i. v_refs (view (tx_sys S) i) = 0 \<longrightarrow> v_armed (view (tx_sys S) i) = Map.empty)"

section \<open>The invariant\<close>

lemma tm_invD:
  assumes "tm_inv aligned S"
  shows "sys_ok aligned (tx_sys S)" "svc_inv (tx_svc S) (tx_sys S)" "v_refs (view (tx_sys S) i) = holders S i"
    "tx_ctx S i \<noteq> Away \<Longrightarrow> tx_tasks S i \<noteq> []"
    "holders S i \<noteq> 0 \<Longrightarrow> q_good (tx_ctx S i) (view (tx_sys S) i) (gen (tx_sys S) i) (pending S i) (heaped S i)"
    "holders S i = 0 \<Longrightarrow> v_armed (view (tx_sys S) i) = Map.empty"
  using assms by (auto simp: tm_inv_def)

lemma tm_invI:
  assumes "sys_ok aligned (tx_sys S)" "svc_inv (tx_svc S) (tx_sys S)" "\<And>i. v_refs (view (tx_sys S) i) = holders S i"
    "\<And>i. tx_ctx S i \<noteq> Away \<Longrightarrow> tx_tasks S i \<noteq> []"
    "\<And>i. holders S i \<noteq> 0 \<Longrightarrow> q_good (tx_ctx S i) (view (tx_sys S) i) (gen (tx_sys S) i) (pending S i) (heaped S i)"
    "\<And>i. holders S i = 0 \<Longrightarrow> v_armed (view (tx_sys S) i) = Map.empty"
  shows "tm_inv aligned S"
  using assms by (auto simp: tm_inv_def)

section \<open>One queue\<close>

text \<open>More wakeups on the way, or a changed counter, do no harm.\<close>

lemma rested_mono: "rested v g p \<Longrightarrow> (p \<Longrightarrow> p') \<Longrightarrow> rested v g p'"
  by (auto simp: rested_def)

lemma rested_refs [simp]: "rested (v\<lparr>v_refs := n\<rparr>) g p \<longleftrightarrow> rested v g p"
  by (simp add: rested_def no_later_def)

lemma ctx_ok_refs [simp]: "ctx_ok c (v\<lparr>v_refs := n\<rparr>) g p \<longleftrightarrow> ctx_ok c v g p"
  by (induction c v g p rule: ctx_ok.induct) (simp_all add: no_later_def)

lemma q_good_refs [simp]: "q_good c (v\<lparr>v_refs := n\<rparr>) g p h \<longleftrightarrow> q_good c v g p h"
  by (simp add: q_good_def)

lemma ctx_ok_mono: "ctx_ok c v g p \<Longrightarrow> (p \<Longrightarrow> p') \<Longrightarrow> ctx_ok c v g p'"
  by (induction c v g p rule: ctx_ok.induct) (auto intro: rested_mono)

lemma q_good_mono:
  assumes "q_good c v g p h" "p \<Longrightarrow> p'" "h \<Longrightarrow> g = v_reg_gen v \<Longrightarrow> h'"
  shows "q_good c v g p' h'"
  using assms ctx_ok_mono [of c v g p p'] by (auto simp: q_good_def)

text \<open>The service retires the registration of a queue that it is going to wake.\<close>

lemma q_good_bumped:
  assumes "q_good c v g p h"
  shows "q_good c v (g + 1) True h'"
proof -
  have "ctx_ok c v (g + 1) True" if "v_reg_gen v \<le> g" "ctx_ok c v g p"
    using that by (induction c v g p rule: ctx_ok.induct) (auto simp: rested_def)
  with assms show ?thesis by (auto simp: q_good_def)
qed

text \<open>A task begins or ends, and the timers change.\<close>

lemma q_good_begin:
  "q_good Away v g p h \<Longrightarrow> (drain = None \<Longrightarrow> p \<Longrightarrow> p') \<Longrightarrow> q_good (Inside drain PIdle) v g p' h"
  by (auto simp: q_good_def intro: rested_mono)

lemma q_good_finish: "q_good (Inside None PIdle) v g p h \<Longrightarrow> q_good Away v g p h"
  by (simp add: q_good_def)

lemma q_good_timers: "q_good (Inside drain PIdle) v g p h \<Longrightarrow> q_good (Inside drain' PChanged) (v\<lparr>v_armed := A\<rparr>) g p' h"
  by (simp add: q_good_def)

lemma q_good_fired: "q_good (Inside drain PIdle) v g p h \<Longrightarrow> q_good (Inside (Some now) PIdle) (v\<lparr>v_armed := A\<rparr>) g p' h"
  by (simp add: q_good_def)

text \<open>The parts of \<open>ntt_queue_sync_timers\<close>.\<close>

lemma q_good_looked:
  "q_good (Inside drain PChanged) v g p h \<Longrightarrow> earliest (v_armed v) d \<Longrightarrow>
   q_good (Inside drain (PSync (SyncLooked (g = v_reg_gen v) d))) v g p h"
  by (simp add: q_good_def)

lemma q_good_dropped:
  "q_good (Inside drain (PSync (SyncLooked r None))) v g p h \<Longrightarrow>
   q_good (Inside drain PIdle) (v\<lparr>v_refs := n, v_self := False\<rparr>) (g + of_bool r) p' h"
  by (auto simp: q_good_def rested_def earliest_def)

lemma q_good_kept:
  "q_good (Inside drain (PSync (SyncLooked True (Some d)))) v g p h \<Longrightarrow> v_reg_deadline v \<le> d \<Longrightarrow>
   q_good (Inside drain PIdle) (v\<lparr>v_refs := n, v_self := True\<rparr>) g p h"
  by (fastforce simp: q_good_def rested_def earliest_def no_later_def)

lemma q_good_renewed:
  "q_good (Inside drain (PSync (SyncLooked r (Some d)))) v g p h \<Longrightarrow> unat rg = g + 1 \<Longrightarrow>
   q_good (Inside drain (PSync (SyncRegister rg d t)))
     (v\<lparr>v_refs := n, v_self := True, v_reg_gen := g + 1, v_reg_deadline := d\<rparr>) (g + 1) p' h'"
  by (auto simp: q_good_def earliest_def no_later_def)

lemma q_good_registered:
  "q_good (Inside drain (PSync (SyncRegister rg d t))) v g p h \<Longrightarrow> (g = v_reg_gen v \<Longrightarrow> h') \<Longrightarrow>
   q_good (Inside drain PIdle) v g p h'"
  by (auto simp: q_good_def rested_def)

lemma q_good_new: "q_good Away new_view g p h \<longleftrightarrow> g \<noteq> 0 \<or> h"
  by (auto simp: q_good_def new_view_def rested_def)

declare view_simps [simp del]

section \<open>Steps of one queue\<close>

lemma new_view_simps [simp]: "v_refs new_view = 1" "v_self new_view = False" "v_armed new_view = Map.empty"
  by (simp_all add: new_view_def)

lemma reg_entry_refs [simp]: "reg_entry i (v\<lparr>v_refs := n\<rparr>) e \<longleftrightarrow> reg_entry i v e"
  by (simp add: reg_entry_def)

lemma tm_inv_open:
  assumes "tm_inv aligned S" "holders S i \<noteq> 0"
  shows "gen (tx_sys S) i \<noteq> 0"
  using sys_ok_open [OF tm_invD(1) [OF assms(1)], of i] tm_invD(3) [OF assms(1), of i] assms(2) by metis

lemma heaped_kept:
  assumes "heaped S j" "gen (tx_sys S) j = v_reg_gen (view (tx_sys S) j)" "gen (tx_sys S') j = gen (tx_sys S) j"
    and "view (tx_sys S') j = view (tx_sys S) j" "svc_has (gen (tx_sys S) j) (tx_svc S) j \<Longrightarrow> heaped S' j"
    and "\<And>e. e \<in> set (sv_entries (tm_service (tx_sys S))) \<Longrightarrow> qe_index e = j \<Longrightarrow> stands (tm_slab (tx_sys S)) e \<Longrightarrow>
      e \<in> set (sv_entries (tm_service (tx_sys S'))) \<or> heaped S' j"
  shows "heaped S' j"
  using assms(1)
  unfolding heaped_def [of S]
proof
  assume "\<exists>e \<in> set (sv_entries (tm_service (tx_sys S))). reg_entry j (view (tx_sys S) j) e"
  then obtain e where e: "e \<in> set (sv_entries (tm_service (tx_sys S)))" "reg_entry j (view (tx_sys S) j) e" by blast
  then have "qe_index e = j" "stands (tm_slab (tx_sys S)) e" using assms(2) by (auto simp: reg_entry_def stands_def)
  then show ?thesis using assms(4,6) e by (auto simp: heaped_def)
qed (rule assms(5))

text \<open>
  A step that changes only the queues of a set, and takes from the heap only their entries: of the other
  queues nothing has to be shown.
\<close>

lemma tm_inv_frame:
  assumes inv: "tm_inv aligned S" and ok: "sys_ok aligned (tx_sys S')" "svc_inv (tx_svc S') (tx_sys S')"
    and view: "\<And>j. j \<notin> I \<Longrightarrow> view (tx_sys S') j = view (tx_sys S) j"
    and gen: "\<And>j. j \<notin> I \<Longrightarrow> gen (tx_sys S) j \<noteq> 0 \<Longrightarrow> gen (tx_sys S') j = gen (tx_sys S) j"
    and same: "\<And>j. j \<notin> I \<Longrightarrow> tx_ctx S' j = tx_ctx S j \<and> tx_tasks S' j = tx_tasks S j \<and> tx_user S' j = tx_user S j"
    and holds: "\<And>j. j \<notin> I \<Longrightarrow> count (tx_batch S') j + svc_holds (tx_svc S') j = count (tx_batch S) j + svc_holds (tx_svc S) j"
    and wakes: "\<And>j g. j \<notin> I \<Longrightarrow> j \<in># tx_batch S \<or> svc_wakes g (tx_svc S) j \<Longrightarrow> j \<in># tx_batch S' \<or> svc_wakes g (tx_svc S') j"
    and has: "\<And>j g. j \<notin> I \<Longrightarrow> svc_has g (tx_svc S) j \<Longrightarrow> svc_has g (tx_svc S') j"
    and heap: "\<And>e. e \<in> set (sv_entries (tm_service (tx_sys S))) \<Longrightarrow> qe_index e \<notin> I \<Longrightarrow>
      stands (tm_slab (tx_sys S)) e \<Longrightarrow> e \<in> set (sv_entries (tm_service (tx_sys S')))"
    and refs: "\<And>i. i \<in> I \<Longrightarrow> v_refs (view (tx_sys S') i) = holders S' i"
    and ctx: "\<And>i. i \<in> I \<Longrightarrow> tx_ctx S' i \<noteq> Away \<Longrightarrow> tx_tasks S' i \<noteq> []"
    and good: "\<And>i. i \<in> I \<Longrightarrow> holders S' i \<noteq> 0 \<Longrightarrow>
      q_good (tx_ctx S' i) (view (tx_sys S') i) (gen (tx_sys S') i) (pending S' i) (heaped S' i)"
    and vacant: "\<And>i. i \<in> I \<Longrightarrow> holders S' i = 0 \<Longrightarrow> v_armed (view (tx_sys S') i) = Map.empty"
  shows "tm_inv aligned S'"
proof (rule tm_invI [OF ok])
  fix j
  have hold: "holders S' j = holders S j" if "j \<notin> I" using holds [OF that] same [OF that] that by (simp add: holders_def view)
  show "v_refs (view (tx_sys S') j) = holders S' j"
    using tm_invD(3) [OF inv, of j] refs hold by (cases "j \<in> I") (simp_all add: view)
  show "tx_ctx S' j \<noteq> Away \<Longrightarrow> tx_tasks S' j \<noteq> []"
    using tm_invD(4) [OF inv, of j] ctx same by (cases "j \<in> I") simp_all
  show "holders S' j = 0 \<Longrightarrow> v_armed (view (tx_sys S') j) = Map.empty"
    using tm_invD(6) [OF inv, of j] vacant hold by (cases "j \<in> I") (simp_all add: view)
  assume open': "holders S' j \<noteq> 0"
  show "q_good (tx_ctx S' j) (view (tx_sys S') j) (gen (tx_sys S') j) (pending S' j) (heaped S' j)"
  proof (cases "j \<in> I")
    case False
    have g: "gen (tx_sys S') j = gen (tx_sys S) j" using gen False tm_inv_open [OF inv] open' hold by simp
    note v = view [OF False]
    have "q_good (tx_ctx S j) (view (tx_sys S) j) (gen (tx_sys S) j) (pending S j) (heaped S j)"
      using tm_invD(5) [OF inv] open' hold False by simp
    then have "q_good (tx_ctx S j) (view (tx_sys S) j) (gen (tx_sys S) j) (pending S' j) (heaped S' j)"
    proof (rule q_good_mono)
      show "pending S j \<Longrightarrow> pending S' j" using wakes [OF False] same [OF False] by (auto simp: pending_def g)
      assume h: "heaped S j" "gen (tx_sys S) j = v_reg_gen (view (tx_sys S) j)"
      show "heaped S' j"
        by (rule heaped_kept [OF h g v]) (use heap has [OF False] False in \<open>auto simp: heaped_def g\<close>)
    qed
    then show ?thesis using same [OF False] by (simp add: v g)
  qed (use good open' in blast)
qed

lemma svc_inv_kept:
  "svc_inv p s \<Longrightarrow> tm_service s' = tm_service s \<Longrightarrow> (\<And>j. gen s j \<noteq> 0 \<Longrightarrow> gen s' j \<noteq> 0) \<Longrightarrow> svc_inv p s'"
  by (cases "(p, s)" rule: svc_inv.cases) auto

text \<open>What a step has to show of the queue whose context it is in.\<close>

lemma holders_ctx: "tm_inv aligned S \<Longrightarrow> tx_ctx S i \<noteq> Away \<Longrightarrow> holders S i \<noteq> 0"
  using tm_invD(4) by (fastforce simp: holders_def)

lemma within_limitsD:
  assumes "within_limits S"
  shows "gens_small (tm_slab (tx_sys S))" "refs_small (tx_sys S)"
    "sl_free_head (tm_slab (tx_sys S)) \<noteq> NTT_SLAB_NONE \<or> slab_room (tm_slab (tx_sys S))"
    "unat (qh_size (sv_queues (tm_service (tx_sys S)))) + 1 < QH_MAX"
    "versions_small (qt_timers (tm_queues (tx_sys S) i))"
  using assms by (auto simp: within_limits_def)

text \<open>The last reference is dropped only when no timer is armed.\<close>

lemma tm_inv_last:
  assumes inv: "tm_inv aligned S" and one: "v_refs (view (tx_sys S) i) = 1"
    and other: "0 < tx_user S i + count (tx_batch S) i + svc_holds (tx_svc S) i"
  shows "v_armed (view (tx_sys S) i) = Map.empty"
proof -
  have h: "holders S i = 1" using one tm_invD(3) [OF inv, of i] by simp
  then have "of_bool (v_self (view (tx_sys S) i)) + of_bool (tx_tasks S i \<noteq> []) = (0 :: nat)"
    using other unfolding holders_def by linarith
  then have "tx_tasks S i = [] \<and> \<not> v_self (view (tx_sys S) i)" by simp
  moreover from this have "tx_ctx S i = Away" using tm_invD(4) [OF inv, of i] by blast
  ultimately show ?thesis using tm_invD(5) [OF inv, of i] h by (simp add: q_good_def rested_def)
qed

lemma inv_create:
  assumes inv: "tm_inv aligned S" and lim: "within_limits S" and step: "queue_create aligned (tx_sys S) = Some (i, sys)"
  shows "tm_inv aligned (S\<lparr>tx_sys := sys, tx_user := (tx_user S)(i := tx_user S i + 1)\<rparr>)" (is "tm_inv aligned ?S")
proof -
  have e: "sys_ok aligned sys" "v_refs (view (tx_sys S) i) = 0" "tm_service sys = tm_service (tx_sys S)"
    "view sys = (view (tx_sys S))(i := new_view)" "\<forall>j. gen (tx_sys S) j \<noteq> 0 \<longrightarrow> gen sys j = gen (tx_sys S) j" "gen sys i \<noteq> 0"
    using queue_create_effect [OF tm_invD(1) [OF inv] within_limitsD(3) [OF lim]] step by (metis option.sel prod.inject)+
  have z: "holders S i = 0" using e(2) tm_invD(3) [OF inv, of i] by simp
  then have away: "tx_ctx S i = Away" using holders_ctx [OF inv] by blast
  have svc: "svc_inv (tx_svc S) sys" by (rule svc_inv_kept [OF tm_invD(2) [OF inv]]) (use e(3,5) in auto)
  show ?thesis
    by (rule tm_inv_frame [OF inv, of ?S "{i}"]) (use z e svc away in \<open>auto simp: holders_def q_good_new\<close>)
qed

lemma inv_acquire:
  assumes inv: "tm_inv aligned S" and lim: "within_limits S" and u: "tx_user S i > 0 \<or> tx_ctx S i \<noteq> Away"
  shows "tm_inv aligned (S\<lparr>tx_sys := queue_ref i (tx_sys S), tx_user := (tx_user S)(i := tx_user S i + 1)\<rparr>)"
    (is "tm_inv aligned ?S")
proof -
  have h: "holders S i \<noteq> 0" using u holders_ctx [OF inv, of i] by (auto simp: holders_def)
  then have r: "v_refs (view (tx_sys S) i) \<noteq> 0" using tm_invD(3) [OF inv, of i] by simp
  note e = queue_ref_effect [OF tm_invD(1) [OF inv] within_limitsD(2) [OF lim] r]
  have svc: "svc_inv (tx_svc S) (queue_ref i (tx_sys S))" by (rule svc_inv_kept [OF tm_invD(2) [OF inv]]) (use e(2,3) in auto)
  have same: "pending ?S i = pending S i" "heaped ?S i = heaped S i" by (simp_all add: pending_def heaped_def e)
  show ?thesis
    by (rule tm_inv_frame [OF inv, of ?S "{i}"])
      (use tm_invD(3,4,5) [OF inv, of i] h e svc same in \<open>auto simp: holders_def\<close>)
qed

lemma inv_release:
  assumes inv: "tm_inv aligned S" and lim: "within_limits S" and u: "tx_user S i > 0"
  obtains sys where "queue_unref env i (tx_sys S) = Some sys"
    "tm_inv aligned (S\<lparr>tx_sys := sys, tx_user := (tx_user S)(i := tx_user S i - 1)\<rparr>)"
proof -
  have h: "holders S i \<noteq> 0" using u by (auto simp: holders_def)
  then have r: "v_refs (view (tx_sys S) i) \<noteq> 0" using tm_invD(3) [OF inv, of i] by simp
  have last: "v_armed (view (tx_sys S) i) = Map.empty" if "v_refs (view (tx_sys S) i) = 1"
    by (rule tm_inv_last [OF inv that]) (use u in simp)
  obtain sys where e: "queue_unref env i (tx_sys S) = Some sys" "sys_ok aligned sys" "tm_service sys = tm_service (tx_sys S)"
    "view sys = (view (tx_sys S))(i := (view (tx_sys S) i)\<lparr>v_refs := v_refs (view (tx_sys S) i) - 1\<rparr>)"
    "gen sys = (gen (tx_sys S))(i := gen (tx_sys S) i + of_bool (v_refs (view (tx_sys S) i) = 1))"
    by (rule queue_unref_effect [OF tm_invD(1) [OF inv] within_limitsD(1) [OF lim] r last])
  let ?S = "S\<lparr>tx_sys := sys, tx_user := (tx_user S)(i := tx_user S i - 1)\<rparr>"
  have svc: "svc_inv (tx_svc S) sys" by (rule svc_inv_kept [OF tm_invD(2) [OF inv]]) (use e(3,5) in auto)
  have same: "gen sys i = gen (tx_sys S) i" "pending ?S i = pending S i" "heaped ?S i = heaped S i"
    if "v_refs (view (tx_sys S) i) \<noteq> 1" using that by (simp_all add: pending_def heaped_def e)
  have "tm_inv aligned ?S"
    by (rule tm_inv_frame [OF inv, of ?S "{i}"])
      (use tm_invD(3,4,5) [OF inv, of i] h u e svc same last in \<open>auto simp: holders_def\<close>)
  then show thesis using that e(1) by blast
qed

lemma inv_push:
  assumes inv: "tm_inv aligned S" and lim: "within_limits S" and h: "holders S i \<noteq> 0"
  shows "tm_inv aligned (push_drain i drain S)" (is "tm_inv aligned ?S")
proof -
  let ?s = "tx_sys S" and ?s' = "tx_sys (push_drain i drain S)"
  have r: "v_refs (view ?s i) \<noteq> 0" using h tm_invD(3) [OF inv, of i] by simp
  note ref = queue_ref_effect [OF tm_invD(1) [OF inv] within_limitsD(2) [OF lim] r]
  have e: "sys_ok aligned ?s'" "tm_slab ?s' = tm_slab ?s" "tm_service ?s' = tm_service ?s"
    "view ?s' = (view ?s)(i := (view ?s i)\<lparr>v_refs := v_refs (view ?s i) + of_bool (tx_tasks S i = [])\<rparr>)"
    using ref tm_invD(1) [OF inv] by (simp_all add: push_drain_def)
  have svc: "svc_inv (tx_svc S) ?s'" by (rule svc_inv_kept [OF tm_invD(2) [OF inv]]) (use e(2,3) in auto)
  have heaped: "heaped ?S i = heaped S i" using e by (simp add: heaped_def push_drain_def)
  have pend: "pending S i \<Longrightarrow> pending ?S i"
    using e tm_invD(4) [OF inv, of i] by (auto simp: pending_def push_drain_def waiting_def)
  have good: "q_good (tx_ctx S i) (view ?s i) (gen ?s i) (pending ?S i) (heaped ?S i)"
    unfolding heaped using q_good_mono [OF tm_invD(5) [OF inv h]] pend by blast
  show ?thesis
    by (rule tm_inv_frame [OF inv, of ?S "{i}"])
      (use tm_invD(3,4) [OF inv, of i] e svc good in \<open>auto simp: holders_def push_drain_def\<close>)
qed

lemma inv_begin:
  assumes inv: "tm_inv aligned S" and c: "tx_ctx S i = Away" "tx_tasks S i = drain # rest"
  shows "tm_inv aligned (S\<lparr>tx_ctx := (tx_ctx S)(i := Inside (if drain then Some now else None) PIdle)\<rparr>)" (is "tm_inv aligned ?S")
proof -
  have h: "holders S i \<noteq> 0" using c(2) by (simp add: holders_def)
  have heaped: "heaped ?S i = heaped S i" by (simp add: heaped_def)
  have pend: "pending S i \<Longrightarrow> \<not> drain \<Longrightarrow> pending ?S i" using c by (auto simp: pending_def waiting_def)
  have good: "q_good (Inside (if drain then Some now else None) PIdle) (view (tx_sys S) i) (gen (tx_sys S) i) (pending ?S i) (heaped ?S i)"
    unfolding heaped using tm_invD(5) [OF inv h] c(1) pend by (intro q_good_begin [of _ _ "pending S i"]) (auto split: if_splits)
  show ?thesis
    by (rule tm_inv_frame [OF inv, of ?S "{i}"])
      (use tm_invD(1,2) [OF inv] tm_invD(3) [OF inv, of i] c good in \<open>auto simp: holders_def\<close>)
qed

lemma inv_finish:
  assumes inv: "tm_inv aligned S" and lim: "within_limits S" and c: "tx_ctx S i = Inside None PIdle"
  obtains S' where "finish_task env i S = Some S'" "tm_inv aligned S'"
proof -
  let ?s = "tx_sys S" and ?rest = "tl (tx_tasks S i)"
  have ne: "tx_tasks S i \<noteq> []" using tm_invD(4) [OF inv, of i] c by simp
  have h: "holders S i \<noteq> 0" using ne by (simp add: holders_def)
  then have r: "v_refs (view ?s i) \<noteq> 0" using tm_invD(3) [OF inv, of i] by simp
  have good: "q_good Away (view ?s i) (gen ?s i) (pending S i) (heaped S i)"
    using q_good_finish tm_invD(5) [OF inv h] c by simp
  have last: "v_armed (view ?s i) = Map.empty" if "v_refs (view ?s i) = 1"
  proof -
    have "\<not> v_self (view ?s i)" using that ne tm_invD(3) [OF inv, of i] by (auto simp: holders_def)
    then show ?thesis using good by (simp add: q_good_def rested_def)
  qed
  let ?n = "if ?rest = [] then 1 else 0 :: nat"
  obtain sys where e: "(if ?rest = [] then queue_unref env i ?s else Some ?s) = Some sys" "sys_ok aligned sys"
    "tm_service sys = tm_service ?s" "view sys = (view ?s)(i := (view ?s i)\<lparr>v_refs := v_refs (view ?s i) - ?n\<rparr>)"
    "gen sys = (gen ?s)(i := gen ?s i + of_bool (v_refs (view ?s i) - ?n = 0))"
  proof (cases "?rest = []")
    case True
    obtain sys where "queue_unref env i ?s = Some sys" "sys_ok aligned sys" "tm_service sys = tm_service ?s"
      "view sys = (view ?s)(i := (view ?s i)\<lparr>v_refs := v_refs (view ?s i) - 1\<rparr>)"
      "gen sys = (gen ?s)(i := gen ?s i + of_bool (v_refs (view ?s i) = 1))"
      by (rule queue_unref_effect [OF tm_invD(1) [OF inv] within_limitsD(1) [OF lim] r last])
    moreover have "v_refs (view ?s i) = 1 \<longleftrightarrow> v_refs (view ?s i) - 1 = 0" using r by auto
    ultimately show thesis using that [of sys] True by simp
  next
    case False
    then show thesis using that [of ?s] tm_invD(1) [OF inv] r by simp
  qed
  let ?S = "S\<lparr>tx_sys := sys, tx_tasks := (tx_tasks S)(i := ?rest), tx_ctx := (tx_ctx S)(i := Away)\<rparr>"
  have svc: "svc_inv (tx_svc S) sys" by (rule svc_inv_kept [OF tm_invD(2) [OF inv]]) (use e(3,5) in auto)
  have same: "gen sys i = gen ?s i" "pending ?S i = pending S i" "heaped ?S i = heaped S i"
    if "v_refs (view sys i) \<noteq> 0" using that c by (simp_all add: pending_def heaped_def waiting_def e(3,4,5))
  have refs: "v_refs (view sys i) = holders ?S i"
    using tm_invD(3) [OF inv, of i] ne by (auto simp: holders_def e(4))
  have good': "q_good Away (view sys i) (gen sys i) (pending ?S i) (heaped ?S i)" if "holders ?S i \<noteq> 0"
    using same that good unfolding refs by (simp add: e(4))
  have vacant: "v_armed (view sys i) = Map.empty" if "holders ?S i = 0"
  proof -
    have "v_refs (view ?s i) - ?n = 0" using that unfolding refs [symmetric] e(4) by simp
    then have "v_refs (view ?s i) = 1" using r by (auto split: if_splits)
    then show ?thesis using last by (simp add: e(4))
  qed
  have "tm_inv aligned ?S"
    by (rule tm_inv_frame [OF inv, of ?S "{i}"]) (use svc refs good' vacant e in auto)
  moreover have "finish_task env i S = Some ?S" using e(1) by (simp add: finish_task_def Let_def)
  ultimately show thesis using that by blast
qed

text \<open>Steps in the context of a queue that keep its tasks and touch no reference but that to itself.\<close>

lemma inv_context:
  assumes inv: "tm_inv aligned S" and c: "tx_ctx S i = Inside drain pc" and ok: "sys_ok aligned sys"
    and svc: "svc_inv (tx_svc S) sys"
    and view: "view sys = (view (tx_sys S))(i := v)" and gen: "gen sys = (gen (tx_sys S))(i := g)"
    and heap: "\<And>e. e \<in> set (sv_entries (tm_service (tx_sys S))) \<Longrightarrow> qe_index e \<noteq> i \<Longrightarrow>
      stands (tm_slab (tx_sys S)) e \<Longrightarrow> e \<in> set (sv_entries (tm_service sys))"
    and refs: "v_refs v + of_bool (v_self (view (tx_sys S) i)) = v_refs (view (tx_sys S) i) + of_bool (v_self v)"
    and good: "\<And>S'. S' = S\<lparr>tx_sys := sys, tx_ctx := (tx_ctx S)(i := Inside drain' pc')\<rparr> \<Longrightarrow>
      q_good (Inside drain' pc') v g (pending S' i) (heaped S' i)"
  shows "tm_inv aligned (S\<lparr>tx_sys := sys, tx_ctx := (tx_ctx S)(i := Inside drain' pc')\<rparr>)" (is "tm_inv aligned ?S")
proof (rule tm_inv_frame [OF inv, of ?S "{i}"])
  have ne: "tx_tasks S i \<noteq> []" using tm_invD(4) [OF inv, of i] c by simp
  then show "tx_tasks ?S j \<noteq> []" if "j \<in> {i}" for j using that by simp
  show "v_refs (view (tx_sys ?S) j) = holders ?S j" if "j \<in> {i}" for j
    using that refs tm_invD(3) [OF inv, of i] by (auto simp: holders_def view)
  show "q_good (tx_ctx ?S j) (view (tx_sys ?S) j) (gen (tx_sys ?S) j) (pending ?S j) (heaped ?S j)" if "j \<in> {i}" for j
    using that good by (simp add: view gen)
  show "v_armed (view (tx_sys ?S) j) = Map.empty" if "j \<in> {i}" "holders ?S j = 0" for j
    using that ne by (simp add: holders_def)
qed (use ok svc view gen heap in auto)

text \<open>While something runs in the context, the wakeups on the way stay on the way.\<close>

lemma pending_inside:
  assumes "tx_ctx S i = Inside drain pc" "gen sys i = gen (tx_sys S) i"
  shows "pending (S\<lparr>tx_sys := sys, tx_ctx := (tx_ctx S)(i := Inside drain' pc')\<rparr>) i = pending S i"
  using assms by (simp add: pending_def waiting_def)

lemma inv_timers:
  assumes inv: "tm_inv aligned S" and c: "tx_ctx S i = Inside drain pc" and h: "th_inv h"
    and good: "\<And>v p p' hp. q_good (Inside drain pc) v (gen (tx_sys S) i) p hp \<Longrightarrow>
      q_good (Inside drain' pc') (v\<lparr>v_armed := th_armed h\<rparr>) (gen (tx_sys S) i) p' hp"
  shows "tm_inv aligned (S\<lparr>tx_sys := set_queue i (\<lambda>q. q\<lparr>qt_timers := h\<rparr>) (tx_sys S),
    tx_ctx := (tx_ctx S)(i := Inside drain' pc')\<rparr>)"
proof (rule inv_context [OF inv c, where g = "gen (tx_sys S) i"])
  note e = set_timers_effect [OF tm_invD(1) [OF inv] h, of i]
  show "sys_ok aligned (set_queue i (\<lambda>q. q\<lparr>qt_timers := h\<rparr>) (tx_sys S))" by (rule e(1))
  show v: "view (set_queue i (\<lambda>q. q\<lparr>qt_timers := h\<rparr>) (tx_sys S)) =
      (view (tx_sys S))(i := (view (tx_sys S) i)\<lparr>v_armed := th_armed h\<rparr>)" by (rule e(2))
  show "svc_inv (tx_svc S) (set_queue i (\<lambda>q. q\<lparr>qt_timers := h\<rparr>) (tx_sys S))"
    by (rule svc_inv_kept [OF tm_invD(2) [OF inv]]) auto
  fix S' assume S': "S' = S\<lparr>tx_sys := set_queue i (\<lambda>q. q\<lparr>qt_timers := h\<rparr>) (tx_sys S),
    tx_ctx := (tx_ctx S)(i := Inside drain' pc')\<rparr>"
  have "holders S i \<noteq> 0" using holders_ctx [OF inv] c by simp
  from good [OF tm_invD(5) [OF inv this, unfolded c]]
  show "q_good (Inside drain' pc') ((view (tx_sys S) i)\<lparr>v_armed := th_armed h\<rparr>) (gen (tx_sys S) i) (pending S' i) (heaped S' i)"
    by (simp add: S' heaped_def v reg_entry_def)
qed auto

lemma inv_arm:
  assumes env: "env_ok env" and inv: "tm_inv aligned S" and c: "tx_ctx S i = Inside drain PIdle"
    and room: "th_room (qt_timers (tm_queues (tx_sys S) i))" and task: "task \<noteq> NULL" "ntt_task_unlinked m task"
  obtains tag sys where "queue_arm env m i deadline task (tx_sys S) = Some (tag, sys)"
    "tm_inv aligned (S\<lparr>tx_sys := sys, tx_ctx := (tx_ctx S)(i := Inside drain PChanged)\<rparr>)"
proof -
  obtain tag h where "ntt_timer_heap_push env m (qt_timers (tm_queues (tx_sys S) i)) deadline task = Some (tag, h)" "th_inv h"
    using push_armed [OF env sys_okD(3) [OF tm_invD(1) [OF inv]] room task] by blast
  then show thesis
    using that [of tag] inv_timers [OF inv c _ q_good_timers] by (simp add: queue_arm_def)
qed

lemma inv_cancel:
  assumes env: "env_ok env" and inv: "tm_inv aligned S" and lim: "within_limits S" and c: "tx_ctx S i = Inside drain PIdle"
    and armed: "th_armed (qt_timers (tm_queues (tx_sys S) i)) tag \<noteq> None"
  obtains evs sys where "queue_disarm env i tag (tx_sys S) = Some (evs, sys)"
    "tm_inv aligned (S\<lparr>tx_sys := sys, tx_ctx := (tx_ctx S)(i := Inside drain PChanged)\<rparr>)"
proof -
  obtain d q k where t: "th_armed (qt_timers (tm_queues (tx_sys S) i)) tag = Some (d, q, k)" using armed by auto
  then have "tag_version tag \<noteq> - 1" using within_limitsD(5) [OF lim, of i] by (auto simp: versions_small_def)
  then obtain h where "ntt_timer_heap_cancel env (qt_timers (tm_queues (tx_sys S) i)) tag = Some (ntt_task_destroy_inl k, h)" "th_inv h"
    using cancel_armed [OF env sys_okD(3) [OF tm_invD(1) [OF inv]] t] by blast
  then show thesis
    using that [of "ntt_task_destroy_inl k"] inv_timers [OF inv c _ q_good_timers] by (simp add: queue_disarm_def)
qed

lemma inv_fire:
  assumes env: "env_ok env" and inv: "tm_inv aligned S" and lim: "within_limits S" and c: "tx_ctx S i = Inside (Some now) PIdle"
  obtains task h where "timer_fire_next env now (qt_timers (tm_queues (tx_sys S) i)) = Some (task, h)"
    "tm_inv aligned (S\<lparr>tx_sys := set_queue i (\<lambda>q. q\<lparr>qt_timers := h\<rparr>) (tx_sys S),
      tx_ctx := (tx_ctx S)(i := (if task = None then Inside None PChanged else Inside (Some now) PIdle))\<rparr>)"
proof -
  obtain task h where f: "timer_fire_next env now (qt_timers (tm_queues (tx_sys S) i)) = Some (task, h)" "th_inv h"
    by (rule fire_next_effect [OF env sys_okD(3) [OF tm_invD(1) [OF inv]] within_limitsD(5) [OF lim]])
  show thesis
  proof (cases "task = None")
    case True
    then show thesis using that [OF f(1)] inv_timers [OF inv c f(2) q_good_timers] by simp
  next
    case False
    have "tm_inv aligned (S\<lparr>tx_sys := set_queue i (\<lambda>q. q\<lparr>qt_timers := h\<rparr>) (tx_sys S),
        tx_ctx := (tx_ctx S)(i := Inside (Some now) PIdle)\<rparr>)"
      by (rule inv_timers [OF inv c f(2)]) (rule q_good_fired)
    then show thesis using that [OF f(1)] False by simp
  qed
qed

lemma inv_look:
  assumes env: "env_ok env" and inv: "tm_inv aligned S" and c: "tx_ctx S i = Inside drain PChanged"
  obtains r d sys where "sync_look env i (tx_sys S) = Some (r, d, sys)"
    "tm_inv aligned (S\<lparr>tx_sys := sys, tx_ctx := (tx_ctx S)(i := Inside drain (PSync (SyncLooked r d)))\<rparr>)"
proof -
  have h: "holders S i \<noteq> 0" using holders_ctx [OF inv] c by simp
  obtain d sys where e: "sync_look env i (tx_sys S) = Some (gen (tx_sys S) i = v_reg_gen (view (tx_sys S) i), d, sys)"
    "sys_ok aligned sys" "tm_service sys = tm_service (tx_sys S)" "tm_slab sys = tm_slab (tx_sys S)" "view sys = view (tx_sys S)"
    "earliest (v_armed (view (tx_sys S) i)) d"
    by (rule sync_look_effect [OF env tm_invD(1) [OF inv] tm_inv_open [OF inv h]])
  have "tm_inv aligned (S\<lparr>tx_sys := sys, tx_ctx := (tx_ctx S)(i := Inside drain
      (PSync (SyncLooked (gen (tx_sys S) i = v_reg_gen (view (tx_sys S) i)) d)))\<rparr>)"
  proof (rule inv_context [OF inv c e(2), of "view (tx_sys S) i" "gen (tx_sys S) i"])
    show "svc_inv (tx_svc S) sys" by (rule svc_inv_kept [OF tm_invD(2) [OF inv]]) (use e in auto)
    fix S' assume S': "S' = S\<lparr>tx_sys := sys, tx_ctx := (tx_ctx S)(i := Inside drain
      (PSync (SyncLooked (gen (tx_sys S) i = v_reg_gen (view (tx_sys S) i)) d)))\<rparr>"
    have "pending S' i = pending S i" unfolding S' by (rule pending_inside [OF c]) (simp add: e)
    moreover have "heaped S' i = heaped S i" using e by (simp add: S' heaped_def)
    ultimately show "q_good (Inside drain (PSync (SyncLooked (gen (tx_sys S) i = v_reg_gen (view (tx_sys S) i)) d)))
       (view (tx_sys S) i) (gen (tx_sys S) i) (pending S' i) (heaped S' i)"
      using q_good_looked [OF tm_invD(5) [OF inv h, unfolded c] e(6)] by simp
  qed (use e in auto)
  then show thesis using that e(1) by blast
qed

lemma holders_self:
  assumes "tm_inv aligned S" "tx_ctx S i = Inside drain pc"
  shows "of_bool (v_self (view (tx_sys S) i)) < v_refs (view (tx_sys S) i)"
  using tm_invD(3,4) [OF assms(1), of i] assms(2) by (simp add: holders_def)

lemma inv_drop:
  assumes inv: "tm_inv aligned S" and lim: "within_limits S" and c: "tx_ctx S i = Inside drain (PSync (SyncLooked r None))"
  obtains sys where "sync_drop env i r (tx_sys S) = Some sys"
    "tm_inv aligned (S\<lparr>tx_sys := sys, tx_ctx := (tx_ctx S)(i := Inside drain PIdle)\<rparr>)"
proof -
  let ?s = "tx_sys S"
  have h: "holders S i \<noteq> 0" using holders_ctx [OF inv] c by simp
  obtain sys where e: "sync_drop env i r ?s = Some sys" "sys_ok aligned sys" "tm_service sys = tm_service ?s"
    "view sys = (view ?s)(i := (view ?s i)\<lparr>v_refs := v_refs (view ?s i) - of_bool (v_self (view ?s i)), v_self := False\<rparr>)"
    "gen sys = (gen ?s)(i := gen ?s i + of_bool r)"
    by (rule sync_drop_effect [OF tm_invD(1) [OF inv] within_limitsD(1) [OF lim] holders_self [OF inv c]])
  have "tm_inv aligned (S\<lparr>tx_sys := sys, tx_ctx := (tx_ctx S)(i := Inside drain PIdle)\<rparr>)"
  proof (rule inv_context [OF inv c e(2) _ e(4,5)])
    show "svc_inv (tx_svc S) sys" by (rule svc_inv_kept [OF tm_invD(2) [OF inv]]) (use e in auto)
    fix S' assume S': "S' = S\<lparr>tx_sys := sys, tx_ctx := (tx_ctx S)(i := Inside drain PIdle)\<rparr>"
    let ?v = "(view ?s i)\<lparr>v_refs := v_refs (view ?s i) - of_bool (v_self (view ?s i)), v_self := False\<rparr>"
    have old: "q_good (Inside drain PIdle) ?v (gen ?s i + of_bool r) (pending S' i) (heaped S i)"
      using q_good_dropped tm_invD(5) [OF inv h] c by simp
    show "q_good (Inside drain PIdle) ?v (gen ?s i + of_bool r) (pending S' i) (heaped S' i)"
    proof (rule q_good_mono [OF old])
      assume hp: "heaped S i" and g: "gen ?s i + of_bool r = v_reg_gen ?v"
      have "v_reg_gen (view ?s i) \<le> gen ?s i" using tm_invD(5) [OF inv h] by (simp add: q_good_def)
      then have "\<not> r" using g by (cases r) auto
      then show "heaped S' i" using hp by (simp add: S' heaped_def e reg_entry_def)
    qed
  qed (use e holders_self [OF inv c] in auto)
  then show thesis using that e(1) by blast
qed

lemma inv_decide:
  assumes inv: "tm_inv aligned S" and lim: "within_limits S" and c: "tx_ctx S i = Inside drain (PSync (SyncLooked r d))"
  obtains pc sys where "sync_decide env i r d (tx_sys S) = Some (pc, sys)"
    "tm_inv aligned (S\<lparr>tx_sys := sys, tx_ctx := (tx_ctx S)(i := Inside drain (case pc of None \<Rightarrow> PIdle | Some p \<Rightarrow> PSync p))\<rparr>)"
proof (cases d)
  case None
  obtain sys where "sync_drop env i r (tx_sys S) = Some sys"
    "tm_inv aligned (S\<lparr>tx_sys := sys, tx_ctx := (tx_ctx S)(i := Inside drain PIdle)\<rparr>)"
    by (rule inv_drop [OF inv lim]) (use c None in simp)
  then show thesis using that [of None sys] None by (simp add: sync_decide_def)
next
  case (Some dl)
  let ?s = "tx_sys S"
  have h: "holders S i \<noteq> 0" using holders_ctx [OF inv] c by simp
  then have r: "v_refs (view ?s i) \<noteq> 0" using tm_invD(3) [OF inv, of i] by simp
  note good = tm_invD(5) [OF inv h, unfolded c Some]
  show thesis
  proof (cases rule: sync_decide_effect [OF tm_invD(1) [OF inv] within_limitsD(1,2) [OF lim] r, of r dl env])
    case (1 sys)
    have "tm_inv aligned (S\<lparr>tx_sys := sys, tx_ctx := (tx_ctx S)(i := Inside drain PIdle)\<rparr>)"
    proof (rule inv_context [OF inv c 1(4) _ 1(7), of "gen ?s i"])
      show "svc_inv (tx_svc S) sys" by (rule svc_inv_kept [OF tm_invD(2) [OF inv]]) (use 1 in auto)
      fix S' assume S': "S' = S\<lparr>tx_sys := sys, tx_ctx := (tx_ctx S)(i := Inside drain PIdle)\<rparr>"
      have "pending S' i = pending S i" unfolding S' by (rule pending_inside [OF c]) (simp add: 1)
      moreover have "heaped S' i = heaped S i" using 1 by (simp add: S' heaped_def reg_entry_def)
      ultimately show "q_good (Inside drain PIdle) ((view ?s i)\<lparr>v_refs := v_refs (view ?s i) + of_bool (\<not> v_self (view ?s i)),
          v_self := True\<rparr>) (gen ?s i) (pending S' i) (heaped S' i)"
        using q_good_kept good 1(1,2) by simp
    qed (use 1 in auto)
    then show thesis using that [of None sys] 1(3) Some by simp
  next
    case (2 sys t)
    let ?rg = "of_nat (gen ?s i + 1) :: u32"
    have g: "unat ?rg = gen ?s i + 1" using gens_smallD [OF within_limitsD(1) [OF lim], of i] of_nat_gen [of "gen ?s i + 1" ?rg] by simp
    have "tm_inv aligned (S\<lparr>tx_sys := sys, tx_ctx := (tx_ctx S)(i := Inside drain (PSync (SyncRegister ?rg dl t)))\<rparr>)"
    proof (rule inv_context [OF inv c 2(2) _ 2(5,4)])
      show "svc_inv (tx_svc S) sys" by (rule svc_inv_kept [OF tm_invD(2) [OF inv]]) (use 2 in auto)
    qed (use 2 q_good_renewed [OF good g] in auto)
    then show thesis using that [OF 2(1) [folded Some]] by simp
  qed
qed

lemma inv_register:
  assumes env: "env_ok env" and set: "settime_ok settime" and inv: "tm_inv aligned S" and lim: "within_limits S"
    and c: "tx_ctx S i = Inside drain (PSync (SyncRegister g d t))" and free: "tx_svc S = SvcFree"
  obtains sys where "sync_register env settime i g d t (tx_sys S) = Some sys"
    "tm_inv aligned (S\<lparr>tx_sys := sys, tx_ctx := (tx_ctx S)(i := Inside drain PIdle)\<rparr>)"
proof -
  let ?s = "tx_sys S"
  note ok = tm_invD(1) [OF inv]
  have h: "holders S i \<noteq> 0" using holders_ctx [OF inv] c by simp
  note good = tm_invD(5) [OF inv h, unfolded c]
  then have reg: "unat g = v_reg_gen (view ?s i)" "d = v_reg_deadline (view ?s i)" by (auto simp: q_good_def)
  obtain sv where sv: "ntt_timer_service_register env settime (tm_slab ?s) (tm_service ?s) i g d t = Some sv" "svc_ok (tm_slab ?s) sv"
    "\<forall>e. stands (tm_slab ?s) e \<longrightarrow> e \<in> set (sv_entries (tm_service ?s)) \<or>
       e = \<lparr>qe_deadline = d, qe_index = i, qe_generation = g\<rparr> \<longrightarrow> e \<in> set (sv_entries sv)"
    "\<forall>e \<in> set (sv_entries sv). sv_armed sv \<le> qe_deadline e"
    by (rule register_effect [OF env set sys_okD(1,2) [OF ok] tm_inv_open [OF inv h] within_limitsD(4) [OF lim]])
  let ?sys = "?s\<lparr>tm_service := sv\<rparr>"
  have "tm_inv aligned (S\<lparr>tx_sys := ?sys, tx_ctx := (tx_ctx S)(i := Inside drain PIdle)\<rparr>)"
  proof (rule inv_context [OF inv c, of ?sys "view ?s i" "gen ?s i"])
    show "sys_ok aligned ?sys" by (rule set_service_ok [OF ok sv(2)])
    show "svc_inv (tx_svc S) ?sys" using sv(4) free by simp
    fix S' assume S': "S' = S\<lparr>tx_sys := ?sys, tx_ctx := (tx_ctx S)(i := Inside drain PIdle)\<rparr>"
    have p: "pending S' i = pending S i" unfolding S' by (rule pending_inside [OF c]) simp
    have "heaped S' i" if "gen ?s i = v_reg_gen (view ?s i)"
    proof -
      have "\<lparr>qe_deadline = d, qe_index = i, qe_generation = g\<rparr> \<in> set (sv_entries sv)"
        using sv(3) [rule_format, of "\<lparr>qe_deadline = d, qe_index = i, qe_generation = g\<rparr>"] that reg(1) by (simp add: stands_def)
      then show ?thesis unfolding heaped_def S' using reg by (force simp: reg_entry_def)
    qed
    then show "q_good (Inside drain PIdle) (view ?s i) (gen ?s i) (pending S' i) (heaped S' i)"
      unfolding p using q_good_registered [OF good] by blast
  qed (use sv in auto)
  moreover have "sync_register env settime i g d t ?s = Some ?sys" using sv(1) by (simp add: sync_register_def)
  ultimately show thesis using that by blast
qed

section \<open>Steps of the service\<close>

lemma inv_lock:
  assumes inv: "tm_inv aligned S" and free: "tx_svc S = SvcFree"
  shows "tm_inv aligned (S\<lparr>tx_svc := SvcTake now []\<rparr>)"
  by (rule tm_inv_frame [OF inv, of _ "{}"]) (use tm_invD(1) [OF inv] free in auto)

lemma inv_pop:
  assumes inv: "tm_inv aligned S" and svc: "tx_svc S = SvcTake now batch"
  obtains r sys where "service_pop env now (tx_sys S) = Some (r, sys)"
    "\<And>e. r = Some e \<Longrightarrow> tm_inv aligned (S\<lparr>tx_sys := sys, tx_svc := SvcTaken now batch e\<rparr>)"
    "r = None \<Longrightarrow> tm_inv aligned (S\<lparr>tx_sys := sys\<rparr>)"
    "r = None \<Longrightarrow> \<forall>e \<in> set (sv_entries (tm_service sys)). stands (tm_slab sys) e \<longrightarrow> now < qe_deadline e"
proof -
  let ?s = "tx_sys S"
  note ok = tm_invD(1) [OF inv]
  obtain r sv where e: "service_pop env now ?s = Some (r, ?s\<lparr>tm_service := sv\<rparr>)" "svc_ok (tm_slab ?s) sv"
    "\<forall>e. r = Some e \<longrightarrow> e \<in> set (sv_entries (tm_service ?s)) \<and> stands (tm_slab ?s) e \<and> qe_deadline e \<le> now"
    "\<forall>e. stands (tm_slab ?s) e \<longrightarrow> e \<in> set (sv_entries (tm_service ?s)) \<longrightarrow> r \<noteq> Some e \<longrightarrow> e \<in> set (sv_entries sv)"
    "set (sv_entries sv) \<subseteq> set (sv_entries (tm_service ?s))"
    "r = None \<longrightarrow> (\<forall>e \<in> set (sv_entries (tm_service ?s)). stands (tm_slab ?s) e \<longrightarrow> now < qe_deadline e)"
    by (rule pop_effect [OF sys_okD(1,2) [OF ok]])
  let ?sys = "?s\<lparr>tm_service := sv\<rparr>"
  have ok': "sys_ok aligned ?sys" by (rule set_service_ok [OF ok e(2)])
  have "tm_inv aligned (S\<lparr>tx_sys := ?sys\<rparr>)" if "r = None"
    by (rule tm_inv_frame [OF inv, of _ "{}"]) (use ok' svc e(4) that in auto)
  moreover have "tm_inv aligned (S\<lparr>tx_sys := ?sys, tx_svc := SvcTaken now batch x\<rparr>)" (is "tm_inv aligned ?S") if x: "r = Some x" for x
  proof (rule tm_inv_frame [OF inv, of _ "{qe_index x}"])
    have known: "gen ?s (qe_index x) \<noteq> 0" and st: "stands (tm_slab ?s) x"
      using e(3) x svc_ok_known [OF sys_okD(1,2) [OF ok]] by auto
    then show "svc_inv (tx_svc ?S) (tx_sys ?S)" by simp
    show "q_good (tx_ctx ?S j) (view (tx_sys ?S) j) (gen (tx_sys ?S) j) (pending ?S j) (heaped ?S j)"
      if j: "j \<in> {qe_index x}" and h: "holders ?S j \<noteq> 0" for j
    proof -
      have "holders S j \<noteq> 0" using h svc by (simp add: holders_def)
      then have "q_good (tx_ctx S j) (view ?s j) (gen ?s j) (pending ?S j) True"
        by (rule q_good_mono [OF tm_invD(5) [OF inv]]) (use svc in \<open>auto simp: pending_def\<close>)
      moreover have "heaped ?S j" using j st by (simp add: heaped_def stands_def)
      ultimately show ?thesis by simp
    qed
    show "v_refs (view (tx_sys ?S) j) = holders ?S j" if "j \<in> {qe_index x}" for j
      using tm_invD(3) [OF inv, of j] svc by (simp add: holders_def)
    show "y \<in> set (sv_entries (tm_service (tx_sys ?S)))"
      if "y \<in> set (sv_entries (tm_service ?s))" "qe_index y \<notin> {qe_index x}" "stands (tm_slab ?s) y" for y
      using e(4) x that by auto
    show "v_armed (view (tx_sys ?S) j) = Map.empty" if "holders ?S j = 0" for j
      using that tm_invD(6) [OF inv, of j] svc by (simp add: holders_def)
  qed (use ok' svc tm_invD(4) [OF inv] in auto)
  moreover have "\<forall>y \<in> set (sv_entries sv). stands (tm_slab ?s) y \<longrightarrow> now < qe_deadline y" if "r = None"
    using e(5,6) that by blast
  ultimately show thesis using that [OF e(1)] by simp
qed

lemma inv_upgrade:
  assumes inv: "tm_inv aligned S" and lim: "within_limits S" and svc: "tx_svc S = SvcTaken now batch e"
  obtains live sys where "service_upgrade env e (tx_sys S) = Some (live, sys)"
    "tm_inv aligned (S\<lparr>tx_sys := sys, tx_svc := (if live then SvcHeld now batch e else SvcTake now batch)\<rparr>)"
proof -
  let ?s = "tx_sys S" and ?i = "qe_index e"
  have known: "gen ?s ?i \<noteq> 0" using tm_invD(2) [OF inv] svc by simp
  obtain sys where e: "service_upgrade env e ?s = Some (v_refs (view ?s ?i) \<noteq> 0, sys)" "sys_ok aligned sys"
    "tm_service sys = tm_service ?s" "tm_slab sys = tm_slab ?s"
    "view sys = (view ?s)(?i := (view ?s ?i)\<lparr>v_refs := v_refs (view ?s ?i) + of_bool (v_refs (view ?s ?i) \<noteq> 0)\<rparr>)"
    by (rule service_upgrade_effect [OF tm_invD(1) [OF inv] within_limitsD(2) [OF lim] known])
  let ?S = "S\<lparr>tx_sys := sys, tx_svc := (if v_refs (view ?s ?i) \<noteq> 0 then SvcHeld now batch e else SvcTake now batch)\<rparr>"
  have "tm_inv aligned ?S"
  proof (rule tm_inv_frame [OF inv, of _ "{?i}"])
    have refs: "v_refs (view sys ?i) = holders ?S ?i"
      using tm_invD(3) [OF inv, of ?i] svc by (auto simp: holders_def e(5))
    then show "v_refs (view (tx_sys ?S) j) = holders ?S j" if "j \<in> {?i}" for j using that by simp
    show "q_good (tx_ctx ?S j) (view (tx_sys ?S) j) (gen (tx_sys ?S) j) (pending ?S j) (heaped ?S j)"
      if j: "j \<in> {?i}" and h: "holders ?S j \<noteq> 0" for j
    proof -
      have "v_refs (view sys ?i) \<noteq> 0" using j h refs by simp
      then have nz: "v_refs (view ?s ?i) \<noteq> 0" unfolding e(5) by (cases "v_refs (view ?s ?i)") auto
      then have hs: "holders S ?i \<noteq> 0" using tm_invD(3) [OF inv, of ?i] by simp
      have "pending ?S ?i = pending S ?i" "heaped ?S ?i = heaped S ?i"
        using nz svc by (simp_all add: pending_def heaped_def e(3,4,5))
      then show ?thesis using j tm_invD(5) [OF inv hs] by (simp add: e(4,5))
    qed
    show "v_armed (view (tx_sys ?S) j) = Map.empty" if "j \<in> {?i}" "holders ?S j = 0" for j
    proof -
      have "v_refs (view sys ?i) = 0" using that refs by simp
      then have "holders S ?i = 0" unfolding tm_invD(3) [OF inv, symmetric] by (simp add: e(5))
      then show ?thesis using that tm_invD(6) [OF inv] by (simp add: e(5))
    qed
  qed (use e svc tm_invD(4) [OF inv] in auto)
  then show thesis using that [OF e(1)] by blast
qed

lemma inv_compare:
  assumes inv: "tm_inv aligned S" and lim: "within_limits S" and svc: "tx_svc S = SvcHeld now batch e"
  obtains live sys where "service_compare env e (tx_sys S) = Some (live, sys)"
    "tm_inv aligned (S\<lparr>tx_sys := sys, tx_svc := (if live then SvcChecked now batch (qe_index e) else SvcTake now batch)\<rparr>)"
proof -
  let ?s = "tx_sys S" and ?i = "qe_index e"
  have hs: "holders S ?i \<noteq> 0" using svc by (simp add: holders_def)
  then have r: "v_refs (view ?s ?i) \<noteq> 0" using tm_invD(3) [OF inv, of ?i] by simp
  have last: "v_armed (view ?s ?i) = Map.empty" if "v_refs (view ?s ?i) = 1"
    by (rule tm_inv_last [OF inv that]) (use svc in simp)
  show thesis
  proof (cases rule: service_compare_effect [OF tm_invD(1) [OF inv] within_limitsD(1) [OF lim] r last, of env])
    case 2
    let ?S = "S\<lparr>tx_svc := SvcChecked now batch ?i\<rparr>"
    have "tm_inv aligned ?S"
    proof (rule tm_inv_frame [OF inv, of _ "{?i}"])
      show "q_good (tx_ctx ?S j) (view (tx_sys ?S) j) (gen (tx_sys ?S) j) (pending ?S j) (heaped ?S j)"
        if j: "j \<in> {?i}" and h: "holders ?S j \<noteq> 0" for j
        using j q_good_mono [OF tm_invD(5) [OF inv hs], of True True] by (simp add: pending_def heaped_def)
    qed (use tm_invD(1) [OF inv] tm_invD(3) [OF inv, of ?i] svc tm_invD(4) [OF inv] in \<open>auto simp: holders_def\<close>)
    then show thesis using that [OF 2(2)] by simp
  next
    case (3 sys)
    let ?S = "S\<lparr>tx_sys := sys, tx_svc := SvcTake now batch\<rparr>"
    have "tm_inv aligned ?S"
    proof (rule tm_inv_frame [OF inv, of _ "{?i}"])
      have refs: "v_refs (view sys ?i) = holders ?S ?i"
        using tm_invD(3) [OF inv, of ?i] svc by (auto simp: holders_def 3(5))
      then show "v_refs (view (tx_sys ?S) j) = holders ?S j" if "j \<in> {?i}" for j using that by simp
      show "q_good (tx_ctx ?S j) (view (tx_sys ?S) j) (gen (tx_sys ?S) j) (pending ?S j) (heaped ?S j)"
        if j: "j \<in> {?i}" and h: "holders ?S j \<noteq> 0" for j
      proof -
        have nz: "v_refs (view ?s ?i) \<noteq> 1" using j h refs by (auto simp: 3(5))
        have "unat (qe_generation e) \<noteq> gen ?s ?i" using 3(1) by (auto simp: stands_def)
        then have "pending ?S ?i = pending S ?i" "heaped ?S ?i = heaped S ?i"
          using nz svc by (simp_all add: pending_def heaped_def 3)
        then show ?thesis using j nz tm_invD(5) [OF inv hs] by (simp add: 3)
      qed
      show "v_armed (view (tx_sys ?S) j) = Map.empty" if "j \<in> {?i}" "holders ?S j = 0" for j
      proof -
        have "v_refs (view sys ?i) = 0" using that refs by simp
        then have "v_refs (view ?s ?i) = 1" using r by (simp add: 3(5))
        then show ?thesis using that last by (simp add: 3(5))
      qed
    qed (use 3 svc tm_invD(4) [OF inv] in auto)
    then show thesis using that [OF 3(2)] by simp
  qed
qed

lemma inv_retire:
  assumes inv: "tm_inv aligned S" and lim: "within_limits S" and svc: "tx_svc S = SvcChecked now batch i"
  obtains sys where "service_retire i (tx_sys S) = Some sys"
    "tm_inv aligned (S\<lparr>tx_sys := sys, tx_svc := SvcTake now (batch @ [i])\<rparr>)"
proof -
  let ?s = "tx_sys S"
  have hs: "holders S i \<noteq> 0" using svc by (simp add: holders_def)
  obtain slab where e: "ntt_queue_retire_timer_generation (tm_slab ?s) i = Some (of_nat (gen ?s i + 1), slab)"
    "sys_ok aligned (?s\<lparr>tm_slab := slab\<rparr>)" "gen_of slab = (gen ?s)(i := gen ?s i + 1)"
    by (rule timer_retire_effect [OF tm_invD(1) [OF inv] within_limitsD(1) [OF lim] tm_inv_open [OF inv hs]])
  let ?S = "S\<lparr>tx_sys := ?s\<lparr>tm_slab := slab\<rparr>, tx_svc := SvcTake now (batch @ [i])\<rparr>"
  have "tm_inv aligned ?S"
  proof (rule tm_inv_frame [OF inv, of _ "{i}"])
    show "q_good (tx_ctx ?S j) (view (tx_sys ?S) j) (gen (tx_sys ?S) j) (pending ?S j) (heaped ?S j)"
      if j: "j \<in> {i}" and h: "holders ?S j \<noteq> 0" for j
      using j q_good_bumped [OF tm_invD(5) [OF inv hs]] by (simp add: pending_def e(3))
  qed (use e tm_invD(3) [OF inv, of i] svc tm_invD(4) [OF inv] in \<open>auto simp: holders_def\<close>)
  moreover have "service_retire i ?s = Some (?s\<lparr>tm_slab := slab\<rparr>)" using e(1) by (simp add: service_retire_def)
  ultimately show thesis using that by blast
qed

lemma count_list_mset: "count (mset xs) x = count_list xs x"
  by (induction xs) auto

lemma inv_unlock:
  assumes set: "settime_ok settime" and inv: "tm_inv aligned S" and svc: "tx_svc S = SvcTake now batch"
  obtains sys where "service_rearm settime (tx_sys S) = Some sys"
    "tm_inv aligned (S\<lparr>tx_sys := sys, tx_svc := SvcFree, tx_batch := tx_batch S + mset batch\<rparr>)"
proof -
  let ?s = "tx_sys S"
  note ok = tm_invD(1) [OF inv]
  obtain sv where e: "service_rearm settime ?s = Some (?s\<lparr>tm_service := sv\<rparr>)" "svc_ok (tm_slab ?s) sv"
    "sv_entries sv = sv_entries (tm_service ?s)" "\<forall>e \<in> set (sv_entries sv). sv_armed sv \<le> qe_deadline e"
    by (rule rearm_effect [OF sys_okD(2) [OF ok] set])
  have "tm_inv aligned (S\<lparr>tx_sys := ?s\<lparr>tm_service := sv\<rparr>, tx_svc := SvcFree, tx_batch := tx_batch S + mset batch\<rparr>)"
    by (rule tm_inv_frame [OF inv, of _ "{}"]) (use set_service_ok [OF ok e(2)] svc e(3,4) in \<open>auto simp: count_list_mset\<close>)
  then show thesis using that e(1) by blast
qed

lemma inv_wake:
  assumes inv: "tm_inv aligned S" and lim: "within_limits S" and i: "i \<in># tx_batch S"
  obtains S' where "wake_queue env i S = Some S'" "tm_inv aligned S'"
proof -
  let ?S1 = "push_drain i True S"
  have h: "holders S i \<noteq> 0" using i by (simp add: holders_def)
  have inv1: "tm_inv aligned ?S1" by (rule inv_push [OF inv lim h])
  let ?s = "tx_sys ?S1"
  have b: "tx_batch ?S1 = tx_batch S" "tx_tasks ?S1 i \<noteq> []" "tx_ctx ?S1 = tx_ctx S" by (simp_all add: push_drain_def)
  have "0 < count (tx_batch ?S1) i" using i b by simp
  then have big: "1 < v_refs (view ?s i)" using tm_invD(3) [OF inv1, of i] b(2) by (simp add: holders_def)
  then have big': "v_refs (view ?s i) \<noteq> 1" "v_refs (view ?s i) \<noteq> 0" by linarith+
  obtain sys where e: "queue_unref env i ?s = Some sys" "sys_ok aligned sys" "tm_service sys = tm_service ?s"
    "view sys = (view ?s)(i := (view ?s i)\<lparr>v_refs := v_refs (view ?s i) - 1\<rparr>)"
    "gen sys = (gen ?s)(i := gen ?s i + of_bool (v_refs (view ?s i) = 1))"
    by (rule queue_unref_effect [OF tm_invD(1) [OF inv1] _ big'(2)]) (use big'(1) in auto)
  let ?S = "?S1\<lparr>tx_sys := sys, tx_batch := tx_batch ?S1 - {#i#}\<rparr>"
  have g: "gen sys = gen ?s" using e(5) big'(1) by simp
  have "True \<in> set (waiting (tx_ctx S i) (tx_tasks ?S1 i))"
    using tm_invD(4) [OF inv, of i] by (auto simp: waiting_def push_drain_def)
  then have p: "pending ?S i" by (simp add: pending_def b(3))
  have hp: "heaped ?S i = heaped ?S1 i" by (simp add: heaped_def e(3,4) g)
  have h1: "holders ?S1 i \<noteq> 0" using big'(2) tm_invD(3) [OF inv1, of i] by simp
  have good: "q_good (tx_ctx ?S1 i) (view ?s i) (gen ?s i) (pending ?S i) (heaped ?S i)"
    unfolding hp using q_good_mono [OF tm_invD(5) [OF inv1 h1]] p by blast
  obtain R where R: "tx_batch ?S1 = add_mset i R" using i b(1) by (metis insert_DiffM)
  have "tm_inv aligned ?S"
  proof (rule tm_inv_frame [OF inv1, of _ "{i}"])
    show "v_refs (view (tx_sys ?S) j) = holders ?S j" if "j \<in> {i}" for j
      using that tm_invD(3) [OF inv1, of i] by (simp add: holders_def e(4) R)
    have "svc_inv (tx_svc ?S1) sys" by (rule svc_inv_kept [OF tm_invD(2) [OF inv1]]) (use e(3) g in auto)
    then show "svc_inv (tx_svc ?S) (tx_sys ?S)" by simp
    show "q_good (tx_ctx ?S j) (view (tx_sys ?S) j) (gen (tx_sys ?S) j) (pending ?S j) (heaped ?S j)" if "j \<in> {i}" for j
      using that good by (simp add: e(4) g)
    show "v_armed (view (tx_sys ?S) j) = Map.empty" if "j \<in> {i}" "holders ?S j = 0" for j
      using that b(2) by (simp add: holders_def)
  qed (use e(2,3,4) g b(2) R in auto)
  moreover have "wake_queue env i S = Some ?S" using e(1) by (simp add: wake_queue_def Let_def)
  ultimately show thesis using that by blast
qed

section \<open>Reachable states\<close>

lemma tm_step_inv:
  assumes "tm_step env aligned settime S S'" "env_ok env" "settime_ok settime" "tm_inv aligned S"
  shows "tm_inv aligned S'"
  using assms(1,4)
proof (cases rule: tm_step.cases)
  case (st_create i sys)
  then show ?thesis using inv_create [OF assms(4)] by simp
next
  case (st_acquire i)
  then show ?thesis using inv_acquire [OF assms(4)] by simp
next
  case (st_release i sys)
  from inv_release [OF assms(4) st_release(2,3), of env] st_release show ?thesis by (metis option.sel)
next
  case (st_push i)
  have "holders S i \<noteq> 0" using st_push(3) holders_ctx [OF assms(4), of i] by (auto simp: holders_def)
  then show ?thesis using inv_push [OF assms(4) st_push(2)] st_push(1) by simp
next
  case (st_begin i drain rest now)
  then show ?thesis using inv_begin [OF assms(4)] by simp
next
  case (st_finish i)
  from inv_finish [OF assms(4) st_finish(1,2), of env] st_finish show ?thesis by (metis option.sel)
next
  case (st_arm i drain task m deadline tag sys)
  from inv_arm [OF assms(2,4) st_arm(3,4,5,6), of deadline] st_arm show ?thesis by (metis option.sel prod.inject)
next
  case (st_cancel i drain tag evs sys)
  from inv_cancel [OF assms(2,4) st_cancel(2,3,4)] st_cancel show ?thesis by (metis option.sel prod.inject)
next
  case (st_fire i now task timers)
  from inv_fire [OF assms(2,4) st_fire(2,3)] st_fire show ?thesis by (metis option.sel prod.inject)
next
  case (st_look i drain registered deadline sys)
  from inv_look [OF assms(2,4) st_look(3)] st_look show ?thesis by (metis option.sel prod.inject)
next
  case (st_decide i drain registered deadline pc sys)
  from inv_decide [OF assms(4) st_decide(2,3), of env] st_decide show ?thesis by (metis option.sel prod.inject)
next
  case (st_register i drain g d t sys)
  from inv_register [OF assms(2,3,4) st_register(2,3,4)] st_register show ?thesis by (metis option.sel)
next
  case (st_lock now)
  then show ?thesis using inv_lock [OF assms(4)] by simp
next
  case (st_pop now batch e sys)
  from inv_pop [OF assms(4) st_pop(3), of env] st_pop show ?thesis by (metis option.sel prod.inject)
next
  case (st_upgrade now batch e live sys)
  from inv_upgrade [OF assms(4) st_upgrade(2,3), of env] st_upgrade show ?thesis by (metis option.sel prod.inject)
next
  case (st_compare now batch e live sys)
  from inv_compare [OF assms(4) st_compare(2,3), of env] st_compare show ?thesis by (metis option.sel prod.inject)
next
  case (st_retire now batch i sys)
  from inv_retire [OF assms(4) st_retire(2,3)] st_retire show ?thesis by (metis option.sel)
next
  case (st_unlock now batch sys1 sys)
  have inv1: "tm_inv aligned (S\<lparr>tx_sys := sys1\<rparr>)"
  proof (cases "length batch < NTT_TIMER_SERVICE_BATCH")
    case True
    with st_unlock have p: "service_pop env now (tx_sys S) = Some (None, sys1)" by simp
    from inv_pop [OF assms(4) st_unlock(3), of env] p show ?thesis by (metis option.sel prod.inject)
  next
    case False
    then show ?thesis using st_unlock assms(4) by simp
  qed
  have "tx_svc (S\<lparr>tx_sys := sys1\<rparr>) = SvcTake now batch" using st_unlock(3) by simp
  from inv_unlock [OF assms(3) inv1 this] st_unlock(1,5) show ?thesis by simp
next
  case (st_wake i)
  from inv_wake [OF assms(4) st_wake(1,2), of env] st_wake show ?thesis by (metis option.sel)
qed

lemma tm_init_inv:
  assumes "alloc_ok aligned (sl_stride (ntt_slab_init n))" "64 \<le> unat (sl_stride (ntt_slab_init n))"
  shows "tm_inv aligned (tm_init n)"
proof -
  have st: "slab_state aligned (ntt_slab_init n) []" by (rule slab_init_state [OF assms])
  have z: "sl_size (ntt_slab_init n) = 0" by (simp add: ntt_slab_init_def)
  have "slab_ok aligned (ntt_slab_init n) (\<lambda>_. 0)" using st by (auto simp: slab_ok_def slab_live_def z)
  moreover have "svc_ok (ntt_slab_init n) ntt_timer_service_init"
    using queue_heap_init_state by (simp add: svc_ok_def ntt_timer_service_init_def sv_entries_def ntt_queue_heap_init_def)
  moreover have "sv_entries ntt_timer_service_init = []"
    by (simp add: ntt_timer_service_init_def sv_entries_def ntt_queue_heap_init_def)
  ultimately show ?thesis
    by (intro tm_invI) (simp_all add: tm_init_def sys_ok_def view_simps holders_def queue_timers_init_def th_inv_init th_armed_init)
qed

lemma tm_reachable_inv:
  assumes "tm_reachable env aligned settime n S" "env_ok env" "settime_ok settime"
    and "alloc_ok aligned (sl_stride (ntt_slab_init n))" "64 \<le> unat (sl_stride (ntt_slab_init n))"
  shows "tm_inv aligned S"
  using assms(1) by induction (auto intro: tm_init_inv tm_step_inv assms)

end
