(* ===== verification/Timer_End.thy ===== *)
theory Timer_End
  imports Timer_Machine_Inv
begin

text \<open>
  The end of the timer service: a registration stands only as long as its queue is there. The generation of a slot never goes back,
  it moves on when the queue in it ends, and no entry of the heap is ahead of it; so when all queues are gone no entry stands.
\<close>

section \<open>The heap of the service\<close>

lemma qh_state_unique: "qh_state slab h xs \<Longrightarrow> qh_state slab' h ys \<Longrightarrow> xs = ys"
  using sv_entries_state [of slab "\<lparr>sv_queues = h, sv_armed = 0, sv_timerfd = None\<rparr>" xs]
    sv_entries_state [of slab' "\<lparr>sv_queues = h, sv_armed = 0, sv_timerfd = None\<rparr>" ys] by simp

text \<open>Retiring entries adds none.\<close>

lemma queue_retire_subset:
  assumes slab: "slab_ok aligned slab refs" and st: "qh_state slab h xs" and r: "ntt_queue_heap_retire env h slab cnt = Some h'" "qh_state slab h' ys"
  shows "set ys \<subseteq> set xs"
proof -
  obtain fl where fl: "slab_state aligned slab fl" using slab by (rule slab_okE)
  let ?h1 = "h\<lparr>qh_tombstones := qh_tombstones h + cnt\<rparr>"
  let ?h2 = "if qh_tombstones ?h1 > qh_size ?h1 then ?h1\<lparr>qh_tombstones := qh_size ?h1\<rparr> else ?h1"
  have st2: "qh_state slab ?h2 xs" using st by simp
  obtain h3 zs where c: "ntt_queue_heap_compact env ?h2 slab = Some h3" "qh_state slab h3 zs" "standing slab zs = standing slab xs"
    "h3 = ?h2 \<and> qh_tombstones ?h2 * 2 \<le> qh_size ?h2 \<or> qh_tombstones h3 = 0 \<and> (\<forall>x \<in> set zs. qe_live slab x)"
    by (rule queue_compact_state [OF fl st2])
  have "h3 = h'" using c(1) r(1) by (simp add: ntt_queue_heap_retire_def Let_def)
  then have zs: "zs = ys" using c(2) r(2) qh_state_unique by blast
  show ?thesis using c(4)
  proof
    assume "h3 = ?h2 \<and> qh_tombstones ?h2 * 2 \<le> qh_size ?h2"
    then have "qh_state slab h' xs" using st2 \<open>h3 = h'\<close> by simp
    then show ?thesis using r(2) qh_state_unique by blast
  next
    assume "qh_tombstones h3 = 0 \<and> (\<forall>x \<in> set zs. qe_live slab x)"
    moreover have "gen_of slab (qe_index e) \<noteq> 0" if "e \<in> set zs" for e
      using that c(2) by (auto simp: slab_ok_gen(1) [OF slab] qh_state_def qe_known_def)
    ultimately have "stands slab e" if "e \<in> set zs" for e using that stands_live [OF slab] by blast
    then have "e \<in># standing slab xs" if "e \<in> set zs" for e using that standing_iff [OF slab c(2)] c(3) by metis
    then show ?thesis using standing_iff [OF slab st] zs by blast
  qed
qed

lemma register_entries:
  assumes env: "env_ok env" and set: "settime_ok settime" and slab: "slab_ok aligned slab refs" and ok: "svc_ok slab sv"
    and i: "gen_of slab i \<noteq> 0" and room: "unat (qh_size (sv_queues sv)) + 1 < QH_MAX"
    and reg: "ntt_timer_service_register env settime slab sv i g d t = Some sv'"
  shows "set (sv_entries sv') \<subseteq> insert \<lparr>qe_deadline = d, qe_index = i, qe_generation = g\<rparr> (set (sv_entries sv))"
proof -
  obtain fl where fl: "slab_state aligned slab fl" using slab by (rule slab_okE)
  let ?h = "sv_queues sv" and ?xs = "sv_entries sv"
  have st: "qh_state slab ?h ?xs" using ok by (simp add: svc_ok_def)
  then have n: "length ?xs + 1 < QH_MAX" using room by (simp add: qh_state_def qh_rep_def)
  have known: "unat i < unat (sl_size slab)" using i by (simp add: slab_ok_gen(1) [OF slab])
  obtain h1 ys where push: "ntt_queue_heap_push env ?h i g d = Some h1" and st1: "qh_state slab h1 ys"
    and ys: "mset ys = add_mset \<lparr>qe_deadline = d, qe_index = i, qe_generation = g\<rparr> (mset ?xs)"
    by (rule queue_push_state [OF env st n known])
  obtain h2 zs where h2: "(if t \<noteq> 0 then ntt_queue_heap_retire env h1 slab t else Some h1) = Some h2" and st2: "qh_state slab h2 zs"
    using queue_retire_state [OF fl st1] st1 by (metis (full_types))
  have sub: "set zs \<subseteq> set ys"
    using queue_retire_subset [OF slab st1 _ st2, of env t] h2 qh_state_unique [OF st1] st2 by (auto split: if_splits)
  have arm: "ntt_timer_service_arm_locked settime (sv\<lparr>sv_queues := h2\<rparr>) = Some sv'"
    using reg push h2 by (simp add: ntt_timer_service_register_def)
  have "svc_ok slab (sv\<lparr>sv_queues := h2\<rparr>)" using ok st2 by (simp add: svc_ok_def sv_entries_state)
  then obtain sv2 where "ntt_timer_service_arm_locked settime (sv\<lparr>sv_queues := h2\<rparr>) = Some sv2" "sv_queues sv2 = h2"
    by (rule arm_locked_effect [OF _ set]) simp
  then have "sv_entries sv' = zs" using arm st2 by (intro sv_entries_state) simp
  moreover have "set ys = insert \<lparr>qe_deadline = d, qe_index = i, qe_generation = g\<rparr> (set ?xs)" using ys by (metis set_mset_add_mset_insert set_mset_mset)
  ultimately show ?thesis using sub by blast
qed

section \<open>What a step does to entries, generations and references\<close>

definition sys_moves :: "ntt_queue_heap_elem set \<Rightarrow> timer_sys \<Rightarrow> timer_sys \<Rightarrow> bool" where
  "sys_moves N s s' \<longleftrightarrow> set (sv_entries (tm_service s')) \<subseteq> set (sv_entries (tm_service s)) \<union> N \<and> (\<forall>j. gen s j \<le> gen s' j) \<and>
     (\<forall>j. v_refs (view s' j) = 0 \<longrightarrow> v_refs (view s j) = 0 \<or> gen s j < gen s' j) \<and>
     (\<forall>e \<in> N. unat (qe_generation e) \<le> gen s' (qe_index e) \<and> v_refs (view s' (qe_index e)) \<noteq> 0)"

lemma moves_same [simp]: "sys_moves {} s s"
  by (simp add: sys_moves_def)

lemma moves_trans: "sys_moves {} s s' \<Longrightarrow> sys_moves {} s' s'' \<Longrightarrow> sys_moves {} s s''"
proof -
  assume a: "sys_moves {} s s'" and b: "sys_moves {} s' s''"
  have "v_refs (view s j) = 0 \<or> gen s j < gen s'' j" if "v_refs (view s'' j) = 0" for j
  proof (cases "v_refs (view s' j) = 0")
    case True
    then have "v_refs (view s j) = 0 \<or> gen s j < gen s' j" using a by (simp add: sys_moves_def del: view_simps)
    moreover have "gen s' j \<le> gen s'' j" using b by (simp add: sys_moves_def)
    ultimately show ?thesis by linarith
  next
    case False
    have "v_refs (view s' j) = 0 \<or> gen s' j < gen s'' j" using b that by (simp add: sys_moves_def)
    then have "gen s' j < gen s'' j" using False by simp
    moreover have "gen s j \<le> gen s' j" using a by (simp add: sys_moves_def)
    ultimately show ?thesis by linarith
  qed
  moreover have "gen s j \<le> gen s'' j" for j using a b by (meson sys_moves_def le_trans)
  moreover have "set (sv_entries (tm_service s'')) \<subseteq> set (sv_entries (tm_service s))" using a b by (auto simp: sys_moves_def simp del: view_simps)
  ultimately show ?thesis by (simp add: sys_moves_def del: view_simps)
qed

lemma moves_unref:
  assumes inv: "sys_ok aligned s" and small: "gens_small (tm_slab s)" and r: "v_refs (view s i) \<noteq> 0"
    and last: "v_refs (view s i) = 1 \<Longrightarrow> v_armed (view s i) = Map.empty" and d: "queue_unref env i s = Some s'"
  shows "sys_moves {} s s'"
proof -
  obtain t where "queue_unref env i s = Some t" "tm_service t = tm_service s"
    "view t = (view s)(i := (view s i)\<lparr>v_refs := v_refs (view s i) - 1\<rparr>)" "gen t = (gen s)(i := gen s i + of_bool (v_refs (view s i) = 1))"
    by (rule queue_unref_effect [OF inv small r last])
  then show ?thesis using d r unfolding sys_moves_def by (auto simp del: view_simps)
qed

text \<open>The last task of a queue without armed timers is the last to hold it.\<close>

lemma last_task:
  assumes inv: "tm_inv aligned S" and c: "tx_ctx S i = Inside None PIdle" and one: "v_refs (view (tx_sys S) i) = 1"
  shows "v_armed (view (tx_sys S) i) = Map.empty"
proof -
  have ne: "tx_tasks S i \<noteq> []" using tm_invD(4) [OF inv, of i] c by simp
  have h: "holders S i \<noteq> 0" using ne by (simp add: holders_def)
  have "\<not> v_self (view (tx_sys S) i)" using one ne tm_invD(3) [OF inv, of i] by (auto simp: holders_def)
  then show ?thesis using q_good_finish tm_invD(5) [OF inv h] c by (simp add: q_good_def rested_def)
qed

lemma moves_push:
  assumes inv: "tm_inv aligned S" and lim: "within_limits S" and h: "holders S i \<noteq> 0"
  shows "sys_moves {} (tx_sys S) (tx_sys (push_drain i b S))"
proof -
  have r: "v_refs (view (tx_sys S) i) \<noteq> 0" using h tm_invD(3) [OF inv, of i] by simp
  note e = queue_ref_effect [OF tm_invD(1) [OF inv] within_limitsD(2) [OF lim] r]
  show ?thesis using r unfolding sys_moves_def push_drain_def by (simp add: e del: view_simps)
qed

lemma moves_quiet:
  assumes "tm_service s' = tm_service s" "gen s' = gen s" "\<And>j. v_refs (view s' j) = 0 \<longrightarrow> v_refs (view s j) = 0"
  shows "sys_moves {} s s'"
  using assms by (simp add: sys_moves_def del: view_simps)

text \<open>Changing the timers of a queue.\<close>

lemma moves_timers: "sys_moves {} s (set_queue i (\<lambda>q. q\<lparr>qt_timers := h\<rparr>) s)"
  by (rule moves_quiet) (auto simp: view_simps fun_upd_def)

lemma moves_decide:
  assumes inv: "tm_inv aligned S" and lim: "within_limits S" and c: "tx_ctx S i = Inside drain (PSync (SyncLooked r d))"
    and st: "sync_decide env i r d (tx_sys S) = Some (pc, sys)"
  shows "sys_moves {} (tx_sys S) sys"
proof (cases d)
  case None
  obtain t where "sync_drop env i r (tx_sys S) = Some t" "tm_service t = tm_service (tx_sys S)"
    "view t = (view (tx_sys S))(i := (view (tx_sys S) i)\<lparr>v_refs := v_refs (view (tx_sys S) i) - of_bool (v_self (view (tx_sys S) i)), v_self := False\<rparr>)"
    "gen t = (gen (tx_sys S))(i := gen (tx_sys S) i + of_bool r)"
    by (rule sync_drop_effect [OF tm_invD(1) [OF inv] within_limitsD(1) [OF lim] holders_self [OF inv c]])
  moreover from this have "t = sys" using st None by (simp add: sync_decide_def)
  ultimately show ?thesis using holders_self [OF inv c] unfolding sys_moves_def by (auto simp del: view_simps)
next
  case (Some dl)
  have h: "holders S i \<noteq> 0" using holders_ctx [OF inv] c by simp
  then have r: "v_refs (view (tx_sys S) i) \<noteq> 0" using tm_invD(3) [OF inv, of i] by simp
  show ?thesis
  proof (cases rule: sync_decide_effect [OF tm_invD(1) [OF inv] within_limitsD(1,2) [OF lim] r, of r dl env])
    case (1 t)
    then have "t = sys" using st Some by simp
    then show ?thesis using 1 r unfolding sys_moves_def by (auto simp del: view_simps)
  next
    case (2 t tomb)
    then have "t = sys" using st Some by simp
    then show ?thesis using 2 r unfolding sys_moves_def by (auto simp del: view_simps)
  qed
qed

lemma moves_register:
  assumes ok: "env_ok env" "settime_ok settime" and inv: "tm_inv aligned S" and lim: "within_limits S"
    and c: "tx_ctx S i = Inside drain (PSync (SyncRegister g d t))" and st: "sync_register env settime i g d t (tx_sys S) = Some sys"
  shows "sys_moves {\<lparr>qe_deadline = d, qe_index = i, qe_generation = g\<rparr>} (tx_sys S) sys"
proof -
  let ?s = "tx_sys S"
  have h: "holders S i \<noteq> 0" using holders_ctx [OF inv] c by simp
  then have r: "v_refs (view ?s i) \<noteq> 0" using tm_invD(3) [OF inv, of i] by simp
  have reg: "unat g \<le> gen ?s i" using tm_invD(5) [OF inv h, unfolded c] by (auto simp: q_good_def)
  obtain sv where sv: "ntt_timer_service_register env settime (tm_slab ?s) (tm_service ?s) i g d t = Some sv" "sys = ?s\<lparr>tm_service := sv\<rparr>"
    using st by (auto simp: sync_register_def split: bind_splits)
  from register_entries [OF ok sys_okD(1,2) [OF tm_invD(1) [OF inv]] tm_inv_open [OF inv h] within_limitsD(4) [OF lim] sv(1)]
  show ?thesis using r reg by (auto simp: sys_moves_def sv(2))
qed

lemma moves_pop:
  assumes inv: "tm_inv aligned S" and st: "service_pop env now (tx_sys S) = Some (r, sys)"
  shows "sys_moves {} (tx_sys S) sys"
proof -
  obtain r' sv where "service_pop env now (tx_sys S) = Some (r', (tx_sys S)\<lparr>tm_service := sv\<rparr>)"
    "set (sv_entries sv) \<subseteq> set (sv_entries (tm_service (tx_sys S)))"
    by (rule pop_effect [OF sys_okD(1,2) [OF tm_invD(1) [OF inv]]])
  then show ?thesis using st by (auto simp: sys_moves_def)
qed

lemma moves_compare:
  assumes inv: "tm_inv aligned S" and lim: "within_limits S" and svc: "tx_svc S = SvcHeld now batch e"
    and st: "service_compare env e (tx_sys S) = Some (live, sys)"
  shows "sys_moves {} (tx_sys S) sys"
proof -
  let ?i = "qe_index e"
  have "holders S ?i \<noteq> 0" using svc by (simp add: holders_def)
  then have r: "v_refs (view (tx_sys S) ?i) \<noteq> 0" using tm_invD(3) [OF inv, of ?i] by simp
  have last: "v_armed (view (tx_sys S) ?i) = Map.empty" if "v_refs (view (tx_sys S) ?i) = 1"
    by (rule tm_inv_last [OF inv that]) (use svc in simp)
  show ?thesis
  proof (cases rule: service_compare_effect [OF tm_invD(1) [OF inv] within_limitsD(1) [OF lim] r last, of env])
    case 2
    then show ?thesis using st by simp
  next
    case (3 t)
    then have "t = sys" using st by simp
    then show ?thesis using 3 r unfolding sys_moves_def by (auto simp del: view_simps)
  qed
qed

lemma moves_upgrade:
  assumes inv: "tm_inv aligned S" and lim: "within_limits S" and svc: "tx_svc S = SvcTaken now batch e"
    and st: "service_upgrade env e (tx_sys S) = Some (live, sys)"
  shows "sys_moves {} (tx_sys S) sys"
proof -
  let ?s = "tx_sys S" and ?i = "qe_index e"
  have known: "gen ?s ?i \<noteq> 0" using tm_invD(2) [OF inv] svc by simp
  obtain t where "service_upgrade env e ?s = Some (v_refs (view ?s ?i) \<noteq> 0, t)" "tm_service t = tm_service ?s" "tm_slab t = tm_slab ?s"
    "view t = (view ?s)(?i := (view ?s ?i)\<lparr>v_refs := v_refs (view ?s ?i) + of_bool (v_refs (view ?s ?i) \<noteq> 0)\<rparr>)"
    by (rule service_upgrade_effect [OF tm_invD(1) [OF inv] within_limitsD(2) [OF lim] known])
  then show ?thesis using st by (intro moves_quiet) (auto simp del: view_simps)
qed

lemma moves_retire:
  assumes inv: "tm_inv aligned S" and lim: "within_limits S" and svc: "tx_svc S = SvcChecked now batch i"
    and st: "service_retire i (tx_sys S) = Some sys"
  shows "sys_moves {} (tx_sys S) sys"
proof -
  have hs: "holders S i \<noteq> 0" using svc by (simp add: holders_def)
  obtain slab where e: "ntt_queue_retire_timer_generation (tm_slab (tx_sys S)) i = Some (of_nat (gen (tx_sys S) i + 1), slab)"
    "gen_of slab = (gen (tx_sys S))(i := gen (tx_sys S) i + 1)"
    by (rule timer_retire_effect [OF tm_invD(1) [OF inv] within_limitsD(1) [OF lim] tm_inv_open [OF inv hs]])
  then have "sys = (tx_sys S)\<lparr>tm_slab := slab\<rparr>" using st by (simp add: service_retire_def)
  then show ?thesis using e(2) by (auto simp: sys_moves_def)
qed

lemma moves_unlock:
  assumes set: "settime_ok settime" and ok: "sys_ok aligned s" and st: "service_rearm settime s = Some s'"
  shows "sys_moves {} s s'"
proof -
  obtain sv where "service_rearm settime s = Some (s\<lparr>tm_service := sv\<rparr>)" "sv_entries sv = sv_entries (tm_service s)"
    by (rule rearm_effect [OF sys_okD(2) [OF ok] set])
  then show ?thesis using st by (auto simp: sys_moves_def)
qed

lemma moves_create:
  assumes inv: "tm_inv aligned S" and lim: "within_limits S" and step: "queue_create aligned (tx_sys S) = Some (i, sys)"
  shows "sys_moves {} (tx_sys S) sys"
proof -
  have e: "tm_service sys = tm_service (tx_sys S)" "view sys = (view (tx_sys S))(i := new_view)"
    "\<forall>j. gen (tx_sys S) j \<noteq> 0 \<longrightarrow> gen sys j = gen (tx_sys S) j"
    using queue_create_effect [OF tm_invD(1) [OF inv] within_limitsD(3) [OF lim]] step by (metis option.sel prod.inject)+
  have "gen (tx_sys S) j \<le> gen sys j" for j using e(3) by (cases "gen (tx_sys S) j = 0") auto
  then show ?thesis unfolding sys_moves_def by (auto simp: e(1,2) new_view_def simp del: view_simps split: if_splits)
qed

lemma moves_finish:
  assumes inv: "tm_inv aligned S" and lim: "within_limits S" and c: "tx_ctx S i = Inside None PIdle"
    and st: "finish_task env i S = Some S'"
  shows "sys_moves {} (tx_sys S) (tx_sys S')"
proof (cases "tl (tx_tasks S i) = []")
  case True
  have "holders S i \<noteq> 0" using holders_ctx [OF inv] c by simp
  then have r: "v_refs (view (tx_sys S) i) \<noteq> 0" using tm_invD(3) [OF inv, of i] by simp
  have "queue_unref env i (tx_sys S) = Some (tx_sys S')" using st True by (auto simp: finish_task_def Let_def split: bind_splits)
  then show ?thesis using moves_unref [OF tm_invD(1) [OF inv] within_limitsD(1) [OF lim] r last_task [OF inv c]] by blast
next
  case False
  then have "tx_sys S' = tx_sys S" using st by (auto simp: finish_task_def Let_def)
  then show ?thesis by simp
qed

text \<open>Waking a queue gives it the task before it drops the reference, which is then not the last one.\<close>

lemma moves_wake:
  assumes inv: "tm_inv aligned S" and lim: "within_limits S" and i: "i \<in># tx_batch S" and st: "wake_queue env i S = Some S'"
  shows "sys_moves {} (tx_sys S) (tx_sys S')"
proof -
  let ?S1 = "push_drain i True S"
  have h: "holders S i \<noteq> 0" using i by (simp add: holders_def)
  have inv1: "tm_inv aligned ?S1" by (rule inv_push [OF inv lim h])
  have b: "tx_batch ?S1 = tx_batch S" "tx_tasks ?S1 i \<noteq> []" by (simp_all add: push_drain_def)
  have "0 < count (tx_batch ?S1) i" using i b by simp
  then have big: "1 < v_refs (view (tx_sys ?S1) i)" using tm_invD(3) [OF inv1, of i] b(2) by (simp add: holders_def)
  then have r: "v_refs (view (tx_sys ?S1) i) \<noteq> 0" "v_refs (view (tx_sys ?S1) i) \<noteq> 1" by linarith+
  obtain t where t: "queue_unref env i (tx_sys ?S1) = Some t" "tm_service t = tm_service (tx_sys ?S1)"
    "view t = (view (tx_sys ?S1))(i := (view (tx_sys ?S1) i)\<lparr>v_refs := v_refs (view (tx_sys ?S1) i) - 1\<rparr>)"
    "gen t = (gen (tx_sys ?S1))(i := gen (tx_sys ?S1) i + of_bool (v_refs (view (tx_sys ?S1) i) = 1))"
    by (rule queue_unref_effect [OF tm_invD(1) [OF inv1] _ r(1)]) (use r(2) in auto)
  have "tx_sys S' = t" using st t(1) by (auto simp: wake_queue_def Let_def)
  moreover have "sys_moves {} (tx_sys ?S1) t" using t big unfolding sys_moves_def by (auto simp del: view_simps)
  ultimately show ?thesis using moves_trans [OF moves_push [OF inv lim h]] by blast
qed

section \<open>No entry outlives its queue\<close>

definition young :: "timer_sys \<Rightarrow> bool" where
  "young s \<longleftrightarrow> (\<forall>e \<in> set (sv_entries (tm_service s)). unat (qe_generation e) \<le> gen s (qe_index e) \<and>
     (v_refs (view s (qe_index e)) = 0 \<longrightarrow> unat (qe_generation e) < gen s (qe_index e)))"

lemma young_moves:
  assumes "young s" "sys_moves N s s'"
  shows "young s'"
  unfolding young_def
proof (intro ballI conjI impI)
  fix e assume e: "e \<in> set (sv_entries (tm_service s'))"
  let ?i = "qe_index e"
  have m: "gen s ?i \<le> gen s' ?i" "v_refs (view s' ?i) = 0 \<Longrightarrow> v_refs (view s ?i) = 0 \<or> gen s ?i < gen s' ?i"
    using assms(2) unfolding sys_moves_def by blast+
  consider (new) "e \<in> N" | (old) "e \<in> set (sv_entries (tm_service s))" using e assms(2) unfolding sys_moves_def by blast
  then have "unat (qe_generation e) \<le> gen s' ?i \<and> (v_refs (view s' ?i) = 0 \<longrightarrow> unat (qe_generation e) < gen s' ?i)"
  proof cases
    case new
    then show ?thesis using assms(2) unfolding sys_moves_def by blast
  next
    case old
    then have "unat (qe_generation e) \<le> gen s ?i" "v_refs (view s ?i) = 0 \<Longrightarrow> unat (qe_generation e) < gen s ?i"
      using assms(1) unfolding young_def by blast+
    then show ?thesis using m by linarith
  qed
  then show "unat (qe_generation e) \<le> gen s' ?i" "v_refs (view s' ?i) = 0 \<Longrightarrow> unat (qe_generation e) < gen s' ?i" by blast+
qed

text \<open>Every step of the machine moves so.\<close>

lemma tm_step_moves:
  assumes "tm_step env aligned settime S S'" "env_ok env" "settime_ok settime" and inv: "tm_inv aligned S"
  shows "\<exists>N. sys_moves N (tx_sys S) (tx_sys S')"
  using assms(1)
proof (cases rule: tm_step.cases)
  case (st_create i sys)
  then show ?thesis using moves_create [OF inv] by auto
next
  case (st_acquire i)
  have h: "holders S i \<noteq> 0" using st_acquire(3) holders_ctx [OF inv, of i] by (auto simp: holders_def)
  then have r: "v_refs (view (tx_sys S) i) \<noteq> 0" using tm_invD(3) [OF inv, of i] by simp
  have "sys_moves {} (tx_sys S) (queue_ref i (tx_sys S))"
    using queue_ref_effect [OF tm_invD(1) [OF inv] within_limitsD(2) [OF st_acquire(2)] r] r
    by (intro moves_quiet) (auto simp del: view_simps)
  then show ?thesis using st_acquire(1) by auto
next
  case (st_release i sys)
  have "holders S i \<noteq> 0" using st_release(3) by (auto simp: holders_def)
  then have r: "v_refs (view (tx_sys S) i) \<noteq> 0" using tm_invD(3) [OF inv, of i] by simp
  have "v_armed (view (tx_sys S) i) = Map.empty" if "v_refs (view (tx_sys S) i) = 1"
    by (rule tm_inv_last [OF inv that]) (use st_release(3) in simp)
  then have "sys_moves {} (tx_sys S) sys"
    using moves_unref [OF tm_invD(1) [OF inv] within_limitsD(1) [OF st_release(2)] r _ st_release(4)] by blast
  then show ?thesis using st_release(1) by auto
next
  case (st_push i)
  have "holders S i \<noteq> 0" using st_push(3) holders_ctx [OF inv, of i] by (auto simp: holders_def)
  then show ?thesis using moves_push [OF inv st_push(2)] st_push(1) by blast
next
  case (st_finish i)
  then show ?thesis using moves_finish [OF inv] by blast
next
  case (st_arm i drain task m deadline tag sys)
  then show ?thesis using moves_timers by (auto simp: queue_arm_def split: bind_splits)
next
  case (st_cancel i drain tag evs sys)
  then show ?thesis using moves_timers by (auto simp: queue_disarm_def split: bind_splits)
next
  case (st_look i drain registered deadline sys)
  then show ?thesis using moves_timers by (auto simp: sync_look_def split: bind_splits)
next
  case (st_decide i drain registered deadline pc sys)
  then show ?thesis using moves_decide [OF inv] by fastforce
next
  case (st_register i drain g d t sys)
  then show ?thesis using moves_register [OF assms(2,3) inv st_register(2,3,5)] by auto
next
  case (st_pop now batch e sys)
  then show ?thesis using moves_pop [OF inv st_pop(5)] by auto
next
  case (st_upgrade now batch e live sys)
  then show ?thesis using moves_upgrade [OF inv st_upgrade(2,3,4)] by auto
next
  case (st_compare now batch e live sys)
  then show ?thesis using moves_compare [OF inv st_compare(2,3,4)] by auto
next
  case (st_retire now batch i sys)
  then show ?thesis using moves_retire [OF inv st_retire(2,3,4)] by auto
next
  case (st_unlock now batch sys1 sys)
  have pop: "sys_moves {} (tx_sys S) sys1" using st_unlock(4) moves_pop [OF inv] by (auto split: if_splits)
  have "sys_ok aligned sys1"
  proof (cases "length batch < NTT_TIMER_SERVICE_BATCH")
    case True
    with st_unlock(4) have p: "service_pop env now (tx_sys S) = Some (None, sys1)" by simp
    from inv_pop [OF inv st_unlock(3), of env] p have "tm_inv aligned (S\<lparr>tx_sys := sys1\<rparr>)" by (metis option.sel prod.inject)
    then show ?thesis using tm_invD(1) by fastforce
  next
    case False
    then show ?thesis using st_unlock(4) tm_invD(1) [OF inv] by simp
  qed
  then show ?thesis using moves_trans [OF pop moves_unlock [OF assms(3) _ st_unlock(5)]] st_unlock(1) by auto
next
  case (st_wake i)
  then show ?thesis using moves_wake [OF inv] by blast
qed ((rule exI [of _ "{}"], simp add: moves_timers)+)

lemma tm_reachable_young:
  assumes "tm_reachable env aligned settime n S" "env_ok env" "settime_ok settime"
    and "alloc_ok aligned (sl_stride (ntt_slab_init n))" "64 \<le> unat (sl_stride (ntt_slab_init n))"
  shows "young (tx_sys S)"
  using assms(1)
proof induction
  case tm_start
  show ?case by (simp add: young_def tm_init_def ntt_timer_service_init_def sv_entries_def ntt_queue_heap_init_def)
next
  case (tm_next S S')
  then obtain N where "sys_moves N (tx_sys S) (tx_sys S')"
    using tm_step_moves [OF _ assms(2,3) tm_reachable_inv [OF _ assms(2-5)]] by blast
  then show ?case using young_moves tm_next.IH by blast
qed

text \<open>A registration that stands is one of a queue that is there.\<close>

lemma young_stands:
  assumes "young s" "e \<in> set (sv_entries (tm_service s))" "stands (tm_slab s) e"
  shows "v_refs (view s (qe_index e)) \<noteq> 0"
  using assms unfolding young_def stands_def by force

text \<open>With all queues gone no entry is live, and the service can end.\<close>

lemma ended_no_live:
  assumes inv: "sys_ok aligned s" and y: "young s" and gone: "\<forall>i. qt_refs (tm_queues s i) = 0"
  shows "ntt_queue_heap_has_live env (sv_queues (tm_service s)) (tm_slab s) = Some False"
proof -
  note slab = sys_okD(1) [OF inv]
  obtain fl where fl: "slab_state aligned (tm_slab s) fl" using slab by (rule slab_okE)
  let ?xs = "sv_entries (tm_service s)"
  have st: "qh_state (tm_slab s) (sv_queues (tm_service s)) ?xs" using sys_okD(2) [OF inv] by (simp add: svc_ok_def)
  have "\<not> qe_live (tm_slab s) e" if "e \<in> set ?xs" for e
  proof -
    have "\<not> stands (tm_slab s) e" using young_stands [OF y that] gone by (auto simp: view_simps)
    moreover have "gen s (qe_index e) \<noteq> 0" using that st by (auto simp: slab_ok_gen(1) [OF slab] qh_state_def qe_known_def)
    ultimately show ?thesis using stands_live [OF slab] by blast
  qed
  then show ?thesis using queue_any_live_ok [OF fl st, of 0 env] by (auto simp: ntt_queue_heap_has_live_def)
qed

end
