(* ===== verification/Timer_Calls.thy ===== *)
theory Timer_Calls
  imports Timer_Machine_Inv
begin

text \<open>
  What follows from the invariant for an armed timer, and what the calls do when nothing comes in between: a pass of the service
  (\<open>service_batch\<close>) and arming a timer (\<open>ntt_self_wakeup_at\<close>).
\<close>

section \<open>Calls that run alone\<close>

definition machine_ok :: "env \<Rightarrow> aligned_alloc \<Rightarrow> (u64 \<Rightarrow> u64 \<Rightarrow> bool) \<Rightarrow> u64 \<Rightarrow> bool" where
  "machine_ok env aligned settime n \<longleftrightarrow> env_ok env \<and> settime_ok settime \<and>
     alloc_ok aligned (sl_stride (ntt_slab_init n)) \<and> 64 \<le> unat (sl_stride (ntt_slab_init n))"

text \<open>No entry is ahead of the generation of its slot.\<close>

definition aged :: "timer_sys \<Rightarrow> bool" where
  "aged s \<longleftrightarrow> (\<forall>e \<in> set (sv_entries (tm_service s)). unat (qe_generation e) \<le> gen s (qe_index e))"

text \<open>
  What taking the expired registrations of the queues \<open>woken\<close> does: each of these had one, is held by one more
  reference and has its generation bumped; the registrations of other queues stay, unless they have expired
  and their queue is gone.
\<close>

definition took :: "u64 \<Rightarrow> timer_sys \<Rightarrow> u32 list \<Rightarrow> timer_sys \<Rightarrow> bool" where
  "took now s woken s' \<longleftrightarrow> distinct woken \<and>
     (\<forall>i. view s' i = (view s i)\<lparr>v_refs := v_refs (view s i) + of_bool (i \<in> set woken)\<rparr>) \<and>
     (\<forall>i. gen s' i = gen s i + of_bool (i \<in> set woken)) \<and>
     (\<forall>i \<in> set woken. \<exists>e \<in> set (sv_entries (tm_service s)). qe_index e = i \<and> stands (tm_slab s) e \<and> qe_deadline e \<le> now) \<and>
     set (sv_entries (tm_service s')) \<subseteq> set (sv_entries (tm_service s)) \<and>
     (\<forall>e \<in> set (sv_entries (tm_service s)). stands (tm_slab s) e \<longrightarrow> qe_index e \<notin> set woken \<longrightarrow>
        v_refs (view s (qe_index e)) \<noteq> 0 \<or> now < qe_deadline e \<longrightarrow> e \<in> set (sv_entries (tm_service s')))"

text \<open>Room for waking \<open>n\<close> queues.\<close>

definition wake_room :: "timer_sys \<Rightarrow> nat \<Rightarrow> bool" where
  "wake_room s n \<longleftrightarrow> (\<forall>i. gen s i + n < 4294967296) \<and> (\<forall>i. v_refs (view s i) + n < 18446744073709551616)"

text \<open>
  What the code relies on when \<open>ntt_queue_sync_timers\<close> runs: a well-formed system within its limits, a
  reference that the caller holds, and a registration that is in the heap of the service if it stands.
\<close>

definition sync_pre :: "aligned_alloc \<Rightarrow> u32 \<Rightarrow> timer_sys \<Rightarrow> bool" where
  "sync_pre aligned i s \<longleftrightarrow> sys_ok aligned s \<and> svc_inv SvcFree s \<and> gens_small (tm_slab s) \<and> refs_small s \<and>
     unat (qh_size (sv_queues (tm_service s))) + 1 < QH_MAX \<and> of_bool (v_self (view s i)) < v_refs (view s i) \<and>
     (gen s i = v_reg_gen (view s i) \<longrightarrow> (\<exists>e \<in> set (sv_entries (tm_service s)). reg_entry i (view s i) e))"

text \<open>
  The registration of a queue stands, with a deadline that is not later than any armed timer, and the
  descriptor of the service is set to no later.
\<close>

definition registered :: "u32 \<Rightarrow> timer_sys \<Rightarrow> bool" where
  "registered i s \<longleftrightarrow> v_self (view s i) \<and> (\<exists>e \<in> set (sv_entries (tm_service s)).
     qe_index e = i \<and> stands (tm_slab s) e \<and> no_later (qe_deadline e) (view s i) \<and> sv_armed (tm_service s) \<le> qe_deadline e)"

lemma machine_inv: "machine_ok env aligned settime n \<Longrightarrow> tm_reachable env aligned settime n S \<Longrightarrow> tm_inv aligned S"
  using tm_reachable_inv by (auto simp: machine_ok_def)

lemma svc_has_wakes: "svc_has g p i \<Longrightarrow> svc_wakes g p i"
  by (cases "(g, p, i)" rule: svc_has.cases) auto

lemma rested_covered:
  assumes inv: "tm_inv aligned S" and ctx: "tx_ctx S i = Away \<or> tx_ctx S i = Inside None PIdle"
    and armed: "v_armed (view (tx_sys S) i) tag = Some (d, q, k)"
  shows "v_self (view (tx_sys S) i)"
    "pending S i \<or> (\<exists>e \<in> set (sv_entries (tm_service (tx_sys S))).
      qe_index e = i \<and> stands (tm_slab (tx_sys S)) e \<and> qe_deadline e \<le> d)"
proof -
  have h: "holders S i \<noteq> 0" using tm_invD(6) [OF inv, of i] armed by (cases "holders S i = 0") auto
  note good = tm_invD(5) [OF inv h]
  then have rest: "rested (view (tx_sys S) i) (gen (tx_sys S) i) (pending S i)" using ctx by (auto simp: q_good_def)
  then show "v_self (view (tx_sys S) i)" using armed by (auto simp: rested_def)
  show "pending S i \<or> (\<exists>e \<in> set (sv_entries (tm_service (tx_sys S))).
      qe_index e = i \<and> stands (tm_slab (tx_sys S)) e \<and> qe_deadline e \<le> d)"
  proof (cases "pending S i")
    case False
    then have g: "gen (tx_sys S) i = v_reg_gen (view (tx_sys S) i)" and dl: "v_reg_deadline (view (tx_sys S) i) \<le> d"
      using rest armed by (auto simp: rested_def no_later_def)
    have "heaped S i" using good g ctx by (auto simp: q_good_def)
    moreover have "\<not> svc_has (gen (tx_sys S) i) (tx_svc S) i" using False svc_has_wakes by (auto simp: pending_def)
    ultimately show ?thesis using g dl by (auto simp: heaped_def reg_entry_def stands_def)
  qed simp
qed

section \<open>A pass of the service\<close>

lemma took_nothing:
  assumes "view s' = view s" "gen s' = gen s" "set (sv_entries (tm_service s')) \<subseteq> set (sv_entries (tm_service s))"
    and "\<And>e. e \<in> set (sv_entries (tm_service s)) \<Longrightarrow> stands (tm_slab s) e \<Longrightarrow>
      v_refs (view s (qe_index e)) \<noteq> 0 \<or> now < qe_deadline e \<Longrightarrow> e \<in> set (sv_entries (tm_service s'))"
  shows "took now s [] s'"
proof -
  have "view s i = (view s i)\<lparr>v_refs := v_refs (view s i)\<rparr>" for i by simp
  then show ?thesis using assms by (auto simp: took_def)
qed

lemma tookD:
  assumes "took now s woken s'"
  shows "i \<in> set woken \<Longrightarrow> \<exists>e \<in> set (sv_entries (tm_service s)). qe_index e = i \<and> stands (tm_slab s) e \<and> qe_deadline e \<le> now"
    "distinct woken" "set (sv_entries (tm_service s')) \<subseteq> set (sv_entries (tm_service s))"
    "e \<in> set (sv_entries (tm_service s)) \<Longrightarrow> stands (tm_slab s) e \<Longrightarrow> qe_index e \<notin> set woken \<Longrightarrow>
      v_refs (view s (qe_index e)) \<noteq> 0 \<or> now < qe_deadline e \<Longrightarrow> e \<in> set (sv_entries (tm_service s'))"
  using assms unfolding took_def by blast+

lemma took_trans:
  assumes a: "took now s [] s1" and b: "took now s1 woken s2"
  shows "took now s woken s2"
proof -
  have g: "gen s1 = gen s" and v: "view s1 = view s" using a by (auto simp: took_def)
  then have st: "stands (tm_slab s1) e = stands (tm_slab s) e" for e by (simp add: stands_def)
  show ?thesis using a b unfolding took_def g v st by (auto; blast)
qed

lemma took_wake:
  assumes aged: "aged s" and e: "e \<in> set (sv_entries (tm_service s))" "stands (tm_slab s) e" "qe_deadline e \<le> now"
    and v: "view s1 = (view s)(qe_index e := (view s (qe_index e))\<lparr>v_refs := v_refs (view s (qe_index e)) + 1\<rparr>)"
    and g: "gen s1 = (gen s)(qe_index e := gen s (qe_index e) + 1)"
    and sub: "set (sv_entries (tm_service s1)) \<subseteq> set (sv_entries (tm_service s))"
    and keep: "\<And>x. x \<in> set (sv_entries (tm_service s)) \<Longrightarrow> stands (tm_slab s) x \<Longrightarrow> x \<noteq> e \<Longrightarrow>
      x \<in> set (sv_entries (tm_service s1))"
    and t: "took now s1 woken s2"
  shows "took now s (qe_index e # woken) s2"
proof -
  let ?i = "qe_index e"
  have st: "stands (tm_slab s1) x \<longleftrightarrow> stands (tm_slab s) x" if "qe_index x \<noteq> ?i" for x using that by (simp add: stands_def g)
  have none: "\<not> stands (tm_slab s1) x" if "x \<in> set (sv_entries (tm_service s1))" "qe_index x = ?i" for x
    using aged sub that by (fastforce simp: aged_def stands_def g)
  then have new: "?i \<notin> set woken" using t by (auto simp: took_def)
  have had: "\<exists>x \<in> set (sv_entries (tm_service s)). qe_index x = i \<and> stands (tm_slab s) x \<and> qe_deadline x \<le> now"
    if w: "i \<in> set woken" for i
  proof -
    obtain x where x: "x \<in> set (sv_entries (tm_service s1))" "qe_index x = i" "stands (tm_slab s1) x" "qe_deadline x \<le> now"
      using tookD(1) [OF t w] by blast
    then have "qe_index x \<noteq> ?i" using none by blast
    then show ?thesis using x sub st by blast
  qed
  have kept: "x \<in> set (sv_entries (tm_service s2))" if x: "x \<in> set (sv_entries (tm_service s))" "stands (tm_slab s) x"
    "qe_index x \<notin> set (?i # woken)" "v_refs (view s (qe_index x)) \<noteq> 0 \<or> now < qe_deadline x" for x
  proof -
    have ne: "qe_index x \<noteq> ?i" "x \<noteq> e" using x(3) by auto
    then have "x \<in> set (sv_entries (tm_service s1))" "stands (tm_slab s1) x" "v_refs (view s1 (qe_index x)) = v_refs (view s (qe_index x))"
      using keep x st by (auto simp: v)
    then show ?thesis using t x(3,4) by (auto simp: took_def)
  qed
  have views: "view s2 j = (view s j)\<lparr>v_refs := v_refs (view s j) + of_bool (j \<in> set (?i # woken))\<rparr>" for j
    using t new by (auto simp: took_def v)
  show ?thesis unfolding took_def
  proof (intro conjI allI)
    show "gen s2 j = gen s j + of_bool (j \<in> set (?i # woken))" for j using t new by (auto simp: took_def g)
    show "set (sv_entries (tm_service s2)) \<subseteq> set (sv_entries (tm_service s))" using t sub by (auto simp: took_def)
  qed (use t new had e views kept in \<open>auto simp: took_def\<close>)
qed

lemma wake_room_mono: "wake_room s n \<Longrightarrow> m \<le> n \<Longrightarrow> wake_room s m"
  by (auto simp: wake_room_def intro: le_less_trans [OF add_left_mono])

lemma wake_room_bump:
  assumes "wake_room s (Suc n)" "view s' = (view s)(i := (view s i)\<lparr>v_refs := v_refs (view s i) + 1\<rparr>)"
    and "gen s' = (gen s)(i := gen s i + 1)"
  shows "wake_room s' n"
  using assms(1) unfolding wake_room_def assms(2,3) by (auto intro: Suc_lessD)

lemma service_wakes:
  assumes ok: "sys_ok aligned s" and room: "wake_room s 1" and e: "stands (tm_slab s) e" "v_refs (view s (qe_index e)) \<noteq> 0"
  obtains s2 s3 where "service_check env e s = Some (True, s2)" "service_retire (qe_index e) s2 = Some s3" "sys_ok aligned s3"
    "tm_service s3 = tm_service s"
    "view s3 = (view s)(qe_index e := (view s (qe_index e))\<lparr>v_refs := v_refs (view s (qe_index e)) + 1\<rparr>)"
    "gen s3 = (gen s)(qe_index e := gen s (qe_index e) + 1)"
proof -
  let ?i = "qe_index e"
  have known: "gen s ?i \<noteq> 0" by (rule sys_ok_open [OF ok e(2)])
  have small: "refs_small s" using room by (auto simp: refs_small_def wake_room_def view_simps)
  obtain s2 where u: "service_upgrade env e s = Some (v_refs (view s ?i) \<noteq> 0, s2)" "sys_ok aligned s2" "tm_service s2 = tm_service s"
    "tm_slab s2 = tm_slab s" "view s2 = (view s)(?i := (view s ?i)\<lparr>v_refs := v_refs (view s ?i) + of_bool (v_refs (view s ?i) \<noteq> 0)\<rparr>)"
    by (rule service_upgrade_effect [OF ok small known])
  have v2: "v_refs (view s2 ?i) \<noteq> 0" "v_refs (view s2 ?i) \<noteq> 1" using e(2) by (simp_all add: u(5))
  have gs: "gens_small (tm_slab s2)"
    using room by (auto simp: gens_small_def wake_room_def u(4) gen_of_def split: if_splits)
  have "service_compare env e s2 = Some (True, s2)"
    by (rule service_compare_effect [OF u(2) gs v2(1), of env]) (use v2(2) e(1) u(4) in auto)
  then have check: "service_check env e s = Some (True, s2)" using u(1) e(2) by (simp add: service_check_def)
  have known2: "gen s2 ?i \<noteq> 0" using known u(4) by simp
  obtain slab where slab: "ntt_queue_retire_timer_generation (tm_slab s2) ?i = Some (of_nat (gen s2 ?i + 1), slab)"
    "sys_ok aligned (s2\<lparr>tm_slab := slab\<rparr>)" "gen_of slab = (gen s2)(?i := gen s2 ?i + 1)"
    by (rule timer_retire_effect [OF u(2) gs known2])
  show thesis
    by (rule that [OF check, of "s2\<lparr>tm_slab := slab\<rparr>"]) (use slab u e(2) in \<open>simp_all add: service_retire_def\<close>)
qed

text \<open>One round of the loop.\<close>

lemma service_batch_step:
  assumes ok: "sys_ok aligned s" and aged: "aged s" and room: "wake_room s 1" and len: "length batch < 16"
  obtains (stop) s1 where "service_batch env now batch s = Some (batch, s1)" "sys_ok aligned s1" "took now s [] s1"
      "\<forall>e \<in> set (sv_entries (tm_service s1)). stands (tm_slab s1) e \<longrightarrow> now < qe_deadline e"
    | (gone) s1 where "service_batch env now batch s = service_batch env now batch s1" "sys_ok aligned s1" "aged s1"
      "took now s [] s1" "view s1 = view s" "gen s1 = gen s"
      "length (sv_entries (tm_service s1)) < length (sv_entries (tm_service s))"
    | (woke) i s1 where "service_batch env now batch s = service_batch env now (batch @ [i]) s1" "sys_ok aligned s1" "aged s1"
      "view s1 = (view s)(i := (view s i)\<lparr>v_refs := v_refs (view s i) + 1\<rparr>)" "gen s1 = (gen s)(i := gen s i + 1)"
      "length (sv_entries (tm_service s1)) < length (sv_entries (tm_service s))"
      "\<And>woken s2. took now s1 woken s2 \<Longrightarrow> took now s (i # woken) s2"
proof -
  obtain r sv where p: "service_pop env now s = Some (r, s\<lparr>tm_service := sv\<rparr>)" "svc_ok (tm_slab s) sv"
    "\<forall>e. r = Some e \<longrightarrow> e \<in> set (sv_entries (tm_service s)) \<and> stands (tm_slab s) e \<and> qe_deadline e \<le> now"
    "\<forall>e. stands (tm_slab s) e \<longrightarrow> e \<in> set (sv_entries (tm_service s)) \<longrightarrow> r \<noteq> Some e \<longrightarrow> e \<in> set (sv_entries sv)"
    "set (sv_entries sv) \<subseteq> set (sv_entries (tm_service s))"
    "r \<noteq> None \<longrightarrow> length (sv_entries sv) < length (sv_entries (tm_service s))"
    "r = None \<longrightarrow> (\<forall>e \<in> set (sv_entries (tm_service s)). stands (tm_slab s) e \<longrightarrow> now < qe_deadline e)"
    by (rule pop_effect [OF sys_okD(1,2) [OF ok]])
  let ?s1 = "s\<lparr>tm_service := sv\<rparr>"
  have ok1: "sys_ok aligned ?s1" by (rule set_service_ok [OF ok p(2)])
  have aged1: "aged ?s1" using aged p(5) by (auto simp: aged_def)
  have loop: "service_batch env now batch s = (case r of None \<Rightarrow> Some (batch, ?s1) | Some e \<Rightarrow> do {
      (live, s2) \<leftarrow> service_check env e ?s1;
      (if \<not> live then service_batch env now batch s2
       else do { s3 \<leftarrow> service_retire (qe_index e) s2; service_batch env now (batch @ [qe_index e]) s3 })})"
    using p(1) len by (subst service_batch.simps) (simp add: NTT_TIMER_SERVICE_BATCH_def)
  show thesis
  proof (cases r)
    case None
    have "took now s [] ?s1" by (rule took_nothing) (use p(4,5) None in auto)
    then show thesis using stop [of ?s1] loop ok1 p(5,7) None by auto
  next
    case (Some e)
    have e: "e \<in> set (sv_entries (tm_service s))" "stands (tm_slab s) e" "qe_deadline e \<le> now" using p(3) Some by auto
    have shorter: "length (sv_entries sv) < length (sv_entries (tm_service s))" using p(6) Some by simp
    show thesis
    proof (cases "v_refs (view s (qe_index e)) = 0")
      case True
      have "gen s (qe_index e) \<noteq> 0" by (rule svc_ok_known [OF sys_okD(1,2) [OF ok] e(1)])
      then have "service_check env e ?s1 = Some (False, ?s1)"
        using True timer_generation_ok(2) [OF sys_okD(1) [OF ok], of "qe_index e" env]
        by (auto simp: service_check_def service_upgrade_def view_simps unat_eq_zero)
      moreover have "took now s [] ?s1" by (rule took_nothing) (use p(4,5) Some True e in \<open>auto simp: not_less\<close>)
      ultimately show thesis using gone [of ?s1] loop ok1 aged1 shorter Some by simp
    next
      case False
      have room1: "wake_room ?s1 1" using room by (simp add: wake_room_def)
      have e1: "stands (tm_slab ?s1) e" "v_refs (view ?s1 (qe_index e)) \<noteq> 0" using e(2) False by simp_all
      obtain s2 s3 where w: "service_check env e ?s1 = Some (True, s2)" "service_retire (qe_index e) s2 = Some s3" "sys_ok aligned s3"
        "tm_service s3 = tm_service ?s1"
        "view s3 = (view ?s1)(qe_index e := (view ?s1 (qe_index e))\<lparr>v_refs := v_refs (view ?s1 (qe_index e)) + 1\<rparr>)"
        "gen s3 = (gen ?s1)(qe_index e := gen ?s1 (qe_index e) + 1)"
        by (rule service_wakes [OF ok1 room1 e1, of env])
      have "aged s3" using aged1 by (auto simp: aged_def w(4,6) intro: le_SucI)
      moreover have "took now s (qe_index e # woken) s4" if "took now s3 woken s4" for woken s4
        by (rule took_wake [OF aged e _ _ _ _ that]) (use w(4,5,6) p(4,5) Some in auto)
      ultimately show thesis using woke [of "qe_index e" s3] loop w shorter Some by simp
    qed
  qed
qed

lemma service_batch_takes:
  assumes "sys_ok aligned s" "aged s" "wake_room s (16 - length batch)" "length batch \<le> 16"
  shows "\<exists>woken s'. service_batch env now batch s = Some (batch @ woken, s') \<and> sys_ok aligned s' \<and> took now s woken s' \<and>
    length (batch @ woken) \<le> 16 \<and>
    (length (batch @ woken) < 16 \<longrightarrow> (\<forall>e \<in> set (sv_entries (tm_service s')). stands (tm_slab s') e \<longrightarrow> now < qe_deadline e))"
  using assms
proof (induction "length (sv_entries (tm_service s))" arbitrary: s batch rule: less_induct)
  case less
  show ?case
  proof (cases "length batch < 16")
    case False
    then have "service_batch env now batch s = Some (batch, s)"
      by (subst service_batch.simps) (simp add: NTT_TIMER_SERVICE_BATCH_def)
    then show ?thesis using less.prems(1,4) took_nothing [of s s now] False by (intro exI [of _ "[]"]) auto
  next
    case True
    have room: "wake_room s 1" using less.prems(3) True by (auto intro: wake_room_mono)
    show ?thesis
    proof (cases rule: service_batch_step [OF less.prems(1,2) room True, where env = env and now = now, case_names stop gone woke])
      case (stop s1)
      then show ?thesis using True by (intro exI [of _ "[]"] exI [of _ s1]) simp
    next
      case (gone s1)
      have "wake_room s1 (16 - length batch)" using less.prems(3) gone(5,6) by (simp add: wake_room_def)
      from less.hyps [OF gone(7,2,3) this less.prems(4)] show ?thesis unfolding gone(1) using took_trans [OF gone(4)] by blast
    next
      case (woke i s1)
      have "16 - length batch = Suc (16 - length (batch @ [i]))" using True by simp
      then have "wake_room s1 (16 - length (batch @ [i]))" using less.prems(3) wake_room_bump [OF _ woke(4,5)] by simp
      moreover have "length (batch @ [i]) \<le> 16" using True by simp
      ultimately obtain w s' where ih: "service_batch env now (batch @ [i]) s1 = Some ((batch @ [i]) @ w, s')"
        "sys_ok aligned s'" "took now s1 w s'" "length ((batch @ [i]) @ w) \<le> 16"
        "length ((batch @ [i]) @ w) < 16 \<longrightarrow>
           (\<forall>e \<in> set (sv_entries (tm_service s')). stands (tm_slab s') e \<longrightarrow> now < qe_deadline e)"
        using less.hyps [OF woke(6,2,3)] by blast
      then show ?thesis using woke(1) woke(7) [OF ih(3)] by (intro exI [of _ "i # w"] exI [of _ s']) simp
    qed
  qed
qed

section \<open>Arming from the context of a queue\<close>

lemma registeredI:
  assumes "e \<in> set (sv_entries (tm_service s))" "reg_entry i (view s i) e" "gen s i = v_reg_gen (view s i)"
    and "v_self (view s i)" "no_later (v_reg_deadline (view s i)) (view s i)" "svc_inv SvcFree s"
  shows "registered i s"
  using assms by (auto simp: registered_def reg_entry_def stands_def)

lemma sync_timers_registers:
  assumes env: "env_ok env" and set: "settime_ok settime" and pre: "sync_pre aligned i s"
    and armed: "v_armed (view s i) \<noteq> Map.empty"
  obtains s' where "ntt_queue_sync_timers env settime i s = Some s'" "sys_ok aligned s'" "registered i s'"
    "v_armed (view s' i) = v_armed (view s i)" "\<And>j. j \<noteq> i \<Longrightarrow> view s' j = view s j \<and> gen s' j = gen s j"
    "\<And>e. e \<in> set (sv_entries (tm_service s)) \<Longrightarrow> stands (tm_slab s) e \<Longrightarrow> qe_index e \<noteq> i \<Longrightarrow> e \<in> set (sv_entries (tm_service s'))"
proof -
  have ok: "sys_ok aligned s" and svc: "svc_inv SvcFree s" and small: "gens_small (tm_slab s)" "refs_small s"
    and room: "unat (qh_size (sv_queues (tm_service s))) + 1 < QH_MAX" and r: "v_refs (view s i) \<noteq> 0"
    and entry: "gen s i = v_reg_gen (view s i) \<longrightarrow> (\<exists>e \<in> set (sv_entries (tm_service s)). reg_entry i (view s i) e)"
    using pre by (auto simp: sync_pre_def)
  let ?b = "gen s i = v_reg_gen (view s i)"
  obtain d s1 where l: "sync_look env i s = Some (?b, d, s1)" "sys_ok aligned s1"
    "tm_service s1 = tm_service s" "tm_slab s1 = tm_slab s" "view s1 = view s" "earliest (v_armed (view s i)) d"
    by (rule sync_look_effect [OF env ok sys_ok_open [OF ok r]])
  then obtain dl where dl: "d = Some dl" "no_later dl (view s i)" using armed by (auto simp: earliest_def no_later_def split: option.splits)
  have small1: "gens_small (tm_slab s1)" "refs_small s1" "v_refs (view s1 i) \<noteq> 0"
    using small r l(4,5) by (simp_all add: refs_small_def view_def fun_eq_iff Let_def)
  show thesis
  proof (cases rule: sync_decide_effect [OF l(2) small1, of ?b dl env, case_names stays renews])
    case (stays s2)
    have sync: "ntt_queue_sync_timers env settime i s = Some s2" using l(1) stays(3) dl by (simp add: ntt_queue_sync_timers_def)
    obtain e where e: "e \<in> set (sv_entries (tm_service s))" "reg_entry i (view s i) e" using stays(1) entry by blast
    have "no_later (v_reg_deadline (view s i)) (view s i)"
      using stays(2) dl(2) unfolding l(5) no_later_def by (blast intro: order_trans)
    then have "registered i s2"
      by (intro registeredI [of e]) (use e stays l svc in \<open>auto simp: reg_entry_def no_later_def\<close>)
    then show thesis using that [OF sync stays(4)] stays l by simp
  next
    case (renews s2 t)
    let ?g = "of_nat (gen s1 i + 1) :: u32"
    have i2: "gen s2 i \<noteq> 0" by (simp add: renews(4))
    have g: "unat ?g = gen s i + 1" using gens_smallD [OF small(1), of i] of_nat_gen [of "gen s i + 1" ?g] l(4) by simp
    have room2: "unat (qh_size (sv_queues (tm_service s2))) + 1 < QH_MAX" using room renews(3) l(3) by simp
    obtain sv where sv: "ntt_timer_service_register env settime (tm_slab s2) (tm_service s2) i ?g dl t = Some sv" "svc_ok (tm_slab s2) sv"
      "\<forall>e. stands (tm_slab s2) e \<longrightarrow> e \<in> set (sv_entries (tm_service s2)) \<or>
         e = \<lparr>qe_deadline = dl, qe_index = i, qe_generation = ?g\<rparr> \<longrightarrow> e \<in> set (sv_entries sv)"
      "\<forall>e \<in> set (sv_entries sv). sv_armed sv \<le> qe_deadline e"
      by (rule register_effect [OF env set sys_okD(1,2) [OF renews(2)] i2 room2])
    let ?s = "s2\<lparr>tm_service := sv\<rparr>" and ?e = "\<lparr>qe_deadline = dl, qe_index = i, qe_generation = ?g\<rparr>"
    have sync: "ntt_queue_sync_timers env settime i s = Some ?s"
      using l(1) renews(1) dl sv(1) by (simp add: ntt_queue_sync_timers_def sync_register_def)
    have "?e \<in> set (sv_entries sv)" using sv(3) [rule_format, of ?e] g l(4) by (simp add: stands_def renews(4))
    then have "registered i ?s"
      by (intro registeredI [of ?e ?s]) (use g sv(4) dl l renews in \<open>auto simp: reg_entry_def no_later_def\<close>)
    then show thesis
      using that [OF sync set_service_ok [OF renews(2) sv(2)]] sv(3) renews(3,4,5) l(3,4,5) by (auto simp: stands_def)
  qed
qed

lemma wakeup_at_registers:
  assumes env: "env_ok env" and set: "settime_ok settime" and pre: "sync_pre aligned i s"
    and room: "th_room (qt_timers (tm_queues s i))" and task: "task \<noteq> NULL" "ntt_task_unlinked m task"
  shows "\<exists>tag s'. ntt_self_wakeup_at env settime m i deadline task s = Some (tag, s') \<and> sys_ok aligned s' \<and> registered i s' \<and>
    v_armed (view s i) tag = None \<and>
    v_armed (view s' i) = (v_armed (view s i))(tag \<mapsto> (deadline, th_seq_next (qt_timers (tm_queues s i)), task))"
proof -
  have ok: "sys_ok aligned s" using pre by (simp add: sync_pre_def)
  obtain tag h where p: "ntt_timer_heap_push env m (qt_timers (tm_queues s i)) deadline task = Some (tag, h)" "th_inv h"
    "th_armed (qt_timers (tm_queues s i)) tag = None"
    "th_armed h = (th_armed (qt_timers (tm_queues s i)))(tag \<mapsto> (deadline, th_seq_next (qt_timers (tm_queues s i)), task))"
    using push_armed [OF env sys_okD(3) [OF ok] room task, of deadline] by blast
  let ?s = "set_queue i (\<lambda>q. q\<lparr>qt_timers := h\<rparr>) s"
  note e = set_timers_effect [OF ok p(2), of i]
  have "sync_pre aligned i ?s"
    using pre e unfolding sync_pre_def by (simp add: refs_small_def reg_entry_def)
  moreover have "v_armed (view ?s i) \<noteq> Map.empty" using p(4) by (auto simp: e(2) fun_eq_iff)
  ultimately obtain s' where s': "ntt_queue_sync_timers env settime i ?s = Some s'" "sys_ok aligned s'" "registered i s'"
    "v_armed (view s' i) = v_armed (view ?s i)"
    by (rule sync_timers_registers [OF env set])
  have "ntt_self_wakeup_at env settime m i deadline task s = Some (tag, s')"
    using p(1) s'(1) by (simp add: ntt_self_wakeup_at_def queue_arm_def)
  then show ?thesis using s' p(3,4) by (simp add: e(2) view_simps)
qed

end
