(* ===== verification/Timer_Props.thy ===== *)
theory Timer_Props
  imports Timer_Calls Timer_Heap_Props Queue_Heap_Props
begin

text \<open>
  The properties of the timers of the queues and of the timer service, with instances on a run in which
  a queue is created, is given a task, and the task arms a timer.
\<close>

section \<open>A run to evaluate on\<close>

text \<open>
  A loop with one queue: its generation, its references, its timers, its registration, whether it holds itself,
  and the service.
\<close>

definition demo_slab :: "u64 \<Rightarrow> ntt_slab" where
  "demo_slab g = \<lparr>sl_blocks = 1099511627776 # replicate 26 NULL, sl_size = 1, sl_stride = 256, sl_block_cnt = 1,
     sl_free_head = NTT_SLAB_NONE,
     sl_mem = [1099511627776 \<mapsto> \<lparr>sh_generation = g, sh_index = 0, sh_next_free = None\<rparr>]\<rparr>"

definition demo_sys :: "u64 \<Rightarrow> u64 \<Rightarrow> ntt_timer_heap \<Rightarrow> u32 \<times> u64 \<Rightarrow> bool \<Rightarrow> ntt_timer_service \<Rightarrow> timer_sys" where
  "demo_sys g refs timers reg self sv = \<lparr>tm_slab = demo_slab g, tm_service = sv,
     tm_queues = (\<lambda>_. queue_timers_init\<lparr>qt_refs := 0\<rparr>)(0 := \<lparr>qt_refs = refs, qt_timers = timers, qt_reg_gen = fst reg,
       qt_reg_deadline = snd reg, qt_self_ref = self, qt_tombstones = 0\<rparr>)\<rparr>"

definition any_time :: "u64 \<Rightarrow> u64 \<Rightarrow> bool" where
  "any_time sec nsec \<longleftrightarrow> True"

text \<open>The service after the queue has registered for time 5.\<close>

definition demo_svc :: ntt_timer_service where
  "demo_svc = \<lparr>sv_queues = \<lparr>qh_elems = Some \<lparr>qe_deadline = 5, qe_index = 0, qe_generation = 2\<rparr> # replicate 7 None,
     qh_size = 1, qh_tombstones = 0, qh_capacity = 8\<rparr>, sv_armed = 5, sv_timerfd = Some (0, 5)\<rparr>"

text \<open>The states of the run.\<close>

definition demo_state :: "timer_sys \<Rightarrow> q_ctx \<Rightarrow> bool list \<Rightarrow> tm_state" where
  "demo_state sys c ts = \<lparr>tx_sys = sys, tx_ctx = (\<lambda>_. Away)(0 := c), tx_svc = SvcFree, tx_batch = {#},
     tx_tasks = (\<lambda>_. [])(0 := ts), tx_user = (\<lambda>_. 0)(0 := 1)\<rparr>"

definition demo_armed :: tm_state where
  "demo_armed = demo_state (demo_sys 2 3 one_timer (2, 5) True demo_svc) (Inside None PIdle) [False]"

section \<open>A run to evaluate on\<close>

lemma demo_block [simp]: "ntt_slab_block_of 0 = 0" "ntt_slab_block_first 0 = 0" "NTT_SLAB_CAPACITY \<noteq> 0"
  "apart_alloc 0 n = Some 1099511627776" "NTT_SLAB_FULL_BLOCKS \<noteq> 0" "unat NTT_SLAB_BLOCKS = 27"
  by (simp_all add: apart_alloc_def) code_simp+

lemma demo_take: "ntt_slab_take apart_alloc (ntt_slab_init 200) = Some (1099511627776, demo_slab 1)"
proof -
  let ?s = "(ntt_slab_init 200)\<lparr>sl_blocks := 1099511627776 # replicate 26 NULL, sl_block_cnt := 1\<rparr>"
  have blocks: "replicate 27 NULL = NULL # replicate 26 NULL" by (simp only: numeral_eq_Suc pred_numeral_simps replicate_Suc) 
  have "slab_add_block apart_alloc (ntt_slab_init 200) 0 = Some ?s"
    by (simp add: slab_add_block_def ntt_slab_init_def blocks Let_def)
  then show ?thesis
    by (simp add: ntt_slab_take_def Let_def ntt_slab_fresh_at_def slab_block_base_def ntt_slab_init_def demo_slab_def)
qed

lemma demo_gen: "ntt_queue_timer_generation (demo_slab g) 0 = Some (ucast g)"
  by (simp add: ntt_queue_timer_generation_def ntt_slab_generation_def ntt_slab_fresh_at_def slab_block_base_def
      Let_def demo_slab_def)

lemma demo_retire: "ntt_queue_retire_timer_generation (demo_slab g) 0 = Some (ucast g + 1, demo_slab (g + 1))"
  by (simp add: ntt_queue_retire_timer_generation_def ntt_slab_retire_def ntt_slab_fresh_at_def slab_block_base_def
      Let_def demo_slab_def)

lemma demo_set_queue:
  "set_queue 0 f (demo_sys g refs timers reg self sv) = \<lparr>tm_slab = demo_slab g, tm_service = sv,
     tm_queues = (\<lambda>_. queue_timers_init\<lparr>qt_refs := 0\<rparr>)(0 := f \<lparr>qt_refs = refs, qt_timers = timers, qt_reg_gen = fst reg,
       qt_reg_deadline = snd reg, qt_self_ref = self, qt_tombstones = 0\<rparr>)\<rparr>"
  by (simp add: set_queue_def demo_sys_def)

text \<open>The calls of the run.\<close>

lemma demo_calls:
  "queue_create apart_alloc (tx_sys (tm_init 200)) =
     Some (0, demo_sys 1 1 ntt_timer_heap_init (0, UINT64_MAX) False ntt_timer_service_init)"
  "queue_ref 0 (demo_sys g 1 timers reg self sv) = demo_sys g 2 timers reg self sv"
  "queue_arm debug_env mem0 0 5 64 (demo_sys g refs ntt_timer_heap_init reg self sv) =
     Some (\<lparr>tag_index = 0, tag_version = 1\<rparr>, demo_sys g refs one_timer reg self sv)"
  "sync_look debug_env 0 (demo_sys 1 2 one_timer (0, UINT64_MAX) False sv) =
     Some (False, Some 5, demo_sys 1 2 one_timer (0, UINT64_MAX) False sv)"
  "sync_decide debug_env 0 False (Some 5) (demo_sys 1 2 one_timer (0, UINT64_MAX) False sv) =
     Some (Some (SyncRegister 2 5 0), demo_sys 2 3 one_timer (2, 5) True sv)"
  "sync_register debug_env any_time 0 2 5 0 (demo_sys 2 3 one_timer (2, 5) True ntt_timer_service_init) =
     Some (demo_sys 2 3 one_timer (2, 5) True demo_svc)"
proof -
  show "queue_create apart_alloc (tx_sys (tm_init 200)) =
     Some (0, demo_sys 1 1 ntt_timer_heap_init (0, UINT64_MAX) False ntt_timer_service_init)"
    by (simp add: queue_create_def tm_init_def demo_take ntt_slab_index_def set_queue_def demo_sys_def queue_timers_init_def)
      (simp add: demo_slab_def)
  show "queue_ref 0 (demo_sys g 1 timers reg self sv) = demo_sys g 2 timers reg self sv"
    by (simp add: queue_ref_def demo_set_queue) (simp add: demo_sys_def)
  show "queue_arm debug_env mem0 0 5 64 (demo_sys g refs ntt_timer_heap_init reg self sv) =
     Some (\<lparr>tag_index = 0, tag_version = 1\<rparr>, demo_sys g refs one_timer reg self sv)"
    by (simp add: queue_arm_def demo_set_queue) (simp add: demo_sys_def one_timer_pushed)
  have "ntt_timer_heap_peek debug_env one_timer = Some (Some 5, one_timer)" by code_simp
  then show "sync_look debug_env 0 (demo_sys 1 2 one_timer (0, UINT64_MAX) False sv) =
     Some (False, Some 5, demo_sys 1 2 one_timer (0, UINT64_MAX) False sv)"
    by (simp add: sync_look_def demo_set_queue) (simp add: demo_sys_def demo_gen)
  show "sync_decide debug_env 0 False (Some 5) (demo_sys 1 2 one_timer (0, UINT64_MAX) False sv) =
     Some (Some (SyncRegister 2 5 0), demo_sys 2 3 one_timer (2, 5) True sv)"
    by (simp add: sync_decide_def sync_hold_def queue_ref_def demo_set_queue) 
      (simp add: demo_sys_def demo_retire set_queue_def Let_def)
  have "ntt_timer_service_register debug_env any_time (demo_slab 2) ntt_timer_service_init 0 2 5 0 = Some demo_svc" by code_simp
  then show "sync_register debug_env any_time 0 2 5 0 (demo_sys 2 3 one_timer (2, 5) True ntt_timer_service_init) =
     Some (demo_sys 2 3 one_timer (2, 5) True demo_svc)"
    by (simp add: sync_register_def demo_sys_def)
qed

lemma demo_machine_ok: "machine_ok debug_env apart_alloc any_time 200"
  using apart_alloc_ok slab0_stride by (simp add: machine_ok_def settime_ok_def any_time_def slab0_def)

lemma vacant_small: "versions_small ntt_timer_heap_init"
  by (simp add: versions_small_def th_armed_init)

lemma one_timer_small: "versions_small one_timer"
  using one_timer_ok by (simp add: versions_small_def th_ok_def)

lemma demo_limits:
  assumes "unat g < 1000" "unat refs < 1000" "versions_small timers"
    and "unat (qh_size (sv_queues sv)) < 1000"
  shows "within_limits (demo_state (demo_sys g refs timers reg self sv) c ts)"
proof -
  have "unat i = 0 \<longleftrightarrow> i = 0" for i :: u32 by simp
  then have "gens_small (demo_slab g)"
    using assms(1) by (simp add: gens_small_def demo_slab_def slab_gen_def slot_addr_def ntt_slab_fresh_at_def
        slab_block_base_def Let_def)
  then show ?thesis
    using assms vacant_small
    by (simp add: within_limits_def demo_state_def demo_sys_def refs_small_def queue_timers_init_def QH_MAX_def slab_room_def demo_slab_def)
qed

lemma start_limits: "within_limits (tm_init 200)"
  using slab0_stride vacant_small
  by (simp add: within_limits_def tm_init_def gens_small_def refs_small_def queue_timers_init_def QH_MAX_def slab_room_def
      slab0_def ntt_timer_service_init_def ntt_queue_heap_init_def) (simp add: ntt_slab_init_def)

lemma demo_timers: "qt_timers (tm_queues (demo_sys g refs timers reg self sv) 0) = timers"
  by (simp add: demo_sys_def)

lemma demo_armed_reached: "tm_reachable debug_env apart_alloc any_time 200 demo_armed"
proof -
  let ?sys = "\<lambda>refs timers. demo_sys 1 refs timers (0, UINT64_MAX) False ntt_timer_service_init"
  let ?R = "tm_reachable debug_env apart_alloc any_time 200"
  have lim: "within_limits (demo_state (?sys refs timers) c ts)" if "unat refs < 1000" "versions_small timers" for refs timers c ts
    by (rule demo_limits) (use that in \<open>auto simp: ntt_timer_service_init_def ntt_queue_heap_init_def\<close>)
  have l2: "within_limits (demo_state (?sys 2 ntt_timer_heap_init) c ts)" "within_limits (demo_state (?sys 2 one_timer) c ts)" for c ts
    by (rule lim, simp_all add: vacant_small one_timer_small)+
  have "?R (demo_state (?sys 1 ntt_timer_heap_init) Away [])"
    using tm_next [OF tm_start st_create [OF start_limits demo_calls(1)]]
    by (simp add: demo_state_def) (simp add: tm_init_def const_upd)
  then have "?R (push_drain 0 False (demo_state (?sys 1 ntt_timer_heap_init) Away []))"
    by (rule tm_next [OF _ st_push]) (use lim vacant_small in \<open>auto simp: demo_state_def\<close>)
  then have "?R (demo_state (?sys 2 ntt_timer_heap_init) Away [False])"
    by (simp add: push_drain_def demo_state_def demo_calls(2))
  from tm_next [OF this st_begin [OF l2(1), where i = 0 and drain = False and rest = "[]"]]
  have "?R (demo_state (?sys 2 ntt_timer_heap_init) (Inside None PIdle) [False])" by (simp add: demo_state_def)
  from tm_next [OF this st_arm [OF l2(1), where i = 0 and drain = None and task = 64 and m = mem0 and deadline = 5]] demo_calls(3)
  have "?R (demo_state (?sys 2 one_timer) (Inside None PChanged) [False])"
    by (simp add: demo_state_def demo_timers)
  from tm_next [OF this st_look [OF l2(2), where i = 0 and drain = None and registered = False]] demo_calls(4)
  have "?R (demo_state (?sys 2 one_timer) (Inside None (PSync (SyncLooked False (Some 5)))) [False])"
    by (simp add: demo_state_def)
  from tm_next [OF this st_decide [OF l2(2), where i = 0 and drain = None and registered = False and deadline = "Some 5"]] demo_calls(5)
  have "?R (demo_state (demo_sys 2 3 one_timer (2, 5) True ntt_timer_service_init) (Inside None (PSync (SyncRegister 2 5 0))) [False])"
    by (simp add: demo_state_def)
  moreover have "within_limits (demo_state (demo_sys 2 3 one_timer (2, 5) True ntt_timer_service_init) c ts)" for c ts
    by (rule demo_limits) (use one_timer_small in \<open>auto simp: ntt_timer_service_init_def ntt_queue_heap_init_def\<close>)
  ultimately have "?R (demo_state (demo_sys 2 3 one_timer (2, 5) True ntt_timer_service_init)
      (Inside None (PSync (SyncRegister 2 5 0))) [False])" "within_limits (demo_state (demo_sys 2 3 one_timer (2, 5) True
      ntt_timer_service_init) (Inside None (PSync (SyncRegister 2 5 0))) [False])" by blast+
  from tm_next [OF this(1) st_register [OF this(2), where i = 0 and drain = None and g = 2 and d = 5 and t = 0]] demo_calls(6)
  show ?thesis by (simp add: demo_armed_def demo_state_def)
qed

section \<open>The state at the end of the run\<close>

lemma demo_inv: "tm_inv apart_alloc demo_armed"
  by (rule machine_inv [OF demo_machine_ok demo_armed_reached])

lemma demo_final_limits: "within_limits demo_armed"
  unfolding demo_armed_def by (rule demo_limits) (use one_timer_small in \<open>simp_all add: demo_svc_def\<close>)

lemma demo_svc_entries: "sv_entries demo_svc = [\<lparr>qe_deadline = 5, qe_index = 0, qe_generation = 2\<rparr>]"
  by (simp add: sv_entries_def demo_svc_def)

lemma demo_gen_of: "gen_of (demo_slab g) i = (if i = 0 then unat g else 0)"
proof -
  have "unat i = 0 \<longleftrightarrow> i = 0" by simp
  then show ?thesis
    by (auto simp: gen_of_def demo_slab_def slab_gen_def slot_addr_def ntt_slab_fresh_at_def slab_block_base_def Let_def)
qed

lemma demo_sync_pre: "sync_pre apart_alloc 0 (tx_sys demo_armed)"
proof -
  have "sys_ok apart_alloc (tx_sys demo_armed)" "svc_inv SvcFree (tx_sys demo_armed)"
    using tm_invD(1,2) [OF demo_inv] by (simp_all add: demo_armed_def demo_state_def)
  moreover have "\<exists>e \<in> set (sv_entries (tm_service (tx_sys demo_armed))). reg_entry 0 (view (tx_sys demo_armed) 0) e"
    by (simp add: demo_armed_def demo_state_def demo_sys_def demo_svc_entries reg_entry_def view_simps)
  ultimately show ?thesis
    using within_limitsD(1,2,4) [OF demo_final_limits]
    by (simp add: sync_pre_def) (simp add: demo_armed_def demo_state_def demo_sys_def view_simps)
qed

lemma demo_room: "th_room one_timer"
  by code_simp

lemma demo_aged: "aged (tx_sys demo_armed)" "wake_room (tx_sys demo_armed) 16"
  by (auto simp: aged_def wake_room_def demo_armed_def demo_state_def demo_sys_def demo_svc_entries demo_gen_of view_simps
      queue_timers_init_def)

section \<open>Properties\<close>

text \<open>
  C1. An armed timer is never forgotten. In every reachable state of a loop, however the contexts of its queues, the
  worker in the timer service and the workers that wake queues interleave, a queue that has a timer armed
  and is not in the middle of changing its timers holds a reference to itself, and either it is about to be woken - the
  task that drains its timers waits in it, or the service or a worker is about to give it one - or the
  heap of the service has a standing registration of it with a deadline that is not later than that of the timer. And
  while nobody has the service locked, the timer descriptor is set to a time that is not later either.
\<close>

theorem timer_never_forgotten:
  assumes "machine_ok env aligned settime n" "tm_reachable env aligned settime n S"
    and "tx_ctx S i = Away \<or> tx_ctx S i = Inside None PIdle"
    and "th_armed (qt_timers (tm_queues (tx_sys S) i)) tag = Some (d, q, k)"
  shows "qt_self_ref (tm_queues (tx_sys S) i) \<and> qt_refs (tm_queues (tx_sys S) i) \<noteq> 0 \<and>
    (pending S i \<or> (\<exists>e \<in> set (sv_entries (tm_service (tx_sys S))).
       qe_index e = i \<and> stands (tm_slab (tx_sys S)) e \<and> qe_deadline e \<le> d \<and>
       (tx_svc S = SvcFree \<longrightarrow> sv_armed (tm_service (tx_sys S)) \<le> qe_deadline e \<and>
          (sv_armed (tm_service (tx_sys S)) \<noteq> UINT64_MAX \<longrightarrow>
             sv_timerfd (tm_service (tx_sys S)) = Some (timerfd_at (sv_armed (tm_service (tx_sys S))))))))"
proof -
  have inv: "tm_inv aligned S" by (rule machine_inv [OF assms(1,2)])
  have armed: "v_armed (view (tx_sys S) i) tag = Some (d, q, k)" using assms(4) by (simp add: view_simps)
  note c = rested_covered [OF inv assms(3) armed]
  have self: "qt_self_ref (tm_queues (tx_sys S) i)" using c(1) by (simp add: view_simps)
  then have "holders S i \<noteq> 0" by (simp add: holders_def view_simps)
  then have refs: "qt_refs (tm_queues (tx_sys S) i) \<noteq> 0" using tm_invD(3) [OF inv, of i] by (auto simp: view_simps)
  have "\<forall>e \<in> set (sv_entries (tm_service (tx_sys S))). tx_svc S = SvcFree \<longrightarrow> sv_armed (tm_service (tx_sys S)) \<le> qe_deadline e"
    using tm_invD(2) [OF inv] by auto
  moreover have "sv_armed (tm_service (tx_sys S)) \<noteq> UINT64_MAX \<longrightarrow>
      sv_timerfd (tm_service (tx_sys S)) = Some (timerfd_at (sv_armed (tm_service (tx_sys S))))"
    using sys_okD(2) [OF tm_invD(1) [OF inv]] by (simp add: svc_ok_def)
  ultimately show ?thesis using c(2) self refs by blast
qed

theorem timer_never_forgotten_witness:
  "qt_self_ref (tm_queues (tx_sys demo_armed) 0) \<and> qt_refs (tm_queues (tx_sys demo_armed) 0) \<noteq> 0 \<and>
   (pending demo_armed 0 \<or> (\<exists>e \<in> set (sv_entries demo_svc). qe_index e = 0 \<and> stands (demo_slab 2) e \<and> qe_deadline e \<le> 5 \<and>
     sv_armed demo_svc \<le> qe_deadline e \<and> sv_timerfd demo_svc = Some (timerfd_at (sv_armed demo_svc))))"
proof -
  have "tx_ctx demo_armed 0 = Inside None PIdle" "tx_svc demo_armed = SvcFree" "tm_service (tx_sys demo_armed) = demo_svc"
    "tm_slab (tx_sys demo_armed) = demo_slab 2" "sv_armed demo_svc \<noteq> UINT64_MAX"
    by (simp_all add: demo_armed_def demo_state_def demo_sys_def demo_svc_def UINT64_MAX_def)
  moreover have "th_armed (qt_timers (tm_queues (tx_sys demo_armed) 0)) \<lparr>tag_index = 0, tag_version = 1\<rparr> = Some (5, 0, 64)"
    using one_timer_armed by (simp add: demo_armed_def demo_state_def demo_timers)
  ultimately show ?thesis using timer_never_forgotten [OF demo_machine_ok demo_armed_reached] by metis
qed

text \<open>
  C33. No assertion fails on the way. In every reachable state within the limits of the types, the reference
  counter of a queue counts exactly the users, the queue itself if it has armed timers, its tasks, and what the service
  and the waking workers hold; and every call that is about to be made returns, in a debug build too:
  the last reference to a queue is never dropped while a timer is armed, and a queue that is woken is there.
\<close>

theorem timer_steps_defined:
  assumes "machine_ok env aligned settime n" "tm_reachable env aligned settime n S" "within_limits S"
  shows "unat (qt_refs (tm_queues (tx_sys S) i)) = holders S i
    \<and> (tx_user S i > 0 \<longrightarrow> queue_unref env i (tx_sys S) \<noteq> None)
    \<and> (tx_ctx S i = Inside None PIdle \<longrightarrow> finish_task env i S \<noteq> None)
    \<and> (tx_ctx S i = Inside (Some now) PIdle \<longrightarrow> timer_fire_next env now (qt_timers (tm_queues (tx_sys S) i)) \<noteq> None)
    \<and> (tx_ctx S i = Inside drain PChanged \<longrightarrow> sync_look env i (tx_sys S) \<noteq> None)
    \<and> (tx_ctx S i = Inside drain (PSync (SyncLooked r dl)) \<longrightarrow> sync_decide env i r dl (tx_sys S) \<noteq> None)
    \<and> (tx_ctx S i = Inside drain (PSync (SyncRegister g d t)) \<and> tx_svc S = SvcFree \<longrightarrow>
         sync_register env settime i g d t (tx_sys S) \<noteq> None)
    \<and> (tx_svc S = SvcTake now batch \<longrightarrow> service_pop env now (tx_sys S) \<noteq> None \<and> service_rearm settime (tx_sys S) \<noteq> None)
    \<and> (tx_svc S = SvcTaken now batch e \<longrightarrow> service_upgrade env e (tx_sys S) \<noteq> None)
    \<and> (tx_svc S = SvcHeld now batch e \<longrightarrow> service_compare env e (tx_sys S) \<noteq> None)
    \<and> (tx_svc S = SvcChecked now batch i \<longrightarrow> service_retire i (tx_sys S) \<noteq> None)
    \<and> (i \<in># tx_batch S \<longrightarrow> wake_queue env i S \<noteq> None)"
proof -
  have inv: "tm_inv aligned S" by (rule machine_inv [OF assms(1,2)])
  have ok: "env_ok env" "settime_ok settime" using assms(1) by (auto simp: machine_ok_def)
  note lim = assms(3)
  show ?thesis
  proof (intro conjI impI)
    show "unat (qt_refs (tm_queues (tx_sys S) i)) = holders S i" using tm_invD(3) [OF inv, of i] by (simp add: view_simps)
    show "queue_unref env i (tx_sys S) \<noteq> None" if "tx_user S i > 0" by (rule inv_release [OF inv lim that, of env]) simp
    show "finish_task env i S \<noteq> None" if "tx_ctx S i = Inside None PIdle" by (rule inv_finish [OF inv lim that, of env]) simp
    show "timer_fire_next env now (qt_timers (tm_queues (tx_sys S) i)) \<noteq> None" if "tx_ctx S i = Inside (Some now) PIdle"
      by (rule inv_fire [OF ok(1) inv lim that]) simp
    show "sync_look env i (tx_sys S) \<noteq> None" if "tx_ctx S i = Inside drain PChanged" by (rule inv_look [OF ok(1) inv that]) simp
    show "sync_decide env i r dl (tx_sys S) \<noteq> None" if "tx_ctx S i = Inside drain (PSync (SyncLooked r dl))"
      by (rule inv_decide [OF inv lim that, of env]) simp
    show "sync_register env settime i g d t (tx_sys S) \<noteq> None"
      if "tx_ctx S i = Inside drain (PSync (SyncRegister g d t)) \<and> tx_svc S = SvcFree"
      by (rule inv_register [OF ok inv lim conjunct1 [OF that] conjunct2 [OF that]]) simp
    show "service_pop env now (tx_sys S) \<noteq> None" if "tx_svc S = SvcTake now batch" by (rule inv_pop [OF inv that, of env]) simp
    show "service_rearm settime (tx_sys S) \<noteq> None" if "tx_svc S = SvcTake now batch" by (rule inv_unlock [OF ok(2) inv that]) simp
    show "service_upgrade env e (tx_sys S) \<noteq> None" if "tx_svc S = SvcTaken now batch e" by (rule inv_upgrade [OF inv lim that, of env]) simp
    show "service_compare env e (tx_sys S) \<noteq> None" if "tx_svc S = SvcHeld now batch e" by (rule inv_compare [OF inv lim that, of env]) simp
    show "service_retire i (tx_sys S) \<noteq> None" if "tx_svc S = SvcChecked now batch i" by (rule inv_retire [OF inv lim that]) simp
    show "wake_queue env i S \<noteq> None" if "i \<in># tx_batch S" by (rule inv_wake [OF inv lim that, of env]) simp
  qed
qed

theorem timer_steps_defined_witness: "unat (qt_refs (tm_queues (tx_sys demo_armed) 0)) = holders demo_armed 0 \<and>
    queue_unref debug_env 0 (tx_sys demo_armed) \<noteq> None \<and> finish_task debug_env 0 demo_armed \<noteq> None"
  using timer_steps_defined [OF demo_machine_ok demo_armed_reached demo_final_limits, of 0]
  by (simp add: demo_armed_def demo_state_def)

text \<open>
  Arming a timer from the context of a queue returns a fresh tag, adds exactly that timer to the armed ones, and leaves
  the queue registered: it holds itself, the service has a standing registration with a deadline that is not later than
  any of its timers, and the descriptor is set to no later.
\<close>

theorem timer_arm_registers:
  assumes "env_ok env" "settime_ok settime" "sync_pre aligned i s" "th_room (qt_timers (tm_queues s i))"
    and "task \<noteq> NULL" "ntt_task_unlinked m task"
  shows "\<exists>tag s'. ntt_self_wakeup_at env settime m i deadline task s = Some (tag, s') \<and> sys_ok aligned s' \<and> registered i s' \<and>
    v_armed (view s i) tag = None \<and>
    v_armed (view s' i) = (v_armed (view s i))(tag \<mapsto> (deadline, th_seq_next (qt_timers (tm_queues s i)), task))"
  by (rule wakeup_at_registers [OF assms])

theorem timer_arm_registers_witness:
  "\<exists>tag s'. ntt_self_wakeup_at debug_env any_time mem0 0 3 128 (tx_sys demo_armed) = Some (tag, s') \<and>
    sys_ok apart_alloc s' \<and> registered 0 s'"
proof -
  have "th_room (qt_timers (tm_queues (tx_sys demo_armed) 0))"
    using demo_room by (simp add: demo_armed_def demo_state_def demo_timers)
  moreover have "settime_ok any_time" by (simp add: settime_ok_def any_time_def)
  ultimately show ?thesis
    using timer_arm_registers [OF debug_env_ok _ demo_sync_pre, of any_time 128 mem0 3] by fastforce
qed

text \<open>
  C36. A pass of the service under its lock returns and takes at most 16 queues. Each queue taken had a standing registration whose
  deadline has passed, is taken once, is held by one more reference, and has its registration retired. No other registration
  that stands is lost unless its queue is gone, and if fewer than 16 are taken no expired registration that stands is
  left: every queue that had one has been taken.
\<close>

theorem service_batch_complete:
  assumes "sys_ok aligned s" "aged s" "wake_room s 16"
  shows "\<exists>woken s'. service_batch env now [] s = Some (woken, s') \<and> length woken \<le> NTT_TIMER_SERVICE_BATCH \<and> took now s woken s' \<and>
    (length woken < NTT_TIMER_SERVICE_BATCH \<longrightarrow>
       (\<forall>e \<in> set (sv_entries (tm_service s')). stands (tm_slab s') e \<longrightarrow> now < qe_deadline e) \<and>
       (\<forall>e \<in> set (sv_entries (tm_service s)). stands (tm_slab s) e \<longrightarrow> qe_deadline e \<le> now \<longrightarrow>
          v_refs (view s (qe_index e)) \<noteq> 0 \<longrightarrow> qe_index e \<in> set woken))"
proof -
  obtain woken s' where w: "service_batch env now [] s = Some (woken, s')" "took now s woken s'" "length woken \<le> 16"
    "length woken < 16 \<longrightarrow> (\<forall>e \<in> set (sv_entries (tm_service s')). stands (tm_slab s') e \<longrightarrow> now < qe_deadline e)"
    using service_batch_takes [OF assms(1,2), of "[]" env now] assms(3) by auto
  have "qe_index e \<in> set woken" if "length woken < 16" "e \<in> set (sv_entries (tm_service s))" "stands (tm_slab s) e"
    "qe_deadline e \<le> now" "v_refs (view s (qe_index e)) \<noteq> 0" for e
  proof (rule ccontr)
    assume n: "qe_index e \<notin> set woken"
    then have "e \<in> set (sv_entries (tm_service s'))" using tookD(4) [OF w(2)] that by blast
    moreover have "stands (tm_slab s') e" using w(2) n that(3) by (simp add: took_def stands_def)
    ultimately show False using w(4) that by (meson leD)
  qed
  then show ?thesis using w by (auto simp: NTT_TIMER_SERVICE_BATCH_def)
qed

theorem service_batch_complete_witness:
  "\<exists>woken s'. service_batch debug_env 7 [] (tx_sys demo_armed) = Some (woken, s') \<and> took 7 (tx_sys demo_armed) woken s' \<and>
    (length woken < NTT_TIMER_SERVICE_BATCH \<longrightarrow> 0 \<in> set woken)"
proof -
  have "\<lparr>qe_deadline = 5, qe_index = 0, qe_generation = 2\<rparr> \<in> set (sv_entries (tm_service (tx_sys demo_armed)))"
    "stands (tm_slab (tx_sys demo_armed)) \<lparr>qe_deadline = 5, qe_index = 0, qe_generation = 2\<rparr>" "v_refs (view (tx_sys demo_armed) 0) \<noteq> 0"
    by (simp_all add: demo_armed_def demo_state_def demo_sys_def demo_svc_entries stands_def demo_gen_of view_simps)
  then show ?thesis
    using service_batch_complete [OF tm_invD(1) [OF demo_inv] demo_aged, of debug_env 7] by fastforce
qed

end
