(* ===== verification/Timer_End_Props.thy ===== *)
theory Timer_End_Props
  imports Timer_End Timer_Props
begin

text \<open>
  The end of the timer service, with an instance on a run in which a queue arms a timer, cancels it, and is dropped while
  its registration is still in the heap of the service.
\<close>

section \<open>A run to the end of a queue\<close>

definition no_timer :: ntt_timer_heap where
  "no_timer = (case ntt_timer_heap_cancel debug_env one_timer \<lparr>tag_index = 0, tag_version = 1\<rparr> of Some (_, h) \<Rightarrow> h | None \<Rightarrow> one_timer)"

definition demo_dropped :: "u64 \<Rightarrow> timer_sys" where
  "demo_dropped refs = set_queue 0 (\<lambda>q. q\<lparr>qt_tombstones := 1\<rparr>) (demo_sys 3 refs no_timer (2, 5) False demo_svc)"

lemma no_timer_cancelled:
  "ntt_timer_heap_cancel debug_env one_timer \<lparr>tag_index = 0, tag_version = 1\<rparr> = Some (ntt_task_destroy_inl 64, no_timer)"
  "th_armed no_timer = Map.empty"
proof -
  have "th_armed one_timer = [\<lparr>tag_index = 0, tag_version = 1\<rparr> \<mapsto> (5, 0, 64)]"
    using push_armed [OF debug_env_ok th_inv_init init_room, of 64 mem0 5] one_timer_pushed
    by (simp add: th_armed_init th_seq_next_init)
  with cancel_armed [OF debug_env_ok one_timer_inv one_timer_armed] show
    "ntt_timer_heap_cancel debug_env one_timer \<lparr>tag_index = 0, tag_version = 1\<rparr> = Some (ntt_task_destroy_inl 64, no_timer)"
    "th_armed no_timer = Map.empty"
    by (auto simp: no_timer_def)
qed

lemma no_timer_peek: "ntt_timer_heap_peek debug_env no_timer = Some (None, no_timer)"
  by code_simp

lemma demo_end_calls:
  "queue_disarm debug_env 0 \<lparr>tag_index = 0, tag_version = 1\<rparr> (demo_sys 2 3 one_timer (2, 5) True demo_svc) =
     Some (ntt_task_destroy_inl 64, demo_sys 2 3 no_timer (2, 5) True demo_svc)"
  "sync_look debug_env 0 (demo_sys 2 3 no_timer (2, 5) True demo_svc) = Some (True, None, demo_sys 2 3 no_timer (2, 5) True demo_svc)"
  "sync_decide debug_env 0 True None (demo_sys 2 3 no_timer (2, 5) True demo_svc) = Some (None, demo_dropped 2)"
  "queue_unref debug_env 0 (demo_dropped 2) = Some (demo_dropped 1)"
proof -
  show "queue_disarm debug_env 0 \<lparr>tag_index = 0, tag_version = 1\<rparr> (demo_sys 2 3 one_timer (2, 5) True demo_svc) =
     Some (ntt_task_destroy_inl 64, demo_sys 2 3 no_timer (2, 5) True demo_svc)"
    by (simp add: queue_disarm_def demo_set_queue demo_timers no_timer_cancelled(1)) (simp add: demo_sys_def)
  show "sync_look debug_env 0 (demo_sys 2 3 no_timer (2, 5) True demo_svc) = Some (True, None, demo_sys 2 3 no_timer (2, 5) True demo_svc)"
    by (simp add: sync_look_def demo_set_queue) (simp add: demo_sys_def demo_gen no_timer_peek)
  show "sync_decide debug_env 0 True None (demo_sys 2 3 no_timer (2, 5) True demo_svc) = Some (None, demo_dropped 2)"
    by (simp add: sync_decide_def sync_drop_def demo_sys_def demo_retire set_queue_def Let_def queue_unref_def demo_dropped_def)
  show "queue_unref debug_env 0 (demo_dropped 2) = Some (demo_dropped 1)"
    by (simp add: demo_sys_def set_queue_def Let_def queue_unref_def demo_dropped_def)
qed

lemma demo_end_limits:
  "within_limits (demo_state (demo_sys 2 3 no_timer (2, 5) True demo_svc) c ts)"
  "within_limits (demo_state (demo_dropped 2) c ts)" "within_limits (demo_state (demo_dropped 1) c ts)"
proof -
  have v: "versions_small no_timer" by (simp add: versions_small_def no_timer_cancelled(2))
  have lim: "within_limits (demo_state (demo_sys g refs no_timer (2, 5) self demo_svc) c ts)" if "unat g < 1000" "unat refs < 1000" for g refs self
    by (rule demo_limits [OF that v]) (simp add: demo_svc_def)
  show "within_limits (demo_state (demo_sys 2 3 no_timer (2, 5) True demo_svc) c ts)" by (rule lim) simp_all
  have "within_limits (demo_state (demo_dropped refs) c ts)" if "unat refs < 1000" for refs
    using lim [of 3 refs False] that by (auto simp: demo_dropped_def within_limits_def demo_state_def refs_small_def set_queue_def fun_upd_def split: if_splits)
  then show "within_limits (demo_state (demo_dropped 2) c ts)" "within_limits (demo_state (demo_dropped 1) c ts)" by simp_all
qed

lemma demo_dropped_reached: "tm_reachable debug_env apart_alloc any_time 200 (demo_state (demo_dropped 1) Away [])"
proof -
  let ?R = "tm_reachable debug_env apart_alloc any_time 200" and ?sys = "demo_sys 2 3 no_timer (2, 5) True demo_svc"
  have "th_armed one_timer \<lparr>tag_index = 0, tag_version = 1\<rparr> \<noteq> None" by (simp add: one_timer_armed)
  with tm_next [OF demo_armed_reached st_cancel [OF demo_final_limits, where i = 0 and drain = None and tag = "\<lparr>tag_index = 0, tag_version = 1\<rparr>"]]
    demo_end_calls(1)
  have "?R (demo_state ?sys (Inside None PChanged) [False])" by (simp add: demo_armed_def demo_state_def demo_timers)
  from tm_next [OF this st_look [OF demo_end_limits(1), where i = 0 and drain = None and registered = True and deadline = None]] demo_end_calls(2)
  have "?R (demo_state ?sys (Inside None (PSync (SyncLooked True None))) [False])" by (simp add: demo_state_def)
  from tm_next [OF this st_decide [OF demo_end_limits(1), where i = 0 and drain = None and registered = True and deadline = None]] demo_end_calls(3)
  have "?R (demo_state (demo_dropped 2) (Inside None PIdle) [False])" by (simp add: demo_state_def)
  from tm_next [OF this st_finish [OF demo_end_limits(2), where i = 0]] demo_end_calls(4)
  show ?thesis by (simp add: demo_state_def finish_task_def Let_def)
qed

section \<open>Properties\<close>

text \<open>
  C17. No registration outlives its queue. In every reachable state of a loop, an entry of the heap of the timer service that stands
  is one of a queue that still has references; so once all queues are gone, whatever entries are left in the heap,
  none is live, and the timer service ends without an abort.
\<close>

theorem timer_service_ends:
  assumes "machine_ok env aligned settime n" "tm_reachable env aligned settime n S"
  shows "(\<forall>e \<in> set (sv_entries (tm_service (tx_sys S))). stands (tm_slab (tx_sys S)) e \<longrightarrow> qt_refs (tm_queues (tx_sys S) (qe_index e)) \<noteq> 0) \<and>
    ((\<forall>i. qt_refs (tm_queues (tx_sys S) i) = 0) \<longrightarrow>
      ntt_queue_heap_has_live env (sv_queues (tm_service (tx_sys S))) (tm_slab (tx_sys S)) = Some False \<and>
      ntt_timer_service_deinit env (tm_service (tx_sys S)) (tm_slab (tx_sys S)) \<noteq> None)"
proof -
  have ok: "sys_ok aligned (tx_sys S)" by (rule tm_invD(1) [OF machine_inv [OF assms]])
  have y: "young (tx_sys S)" using tm_reachable_young [OF assms(2)] assms(1) by (simp add: machine_ok_def)
  have "qt_refs (tm_queues (tx_sys S) (qe_index e)) \<noteq> 0"
    if "e \<in> set (sv_entries (tm_service (tx_sys S)))" "stands (tm_slab (tx_sys S)) e" for e
    using young_stands [OF y that] by (auto simp: view_simps)
  moreover have "ntt_queue_heap_has_live env (sv_queues (tm_service (tx_sys S))) (tm_slab (tx_sys S)) = Some False \<and>
      ntt_timer_service_deinit env (tm_service (tx_sys S)) (tm_slab (tx_sys S)) \<noteq> None"
    if "\<forall>i. qt_refs (tm_queues (tx_sys S) i) = 0"
    using ended_no_live [OF ok y that, of env] by (simp add: ntt_timer_service_deinit_def ntt_assert_def)
  ultimately show ?thesis by blast
qed

theorem timer_service_ends_witness:
  "(\<exists>e \<in> set (sv_entries demo_svc). stands (demo_slab 2) e \<and> qt_refs (tm_queues (tx_sys demo_armed) (qe_index e)) \<noteq> 0) \<and>
   (\<exists>S. tm_reachable debug_env apart_alloc any_time 200 S \<and> sv_entries (tm_service (tx_sys S)) \<noteq> [] \<and>
     ntt_timer_service_deinit debug_env (tm_service (tx_sys S)) (tm_slab (tx_sys S)) \<noteq> None)"
proof -
  let ?D = "demo_state (demo_dropped 1) Away []"
  have lim: "within_limits ?D" and inv: "tm_inv apart_alloc ?D"
    by (rule demo_end_limits(3), rule machine_inv [OF demo_machine_ok demo_dropped_reached])
  have v: "v_refs (view (tx_sys ?D) 0) = 1" "v_armed (view (tx_sys ?D) 0) = Map.empty" "tm_service (tx_sys ?D) = demo_svc"
    by (simp_all add: view_simps demo_state_def demo_dropped_def demo_sys_def no_timer_cancelled(2))
  have z: "j \<noteq> 0 \<Longrightarrow> v_refs (view (tx_sys ?D) j) = 0" for j by (simp add: view_simps demo_state_def demo_dropped_def demo_sys_def)
  obtain t where t: "queue_unref debug_env 0 (tx_sys ?D) = Some t" "tm_service t = tm_service (tx_sys ?D)"
    "view t = (view (tx_sys ?D))(0 := (view (tx_sys ?D) 0)\<lparr>v_refs := v_refs (view (tx_sys ?D) 0) - 1\<rparr>)"
    by (rule queue_unref_effect [OF tm_invD(1) [OF inv] within_limitsD(1) [OF lim]]) (use v in auto)
  let ?S = "?D\<lparr>tx_sys := t, tx_user := (tx_user ?D)(0 := tx_user ?D 0 - 1)\<rparr>"
  have r: "tm_reachable debug_env apart_alloc any_time 200 ?S"
    by (rule tm_next [OF demo_dropped_reached st_release [OF lim _ t(1)]]) (simp add: demo_state_def)
  have "v_refs (view t i) = 0" for i using z by (simp add: t(3) v(1))
  then have gone: "\<forall>i. qt_refs (tm_queues (tx_sys ?S) i) = 0" by (simp add: view_simps unat_eq_zero)
  have "ntt_timer_service_deinit debug_env (tm_service (tx_sys ?S)) (tm_slab (tx_sys ?S)) \<noteq> None"
    using timer_service_ends [OF demo_machine_ok r] gone by blast
  moreover have "sv_entries (tm_service (tx_sys ?S)) \<noteq> []" by (simp add: t(2) v(3) demo_svc_entries)
  moreover have "\<exists>e \<in> set (sv_entries demo_svc). stands (demo_slab 2) e \<and> qt_refs (tm_queues (tx_sys demo_armed) (qe_index e)) \<noteq> 0"
    using timer_service_ends [OF demo_machine_ok demo_armed_reached]
    by (simp add: demo_armed_def demo_state_def demo_sys_def demo_svc_entries stands_def demo_gen_of)
  ultimately show ?thesis using r by blast
qed

end
