(* ===== verification/Loop.thy ===== *)
theory Loop
  imports Ntt_Prelude "HOL-Library.Multiset"
begin

text \<open>
  Workers and the start and the end of a loop: \<open>src/src/worker.h\<close>, \<open>src/src/worker.c\<close>, \<open>src/src/loop.h\<close>,
  \<open>src/src/loop.c\<close> and \<open>src/include/ntt/loop.h\<close>. The steps of \<open>lo_do\<close> interleave the threads of the
  workers, the work that keeps the loop running, and whoever drops the last of it.

  The local queue of a worker is given by its tasks, and a push into it with the signal it sends
  is one step; \<open>Queue\<close> takes such a push apart. The signal is blocked in a worker but while it waits for
  events, so its handler runs there only. Which thread goes on is a \<open>lo_act\<close>: \<open>lo_enabled\<close> says when it
  can, and \<open>lo_do\<close> what it does, with \<open>None\<close> for a failed assertion or the use of a \<open>NULL\<close> worker.
\<close>

section \<open>Workers\<close>

text \<open>A task of a local queue: the one that stops the worker, the part of a barrier, any other.\<close>

datatype local_task = LStop | LBarrier nat | LUser nat

text \<open>\<open>wk_tasks\<close> is the local queue, \<open>wk_signals\<close> counts the signals that are sent and not yet delivered.\<close>

record ntt_worker =
  wk_refs :: u64
  wk_tasks :: "local_task list"
  wk_signals :: nat
  wk_need_drain :: bool
  wk_stopped :: bool

definition ntt_worker_init :: ntt_worker where
  "ntt_worker_init =
     \<lparr>wk_refs = 1, wk_tasks = [], wk_signals = 0, wk_need_drain = False, wk_stopped = False\<rparr>"

text \<open>
  One signal to the thread of the worker, which has entered: the call of \<open>pthread_sigqueue\<close> is repeated while it fails with \<open>EAGAIN\<close>, and is
  taken to succeed then.
\<close>

definition ntt_worker_local_queue_wakeup :: "ntt_worker \<Rightarrow> ntt_worker" where
  "ntt_worker_local_queue_wakeup self = self\<lparr>wk_signals := wk_signals self + 1\<rparr>"

definition ntt_worker_push_task :: "ntt_worker \<Rightarrow> local_task \<Rightarrow> ntt_worker" where
  "ntt_worker_push_task self task = (
     let was_empty = (wk_tasks self = []);
         self1 = self\<lparr>wk_tasks := wk_tasks self @ [task]\<rparr>
     in if was_empty then ntt_worker_local_queue_wakeup self1 else self1)"

definition ntt_worker_acquire :: "env \<Rightarrow> ntt_worker \<Rightarrow> ntt_worker option" where
  "ntt_worker_acquire env self = (
     let prev = wk_refs self in do {
       ntt_assert env (prev \<noteq> 0);
       Some (self\<lparr>wk_refs := prev + 1\<rparr>)
     })"

text \<open>The stop task is part of the worker; pushing it asserts that it is in no list.\<close>

definition ntt_worker_release :: "env \<Rightarrow> ntt_worker \<Rightarrow> ntt_worker option" where
  "ntt_worker_release env self = (
     let prev = wk_refs self;
         self1 = self\<lparr>wk_refs := prev - 1\<rparr>
     in do {
       ntt_assert env (prev \<noteq> - 1);
       (if prev \<noteq> 1 then Some self1
        else do {
          ntt_assert env (LStop \<notin> set (wk_tasks self1));
          Some (ntt_worker_push_task self1 LStop)
        })
     })"

definition ntt_process_nttup_signal_handler :: "ntt_worker \<Rightarrow> ntt_worker" where
  "ntt_process_nttup_signal_handler self =
     self\<lparr>wk_signals := wk_signals self - 1, wk_need_drain := True\<rparr>"

definition ntt_worker_stop_task_svc :: "ntt_worker \<Rightarrow> ntt_worker" where
  "ntt_worker_stop_task_svc self = self\<lparr>wk_stopped := True\<rparr>"

section \<open>Loops\<close>

definition NTT_MAX_LOOP_WIDTH :: u32 where
  "NTT_MAX_LOOP_WIDTH = 8"

definition ntt_loop_clamp_width :: "u32 \<Rightarrow> u32" where
  "ntt_loop_clamp_width width =
     (if width = 0 then 1 else if width > NTT_MAX_LOOP_WIDTH then NTT_MAX_LOOP_WIDTH else width)"

text \<open>\<open>lo_entered\<close> says of which workers the pointer in \<open>workers\<close> is set.\<close>

record ntt_loop =
  lo_work_cnt :: u64
  lo_enter_cnt :: u32
  lo_width :: u32
  lo_entered :: "bool list"

definition ntt_loop_work_enter :: "env \<Rightarrow> ntt_loop \<Rightarrow> ntt_loop option" where
  "ntt_loop_work_enter env self = (
     let prev = lo_work_cnt self in do {
       ntt_assert env (prev > 0);
       Some (self\<lparr>lo_work_cnt := prev + 1\<rparr>)
     })"

text \<open>The first part of \<open>ntt_loop_work_leave\<close>, which says whether the workers have to be released.\<close>

definition work_drop :: "env \<Rightarrow> ntt_loop \<Rightarrow> (bool \<times> ntt_loop) option" where
  "work_drop env self = (
     let prev = lo_work_cnt self in do {
       ntt_assert env (prev > 0);
       Some (prev = 1, self\<lparr>lo_work_cnt := prev - 1\<rparr>)
     })"

text \<open>
  The last part of \<open>ntt_loop_work_leave\<close>, for one place of the array \<open>workers\<close> it has filled: the pointer is
  \<open>NULL\<close> if the worker had not entered.
\<close>

definition work_release :: "env \<Rightarrow> bool list \<Rightarrow> nat \<Rightarrow> ntt_worker \<Rightarrow> ntt_worker option" where
  "work_release env workers i worker =
     (if workers ! i then ntt_worker_release env worker
      else do { ntt_assert env False; Some worker })"

text \<open>Pushing a task to the worker at a place, whose pointer must not be \<open>NULL\<close>.\<close>

definition push_at :: "ntt_loop \<Rightarrow> nat \<Rightarrow> ntt_worker \<Rightarrow> local_task \<Rightarrow> ntt_worker option" where
  "push_at self i worker task =
     (if lo_entered self ! i then Some (ntt_worker_push_task worker task) else None)"

text \<open>The two parts of \<open>ntt_loop_worker_enter\<close>: publishing the worker, and counting it.\<close>

definition enter_publish :: "env \<Rightarrow> nat \<Rightarrow> ntt_loop \<Rightarrow> ntt_worker \<Rightarrow> (ntt_loop \<times> ntt_worker) option" where
  "enter_publish env i self worker = do {
     worker' \<leftarrow> ntt_worker_acquire env worker;
     Some (self\<lparr>lo_entered := (lo_entered self)[i := True]\<rparr>, worker')
   }"

definition enter_count :: "ntt_loop \<Rightarrow> ntt_loop" where
  "enter_count self = self\<lparr>lo_enter_cnt := lo_enter_cnt self + 1\<rparr>"

section \<open>Everything at once\<close>

text \<open>
  Where the thread of a worker is: not started, in \<open>ntt_loop_worker_enter\<close> (\<open>WEnter\<close>, \<open>WCount\<close>, \<open>WWait\<close>), about
  to release its own reference, at the head of its loop, in the service callback, back from it, with a
  task of its local queue that has run, or gone.
\<close>

datatype wk_pc = WNew | WEnter | WCount | WWait | WOwn | WTop | WSvc | WBack | WRan | WLeft

text \<open>What is recorded: a task given to a worker, a task a worker has run, the task of a barrier.\<close>

datatype lo_log = LPushed nat local_task | LRan nat local_task | LBarrierRan nat

text \<open>
  \<open>ls_boot\<close> is the work of the first queue, which only a worker can end, and \<open>ls_others\<close> counts what other
  queues, events and callers hold. Once the last work has been dropped, \<open>ls_caught\<close> is what was read from the
  array of workers, and \<open>ls_leave\<close> counts those that are released. A barrier has a counter of the workers that have
  still to run it, and a push on its way, in \<open>ls_push\<close>, has the place of the next worker.
\<close>

record loop_sys =
  ls_loop :: ntt_loop
  ls_wk :: "nat \<Rightarrow> ntt_worker"
  ls_pc :: "nat \<Rightarrow> wk_pc"
  ls_boot :: bool
  ls_others :: nat
  ls_leave :: "nat option"
  ls_caught :: "bool list"
  ls_next :: nat
  ls_refs :: "nat \<Rightarrow> int"
  ls_push :: "(nat \<times> nat) multiset"
  ls_log :: "lo_log list"
  ls_destroyed :: bool

abbreviation ls_width :: "loop_sys \<Rightarrow> nat" where
  "ls_width s \<equiv> unat (lo_width (ls_loop s))"

abbreviation goto :: "nat \<Rightarrow> wk_pc \<Rightarrow> loop_sys \<Rightarrow> loop_sys" where
  "goto i p s \<equiv> s\<lparr>ls_pc := (ls_pc s)(i := p)\<rparr>"

abbreviation set_wk :: "nat \<Rightarrow> ntt_worker \<Rightarrow> loop_sys \<Rightarrow> loop_sys" where
  "set_wk i w s \<equiv> s\<lparr>ls_wk := (ls_wk s)(i := w)\<rparr>"

abbreviation record_log :: "lo_log \<Rightarrow> loop_sys \<Rightarrow> loop_sys" where
  "record_log l s \<equiv> s\<lparr>ls_log := ls_log s @ [l]\<rparr>"

text \<open>\<open>ntt_barrier_svc\<close>: the last worker runs the task.\<close>

definition ntt_barrier_svc :: "nat \<Rightarrow> loop_sys \<Rightarrow> loop_sys" where
  "ntt_barrier_svc b s = (
     let prev = ls_refs s b;
         s1 = s\<lparr>ls_refs := (ls_refs s)(b := prev - 1)\<rparr>
     in if prev \<noteq> 1 then s1 else record_log (LBarrierRan b) s1)"

text \<open>Running the first task of the local queue of a worker.\<close>

definition run_local :: "nat \<Rightarrow> loop_sys \<Rightarrow> loop_sys option" where
  "run_local i s = (case wk_tasks (ls_wk s i) of
     [] \<Rightarrow> None
   | t # rest \<Rightarrow> (
       let s1 = record_log (LRan i t) (goto i WRan s)
       in Some (case t of
            LStop \<Rightarrow> set_wk i (ntt_worker_stop_task_svc (ls_wk s i)) s1
          | LBarrier b \<Rightarrow> ntt_barrier_svc b s1
          | LUser k \<Rightarrow> s1)))"

text \<open>The next task is taken, or the drained queue is left and the worker goes on.\<close>

definition next_local :: "nat \<Rightarrow> loop_sys \<Rightarrow> loop_sys option" where
  "next_local i s = (
     let w = (ls_wk s i)\<lparr>wk_tasks := tl (wk_tasks (ls_wk s i))\<rparr>
     in if wk_tasks w = [] then Some (set_wk i (w\<lparr>wk_need_drain := False\<rparr>) (goto i WTop s))
        else run_local i (set_wk i w (goto i WBack s)))"

text \<open>The next step of a thread in \<open>ntt_worker_svc_with_mask\<close>, which may wait at \<open>WWait\<close> and at \<open>WSvc\<close>.\<close>

definition worker_waits :: "nat \<Rightarrow> loop_sys \<Rightarrow> bool" where
  "worker_waits i s \<longleftrightarrow> (case ls_pc s i of
     WWait \<Rightarrow> lo_enter_cnt (ls_loop s) < lo_width (ls_loop s)
   | WSvc \<Rightarrow> wk_signals (ls_wk s i) = 0
   | WLeft \<Rightarrow> True
   | _ \<Rightarrow> False)"

definition worker_step :: "env \<Rightarrow> nat \<Rightarrow> loop_sys \<Rightarrow> loop_sys option" where
  "worker_step env i s = (
     let w = ls_wk s i
     in case ls_pc s i of
       WNew \<Rightarrow> Some (set_wk i ntt_worker_init (goto i WEnter s))
     | WEnter \<Rightarrow> do {
         (loop, w') \<leftarrow> enter_publish env i (ls_loop s) w;
         Some (set_wk i w' (goto i WCount (s\<lparr>ls_loop := loop\<rparr>)))
       }
     | WCount \<Rightarrow> Some (goto i WWait (s\<lparr>ls_loop := enter_count (ls_loop s)\<rparr>))
     | WWait \<Rightarrow> Some (goto i WOwn s)
     | WOwn \<Rightarrow> do {
         w' \<leftarrow> ntt_worker_release env w;
         Some (set_wk i w' (goto i WTop s))
       }
     | WTop \<Rightarrow> Some (goto i (if wk_stopped w then WLeft else WSvc) s)
     | WSvc \<Rightarrow> Some (set_wk i (ntt_process_nttup_signal_handler w) (goto i WBack s))
     | WBack \<Rightarrow> (if wk_need_drain w then run_local i s else Some (goto i WTop s))
     | WRan \<Rightarrow> next_local i s
     | WLeft \<Rightarrow> Some s)"

text \<open>Dropping work: whoever drops the last of it reads the workers and goes on to release them.\<close>

definition leave_work :: "env \<Rightarrow> loop_sys \<Rightarrow> loop_sys option" where
  "leave_work env s = do {
     (last, loop) \<leftarrow> work_drop env (ls_loop s);
     Some (if last then s\<lparr>ls_loop := loop, ls_leave := Some 0, ls_caught := lo_entered loop\<rparr> else s\<lparr>ls_loop := loop\<rparr>)
   }"

text \<open>
  What can happen next: a thread goes on; its wait for events is interrupted; work is taken or dropped;
  the first queue ends; the next worker is released; a task or a barrier is pushed; the loop is destroyed.
\<close>

datatype lo_act = LoThread nat | LoInterrupt nat | LoWorkEnter | LoWorkLeave | LoBoot nat | LoRelease
  | LoPushTask nat nat | LoBarrier | LoPushBarrier nat nat | LoPushed nat nat | LoDestroy

text \<open>Work is taken by somebody who holds some, or by the first queue while a worker runs it.\<close>

fun lo_enabled :: "loop_sys \<Rightarrow> lo_act \<Rightarrow> bool" where
  "lo_enabled s (LoThread i) \<longleftrightarrow> i < ls_width s \<and> \<not> worker_waits i s"
| "lo_enabled s (LoInterrupt i) \<longleftrightarrow> i < ls_width s \<and> ls_pc s i = WSvc"
| "lo_enabled s LoWorkEnter \<longleftrightarrow> (0 < ls_others s \<or> ls_boot s \<and> (\<exists>i \<in> set [0..<ls_width s]. ls_pc s i = WSvc))
     \<and> unat (lo_work_cnt (ls_loop s)) < 18446744073709551615"
| "lo_enabled s LoWorkLeave \<longleftrightarrow> 0 < ls_others s"
| "lo_enabled s (LoBoot i) \<longleftrightarrow> ls_boot s \<and> i < ls_width s \<and> ls_pc s i = WSvc"
| "lo_enabled s LoRelease \<longleftrightarrow> (case ls_leave s of None \<Rightarrow> False | Some i \<Rightarrow> i < length (ls_caught s))"
| "lo_enabled s (LoPushTask i k) \<longleftrightarrow> 0 < ls_others s \<and> i < ls_width s"
| "lo_enabled s LoBarrier \<longleftrightarrow> 0 < ls_others s"
| "lo_enabled s (LoPushBarrier b i) \<longleftrightarrow> (b, i) \<in># ls_push s \<and> i < ls_width s"
| "lo_enabled s (LoPushed b i) \<longleftrightarrow> (b, i) \<in># ls_push s \<and> \<not> i < ls_width s"
| "lo_enabled s LoDestroy \<longleftrightarrow> (\<forall>i \<in> set [0..<ls_width s]. ls_pc s i = WLeft) \<and> \<not> ls_destroyed s"

fun lo_do :: "env \<Rightarrow> lo_act \<Rightarrow> loop_sys \<Rightarrow> loop_sys option" where
  "lo_do env (LoThread i) s = worker_step env i s"
| "lo_do env (LoInterrupt i) s = Some (goto i WBack s)"
| "lo_do env LoWorkEnter s = do {
     loop \<leftarrow> ntt_loop_work_enter env (ls_loop s);
     Some (s\<lparr>ls_loop := loop, ls_others := ls_others s + 1\<rparr>)
   }"
| "lo_do env LoWorkLeave s = leave_work env (s\<lparr>ls_others := ls_others s - 1\<rparr>)"
| "lo_do env (LoBoot i) s = leave_work env (s\<lparr>ls_boot := False\<rparr>)"
| "lo_do env LoRelease s = do {
     i \<leftarrow> ls_leave s;
     w \<leftarrow> work_release env (ls_caught s) i (ls_wk s i);
     Some (set_wk i w (s\<lparr>ls_leave := Some (i + 1)\<rparr>))
   }"
| "lo_do env (LoPushTask i k) s = do {
     w \<leftarrow> push_at (ls_loop s) i (ls_wk s i) (LUser k);
     Some (record_log (LPushed i (LUser k)) (set_wk i w s))
   }"
| "lo_do env LoBarrier s = Some (s\<lparr>ls_others := ls_others s - 1, ls_next := ls_next s + 1,
     ls_refs := (ls_refs s)(ls_next s := int (ls_width s)), ls_push := add_mset (ls_next s, 0) (ls_push s)\<rparr>)"
| "lo_do env (LoPushBarrier b i) s = do {
     w \<leftarrow> push_at (ls_loop s) i (ls_wk s i) (LBarrier b);
     Some (record_log (LPushed i (LBarrier b))
       (set_wk i w (s\<lparr>ls_push := add_mset (b, i + 1) (ls_push s - {#(b, i)#})\<rparr>)))
   }"
| "lo_do env (LoPushed b i) s = Some (s\<lparr>ls_push := ls_push s - {#(b, i)#}, ls_others := ls_others s + 1\<rparr>)"
| "lo_do env LoDestroy s = Some (s\<lparr>ls_destroyed := True\<rparr>)"

text \<open>
  \<open>ntt_loop_run\<close> up to the start of the threads: the caller holds the first work, the first queue takes its own when
  it is created, and the caller drops its work.
\<close>

definition loop_start :: "u32 \<Rightarrow> loop_sys" where
  "loop_start width =
     \<lparr>ls_loop = \<lparr>lo_work_cnt = 1, lo_enter_cnt = 0, lo_width = width, lo_entered = replicate (unat width) False\<rparr>,
      ls_wk = (\<lambda>_. ntt_worker_init), ls_pc = (\<lambda>_. WNew), ls_boot = False, ls_others = 1, ls_leave = None, ls_caught = [],
      ls_next = 0, ls_refs = (\<lambda>_. 0), ls_push = {#}, ls_log = [], ls_destroyed = False\<rparr>"

definition ntt_loop_run :: "env \<Rightarrow> u32 \<Rightarrow> loop_sys option" where
  "ntt_loop_run env width = (
     let s = loop_start (ntt_loop_clamp_width width)
     in do {
       loop \<leftarrow> ntt_loop_work_enter env (ls_loop s);
       leave_work env (s\<lparr>ls_loop := loop, ls_boot := True, ls_others := 0\<rparr>)
     })"

inductive lo_reachable :: "env \<Rightarrow> u32 \<Rightarrow> loop_sys \<Rightarrow> bool" for env w where
  lo_begin: "ntt_loop_run env w = Some s \<Longrightarrow> lo_reachable env w s"
| lo_next: "lo_reachable env w s \<Longrightarrow> lo_enabled s a \<Longrightarrow> lo_do env a s = Some s' \<Longrightarrow> lo_reachable env w s'"

end
