(* ===== verification/Loop_Inv.thy ===== *)
theory Loop_Inv
  imports Loop
begin

text \<open>
  The invariant of the loop: the references of every worker and its stop task (\<open>wk_ok\<close>), who has entered
  (\<open>lo_enter\<close>), what work there is (\<open>lo_work\<close>), and where the tasks of the workers and the barriers are (\<open>lo_tasks\<close>).
\<close>

section \<open>The invariant\<close>

text \<open>A worker holds itself until it has released its own reference; the loop holds it from its entry on.\<close>

fun owns :: "wk_pc \<Rightarrow> bool" where
  "owns WNew \<longleftrightarrow> True"
| "owns WEnter \<longleftrightarrow> True"
| "owns WCount \<longleftrightarrow> True"
| "owns WWait \<longleftrightarrow> True"
| "owns WOwn \<longleftrightarrow> True"
| "owns p \<longleftrightarrow> False"

fun listed :: "wk_pc \<Rightarrow> bool" where
  "listed WNew \<longleftrightarrow> False"
| "listed WEnter \<longleftrightarrow> False"
| "listed p \<longleftrightarrow> True"

fun counted :: "wk_pc \<Rightarrow> bool" where
  "counted WNew \<longleftrightarrow> False"
| "counted WEnter \<longleftrightarrow> False"
| "counted WCount \<longleftrightarrow> False"
| "counted p \<longleftrightarrow> True"

fun passed :: "wk_pc \<Rightarrow> bool" where
  "passed WNew \<longleftrightarrow> False"
| "passed WEnter \<longleftrightarrow> False"
| "passed WCount \<longleftrightarrow> False"
| "passed WWait \<longleftrightarrow> False"
| "passed p \<longleftrightarrow> True"

text \<open>The tasks that have not run: the first one stays in the list while it runs.\<close>

definition unrun :: "wk_pc \<Rightarrow> ntt_worker \<Rightarrow> local_task list" where
  "unrun p w = (if p = WRan then tl (wk_tasks w) else wk_tasks w)"

text \<open>
  A worker that is held has no stop task, one that is not held has it as its last task, or has run it and has no
  other task.
\<close>

definition stop_ok :: "wk_pc \<Rightarrow> ntt_worker \<Rightarrow> bool" where
  "stop_ok p w \<longleftrightarrow> (if wk_refs w \<noteq> 0 then LStop \<notin> set (wk_tasks w) \<and> \<not> wk_stopped w
     else if wk_tasks w = [] then wk_stopped w
     else last (wk_tasks w) = LStop \<and> LStop \<notin> set (butlast (wk_tasks w)) \<and>
       (wk_stopped w \<longleftrightarrow> p = WRan \<and> wk_tasks w = [LStop]))"

definition wk_ok :: "bool \<Rightarrow> wk_pc \<Rightarrow> ntt_worker \<Rightarrow> bool" where
  "wk_ok released p w \<longleftrightarrow> unat (wk_refs w) = of_bool (owns p) + of_bool (listed p \<and> \<not> released) \<and> stop_ok p w \<and>
     wk_signals w + of_bool (wk_need_drain w) = of_bool (wk_tasks w \<noteq> []) \<and>
     (wk_need_drain w \<longrightarrow> p = WBack \<or> p = WRan) \<and> (p = WRan \<longrightarrow> wk_need_drain w) \<and>
     (p = WLeft \<longrightarrow> wk_stopped w \<and> wk_tasks w = []) \<and> (p = WNew \<longrightarrow> wk_tasks w = []) \<and>
     (p = WSvc \<longrightarrow> \<not> wk_stopped w)"

definition released :: "loop_sys \<Rightarrow> nat \<Rightarrow> bool" where
  "released s i \<longleftrightarrow> (case ls_leave s of None \<Rightarrow> False | Some k \<Rightarrow> i < k)"

definition lo_workers :: "loop_sys \<Rightarrow> bool" where
  "lo_workers s \<longleftrightarrow> (\<forall>i < ls_width s. wk_ok (released s i) (ls_pc s i) (ls_wk s i))"

definition lo_enter :: "ntt_loop \<Rightarrow> (nat \<Rightarrow> wk_pc) \<Rightarrow> bool" where
  "lo_enter l pc \<longleftrightarrow> 0 < unat (lo_width l) \<and> length (lo_entered l) = unat (lo_width l) \<and>
     (\<forall>i < unat (lo_width l). lo_entered l ! i \<longleftrightarrow> listed (pc i)) \<and>
     unat (lo_enter_cnt l) = card {i. i < unat (lo_width l) \<and> counted (pc i)} \<and>
     (\<forall>i < unat (lo_width l). passed (pc i) \<longrightarrow> (\<forall>j < unat (lo_width l). counted (pc j)))"

definition lo_work :: "loop_sys \<Rightarrow> bool" where
  "lo_work s \<longleftrightarrow> unat (lo_work_cnt (ls_loop s)) = of_bool (ls_boot s) + ls_others s + size (ls_push s) \<and>
     (ls_leave s = None \<longleftrightarrow> lo_work_cnt (ls_loop s) \<noteq> 0) \<and>
     (\<forall>k. ls_leave s = Some k \<longrightarrow> k \<le> ls_width s \<and> ls_caught s = replicate (ls_width s) True) \<and>
     (\<not> ls_boot s \<or> 0 < ls_others s \<or> ls_push s \<noteq> {#} \<longrightarrow> (\<forall>i < ls_width s. counted (ls_pc s i))) \<and>
     (\<forall>(b, k) \<in># ls_push s. b < ls_next s \<and> k \<le> ls_width s) \<and>
     (ls_destroyed s \<longrightarrow> (\<forall>i < ls_width s. ls_pc s i = WLeft))"

text \<open>How many workers of a barrier have had their part, and whether a part has still to be pushed.\<close>

definition to_push :: "(nat \<times> nat) multiset \<Rightarrow> nat \<Rightarrow> nat \<Rightarrow> nat" where
  "to_push P b i = size {#x \<in># P. fst x = b \<and> snd x \<le> i#}"

definition parts :: "nat \<Rightarrow> lo_log list \<Rightarrow> nat \<Rightarrow> nat" where
  "parts n l b = (\<Sum>i < n. count_list l (LRan i (LBarrier b)))"

text \<open>A task given to a worker has run or waits; a part of a barrier has been pushed or will be; the last part runs the task.\<close>

definition tasks_kept :: "nat \<Rightarrow> lo_log list \<Rightarrow> (nat \<Rightarrow> local_task list) \<Rightarrow> bool" where
  "tasks_kept n l U \<longleftrightarrow> (\<forall>i < n. \<forall>t. t \<noteq> LStop \<longrightarrow>
     count_list l (LPushed i t) = count_list l (LRan i t) + count_list (U i) t)"

definition parts_pushed :: "nat \<Rightarrow> lo_log list \<Rightarrow> (nat \<times> nat) multiset \<Rightarrow> nat \<Rightarrow> bool" where
  "parts_pushed n l P m \<longleftrightarrow> (\<forall>i < n. \<forall>b. count_list l (LPushed i (LBarrier b)) + to_push P b i = of_bool (b < m))"

definition barriers_ran :: "nat \<Rightarrow> lo_log list \<Rightarrow> (nat \<Rightarrow> int) \<Rightarrow> nat \<Rightarrow> bool" where
  "barriers_ran n l R m \<longleftrightarrow> (\<forall>b. R b = (if b < m then int n - int (parts n l b) else 0) \<and>
     count_list l (LBarrierRan b) = of_bool (b < m \<and> parts n l b = n))"

abbreviation ls_unrun :: "loop_sys \<Rightarrow> nat \<Rightarrow> local_task list" where
  "ls_unrun s \<equiv> (\<lambda>i. unrun (ls_pc s i) (ls_wk s i))"

definition lo_tasks :: "loop_sys \<Rightarrow> bool" where
  "lo_tasks s \<longleftrightarrow> tasks_kept (ls_width s) (ls_log s) (ls_unrun s) \<and>
     parts_pushed (ls_width s) (ls_log s) (ls_push s) (ls_next s) \<and>
     barriers_ran (ls_width s) (ls_log s) (ls_refs s) (ls_next s)"

definition lo_inv :: "loop_sys \<Rightarrow> bool" where
  "lo_inv s \<longleftrightarrow> lo_workers s \<and> lo_enter (ls_loop s) (ls_pc s) \<and> lo_work s \<and> lo_tasks s"

section \<open>Workers\<close>

lemma unat_zero64 [simp]: "unat (x :: u64) = 0 \<longleftrightarrow> x = 0"
  by (rule unat_0_iff)

lemma unat_is_one: "unat (x :: u64) = Suc 0 \<longleftrightarrow> x = 1"
  using word_unat_eq_iff [of x 1] by simp

lemma stop_ok_move:
  assumes "stop_ok p w" "p \<noteq> WRan" "q \<noteq> WRan"
    "wk_refs w' = wk_refs w" "wk_tasks w' = wk_tasks w" "wk_stopped w' = wk_stopped w"
  shows "stop_ok q w'"
  using assms by (simp add: stop_ok_def)

lemma wk_ok_move:
  assumes "wk_ok r p w" "\<not> wk_need_drain w" "owns q = owns p" "listed q = listed p" "q \<noteq> WRan" "q \<noteq> WLeft" "q \<noteq> WNew"
    "q = WSvc \<Longrightarrow> \<not> wk_stopped w"
  shows "wk_ok r q w"
proof -
  have "p \<noteq> WRan" using assms(1,2) by (auto simp: wk_ok_def)
  then have "stop_ok q w" using assms(1,5) stop_ok_move [of p w q w] by (simp add: wk_ok_def)
  then show ?thesis using assms by (simp add: wk_ok_def)
qed

lemma wk_ok_no_drain: "wk_ok r p w \<Longrightarrow> p \<noteq> WBack \<Longrightarrow> p \<noteq> WRan \<Longrightarrow> \<not> wk_need_drain w"
  by (auto simp: wk_ok_def)

lemma wk_ok_push:
  assumes "wk_ok r p w" "wk_refs w \<noteq> 0" "t \<noteq> LStop" "listed p"
  shows "wk_ok r p (ntt_worker_push_task w t)"
  using assms by (auto simp: wk_ok_def stop_ok_def ntt_worker_push_task_def ntt_worker_local_queue_wakeup_def Let_def)

lemma unrun_push:
  assumes "wk_ok r p w"
  shows "unrun p (ntt_worker_push_task w t) = unrun p w @ [t]"
  using assms by (auto simp: wk_ok_def unrun_def ntt_worker_push_task_def ntt_worker_local_queue_wakeup_def Let_def)

text \<open>Releasing a worker that is held: the last release pushes the stop task.\<close>

lemma worker_release_ok:
  assumes "wk_ok r p w" "wk_refs w \<noteq> 0"
    and refs: "unat (wk_refs w) = Suc (of_bool (owns p') + of_bool (listed p' \<and> \<not> r'))"
    and p': "p' = p \<or> p = WOwn \<and> p' = WTop" "listed p'"
  obtains w' where "ntt_worker_release env w = Some w'" "wk_ok r' p' w'"
    "wk_refs w \<noteq> 1 \<Longrightarrow> wk_tasks w' = wk_tasks w \<and> wk_refs w' \<noteq> 0"
    "wk_refs w = 1 \<Longrightarrow> wk_tasks w' = wk_tasks w @ [LStop] \<and> wk_refs w' = 0"
    "wk_need_drain w' = wk_need_drain w"
proof -
  have m1: "wk_refs w \<noteq> - 1"
  proof
    assume "wk_refs w = - 1"
    then have "unat (wk_refs w) = 18446744073709551615" by (simp add: unat_eq_nat_uint uint_word_ariths)
    with refs show False by (simp split: if_splits add: of_bool_def)
  qed
  have sub: "unat (wk_refs w - 1) = unat (wk_refs w) - 1"
    using assms(2) by (simp add: unat_minus_one)
  have drain: "wk_signals w + of_bool (wk_need_drain w) = of_bool (wk_tasks w \<noteq> [])"
    "wk_need_drain w \<longrightarrow> p' = WBack \<or> p' = WRan" "p' = WRan \<longrightarrow> wk_need_drain w"
    using assms(1) p' by (auto simp: wk_ok_def)
  have new: "p' \<noteq> WNew" using p'(2) by auto
  show thesis
  proof (cases "wk_refs w = 1")
    case True
    let ?w = "ntt_worker_push_task (w\<lparr>wk_refs := 0\<rparr>) LStop"
    have st: "LStop \<notin> set (wk_tasks w)" "\<not> wk_stopped w" using assms(1,2) by (auto simp: wk_ok_def stop_ok_def)
    have zero: "\<not> owns p'" "\<not> (listed p' \<and> \<not> r')" using refs True by auto
    have w: "ntt_worker_release env w = Some ?w"
      using True st by (simp add: ntt_worker_release_def ntt_assert_def)
    have ne: "p' \<noteq> WLeft" "p' = WRan \<Longrightarrow> wk_tasks w \<noteq> []" using assms(1) st p' by (auto simp: wk_ok_def)
    have stop: "stop_ok p' ?w"
      using st ne by (auto simp: stop_ok_def ntt_worker_push_task_def ntt_worker_local_queue_wakeup_def Let_def)
    have "wk_ok r' p' ?w"
      unfolding wk_ok_def using zero ne(1) stop drain new st(2)
      by (simp add: ntt_worker_push_task_def ntt_worker_local_queue_wakeup_def Let_def)
    from that [OF w this] True show thesis
      by (simp add: ntt_worker_push_task_def ntt_worker_local_queue_wakeup_def Let_def)
  next
    case False
    let ?w = "w\<lparr>wk_refs := wk_refs w - 1\<rparr>"
    have ne: "wk_refs w - 1 \<noteq> 0" using False by simp
    have w: "ntt_worker_release env w = Some ?w"
      using False m1 by (simp add: ntt_worker_release_def ntt_assert_def Let_def)
    have stop: "stop_ok p' ?w" using assms(1,2) ne by (simp add: wk_ok_def stop_ok_def)
    have "p' \<noteq> WLeft" and st: "\<not> wk_stopped w" using assms(1,2) p' by (auto simp: wk_ok_def stop_ok_def)
    then have "wk_ok r' p' ?w" unfolding wk_ok_def using stop drain sub refs new st by simp
    from that [OF w this] False ne show thesis by simp
  qed
qed

section \<open>The steps of a thread\<close>

text \<open>What a step of a thread leaves alone.\<close>

definition same_rest :: "loop_sys \<Rightarrow> loop_sys \<Rightarrow> bool" where
  "same_rest s s' \<longleftrightarrow> lo_width (ls_loop s') = lo_width (ls_loop s) \<and> lo_work_cnt (ls_loop s') = lo_work_cnt (ls_loop s) \<and>
     ls_boot s' = ls_boot s \<and> ls_others s' = ls_others s \<and> ls_leave s' = ls_leave s \<and> ls_caught s' = ls_caught s \<and>
     ls_next s' = ls_next s \<and> ls_push s' = ls_push s \<and> ls_destroyed s' = ls_destroyed s"

lemma lo_workers_update:
  assumes "lo_workers s" "same_rest s s'" "wk_ok (released s i) p w"
    "ls_pc s' = (ls_pc s)(i := p)" "ls_wk s' = (ls_wk s)(i := w)"
  shows "lo_workers s'"
  using assms by (simp add: lo_workers_def same_rest_def released_def)

lemma lo_enter_goto:
  assumes "lo_enter l pc" "listed p = listed (pc i)" "counted p = counted (pc i)"
    "passed p \<Longrightarrow> i < unat (lo_width l) \<Longrightarrow> passed (pc i) \<or> (\<forall>j < unat (lo_width l). counted (pc j))"
  shows "lo_enter l (pc(i := p))"
proof -
  have c: "counted ((pc(i := p)) j) = counted (pc j)" "listed ((pc(i := p)) j) = listed (pc j)" for j
    using assms(2,3) by auto
  have "counted (pc k)" if "j < unat (lo_width l)" "passed ((pc(i := p)) j)" "k < unat (lo_width l)" for j k
    using assms(1,4) that by (auto simp: lo_enter_def split: if_splits)
  then show ?thesis using assms(1) by (simp only: lo_enter_def c) blast
qed

lemma lo_work_goto:
  assumes "lo_work s" "same_rest s s'" "ls_pc s' = (ls_pc s)(i := p)" "counted (ls_pc s i) \<Longrightarrow> counted p"
    "ls_pc s i \<noteq> WLeft" "i < ls_width s"
  shows "lo_work s'"
proof -
  have "\<not> ls_destroyed s" using assms(1,5,6) by (auto simp: lo_work_def)
  then show ?thesis using assms(1-4) by (auto simp: lo_work_def same_rest_def)
qed

lemma lo_tasks_goto:
  assumes "lo_tasks s" "same_rest s s'" "ls_pc s' = (ls_pc s)(i := p)" "ls_wk s' = (ls_wk s)(i := w)"
    "ls_log s' = ls_log s" "ls_refs s' = ls_refs s"
    "\<And>t. t \<noteq> LStop \<Longrightarrow> count_list (unrun p w) t = count_list (unrun (ls_pc s i) (ls_wk s i)) t"
  shows "lo_tasks s'"
proof -
  have "tasks_kept (ls_width s) (ls_log s) (ls_unrun s')"
    using assms(1,3,4,7) by (simp add: lo_tasks_def tasks_kept_def)
  then show ?thesis using assms(1,2,5,6) by (simp add: lo_tasks_def same_rest_def)
qed

lemma lo_inv_goto:
  assumes "lo_inv s" "same_rest s s'" "wk_ok (released s i) p w"
    "ls_pc s' = (ls_pc s)(i := p)" "ls_wk s' = (ls_wk s)(i := w)" "ls_log s' = ls_log s" "ls_refs s' = ls_refs s"
    "\<And>t. t \<noteq> LStop \<Longrightarrow> count_list (unrun p w) t = count_list (unrun (ls_pc s i) (ls_wk s i)) t"
    "counted (ls_pc s i) \<Longrightarrow> counted p" "ls_pc s i \<noteq> WLeft" "i < ls_width s" "lo_enter (ls_loop s') (ls_pc s')"
  shows "lo_inv s'"
  using assms lo_workers_update [of s s' i p w] lo_work_goto [of s s' i p] lo_tasks_goto [of s s' i p w]
  by (simp add: lo_inv_def)

lemma lo_inv_worker: "lo_inv s \<Longrightarrow> i < ls_width s \<Longrightarrow> wk_ok (released s i) (ls_pc s i) (ls_wk s i)"
  by (simp add: lo_inv_def lo_workers_def)

lemma lo_inv_enter: "lo_inv s \<Longrightarrow> lo_enter (ls_loop s) (ls_pc s)"
  by (simp add: lo_inv_def)

text \<open>Entering: the worker is published, counted, and waits for the others.\<close>

lemma lo_enter_publish:
  assumes "lo_enter l pc" "pc i = WEnter" "i < unat (lo_width l)"
  shows "lo_enter (l\<lparr>lo_entered := (lo_entered l)[i := True]\<rparr>) (pc(i := WCount))"
proof -
  have c: "counted ((pc(i := WCount)) j) = counted (pc j)" "passed ((pc(i := WCount)) j) = passed (pc j)" for j
    using assms(2) by auto
  have "(lo_entered l)[i := True] ! j \<longleftrightarrow> listed ((pc(i := WCount)) j)" if "j < unat (lo_width l)" for j
    using assms that by (auto simp: lo_enter_def nth_list_update)
  then show ?thesis using assms(1) unfolding lo_enter_def c by simp
qed

lemma lo_enter_counted:
  assumes "lo_enter l pc" "pc i = WCount" "i < unat (lo_width l)"
  shows "lo_enter (enter_count l) (pc(i := WWait))"
proof -
  let ?A = "{j. j < unat (lo_width l) \<and> counted (pc j)}"
  have set: "{j. j < unat (lo_width l) \<and> counted ((pc(i := WWait)) j)} = insert i ?A"
    using assms(2,3) by auto
  have cnt: "unat (lo_enter_cnt l) = card ?A" using assms(1) by (simp add: lo_enter_def)
  have "i \<notin> ?A" using assms(2) by simp
  then have "card (insert i ?A) = Suc (card ?A)" by simp
  moreover have "card (insert i ?A) \<le> card {..<unat (lo_width l)}" using assms(3) by (intro card_mono) auto
  ultimately have "unat (lo_enter_cnt l) < unat (lo_width l)" using cnt by simp
  from unat_succ_below [OF this] have "unat (lo_enter_cnt l + 1) = card (insert i ?A)"
    using cnt \<open>card (insert i ?A) = Suc (card ?A)\<close> by simp
  moreover have "listed ((pc(i := WWait)) j) = listed (pc j)" for j using assms(2) by auto
  moreover have "counted ((pc(i := WWait)) j)" if "passed ((pc(i := WWait)) k)" "k < unat (lo_width l)" "j < unat (lo_width l)" for j k
    using assms that by (auto simp: lo_enter_def split: if_splits)
  ultimately show ?thesis using assms(1) unfolding lo_enter_def enter_count_def by (simp add: set del: fun_upd_apply)
qed

lemma lo_enter_all:
  assumes "lo_enter l pc"
  shows "\<not> lo_enter_cnt l < lo_width l \<longleftrightarrow> (\<forall>j < unat (lo_width l). counted (pc j))"
proof -
  let ?A = "{j. j < unat (lo_width l) \<and> counted (pc j)}"
  have sub: "?A \<subseteq> {..<unat (lo_width l)}" by auto
  have cnt: "unat (lo_enter_cnt l) = card ?A" using assms by (simp add: lo_enter_def)
  have "\<not> lo_enter_cnt l < lo_width l \<longleftrightarrow> unat (lo_width l) \<le> card ?A"
    unfolding word_less_nat_alt cnt not_less by (rule refl)
  also have "\<dots> \<longleftrightarrow> ?A = {..<unat (lo_width l)}"
  proof
    assume "unat (lo_width l) \<le> card ?A"
    then show "?A = {..<unat (lo_width l)}" by (intro card_seteq [OF finite_lessThan sub]) simp
  next
    assume "?A = {..<unat (lo_width l)}"
    then show "unat (lo_width l) \<le> card ?A" by simp
  qed
  also have "\<dots> \<longleftrightarrow> (\<forall>j < unat (lo_width l). counted (pc j))" by (simp add: set_eq_iff) blast
  finally show ?thesis .
qed

end
