(* ===== verification/Loop_Step.thy ===== *)
theory Loop_Step
  imports Loop_Inv
begin

text \<open>Every step of a reachable loop is defined and keeps the invariant.\<close>

section \<open>Running a local task\<close>

lemma parts_append [simp]: "parts n (l @ k) b = parts n l b + parts n k b"
  by (simp add: parts_def sum.distrib)

lemma parts_Nil [simp]: "parts n [] b = 0"
  by (simp add: parts_def)

lemma parts_Cons [simp]:
  "parts n (LRan i t # k) b = parts n k b + of_bool (i < n \<and> t = LBarrier b)"
  "parts n (LPushed i t # k) b = parts n k b" "parts n (LBarrierRan c # k) b = parts n k b"
proof -
  have "(\<Sum>j < n. count_list (LRan i t # k) (LRan j (LBarrier b)))
      = (\<Sum>j < n. count_list k (LRan j (LBarrier b)) + (if j = i then of_bool (t = LBarrier b) else 0))"
    by (intro sum.cong) auto
  also have "\<dots> = parts n k b + of_bool (i < n \<and> t = LBarrier b)"
    by (simp add: parts_def sum.distrib sum.delta)
  finally show "parts n (LRan i t # k) b = parts n k b + of_bool (i < n \<and> t = LBarrier b)" by (simp add: parts_def)
qed (simp_all add: parts_def)

lemma tasks_kept_ran:
  assumes "tasks_kept n l U" "U i = t # rest"
  shows "tasks_kept n (l @ [LRan i t]) (U(i := rest))"
  using assms by (auto simp: tasks_kept_def)

lemma parts_pushed_ran [simp]:
  "parts_pushed n (l @ [LRan i t]) P m = parts_pushed n l P m"
  "parts_pushed n (l @ [LBarrierRan b]) P m = parts_pushed n l P m"
  "tasks_kept n (l @ [LBarrierRan b]) U = tasks_kept n l U"
  by (simp_all add: parts_pushed_def tasks_kept_def)

text \<open>A worker that has still to run its part of a barrier keeps the barrier from ending.\<close>

lemma part_open:
  assumes "tasks_kept n l U" "parts_pushed n l P m" "i < n" "LBarrier b \<in> set (U i)"
  shows "b < m" "parts n l b < n"
proof -
  have each: "count_list l (LRan j (LBarrier b)) + count_list (U j) (LBarrier b) \<le> of_bool (b < m)" if "j < n" for j
  proof -
    have "count_list l (LPushed j (LBarrier b)) = count_list l (LRan j (LBarrier b)) + count_list (U j) (LBarrier b)"
      using assms(1) that by (simp add: tasks_kept_def)
    moreover have "count_list l (LPushed j (LBarrier b)) + to_push P b j = of_bool (b < m)"
      using assms(2) that by (simp add: parts_pushed_def)
    ultimately show ?thesis by linarith
  qed
  have pos: "0 < count_list (U i) (LBarrier b)" using assms(4) by (simp add: count_list_0_iff zero_less_iff_neq_zero)
  then show "b < m" using each [OF assms(3)] by (cases "b < m") auto
  have "parts n l b < (\<Sum>j < n. 1)"
    unfolding parts_def
  proof (rule sum_strict_mono_ex1)
    show "\<forall>j \<in> {..<n}. count_list l (LRan j (LBarrier b)) \<le> 1"
      using each \<open>b < m\<close> by (auto dest: each)
    show "\<exists>j \<in> {..<n}. count_list l (LRan j (LBarrier b)) < 1"
      using each [OF assms(3)] pos \<open>b < m\<close> by (intro bexI [of _ i]) (use assms(3) in auto)
  qed simp
  then show "parts n l b < n" by simp
qed

lemma barriers_ran_part:
  assumes "barriers_ran n l R m" "b < m" "parts n l b < n" "i < n"
  shows "barriers_ran n (if R b \<noteq> 1 then l @ [LRan i (LBarrier b)] else (l @ [LRan i (LBarrier b)]) @ [LBarrierRan b])
    (R(b := R b - 1)) m"
proof -
  have "R b = int n - int (parts n l b)" using assms by (simp add: barriers_ran_def)
  then have "R b \<noteq> 1 \<longleftrightarrow> Suc (parts n l b) \<noteq> n" using assms(3) by auto
  then show ?thesis using assms unfolding barriers_ran_def
    by auto
qed

lemma barriers_ran_other: 
  assumes "barriers_ran n l R m" "\<And>b. t \<noteq> LBarrier b" "i < n"
  shows "barriers_ran n (l @ [LRan i t]) R m"
  using assms by (simp add: barriers_ran_def)

lemma lo_tasks_ran:
  assumes "lo_tasks s" "same_rest s s'" "i < ls_width s" "ls_unrun s i = t # rest" "ls_unrun s' = (ls_unrun s)(i := rest)"
    "if \<exists>b. t = LBarrier b \<and> ls_refs s b = 1
     then \<exists>b. t = LBarrier b \<and> ls_log s' = (ls_log s @ [LRan i t]) @ [LBarrierRan b]
     else ls_log s' = ls_log s @ [LRan i t]"
    "ls_refs s' = (case t of LBarrier b \<Rightarrow> (ls_refs s)(b := ls_refs s b - 1) | _ \<Rightarrow> ls_refs s)"
  shows "lo_tasks s'"
proof -
  define l1 where "l1 = ls_log s @ [LRan i t]"
  have kept: "tasks_kept (ls_width s) l1 (ls_unrun s')"
    using tasks_kept_ran [of _ _ "ls_unrun s" i t rest] assms(1,4,5) by (simp add: lo_tasks_def l1_def)
  have pushed: "parts_pushed (ls_width s) l1 (ls_push s) (ls_next s)" using assms(1) by (simp add: lo_tasks_def l1_def)
  show ?thesis
  proof (cases "\<exists>b. t = LBarrier b")
    case True
    then obtain b where b: "t = LBarrier b" by blast
    then have "b < ls_next s" "parts (ls_width s) (ls_log s) b < ls_width s"
      using part_open [of _ _ "ls_unrun s"] assms(1,3,4) by (auto simp: lo_tasks_def)
    then have ran: "barriers_ran (ls_width s) (if ls_refs s b \<noteq> 1 then l1 else l1 @ [LBarrierRan b])
        ((ls_refs s)(b := ls_refs s b - 1)) (ls_next s)"
      using barriers_ran_part assms(1,3) unfolding l1_def b lo_tasks_def by blast
    have "ls_log s' = (if ls_refs s b \<noteq> 1 then l1 else l1 @ [LBarrierRan b])"
      using assms(6) by (auto simp: l1_def b split: if_splits)
    then show ?thesis using ran kept pushed assms(2,7) b by (simp add: lo_tasks_def same_rest_def)
  next
    case False
    then have "barriers_ran (ls_width s) l1 (ls_refs s) (ls_next s)"
      using barriers_ran_other assms(1,3) by (simp add: lo_tasks_def l1_def)
    moreover have "ls_refs s' = ls_refs s" "ls_log s' = l1"
      using False assms(6,7) by (simp_all add: l1_def split: local_task.splits)
    ultimately show ?thesis using kept pushed assms(2) by (simp add: lo_tasks_def same_rest_def)
  qed
qed

lemma run_local_inv:
  assumes inv: "lo_inv s" and i: "i < ls_width s" and pc: "ls_pc s i = WBack" and drain: "wk_need_drain (ls_wk s i)"
  shows "\<exists>s'. run_local i s = Some s' \<and> lo_inv s'"
proof -
  have ok: "wk_ok (released s i) WBack (ls_wk s i)" using lo_inv_worker [OF inv i] pc by simp
  then obtain t rest where tasks: "wk_tasks (ls_wk s i) = t # rest"
    using drain by (cases "wk_tasks (ls_wk s i)") (auto simp: wk_ok_def)
  define w where "w = (if t = LStop then ntt_worker_stop_task_svc (ls_wk s i) else ls_wk s i)"
  have w: "wk_tasks w = t # rest" "wk_refs w = wk_refs (ls_wk s i)" "wk_signals w = wk_signals (ls_wk s i)"
    "wk_need_drain w" "wk_stopped w \<longleftrightarrow> t = LStop \<or> wk_stopped (ls_wk s i)"
    using tasks drain by (auto simp: w_def ntt_worker_stop_task_svc_def)
  have stop: "stop_ok WRan w"
    using ok tasks unfolding wk_ok_def stop_ok_def w by (cases rest) auto
  have wok: "wk_ok (released s i) WRan w" using ok stop w tasks drain by (simp add: wk_ok_def)
  obtain s' where s': "run_local i s = Some s'" by (simp add: run_local_def tasks Let_def)
  have rest: "same_rest s s'" and upd: "ls_pc s' = (ls_pc s)(i := WRan)" "ls_wk s' = (ls_wk s)(i := w)" "ls_loop s' = ls_loop s"
    and log: "if \<exists>b. t = LBarrier b \<and> ls_refs s b = 1
      then \<exists>b. t = LBarrier b \<and> ls_log s' = (ls_log s @ [LRan i t]) @ [LBarrierRan b]
      else ls_log s' = ls_log s @ [LRan i t]"
    and refs: "ls_refs s' = (case t of LBarrier b \<Rightarrow> (ls_refs s)(b := ls_refs s b - 1) | _ \<Rightarrow> ls_refs s)"
    using s' by (auto simp: run_local_def tasks ntt_barrier_svc_def same_rest_def w_def Let_def split: local_task.splits if_splits)
  have "ls_unrun s' = (ls_unrun s)(i := rest)" by (auto simp: upd unrun_def w)
  then have "lo_tasks s'"
    using lo_tasks_ran [OF _ rest i _ _ log refs] inv by (simp add: lo_inv_def pc unrun_def tasks)
  moreover have "lo_workers s'" using lo_workers_update [OF _ rest wok upd(1,2)] inv by (simp add: lo_inv_def)
  moreover have "lo_work s'" using lo_work_goto [OF _ rest upd(1)] inv i pc by (simp add: lo_inv_def)
  moreover have "lo_enter (ls_loop s') (ls_pc s')"
    unfolding upd using lo_enter_goto [OF lo_inv_enter [OF inv], of WRan i] pc by simp
  ultimately show ?thesis using s' by (simp add: lo_inv_def)
qed

lemma next_local_inv:
  assumes inv: "lo_inv s" and i: "i < ls_width s" and pc: "ls_pc s i = WRan"
  shows "\<exists>s'. next_local i s = Some s' \<and> lo_inv s'"
proof -
  have ok: "wk_ok (released s i) WRan (ls_wk s i)" using lo_inv_worker [OF inv i] pc by simp
  then obtain t rest where tasks: "wk_tasks (ls_wk s i) = t # rest" and drain: "wk_need_drain (ls_wk s i)"
    by (cases "wk_tasks (ls_wk s i)") (auto simp: wk_ok_def)
  let ?w = "(ls_wk s i)\<lparr>wk_tasks := rest\<rparr>"
  have enter: "lo_enter (ls_loop s) ((ls_pc s)(i := p))" if "p = WTop \<or> p = WBack" for p
    using lo_enter_goto [OF lo_inv_enter [OF inv], of p i] pc that by auto
  show ?thesis
  proof (cases "rest = []")
    case True
    have "wk_ok (released s i) WTop (?w\<lparr>wk_need_drain := False\<rparr>)"
      using ok True drain tasks by (cases "wk_refs (ls_wk s i) = 0"; cases "t = LStop") (simp_all add: wk_ok_def stop_ok_def)
    then have "lo_inv (set_wk i (?w\<lparr>wk_need_drain := False\<rparr>) (goto i WTop s))"
      by (rule lo_inv_goto [where s = s and p = WTop, rotated 2])
        (use inv pc i in \<open>simp_all add: same_rest_def unrun_def tasks enter\<close>)
    then show ?thesis using True by (simp add: next_local_def tasks)
  next
    case False
    have "stop_ok WBack ?w" using ok False unfolding wk_ok_def stop_ok_def by (auto simp: tasks)
    then have "wk_ok (released s i) WBack ?w" using ok tasks False drain by (simp add: wk_ok_def)
    then have "lo_inv (set_wk i ?w (goto i WBack s))"
      by (rule lo_inv_goto [where s = s and p = WBack, rotated 2])
        (use inv pc i in \<open>simp_all add: same_rest_def unrun_def tasks enter\<close>)
    from run_local_inv [OF this] False i drain show ?thesis by (simp add: next_local_def tasks)
  qed
qed

section \<open>The other steps\<close>

text \<open>A step of a thread that starts no task: what has to be shown.\<close>

lemma thread_goto:
  assumes "lo_inv s" "i < ls_width s" "ls_pc s i \<noteq> WLeft" "wk_ok (released s i) p w"
    "\<And>t. t \<noteq> LStop \<Longrightarrow> count_list (unrun p w) t = count_list (unrun (ls_pc s i) (ls_wk s i)) t"
    "listed p = listed (ls_pc s i)" "counted p = counted (ls_pc s i)"
    "passed p \<Longrightarrow> passed (ls_pc s i) \<or> (\<forall>j < ls_width s. counted (ls_pc s j))"
  shows "lo_inv (set_wk i w (goto i p s))"
  by (rule lo_inv_goto [where s = s and p = p and w = w])
    (use assms lo_enter_goto [OF lo_inv_enter [OF assms(1)], of p i] in \<open>auto simp: same_rest_def\<close>)

lemma release_own:
  assumes inv: "lo_inv s" and i: "i < ls_width s" and pc: "ls_pc s i = WOwn"
  obtains w where "ntt_worker_release env (ls_wk s i) = Some w" "lo_inv (set_wk i w (goto i WTop s))"
proof -
  have ok: "wk_ok (released s i) WOwn (ls_wk s i)" using lo_inv_worker [OF inv i] pc by simp
  then have "unat (wk_refs (ls_wk s i)) = Suc (of_bool (\<not> released s i))" by (simp add: wk_ok_def)
  then have "wk_refs (ls_wk s i) \<noteq> 0"
    and "unat (wk_refs (ls_wk s i)) = Suc (of_bool (owns WTop) + of_bool (listed WTop \<and> \<not> released s i))" by auto
  then obtain w where w: "ntt_worker_release env (ls_wk s i) = Some w" "wk_ok (released s i) WTop w"
    "wk_refs (ls_wk s i) \<noteq> 1 \<Longrightarrow> wk_tasks w = wk_tasks (ls_wk s i) \<and> wk_refs w \<noteq> 0"
    "wk_refs (ls_wk s i) = 1 \<Longrightarrow> wk_tasks w = wk_tasks (ls_wk s i) @ [LStop] \<and> wk_refs w = 0"
    by (rule worker_release_ok [OF ok, where env = env]) simp_all
  have "lo_inv (set_wk i w (goto i WTop s))"
    by (rule thread_goto [OF inv i _ w(2)])
      (use w(3,4) pc in \<open>cases "wk_refs (ls_wk s i) = 1"; simp add: unrun_def\<close>)+
  with w(1) show thesis by (rule that)
qed

lemma enter_inv:
  assumes inv: "lo_inv s" and i: "i < ls_width s" and pc: "ls_pc s i = WEnter"
  shows "\<exists>s'. worker_step env i s = Some s' \<and> lo_inv s'"
proof -
  let ?l = "(ls_loop s)\<lparr>lo_entered := (lo_entered (ls_loop s))[i := True]\<rparr>"
  let ?w = "(ls_wk s i)\<lparr>wk_refs := 2\<rparr>"
  have ok: "wk_ok (released s i) WEnter (ls_wk s i)" using lo_inv_worker [OF inv i] pc by simp
  then have one: "wk_refs (ls_wk s i) = 1" by (simp add: wk_ok_def unat_is_one)
  have "\<not> counted (ls_pc s i)" using pc by simp
  then have "ls_boot s" "ls_leave s = None" using inv i by (auto simp: lo_inv_def lo_work_def unat_eq_zero)
  then have "wk_ok (released s i) WCount ?w" using ok one by (auto simp: wk_ok_def stop_ok_def released_def)
  then have "lo_inv (set_wk i ?w (goto i WCount (s\<lparr>ls_loop := ?l\<rparr>)))"
    by (rule lo_inv_goto [where s = s and p = WCount, rotated 2])
      (use inv pc i lo_enter_publish [OF lo_inv_enter [OF inv] pc i] in \<open>simp_all add: same_rest_def unrun_def\<close>)
  then show ?thesis using pc one by (simp add: worker_step_def enter_publish_def ntt_worker_acquire_def ntt_assert_def)
qed

lemma thread_inv:
  assumes inv: "lo_inv s" and "lo_enabled s (LoThread i)"
  shows "\<exists>s'. worker_step env i s = Some s' \<and> lo_inv s'"
proof -
  have i: "i < ls_width s" and go: "\<not> worker_waits i s" using assms(2) by auto
  note ok = lo_inv_worker [OF inv i]
  show ?thesis
  proof (cases "ls_pc s i")
    case WNew
    have "wk_ok (released s i) WEnter ntt_worker_init" by (simp add: wk_ok_def stop_ok_def ntt_worker_init_def)
    then have "lo_inv (set_wk i ntt_worker_init (goto i WEnter s))"
      by (rule thread_goto [OF inv i, rotated]) (use ok WNew in \<open>simp_all add: unrun_def wk_ok_def ntt_worker_init_def\<close>)
    then show ?thesis using WNew by (simp add: worker_step_def)
  next
    case WEnter
    then show ?thesis using enter_inv inv i by blast
  next
    case WCount
    have "wk_ok (released s i) WWait (ls_wk s i)" 
      by (rule wk_ok_move [OF ok wk_ok_no_drain [OF ok]]) (simp_all add: WCount)
    then have "lo_inv (goto i WWait (s\<lparr>ls_loop := enter_count (ls_loop s)\<rparr>))"
      by (rule lo_inv_goto [where s = s and p = WWait, rotated 2])
        (use inv WCount i lo_enter_counted [OF lo_inv_enter [OF inv] WCount i] in
          \<open>simp_all add: same_rest_def unrun_def enter_count_def\<close>)
    then show ?thesis using WCount by (simp add: worker_step_def)
  next
    case WWait
    then have "\<forall>j < ls_width s. counted (ls_pc s j)"
      using go lo_enter_all [OF lo_inv_enter [OF inv]] by (simp add: worker_waits_def)
    moreover have "wk_ok (released s i) WOwn (ls_wk s i)" 
      by (rule wk_ok_move [OF ok wk_ok_no_drain [OF ok]]) (simp_all add: WWait)
    ultimately show ?thesis
      using thread_goto [OF inv i, of WOwn "ls_wk s i"] WWait by (simp add: worker_step_def unrun_def)
  next
    case WOwn
    obtain w where "ntt_worker_release env (ls_wk s i) = Some w" "lo_inv (set_wk i w (goto i WTop s))"
      by (rule release_own [OF inv i WOwn])
    then show ?thesis using WOwn by (simp add: worker_step_def)
  next
    case WTop
    let ?p = "if wk_stopped (ls_wk s i) then WLeft else WSvc"
    have "wk_ok (released s i) ?p (ls_wk s i)"
    proof (cases "wk_stopped (ls_wk s i)")
      case True
      then show ?thesis using ok WTop by (simp add: wk_ok_def stop_ok_def split: if_splits)
    next
      case False
      then show ?thesis using wk_ok_move [OF ok wk_ok_no_drain [OF ok], of WSvc] WTop by simp
    qed
    then show ?thesis using thread_goto [OF inv i, of ?p "ls_wk s i"] WTop by (simp add: worker_step_def unrun_def)
  next
    case WSvc
    let ?w = "ntt_process_nttup_signal_handler (ls_wk s i)"
    have "wk_ok (released s i) WBack ?w" 
    proof -
      have "wk_signals (ls_wk s i) \<noteq> 0" using go WSvc by (simp add: worker_waits_def)
      moreover have "stop_ok WBack ?w"
        using ok WSvc stop_ok_move [of WSvc "ls_wk s i" WBack ?w]
        by (simp add: wk_ok_def ntt_process_nttup_signal_handler_def)
      ultimately show ?thesis using ok WSvc
        by (cases "wk_tasks (ls_wk s i) = []") (simp_all add: wk_ok_def ntt_process_nttup_signal_handler_def)
    qed
    then show ?thesis using thread_goto [OF inv i, of WBack ?w] WSvc
      by (simp add: worker_step_def unrun_def ntt_process_nttup_signal_handler_def Let_def)
  next
    case WBack
    show ?thesis
    proof (cases "wk_need_drain (ls_wk s i)")
      case True
      then show ?thesis using run_local_inv [OF inv i WBack] WBack by (simp add: worker_step_def)
    next
      case False
      have "wk_ok (released s i) WTop (ls_wk s i)" 
        by (rule wk_ok_move [OF ok False]) (simp_all add: WBack)
      then show ?thesis using thread_goto [OF inv i, of WTop "ls_wk s i"] WBack False by (simp add: worker_step_def unrun_def)
    qed
  next
    case WRan
    then show ?thesis using next_local_inv [OF inv i WRan] by (simp add: worker_step_def)
  next
    case WLeft
    then show ?thesis using go by (simp add: worker_waits_def)
  qed
qed

end
