(* ===== verification/Loop_Acts.thy ===== *)
theory Loop_Acts
  imports Loop_Step
begin

section \<open>Work\<close>

lemma lo_inv_work: "lo_inv s \<Longrightarrow> lo_work s"
  by (simp add: lo_inv_def)

lemma lo_inv_work_same:
  assumes "lo_inv s" "lo_work s'" "lo_enter (ls_loop s') (ls_pc s')" "ls_leave s' = ls_leave s \<or> ls_leave s = None \<and> ls_leave s' = Some 0"
    "lo_width (ls_loop s') = lo_width (ls_loop s)" "ls_wk s' = ls_wk s" "ls_pc s' = ls_pc s"
    "ls_log s' = ls_log s" "ls_refs s' = ls_refs s" "ls_next s' = ls_next s" "ls_push s' = ls_push s"
  shows "lo_inv s'"
proof -
  have "released s' = released s" using assms(4) by (auto simp: released_def fun_eq_iff)
  then show ?thesis using assms by (simp add: lo_inv_def lo_workers_def lo_tasks_def)
qed

lemma lo_enter_loop [simp]:
  "lo_enter (l\<lparr>lo_work_cnt := c\<rparr>) pc = lo_enter l pc"
  by (simp add: lo_enter_def)

lemma all_counted:
  assumes "lo_inv s" "\<not> ls_boot s \<or> 0 < ls_others s \<or> ls_push s \<noteq> {#} \<or> (\<exists>i < ls_width s. ls_pc s i = WSvc)"
  shows "\<forall>i < ls_width s. counted (ls_pc s i)"
  using assms lo_inv_work [OF assms(1)] lo_inv_enter [OF assms(1)]
  by (auto simp: lo_work_def lo_enter_def dest: spec [where x = WSvc])

lemma work_enter_inv:
  assumes inv: "lo_inv s" and "lo_enabled s LoWorkEnter"
  shows "\<exists>s'. lo_do env LoWorkEnter s = Some s' \<and> lo_inv s'"
proof -
  let ?l = "(ls_loop s)\<lparr>lo_work_cnt := lo_work_cnt (ls_loop s) + 1\<rparr>"
  have work: "lo_work s" using inv by (simp add: lo_inv_def)
  have all: "\<forall>i < ls_width s. counted (ls_pc s i)" by (rule all_counted [OF inv]) (use assms(2) in auto)
  have pos: "0 < unat (lo_work_cnt (ls_loop s))" using work assms(2) by (auto simp: lo_work_def)
  have "unat (lo_work_cnt (ls_loop s) + 1) = unat (lo_work_cnt (ls_loop s)) + 1"
    using assms(2) by (subst unat_add64_noflow) auto
  moreover from this have "lo_work_cnt (ls_loop s) + 1 \<noteq> 0" by (metis add_is_0 unat_0 zero_neq_one)
  ultimately have "lo_work (s\<lparr>ls_loop := ?l, ls_others := ls_others s + 1\<rparr>)"
    using work all pos by (auto simp: lo_work_def)
  then have "lo_inv (s\<lparr>ls_loop := ?l, ls_others := ls_others s + 1\<rparr>)"
    by (rule lo_inv_work_same [OF inv]) (simp_all add: lo_inv_enter [OF inv])
  then show ?thesis using pos by (simp add: ntt_loop_work_enter_def ntt_assert_def word_less_nat_alt)
qed

text \<open>Dropping work that is counted.\<close>

lemma leave_work_inv:
  assumes inv: "lo_inv s" and cnt: "of_bool boot + others + size (ls_push s) + 1 = unat (lo_work_cnt (ls_loop s))"
    and all: "\<forall>i < ls_width s. counted (ls_pc s i)"
  shows "\<exists>s'. leave_work env (s\<lparr>ls_boot := boot, ls_others := others\<rparr>) = Some s' \<and> lo_inv s'"
proof -
  let ?l = "(ls_loop s)\<lparr>lo_work_cnt := lo_work_cnt (ls_loop s) - 1\<rparr>"
  let ?s = "s\<lparr>ls_boot := boot, ls_others := others, ls_loop := ?l\<rparr>"
  let ?t = "if lo_work_cnt (ls_loop s) = 1 then ?s\<lparr>ls_leave := Some 0, ls_caught := lo_entered (ls_loop s)\<rparr> else ?s"
  have work: "lo_work s" using inv by (simp add: lo_inv_def)
  have ne: "lo_work_cnt (ls_loop s) \<noteq> 0" using cnt by auto
  then have sub: "unat (lo_work_cnt (ls_loop s) - 1) = of_bool boot + others + size (ls_push s)"
    using cnt by (simp add: unat_minus_one)
  have none: "ls_leave s = None" using work ne by (simp add: lo_work_def)
  have len: "length (lo_entered (ls_loop s)) = ls_width s" using lo_inv_enter [OF inv] by (simp add: lo_enter_def)
  have "lo_entered (ls_loop s) ! i" if "i < ls_width s" for i
    using lo_inv_enter [OF inv] all that by (cases "ls_pc s i") (auto simp: lo_enter_def)
  then have caught: "lo_entered (ls_loop s) = replicate (ls_width s) True"
    using len by (intro nth_equalityI) simp_all
  have "lo_work ?t" using work sub all none caught by (auto simp: lo_work_def)
  then have "lo_inv ?t"
    by (rule lo_inv_work_same [OF inv]) (use lo_inv_enter [OF inv] none in \<open>simp_all split: if_splits\<close>)
  then show ?thesis using ne
    by (simp add: leave_work_def work_drop_def ntt_assert_def word_gt_0 split: if_splits)
qed

section \<open>Releasing the workers\<close>

lemma release_next:
  assumes inv: "lo_inv s" and "lo_enabled s LoRelease"
  obtains k w where "ls_leave s = Some k" "k < ls_width s" "wk_refs (ls_wk s k) \<noteq> 0"
    "work_release env (ls_caught s) k (ls_wk s k) = Some w" "wk_ok True (ls_pc s k) w"
    "wk_refs (ls_wk s k) \<noteq> 1 \<longrightarrow> wk_tasks w = wk_tasks (ls_wk s k) \<and> wk_refs w \<noteq> 0"
    "wk_refs (ls_wk s k) = 1 \<longrightarrow> wk_tasks w = wk_tasks (ls_wk s k) @ [LStop] \<and> wk_refs w = 0"
    "wk_need_drain w = wk_need_drain (ls_wk s k)"
proof -
  obtain k where k: "ls_leave s = Some k" "k < length (ls_caught s)" using assms(2) by (auto split: option.splits)
  have caught: "ls_caught s = replicate (ls_width s) True" using inv k by (simp add: lo_inv_def lo_work_def)
  have w0: "lo_work_cnt (ls_loop s) = 0" using inv k by (auto simp: lo_inv_def lo_work_def)
  then have "\<not> ls_boot s" using inv by (auto simp: lo_inv_def lo_work_def)
  then have "counted (ls_pc s k)" using all_counted [OF inv] k caught by auto
  then have listed: "listed (ls_pc s k)" by (cases "ls_pc s k") auto
  have kn: "k < ls_width s" using k(2) caught by simp
  have ok: "wk_ok False (ls_pc s k) (ls_wk s k)" using lo_inv_worker [OF inv kn] k(1) by (simp add: released_def)
  have refs: "unat (wk_refs (ls_wk s k)) = Suc (of_bool (owns (ls_pc s k)) + of_bool (listed (ls_pc s k) \<and> \<not> True))"
    using ok listed by (simp add: wk_ok_def)
  then have "wk_refs (ls_wk s k) \<noteq> 0" by auto
  obtain w where w: "ntt_worker_release env (ls_wk s k) = Some w" "wk_ok True (ls_pc s k) w"
    "wk_refs (ls_wk s k) \<noteq> 1 \<Longrightarrow> wk_tasks w = wk_tasks (ls_wk s k) \<and> wk_refs w \<noteq> 0"
    "wk_refs (ls_wk s k) = 1 \<Longrightarrow> wk_tasks w = wk_tasks (ls_wk s k) @ [LStop] \<and> wk_refs w = 0"
    "wk_need_drain w = wk_need_drain (ls_wk s k)"
    by (rule worker_release_ok [OF ok \<open>wk_refs (ls_wk s k) \<noteq> 0\<close> refs, where env = env]) (simp_all add: listed)
  show thesis
    by (rule that [OF k(1) kn \<open>wk_refs (ls_wk s k) \<noteq> 0\<close> _ w(2)])
      (use w kn in \<open>simp_all add: work_release_def caught\<close>)
qed

lemma release_inv:
  assumes inv: "lo_inv s" and en: "lo_enabled s LoRelease"
  shows "\<exists>s'. lo_do env LoRelease s = Some s' \<and> lo_inv s'"
proof -
  obtain k w where k: "ls_leave s = Some k" "k < ls_width s" "wk_refs (ls_wk s k) \<noteq> 0"
    and w: "work_release env (ls_caught s) k (ls_wk s k) = Some w" "wk_ok True (ls_pc s k) w"
    "wk_refs (ls_wk s k) \<noteq> 1 \<longrightarrow> wk_tasks w = wk_tasks (ls_wk s k) \<and> wk_refs w \<noteq> 0"
    "wk_refs (ls_wk s k) = 1 \<longrightarrow> wk_tasks w = wk_tasks (ls_wk s k) @ [LStop] \<and> wk_refs w = 0"
    "wk_need_drain w = wk_need_drain (ls_wk s k)"
    by (rule release_next [OF inv en, where env = env])
  let ?s = "set_wk k w (s\<lparr>ls_leave := Some (k + 1)\<rparr>)"
  have ok: "wk_ok False (ls_pc s k) (ls_wk s k)" using lo_inv_worker [OF inv k(2)] k(1) by (simp add: released_def)
  have "released ?s i = (if i = k then True else released s i)" for i using k(1) by (auto simp: released_def)
  then have "lo_workers ?s" using inv w(2) k by (simp add: lo_inv_def lo_workers_def)
  moreover have "lo_work ?s" using inv k by (auto simp: lo_inv_def lo_work_def)
  moreover have "lo_tasks ?s"
  proof -
    have ne: "ls_pc s k = WRan \<Longrightarrow> wk_tasks (ls_wk s k) \<noteq> []" using ok by (auto simp: wk_ok_def)
    have "count_list (unrun (ls_pc s k) w) t = count_list (unrun (ls_pc s k) (ls_wk s k)) t" if "t \<noteq> LStop" for t
      using w(3,4) ne that by (cases "wk_refs (ls_wk s k) = 1") (auto simp: unrun_def)
    then have "tasks_kept (ls_width s) (ls_log s) (ls_unrun ?s)"
      using inv by (simp add: lo_inv_def lo_tasks_def tasks_kept_def)
    then show ?thesis using inv by (simp add: lo_inv_def lo_tasks_def)
  qed
  ultimately have "lo_inv ?s" using inv by (simp add: lo_inv_def)
  then show ?thesis using k w(1) by simp
qed

section \<open>Tasks and barriers\<close>

text \<open>While there is work, every worker that has entered is held, and takes tasks.\<close>

lemma push_ok:
  assumes inv: "lo_inv s" and i: "i < ls_width s" and "lo_work_cnt (ls_loop s) \<noteq> 0"
    and all: "\<forall>i < ls_width s. counted (ls_pc s i)" and t: "t \<noteq> LStop"
  shows "push_at (ls_loop s) i (ls_wk s i) t = Some (ntt_worker_push_task (ls_wk s i) t)"
    and "wk_ok (released s i) (ls_pc s i) (ntt_worker_push_task (ls_wk s i) t)"
    and "unrun (ls_pc s i) (ntt_worker_push_task (ls_wk s i) t) = unrun (ls_pc s i) (ls_wk s i) @ [t]"
proof -
  have "counted (ls_pc s i)" using all i by blast
  then have listed: "listed (ls_pc s i)" by (cases "ls_pc s i") auto
  note ok = lo_inv_worker [OF inv i]
  have "\<not> released s i" using inv assms(3) by (auto simp: lo_inv_def lo_work_def released_def)
  then have "wk_refs (ls_wk s i) \<noteq> 0" using ok listed by (auto simp: wk_ok_def)
  from wk_ok_push [OF ok this t listed] unrun_push [OF ok]
  show "wk_ok (released s i) (ls_pc s i) (ntt_worker_push_task (ls_wk s i) t)"
    "unrun (ls_pc s i) (ntt_worker_push_task (ls_wk s i) t) = unrun (ls_pc s i) (ls_wk s i) @ [t]" by simp_all
  show "push_at (ls_loop s) i (ls_wk s i) t = Some (ntt_worker_push_task (ls_wk s i) t)"
    using lo_inv_enter [OF inv] listed i by (simp add: push_at_def lo_enter_def)
qed

lemma tasks_kept_push:
  assumes "U' = U(i := U i @ [t])" "tasks_kept n l U"
  shows "tasks_kept n (l @ [LPushed i t]) U'"
  using assms by (auto simp: tasks_kept_def)

lemma barriers_ran_push [simp]: "barriers_ran n (l @ [LPushed i t]) R m = barriers_ran n l R m"
  by (simp add: barriers_ran_def)

lemma push_task_inv:
  assumes inv: "lo_inv s" and en: "lo_enabled s (LoPushTask i k)"
  shows "\<exists>s'. lo_do env (LoPushTask i k) s = Some s' \<and> lo_inv s'"
proof -
  have i: "i < ls_width s" using en by simp
  have all: "\<forall>i < ls_width s. counted (ls_pc s i)" by (rule all_counted [OF inv]) (use en in auto)
  have "lo_work_cnt (ls_loop s) \<noteq> 0" using inv en by (auto simp: lo_inv_def lo_work_def)
  note p = push_ok [OF inv i this all, of "LUser k"]
  let ?w = "ntt_worker_push_task (ls_wk s i) (LUser k)"
  let ?s = "record_log (LPushed i (LUser k)) (set_wk i ?w s)"
  have "ls_unrun ?s = (ls_unrun s)(i := ls_unrun s i @ [LUser k])" using p(3) by auto
  from tasks_kept_push [OF this] have "tasks_kept (ls_width s) (ls_log ?s) (ls_unrun ?s)"
    using inv by (simp add: lo_inv_def lo_tasks_def)
  then have "lo_tasks ?s" using inv by (simp add: lo_inv_def lo_tasks_def parts_pushed_def)
  moreover have "lo_workers ?s" using inv p(2) by (simp add: lo_inv_def lo_workers_def released_def)
  ultimately have "lo_inv ?s" using inv by (simp add: lo_inv_def lo_work_def)
  then show ?thesis using p(1) by simp
qed

lemma to_push_add [simp]: "to_push (add_mset (c, k) P) b i = to_push P b i + of_bool (c = b \<and> k \<le> i)"
  by (auto simp: to_push_def)

lemma to_push_empty [simp]: "to_push {#} b i = 0"
  by (simp add: to_push_def)

lemma push_barrier_inv:
  assumes inv: "lo_inv s" and en: "lo_enabled s (LoPushBarrier b i)"
  shows "\<exists>s'. lo_do env (LoPushBarrier b i) s = Some s' \<and> lo_inv s'"
proof -
  have i: "i < ls_width s" using en by simp
  obtain P where P: "ls_push s = add_mset (b, i) P" using en by (auto dest: multi_member_split)
  have all: "\<forall>i < ls_width s. counted (ls_pc s i)" by (rule all_counted [OF inv]) (use P in auto)
  have "lo_work_cnt (ls_loop s) \<noteq> 0" using inv P by (auto simp: lo_inv_def lo_work_def)
  note p = push_ok [OF inv i this all, of "LBarrier b"]
  let ?w = "ntt_worker_push_task (ls_wk s i) (LBarrier b)"
  let ?s = "record_log (LPushed i (LBarrier b)) (set_wk i ?w (s\<lparr>ls_push := add_mset (b, i + 1) P\<rparr>))"
  have "ls_unrun ?s = (ls_unrun s)(i := ls_unrun s i @ [LBarrier b])" using p(3) by auto
  from tasks_kept_push [OF this] have "tasks_kept (ls_width s) (ls_log ?s) (ls_unrun ?s)"
    using inv by (simp add: lo_inv_def lo_tasks_def)
  moreover have "parts_pushed (ls_width s) (ls_log ?s) (ls_push ?s) (ls_next s)"
  proof -
    have old: "count_list (ls_log s) (LPushed j (LBarrier c)) + to_push P c j + of_bool (b = c \<and> i \<le> j) = of_bool (c < ls_next s)"
      if "j < ls_width s" for j c
      using inv P that by (simp add: lo_inv_def lo_tasks_def parts_pushed_def add.assoc)
    show ?thesis unfolding parts_pushed_def
    proof (intro allI impI)
      fix j c assume "j < ls_width s"
      moreover have "of_bool (b = c \<and> i \<le> j) = (of_bool (b = c \<and> Suc i \<le> j) + of_bool (b = c \<and> i = j) :: nat)" by auto
      ultimately have "count_list (ls_log s) (LPushed j (LBarrier c)) + to_push P c j
          + (of_bool (b = c \<and> Suc i \<le> j) + of_bool (b = c \<and> i = j)) = of_bool (c < ls_next s)"
        using old [of j c] by argo
      then show "count_list (ls_log ?s) (LPushed j (LBarrier c)) + to_push (ls_push ?s) c j = of_bool (c < ls_next s)"
        by (cases "i = j"; cases "b = c") simp_all
    qed
  qed
  ultimately have "lo_tasks ?s" using inv by (simp add: lo_inv_def lo_tasks_def)
  moreover have "lo_workers ?s" using inv p(2) by (simp add: lo_inv_def lo_workers_def released_def)
  moreover have "lo_work ?s" using inv P i by (auto simp: lo_inv_def lo_work_def)
  ultimately have "lo_inv ?s" using inv by (simp add: lo_inv_def)
  then show ?thesis using p(1) P by simp
qed

text \<open>A barrier that is not there yet has no parts.\<close>

lemma no_parts:
  assumes "tasks_kept n l U" "parts_pushed n l P m" "\<not> b < m"
  shows "parts n l b = 0"
proof -
  have "count_list l (LRan i (LBarrier b)) = 0" if "i < n" for i
  proof -
    have "count_list l (LPushed i (LBarrier b)) + to_push P b i = of_bool (b < m)"
      using assms(2) that by (simp add: parts_pushed_def)
    then have "count_list l (LPushed i (LBarrier b)) = 0" using assms(3) by simp
    moreover have "count_list l (LPushed i (LBarrier b)) = count_list l (LRan i (LBarrier b)) + count_list (U i) (LBarrier b)"
      using assms(1) that by (simp add: tasks_kept_def)
    ultimately show ?thesis by linarith
  qed
  then show ?thesis by (simp add: parts_def)
qed

lemma barrier_inv:
  assumes inv: "lo_inv s" and en: "lo_enabled s LoBarrier"
  shows "\<exists>s'. lo_do env LoBarrier s = Some s' \<and> lo_inv s'"
proof -
  let ?n = "ls_width s" and ?m = "ls_next s"
  let ?R = "(ls_refs s)(?m := int ?n)" and ?P = "add_mset (?m, 0) (ls_push s)"
  let ?s = "s\<lparr>ls_others := ls_others s - 1, ls_next := ?m + 1, ls_refs := ?R, ls_push := ?P\<rparr>"
  have tasks: "tasks_kept ?n (ls_log s) (ls_unrun s)" "parts_pushed ?n (ls_log s) (ls_push s) ?m"
    "barriers_ran ?n (ls_log s) (ls_refs s) ?m" using inv by (simp_all add: lo_inv_def lo_tasks_def)
  have n: "0 < ?n" using lo_inv_enter [OF inv] by (simp add: lo_enter_def)
  have all: "\<forall>i < ?n. counted (ls_pc s i)" by (rule all_counted [OF inv]) (use en in auto)
  have "parts_pushed ?n (ls_log s) ?P (?m + 1)"
    unfolding parts_pushed_def
  proof (intro allI impI)
    fix i b assume "i < ?n"
    then have "count_list (ls_log s) (LPushed i (LBarrier b)) + to_push (ls_push s) b i = of_bool (b < ?m)"
      using tasks(2) by (simp add: parts_pushed_def)
    then show "count_list (ls_log s) (LPushed i (LBarrier b)) + to_push ?P b i = of_bool (b < ?m + 1)"
      by (cases "b < ?m"; cases "b = ?m") auto
  qed
  moreover have "barriers_ran ?n (ls_log s) ?R (?m + 1)"
    unfolding barriers_ran_def
  proof
    fix b
    have b: "ls_refs s b = (if b < ?m then int ?n - int (parts ?n (ls_log s) b) else 0) \<and>
        count_list (ls_log s) (LBarrierRan b) = of_bool (b < ?m \<and> parts ?n (ls_log s) b = ?n)"
      using tasks(3) by (simp add: barriers_ran_def)
    show "?R b = (if b < ?m + 1 then int ?n - int (parts ?n (ls_log s) b) else 0) \<and>
        count_list (ls_log s) (LBarrierRan b) = of_bool (b < ?m + 1 \<and> parts ?n (ls_log s) b = ?n)"
      using b no_parts [OF tasks(1,2), of b] n by (cases "b < ?m"; cases "b = ?m") auto
  qed
  ultimately have "lo_tasks ?s" using tasks(1) by (simp add: lo_tasks_def)
  moreover have "lo_workers ?s" using inv by (simp add: lo_inv_def lo_workers_def released_def)
  moreover have "lo_work ?s"
  proof -
    have "\<forall>(b, k) \<in># ls_push s. b < ?m + 1 \<and> k \<le> ?n"
      using inv less_SucI by (fastforce simp: lo_inv_def lo_work_def)
    then show ?thesis using inv en all by (simp add: lo_inv_def lo_work_def)
  qed
  ultimately show ?thesis using inv by (simp add: lo_inv_def)
qed

lemma pushed_inv:
  assumes inv: "lo_inv s" and en: "lo_enabled s (LoPushed b i)"
  shows "\<exists>s'. lo_do env (LoPushed b i) s = Some s' \<and> lo_inv s'"
proof -
  obtain P where P: "ls_push s = add_mset (b, i) P" using en by (auto dest: multi_member_split)
  let ?s = "s\<lparr>ls_push := P, ls_others := ls_others s + 1\<rparr>"
  have all: "\<forall>i < ls_width s. counted (ls_pc s i)" by (rule all_counted [OF inv]) (use P in auto)
  have "parts_pushed (ls_width s) (ls_log s) P (ls_next s)"
    using inv P en by (simp add: lo_inv_def lo_tasks_def parts_pushed_def)
  then have "lo_tasks ?s" using inv by (simp add: lo_inv_def lo_tasks_def)
  moreover have "lo_workers ?s" using inv by (simp add: lo_inv_def lo_workers_def released_def)
  moreover have "lo_work ?s" using inv P all by (simp add: lo_inv_def lo_work_def)
  ultimately show ?thesis using inv P by (simp add: lo_inv_def)
qed

section \<open>Every step\<close>

lemma interrupt_inv:
  assumes inv: "lo_inv s" and en: "lo_enabled s (LoInterrupt i)"
  shows "lo_inv (goto i WBack s)"
proof -
  have i: "i < ls_width s" and pc: "ls_pc s i = WSvc" using en by simp_all
  note ok = lo_inv_worker [OF inv i]
  have "wk_ok (released s i) WBack (ls_wk s i)"
    by (rule wk_ok_move [OF ok wk_ok_no_drain [OF ok]]) (simp_all add: pc)
  from thread_goto [OF inv i _ this] pc show ?thesis by (simp add: unrun_def)
qed

lemma lo_do_inv:
  assumes inv: "lo_inv s" and en: "lo_enabled s a"
  shows "\<exists>s'. lo_do env a s = Some s' \<and> lo_inv s'"
proof (cases a)
  case (LoThread i)
  then show ?thesis using thread_inv inv en by simp
next
  case (LoInterrupt i)
  then show ?thesis using interrupt_inv inv en by simp
next
  case LoWorkLeave
  have "of_bool (ls_boot s) + (ls_others s - 1) + size (ls_push s) + 1 = unat (lo_work_cnt (ls_loop s))"
    using inv en LoWorkLeave by (simp add: lo_inv_def lo_work_def)
  from leave_work_inv [OF inv this all_counted [OF inv], of env] show ?thesis using en LoWorkLeave by simp
next
  case (LoBoot i)
  have "of_bool False + ls_others s + size (ls_push s) + 1 = unat (lo_work_cnt (ls_loop s))"
    using inv en LoBoot by (simp add: lo_inv_def lo_work_def)
  from leave_work_inv [OF inv this all_counted [OF inv], of env] show ?thesis using en LoBoot by auto
next
  case LoDestroy
  have "lo_inv (s\<lparr>ls_destroyed := True\<rparr>)"
    using inv en LoDestroy by (auto simp: lo_inv_def lo_work_def lo_tasks_def lo_workers_def released_def)
  then show ?thesis using LoDestroy by simp
qed (use inv en work_enter_inv release_inv push_task_inv barrier_inv push_barrier_inv pushed_inv in blast)+

lemma clamp_width_pos: "0 < unat (ntt_loop_clamp_width w)" "unat (ntt_loop_clamp_width w) \<le> 8"
  by (auto simp: ntt_loop_clamp_width_def NTT_MAX_LOOP_WIDTH_def word_less_nat_alt not_less unat_gt_0)

lemma loop_run_inv: "\<exists>s. ntt_loop_run env w = Some s \<and> lo_inv s"
proof -
  let ?s = "(loop_start (ntt_loop_clamp_width w))\<lparr>ls_boot := True, ls_others := 0\<rparr>"
  have "ntt_loop_run env w = Some ?s"
    by (simp add: ntt_loop_run_def loop_start_def leave_work_def work_drop_def ntt_loop_work_enter_def ntt_assert_def Let_def)
  moreover have "lo_inv ?s"
    using clamp_width_pos [of w] by (simp add: lo_inv_def lo_workers_def wk_ok_def stop_ok_def ntt_worker_init_def loop_start_def
        lo_enter_def lo_work_def lo_tasks_def tasks_kept_def parts_pushed_def barriers_ran_def unrun_def released_def)
  ultimately show ?thesis by blast
qed

lemma lo_reachable_inv: "lo_reachable env w s \<Longrightarrow> lo_inv s"
proof (induction rule: lo_reachable.induct)
  case (lo_begin s)
  then show ?case using loop_run_inv [of env w] by auto
next
  case (lo_next s a s')
  then show ?case using lo_do_inv [of s a env] by auto
qed

end
