(* ===== verification/Loop_Live.thy ===== *)
theory Loop_Live
  imports Loop_Acts Draining
begin

text \<open>
  A loop ends: when work is only dropped, the threads of the workers come to their end, and the loop is destroyed.
  \<open>lo_winding\<close> is an interpretation of \<open>draining\<close>.
\<close>

section \<open>What is left to do\<close>

text \<open>The steps that take no new work and are no idle turn of a worker.\<close>

fun winds :: "lo_act \<Rightarrow> bool" where
  "winds (LoInterrupt i) \<longleftrightarrow> False"
| "winds LoWorkEnter \<longleftrightarrow> False"
| "winds (LoPushTask i k) \<longleftrightarrow> False"
| "winds LoBarrier \<longleftrightarrow> False"
| "winds a \<longleftrightarrow> True"

definition lo_wind :: "env \<Rightarrow> loop_sys \<Rightarrow> loop_sys \<Rightarrow> bool" where
  "lo_wind env s s' \<longleftrightarrow> (\<exists>a. winds a \<and> lo_enabled s a \<and> lo_do env a s = Some s')"

fun pc_work :: "wk_pc \<Rightarrow> bool \<Rightarrow> nat" where
  "pc_work WNew d = 9"
| "pc_work WEnter d = 8"
| "pc_work WCount d = 7"
| "pc_work WWait d = 6"
| "pc_work WOwn d = 5"
| "pc_work WTop d = 4"
| "pc_work WSvc d = 3"
| "pc_work WBack d = (if d then 2 else 5)"
| "pc_work WRan d = 1"
| "pc_work WLeft d = 0"

definition wk_work :: "wk_pc \<Rightarrow> ntt_worker \<Rightarrow> nat" where
  "wk_work p w = 4 * length (wk_tasks w) + 5 * of_bool (wk_refs w \<noteq> 0) + pc_work p (wk_need_drain w)"

fun to_release :: "nat \<Rightarrow> nat option \<Rightarrow> nat" where
  "to_release n None = n + 1"
| "to_release n (Some k) = n - k"

definition lo_left :: "loop_sys \<Rightarrow> nat" where
  "lo_left s = (\<Sum>i < ls_width s. wk_work (ls_pc s i) (ls_wk s i)) + of_bool (ls_boot s) + ls_others s
     + (\<Sum>(b, k) \<in># ls_push s. 5 * (ls_width s - k) + 2)
     + to_release (ls_width s) (ls_leave s) + of_bool (\<not> ls_destroyed s)"

section \<open>Every step uses up some of it\<close>

lemma run_local_work:
  assumes "run_local i s = Some s'" "wk_need_drain (ls_wk s i)"
  shows "same_rest s s' \<and> (\<forall>j. j \<noteq> i \<longrightarrow> ls_pc s' j = ls_pc s j \<and> ls_wk s' j = ls_wk s j) \<and>
    wk_work (ls_pc s' i) (ls_wk s' i) + 1 = wk_work WBack (ls_wk s i)"
  using assms by (auto simp: run_local_def same_rest_def ntt_barrier_svc_def wk_work_def ntt_worker_stop_task_svc_def Let_def
      split: list.splits local_task.splits if_splits)

lemma release_work:
  assumes "wk_refs w \<noteq> 0" "wk_refs w \<noteq> 1 \<longrightarrow> wk_tasks w' = wk_tasks w \<and> wk_refs w' \<noteq> 0"
    "wk_refs w = 1 \<longrightarrow> wk_tasks w' = wk_tasks w @ [LStop] \<and> wk_refs w' = 0" "wk_need_drain w' = wk_need_drain w"
  shows "wk_work p w' \<le> wk_work p w"
  using assms by (cases "wk_refs w = 1") (simp_all add: wk_work_def)

lemma release_own_work:
  assumes inv: "lo_inv s" and i: "i < ls_width s" and pc: "ls_pc s i = WOwn"
    and w: "ntt_worker_release env (ls_wk s i) = Some w"
  shows "wk_work WTop w < wk_work WOwn (ls_wk s i)"
proof -
  have ok: "wk_ok (released s i) WOwn (ls_wk s i)" using lo_inv_worker [OF inv i] pc by simp
  then have refs: "wk_refs (ls_wk s i) \<noteq> 0"
    "unat (wk_refs (ls_wk s i)) = Suc (of_bool (owns WTop) + of_bool (listed WTop \<and> \<not> released s i))"
    by (auto simp: wk_ok_def)
  have "wk_work WOwn w \<le> wk_work WOwn (ls_wk s i)"
    by (rule worker_release_ok [OF ok refs, where env = env]) (use w refs(1) in \<open>auto intro!: release_work\<close>)
  then show ?thesis by (simp add: wk_work_def)
qed

lemma thread_work:
  assumes inv: "lo_inv s" and en: "lo_enabled s (LoThread i)" and step: "worker_step env i s = Some s'"
  shows "same_rest s s' \<and> (\<forall>j. j \<noteq> i \<longrightarrow> ls_pc s' j = ls_pc s j \<and> ls_wk s' j = ls_wk s j) \<and>
    wk_work (ls_pc s' i) (ls_wk s' i) < wk_work (ls_pc s i) (ls_wk s i)"
proof -
  have i: "i < ls_width s" and go: "\<not> worker_waits i s" using en by auto
  note ok = lo_inv_worker [OF inv i]
  show ?thesis
  proof (cases "ls_pc s i")
    case WNew
    then have "wk_refs (ls_wk s i) \<noteq> 0" "wk_tasks (ls_wk s i) = []" using ok by (auto simp: wk_ok_def)
    then show ?thesis using step WNew by (auto simp: worker_step_def same_rest_def wk_work_def ntt_worker_init_def)
  next
    case WEnter
    then have "wk_refs (ls_wk s i) \<noteq> 0" using ok by (auto simp: wk_ok_def)
    then show ?thesis using step WEnter
      by (auto simp: worker_step_def same_rest_def wk_work_def enter_publish_def ntt_worker_acquire_def bind_eq_Some_conv Let_def)
  next
    case WOwn
    then show ?thesis using step release_own_work [OF inv i WOwn]
      by (auto simp: worker_step_def same_rest_def bind_eq_Some_conv)
  next
    case WBack
    show ?thesis
    proof (cases "wk_need_drain (ls_wk s i)")
      case True
      then show ?thesis using step WBack run_local_work [of i s s'] by (simp add: worker_step_def)
    next
      case False
      then show ?thesis using step WBack by (auto simp: worker_step_def same_rest_def wk_work_def)
    qed
  next
    case WRan
    then have drain: "wk_need_drain (ls_wk s i)" using ok by (simp add: wk_ok_def)
    then obtain t rest where tasks: "wk_tasks (ls_wk s i) = t # rest"
      using ok by (cases "wk_tasks (ls_wk s i)") (auto simp: wk_ok_def)
    show ?thesis
    proof (cases "rest = []")
      case True
      then show ?thesis using step WRan tasks by (auto simp: worker_step_def next_local_def same_rest_def wk_work_def)
    next
      case False
      let ?s = "set_wk i ((ls_wk s i)\<lparr>wk_tasks := rest\<rparr>) (goto i WBack s)"
      have "run_local i ?s = Some s'" using step WRan tasks False by (simp add: worker_step_def next_local_def)
      from run_local_work [OF this] drain show ?thesis
        using WRan tasks by (auto simp: same_rest_def wk_work_def)
    qed
  next
    case WSvc
    then show ?thesis using step
      by (auto simp: worker_step_def same_rest_def wk_work_def ntt_process_nttup_signal_handler_def Let_def)
  next
    case WLeft
    then show ?thesis using go by (simp add: worker_waits_def)
  qed (use step in \<open>auto simp: worker_step_def same_rest_def wk_work_def enter_count_def\<close>)
qed

lemma sum_less_one:
  fixes f g :: "nat \<Rightarrow> nat"
  assumes "i < n" "f i < g i" "\<And>j. j \<noteq> i \<Longrightarrow> f j = g j"
  shows "(\<Sum>j < n. f j) < (\<Sum>j < n. g j)"
proof (rule sum_strict_mono_ex1)
  show "\<forall>j \<in> {..<n}. f j \<le> g j"
  proof
    fix j show "f j \<le> g j" using assms(2) assms(3) [of j] by (cases "j = i") auto
  qed
qed (use assms(1,2) in auto)

lemma sum_upd_le:
  fixes f g :: "nat \<Rightarrow> nat"
  assumes "f i \<le> g i + c" "\<And>j. j \<noteq> i \<Longrightarrow> f j = g j"
  shows "(\<Sum>j < n. f j) \<le> (\<Sum>j < n. g j) + c"
proof -
  have "f j \<le> g j + (if j = i then c else 0)" for j using assms(1) assms(2) [of j] by (cases "j = i") auto
  then have "(\<Sum>j < n. f j) \<le> (\<Sum>j < n. g j + (if j = i then c else 0))" by (rule sum_mono)
  also have "\<dots> \<le> (\<Sum>j < n. g j) + c" by (simp add: sum.distrib)
  finally show ?thesis .
qed

lemma leave_work_left:
  assumes "leave_work env s = Some s'" "ls_leave s = None"
  shows "lo_left s' \<le> lo_left s"
  using assms by (auto simp: leave_work_def work_drop_def lo_left_def bind_eq_Some_conv Let_def split: if_splits)

lemma no_leave: "lo_inv s \<Longrightarrow> ls_boot s \<or> 0 < ls_others s \<or> ls_push s \<noteq> {#} \<Longrightarrow> ls_leave s = None"
  by (auto simp: lo_inv_def lo_work_def)

lemma push_barrier_left:
  assumes inv: "lo_inv s" and en: "lo_enabled s (LoPushBarrier b i)" and step: "lo_do env (LoPushBarrier b i) s = Some s'"
  shows "lo_left s' < lo_left s"
proof -
  obtain P where P: "ls_push s = add_mset (b, i) P" using en by (auto dest: multi_member_split)
  let ?w = "ntt_worker_push_task (ls_wk s i) (LBarrier b)"
  let ?f = "\<lambda>j. wk_work (ls_pc s j) (((ls_wk s)(i := ?w)) j)" and ?g = "\<lambda>j. wk_work (ls_pc s j) (ls_wk s j)"
  have "wk_work (ls_pc s i) ?w = wk_work (ls_pc s i) (ls_wk s i) + 4"
    by (simp add: wk_work_def ntt_worker_push_task_def ntt_worker_local_queue_wakeup_def Let_def)
  then have "(\<Sum>j < ls_width s. ?f j) \<le> (\<Sum>j < ls_width s. ?g j) + 4" by (intro sum_upd_le [where i = i]) auto
  moreover have "s' = record_log (LPushed i (LBarrier b)) (set_wk i ?w (s\<lparr>ls_push := add_mset (b, i + 1) P\<rparr>))"
    using step P by (auto simp: push_at_def bind_eq_Some_conv split: if_splits)
  ultimately show ?thesis using en P by (simp add: lo_left_def del: fun_upd_apply)
qed

lemma release_left:
  assumes inv: "lo_inv s" and en: "lo_enabled s LoRelease" and step: "lo_do env LoRelease s = Some s'"
  shows "lo_left s' < lo_left s"
proof -
  obtain k w where k: "ls_leave s = Some k" "k < ls_width s" "wk_refs (ls_wk s k) \<noteq> 0"
    and w: "work_release env (ls_caught s) k (ls_wk s k) = Some w" "wk_ok True (ls_pc s k) w"
    "wk_refs (ls_wk s k) \<noteq> 1 \<longrightarrow> wk_tasks w = wk_tasks (ls_wk s k) \<and> wk_refs w \<noteq> 0"
    "wk_refs (ls_wk s k) = 1 \<longrightarrow> wk_tasks w = wk_tasks (ls_wk s k) @ [LStop] \<and> wk_refs w = 0"
    "wk_need_drain w = wk_need_drain (ls_wk s k)"
    by (rule release_next [OF inv en, where env = env])
  let ?f = "\<lambda>j. wk_work (ls_pc s j) (((ls_wk s)(k := w)) j)" and ?g = "\<lambda>j. wk_work (ls_pc s j) (ls_wk s j)"
  have "(\<Sum>j < ls_width s. ?f j) \<le> (\<Sum>j < ls_width s. ?g j) + 0"
    using release_work [OF k(3) w(3-5)] by (intro sum_upd_le [where i = k]) auto
  moreover have "s' = set_wk k w (s\<lparr>ls_leave := Some (k + 1)\<rparr>)" using step k(1) w(1) by simp
  ultimately show ?thesis using k(1,2) by (simp add: lo_left_def del: fun_upd_apply)
qed

lemma lo_wind_left:
  assumes inv: "lo_inv s" and "lo_wind env s s'"
  shows "lo_left s' < lo_left s"
proof -
  obtain a where a: "winds a" "lo_enabled s a" "lo_do env a s = Some s'" using assms(2) by (auto simp: lo_wind_def)
  show ?thesis
  proof (cases a)
    case (LoThread i)
    have t: "same_rest s s'" "\<And>j. j \<noteq> i \<Longrightarrow> ls_pc s' j = ls_pc s j \<and> ls_wk s' j = ls_wk s j"
      "wk_work (ls_pc s' i) (ls_wk s' i) < wk_work (ls_pc s i) (ls_wk s i)" "i < ls_width s"
      using thread_work [OF inv, of i env s'] a LoThread by auto
    then have "(\<Sum>j < ls_width s. wk_work (ls_pc s' j) (ls_wk s' j)) < (\<Sum>j < ls_width s. wk_work (ls_pc s j) (ls_wk s j))"
      by (intro sum_less_one [where i = i]) auto
    then show ?thesis using t(1) by (simp add: lo_left_def same_rest_def)
  next
    case LoWorkLeave
    then show ?thesis using a leave_work_left [of env "s\<lparr>ls_others := ls_others s - 1\<rparr>" s'] no_leave [OF inv]
      by (simp add: lo_left_def)
  next
    case (LoBoot i)
    then show ?thesis using a leave_work_left [of env "s\<lparr>ls_boot := False\<rparr>" s'] no_leave [OF inv]
      by (simp add: lo_left_def)
  next
    case (LoPushed b i)
    obtain P where "ls_push s = add_mset (b, i) P" using a LoPushed by (auto dest: multi_member_split)
    then show ?thesis using a LoPushed by (auto simp: lo_left_def)
  qed (use a inv push_barrier_left release_left in \<open>auto simp: lo_left_def\<close>)
qed

section \<open>And there is always a step\<close>

lemma idle_worker:
  assumes inv: "lo_inv s" and i: "i < ls_width s" and "ls_pc s i = WSvc" "worker_waits i s"
  shows "\<not> released s i"
proof
  assume "released s i"
  then have ok: "wk_ok True WSvc (ls_wk s i)" using lo_inv_worker [OF inv i] assms(3) by simp
  then have "wk_refs (ls_wk s i) = 0" "wk_tasks (ls_wk s i) = []"
    using assms(3,4) by (auto simp: wk_ok_def worker_waits_def)
  then show False using ok by (auto simp: wk_ok_def stop_ok_def)
qed

lemma lo_progress:
  assumes inv: "lo_inv s" and live: "\<not> ls_destroyed s"
  shows "\<exists>a. winds a \<and> lo_enabled s a"
proof (cases "\<exists>i < ls_width s. \<not> worker_waits i s")
  case True
  then obtain i where "lo_enabled s (LoThread i)" by auto
  then show ?thesis by (intro exI [of _ "LoThread i"]) simp
next
  case False
  then have wait: "worker_waits i s" if "i < ls_width s" for i using that by blast
  have "counted (ls_pc s i)" if "i < ls_width s" for i
    using wait [OF that] by (cases "ls_pc s i") (simp_all add: worker_waits_def)
  then have "\<not> lo_enter_cnt (ls_loop s) < lo_width (ls_loop s)" using lo_enter_all [OF lo_inv_enter [OF inv]] by simp
  then have pcs: "ls_pc s i = WSvc \<or> ls_pc s i = WLeft" if "i < ls_width s" for i
    using wait [OF that] by (cases "ls_pc s i") (simp_all add: worker_waits_def)
  show ?thesis
  proof (cases "\<forall>i < ls_width s. ls_pc s i = WLeft")
    case True
    then show ?thesis using live by (intro exI [of _ LoDestroy]) simp
  next
    case False
    then obtain i where i: "i < ls_width s" "ls_pc s i = WSvc" using pcs by blast
    have held: "\<not> released s i" using idle_worker [OF inv i] wait i by blast
    show ?thesis
    proof (cases "ls_leave s")
      case None
      then have "lo_work_cnt (ls_loop s) \<noteq> 0" using inv by (simp add: lo_inv_def lo_work_def)
      then have "ls_boot s \<or> 0 < ls_others s \<or> ls_push s \<noteq> {#}"
        using inv by (auto simp: lo_inv_def lo_work_def simp flip: unat_zero64)
      then consider "ls_boot s" | "0 < ls_others s" | b k where "(b, k) \<in># ls_push s" by auto
      then show ?thesis
      proof cases
        case 1
        then show ?thesis using i by (intro exI [of _ "LoBoot i"]) simp
      next
        case 2
        then show ?thesis by (intro exI [of _ LoWorkLeave]) simp
      next
        case (3 b k)
        then show ?thesis
          by (intro exI [of _ "if k < ls_width s then LoPushBarrier b k else LoPushed b k"]) simp
      qed
    next
      case (Some k)
      then have "k < length (ls_caught s)" using inv held i by (auto simp: lo_inv_def lo_work_def released_def)
      then show ?thesis using Some by (intro exI [of _ LoRelease]) simp
    qed
  qed
qed

interpretation lo_winding: draining "lo_wind env" lo_inv lo_left ls_destroyed for env
proof
  show "lo_inv s \<Longrightarrow> lo_wind env s s' \<Longrightarrow> lo_inv s'" for s s'
    using lo_do_inv [of s _ env] by (fastforce simp: lo_wind_def)
  show "lo_inv s \<Longrightarrow> lo_wind env s s' \<Longrightarrow> lo_left s' < lo_left s" for s s' by (rule lo_wind_left)
  show "lo_inv s \<Longrightarrow> \<not> ls_destroyed s \<Longrightarrow> \<exists>s'. lo_wind env s s'" for s
    using lo_progress [of s] lo_do_inv [of s _ env] unfolding lo_wind_def by meson
qed

end
