(* ===== verification/Loop_Props.thy ===== *)
theory Loop_Props
  imports Loop_Live Schedules
begin

text \<open>
  The properties of workers and loops. A schedule that runs a loop of two workers with a barrier to its end gives the
  witnesses.
\<close>

section \<open>A run of a loop\<close>

abbreviation lo_act_step :: "env \<Rightarrow> lo_act \<Rightarrow> loop_sys \<Rightarrow> loop_sys option" where
  "lo_act_step env \<equiv> guarded lo_enabled (lo_do env)"

interpretation lo_run: scheduled "lo_act_step env" "lo_reachable env w" for env w
  by unfold_locales (auto split: if_splits intro: lo_reachable.lo_next simp del: lo_do.simps lo_enabled.simps)

definition loop_env :: env where
  "loop_env = \<lparr>ndebug = False, can_alloc = (\<lambda>_. True)\<rparr>"

definition demo_enter_acts :: "lo_act list" where
  "demo_enter_acts = [LoThread 0, LoThread 0, LoThread 0,
     LoThread 1, LoThread 1, LoThread 1, LoThread 1, LoThread 1, LoThread 1, LoThread 0, LoThread 0, LoThread 0]"

definition demo_barrier_acts :: "lo_act list" where
  "demo_barrier_acts = [LoWorkEnter, LoBarrier, LoPushBarrier 0 0, LoPushBarrier 0 1, LoPushed 0 2,
     LoThread 0, LoThread 0, LoThread 1, LoThread 1]"

definition demo_end_acts :: "lo_act list" where
  "demo_end_acts = [LoThread 0, LoThread 0, LoThread 1, LoThread 1, LoWorkLeave, LoBoot 1, LoRelease, LoRelease,
     LoThread 0, LoThread 0, LoThread 0, LoThread 0, LoThread 1, LoThread 1, LoThread 1, LoThread 1, LoDestroy]"

text \<open>The two workers are in their service callbacks; the barrier has run; the loop is gone.\<close>

definition demo_entered :: loop_sys where
  "demo_entered = (loop_start 2)\<lparr>
     ls_loop := \<lparr>lo_work_cnt = 1, lo_enter_cnt = 2, lo_width = 2, lo_entered = [True, True]\<rparr>,
     ls_boot := True, ls_others := 0, ls_pc := ((\<lambda>_. WNew)(0 := WSvc))(1 := WSvc)\<rparr>"

abbreviation demo_part :: ntt_worker where
  "demo_part \<equiv> ntt_worker_init\<lparr>wk_tasks := [LBarrier 0], wk_need_drain := True\<rparr>"

definition demo_barrier :: loop_sys where
  "demo_barrier = demo_entered\<lparr>
     ls_loop := \<lparr>lo_work_cnt = 2, lo_enter_cnt = 2, lo_width = 2, lo_entered = [True, True]\<rparr>,
     ls_wk := ((\<lambda>_. ntt_worker_init)(0 := demo_part))(1 := demo_part),
     ls_pc := ((\<lambda>_. WNew)(0 := WRan))(1 := WRan), ls_others := 1, ls_next := 1,
     ls_log := [LPushed 0 (LBarrier 0), LPushed 1 (LBarrier 0), LRan 0 (LBarrier 0), LRan 1 (LBarrier 0), LBarrierRan 0]\<rparr>"

abbreviation demo_gone :: ntt_worker where
  "demo_gone \<equiv> ntt_worker_init\<lparr>wk_refs := 0, wk_stopped := True\<rparr>"

definition demo_destroyed :: loop_sys where
  "demo_destroyed = demo_barrier\<lparr>
     ls_loop := \<lparr>lo_work_cnt = 0, lo_enter_cnt = 2, lo_width = 2, lo_entered = [True, True]\<rparr>,
     ls_wk := ((\<lambda>_. ntt_worker_init)(0 := demo_gone))(1 := demo_gone),
     ls_pc := ((\<lambda>_. WNew)(0 := WLeft))(1 := WLeft), ls_boot := False, ls_others := 0,
     ls_leave := Some 2, ls_caught := [True, True], ls_log := ls_log demo_barrier @ [LRan 0 LStop, LRan 1 LStop],
     ls_destroyed := True\<rparr>"

lemmas lo_exec = worker_waits_def worker_step_def enter_publish_def enter_count_def ntt_worker_acquire_def
  ntt_worker_release_def ntt_worker_push_task_def ntt_worker_local_queue_wakeup_def ntt_assert_def
  ntt_process_nttup_signal_handler_def ntt_worker_stop_task_svc_def ntt_barrier_svc_def run_local_def next_local_def
  leave_work_def work_drop_def work_release_def push_at_def ntt_loop_work_enter_def ntt_worker_init_def Let_def

lemma demo_two: "replicate 2 x = [x, x]" "(\<exists>i. i < (2 :: nat)) \<longleftrightarrow> True" "Suc (Suc 0) = 2"
  by (auto simp: numeral_2_eq_2)

lemma demo_started: "lo_reachable loop_env 2 ((loop_start 2)\<lparr>ls_boot := True, ls_others := 0\<rparr>)"
proof (rule lo_begin)
  have "ntt_loop_clamp_width 2 = 2" by (simp add: ntt_loop_clamp_width_def NTT_MAX_LOOP_WIDTH_def)
  then show "ntt_loop_run loop_env 2 = Some ((loop_start 2)\<lparr>ls_boot := True, ls_others := 0\<rparr>)"
    by (simp add: ntt_loop_run_def loop_start_def leave_work_def work_drop_def ntt_loop_work_enter_def ntt_assert_def loop_env_def)
qed

lemma demo_entered_reached: "lo_reachable loop_env 2 demo_entered"
proof (rule lo_run.run_reach [OF demo_started])
  show "run_acts (lo_act_step loop_env) demo_enter_acts ((loop_start 2)\<lparr>ls_boot := True, ls_others := 0\<rparr>) = Some demo_entered"
    by (simp add: demo_enter_acts_def demo_entered_def loop_start_def loop_env_def lo_exec demo_two const_upd fun_upd_twist)
qed

lemma demo_barrier_reached: "lo_reachable loop_env 2 demo_barrier"
proof (rule lo_run.run_reach [OF demo_entered_reached])
  show "run_acts (lo_act_step loop_env) demo_barrier_acts demo_entered = Some demo_barrier"
    by (simp add: demo_barrier_acts_def demo_barrier_def demo_entered_def loop_start_def loop_env_def lo_exec demo_two const_upd fun_upd_twist)
qed

lemma demo_destroyed_reached: "lo_reachable loop_env 2 demo_destroyed"
proof (rule lo_run.run_reach [OF demo_barrier_reached])
  show "run_acts (lo_act_step loop_env) demo_end_acts demo_barrier = Some demo_destroyed"
    by (simp add: demo_end_acts_def demo_destroyed_def demo_barrier_def demo_entered_def loop_start_def loop_env_def lo_exec demo_two const_upd fun_upd_twist)
qed

section \<open>Helpers\<close>

lemma lo_do_width:
  assumes "lo_do env a s = Some s'"
  shows "lo_width (ls_loop s') = lo_width (ls_loop s)"
proof (cases a)
  case (LoThread i)
  then show ?thesis using assms
    by (cases "ls_pc s i") (auto simp: worker_step_def enter_publish_def enter_count_def run_local_def next_local_def ntt_barrier_svc_def
        bind_eq_Some_conv Let_def split: if_splits list.splits local_task.splits)
qed (use assms in \<open>auto simp: ntt_loop_work_enter_def leave_work_def work_drop_def bind_eq_Some_conv Let_def split: if_splits\<close>)

lemma lo_reachable_width: "lo_reachable env w s \<Longrightarrow> lo_width (ls_loop s) = ntt_loop_clamp_width w"
proof (induction rule: lo_reachable.induct)
  case (lo_begin s)
  then show ?case by (auto simp: ntt_loop_run_def loop_start_def leave_work_def work_drop_def ntt_loop_work_enter_def
        bind_eq_Some_conv Let_def split: if_splits)
qed (simp add: lo_do_width)

lemma lo_do_caught:
  assumes "lo_do env a s = Some s'" "ls_leave s' = None"
  shows "ls_leave s = None \<and> ls_caught s' = ls_caught s"
proof (cases a)
  case (LoThread i)
  then show ?thesis using assms
    by (cases "ls_pc s i") (auto simp: worker_step_def enter_publish_def enter_count_def run_local_def next_local_def ntt_barrier_svc_def
        bind_eq_Some_conv Let_def split: if_splits list.splits local_task.splits)
qed (use assms in \<open>auto simp: leave_work_def bind_eq_Some_conv split: if_splits\<close>)

lemma no_caught: "lo_reachable env w s \<Longrightarrow> ls_leave s = None \<Longrightarrow> ls_caught s = []"
proof (induction rule: lo_reachable.induct)
  case (lo_begin s)
  then show ?case by (auto simp: ntt_loop_run_def loop_start_def leave_work_def bind_eq_Some_conv Let_def split: if_splits)
qed (use lo_do_caught in auto)

lemma lo_caught:
  assumes "lo_reachable env w s"
  shows "ls_caught s = [] \<or> length (ls_caught s) = ls_width s"
  using assms
proof (cases "ls_leave s")
  case (Some k)
  then show ?thesis using lo_reachable_inv [OF assms] by (simp add: lo_inv_def lo_work_def)
next
  case None
  then show ?thesis using no_caught [OF assms] by simp
qed

text \<open>A worker that has stopped has been released, so there is no work.\<close>

lemma stopped_released:
  assumes inv: "lo_inv s" and i: "i < ls_width s" and "wk_stopped (ls_wk s i)"
  shows "released s i" "lo_work_cnt (ls_loop s) = 0"
proof -
  note ok = lo_inv_worker [OF inv i]
  have zero: "wk_refs (ls_wk s i) = 0" using ok assms(3) by (auto simp: wk_ok_def stop_ok_def split: if_splits)
  then have "\<not> owns (ls_pc s i)" "listed (ls_pc s i) \<longrightarrow> released s i" using ok by (auto simp: wk_ok_def)
  then show "released s i" by (cases "ls_pc s i") auto
  then show "lo_work_cnt (ls_loop s) = 0" using inv by (auto simp: released_def lo_inv_def lo_work_def split: option.splits)
qed

lemma part_at_most_once:
  assumes "lo_inv s" "i < ls_width s"
  shows "count_list (ls_log s) (LRan i (LBarrier b)) \<le> of_bool (b < ls_next s)"
proof -
  have "tasks_kept (ls_width s) (ls_log s) (ls_unrun s)" "parts_pushed (ls_width s) (ls_log s) (ls_push s) (ls_next s)"
    using assms(1) by (simp_all add: lo_inv_def lo_tasks_def)
  from this(1) have "count_list (ls_log s) (LPushed i (LBarrier b))
      = count_list (ls_log s) (LRan i (LBarrier b)) + count_list (ls_unrun s i) (LBarrier b)"
    using assms(2) by (simp add: tasks_kept_def)
  moreover from \<open>parts_pushed _ _ _ _\<close>
  have "count_list (ls_log s) (LPushed i (LBarrier b)) + to_push (ls_push s) b i = of_bool (b < ls_next s)"
    using assms(2) by (simp add: parts_pushed_def)
  ultimately show ?thesis by linarith
qed

lemma parts_full_iff:
  assumes "\<And>i. i < n \<Longrightarrow> count_list l (LRan i (LBarrier b)) \<le> 1"
  shows "parts n l b = n \<longleftrightarrow> (\<forall>i < n. count_list l (LRan i (LBarrier b)) = 1)"
proof
  assume full: "parts n l b = n"
  show "\<forall>i < n. count_list l (LRan i (LBarrier b)) = 1"
  proof (rule ccontr)
    assume "\<not> ?thesis"
    then obtain i where "i < n" "count_list l (LRan i (LBarrier b)) < 1" using assms by force
    then have "parts n l b < (\<Sum>i < n. 1)" unfolding parts_def by (intro sum_strict_mono_ex1) (use assms in auto)
    then show False using full by simp
  qed
qed (simp add: parts_def)

lemma destroyed_clean:
  assumes inv: "lo_inv s" and dead: "ls_destroyed s" and i: "i < ls_width s"
  shows "ls_pc s i = WLeft \<and> wk_tasks (ls_wk s i) = [] \<and> ls_leave s = Some (ls_width s) \<and>
    (\<forall>t. t \<noteq> LStop \<longrightarrow> count_list (ls_log s) (LPushed i t) = count_list (ls_log s) (LRan i t)) \<and>
    (\<forall>b < ls_next s. count_list (ls_log s) (LBarrierRan b) = 1)"
proof -
  have left: "ls_pc s j = WLeft" if "j < ls_width s" for j using inv dead that by (simp add: lo_inv_def lo_work_def)
  have gone: "wk_stopped (ls_wk s j) \<and> wk_tasks (ls_wk s j) = []" if "j < ls_width s" for j
    using lo_inv_worker [OF inv that] left [OF that] by (simp add: wk_ok_def)
  have rel: "released s j" if "j < ls_width s" for j using stopped_released(1) [OF inv that] gone [OF that] by simp
  obtain k where k: "ls_leave s = Some k" using rel [OF i] by (auto simp: released_def split: option.splits)
  have "ls_width s - 1 < k" using rel [of "ls_width s - 1"] i k by (simp add: released_def)
  moreover have "k \<le> ls_width s" using inv k by (simp add: lo_inv_def lo_work_def)
  ultimately have leave: "ls_leave s = Some (ls_width s)" using k by simp
  have kept: "count_list (ls_log s) (LPushed j t) = count_list (ls_log s) (LRan j t)" if "j < ls_width s" "t \<noteq> LStop" for j t
    using inv that gone left by (simp add: lo_inv_def lo_tasks_def tasks_kept_def unrun_def)
  have "ls_push s = {#}" using no_leave [OF inv] k by auto
  then have "count_list (ls_log s) (LRan j (LBarrier b)) = of_bool (b < ls_next s)" if "j < ls_width s" for j b
    using inv kept [OF that, of "LBarrier b"] that by (simp add: lo_inv_def lo_tasks_def parts_pushed_def)
  then have "parts (ls_width s) (ls_log s) b = ls_width s" if "b < ls_next s" for b using that by (simp add: parts_def)
  then have "\<forall>b < ls_next s. count_list (ls_log s) (LBarrierRan b) = 1"
    using inv by (simp add: lo_inv_def lo_tasks_def barriers_ran_def)
  then show ?thesis using left [OF i] gone [OF i] leave kept [OF i] by blast
qed

section \<open>Properties\<close>

text \<open>
  C7. A loop ends when its work does. From any reachable state - while the workers are still entering, while they serve,
  after the last work has been dropped - the steps that take no new work and are no idle turns are bounded in
  number, one of them is possible until the loop has been destroyed, and in the end it is. So no worker waits
  for ever for the others to enter, no stop task is lost, and no signal to a worker is missed.
\<close>

theorem loop_ends:
  assumes "lo_reachable env w s"
  shows "(\<forall>n s'. (lo_wind env ^^ n) s s' \<longrightarrow> n \<le> lo_left s \<and> (ls_destroyed s' \<or> (\<exists>s''. lo_wind env s' s'')))
    \<and> (\<exists>n s'. (lo_wind env ^^ n) s s' \<and> ls_destroyed s')"
proof -
  have inv: "lo_inv s" by (rule lo_reachable_inv [OF assms])
  show ?thesis using lo_winding.every_run [OF inv] lo_winding.comes_to_rest [OF inv] by blast
qed

theorem loop_ends_witness:
  "\<not> ls_destroyed demo_entered \<and> (\<exists>n s'. (lo_wind loop_env ^^ n) demo_entered s' \<and> ls_destroyed s')"
  using loop_ends [OF demo_entered_reached] by (simp add: demo_entered_def loop_start_def)

text \<open>
  C35. No assertion of workers and loops fails, and no \<open>NULL\<close> worker is used. \<open>ntt_loop_run\<close> gets to the start of its
  threads, and whatever can happen in a reachable state is defined: nobody acquires or releases a worker that is
  gone, the stop task is pushed once, work is counted, and whoever pushes a task or drops the last work
  finds all workers entered. The array that the workers are copied to is large enough.
\<close>

theorem loop_steps_defined:
  assumes "lo_reachable env w s" "lo_enabled s a"
  shows "(\<exists>s0. ntt_loop_run env w = Some s0) \<and> (\<exists>s'. lo_do env a s = Some s' \<and> length (ls_caught s') \<le> unat NTT_MAX_LOOP_WIDTH)"
proof -
  obtain s' where s': "lo_do env a s = Some s'" "lo_inv s'" using lo_do_inv [OF lo_reachable_inv [OF assms(1)] assms(2)] by blast
  have r: "lo_reachable env w s'" by (rule lo_next [OF assms s'(1)])
  then have "ls_width s' \<le> 8" using lo_reachable_width clamp_width_pos(2) by simp
  moreover have "length (ls_caught s') = ls_width s' \<or> ls_caught s' = []"
    using lo_caught [OF r] by blast
  ultimately show ?thesis using s'(1) loop_run_inv [of env w] by (auto simp: NTT_MAX_LOOP_WIDTH_def)
qed

theorem loop_steps_defined_witness:
  "lo_enabled demo_entered (LoBoot 1) \<and> (\<exists>s'. lo_do loop_env (LoBoot 1) demo_entered = Some s')"
proof -
  have "lo_enabled demo_entered (LoBoot 1)" by (simp add: demo_entered_def loop_start_def)
  with loop_steps_defined [OF demo_entered_reached this] show ?thesis by blast
qed

text \<open>
  C9. A loop runs as long as there is work: a worker stops only when the counter of work is zero. And the end is
  clean: when the loop is destroyed, every worker has left, whoever dropped the last work has released all of
  them and reads nothing more, every task that was given to a worker has run, and every barrier has run.
\<close>

theorem loop_runs_while_work:
  assumes "lo_reachable env w s" "i < ls_width s"
  shows "(wk_stopped (ls_wk s i) \<longrightarrow> lo_work_cnt (ls_loop s) = 0) \<and>
    (ls_destroyed s \<longrightarrow> ls_pc s i = WLeft \<and> wk_tasks (ls_wk s i) = [] \<and> ls_leave s = Some (ls_width s) \<and>
       (\<forall>t. t \<noteq> LStop \<longrightarrow> count_list (ls_log s) (LPushed i t) = count_list (ls_log s) (LRan i t)) \<and>
       (\<forall>b < ls_next s. count_list (ls_log s) (LBarrierRan b) = 1))"
proof -
  have inv: "lo_inv s" by (rule lo_reachable_inv [OF assms(1)])
  show ?thesis using stopped_released(2) [OF inv assms(2)] destroyed_clean [OF inv _ assms(2)] by blast
qed

theorem loop_runs_while_work_witness:
  "ls_destroyed demo_destroyed \<and> count_list (ls_log demo_destroyed) (LPushed 1 (LBarrier 0)) = 1 \<and>
    lo_work_cnt (ls_loop demo_destroyed) = 0 \<and> wk_tasks (ls_wk demo_destroyed 1) = []"
proof -
  have "1 < ls_width demo_destroyed" by (simp add: demo_destroyed_def)
  from loop_runs_while_work [OF demo_destroyed_reached this] show ?thesis
    by (simp add: demo_destroyed_def demo_barrier_def)
qed

text \<open>
  C10. A barrier waits for every worker, and runs once: the task of a barrier runs exactly when every worker has run
  its part of it, no worker runs a part twice, and the counter of the barrier is the number of workers that
  have still to run theirs.
\<close>

theorem loop_barrier_runs_once:
  assumes "lo_reachable env w s" "b < ls_next s"
  shows "count_list (ls_log s) (LBarrierRan b) = of_bool (\<forall>i < ls_width s. count_list (ls_log s) (LRan i (LBarrier b)) = 1) \<and>
    (\<forall>i < ls_width s. count_list (ls_log s) (LRan i (LBarrier b)) \<le> 1) \<and>
    ls_refs s b = int (ls_width s) - (\<Sum>i < ls_width s. int (count_list (ls_log s) (LRan i (LBarrier b))))"
proof -
  have inv: "lo_inv s" by (rule lo_reachable_inv [OF assms(1)])
  have once: "count_list (ls_log s) (LRan i (LBarrier b)) \<le> 1" if "i < ls_width s" for i
    using part_at_most_once [OF inv that, of b] assms(2) by simp
  have ran: "barriers_ran (ls_width s) (ls_log s) (ls_refs s) (ls_next s)" using inv by (simp add: lo_inv_def lo_tasks_def)
  then show ?thesis using once assms(2) parts_full_iff [of "ls_width s" "ls_log s" b, OF once]
    by (simp add: barriers_ran_def parts_def)
qed

theorem loop_barrier_runs_once_witness:
  "count_list (ls_log demo_barrier) (LBarrierRan 0) = 1 \<and> count_list (ls_log demo_barrier) (LRan 1 (LBarrier 0)) = 1 \<and>
    ls_refs demo_barrier 0 = 0"
proof -
  have "0 < ls_next demo_barrier" by (simp add: demo_barrier_def)
  from loop_barrier_runs_once [OF demo_barrier_reached this] show ?thesis
    by (simp add: demo_barrier_def demo_entered_def lessThan_nat_numeral)
qed

text \<open>A worker that is released once too often is not caught: the assertion compares with a value the counter never has.\<close>

theorem worker_over_release:
  assumes "wk_refs w = 0"
  shows "ntt_worker_release env w = Some (w\<lparr>wk_refs := - 1\<rparr>)"
  using assms by (simp add: ntt_worker_release_def ntt_assert_def)

end
