(* ===== verification/Combine.thy ===== *)
theory Combine
  imports Ntt_Prelude "HOL-Library.Multiset"
begin

text \<open>
  The combine, the list of the queues that have tasks, and how the workers of a loop wait for it:
  \<open>src/src/combine.h\<close>, \<open>src/src/combine.c\<close>, and \<open>ntt_loop_worker_svc\<close>, \<open>ntt_loop_combine_wakeup\<close> and
  \<open>ntt_combine_eventfd_ready\<close> of \<open>src/src/loop.c\<close>. Queues are names here; what running one of them does, and that a queue
  is handed to the combine by one thread at a time, is in \<open>Queue\<close>.
\<close>

section \<open>The combine\<close>

text \<open>\<open>co_cb\<close> says whether there is a callback for the wakeup.\<close>

record ntt_combine =
  co_list :: "nat list"
  co_cb :: bool

definition ntt_combine_init :: ntt_combine where
  "ntt_combine_init = \<lparr>co_list = [], co_cb = False\<rparr>"

definition ntt_combine_init_with_wakeup :: ntt_combine where
  "ntt_combine_init_with_wakeup = \<lparr>co_list = [], co_cb = True\<rparr>"

definition ntt_combine_empty :: "ntt_combine \<Rightarrow> bool" where
  "ntt_combine_empty self \<longleftrightarrow> co_list self = []"

definition ntt_combine_deinit :: "env \<Rightarrow> ntt_combine \<Rightarrow> unit option" where
  "ntt_combine_deinit env self = ntt_assert env (ntt_combine_empty self)"

text \<open>Pushing a queue says whether the callback is called; the queue must have tasks and be in no list.\<close>

definition ntt_combine_push :: "env \<Rightarrow> bool \<Rightarrow> ntt_combine \<Rightarrow> nat \<Rightarrow> (bool \<times> ntt_combine) option" where
  "ntt_combine_push env has_tasks self queue = do {
     ntt_assert env has_tasks;
     ntt_assert env (queue \<notin> set (co_list self));
     let was_empty = ntt_combine_empty self;
     Some (co_cb self \<and> was_empty, self\<lparr>co_list := co_list self @ [queue]\<rparr>)
   }"

definition ntt_combine_try_take :: "ntt_combine \<Rightarrow> nat option \<times> ntt_combine" where
  "ntt_combine_try_take self =
     (if ntt_combine_empty self then (None, self)
      else (Some (hd (co_list self)), self\<lparr>co_list := tl (co_list self)\<rparr>))"

section \<open>Workers that wait\<close>

text \<open>
  Where a worker is in its loop: about to take a queue, running one, waiting for events, in a handler of
  an event, in the handler of the event descriptor of the combine, or outside the service callback with its local queue.
\<close>

datatype co_pc = CTake | CRun nat | CPoll | CHandler | CRead | CLocal

text \<open>
  \<open>cs_fd\<close> is the counter of the event descriptor and \<open>cs_wakes\<close> counts the threads outside the loop that are about to
  write to it. The event of the descriptor is opened with flags \<open>0\<close> and level-triggered, so it is not serial: each
  worker that is told of it calls the handler itself, at the same time as others. \<open>cs_pushed\<close> and \<open>cs_taken\<close> record
  the queues in the order in which they were pushed and taken.
\<close>

record co_sys =
  cs_combine :: ntt_combine
  cs_fd :: nat
  cs_wakes :: nat
  cs_width :: nat
  cs_pc :: "nat \<Rightarrow> co_pc"
  cs_pushed :: "nat list"
  cs_taken :: "nat list"

abbreviation co_goto :: "nat \<Rightarrow> co_pc \<Rightarrow> co_sys \<Rightarrow> co_sys" where
  "co_goto i p s \<equiv> s\<lparr>cs_pc := (cs_pc s)(i := p)\<rparr>"

text \<open>\<open>ntt_loop_combine_wakeup\<close>: a worker of the loop writes nothing.\<close>

definition ntt_loop_combine_wakeup :: "bool \<Rightarrow> co_sys \<Rightarrow> co_sys" where
  "ntt_loop_combine_wakeup inside s = (if inside then s else s\<lparr>cs_wakes := cs_wakes s + 1\<rparr>)"

definition push_queue :: "env \<Rightarrow> bool \<Rightarrow> nat \<Rightarrow> co_sys \<Rightarrow> co_sys option" where
  "push_queue env inside q s = do {
     (wakeup, combine) \<leftarrow> ntt_combine_push env True (cs_combine s) q;
     let s1 = s\<lparr>cs_combine := combine, cs_pushed := cs_pushed s @ [q]\<rparr>;
     Some (if wakeup then ntt_loop_combine_wakeup inside s1 else s1)
   }"

definition take_queue :: "nat \<Rightarrow> co_sys \<Rightarrow> co_sys" where
  "take_queue i s = (case ntt_combine_try_take (cs_combine s) of
     (None, combine) \<Rightarrow> co_goto i CPoll s
   | (Some q, combine) \<Rightarrow> co_goto i (CRun q) (s\<lparr>cs_combine := combine, cs_taken := cs_taken s @ [q]\<rparr>))"

text \<open>
  Reading takes one from the counter, which is a semaphore, and fails with \<open>EAGAIN\<close> if it is zero: another worker that was
  told of the same write was faster.
\<close>

definition ntt_combine_eventfd_ready :: "co_sys \<Rightarrow> co_sys" where
  "ntt_combine_eventfd_ready s = s\<lparr>cs_fd := cs_fd s - 1\<rparr>"

text \<open>
  What can happen: a worker goes on; a worker that waits is told of the event descriptor, of another event, or is interrupted; a
  worker, or a thread outside the loop, pushes a queue; such a thread writes to the descriptor.
\<close>

datatype co_act = CoWorker nat | CoReady nat | CoEvent nat | CoInterrupt nat | CoPush nat nat | CoExternal nat | CoWrite

text \<open>Any queue that is not in the list may be pushed, also one that a worker is about to leave.\<close>

fun co_enabled :: "co_sys \<Rightarrow> co_act \<Rightarrow> bool" where
  "co_enabled s (CoWorker i) \<longleftrightarrow> i < cs_width s \<and> cs_pc s i \<noteq> CPoll"
| "co_enabled s (CoReady i) \<longleftrightarrow> i < cs_width s \<and> cs_pc s i = CPoll \<and> 0 < cs_fd s"
| "co_enabled s (CoEvent i) \<longleftrightarrow> i < cs_width s \<and> cs_pc s i = CPoll"
| "co_enabled s (CoInterrupt i) \<longleftrightarrow> i < cs_width s \<and> cs_pc s i = CPoll"
| "co_enabled s (CoPush i q) \<longleftrightarrow> i < cs_width s \<and> (case cs_pc s i of CRun r \<Rightarrow> True | CHandler \<Rightarrow> True | CLocal \<Rightarrow> True | _ \<Rightarrow> False) \<and>
     q \<notin> set (co_list (cs_combine s))"
| "co_enabled s (CoExternal q) \<longleftrightarrow> q \<notin> set (co_list (cs_combine s))"
| "co_enabled s CoWrite \<longleftrightarrow> 0 < cs_wakes s"

fun co_do :: "env \<Rightarrow> co_act \<Rightarrow> co_sys \<Rightarrow> co_sys option" where
  "co_do env (CoWorker i) s = Some (case cs_pc s i of
     CTake \<Rightarrow> take_queue i s
   | CRead \<Rightarrow> co_goto i CTake (ntt_combine_eventfd_ready s)
   | _ \<Rightarrow> co_goto i CTake s)"
| "co_do env (CoReady i) s = Some (co_goto i CRead s)"
| "co_do env (CoEvent i) s = Some (co_goto i CHandler s)"
| "co_do env (CoInterrupt i) s = Some (co_goto i CLocal s)"
| "co_do env (CoPush i q) s = push_queue env True q s"
| "co_do env (CoExternal q) s = push_queue env False q s"
| "co_do env CoWrite s = Some (s\<lparr>cs_wakes := cs_wakes s - 1, cs_fd := cs_fd s + 1\<rparr>)"

definition co_start :: "nat \<Rightarrow> co_sys" where
  "co_start n = \<lparr>cs_combine = ntt_combine_init_with_wakeup, cs_fd = 0, cs_wakes = 0, cs_width = n,
     cs_pc = (\<lambda>_. CTake), cs_pushed = [], cs_taken = []\<rparr>"

inductive co_reachable :: "env \<Rightarrow> nat \<Rightarrow> co_sys \<Rightarrow> bool" for env n where
  co_begin: "co_reachable env n (co_start n)"
| co_next: "co_reachable env n s \<Longrightarrow> co_enabled s a \<Longrightarrow> co_do env a s = Some s' \<Longrightarrow> co_reachable env n s'"

end
