(* ===== verification/Combine_Props.thy ===== *)
theory Combine_Props
  imports Combine Loop_Live Schedules
begin

text \<open>
  The properties of the combine: no queue is left in it with all workers asleep, queues are taken in the order of the
  pushes, and the workers come to rest with an empty combine (\<open>co_resting\<close>, an interpretation of \<open>draining\<close>).
\<close>

section \<open>The invariant\<close>

definition co_inv :: "co_sys \<Rightarrow> bool" where
  "co_inv s \<longleftrightarrow> 0 < cs_width s \<and> co_cb (cs_combine s) \<and> distinct (co_list (cs_combine s)) \<and>
     cs_pushed s = cs_taken s @ co_list (cs_combine s) \<and>
     (co_list (cs_combine s) \<noteq> [] \<longrightarrow> 0 < cs_fd s \<or> 0 < cs_wakes s \<or> (\<exists>i < cs_width s. cs_pc s i \<noteq> CPoll))"

lemma push_queue_some:
  assumes "co_inv s" "q \<notin> set (co_list (cs_combine s))"
  shows "push_queue env inside q s = Some (s\<lparr>cs_combine := (cs_combine s)\<lparr>co_list := co_list (cs_combine s) @ [q]\<rparr>,
    cs_pushed := cs_pushed s @ [q],
    cs_wakes := (if co_list (cs_combine s) = [] \<and> \<not> inside then cs_wakes s + 1 else cs_wakes s)\<rparr>)"
  using assms by (simp add: push_queue_def ntt_combine_push_def ntt_assert_def ntt_combine_empty_def ntt_loop_combine_wakeup_def co_inv_def Let_def)

lemma push_inv:
  assumes inv: "co_inv s" and q: "q \<notin> set (co_list (cs_combine s))"
    and who: "inside \<longrightarrow> (\<exists>i < cs_width s. cs_pc s i \<noteq> CPoll)"
  shows "\<exists>s'. push_queue env inside q s = Some s' \<and> co_inv s'"
  unfolding push_queue_some [OF inv q] using inv q who by (auto simp: co_inv_def)

lemma goto_inv:
  assumes "co_inv s" "i < cs_width s" "p \<noteq> CPoll"
  shows "co_inv (co_goto i p s)"
  using assms by (auto simp: co_inv_def)

lemma take_inv:
  assumes inv: "co_inv s" and i: "i < cs_width s" and pc: "cs_pc s i = CTake"
  shows "co_inv (take_queue i s)"
proof (cases "co_list (cs_combine s)")
  case Nil
  then show ?thesis using inv by (auto simp: take_queue_def ntt_combine_try_take_def ntt_combine_empty_def co_inv_def)
next
  case (Cons q qs)
  let ?s = "s\<lparr>cs_combine := (cs_combine s)\<lparr>co_list := qs\<rparr>, cs_taken := cs_taken s @ [q]\<rparr>"
  have "co_inv ?s" using inv i pc Cons by (auto simp: co_inv_def)
  then have "co_inv (co_goto i (CRun q) ?s)" by (rule goto_inv) (use i in auto)
  then show ?thesis using Cons by (simp add: take_queue_def ntt_combine_try_take_def ntt_combine_empty_def)
qed

lemma read_inv:
  assumes "co_inv s" "i < cs_width s"
  shows "co_inv (co_goto i CTake (ntt_combine_eventfd_ready s))"
  using assms by (auto simp: co_inv_def ntt_combine_eventfd_ready_def)

lemma co_do_inv:
  assumes inv: "co_inv s" and en: "co_enabled s a"
  shows "\<exists>s'. co_do env a s = Some s' \<and> co_inv s'"
proof (cases a)
  case (CoWorker i)
  then have i: "i < cs_width s" and pc: "cs_pc s i \<noteq> CPoll" using en by simp_all
  show ?thesis
  proof (cases "cs_pc s i")
    case CTake
    then show ?thesis using take_inv [OF inv i] CoWorker by simp
  next
    case CRead
    then show ?thesis using read_inv [OF inv i] CoWorker by simp
  qed (use goto_inv [OF inv i, of CTake] pc CoWorker in auto)
next
  case (CoPush i q)
  then have "\<exists>i < cs_width s. cs_pc s i \<noteq> CPoll" using en by (auto split: co_pc.splits)
  then show ?thesis using push_inv [OF inv, of q True] CoPush en by simp
next
  case (CoExternal q)
  then show ?thesis using push_inv [OF inv, of q False] en by simp
next
  case CoWrite
  have "co_inv (s\<lparr>cs_wakes := cs_wakes s - 1, cs_fd := cs_fd s + 1\<rparr>)" using inv by (simp add: co_inv_def)
  then show ?thesis using CoWrite by simp
qed (use goto_inv [OF inv] en in auto)

lemma co_reachable_inv: "co_reachable env n s \<Longrightarrow> 0 < n \<Longrightarrow> co_inv s"
proof (induction rule: co_reachable.induct)
  case co_begin
  then show ?case by (simp add: co_inv_def co_start_def ntt_combine_init_with_wakeup_def)
next
  case (co_next s a s')
  then show ?case using co_do_inv [of s a env] by auto
qed

section \<open>Coming to rest\<close>

text \<open>
  How far a worker is from waiting, \<open>r\<close> saying whether the event descriptor can be read: then a worker that waits is told of
  it. A write raises each of these ranks by at most four.
\<close>

fun co_rank :: "bool \<Rightarrow> co_pc \<Rightarrow> nat" where
  "co_rank r CPoll = (if r then 4 else 0)"
| "co_rank r CTake = (if r then 5 else 2)"
| "co_rank r CRead = 3"
| "co_rank r p = (if r then 6 else 3)"

definition co_work :: "co_sys \<Rightarrow> nat" where
  "co_work s = 2 * length (co_list (cs_combine s)) + (4 * cs_width s + 4) * cs_wakes s + 3 * cs_fd s
     + (\<Sum>i < cs_width s. co_rank (0 < cs_fd s) (cs_pc s i))"

text \<open>The steps that push no queue and are no turn of a worker for another event or a signal.\<close>

definition co_drain :: "env \<Rightarrow> co_sys \<Rightarrow> co_sys \<Rightarrow> bool" where
  "co_drain env s s' \<longleftrightarrow> (\<exists>a. co_enabled s a \<and> co_do env a s = Some s' \<and>
     (case a of CoWorker i \<Rightarrow> True | CoReady i \<Rightarrow> True | CoWrite \<Rightarrow> True | _ \<Rightarrow> False))"

definition co_rest :: "co_sys \<Rightarrow> bool" where
  "co_rest s \<longleftrightarrow> ntt_combine_empty (cs_combine s) \<and> cs_fd s = 0 \<and> cs_wakes s = 0 \<and> (\<forall>i < cs_width s. cs_pc s i = CPoll)"

lemma sum_fun_upd:
  fixes f :: "'a \<Rightarrow> nat" and g :: "nat \<Rightarrow> 'a"
  assumes "i < n"
  shows "(\<Sum>j < n. f ((g(i := p)) j)) + f (g i) = (\<Sum>j < n. f (g j)) + f p"
proof -
  have "(\<Sum>j < n. f ((g(i := p)) j)) = f p + (\<Sum>j \<in> {..<n} - {i}. f ((g(i := p)) j))"
    using assms sum.remove [of "{..<n}" i "\<lambda>j. f ((g(i := p)) j)"] by simp
  also have "(\<Sum>j \<in> {..<n} - {i}. f ((g(i := p)) j)) = (\<Sum>j \<in> {..<n} - {i}. f (g j))" by (intro sum.cong) auto
  finally have "(\<Sum>j < n. f ((g(i := p)) j)) + f (g i) = f p + (f (g i) + (\<Sum>j \<in> {..<n} - {i}. f (g j)))" by simp
  also have "f (g i) + (\<Sum>j \<in> {..<n} - {i}. f (g j)) = (\<Sum>j < n. f (g j))" 
    using assms sum.remove [of "{..<n}" i "\<lambda>j. f (g j)"] by simp
  finally show ?thesis by simp
qed

lemma goto_work:
  assumes "i < cs_width s"
  shows "co_work (co_goto i p s) + co_rank (0 < cs_fd s) (cs_pc s i) = co_work s + co_rank (0 < cs_fd s) p"
  using sum_fun_upd [OF assms, of "co_rank (0 < cs_fd s)" "cs_pc s" p] by (simp add: co_work_def del: fun_upd_apply)

lemma rank_lower: "co_rank False p \<le> co_rank r p" and rank_raise: "co_rank r p \<le> co_rank False p + 4"
  by (cases p; simp)+

lemma read_work: "co_work (ntt_combine_eventfd_ready s) + 3 * of_bool (0 < cs_fd s) \<le> co_work s"
proof (cases "cs_fd s")
  case (Suc n)
  have "(\<Sum>i < cs_width s. co_rank (0 < n) (cs_pc s i)) \<le> (\<Sum>i < cs_width s. co_rank True (cs_pc s i))"
    by (intro sum_mono) (metis rank_lower order_refl)
  then show ?thesis using Suc by (simp add: co_work_def ntt_combine_eventfd_ready_def)
qed (simp add: co_work_def ntt_combine_eventfd_ready_def)

lemma write_work:
  assumes "cs_wakes s = Suc n"
  shows "co_work (s\<lparr>cs_wakes := n, cs_fd := cs_fd s + 1\<rparr>) < co_work s"
proof -
  have "(\<Sum>i < cs_width s. co_rank True (cs_pc s i)) \<le> (\<Sum>i < cs_width s. co_rank (0 < cs_fd s) (cs_pc s i) + 4)"
    by (intro sum_mono) (meson rank_lower rank_raise add_le_mono1 le_trans)
  then show ?thesis using assms by (simp add: co_work_def sum.distrib)
qed

lemma worker_work:
  assumes i: "i < cs_width s" and pc: "cs_pc s i \<noteq> CPoll" and step: "co_do env (CoWorker i) s = Some s'"
  shows "co_work s' < co_work s"
proof (cases "cs_pc s i")
  case CTake
  show ?thesis
  proof (cases "co_list (cs_combine s)")
    case Nil
    then have "s' = co_goto i CPoll s" using step CTake by (simp add: take_queue_def ntt_combine_try_take_def ntt_combine_empty_def)
    then show ?thesis using goto_work [OF i, of CPoll] CTake by (simp split: if_splits)
  next
    case (Cons q qs)
    let ?s = "s\<lparr>cs_combine := (cs_combine s)\<lparr>co_list := qs\<rparr>, cs_taken := cs_taken s @ [q]\<rparr>"
    have s': "s' = co_goto i (CRun q) ?s" using step CTake Cons by (simp add: take_queue_def ntt_combine_try_take_def ntt_combine_empty_def)
    have "co_work ?s + 2 = co_work s" using Cons by (simp add: co_work_def)
    then show ?thesis using goto_work [of i ?s "CRun q"] CTake i s' by (simp split: if_splits)
  qed
next
  case CRead
  let ?s = "ntt_combine_eventfd_ready s"
  have s': "s' = co_goto i CTake ?s" using step CRead by simp
  have "co_work s' + 3 = co_work ?s + co_rank (0 < cs_fd ?s) CTake"
    using goto_work [of i ?s CTake] CRead i by (simp add: s' ntt_combine_eventfd_ready_def)
  then show ?thesis using read_work [of s] by (simp add: ntt_combine_eventfd_ready_def split: if_splits)
qed (use step pc goto_work [OF i, of CTake] in \<open>auto split: if_splits\<close>)

lemma drain_work:
  assumes "co_drain env s s'"
  shows "co_work s' < co_work s"
proof -
  obtain a where a: "co_enabled s a" "co_do env a s = Some s'"
    "case a of CoWorker i \<Rightarrow> True | CoReady i \<Rightarrow> True | CoWrite \<Rightarrow> True | _ \<Rightarrow> False"
    using assms by (auto simp: co_drain_def)
  show ?thesis
  proof (cases a)
    case (CoWorker i)
    have "i < cs_width s" "cs_pc s i \<noteq> CPoll" using a(1) CoWorker by simp_all
    from worker_work [OF this] a(2) CoWorker show ?thesis by blast
  next
    case (CoReady i)
    then show ?thesis using goto_work [of i s CRead] a by simp
  next
    case CoWrite
    then obtain n where n: "cs_wakes s = Suc n" using a(1) by (cases "cs_wakes s") simp_all
    show ?thesis using write_work [OF n] a(2) CoWrite n by simp
  qed (use a(3) in simp_all)
qed

lemma drain_progress:
  assumes inv: "co_inv s" and "\<not> co_rest s"
  shows "\<exists>s'. co_drain env s s'"
proof -
  have "\<exists>a. co_enabled s a \<and> (case a of CoWorker i \<Rightarrow> True | CoReady i \<Rightarrow> True | CoWrite \<Rightarrow> True | _ \<Rightarrow> False)"
  proof (cases "\<exists>i < cs_width s. cs_pc s i \<noteq> CPoll")
    case True
    then obtain i where "co_enabled s (CoWorker i)" by auto
    then show ?thesis by (intro exI [of _ "CoWorker i"]) simp
  next
    case False
    then have "cs_pc s 0 = CPoll" "0 < cs_width s" using inv by (auto simp: co_inv_def)
    moreover have "0 < cs_fd s \<or> 0 < cs_wakes s"
      using assms False by (auto simp: co_inv_def co_rest_def ntt_combine_empty_def)
    ultimately have "co_enabled s (CoReady 0) \<or> co_enabled s CoWrite" by simp
    then show ?thesis by (elim disjE) (rule exI, erule conjI, simp)+
  qed
  then show ?thesis using co_do_inv [OF inv] unfolding co_drain_def by meson
qed

interpretation co_resting: draining "co_drain env" co_inv co_work co_rest for env
proof
  show "co_inv s \<Longrightarrow> co_drain env s s' \<Longrightarrow> co_inv s'" for s s'
    using co_do_inv [of s _ env] by (fastforce simp: co_drain_def)
qed (simp add: drain_work, fact drain_progress)

section \<open>An example\<close>

abbreviation co_act_step :: "env \<Rightarrow> co_act \<Rightarrow> co_sys \<Rightarrow> co_sys option" where
  "co_act_step env \<equiv> guarded co_enabled (co_do env)"

interpretation co_run: scheduled "co_act_step env" "co_reachable env n" for env n
  by unfold_locales (auto split: if_splits intro: co_reachable.co_next simp del: co_do.simps co_enabled.simps)

text \<open>Two workers have found nothing and wait; a thread outside the loop pushes two queues.\<close>

definition demo_asleep :: co_sys where
  "demo_asleep = (co_start 2)\<lparr>cs_combine := \<lparr>co_list = [7, 8], co_cb = True\<rparr>, cs_wakes := 1,
     cs_pc := ((\<lambda>_. CTake)(0 := CPoll))(1 := CPoll), cs_pushed := [7, 8]\<rparr>"

definition combine_env :: env where
  "combine_env = \<lparr>ndebug = False, can_alloc = (\<lambda>_. True)\<rparr>"

lemma demo_asleep_reached: "co_reachable combine_env 2 demo_asleep"
proof (rule co_run.run_reach [OF co_begin])
  show "run_acts (co_act_step combine_env) [CoWorker 0, CoWorker 1, CoExternal 7, CoExternal 8] (co_start 2) = Some demo_asleep"
    by (simp add: demo_asleep_def co_start_def combine_env_def take_queue_def ntt_combine_try_take_def ntt_combine_empty_def
        ntt_combine_init_with_wakeup_def push_queue_def ntt_combine_push_def ntt_assert_def ntt_loop_combine_wakeup_def fun_upd_twist)
qed

section \<open>Properties\<close>

text \<open>
  C11. No queue is left behind with the workers asleep. Whatever workers and other threads do, when there is a queue in the
  combine then a worker is awake and will look at the combine before it waits, or the event descriptor can be read, or
  the thread that pushed is about to write to it. That holds although a worker that pushes a queue wakes nobody.
  Queues are taken in the order of the pushes, and none is lost or taken twice.
\<close>

theorem combine_no_lost_wakeup:
  assumes "co_reachable env n s" "0 < n"
  shows "(\<not> ntt_combine_empty (cs_combine s) \<longrightarrow> 0 < cs_fd s \<or> 0 < cs_wakes s \<or> (\<exists>i < cs_width s. cs_pc s i \<noteq> CPoll)) \<and>
    cs_pushed s = cs_taken s @ co_list (cs_combine s)"
  using co_reachable_inv [OF assms] by (auto simp: co_inv_def ntt_combine_empty_def)

theorem combine_no_lost_wakeup_witness:
  "co_list (cs_combine demo_asleep) = [7, 8] \<and> cs_pushed demo_asleep = cs_taken demo_asleep @ [7, 8] \<and>
    (0 < cs_fd demo_asleep \<or> 0 < cs_wakes demo_asleep \<or> (\<exists>i < cs_width demo_asleep. cs_pc demo_asleep i \<noteq> CPoll))"
proof -
  have "0 < (2 :: nat)" by simp
  from combine_no_lost_wakeup [OF demo_asleep_reached this] show ?thesis by (simp add: demo_asleep_def ntt_combine_empty_def)
qed

text \<open>
  C13. Every queue in the combine is taken. From any reachable state there is a bounded number of steps without new pushes and
  turns for other events, although every worker that waits may be told of one write, and a step is possible until all workers wait with nothing to do, and then every queue that was pushed has been
  taken. No assertion of the combine fails on the way.
\<close>

theorem combine_served:
  assumes "co_reachable env n s" "0 < n"
  shows "(\<forall>k s'. (co_drain env ^^ k) s s' \<longrightarrow> k \<le> co_work s \<and> (co_rest s' \<or> (\<exists>s''. co_drain env s' s''))) \<and>
    (\<exists>k s'. (co_drain env ^^ k) s s' \<and> co_rest s' \<and> cs_pushed s' = cs_taken s') \<and>
    (\<forall>a. co_enabled s a \<longrightarrow> co_do env a s \<noteq> None)"
proof -
  have inv: "co_inv s" by (rule co_reachable_inv [OF assms])
  obtain k s' where s': "(co_drain env ^^ k) s s'" "co_rest s'" using co_resting.comes_to_rest [OF inv] by blast
  have "cs_pushed s' = cs_taken s'"
    using co_resting.steps_bound [OF s'(1) inv] s'(2) by (auto simp: co_inv_def co_rest_def ntt_combine_empty_def)
  moreover have "co_do env a s \<noteq> None" if "co_enabled s a" for a using co_do_inv [OF inv that] by auto
  ultimately show ?thesis using s' co_resting.every_run [OF inv] by blast
qed

theorem combine_served_witness:
  "\<not> co_rest demo_asleep \<and> (\<exists>k s'. (co_drain combine_env ^^ k) demo_asleep s' \<and> co_rest s' \<and> cs_pushed s' = cs_taken s')"
proof -
  have "0 < (2 :: nat)" by simp
  from combine_served [OF demo_asleep_reached this]
  have "\<exists>k s'. (co_drain combine_env ^^ k) demo_asleep s' \<and> co_rest s' \<and> cs_pushed s' = cs_taken s'" by blast
  then show ?thesis by (simp add: demo_asleep_def co_rest_def)
qed

end
