(* ===== verification/Combine_Turns.thy ===== *)
theory Combine_Turns
  imports Combine_Props "HOL-Library.Sublist"
begin

text \<open>
  Running the combine with limits, in one thread: \<open>ntt_combine_svc_with_limits\<close> of \<open>src/src/combine.c\<close>, with what it
  does to the queues (\<open>ntt_queue_svc_with_limit\<close> and \<open>ntt_queue_push_task\<close> of \<open>src/src/queue.c\<close>). A task
  is given by its name and by the tasks it pushes, to any queues, when it runs. The references of the queues and the variable
  \<open>t_queue\<close> of the thread are in \<open>Queue\<close>.
\<close>

section \<open>Queues and tasks\<close>

datatype ctask = CTask (ct_id: nat) (ct_pushes: "(nat \<times> ctask) list")

text \<open>\<open>cq_log\<close> has the tasks that have run, with their queues.\<close>

record co_queues =
  cq_combine :: ntt_combine
  cq_tasks :: "nat \<Rightarrow> ctask list"
  cq_log :: "(nat \<times> nat) list"

text \<open>A push into an empty queue hands the queue to the combine.\<close>

definition turn_push :: "env \<Rightarrow> nat \<times> ctask \<Rightarrow> co_queues \<Rightarrow> co_queues option" where
  "turn_push env qt s = (
     let q = fst qt;
         was_empty = (cq_tasks s q = []);
         s1 = s\<lparr>cq_tasks := (cq_tasks s)(q := cq_tasks s q @ [snd qt])\<rparr>
     in if was_empty then do {
          (wakeup, combine) \<leftarrow> ntt_combine_push env (cq_tasks s1 q \<noteq> []) (cq_combine s1) q;
          Some (s1\<lparr>cq_combine := combine\<rparr>)
        }
        else Some s1)"

fun turn_pushes :: "env \<Rightarrow> (nat \<times> ctask) list \<Rightarrow> co_queues \<Rightarrow> co_queues option" where
  "turn_pushes env [] s = Some s"
| "turn_pushes env (qt # qts) s = do {
     s1 \<leftarrow> turn_push env qt s;
     turn_pushes env qts s1
   }"

text \<open>Running the first task of a queue and taking it out of the list afterwards.\<close>

definition turn_task :: "env \<Rightarrow> nat \<Rightarrow> co_queues \<Rightarrow> co_queues option" where
  "turn_task env q s = (case cq_tasks s q of
     [] \<Rightarrow> None
   | t # ts \<Rightarrow> do {
       s1 \<leftarrow> turn_pushes env (ct_pushes t) (s\<lparr>cq_log := cq_log s @ [(q, ct_id t)]\<rparr>);
       Some (s1\<lparr>cq_tasks := (cq_tasks s1)(q := tl (cq_tasks s1 q))\<rparr>)
     })"

text \<open>
  The loop of \<open>ntt_queue_svc_with_limit\<close>, with \<open>limit - cnt\<close> tasks still to run; it answers \<open>0\<close> if the limit was
  reached and the queue is not empty.
\<close>

fun turn_loop :: "env \<Rightarrow> nat \<Rightarrow> nat \<Rightarrow> nat \<Rightarrow> co_queues \<Rightarrow> (nat \<times> co_queues) option" where
  "turn_loop env q 0 cnt s = None"
| "turn_loop env q (Suc left) cnt s = do {
     s1 \<leftarrow> turn_task env q s;
     let task = (cq_tasks s1 q \<noteq> []);
     let cnt1 = cnt + 1;
     if left = 0 then Some (if task then 0 else cnt1, s1)
     else if task then turn_loop env q left cnt1 s1
     else Some (cnt1, s1)
   }"

definition ntt_queue_svc_with_limit :: "env \<Rightarrow> nat \<Rightarrow> nat \<Rightarrow> co_queues \<Rightarrow> (nat \<times> co_queues) option" where
  "ntt_queue_svc_with_limit env q limit s = do {
     ntt_assert env (limit > 0);
     ntt_assert env (cq_tasks s q \<noteq> []);
     ntt_assert env (q \<notin> set (co_list (cq_combine s)));
     turn_loop env q limit 0 s
   }"

text \<open>A turn: the next queue is run, and goes to the end of the combine if it is not done.\<close>

definition combine_turn :: "env \<Rightarrow> nat \<Rightarrow> co_queues \<Rightarrow> (bool \<times> co_queues) option" where
  "combine_turn env queue_limit s = (case ntt_combine_try_take (cq_combine s) of
     (None, combine) \<Rightarrow> Some (False, s)
   | (Some q, combine) \<Rightarrow> do {
       (queue_cnt, s1) \<leftarrow> ntt_queue_svc_with_limit env q queue_limit (s\<lparr>cq_combine := combine\<rparr>);
       if queue_cnt = 0 then do {
         (wakeup, combine1) \<leftarrow> ntt_combine_push env (cq_tasks s1 q \<noteq> []) (cq_combine s1) q;
         Some (True, s1\<lparr>cq_combine := combine1\<rparr>)
       }
       else Some (True, s1)
     })"

fun turns_loop :: "env \<Rightarrow> nat \<Rightarrow> nat \<Rightarrow> co_queues \<Rightarrow> (nat \<times> co_queues) option" where
  "turns_loop env 0 queue_limit s = Some (1, s)"
| "turns_loop env (Suc left) queue_limit s = do {
     (taken, s1) \<leftarrow> combine_turn env queue_limit s;
     if taken then turns_loop env left queue_limit s1 else Some (0, s1)
   }"

definition ntt_combine_svc_with_limits :: "env \<Rightarrow> nat \<Rightarrow> nat \<Rightarrow> co_queues \<Rightarrow> (nat \<times> co_queues) option" where
  "ntt_combine_svc_with_limits env loop_limit queue_limit s = do {
     ntt_assert env (loop_limit > 0);
     ntt_assert env (queue_limit > 0);
     turns_loop env loop_limit queue_limit s
   }"

section \<open>What a turn does\<close>

text \<open>The queues of the combine are those that have tasks; \<open>run\<close> is the one that is being run.\<close>

definition cq_ok :: "nat option \<Rightarrow> co_queues \<Rightarrow> bool" where
  "cq_ok run s \<longleftrightarrow> distinct (co_list (cq_combine s)) \<and>
     (\<forall>q. q \<in> set (co_list (cq_combine s)) \<longleftrightarrow> cq_tasks s q \<noteq> [] \<and> run \<noteq> Some q)"

abbreviation ran_of_queue :: "nat \<Rightarrow> co_queues \<Rightarrow> nat list" where
  "ran_of_queue q s \<equiv> map snd (filter (\<lambda>e. fst e = q) (cq_log s))"

text \<open>What pushes do: queues are appended to the combine, and tasks to queues.\<close>

definition appends :: "co_queues \<Rightarrow> co_queues \<Rightarrow> bool" where
  "appends s s' \<longleftrightarrow> (\<exists>qs. co_list (cq_combine s') = co_list (cq_combine s) @ qs) \<and>
     (\<forall>q. \<exists>ts. cq_tasks s' q = cq_tasks s q @ ts) \<and> cq_log s' = cq_log s"

lemma appends_refl [simp]: "appends s s"
  by (simp add: appends_def)

lemma appends_trans: "appends s t \<Longrightarrow> appends t u \<Longrightarrow> appends s u"
  unfolding appends_def by (metis append.assoc)

lemma turn_push_ok:
  assumes "cq_ok (Some r) s" "cq_tasks s r \<noteq> []"
  shows "\<exists>s'. turn_push env qt s = Some s' \<and> cq_ok (Some r) s' \<and> appends s s' \<and> cq_tasks s' r \<noteq> []"
proof (cases "cq_tasks s (fst qt) = []")
  case True
  then have "fst qt \<notin> set (co_list (cq_combine s))" "fst qt \<noteq> r" using assms by (auto simp: cq_ok_def)
  then show ?thesis using assms True
    by (auto simp: turn_push_def ntt_combine_push_def ntt_assert_def cq_ok_def appends_def Let_def)
next
  case False
  then show ?thesis using assms by (auto simp: turn_push_def cq_ok_def appends_def Let_def)
qed

lemma turn_pushes_ok:
  assumes "cq_ok (Some r) s" "cq_tasks s r \<noteq> []"
  shows "\<exists>s'. turn_pushes env qts s = Some s' \<and> cq_ok (Some r) s' \<and> appends s s' \<and> cq_tasks s' r \<noteq> []"
  using assms
proof (induction qts arbitrary: s)
  case (Cons qt qts)
  obtain s1 where s1: "turn_push env qt s = Some s1" "cq_ok (Some r) s1" "appends s s1" "cq_tasks s1 r \<noteq> []"
    using turn_push_ok [OF Cons.prems] by blast
  from Cons.IH [OF s1(2,4)] show ?case using s1(1) appends_trans [OF s1(3)] by auto
qed auto

text \<open>What running queue \<open>q\<close> does, with the names \<open>ids\<close> of the tasks that have run.\<close>

definition runs :: "nat \<Rightarrow> nat list \<Rightarrow> co_queues \<Rightarrow> co_queues \<Rightarrow> bool" where
  "runs q ids s s' \<longleftrightarrow> prefix (co_list (cq_combine s)) (co_list (cq_combine s')) \<and>
     (\<forall>r. r \<noteq> q \<longrightarrow> prefix (cq_tasks s r) (cq_tasks s' r)) \<and> cq_log s' = cq_log s @ map (Pair q) ids"

lemma runs_trans: "runs q is s t \<Longrightarrow> runs q js t u \<Longrightarrow> runs q (is @ js) s u"
  by (auto simp: runs_def intro: prefix_order.trans)

lemma turn_task_ok:
  assumes ok: "cq_ok (Some q) s" and t: "cq_tasks s q = t # ts"
  shows "\<exists>s'. turn_task env q s = Some s' \<and> cq_ok (Some q) s' \<and> runs q [ct_id t] s s' \<and> prefix ts (cq_tasks s' q)"
proof -
  let ?s = "s\<lparr>cq_log := cq_log s @ [(q, ct_id t)]\<rparr>"
  have "cq_ok (Some q) ?s" "cq_tasks ?s q \<noteq> []" using ok t by (simp_all add: cq_ok_def)
  from turn_pushes_ok [OF this, of env "ct_pushes t"] obtain s1 where
    s1: "turn_pushes env (ct_pushes t) ?s = Some s1" "cq_ok (Some q) s1" "appends ?s s1" by blast
  have task: "turn_task env q s = Some (s1\<lparr>cq_tasks := (cq_tasks s1)(q := tl (cq_tasks s1 q))\<rparr>)"
    using s1(1) t by (simp add: turn_task_def)
  obtain us where us: "cq_tasks s1 q = cq_tasks s q @ us" using s1(3) unfolding appends_def by auto
  have "prefix (cq_tasks s r) (cq_tasks s1 r)" for r using s1(3) by (auto simp: appends_def prefix_def)
  then have "runs q [ct_id t] s (s1\<lparr>cq_tasks := (cq_tasks s1)(q := tl (cq_tasks s1 q))\<rparr>)"
    using s1(3) by (auto simp: runs_def appends_def prefix_def)
  then show ?thesis using task s1(2) us t by (auto simp: cq_ok_def)
qed

lemma turn_loop_ok:
  assumes "cq_ok (Some q) s" "cq_tasks s q \<noteq> []" "0 < left"
  shows "\<exists>c s' ids. turn_loop env q left cnt s = Some (c, s') \<and> cq_ok (Some q) s' \<and> runs q ids s s' \<and>
    prefix (take left (map ct_id (cq_tasks s q))) ids \<and> length ids \<le> left \<and> (c = 0 \<longleftrightarrow> cq_tasks s' q \<noteq> [])"
  using assms
proof (induction left arbitrary: cnt s)
  case (Suc left)
  obtain t ts where t: "cq_tasks s q = t # ts" using Suc.prems(2) by (cases "cq_tasks s q") auto
  obtain s1 where s1: "turn_task env q s = Some s1" "cq_ok (Some q) s1" "runs q [ct_id t] s s1" "prefix ts (cq_tasks s1 q)"
    using turn_task_ok [OF Suc.prems(1) t] by blast
  show ?case
  proof (cases "left = 0 \<or> cq_tasks s1 q = []")
    case True
    then have "prefix (take (Suc left) (map ct_id (cq_tasks s q))) [ct_id t]" using t s1(4) by auto
    moreover have "\<exists>c. turn_loop env q (Suc left) cnt s = Some (c, s1) \<and> (c = 0 \<longleftrightarrow> cq_tasks s1 q \<noteq> [])"
      using True s1(1) by auto
    ultimately show ?thesis using s1(2,3) by force
  next
    case False
    then obtain c s' ids where IH: "turn_loop env q left (cnt + 1) s1 = Some (c, s')" "cq_ok (Some q) s'" "runs q ids s1 s'"
      "prefix (take left (map ct_id (cq_tasks s1 q))) ids" "length ids \<le> left" "c = 0 \<longleftrightarrow> cq_tasks s' q \<noteq> []"
      using Suc.IH [OF s1(2), of "cnt + 1"] by auto
    obtain us where "cq_tasks s1 q = ts @ us" using s1(4) by (auto simp: prefix_def)
    then have "prefix (take left (map ct_id ts)) ids" using IH(4) by (auto simp: prefix_def)
    then have "prefix (take (Suc left) (map ct_id (cq_tasks s q))) (ct_id t # ids)" using t by simp
    moreover have "turn_loop env q (Suc left) cnt s = Some (c, s')" using False s1(1) IH(1) by simp
    ultimately show ?thesis using IH(2,5,6) runs_trans [OF s1(3) IH(3)] by force
  qed
qed simp

lemma combine_turn_ok:
  assumes ok: "cq_ok None s" and q: "co_list (cq_combine s) = q # qs" and "0 < queue_limit"
  shows "\<exists>s' ids. combine_turn env queue_limit s = Some (True, s') \<and> cq_ok None s' \<and>
    runs q ids (s\<lparr>cq_combine := (cq_combine s)\<lparr>co_list := qs\<rparr>\<rparr>) s' \<and>
    prefix (take queue_limit (map ct_id (cq_tasks s q))) ids \<and> length ids \<le> queue_limit"
proof -
  let ?s = "s\<lparr>cq_combine := (cq_combine s)\<lparr>co_list := qs\<rparr>\<rparr>"
  have s: "cq_ok (Some q) ?s" "cq_tasks ?s q \<noteq> []" "q \<notin> set qs" using ok q by (auto simp: cq_ok_def)
  obtain c s1 ids where s1: "turn_loop env q queue_limit 0 ?s = Some (c, s1)" "cq_ok (Some q) s1" "runs q ids ?s s1"
    "prefix (take queue_limit (map ct_id (cq_tasks s q))) ids" "length ids \<le> queue_limit" "c = 0 \<longleftrightarrow> cq_tasks s1 q \<noteq> []"
    using turn_loop_ok [OF s(1,2) assms(3), of env 0] by auto
  have svc: "ntt_queue_svc_with_limit env q queue_limit ?s = Some (c, s1)"
    using s assms(3) s1(1) by (simp add: ntt_queue_svc_with_limit_def ntt_assert_def)
  have take: "ntt_combine_try_take (cq_combine s) = (Some q, (cq_combine s)\<lparr>co_list := qs\<rparr>)"
    using q by (simp add: ntt_combine_try_take_def ntt_combine_empty_def)
  show ?thesis
  proof (cases "c = 0")
    case True
    let ?t = "s1\<lparr>cq_combine := (cq_combine s1)\<lparr>co_list := co_list (cq_combine s1) @ [q]\<rparr>\<rparr>"
    have "q \<notin> set (co_list (cq_combine s1))" using s1(2) by (simp add: cq_ok_def)
    then have "combine_turn env queue_limit s = Some (True, ?t)" "cq_ok None ?t"
      using True svc take s1(2,6) by (auto simp: combine_turn_def ntt_combine_push_def ntt_assert_def cq_ok_def Let_def)
    moreover have "runs q ids ?s ?t" using s1(3) by (auto simp: runs_def)
    ultimately show ?thesis using s1(4,5) by blast
  next
    case False
    then have "combine_turn env queue_limit s = Some (True, s1)" "cq_ok None s1"
      using svc take s1(2,6) by (auto simp: combine_turn_def cq_ok_def)
    then show ?thesis using s1(3-5) by blast
  qed
qed

section \<open>All turns\<close>

definition fair :: "nat \<Rightarrow> nat \<Rightarrow> co_queues \<Rightarrow> co_queues \<Rightarrow> bool" where
  "fair turns queue_limit s s' \<longleftrightarrow> (\<forall>k < turns. k < length (co_list (cq_combine s)) \<longrightarrow>
     prefix (ran_of_queue (co_list (cq_combine s) ! k) s @ take queue_limit (map ct_id (cq_tasks s (co_list (cq_combine s) ! k))))
       (ran_of_queue (co_list (cq_combine s) ! k) s'))"

lemma prefix_ran: "prefix (cq_log s) (cq_log s') \<Longrightarrow> prefix (ran_of_queue q s) (ran_of_queue q s')"
  by (auto simp: prefix_def)

lemma filter_Pair [simp]:
  "filter (\<lambda>e. fst e = r) (map (Pair q) ids) = (if r = q then map (Pair q) ids else [])"
  by (induction ids) auto

lemma fair_turn:
  assumes ok: "cq_ok None s" and q: "co_list (cq_combine s) = q # qs"
    and s1: "runs q ids (s\<lparr>cq_combine := (cq_combine s)\<lparr>co_list := qs\<rparr>\<rparr>) s1" "prefix (take queue_limit (map ct_id (cq_tasks s q))) ids"
    and rest: "fair turns queue_limit s1 s'" and log: "prefix (cq_log s1) (cq_log s')"
  shows "fair (Suc turns) queue_limit s s'"
  unfolding fair_def
proof (intro allI impI)
  fix k assume k: "k < Suc turns" "k < length (co_list (cq_combine s))"
  let ?q = "co_list (cq_combine s) ! k"
  have ran1: "ran_of_queue r s1 = ran_of_queue r s @ (if r = q then ids else [])" for r
    using s1(1) by (simp add: runs_def comp_def)
  show "prefix (ran_of_queue ?q s @ take queue_limit (map ct_id (cq_tasks s ?q))) (ran_of_queue ?q s')"
  proof (cases k)
    case 0
    then have "prefix (ran_of_queue ?q s @ take queue_limit (map ct_id (cq_tasks s ?q))) (ran_of_queue ?q s1)"
      using q s1(2) ran1 [of q] by simp
    then show ?thesis using prefix_ran [OF log] prefix_order.trans by blast
  next
    case (Suc j)
    then have j: "?q = qs ! j" "j < length qs" "j < turns" using k q by auto
    have ne: "?q \<noteq> q" using ok q j by (auto simp: cq_ok_def)
    obtain new where new: "co_list (cq_combine s1) = qs @ new" using s1(1) by (auto simp: runs_def prefix_def)
    then have at: "co_list (cq_combine s1) ! j = ?q" "j < length (co_list (cq_combine s1))" using j by (simp_all add: nth_append)
    obtain us where us: "cq_tasks s1 ?q = cq_tasks s ?q @ us" using s1(1) ne by (auto simp: runs_def prefix_def)
    have "prefix (ran_of_queue ?q s1 @ take queue_limit (map ct_id (cq_tasks s1 ?q))) (ran_of_queue ?q s')"
      using rest j(3) at unfolding fair_def by metis
    then show ?thesis using ran1 [of ?q] ne us by (auto simp: prefix_def)
  qed
qed

lemma turns_loop_ok:
  assumes "cq_ok None s" "0 < queue_limit"
  shows "\<exists>b s'. turns_loop env turns queue_limit s = Some (b, s') \<and> cq_ok None s' \<and> b \<le> 1 \<and>
    (b = 0 \<longrightarrow> ntt_combine_empty (cq_combine s')) \<and> prefix (cq_log s) (cq_log s') \<and>
    length (cq_log s') \<le> length (cq_log s) + turns * queue_limit \<and> fair turns queue_limit s s'"
  using assms
proof (induction turns arbitrary: s)
  case 0
  then show ?case by (simp add: fair_def)
next
  case (Suc turns)
  show ?case
  proof (cases "co_list (cq_combine s)")
    case Nil
    then show ?thesis using Suc.prems by (simp add: combine_turn_def ntt_combine_try_take_def ntt_combine_empty_def fair_def)
  next
    case (Cons q qs)
    obtain s1 ids where s1: "combine_turn env queue_limit s = Some (True, s1)" "cq_ok None s1"
      "runs q ids (s\<lparr>cq_combine := (cq_combine s)\<lparr>co_list := qs\<rparr>\<rparr>) s1"
      "prefix (take queue_limit (map ct_id (cq_tasks s q))) ids" "length ids \<le> queue_limit"
      using combine_turn_ok [OF Suc.prems(1) Cons Suc.prems(2), of env] by blast
    obtain b s' where IH: "turns_loop env turns queue_limit s1 = Some (b, s')" "cq_ok None s'" "b \<le> 1"
      "b = 0 \<longrightarrow> ntt_combine_empty (cq_combine s')" "prefix (cq_log s1) (cq_log s')"
      "length (cq_log s') \<le> length (cq_log s1) + turns * queue_limit" "fair turns queue_limit s1 s'"
      using Suc.IH [OF s1(2) Suc.prems(2)] by blast
    have log: "cq_log s1 = cq_log s @ map (Pair q) ids" using s1(3) by (simp add: runs_def)
    have "turns_loop env (Suc turns) queue_limit s = Some (b, s')" using s1(1) IH(1) by simp
    moreover have "prefix (cq_log s) (cq_log s')" using log IH(5) by (auto simp: prefix_def)
    moreover have "length (cq_log s') \<le> length (cq_log s) + Suc turns * queue_limit" using log IH(6) s1(5) by simp
    moreover have "fair (Suc turns) queue_limit s s'"
      by (rule fair_turn [OF Suc.prems(1) Cons s1(3,4) IH(7,5)])
    ultimately show ?thesis using IH(2-4) by blast
  qed
qed

section \<open>Properties\<close>

text \<open>Two queues, the first with a task that pushes to a third queue.\<close>

definition demo_turns :: co_queues where
  "demo_turns = \<lparr>cq_combine = \<lparr>co_list = [1, 2], co_cb = False\<rparr>,
     cq_tasks = (\<lambda>_. [])(1 := [CTask 10 [(3, CTask 30 [])], CTask 11 [], CTask 12 []], 2 := [CTask 20 []]), cq_log = []\<rparr>"

text \<open>
  C14. The queues take turns. Running the combine with limits returns, whatever tasks push, without a failed assertion:
  it answers zero only when no queue is left, it runs no more tasks than the limits allow, every queue with tasks is
  in the combine once, and each of the first \<open>loop_limit\<close> queues of the combine has run its first tasks, up to
  \<open>queue_limit\<close> of them, in order: a queue that keeps pushing to itself does not keep the others from running.
\<close>

theorem combine_turns_fair:
  assumes "cq_ok None s" "0 < loop_limit" "0 < queue_limit"
  shows "\<exists>b s'. ntt_combine_svc_with_limits env loop_limit queue_limit s = Some (b, s') \<and> cq_ok None s' \<and>
    (b = 0 \<and> ntt_combine_empty (cq_combine s') \<or> b = 1) \<and>
    length (cq_log s') \<le> length (cq_log s) + loop_limit * queue_limit \<and>
    (\<forall>k < loop_limit. \<forall>q. k < length (co_list (cq_combine s)) \<and> q = co_list (cq_combine s) ! k \<longrightarrow>
       prefix (ran_of_queue q s @ take queue_limit (map ct_id (cq_tasks s q))) (ran_of_queue q s'))"
proof -
  obtain b s' where s': "turns_loop env loop_limit queue_limit s = Some (b, s')" "cq_ok None s'" "b \<le> 1"
    "b = 0 \<longrightarrow> ntt_combine_empty (cq_combine s')" "length (cq_log s') \<le> length (cq_log s) + loop_limit * queue_limit"
    "fair loop_limit queue_limit s s'"
    using turns_loop_ok [OF assms(1,3), of env loop_limit] by blast
  have "ntt_combine_svc_with_limits env loop_limit queue_limit s = Some (b, s')"
    using s'(1) assms by (simp add: ntt_combine_svc_with_limits_def ntt_assert_def)
  moreover have "b = 0 \<and> ntt_combine_empty (cq_combine s') \<or> b = 1" using s'(3,4) by (cases b) auto
  ultimately show ?thesis using s'(2,5,6) unfolding fair_def by blast
qed

theorem combine_turns_fair_witness:
  "\<exists>b s'. ntt_combine_svc_with_limits combine_env 2 2 demo_turns = Some (b, s') \<and> prefix [20] (ran_of_queue 2 s') \<and>
    prefix [10, 11] (ran_of_queue 1 s')"
proof -
  have "cq_ok None demo_turns" "0 < (2 :: nat)" by (auto simp: cq_ok_def demo_turns_def)
  from combine_turns_fair [OF this(1,2,2), of combine_env] obtain b s' where
    s': "ntt_combine_svc_with_limits combine_env 2 2 demo_turns = Some (b, s')"
    "\<And>k. k < 2 \<Longrightarrow> k < length (co_list (cq_combine demo_turns)) \<Longrightarrow>
       prefix (ran_of_queue (co_list (cq_combine demo_turns) ! k) demo_turns @
         take 2 (map ct_id (cq_tasks demo_turns (co_list (cq_combine demo_turns) ! k)))) (ran_of_queue (co_list (cq_combine demo_turns) ! k) s')"
    by blast
  from s'(2) [of 0] s'(2) [of 1] s'(1) show ?thesis by (auto simp: demo_turns_def)
qed

end
