(* ===== verification/Task_Life.thy ===== *)
theory Task_Life
  imports Task_List
begin

text \<open>
  The life of a task: \<open>src/src/task.h\<close>, \<open>src/src/task.c\<close> and \<open>ntt_malloc\<close> of \<open>src/src/malloc.c\<close>. Task nodes live in a memory of their own, at the
  addresses that \<open>malloc\<close> returns (a parameter, \<open>NULL\<close> for a failure) or inside an object of the user. Using a
  node that is not there is \<open>None\<close>, as is a failed assertion or a write through \<open>NULL\<close>. The callbacks are recorded.
\<close>

section \<open>Allocation\<close>

text \<open>Without assertions, a failure is passed on, although the function is declared never to return \<open>NULL\<close>.\<close>

definition ntt_malloc :: "env \<Rightarrow> ptr \<Rightarrow> ptr option" where
  "ntt_malloc env ptr = do {
     ntt_assert env (ptr \<noteq> NULL);
     Some ptr
   }"

definition ntt_is_aligned :: "ptr \<Rightarrow> nat \<Rightarrow> bool" where
  "ntt_is_aligned ptr align \<longleftrightarrow> \<not> unat ptr mod align \<noteq> 0"

section \<open>Task nodes\<close>

definition NTT_TASK_PAYLOAD_SIZE :: nat where
  "NTT_TASK_PAYLOAD_SIZE = 32"

definition NTT_TASK_PAYLOAD_ALIGN :: nat where
  "NTT_TASK_PAYLOAD_ALIGN = 8"

text \<open>The node, two callbacks and the payload.\<close>

definition task_node_size :: nat where
  "task_node_size = unat task_payload_offset + NTT_TASK_PAYLOAD_SIZE"

datatype free_cb = NttFree | UserFree nat

text \<open>The payload as words; the list node is in the memory of nodes.\<close>

record ntt_task_node =
  tn_cb :: ptr
  tn_free :: free_cb
  tn_payload :: "u64 list"

datatype life_event = Created ptr | Called ptr ptr ntt_task_action | Freed ptr free_cb

record task_mem =
  tm_nodes :: nmem
  tm_tasks :: "ptr \<Rightarrow> ntt_task_node option"
  tm_log :: "life_event list"

text \<open>What a new node holds of a payload is whatever the memory had.\<close>

definition node_put :: "ptr \<Rightarrow> ptr \<Rightarrow> free_cb \<Rightarrow> u64 list \<Rightarrow> task_mem \<Rightarrow> task_mem" where
  "node_put node cb free payload m = m\<lparr>tm_nodes := ntt_node_init (tm_nodes m) node,
     tm_tasks := (tm_tasks m)(node \<mapsto> \<lparr>tn_cb = cb, tn_free = free, tn_payload = payload\<rparr>), tm_log := tm_log m @ [Created node]\<rparr>"

definition ntt_task_init :: "ptr \<Rightarrow> ptr \<Rightarrow> free_cb \<Rightarrow> u64 list \<Rightarrow> task_mem \<Rightarrow> ptr \<times> task_mem" where
  "ntt_task_init task_node cb free garbage m = (task_of_node task_node, node_put task_node cb free garbage m)"

definition ntt_task_create_inl :: "env \<Rightarrow> ptr \<Rightarrow> ptr \<Rightarrow> free_cb option \<Rightarrow> u64 list \<Rightarrow> task_mem \<Rightarrow> (ptr \<times> task_mem) option" where
  "ntt_task_create_inl env addr cb free garbage m = do {
     self \<leftarrow> ntt_malloc env addr;
     ntt_assert env (ntt_is_aligned (task_of_node self) NTT_TASK_PAYLOAD_ALIGN);
     if self = NULL then None
     else Some (self, node_put self cb (case free of None \<Rightarrow> NttFree | Some f \<Rightarrow> f) garbage m)
   }"

definition ntt_task_create :: "env \<Rightarrow> ptr \<Rightarrow> ptr \<Rightarrow> u64 list \<Rightarrow> task_mem \<Rightarrow> (ptr \<times> task_mem) option" where
  "ntt_task_create env addr cb garbage m = do {
     (task_node, m') \<leftarrow> ntt_task_create_inl env addr cb None garbage m;
     Some (task_of_node task_node, m')
   }"

definition ntt_task_create_with_ctx ::
    "env \<Rightarrow> ptr \<Rightarrow> ptr \<Rightarrow> free_cb option \<Rightarrow> ptr \<Rightarrow> u64 list \<Rightarrow> task_mem \<Rightarrow> (ptr \<times> task_mem) option" where
  "ntt_task_create_with_ctx env addr cb free ctx garbage m = do {
     self \<leftarrow> ntt_malloc env addr;
     ntt_assert env (ntt_is_aligned (task_of_node self) NTT_TASK_PAYLOAD_ALIGN);
     if self = NULL then None
     else Some (task_of_node self, node_put self cb (case free of None \<Rightarrow> NttFree | Some f \<Rightarrow> f) (garbage[0 := ctx]) m)
   }"

definition ntt_task_is_null :: "ptr \<Rightarrow> task_mem \<Rightarrow> bool option" where
  "ntt_task_is_null task m = map_option (\<lambda>t. tn_cb t = NULL) (tm_tasks m (task_node_of task))"

definition ntt_task_svc :: "ptr \<Rightarrow> task_mem \<Rightarrow> task_mem option" where
  "ntt_task_svc task m = do {
     t \<leftarrow> tm_tasks m (task_node_of task);
     if tn_cb t = NULL then None
     else Some (m\<lparr>tm_log := tm_log m @ [Called (tn_cb t) task NTT_TASK_RUN]\<rparr>)
   }"

definition ntt_task_destroy :: "ptr \<Rightarrow> task_mem \<Rightarrow> task_mem option" where
  "ntt_task_destroy task m = do {
     t \<leftarrow> tm_tasks m (task_node_of task);
     if tn_cb t = NULL then None
     else Some (m\<lparr>tm_tasks := (tm_tasks m)(task_node_of task := None),
       tm_log := tm_log m @ [Called (tn_cb t) task NTT_TASK_DROP, Freed (task_node_of task) (tn_free t)]\<rparr>)
   }"

section \<open>All that is done with tasks\<close>

definition apart :: "ptr \<Rightarrow> ptr \<Rightarrow> bool" where
  "apart a b \<longleftrightarrow> unat a + task_node_size \<le> unat b \<or> unat b + task_node_size \<le> unat a"

text \<open>Storage for a node: aligned for pointers, inside the address space, and not that of a task that is there.\<close>

definition storage_ok :: "task_mem \<Rightarrow> ptr \<Rightarrow> bool" where
  "storage_ok m a \<longleftrightarrow> a \<noteq> NULL \<and> unat a mod 8 = 0 \<and> unat a + task_node_size < 2 ^ 64 \<and> (\<forall>b. tm_tasks m b \<noteq> None \<longrightarrow> apart a b)"

datatype life_act = TInit ptr ptr free_cb "u64 list" | TCreate ptr ptr "u64 list"
  | TCreateWithCtx ptr ptr "free_cb option" ptr "u64 list" | TSvc ptr | TDestroy ptr

definition task_alive :: "task_mem \<Rightarrow> ptr \<Rightarrow> bool" where
  "task_alive m task \<longleftrightarrow> tm_tasks m (task_node_of task) \<noteq> None"

fun life_enabled :: "task_mem \<Rightarrow> life_act \<Rightarrow> bool" where
  "life_enabled m (TInit node cb free garbage) \<longleftrightarrow> storage_ok m node \<and> cb \<noteq> NULL \<and> length garbage = 4"
| "life_enabled m (TCreate addr cb garbage) \<longleftrightarrow> storage_ok m addr \<and> cb \<noteq> NULL \<and> length garbage = 4"
| "life_enabled m (TCreateWithCtx addr cb free ctx garbage) \<longleftrightarrow> storage_ok m addr \<and> cb \<noteq> NULL \<and> length garbage = 4"
| "life_enabled m (TSvc task) \<longleftrightarrow> task_alive m task"
| "life_enabled m (TDestroy task) \<longleftrightarrow> task_alive m task"

text \<open>The task that is returned, or the one that is used.\<close>

fun life_do :: "env \<Rightarrow> life_act \<Rightarrow> task_mem \<Rightarrow> (ptr \<times> task_mem) option" where
  "life_do env (TInit node cb free garbage) m = Some (ntt_task_init node cb free garbage m)"
| "life_do env (TCreate addr cb garbage) m = ntt_task_create env addr cb garbage m"
| "life_do env (TCreateWithCtx addr cb free ctx garbage) m = ntt_task_create_with_ctx env addr cb free ctx garbage m"
| "life_do env (TSvc task) m = map_option (Pair task) (ntt_task_svc task m)"
| "life_do env (TDestroy task) m = map_option (Pair task) (ntt_task_destroy task m)"

definition no_tasks :: "nmem \<Rightarrow> task_mem" where
  "no_tasks nodes = \<lparr>tm_nodes = nodes, tm_tasks = (\<lambda>_. None), tm_log = []\<rparr>"

inductive life_reachable :: "env \<Rightarrow> task_mem \<Rightarrow> bool" for env where
  life_begin: "life_reachable env (no_tasks nodes)"
| life_next: "life_reachable env m \<Longrightarrow> life_enabled m a \<Longrightarrow> life_do env a m = Some (task, m') \<Longrightarrow> life_reachable env m'"

section \<open>Well-formed memories\<close>

definition node_ok :: "ptr \<Rightarrow> ntt_task_node \<Rightarrow> bool" where
  "node_ok a t \<longleftrightarrow> a \<noteq> NULL \<and> unat a mod 8 = 0 \<and> unat a + task_node_size < 2 ^ 64 \<and> tn_cb t \<noteq> NULL \<and> length (tn_payload t) = 4"

definition task_mem_ok :: "task_mem \<Rightarrow> bool" where
  "task_mem_ok m \<longleftrightarrow> (\<forall>a t. tm_tasks m a = Some t \<longrightarrow> node_ok a t) \<and>
     (\<forall>a b. tm_tasks m a \<noteq> None \<and> tm_tasks m b \<noteq> None \<and> a \<noteq> b \<longrightarrow> apart a b)"

fun drops :: "ptr \<Rightarrow> life_event \<Rightarrow> bool" where
  "drops a (Called cb task act) \<longleftrightarrow> task_node_of task = a \<and> act = NTT_TASK_DROP"
| "drops a e \<longleftrightarrow> False"

fun frees :: "ptr \<Rightarrow> life_event \<Rightarrow> bool" where
  "frees a (Freed node f) \<longleftrightarrow> node = a"
| "frees a e \<longleftrightarrow> False"

definition task_log_ok :: "task_mem \<Rightarrow> bool" where
  "task_log_ok m \<longleftrightarrow> (\<forall>a. count_list (tm_log m) (Created a) = length (filter (drops a) (tm_log m)) + of_bool (tm_tasks m a \<noteq> None) \<and>
     length (filter (frees a) (tm_log m)) = length (filter (drops a) (tm_log m)))"

lemma offset_unat: "unat task_payload_offset = 32"
  by (simp add: task_payload_offset_def)

lemma payload_aligned:
  assumes "unat a mod 8 = 0" "unat a + task_node_size < 2 ^ 64"
  shows "unat (task_of_node a) = unat a + 32" "ntt_is_aligned (task_of_node a) NTT_TASK_PAYLOAD_ALIGN"
proof -
  have "unat a + unat task_payload_offset < 2 ^ LENGTH(64)" using assms(2) by (simp add: task_node_size_def offset_unat)
  then have "unat (a + task_payload_offset) = unat a + unat task_payload_offset" by (rule unat_add_lem [THEN iffD1])
  then show sum: "unat (task_of_node a) = unat a + 32" by (simp add: task_of_node_def offset_unat)
  show "ntt_is_aligned (task_of_node a) NTT_TASK_PAYLOAD_ALIGN"
    using assms(1) unfolding ntt_is_aligned_def NTT_TASK_PAYLOAD_ALIGN_def sum by presburger
qed

lemma apart_sym: "apart a b \<longleftrightarrow> apart b a"
  by (auto simp: apart_def)

lemma storage_vacant: "storage_ok m a \<Longrightarrow> tm_tasks m a = None"
  by (rule ccontr) (auto simp: storage_ok_def apart_def task_node_size_def offset_unat NTT_TASK_PAYLOAD_SIZE_def)

lemma node_put_ok:
  assumes "task_mem_ok m" "storage_ok m a" "cb \<noteq> NULL" "length payload = 4"
  shows "task_mem_ok (node_put a cb free payload m)"
  using assms storage_vacant [OF assms(2)] apart_sym
  by (auto simp: task_mem_ok_def node_put_def storage_ok_def node_ok_def)

lemma node_put_log_ok:
  assumes "task_log_ok m" "storage_ok m a"
  shows "task_log_ok (node_put a cb free payload m)"
  using assms storage_vacant [OF assms(2)] by (auto simp: task_log_ok_def node_put_def)

text \<open>Every step that can be taken is defined.\<close>

lemma life_step:
  assumes ok: "task_mem_ok m" "task_log_ok m" and en: "life_enabled m a"
  shows "\<exists>task m'. life_do env a m = Some (task, m') \<and> task_mem_ok m' \<and> task_log_ok m'"
proof (cases a)
  case (TInit node cb free garbage)
  then show ?thesis using node_put_ok [OF ok(1)] node_put_log_ok [OF ok(2)] en by (simp add: ntt_task_init_def)
next
  case (TCreate addr cb garbage)
  then have "storage_ok m addr" using en by simp
  then show ?thesis using node_put_ok [OF ok(1)] node_put_log_ok [OF ok(2)] en payload_aligned(2) [of addr]
    by (simp add: TCreate ntt_task_create_def ntt_task_create_inl_def ntt_malloc_def ntt_assert_def storage_ok_def)
next
  case (TCreateWithCtx addr cb free ctx garbage)
  then have "storage_ok m addr" using en by simp
  then show ?thesis using node_put_ok [OF ok(1)] node_put_log_ok [OF ok(2)] en payload_aligned(2) [of addr]
    by (simp add: TCreateWithCtx ntt_task_create_with_ctx_def ntt_malloc_def ntt_assert_def storage_ok_def)
next
  case (TSvc task)
  then obtain t where "tm_tasks m (task_node_of task) = Some t" "tn_cb t \<noteq> NULL"
    using en ok(1) by (auto simp: task_alive_def task_mem_ok_def node_ok_def)
  then show ?thesis using ok by (simp add: TSvc ntt_task_svc_def task_mem_ok_def task_log_ok_def)
next
  case (TDestroy task)
  then obtain t where t: "tm_tasks m (task_node_of task) = Some t" "tn_cb t \<noteq> NULL"
    using en ok(1) by (auto simp: task_alive_def task_mem_ok_def node_ok_def)
  let ?m = "m\<lparr>tm_tasks := (tm_tasks m)(task_node_of task := None),
       tm_log := tm_log m @ [Called (tn_cb t) task NTT_TASK_DROP, Freed (task_node_of task) (tn_free t)]\<rparr>"
  have "task_mem_ok ?m" using ok(1) by (auto simp: task_mem_ok_def)
  moreover have "task_log_ok ?m" using ok(2) t by (auto simp: task_log_ok_def dest!: spec [of _ "task_node_of task"])
  ultimately show ?thesis using t by (simp add: TDestroy ntt_task_destroy_def)
qed

lemma life_reachable_ok: "life_reachable env m \<Longrightarrow> task_mem_ok m \<and> task_log_ok m"
proof (induction rule: life_reachable.induct)
  case (life_begin nodes)
  show ?case by (simp add: no_tasks_def task_mem_ok_def task_log_ok_def)
next
  case (life_next m a task m')
  then show ?case using life_step [of m a env] by auto
qed

section \<open>Properties\<close>

text \<open>
  C23. The memory of tasks is well-formed: every task that is there has a callback and a payload of \<open>NTT_TASK_PAYLOAD_SIZE\<close> bytes that is aligned as
  promised, lies within the address space and overlaps no other task, and from the address of the payload one gets back to the
  node. Every operation on the tasks that are there is defined, its assertions hold and it keeps all this. At every address as many tasks
  have been dropped as freed, and as many as were created but for the one that is there: a task is dropped once, then freed once.
\<close>

theorem task_memory_typed:
  assumes "life_reachable env m"
  shows "(\<forall>a t. tm_tasks m a = Some t \<longrightarrow> ntt_is_aligned (task_of_node a) NTT_TASK_PAYLOAD_ALIGN \<and> task_node_of (task_of_node a) = a \<and>
        unat (task_of_node a) + NTT_TASK_PAYLOAD_SIZE < 2 ^ 64 \<and> 8 * length (tn_payload t) = NTT_TASK_PAYLOAD_SIZE \<and> tn_cb t \<noteq> NULL)
    \<and> (\<forall>a b. tm_tasks m a \<noteq> None \<and> tm_tasks m b \<noteq> None \<and> a \<noteq> b \<longrightarrow> apart a b)
    \<and> (\<forall>act. life_enabled m act \<longrightarrow> (\<exists>task m'. life_do env act m = Some (task, m') \<and> task_mem_ok m'))
    \<and> (\<forall>a. count_list (tm_log m) (Created a) = length (filter (drops a) (tm_log m)) + of_bool (tm_tasks m a \<noteq> None)
        \<and> length (filter (frees a) (tm_log m)) = length (filter (drops a) (tm_log m)))"
proof -
  have ok: "task_mem_ok m" "task_log_ok m" using life_reachable_ok [OF assms] by simp_all
  have typed: "ntt_is_aligned (task_of_node a) NTT_TASK_PAYLOAD_ALIGN \<and> unat (task_of_node a) + NTT_TASK_PAYLOAD_SIZE < 2 ^ 64 \<and>
      8 * length (tn_payload t) = NTT_TASK_PAYLOAD_SIZE \<and> tn_cb t \<noteq> NULL" if "tm_tasks m a = Some t" for a t
  proof -
    have n: "node_ok a t" using ok(1) that by (simp add: task_mem_ok_def)
    then have "unat a mod 8 = 0" "unat a + task_node_size < 2 ^ 64" by (simp_all add: node_ok_def)
    from payload_aligned [OF this] n show ?thesis by (simp add: node_ok_def task_node_size_def offset_unat NTT_TASK_PAYLOAD_SIZE_def)
  qed
  have "\<exists>task m'. life_do env act m = Some (task, m') \<and> task_mem_ok m'" if "life_enabled m act" for act
    using life_step [OF ok that, of env] by blast
  moreover have "\<forall>a b. tm_tasks m a \<noteq> None \<and> tm_tasks m b \<noteq> None \<and> a \<noteq> b \<longrightarrow> apart a b" using ok(1) by (simp add: task_mem_ok_def)
  ultimately show ?thesis using typed ok(2) by (simp add: task_log_ok_def)
qed

text \<open>A task at the address 4096, created, run and destroyed.\<close>

definition life_env :: env where
  "life_env = \<lparr>ndebug = False, can_alloc = (\<lambda>_. True)\<rparr>"

definition life_demo :: "life_act list" where
  "life_demo = [TCreate 4096 77 [0, 0, 0, 0], TSvc 4128, TDestroy 4128]"

fun life_run :: "env \<Rightarrow> life_act list \<Rightarrow> task_mem \<Rightarrow> task_mem option" where
  "life_run env [] m = Some m"
| "life_run env (a # as) m = do { (task, m') \<leftarrow> life_do env a m; life_run env as m' }"

lemma life_demo_reached:
  "\<exists>m. life_run life_env life_demo (no_tasks nodes) = Some m \<and> life_reachable life_env m \<and>
     tm_log m = [Created 4096, Called 77 4128 NTT_TASK_RUN, Called 77 4128 NTT_TASK_DROP, Freed 4096 NttFree]"
proof -
  note defs = ntt_task_create_def ntt_task_create_inl_def ntt_malloc_def ntt_assert_def ntt_is_aligned_def NTT_TASK_PAYLOAD_ALIGN_def life_env_def
    task_of_node_def task_node_of_def task_payload_offset_def ntt_task_svc_def ntt_task_destroy_def no_tasks_def node_put_def
  obtain m1 where m1: "life_do life_env (TCreate 4096 77 [0, 0, 0, 0]) (no_tasks nodes) = Some (4128, m1)" "tm_log m1 = [Created 4096]"
    "tm_tasks m1 = [4096 \<mapsto> \<lparr>tn_cb = 77, tn_free = NttFree, tn_payload = [0, 0, 0, 0]\<rparr>]" by (simp add: defs)
  have r1: "life_reachable life_env m1"
    by (rule life_next [OF life_begin _ m1(1)]) (simp add: storage_ok_def no_tasks_def task_node_size_def offset_unat NTT_TASK_PAYLOAD_SIZE_def)
  obtain m2 where m2: "life_do life_env (TSvc 4128) m1 = Some (4128, m2)" "tm_tasks m2 = tm_tasks m1"
    "tm_log m2 = [Created 4096, Called 77 4128 NTT_TASK_RUN]" using m1(2,3) by (simp add: defs)
  have r2: "life_reachable life_env m2"
    by (rule life_next [OF r1 _ m2(1)]) (simp add: task_alive_def m1(3) task_node_of_def task_payload_offset_def)
  obtain m3 where m3: "life_do life_env (TDestroy 4128) m2 = Some (4128, m3)"
    "tm_log m3 = [Created 4096, Called 77 4128 NTT_TASK_RUN, Called 77 4128 NTT_TASK_DROP, Freed 4096 NttFree]" using m2(2,3) m1(3) by (simp add: defs)
  have "life_reachable life_env m3"
    by (rule life_next [OF r2 _ m3(1)]) (simp add: task_alive_def m2(2) m1(3) task_node_of_def task_payload_offset_def)
  then show ?thesis using m1(1) m2(1) m3 by (simp add: life_demo_def)
qed

theorem task_memory_typed_witness:
  "\<exists>m. life_run life_env life_demo (no_tasks (\<lambda>_. \<lparr>nd_next = 0, nd_prev = 0\<rparr>)) = Some m \<and>
     count_list (tm_log m) (Created 4096) = 1 \<and> length (filter (frees 4096) (tm_log m)) = length (filter (drops 4096) (tm_log m))"
proof -
  obtain m where m: "life_run life_env life_demo (no_tasks (\<lambda>_. \<lparr>nd_next = 0, nd_prev = 0\<rparr>)) = Some m" "life_reachable life_env m"
    "tm_log m = [Created 4096, Called 77 4128 NTT_TASK_RUN, Called 77 4128 NTT_TASK_DROP, Freed 4096 NttFree]"
    using life_demo_reached by blast
  then show ?thesis using task_memory_typed [OF m(2)] by (intro exI [of _ m]) (simp add: task_node_of_def task_payload_offset_def)
qed

end
