(* ===== verification/Reader.thy ===== *)
theory Reader
  imports Event Task_Life
begin

text \<open>
  The reader, a client of the events: \<open>src/src/reader.h\<close>, \<open>src/src/reader.c\<close> and \<open>src/include/ntt/reader.h\<close>. It is run on
  the model of an event: a state has the slot of the event with all that is in flight on it, the reader, and
  where its handler is. What \<open>read\<close> returns is up to the outside, the user callbacks \<open>on_data\<close> and \<open>on_cancel\<close> are recorded.
\<close>

section \<open>Readers\<close>

text \<open>\<open>rd_queue\<close> says that the queue is not \<open>NULL\<close>.\<close>

record ntt_reader =
  rd_queue :: bool
  rd_event :: u64
  rd_ec :: int

definition NTT_EVENT_HANDLE_NONE :: u64 where
  "NTT_EVENT_HANDLE_NONE = 0"

definition ntt_reader_init :: ntt_reader where
  "ntt_reader_init = \<lparr>rd_queue = False, rd_event = NTT_EVENT_HANDLE_NONE, rd_ec = 0\<rparr>"

text \<open>\<open>ptr\<close> is what \<open>malloc\<close> returns.\<close>

definition ntt_reader_create :: "env \<Rightarrow> ptr \<Rightarrow> ntt_reader option option" where
  "ntt_reader_create env ptr = do {
     self \<leftarrow> ntt_malloc env ptr;
     Some (if self = NULL then None else Some ntt_reader_init)
   }"

section \<open>The handler\<close>

definition EINTR :: int where "EINTR = 4"
definition EAGAIN :: int where "EAGAIN = 11"
definition EWOULDBLOCK :: int where "EWOULDBLOCK = 11"

datatype read_result = RdData "u8 list" | RdEof | RdError int

datatype rd_call = OnData "u8 list" | OnCancel int

text \<open>
  Where the handler is: not running, at the head of its loop, about to cancel the event, in \<open>ntt_event_cancel\<close> with
  the reference taken, or about to return.
\<close>

datatype rd_pc = RIdle | RLoop | RCancel | RClosing | RReturn

text \<open>One pass of the loop of \<open>ntt_reader_readable\<close>.\<close>

definition ntt_reader_readable :: "ntt_reader \<Rightarrow> read_result \<Rightarrow> ntt_reader \<times> rd_pc \<times> rd_call list" where
  "ntt_reader_readable self r = (case r of
     RdData data \<Rightarrow> (self, RLoop, [OnData data])
   | RdEof \<Rightarrow> (self, RCancel, [])
   | RdError errno \<Rightarrow>
       if errno = EINTR then (self, RLoop, [])
       else if errno = EAGAIN \<or> errno = EWOULDBLOCK then (self, RReturn, [])
       else (self\<lparr>rd_ec := errno\<rparr>, RCancel, []))"

definition ntt_reader_cancelled :: "ntt_reader \<Rightarrow> rd_call list" where
  "ntt_reader_cancelled self = [OnCancel (rd_ec self)]"

text \<open>What the event is started with.\<close>

definition reader_params :: ntt_event_params where
  "reader_params = \<lparr>pa_readable = True, pa_writable = False, pa_rc = True, pa_wc = False,
     pa_interest = interest_bits NTT_INTEREST_READABLE, pa_read_queue = True, pa_write_queue = False, pa_same_loop = True\<rparr>"

section \<open>A reader and its event\<close>

record rd_sys =
  rs_ev :: ev_sys
  rs_reader :: ntt_reader
  rs_pc :: rd_pc
  rs_reads :: "read_result list"
  rs_calls :: "rd_call list"

abbreviation rs_event :: "rd_sys \<Rightarrow> ntt_event" where
  "rs_event s \<equiv> es_event (rs_ev s)"

abbreviation rs_jobs :: "rd_sys \<Rightarrow> ev_job multiset" where
  "rs_jobs s \<equiv> es_jobs (rs_ev s)"

abbreviation rs_opened :: "rd_sys \<Rightarrow> bool" where
  "rs_opened s \<equiv> rd_event (rs_reader s) \<noteq> NTT_EVENT_HANDLE_NONE"

text \<open>A call with a handle of the slot.\<close>

definition reader_call :: "u64 \<Rightarrow> ev_call \<Rightarrow> rd_sys \<Rightarrow> rd_sys" where
  "reader_call handle call s = (
     let (e, js) = ntt_event_live (rs_event s) handle call
     in s\<lparr>rs_ev := (rs_ev s)\<lparr>es_event := e, es_jobs := rs_jobs s + mset js\<rparr>\<rparr>)"

fun runs_readable :: "ev_job \<Rightarrow> bool" where
  "runs_readable (JRun h side k) \<longleftrightarrow> side = NTT_INTEREST_READABLE"
| "runs_readable j \<longleftrightarrow> False"

fun calls_readable :: "ev_log \<Rightarrow> bool" where
  "calls_readable (LCall h side) \<longleftrightarrow> side = NTT_INTEREST_READABLE"
| "calls_readable l \<longleftrightarrow> False"

text \<open>A step of the event: its calls of the handlers start the handler and report the cancellation.\<close>

definition reader_job :: "ev_job \<Rightarrow> rd_sys \<Rightarrow> rd_sys" where
  "reader_job j s = (
     let (e, js, evs) = ev_job_step (rs_event s) j
     in s\<lparr>rs_ev := \<lparr>es_event = e, es_jobs = rs_jobs s - {#j#} + mset js, es_log = es_log (rs_ev s) @ evs\<rparr>,
          rs_pc := (if list_ex calls_readable evs then RLoop
                    else if runs_readable j then RIdle else rs_pc s),
          rs_calls := rs_calls s @ (if LCancelled NTT_INTEREST_READABLE \<in> set evs then ntt_reader_cancelled (rs_reader s) else [])\<rparr>)"

text \<open>
  What can happen: \<open>ntt_reader_start\<close> in its two parts, \<open>ntt_reader_cancel\<close>, a notification from epoll, a step of a thread that
  is in a call of the event or runs a task of it, and the steps of the handler.
\<close>

datatype rd_act = RdQueue | RdOpen | RdCancel | RdDispatch u64 u32 | RdJob ev_job | RdRead read_result
  | RdClose u64 "ntt_interest list option" | RdClosed u64 "ntt_interest list option"

text \<open>
  The handler returns before its side is left; what is in \<open>ntt_event_cancel\<close> for the handler is its own. It cancels
  with the handle it was called with.
\<close>

fun rd_enabled :: "rd_sys \<Rightarrow> rd_act \<Rightarrow> bool" where
  "rd_enabled s RdQueue \<longleftrightarrow> \<not> rd_queue (rs_reader s)"
| "rd_enabled s RdOpen \<longleftrightarrow> rd_queue (rs_reader s) \<and> \<not> rs_opened s"
| "rd_enabled s RdCancel \<longleftrightarrow> unat (ev_refs (rs_event s)) < 4294967294"
| "rd_enabled s (RdDispatch handle events) \<longleftrightarrow> unat (ev_refs (rs_event s)) < 4294967294 \<and>
     ntt_event_handle_index handle = ev_index (rs_event s)"
| "rd_enabled s (RdJob j) \<longleftrightarrow> j \<in># rs_jobs s \<and> unat (ev_refs (rs_event s)) < 4294967294 \<and>
     (runs_readable j \<longrightarrow> rs_pc s = RReturn) \<and>
     (rs_pc s = RClosing \<and> j = JLive (rd_event (rs_reader s)) EvCancel \<longrightarrow> 2 \<le> count (rs_jobs s) j)"
| "rd_enabled s (RdRead r) \<longleftrightarrow> rs_pc s = RLoop"
| "rd_enabled s (RdClose h k) \<longleftrightarrow> rs_pc s = RCancel \<and> JRun h NTT_INTEREST_READABLE k \<in># rs_jobs s \<and> unat (ev_refs (rs_event s)) < 4294967294"
| "rd_enabled s (RdClosed h k) \<longleftrightarrow> rs_pc s = RClosing \<and> JRun h NTT_INTEREST_READABLE k \<in># rs_jobs s \<and> unat (ev_refs (rs_event s)) < 4294967294"

fun rd_do :: "env \<Rightarrow> rd_act \<Rightarrow> rd_sys \<Rightarrow> rd_sys option" where
  "rd_do env RdQueue s = Some (s\<lparr>rs_reader := (rs_reader s)\<lparr>rd_queue := True\<rparr>\<rparr>)"
| "rd_do env RdOpen s = do {
     (events, flags) \<leftarrow> ntt_event_start env reader_params;
     let (e, evs) = ntt_event_open (rs_event s) reader_params events flags;
     Some (s\<lparr>rs_ev := (rs_ev s)\<lparr>es_event := e, es_log := es_log (rs_ev s) @ evs\<rparr>,
             rs_reader := (rs_reader s)\<lparr>rd_event := ev_handle e\<rparr>\<rparr>)
   }"
| "rd_do env RdCancel s = Some (
     if \<not> rd_queue (rs_reader s) \<or> \<not> rs_opened s then s
     else reader_call (rd_event (rs_reader s)) EvCancel s)"
| "rd_do env (RdDispatch handle events) s = Some (reader_call handle (EvDispatch events) s)"
| "rd_do env (RdJob j) s = Some (reader_job j s)"
| "rd_do env (RdRead r) s = (
     let (reader, pc, calls) = ntt_reader_readable (rs_reader s) r
     in Some (s\<lparr>rs_reader := reader, rs_pc := pc, rs_reads := rs_reads s @ [r], rs_calls := rs_calls s @ calls\<rparr>))"
| "rd_do env (RdClose h k) s = Some ((reader_call h EvCancel s)\<lparr>rs_pc := RClosing\<rparr>)"
| "rd_do env (RdClosed h k) s =
     Some ((reader_job (JLive h EvCancel) s)\<lparr>rs_pc := RReturn\<rparr>)"

definition rd_start :: "u32 \<Rightarrow> rd_sys" where
  "rd_start index = \<lparr>rs_ev = ev_init index, rs_reader = ntt_reader_init, rs_pc = RIdle, rs_reads = [], rs_calls = []\<rparr>"

inductive rd_reachable :: "env \<Rightarrow> u32 \<Rightarrow> rd_sys \<Rightarrow> bool" for env index where
  rd_begin: "rd_reachable env index (rd_start index)"
| rd_next: "rd_reachable env index s \<Longrightarrow> rd_enabled s a \<Longrightarrow> rd_do env a s = Some s' \<Longrightarrow> rd_reachable env index s'"

end
