(* ===== verification/Reader_Inv.thy ===== *)
theory Reader_Inv
  imports Reader Event_Props
begin

text \<open>
  The invariant of a reader and its event, on top of the invariant of the events: the handler runs exactly when the
  event has a job that runs it, the end of the input is the last thing that is read, and the callbacks that
  were made are those of the data that was read, followed by the report of the end.
\<close>

section \<open>The invariant\<close>

definition has_run :: "ev_job multiset \<Rightarrow> bool" where
  "has_run J \<longleftrightarrow> (\<exists>j \<in># J. runs_readable j)"

text \<open>Results after which the reader ends, and what it reports then.\<close>

fun ends :: "read_result \<Rightarrow> bool" where
  "ends (RdData data) \<longleftrightarrow> False"
| "ends RdEof \<longleftrightarrow> True"
| "ends (RdError errno) \<longleftrightarrow> errno \<noteq> EINTR \<and> errno \<noteq> EAGAIN \<and> errno \<noteq> EWOULDBLOCK"

definition ended :: "read_result list \<Rightarrow> bool" where
  "ended rs \<longleftrightarrow> (\<exists>r \<in> set rs. ends r)"

fun data_of :: "read_result \<Rightarrow> rd_call option" where
  "data_of (RdData data) = Some (OnData data)"
| "data_of r = None"

definition end_code :: "read_result list \<Rightarrow> int" where
  "end_code rs = (if rs = [] then 0 else case last rs of RdError errno \<Rightarrow> if ends (last rs) then errno else 0 | _ \<Rightarrow> 0)"

definition rd_log_ok :: "rd_sys \<Rightarrow> bool" where
  "rd_log_ok s \<longleftrightarrow> rs_calls s = List.map_filter data_of (rs_reads s) @
       (if rs_opened s \<and> \<not> ev_open (rs_event s) then [OnCancel (end_code (rs_reads s))] else []) \<and>
     rd_ec (rs_reader s) = end_code (rs_reads s) \<and> \<not> ended (butlast (rs_reads s))"

definition rd_event_ok :: "rd_sys \<Rightarrow> bool" where
  "rd_event_ok s \<longleftrightarrow> (if rs_opened s
     then ntt_event_handle_index (rd_event (rs_reader s)) = ev_index (rs_event s) \<and> ev_read_queue (rs_event s) \<and> \<not> ev_write_queue (rs_event s) \<and> ev_rc (rs_event s) \<and>
       ev_flags (rs_event s) AND NTT_EVENT_SERIAL \<noteq> 0 \<and> (ev_open (rs_event s) \<longrightarrow> rd_event (rs_reader s) = ev_handle (rs_event s))
     else \<not> ev_open (rs_event s) \<and> ev_generation (rs_event s) = 1 \<and> rs_pc s = RIdle \<and> rs_reads s = [])"

definition rd_pc_ok :: "rd_sys \<Rightarrow> bool" where
  "rd_pc_ok s \<longleftrightarrow> (\<forall>h rest. JPlain h rest \<notin># rs_jobs s) \<and> (rs_pc s \<noteq> RIdle \<longleftrightarrow> has_run (rs_jobs s)) \<and>
     (rs_pc s = RClosing \<longrightarrow> JLive (rd_event (rs_reader s)) EvCancel \<in># rs_jobs s) \<and>
     (ended (rs_reads s) \<longrightarrow> rs_pc s \<noteq> RLoop \<and> (rs_pc s = RCancel \<or> rs_pc s = RClosing \<or> closed (rs_event s)) \<and>
        (rs_pc s = RIdle \<longrightarrow> owners NTT_INTEREST_READABLE (rs_jobs s) = 0))"

definition rd_inv :: "rd_sys \<Rightarrow> bool" where
  "rd_inv s \<longleftrightarrow> ev_reachable (rs_ev s) \<and> rd_event_ok s \<and> rd_pc_ok s \<and> rd_log_ok s"

section \<open>What a step of the event does\<close>

lemma job_keeps:
  assumes d: "ev_job_step e j = (e', js, evs)"
  shows "ev_read_queue e' = ev_read_queue e" "ev_write_queue e' = ev_write_queue e" "ev_rc e' = ev_rc e"
    "ev_flags e' = ev_flags e" "ev_index e' = ev_index e" "closed e \<Longrightarrow> closed e'"
proof -
  have "ev_read_queue e' = ev_read_queue e \<and> ev_write_queue e' = ev_write_queue e \<and> ev_rc e' = ev_rc e \<and>
    ev_flags e' = ev_flags e \<and> ev_index e' = ev_index e \<and> (closed e \<longrightarrow> closed e')"
  proof (cases "job_special j")
    case False
    then show ?thesis using job_quiet [OF d] by simp
  next
    case True
    then consider h where "j = JLive h EvCancel" | n c where "j = JDrop n c" | t where "j = JCancelled t"
      by (cases j rule: job_special.cases) auto
    then show ?thesis
      by cases (use d in \<open>auto simp: ev_step_defs ev_give_slot_def bit_close split: if_splits\<close>)
  qed
  then show "ev_read_queue e' = ev_read_queue e" "ev_write_queue e' = ev_write_queue e" "ev_rc e' = ev_rc e"
    "ev_flags e' = ev_flags e" "ev_index e' = ev_index e" "closed e \<Longrightarrow> closed e'" by simp_all
qed

lemma job_open:
  assumes "ev_job_step e j = (e', js, evs)"
  shows "ev_open e' \<longrightarrow> ev_generation e' = ev_generation e"
  using assms
  by (induction e j rule: ev_job_step.induct)
     (auto simp: ev_step_defs ev_give_slot_def split: if_splits option.splits ev_call.splits)

text \<open>The handler is called exactly where a job begins to run it.\<close>

lemma job_calls:
  assumes "ev_job_step e j = (e', js, evs)" "\<And>h rest. j \<noteq> JPlain h rest" "ev_flags e AND NTT_EVENT_SERIAL \<noteq> 0"
  shows "list_ex calls_readable evs \<longleftrightarrow> list_ex runs_readable js"
    "JPlain h rest \<notin> set js"
  using assms
  by (induction e j rule: ev_job_step.induct)
     (auto simp: ev_step_defs split: if_splits option.splits ev_call.splits)

text \<open>A side of a closed event gets no new owner.\<close>

lemma job_new_owner:
  assumes "ev_job_step e j = (e', js, evs)" "closed e" "j' \<in> set js" "job_owns side j'"
  shows "job_owns side j"
  using assms
  by (induction e j rule: ev_job_step.induct)
     (auto simp: ev_step_defs claim_next_eq split: if_splits option.splits ev_call.splits)

text \<open>A job that runs a handler comes from an owner of the side, or from a free side.\<close>

lemma job_new_run:
  assumes "ev_job_step e j = (e', js, evs)" "list_ex runs_readable js"
  shows "job_owns NTT_INTEREST_READABLE j \<or> \<not> bit (ev_state e) (busy_bit NTT_INTEREST_READABLE) \<and> \<not> closed e"
  using assms
  by (induction e j rule: ev_job_step.induct)
     (auto simp: ev_step_defs claim_next_eq split: if_splits option.splits ev_call.splits)

lemma side_cases: "side \<noteq> NTT_INTEREST_WRITABLE \<longleftrightarrow> side = NTT_INTEREST_READABLE"
  by (cases side) simp_all

text \<open>The event of a reader is reported as it ends.\<close>

lemma job_reports:
  assumes "ev_job_step e j = (e', js, evs)" "ev_open e" "ev_read_queue e" "\<not> ev_write_queue e" "ev_rc e"
  shows "LCancelled NTT_INTEREST_READABLE \<in> set evs \<longleftrightarrow> \<not> ev_open e'"
  using assms
  by (induction e j rule: ev_job_step.induct)
     (auto simp: ev_step_defs ev_give_slot_def ev_queue_def ntt_event_side_index_def side_cases split: if_splits option.splits ev_call.splits)

lemma open_jobs: "ev_reachable s \<Longrightarrow> j \<in># es_jobs s \<Longrightarrow> ev_open (es_event s)"
  using ev_reachable_inv [of s] ev_ok_no_jobs [of "es_event s" "es_jobs s"] by (cases "ev_open (es_event s)") (auto simp: ev_inv_def)

lemma one_owner:
  assumes "ev_reachable s" "es_jobs s = add_mset j R" "job_owns side j"
  shows "owners side R = 0" "bit (ev_state (es_event s)) (busy_bit side)"
proof -
  have "owners side (es_jobs s) = (if bit (ev_state (es_event s)) (busy_bit side) then 1 else 0)"
    using ev_reachable_inv [OF assms(1)] by (simp add: ev_inv_def ev_ok_def)
  then show "owners side R = 0" "bit (ev_state (es_event s)) (busy_bit side)"
    using assms(2,3) by (auto split: if_splits)
qed

lemma runs_owns: "runs_readable j \<Longrightarrow> job_owns NTT_INTEREST_READABLE j"
  by (cases j) auto

lemma run_owns: "has_run J \<Longrightarrow> 0 < owners NTT_INTEREST_READABLE J"
  unfolding has_run_def owners_pos using runs_owns by blast

text \<open>On a closed event, a handler that returns is not called again.\<close>

lemma run_closed:
  assumes "ev_job_step e j = (e', js, evs)" "runs_readable j" "closed e"
  shows "\<not> list_ex runs_readable js" "owners NTT_INTEREST_READABLE (mset js) = 0"
proof -
  obtain h k where "j = JRun h NTT_INTEREST_READABLE k" using assms(2) by (cases j) auto
  then show "\<not> list_ex runs_readable js" "owners NTT_INTEREST_READABLE (mset js) = 0"
    using assms(1,3) bit_leave(1) [of NTT_INTEREST_READABLE "ev_state e"] by (auto simp: ev_step_defs split: option.splits)
qed

lemma has_run_simps [simp]:
  "has_run {#} \<longleftrightarrow> False" "has_run (add_mset j J) \<longleftrightarrow> runs_readable j \<or> has_run J" "has_run (J + K) \<longleftrightarrow> has_run J \<or> has_run K"
  "has_run (mset js) \<longleftrightarrow> list_ex runs_readable js"
  by (auto simp: has_run_def list_ex_iff)

section \<open>Steps of the event\<close>

lemma job_event_ok:
  assumes inv: "rd_inv s" and J: "rs_jobs s = add_mset j R" and d: "ev_job_step (rs_event s) j = (e', js, evs)"
  shows "rd_event_ok (reader_job j s)"
proof -
  have op: "ev_open (rs_event s)" using open_jobs [of "rs_ev s" j] inv J by (simp add: rd_inv_def)
  then have ok: "rs_opened s" using inv by (auto simp: rd_inv_def rd_event_ok_def)
  have "ev_handle e' = ev_handle (rs_event s)" if "ev_open e'"
    using job_open [OF d] job_keeps(5) [OF d] that by (simp add: ev_handle_def)
  then show ?thesis using inv ok op job_keeps [OF d] by (auto simp: rd_inv_def rd_event_ok_def reader_job_def d)
qed

lemma job_log_ok:
  assumes inv: "rd_inv s" and J: "rs_jobs s = add_mset j R" and d: "ev_job_step (rs_event s) j = (e', js, evs)"
  shows "rd_log_ok (reader_job j s)"
proof -
  have op: "ev_open (rs_event s)" using open_jobs [of "rs_ev s" j] inv J by (simp add: rd_inv_def)
  then have ok: "rs_opened s" using inv by (auto simp: rd_inv_def rd_event_ok_def)
  have "LCancelled NTT_INTEREST_READABLE \<in> set evs \<longleftrightarrow> \<not> ev_open e'"
    by (rule job_reports [OF d op]) (use inv ok in \<open>simp_all add: rd_inv_def rd_event_ok_def\<close>)
  then show ?thesis using inv op ok by (auto simp: rd_inv_def rd_log_ok_def reader_job_def d ntt_reader_cancelled_def)
qed

lemma job_pc_ok:
  assumes inv: "rd_inv s" and J: "rs_jobs s = add_mset j R" and d: "ev_job_step (rs_event s) j = (e', js, evs)"
    and guard: "runs_readable j \<longrightarrow> rs_pc s = RReturn"
      "rs_pc s = RClosing \<and> j = JLive (rd_event (rs_reader s)) EvCancel \<longrightarrow> 2 \<le> count (rs_jobs s) j"
  shows "rd_pc_ok (reader_job j s)"
proof -
  let ?r = NTT_INTEREST_READABLE
  have r: "ev_reachable (rs_ev s)" and pc: "rd_pc_ok s" using inv by (simp_all add: rd_inv_def)
  have op: "ev_open (rs_event s)" using open_jobs [of "rs_ev s" j] r J by simp
  then have flags: "ev_flags (rs_event s) AND NTT_EVENT_SERIAL \<noteq> 0" using inv by (auto simp: rd_inv_def rd_event_ok_def split: if_splits)
  have plain: "j \<noteq> JPlain h rest" for h rest using pc J by (auto simp: rd_pc_ok_def)
  note calls = job_calls [OF d plain flags]
  have J': "rs_jobs (reader_job j s) = R + mset js" by (simp add: reader_job_def d J)
  show ?thesis
  proof (cases "runs_readable j")
    case True
    have none: "owners ?r R = 0" using one_owner [OF r J runs_owns [OF True]] by blast
    then have "\<not> has_run R" using run_owns by fastforce
    moreover have "ended (rs_reads s) \<longrightarrow> closed (rs_event s)" using pc True guard(1) by (auto simp: rd_pc_ok_def)
    ultimately show ?thesis using True calls plain pc J J' none run_closed [OF d True] job_keeps(6) [OF d]
      by (auto simp: rd_pc_ok_def reader_job_def d)
  next
    case False
    show ?thesis
    proof (cases "list_ex runs_readable js")
      case new: True
      have "rs_pc s = RIdle \<and> \<not> ended (rs_reads s)"
        using job_new_run [OF d new]
      proof
        assume own: "job_owns ?r j"
        then have "\<not> has_run R" using one_owner [OF r J own] run_owns by fastforce
        then have "rs_pc s = RIdle" using pc J False by (auto simp: rd_pc_ok_def)
        then show ?thesis using pc J own by (auto simp: rd_pc_ok_def)
      next
        assume free: "\<not> bit (ev_state (rs_event s)) (busy_bit ?r) \<and> \<not> closed (rs_event s)"
        then have "owners ?r (rs_jobs s) = 0" using ev_reachable_inv [OF r] by (simp add: ev_inv_def ev_ok_def)
        then have "\<not> has_run (rs_jobs s)" using run_owns by fastforce
        then show ?thesis using pc free by (auto simp: rd_pc_ok_def)
      qed
      then show ?thesis using new calls pc J J' by (auto simp: rd_pc_ok_def reader_job_def d)
    next
      case old: False
      have "owners ?r (mset js) = 0" if "closed (rs_event s)" "owners ?r (rs_jobs s) = 0"
        using job_new_owner [OF d that(1)] that(2) owners_pos [of ?r "mset js"] J by (auto split: if_splits)
      moreover have "JLive (rd_event (rs_reader s)) EvCancel \<in># R" if "rs_pc s = RClosing"
      proof (cases "j = JLive (rd_event (rs_reader s)) EvCancel")
        case True
        then have "0 < count R j" using that guard(2) J by simp
        then show ?thesis using True by (simp only: count_greater_zero_iff)
      next
        case False
        then show ?thesis using that pc J by (simp add: rd_pc_ok_def)
      qed
      moreover have "rs_pc (reader_job j s) = rs_pc s" "has_run (R + mset js) = has_run (rs_jobs s)"
        using False old calls(1) J by (simp_all add: reader_job_def d)
      moreover have "ended (rs_reads s) \<and> rs_pc s = RIdle \<longrightarrow> owners ?r (rs_jobs s) = 0 \<and> closed (rs_event s)"
        using pc by (auto simp: rd_pc_ok_def)
      moreover have "rs_event (reader_job j s) = e'" "rs_reader (reader_job j s) = rs_reader s" "rs_reads (reader_job j s) = rs_reads s"
        by (simp_all add: reader_job_def d)
      ultimately show ?thesis using calls(2) pc J job_keeps(6) [OF d]
        unfolding rd_pc_ok_def J' by (simp split: if_splits) blast+
    qed
  qed
qed

lemma job_reachable:
  assumes inv: "rd_inv s" and J: "rs_jobs s = add_mset j R" and d: "ev_job_step (rs_event s) j = (e', js, evs)"
    and b: "unat (ev_refs (rs_event s)) < 4294967294"
  shows "ev_reachable (rs_ev (reader_job j s))"
proof -
  have "ev_step (rs_ev s) \<lparr>es_event = e', es_jobs = rs_jobs s - {#j#} + mset js, es_log = es_log (rs_ev s) @ evs\<rparr>"
    by (rule ev_step.ev_job_step [OF _ b d]) (simp add: J)
  from ev_next [OF _ this] show ?thesis using inv by (simp add: rd_inv_def reader_job_def d)
qed

lemma reader_job_inv:
  assumes inv: "rd_inv s" and en: "rd_enabled s (RdJob j)"
  shows "rd_inv (reader_job j s)"
proof -
  obtain R where J: "rs_jobs s = add_mset j R" using en by (auto dest: multi_member_split)
  obtain e' js evs where d: "ev_job_step (rs_event s) j = (e', js, evs)" by (metis prod_cases3)
  have "rd_pc_ok (reader_job j s)" by (rule job_pc_ok [OF inv J d]) (use en in auto)
  then show ?thesis using job_reachable [OF inv J d] job_event_ok [OF inv J d] job_log_ok [OF inv J d] en by (simp add: rd_inv_def)
qed

section \<open>Calls\<close>

lemma reader_call_inv:
  assumes inv: "rd_inv s" and b: "unat (ev_refs (rs_event s)) < 4294967294" and h: "ntt_event_handle_index h = ev_index (rs_event s)"
  shows "rd_inv (reader_call h c s)"
proof -
  obtain e js where l: "ntt_event_live (rs_event s) h c = (e, js)" by (metis surj_pair)
  have "ev_step (rs_ev s) ((rs_ev s)\<lparr>es_event := e, es_jobs := rs_jobs s + mset js\<rparr>)" by (rule ev_call_step [OF b h l])
  then have r: "ev_reachable ((rs_ev s)\<lparr>es_event := e, es_jobs := rs_jobs s + mset js\<rparr>)" using ev_next inv by (auto simp: rd_inv_def)
  have e: "js = [] \<or> js = [JLive h c]" "e = rs_event s \<or> e = (rs_event s)\<lparr>ev_refs := ev_refs (rs_event s) + 1\<rparr>"
    using l by (auto simp: ntt_event_live_def ntt_event_acquire_if_live_def acquire_next_def Let_def split: if_splits)
  have keeps: "ev_open e = ev_open (rs_event s) \<and> ev_read_queue e = ev_read_queue (rs_event s) \<and>
    ev_write_queue e = ev_write_queue (rs_event s) \<and> ev_rc e = ev_rc (rs_event s) \<and> ev_flags e = ev_flags (rs_event s) \<and>
    ev_index e = ev_index (rs_event s) \<and> ev_generation e = ev_generation (rs_event s) \<and> ev_state e = ev_state (rs_event s) \<and>
    ev_handle e = ev_handle (rs_event s)"
    using e(2) by (rule disjE) (simp_all add: ev_handle_def)
  have "rd_event_ok (reader_call h c s)" using inv keeps unfolding rd_inv_def rd_event_ok_def reader_call_def l by simp
  moreover have "rd_pc_ok (reader_call h c s)"
    using e(1) inv keeps unfolding rd_inv_def rd_pc_ok_def reader_call_def l by (elim disjE) simp_all
  moreover have "rd_log_ok (reader_call h c s)" using inv keeps unfolding rd_inv_def rd_log_ok_def reader_call_def l by simp
  ultimately show ?thesis using r by (simp add: rd_inv_def reader_call_def l)
qed

lemma reader_open_inv:
  assumes inv: "rd_inv s" and en: "rd_enabled s RdOpen"
  shows "\<exists>s'. rd_do env RdOpen s = Some s' \<and> rd_inv s'"
proof -
  have ok: "\<not> ev_open (rs_event s)" "ev_generation (rs_event s) = 1" "rs_pc s = RIdle" "rs_reads s = []" "\<not> rs_opened s"
    using inv en by (auto simp: rd_inv_def rd_event_ok_def)
  have start: "ntt_event_start env reader_params = Some (EPOLLIN OR EPOLLET, NTT_EVENT_WORK OR NTT_EVENT_SERIAL)"
    by (simp add: ntt_event_start_def ntt_assert_def reader_params_def)
  obtain e evs where o: "ntt_event_open (rs_event s) reader_params (EPOLLIN OR EPOLLET) (NTT_EVENT_WORK OR NTT_EVENT_SERIAL) = (e, evs)"
    by (metis surj_pair)
  let ?s = "s\<lparr>rs_ev := (rs_ev s)\<lparr>es_event := e, es_log := es_log (rs_ev s) @ evs\<rparr>, rs_reader := (rs_reader s)\<lparr>rd_event := ev_handle e\<rparr>\<rparr>"
  have e: "ev_open e" "ev_read_queue e" "\<not> ev_write_queue e" "ev_rc e" "ev_flags e = NTT_EVENT_WORK OR NTT_EVENT_SERIAL"
    "ev_generation e = 1" "ev_index e = ev_index (rs_event s)"
    using o ok(2) by (auto simp: ntt_event_open_def reader_params_def Let_def)
  have "ntt_event_handle_generation (ev_handle e) = 1" "ntt_event_handle_index (ev_handle e) = ev_index e"
    using e(6) by (simp_all add: ev_handle_def handle_parts)
  then have h: "ev_handle e \<noteq> NTT_EVENT_HANDLE_NONE" "ntt_event_handle_index (ev_handle e) = ev_index (rs_event s)"
    using e(7) by (auto simp: NTT_EVENT_HANDLE_NONE_def ntt_event_handle_generation_def)
  have none: "rs_jobs s = {#}" 
    using ev_ok_no_jobs [OF _ ok(1)] ev_reachable_inv [of "rs_ev s"] inv by (simp add: rd_inv_def ev_inv_def)
  have "ev_reachable ((rs_ev s)\<lparr>es_event := e, es_log := es_log (rs_ev s) @ evs\<rparr>)"
    using ev_next [OF _ ev_open_step [OF ok(1) o]] inv by (simp add: rd_inv_def)
  moreover have "rd_event_ok ?s" using e h by (simp add: rd_event_ok_def NTT_EVENT_WORK_def NTT_EVENT_SERIAL_def)
  moreover have "rd_pc_ok ?s" using ok none by (simp add: rd_pc_ok_def ended_def)
  moreover have "rd_log_ok ?s" using inv ok e(1) by (simp add: rd_inv_def rd_log_ok_def)
  ultimately show ?thesis using start o by (simp add: rd_inv_def)
qed

section \<open>The handler\<close>

lemma end_code_running: "\<not> ended rs \<Longrightarrow> end_code rs = 0"
  by (cases rs rule: rev_cases) (auto simp: ended_def end_code_def split: read_result.splits)

lemma map_filter_snoc: "List.map_filter f (xs @ [x]) = List.map_filter f xs @ (case f x of None \<Rightarrow> [] | Some y \<Rightarrow> [y])"
  by (simp add: List.map_filter_def split: option.split)

lemma reader_read_inv:
  assumes inv: "rd_inv s" and en: "rd_enabled s (RdRead r)"
  shows "\<exists>s'. rd_do env (RdRead r) s = Some s' \<and> rd_inv s'"
proof -
  obtain reader pc calls where d: "ntt_reader_readable (rs_reader s) r = (reader, pc, calls)" by (metis prod_cases3)
  have run: "has_run (rs_jobs s)" and on: "\<not> ended (rs_reads s)" using inv en by (auto simp: rd_inv_def rd_pc_ok_def)
  then obtain j where "j \<in># rs_jobs s" by (auto simp: has_run_def)
  then have op: "ev_open (rs_event s)" using open_jobs inv by (auto simp: rd_inv_def)
  then have opened: "rs_opened s" using inv by (auto simp: rd_inv_def rd_event_ok_def split: if_splits)
  have code: "rd_ec (rs_reader s) = 0" using inv end_code_running [OF on] by (simp add: rd_inv_def rd_log_ok_def)
  have r: "rd_queue reader = rd_queue (rs_reader s)" "rd_event reader = rd_event (rs_reader s)" "rd_ec reader = end_code (rs_reads s @ [r])"
    "pc \<noteq> RIdle" "pc \<noteq> RClosing" "ends r \<Longrightarrow> pc = RCancel" "calls = (case data_of r of None \<Rightarrow> [] | Some c \<Rightarrow> [c])"
    using d code by (auto simp: ntt_reader_readable_def end_code_def split: read_result.splits if_splits)
  let ?s = "s\<lparr>rs_reader := reader, rs_pc := pc, rs_reads := rs_reads s @ [r], rs_calls := rs_calls s @ calls\<rparr>"
  have ended: "ended (rs_reads s @ [r]) \<longleftrightarrow> ends r" using on by (auto simp: ended_def)
  have "rd_event_ok ?s" using inv opened r(2) by (simp add: rd_inv_def rd_event_ok_def)
  moreover have "rd_pc_ok ?s" using inv run r(4-6) ended by (auto simp: rd_inv_def rd_pc_ok_def)
  moreover have "rd_log_ok ?s" using inv op on r(2,3,7) by (simp add: rd_inv_def rd_log_ok_def map_filter_snoc)
  ultimately show ?thesis using inv d by (simp add: rd_inv_def)
qed

lemma has_runI: "JRun h NTT_INTEREST_READABLE k \<in># J \<Longrightarrow> has_run J"
  unfolding has_run_def by (rule bexI [of _ "JRun h NTT_INTEREST_READABLE k"]) simp_all

text \<open>The handle that a handler was called with is the one of the reader.\<close>

lemma running:
  assumes inv: "rd_inv s" and j: "JRun h NTT_INTEREST_READABLE k \<in># rs_jobs s"
  shows "h = rd_event (rs_reader s)" "h = ev_handle (rs_event s)" "ev_refs (rs_event s) \<noteq> 0" "ev_open (rs_event s)"
    "ntt_event_handle_index h = ev_index (rs_event s)"
proof -
  have r: "ev_reachable (rs_ev s)" using inv by (simp add: rd_inv_def)
  show op: "ev_open (rs_event s)" by (rule open_jobs [OF r j])
  show h: "h = ev_handle (rs_event s)" using ev_reachable_handles [OF r] j by (auto simp: ev_handles_ok_def)
  then show "h = rd_event (rs_reader s)" using inv op by (auto simp: rd_inv_def rd_event_ok_def split: if_splits)
  obtain R where J: "rs_jobs s = add_mset (JRun h NTT_INTEREST_READABLE k) R" using j by (auto dest: multi_member_split)
  then show "ev_refs (rs_event s) \<noteq> 0"
    using ev_ok_open [of "rs_event s" "JRun h NTT_INTEREST_READABLE k" R] ev_reachable_inv [OF r] by (simp add: ev_inv_def)
  show "ntt_event_handle_index h = ev_index (rs_event s)" by (simp add: h ev_handle_def handle_parts)
qed

lemma reader_close_inv:
  assumes inv: "rd_inv s" and en: "rd_enabled s (RdClose h k)"
  shows "\<exists>s'. rd_do env (RdClose h k) s = Some s' \<and> rd_inv s'"
proof -
  have j: "JRun h NTT_INTEREST_READABLE k \<in># rs_jobs s" using en by simp
  note run = running [OF inv j]
  have live: "ntt_event_live (rs_event s) h EvCancel = ((rs_event s)\<lparr>ev_refs := ev_refs (rs_event s) + 1\<rparr>, [JLive h EvCancel])"
    using run(3) by (simp add: ntt_event_live_def ntt_event_acquire_if_live_def acquire_next_def)
  let ?c = "reader_call h EvCancel s"
  have ci: "rd_inv ?c" using reader_call_inv [OF inv _ run(5)] en by simp
  have c: "rs_pc ?c = RCancel" "JLive h EvCancel \<in># rs_jobs ?c" "rs_reader ?c = rs_reader s" "has_run (rs_jobs ?c)"
    using en live has_runI [OF j] by (auto simp: reader_call_def)
  have "rd_inv (?c\<lparr>rs_pc := RClosing\<rparr>)"
    using ci c run(1) by (auto simp: rd_inv_def rd_event_ok_def rd_pc_ok_def rd_log_ok_def)
  then show ?thesis by simp
qed

lemma pc_event_ok: "rd_event_ok s \<Longrightarrow> rs_opened s \<Longrightarrow> rd_event_ok (s\<lparr>rs_pc := pc\<rparr>)"
  by (simp add: rd_event_ok_def)

lemma pc_log_ok: "rd_log_ok s \<Longrightarrow> rd_log_ok (s\<lparr>rs_pc := pc\<rparr>)"
  by (simp add: rd_log_ok_def)

lemma reader_job_reader: "rs_reader (reader_job j s) = rs_reader s"
  by (simp add: reader_job_def case_prod_beta)

lemma reader_closed_inv:
  assumes inv: "rd_inv s" and en: "rd_enabled s (RdClosed h k)"
  shows "\<exists>s'. rd_do env (RdClosed h k) s = Some s' \<and> rd_inv s'"
proof -
  have j: "JRun h NTT_INTEREST_READABLE k \<in># rs_jobs s" using en by simp
  note run = running [OF inv j]
  have opened: "rs_opened s" using inv run(4) by (auto simp: rd_inv_def rd_event_ok_def split: if_splits)
  let ?j = "JLive h EvCancel"
  have "?j \<in># rs_jobs s" using inv en run(1) by (simp add: rd_inv_def rd_pc_ok_def)
  then obtain R where J: "rs_jobs s = add_mset ?j R" by (auto dest: multi_member_split)
  then have R: "has_run R" using has_runI [of h k R] j by auto
  have gen: "ev_generation (rs_event s) = ntt_event_handle_generation h" by (simp add: run(2) ev_handle_def handle_parts)
  obtain e' js evs where d: "ev_job_step (rs_event s) ?j = (e', js, evs)" by (metis prod_cases3)
  have e': "closed e'" "\<not> list_ex runs_readable js" "JPlain g rest \<notin> set js" for g rest
    using d gen by (auto simp: ev_step_defs bit_close split: if_splits)
  let ?s = "(reader_job ?j s)\<lparr>rs_pc := RReturn\<rparr>"
  have new: "rs_jobs ?s = R + mset js" "rs_event ?s = e'" unfolding reader_job_def d by (simp_all add: J)
  have "rd_pc_ok ?s" using inv R e' J unfolding rd_pc_ok_def new by (auto simp: rd_inv_def rd_pc_ok_def)
  moreover have "rd_event_ok ?s" "rd_log_ok ?s"
    using pc_event_ok [OF job_event_ok [OF inv J d]] pc_log_ok [OF job_log_ok [OF inv J d]] opened by (simp_all only: reader_job_reader not_False_eq_True)
  ultimately show ?thesis using job_reachable [OF inv J d] en by (simp add: rd_inv_def)
qed

section \<open>Reachable states\<close>

text \<open>Every step that can be taken is defined, and keeps the invariant.\<close>

lemma rd_do_inv:
  assumes inv: "rd_inv s" and en: "rd_enabled s a"
  shows "\<exists>s'. rd_do env a s = Some s' \<and> rd_inv s'"
proof (cases a)
  case RdQueue
  then show ?thesis using inv by (simp add: rd_inv_def rd_event_ok_def rd_pc_ok_def rd_log_ok_def)
next
  case RdOpen
  then show ?thesis using reader_open_inv [OF inv] en by simp
next
  case RdCancel
  then show ?thesis using inv en reader_call_inv [OF inv, of "rd_event (rs_reader s)" EvCancel]
    by (auto simp: rd_inv_def rd_event_ok_def)
next
  case (RdDispatch h events)
  then show ?thesis using reader_call_inv [OF inv, of h "EvDispatch events"] en by simp
next
  case (RdJob j)
  then show ?thesis using reader_job_inv [OF inv] en by simp
next
  case (RdRead r)
  then show ?thesis using reader_read_inv [OF inv] en by simp
next
  case (RdClose h k)
  then show ?thesis using reader_close_inv [OF inv, of h k] en by simp
next
  case (RdClosed h k)
  then show ?thesis using reader_closed_inv [OF inv, of h k] en by simp
qed

lemma rd_start_inv: "rd_inv (rd_start index)"
  using ev_start [of index]
  by (simp add: rd_inv_def rd_start_def rd_event_ok_def rd_pc_ok_def rd_log_ok_def ntt_reader_init_def ev_init_def
      ended_def end_code_def List.map_filter_def)

lemma rd_reachable_inv: "rd_reachable env index s \<Longrightarrow> rd_inv s"
proof (induction rule: rd_reachable.induct)
  case rd_begin
  show ?case by (rule rd_start_inv)
next
  case (rd_next s a s')
  then show ?case using rd_do_inv [of s a env] by auto
qed

end
