(* ===== verification/Reader_Live.thy ===== *)
theory Reader_Live
  imports Reader_Inv
begin

text \<open>
  The end of a reader: once its event is cancelled and the descriptor has no more data, the handler returns, what is in flight on
  the event runs out, and the end is reported.
\<close>

section \<open>What is still to be done\<close>

text \<open>How far the handler is from its return; before it runs, while the event has an owner of the side.\<close>

definition rd_stage :: "rd_sys \<Rightarrow> nat" where
  "rd_stage s = (case rs_pc s of RIdle \<Rightarrow> if owners NTT_INTEREST_READABLE (rs_jobs s) = 0 then 0 else 3
     | RLoop \<Rightarrow> 2 | RCancel \<Rightarrow> 1 | RClosing \<Rightarrow> 0 | RReturn \<Rightarrow> 0)"

definition rd_work :: "rd_sys \<Rightarrow> nat" where
  "rd_work s = ev_work (rs_jobs s) + 10 * rd_stage s"

fun rd_settles :: "rd_act \<Rightarrow> bool" where
  "rd_settles (RdJob j) \<longleftrightarrow> True"
| "rd_settles (RdRead r) \<longleftrightarrow> (case r of RdData data \<Rightarrow> False | RdEof \<Rightarrow> True | RdError errno \<Rightarrow> errno \<noteq> EINTR)"
| "rd_settles (RdClose h k) \<longleftrightarrow> True"
| "rd_settles (RdClosed h k) \<longleftrightarrow> True"
| "rd_settles a \<longleftrightarrow> False"

inductive rd_drain :: "env \<Rightarrow> rd_sys \<Rightarrow> rd_sys \<Rightarrow> bool" for env where
  rd_drain_act: "rd_settles a \<Longrightarrow> rd_enabled s a \<Longrightarrow> rd_do env a s = Some s' \<Longrightarrow> rd_drain env s s'"

text \<open>The references that can be held at once: the handler takes one more as it cancels.\<close>

definition rd_closing :: "rd_sys \<Rightarrow> bool" where
  "rd_closing s \<longleftrightarrow> rd_inv s \<and> rs_opened s \<and> closed (rs_event s) \<and> ev_ceiling (rs_ev s) + (if rd_stage s = 0 then 0 else 1) < 4294967294"

section \<open>Every step is one less to do\<close>

lemma job_stage:
  assumes inv: "rd_inv s" and J: "rs_jobs s = add_mset j R" and d: "ev_job_step (rs_event s) j = (e', js, evs)"
    and cl: "closed (rs_event s)" and guard: "runs_readable j \<longrightarrow> rs_pc s = RReturn"
  shows "rd_stage (reader_job j s) \<le> rd_stage s"
proof -
  let ?r = NTT_INTEREST_READABLE
  have r: "ev_reachable (rs_ev s)" and pc: "rd_pc_ok s" using inv by (simp_all add: rd_inv_def)
  have op: "ev_open (rs_event s)" using open_jobs [of "rs_ev s" j] r J by simp
  then have flags: "ev_flags (rs_event s) AND NTT_EVENT_SERIAL \<noteq> 0" using inv by (auto simp: rd_inv_def rd_event_ok_def split: if_splits)
  have plain: "j \<noteq> JPlain h rest" for h rest using pc J by (auto simp: rd_pc_ok_def)
  note calls = job_calls(1) [OF d plain flags]
  have new: "rs_jobs (reader_job j s) = R + mset js" "rs_pc (reader_job j s) = (if list_ex runs_readable js then RLoop
      else if runs_readable j then RIdle else rs_pc s)" unfolding reader_job_def d by (simp_all add: J calls)
  consider (run) "runs_readable j" | (start) "\<not> runs_readable j" "list_ex runs_readable js" | (other) "\<not> runs_readable j" "\<not> list_ex runs_readable js"
    by blast
  then show ?thesis
  proof cases
    case run
    then show ?thesis using run_closed [OF d run cl] one_owner(1) [OF r J runs_owns [OF run]]
      unfolding rd_stage_def new by simp
  next
    case start
    then have own: "job_owns ?r j" using job_new_run [OF d] cl by blast
    then have "\<not> has_run R" using one_owner(1) [OF r J own] run_owns by fastforce
    then have "rs_pc s = RIdle" using pc J start by (simp add: rd_pc_ok_def)
    then show ?thesis using start own unfolding rd_stage_def new by (simp add: J)
  next
    case other
    have "owners ?r (mset js) = 0" if "owners ?r (rs_jobs s) = 0"
      using job_new_owner [OF d cl] that owners_pos [of ?r "mset js"] J by (auto split: if_splits)
    then have "owners ?r (R + mset js) = 0" if "owners ?r (rs_jobs s) = 0" using that J by (simp split: if_splits)
    then show ?thesis using other unfolding rd_stage_def new
      by (cases "owners ?r (rs_jobs s) = 0") (simp_all split: rd_pc.split)
  qed
qed

text \<open>A step of the event on its own.\<close>

lemma job_drains:
  assumes J: "rs_jobs s = add_mset j R" and b: "unat (ev_refs (rs_event s)) < 4294967294"
  shows "ev_drain (rs_ev s) (rs_ev (reader_job j s))"
proof -
  obtain e' js evs where d: "ev_job_step (rs_event s) j = (e', js, evs)" by (metis prod_cases3)
  from ev_drain_job [OF _ b d] show ?thesis by (simp add: reader_job_def d J)
qed

lemma job_less:
  assumes inv: "rd_inv s" and J: "rs_jobs s = add_mset j R" and b: "unat (ev_refs (rs_event s)) < 4294967294" and cl: "closed (rs_event s)"
  shows "ev_work (rs_jobs (reader_job j s)) < ev_work (rs_jobs s)" "closed (rs_event (reader_job j s))"
    "ev_ceiling (rs_ev (reader_job j s)) \<le> ev_ceiling (rs_ev s)"
proof -
  have ok: "ev_inv (rs_ev s)" using inv ev_reachable_inv by (simp add: rd_inv_def)
  note d = job_drains [OF J b]
  show "ev_work (rs_jobs (reader_job j s)) < ev_work (rs_jobs s)" "closed (rs_event (reader_job j s))"
    "ev_ceiling (rs_ev (reader_job j s)) \<le> ev_ceiling (rs_ev s)"
    using ev_drain_work(1,2) [OF d ok cl] ev_drain_ceiling [OF d ok cl] by simp_all
qed

lemma job_act_less:
  assumes inv: "rd_inv s" and cl: "closed (rs_event s)" and en: "rd_enabled s (RdJob j)"
  shows "rd_work (reader_job j s) < rd_work s" "closed (rs_event (reader_job j s))"
    "ev_ceiling (rs_ev (reader_job j s)) \<le> ev_ceiling (rs_ev s)" "rd_stage (reader_job j s) \<le> rd_stage s"
proof -
  obtain R where J: "rs_jobs s = add_mset j R" using en by (auto dest: multi_member_split)
  obtain e' js evs where d: "ev_job_step (rs_event s) j = (e', js, evs)" by (metis prod_cases3)
  show st: "rd_stage (reader_job j s) \<le> rd_stage s" using job_stage [OF inv J d cl] en by simp
  have b: "unat (ev_refs (rs_event s)) < 4294967294" using en by simp
  note l = job_less [OF inv J b cl]
  show "rd_work (reader_job j s) < rd_work s" "closed (rs_event (reader_job j s))"
    "ev_ceiling (rs_ev (reader_job j s)) \<le> ev_ceiling (rs_ev s)" using l st by (simp_all add: rd_work_def)
qed

lemma read_act_less:
  assumes "rd_enabled s (RdRead r)" "rd_settles (RdRead r)" "rd_do env (RdRead r) s = Some s'"
  shows "rs_ev s' = rs_ev s" "rd_stage s' < rd_stage s"
  using assms by (auto simp: ntt_reader_readable_def rd_stage_def split: read_result.splits if_splits)

lemma close_act_less:
  assumes inv: "rd_inv s" and en: "rd_enabled s (RdClose h k)" and d: "rd_do env (RdClose h k) s = Some s'"
  shows "rd_work s' < rd_work s" "ev_state (rs_event s') = ev_state (rs_event s)"
    "ev_ceiling (rs_ev s') = ev_ceiling (rs_ev s) + 1" "rd_stage s' = 0" "rd_stage s = 1"
proof -
  have j: "JRun h NTT_INTEREST_READABLE k \<in># rs_jobs s" using en by simp
  have "ntt_event_live (rs_event s) h EvCancel = ((rs_event s)\<lparr>ev_refs := ev_refs (rs_event s) + 1\<rparr>, [JLive h EvCancel])"
    using running(3) [OF inv j] by (simp add: ntt_event_live_def ntt_event_acquire_if_live_def acquire_next_def)
  then have s': "s' = s\<lparr>rs_ev := (rs_ev s)\<lparr>es_event := (rs_event s)\<lparr>ev_refs := ev_refs (rs_event s) + 1\<rparr>,
      es_jobs := add_mset (JLive h EvCancel) (rs_jobs s)\<rparr>, rs_pc := RClosing\<rparr>" using d by (simp add: reader_call_def)
  show "rd_work s' < rd_work s" "rd_stage s' = 0" "rd_stage s = 1" "ev_state (rs_event s') = ev_state (rs_event s)"
    using en by (simp_all add: s' rd_work_def rd_stage_def)
  have "unat (ev_refs (rs_event s) + 1) = unat (ev_refs (rs_event s)) + 1" using en by (intro unat_refs_succ) simp
  then show "ev_ceiling (rs_ev s') = ev_ceiling (rs_ev s) + 1" by (simp add: s' ev_ceiling_def)
qed

lemma closed_act_less:
  assumes inv: "rd_inv s" and cl: "closed (rs_event s)" and en: "rd_enabled s (RdClosed h k)" and d: "rd_do env (RdClosed h k) s = Some s'"
  shows "rd_work s' < rd_work s" "closed (rs_event s')" "ev_ceiling (rs_ev s') \<le> ev_ceiling (rs_ev s)" "rd_stage s' = 0"
proof -
  have j: "JRun h NTT_INTEREST_READABLE k \<in># rs_jobs s" using en by simp
  have "JLive h EvCancel \<in># rs_jobs s" using inv en running(1) [OF inv j] by (simp add: rd_inv_def rd_pc_ok_def)
  then obtain R where J: "rs_jobs s = add_mset (JLive h EvCancel) R" by (auto dest: multi_member_split)
  have b: "unat (ev_refs (rs_event s)) < 4294967294" using en by simp
  show st: "rd_stage s' = 0" using d by (auto simp: rd_stage_def)
  have "rs_ev s' = rs_ev (reader_job (JLive h EvCancel) s)" using d by auto
  then show "rd_work s' < rd_work s" "closed (rs_event s')" "ev_ceiling (rs_ev s') \<le> ev_ceiling (rs_ev s)"
    using job_less [OF inv J b cl] st by (simp_all add: rd_work_def)
qed

lemma act_opened: "rd_settles a \<Longrightarrow> rd_do env a s = Some s' \<Longrightarrow> rd_event (rs_reader s') = rd_event (rs_reader s)"
  by (cases a) (auto simp: reader_job_reader ntt_reader_readable_def reader_call_def case_prod_beta split: read_result.splits if_splits)

lemma rd_drain_step:
  assumes c: "rd_closing s" and st: "rd_drain env s s'"
  shows "rd_closing s'" "rd_work s' < rd_work s"
proof -
  obtain a where a: "rd_settles a" "rd_enabled s a" "rd_do env a s = Some s'" using st by (auto elim: rd_drain.cases)
  have inv: "rd_inv s" "closed (rs_event s)" and b: "ev_ceiling (rs_ev s) + (if rd_stage s = 0 then 0 else 1) < 4294967294"
    using c by (simp_all add: rd_closing_def)
  have inv': "rd_inv s'" using rd_do_inv [OF inv(1) a(2), of env] a(3) by auto
  have opened: "rs_opened s'" using act_opened [OF a(1,3)] c by (simp add: rd_closing_def)
  have "rd_closing s' \<and> rd_work s' < rd_work s"
  proof (cases a)
    case (RdJob j)
    then have "s' = reader_job j s" using a(3) by simp
    then show ?thesis using job_act_less [OF inv, of j] a(2) b inv' opened by (auto simp: RdJob rd_closing_def split: if_splits)
  next
    case (RdRead r)
    then show ?thesis using read_act_less [of s r env s'] a inv b inv' opened by (auto simp: rd_closing_def rd_work_def split: if_splits)
  next
    case (RdClose h k)
    then show ?thesis using close_act_less [OF inv(1), of h k env s'] a inv b inv' opened by (auto simp: rd_closing_def)
  next
    case (RdClosed h k)
    then show ?thesis using closed_act_less [OF inv, of h k env s'] a b inv' opened by (auto simp: rd_closing_def split: if_splits)
  qed (use a(1) in simp_all)
  then show "rd_closing s'" "rd_work s' < rd_work s" by simp_all
qed

section \<open>Some step is always possible\<close>

lemma rd_drain_progress:
  assumes c: "rd_closing s" and op: "ev_open (rs_event s)"
  shows "\<exists>s'. rd_drain env s s'"
proof -
  have inv: "rd_inv s" "closed (rs_event s)" and b: "unat (ev_refs (rs_event s)) < 4294967294"
    using c by (auto simp: rd_closing_def ev_ceiling_def)
  have "\<exists>a. rd_settles a \<and> rd_enabled s a"
  proof (cases "rs_pc s = RIdle")
    case True
    then have none: "\<not> has_run (rs_jobs s)" using inv by (simp add: rd_inv_def rd_pc_ok_def)
    obtain s' where "ev_drain (rs_ev s) s'" using ev_drain_progress [of "rs_ev s"] inv op b ev_reachable_inv by (auto simp: rd_inv_def)
    then obtain j where "j \<in># rs_jobs s" by (auto elim: ev_drain.cases)
    then show ?thesis using none True b by (intro exI [of _ "RdJob j"]) (auto simp: has_run_def)
  next
    case False
    then obtain j where j: "j \<in># rs_jobs s" "runs_readable j" using inv by (auto simp: rd_inv_def rd_pc_ok_def has_run_def)
    then obtain h k where jr: "j = JRun h NTT_INTEREST_READABLE k" by (cases j) auto
    consider "rs_pc s = RLoop" | "rs_pc s = RCancel" | "rs_pc s = RClosing" | "rs_pc s = RReturn" using False by (cases "rs_pc s") auto
    then show ?thesis
    proof cases
      case 1
      then show ?thesis by (intro exI [of _ "RdRead RdEof"]) simp
    next
      case 2
      then show ?thesis using j b jr by (intro exI [of _ "RdClose h k"]) simp
    next
      case 3
      then show ?thesis using j b jr by (intro exI [of _ "RdClosed h k"]) simp
    next
      case 4
      then show ?thesis using j b by (intro exI [of _ "RdJob j"]) (auto simp: jr)
    qed
  qed
  then obtain a where a: "rd_settles a" "rd_enabled s a" by blast
  then show ?thesis using rd_do_inv [OF inv(1) a(2), of env] rd_drain_act by blast
qed

interpretation rd_draining: draining "rd_drain env" rd_closing rd_work "\<lambda>s. \<not> ev_open (rs_event s)" for env
  by unfold_locales (use rd_drain_step rd_drain_progress in auto)

lemma rd_closing_start:
  assumes "rd_inv s" "ev_open (rs_event s)" "closed (rs_event s)" "unat (ev_refs (rs_event s)) < 4294967291"
  shows "rd_closing s"
proof -
  have "rs_opened s" using assms(1,2) by (auto simp: rd_inv_def rd_event_ok_def)
  then show ?thesis using assms ev_ceiling_start [of "rs_ev s"] ev_reachable_inv [of "rs_ev s"] by (simp add: rd_closing_def rd_inv_def)
qed

end
