(* ===== verification/Reader_Props.thy ===== *)
theory Reader_Props
  imports Reader_Live Schedules
begin

text \<open>
  The properties of the readers, with a schedule that shows where they apply: some bytes arrive, then the end of the input.
\<close>

section \<open>Schedules\<close>

abbreviation rd_act_step :: "env \<Rightarrow> rd_act \<Rightarrow> rd_sys \<Rightarrow> rd_sys option" where
  "rd_act_step env \<equiv> guarded rd_enabled (rd_do env)"

interpretation rd_run: scheduled "rd_act_step env" "rd_reachable env index" for env index
  by unfold_locales (auto split: if_splits intro: rd_next simp del: rd_do.simps rd_enabled.simps)

definition rd_demo_env :: env where
  "rd_demo_env = \<lparr>ndebug = False, can_alloc = (\<lambda>n. True)\<rparr>"

abbreviation rd_demo_run :: ev_job where
  "rd_demo_run \<equiv> JRun demo_handle NTT_INTEREST_READABLE None"

text \<open>The handler has read the end of the input and cancelled the event.\<close>

definition rd_demo_acts :: "rd_act list" where
  "rd_demo_acts = [RdQueue, RdOpen, RdDispatch demo_handle 1, RdJob (JLive demo_handle (EvDispatch 1)),
     RdJob (JPublish demo_handle 1), RdJob (JDeliver demo_handle [NTT_INTEREST_READABLE]),
     RdJob (JPost demo_handle NTT_INTEREST_READABLE []), RdJob (JDeliver demo_handle []), RdJob (JDrop 1 RetDispatch),
     RdJob (JTask NTT_INTEREST_READABLE), RdRead (RdData [104, 105]), RdRead (RdError EINTR), RdRead RdEof,
     RdClose demo_handle None, RdClosed demo_handle None]"

definition rd_demo_event :: ntt_event where
  "rd_demo_event = \<lparr>ev_index = 3, ev_generation = 1, ev_open = True, ev_read_queue = True, ev_write_queue = False, ev_rc = True, ev_wc = False,
     ev_refs = 3, ev_state = 18, ev_interest = 1, ev_flags = 3\<rparr>"

definition rd_demo_closed :: rd_sys where
  "rd_demo_closed = \<lparr>rs_ev = \<lparr>es_event = rd_demo_event, es_jobs = {#rd_demo_run, JDrop 2 RetCancel#},
       es_log = [LSlabTake, LQueueAcquire NTT_INTEREST_READABLE, LWorkEnter, LEpollAdd demo_handle 0x80000001,
         LReturn RetDispatch, LCall demo_handle NTT_INTEREST_READABLE, LEpollDel]\<rparr>,
     rs_reader = \<lparr>rd_queue = True, rd_event = demo_handle, rd_ec = 0\<rparr>, rs_pc = RReturn,
     rs_reads = [RdData [104, 105], RdError EINTR, RdEof], rs_calls = [OnData [104, 105]]\<rparr>"

definition rd_demo_end :: "rd_act list" where
  "rd_demo_end = [RdJob rd_demo_run, RdJob (JDrop 2 RetCancel), RdJob (JDrop 1 RetCancel), RdJob (JDrop 1 RetTask),
     RdJob (JCancelled NTT_INTEREST_READABLE)]"

definition rd_demo_over :: rd_sys where
  "rd_demo_over = \<lparr>rs_ev = \<lparr>es_event = rd_demo_event\<lparr>ev_generation := 2, ev_open := False, ev_refs := 0, ev_state := 16\<rparr>, es_jobs = {#},
       es_log = es_log (rs_ev rd_demo_closed) @ [LReturn RetCancel, LReturn RetTask, LCancelled NTT_INTEREST_READABLE, LSlabGive,
         LQueueRelease NTT_INTEREST_READABLE, LWorkLeave]\<rparr>,
     rs_reader = rs_reader rd_demo_closed, rs_pc = RIdle, rs_reads = rs_reads rd_demo_closed,
     rs_calls = [OnData [104, 105], OnCancel 0]\<rparr>"

lemmas rd_eval = ev_eval reader_call_def reader_job_def ntt_reader_readable_def ntt_reader_cancelled_def rd_start_def ntt_reader_init_def
  reader_params_def NTT_EVENT_HANDLE_NONE_def EINTR_def EAGAIN_def EWOULDBLOCK_def EPOLLET_def ntt_event_start_def ntt_assert_def rd_demo_env_def
  rd_demo_event_def

lemma rd_demo_closed_reached: "rd_reachable rd_demo_env 3 rd_demo_closed"
proof (rule rd_run.run_reach [OF rd_begin])
  show "run_acts (rd_act_step rd_demo_env) rd_demo_acts (rd_start 3) = Some rd_demo_closed"
    by (simp add: rd_demo_acts_def rd_demo_closed_def rd_eval)
qed

lemma rd_demo_over_reached: "rd_reachable rd_demo_env 3 rd_demo_over"
proof (rule rd_run.run_reach [OF rd_demo_closed_reached])
  show "run_acts (rd_act_step rd_demo_env) rd_demo_end rd_demo_closed = Some rd_demo_over"
    by (simp add: rd_demo_end_def rd_demo_over_def rd_demo_closed_def rd_eval)
qed

section \<open>Properties\<close>

lemma runs_once: "rd_inv s \<Longrightarrow> size (filter_mset runs_readable (rs_jobs s)) = (if rs_pc s = RIdle then 0 else 1)"
proof -
  assume inv: "rd_inv s"
  let ?F = "filter_mset runs_readable (rs_jobs s)"
  have "size (filter_mset runs_readable J) \<le> owners NTT_INTEREST_READABLE J" for J
    using runs_owns by (induction J) (auto split: if_splits)
  moreover have "owners NTT_INTEREST_READABLE (rs_jobs s) \<le> 1"
    using inv ev_reachable_inv [of "rs_ev s"] by (simp add: rd_inv_def ev_inv_def ev_ok_def)
  ultimately have "size ?F \<le> 1" using le_trans by blast
  moreover have "size (filter_mset runs_readable J) = 0 \<longleftrightarrow> \<not> has_run J" for J by (induction J) auto
  moreover have "rs_pc s = RIdle \<longleftrightarrow> \<not> has_run (rs_jobs s)" using inv by (auto simp: rd_inv_def rd_pc_ok_def)
  ultimately show ?thesis using le_antisym [of "size ?F" 1] by (metis One_nat_def not_less_eq_eq le_zero_eq)
qed

text \<open>
  C21. The callbacks of a reader, whatever the threads do: every chunk that was read is handed to \<open>on_data\<close>, in the order it was
  read, and \<open>on_cancel\<close> comes once, after all of them, exactly when the event is gone and nothing of the reader is in flight. It is given
  0 or the code of the read that failed. After the end of the input or a failure nothing is read any more, a handler
  never runs on two threads at once, and every step of the reader that can be taken passes its assertions.
\<close>

theorem reader_callbacks:
  assumes "rd_reachable env index s"
  shows "rs_calls s = List.map_filter data_of (rs_reads s) @
      (if rs_opened s \<and> \<not> ev_open (rs_event s) then [OnCancel (end_code (rs_reads s))] else [])
    \<and> (rs_opened s \<and> \<not> ev_open (rs_event s) \<longrightarrow> rs_jobs s = {#} \<and> rs_pc s = RIdle)
    \<and> \<not> ended (butlast (rs_reads s)) \<and> (ended (rs_reads s) \<longrightarrow> (\<forall>r. \<not> rd_enabled s (RdRead r)))
    \<and> size (filter_mset runs_readable (rs_jobs s)) = (if rs_pc s = RIdle then 0 else 1)
    \<and> (\<forall>a. rd_enabled s a \<longrightarrow> rd_do env a s \<noteq> None)"
proof -
  have inv: "rd_inv s" using rd_reachable_inv [OF assms] .
  then have "rs_jobs s = {#} \<and> rs_pc s = RIdle" if "\<not> ev_open (rs_event s)"
    using ev_ok_no_jobs [of "rs_event s" "rs_jobs s"] ev_reachable_inv [of "rs_ev s"] that by (auto simp: rd_inv_def ev_inv_def rd_pc_ok_def)
  moreover have "\<forall>a. rd_enabled s a \<longrightarrow> rd_do env a s \<noteq> None" using rd_do_inv [OF inv, of _ env] by auto
  ultimately show ?thesis using inv runs_once [OF inv] by (auto simp: rd_inv_def rd_log_ok_def rd_pc_ok_def)
qed

theorem reader_callbacks_witness:
  "rs_calls rd_demo_over = [OnData [104, 105], OnCancel 0] \<and> \<not> ended (butlast (rs_reads rd_demo_over))"
  using reader_callbacks [OF rd_demo_over_reached] by (simp add: rd_demo_over_def)

text \<open>
  C29. A reader stops: once its event is cancelled, by the end of the input, by a failed read or by \<open>ntt_reader_cancel\<close>, and the descriptor has
  no more data, whatever the order of the threads there are at most \<open>rd_work\<close> steps; until the event is gone some
  step is possible; and so the state is reached in which \<open>on_cancel\<close> has been called.
\<close>

theorem reader_stops:
  assumes "rd_reachable env index s" "ev_open (rs_event s)" "closed (rs_event s)" "unat (ev_refs (rs_event s)) < 4294967291"
  shows "(\<forall>n s'. (rd_drain env ^^ n) s s' \<longrightarrow> n \<le> rd_work s \<and> (ev_open (rs_event s') \<longrightarrow> (\<exists>s''. rd_drain env s' s'')))
    \<and> (\<exists>n s'. (rd_drain env ^^ n) s s' \<and> \<not> ev_open (rs_event s') \<and>
        rs_calls s' = List.map_filter data_of (rs_reads s') @ [OnCancel (end_code (rs_reads s'))])"
proof -
  have c: "rd_closing s" using rd_closing_start [OF rd_reachable_inv [OF assms(1)] assms(2-4)] .
  obtain n s' where s': "(rd_drain env ^^ n) s s'" "\<not> ev_open (rs_event s')" using rd_draining.comes_to_rest [OF c] by blast
  then have "rd_closing s'" using rd_draining.steps_bound [OF s'(1) c] by blast
  then have "rs_calls s' = List.map_filter data_of (rs_reads s') @ [OnCancel (end_code (rs_reads s'))]"
    using s'(2) by (simp add: rd_closing_def rd_inv_def rd_log_ok_def)
  then show ?thesis using rd_draining.every_run [OF c] s' by blast
qed

theorem reader_stops_witness:
  "\<exists>n s'. (rd_drain rd_demo_env ^^ n) rd_demo_closed s' \<and> \<not> ev_open (rs_event s')"
proof -
  have "ev_open (rs_event rd_demo_closed)" "closed (rs_event rd_demo_closed)" "unat (ev_refs (rs_event rd_demo_closed)) < 4294967291"
    by (simp_all add: rd_demo_closed_def rd_demo_event_def)
  from reader_stops [OF rd_demo_closed_reached this] show ?thesis by blast
qed

end
