(* ===== verification/System.thy ===== *)
theory System
  imports Queue_Props Loop_Props Combine
begin

text \<open>
  The parts of a loop together: the workers and the work they wait for (\<open>Loop\<close>), the queues (\<open>Queue\<close>, one machine for every slot of
  the queue slab), and the combine that hands the queues to the workers (\<open>Combine\<close>). A step of a queue that links it pushes it
  to the combine, one that unlinks it is a worker of the loop that takes it from there, a queue that is created takes work of
  the loop, and one that ends leaves its work to the thread that releases it, which drops it.
\<close>

section \<open>Steps\<close>

text \<open>\<open>nt_extra\<close> counts the work that is held by other than queues: events, callers, and threads about to drop it.\<close>

record nt_sys =
  nt_loop :: loop_sys
  nt_queues :: "nat \<Rightarrow> q_sys"
  nt_combine :: ntt_combine
  nt_extra :: nat

abbreviation nt_open :: "q_sys \<Rightarrow> bool" where
  "nt_open q \<equiv> qu_open (qs_queue q)"

abbreviation nt_linked :: "q_sys \<Rightarrow> bool" where
  "nt_linked q \<equiv> qu_linked (qs_queue q)"

abbreviation nt_work :: "nt_sys \<Rightarrow> u64" where
  "nt_work s \<equiv> lo_work_cnt (ls_loop (nt_loop s))"

abbreviation put_queue :: "nat \<Rightarrow> q_sys \<Rightarrow> nt_sys \<Rightarrow> nt_sys" where
  "put_queue k q s \<equiv> s\<lparr>nt_queues := (nt_queues s)(k := q)\<rparr>"

text \<open>What the workers, the barriers and the holders of other work do; the first queue is one of the queues here.\<close>

fun nt_loop_act :: "lo_act \<Rightarrow> bool" where
  "nt_loop_act LoWorkEnter \<longleftrightarrow> False"
| "nt_loop_act LoWorkLeave \<longleftrightarrow> False"
| "nt_loop_act (LoBoot i) \<longleftrightarrow> False"
| "nt_loop_act a \<longleftrightarrow> True"

text \<open>
  The loop tells the work of the first queue, which no thread but a worker can end, from all other work. With the first queue that a
  worker takes this is over: the work is held like any other.
\<close>

definition boot_over :: "loop_sys \<Rightarrow> loop_sys" where
  "boot_over l = (if ls_boot l then l\<lparr>ls_boot := False, ls_others := ls_others l + 1\<rparr> else l)"

inductive nt_step :: "env \<Rightarrow> nt_sys \<Rightarrow> nt_sys \<Rightarrow> bool" for env where
  nt_loop_step: "nt_loop_act a \<Longrightarrow> lo_enabled (nt_loop s) a \<Longrightarrow> lo_do env a (nt_loop s) = Some l \<Longrightarrow>
    nt_step env s (s\<lparr>nt_loop := l\<rparr>)"
| nt_enter: "lo_enabled (nt_loop s) LoWorkEnter \<Longrightarrow> lo_do env LoWorkEnter (nt_loop s) = Some l \<Longrightarrow>
    nt_step env s (s\<lparr>nt_loop := l, nt_extra := nt_extra s + 1\<rparr>)"
| nt_leave: "0 < nt_extra s \<Longrightarrow> lo_enabled (nt_loop s) LoWorkLeave \<Longrightarrow> lo_do env LoWorkLeave (nt_loop s) = Some l \<Longrightarrow>
    nt_step env s (s\<lparr>nt_loop := l, nt_extra := nt_extra s - 1\<rparr>)"
| nt_create: "q_step env (nt_queues s k) q \<Longrightarrow> \<not> nt_open (nt_queues s k) \<Longrightarrow> nt_open q \<Longrightarrow>
    lo_enabled (nt_loop s) LoWorkEnter \<Longrightarrow> lo_do env LoWorkEnter (nt_loop s) = Some l \<Longrightarrow>
    nt_step env s (put_queue k q (s\<lparr>nt_loop := l\<rparr>))"
| nt_close: "q_step env (nt_queues s k) q \<Longrightarrow> nt_open (nt_queues s k) \<Longrightarrow> \<not> nt_open q \<Longrightarrow>
    nt_step env s (put_queue k q (s\<lparr>nt_extra := nt_extra s + 1\<rparr>))"
| nt_push: "q_step env (nt_queues s k) q \<Longrightarrow> \<not> nt_linked (nt_queues s k) \<Longrightarrow> nt_linked q \<Longrightarrow>
    ntt_combine_push env (qu_tasks (qs_queue q) \<noteq> []) (nt_combine s) k = Some (wakeup, c) \<Longrightarrow>
    nt_step env s (put_queue k q (s\<lparr>nt_combine := c\<rparr>))"
| nt_take: "ntt_combine_try_take (nt_combine s) = (Some k, c) \<Longrightarrow> i < ls_width (nt_loop s) \<Longrightarrow> ls_pc (nt_loop s) i = WSvc \<Longrightarrow>
    unat (nt_work s) < 18446744073709551615 \<Longrightarrow> q_step env (nt_queues s k) q \<Longrightarrow> nt_linked (nt_queues s k) \<Longrightarrow> \<not> nt_linked q \<Longrightarrow>
    nt_step env s (put_queue k q (s\<lparr>nt_combine := c, nt_loop := boot_over (nt_loop s)\<rparr>))"
| nt_queue_step: "q_step env (nt_queues s k) q \<Longrightarrow> nt_open q = nt_open (nt_queues s k) \<Longrightarrow> nt_linked q = nt_linked (nt_queues s k) \<Longrightarrow>
    nt_step env s (put_queue k q s)"

text \<open>The first queue as \<open>ntt_loop_run\<close> leaves it: with its task, in the combine, which has the only reference.\<close>

definition boot_queue :: "ptr \<Rightarrow> q_sys" where
  "boot_queue task = \<lparr>qs_queue = \<lparr>qu_open = True, qu_external_refs = 1, qu_tasks = [task], qu_linked = True, qu_loop = True, qu_timers = 0, qu_timer_self_ref = False\<rparr>,
     qs_jobs = {#}, qs_log = [QLSlabTake, QLWorkEnter, QLPushed task]\<rparr>"

definition nt_start :: "ptr \<Rightarrow> loop_sys \<Rightarrow> nt_sys" where
  "nt_start task l = \<lparr>nt_loop = l, nt_queues = (\<lambda>k. if k = 0 then boot_queue task else q_init),
     nt_combine = ntt_combine_init_with_wakeup\<lparr>co_list := [0]\<rparr>, nt_extra = 0\<rparr>"

inductive nt_reachable :: "env \<Rightarrow> u32 \<Rightarrow> ptr \<Rightarrow> nt_sys \<Rightarrow> bool" for env width task where
  nt_begin: "ntt_loop_run env width = Some l \<Longrightarrow> nt_reachable env width task (nt_start task l)"
| nt_next: "nt_reachable env width task s \<Longrightarrow> nt_step env s s' \<Longrightarrow> nt_reachable env width task s'"

section \<open>The invariant\<close>

definition open_queues :: "nt_sys \<Rightarrow> nat set" where
  "open_queues s = {k. nt_open (nt_queues s k)}"

definition nt_inv :: "env \<Rightarrow> u32 \<Rightarrow> nt_sys \<Rightarrow> bool" where
  "nt_inv env width s \<longleftrightarrow> lo_reachable env width (nt_loop s) \<and> (\<forall>k. q_reachable env (nt_queues s k)) \<and>
     set (co_list (nt_combine s)) = {k. nt_linked (nt_queues s k)} \<and> distinct (co_list (nt_combine s)) \<and>
     finite (open_queues s) \<and> unat (nt_work s) = card (open_queues s) + nt_extra s"

lemma boot_queue_reached: "q_reachable env (boot_queue task)"
proof (rule q_run.run_reach [OF q_start])
  show "run_acts (q_act_step env) [ActCreate, ActPush task, ActRun (QPush task Own), ActRun (QAcquire Own), ActRun (QWakeup Own), ActRun QHold, ActRun QRelease]
      q_init = Some (boot_queue task)"
    by (simp add: boot_queue_def q_init_def ntt_queue_create_in_def ntt_queue_init_def task_free_def ntt_queue_push_task_def
        ntt_queue_push_task_without_wakeup_def ntt_queue_acquire_def ntt_queue_use_count_def queue_combine_push_def ntt_queue_empty_def
        ntt_queue_unlinked_def ntt_queue_release_def ntt_assert_def)
qed

lemma linked_open: "q_reachable env q \<Longrightarrow> nt_linked q \<Longrightarrow> nt_open q"
  using q_reachable_inv [of env q] by (auto simp: q_inv_def q_ok_def)

lemma closed_idle:
  assumes "q_reachable env q" "\<not> nt_open q"
  shows "qs_jobs q = {#}" "\<not> nt_linked q" "qu_tasks (qs_queue q) = []"
proof -
  have ok: "q_ok (qs_queue q) (qs_jobs q)" using q_reachable_inv [OF assms(1)] by (simp add: q_inv_def)
  then have z: "qu_external_refs (qs_queue q) = 0" using assms(2) by (simp add: q_ok_def)
  show j: "qs_jobs q = {#}" by (rule q_ok_no_jobs [OF ok z])
  show l: "\<not> nt_linked q" using linked_open [OF assms(1)] assms(2) by blast
  show "qu_tasks (qs_queue q) = []" using ok j l by (simp add: q_ok_def of_bool_def split: if_splits)
qed

text \<open>Of the loop, only taking and dropping work changes the counter.\<close>

lemma loop_work:
  assumes "lo_reachable env w s"
  shows "unat (lo_work_cnt (ls_loop s)) = of_bool (ls_boot s) + ls_others s + size (ls_push s)"
  using lo_reachable_inv [OF assms] by (simp add: lo_inv_def lo_work_def)

lemma worker_step_cnt: "worker_step env i s = Some s' \<Longrightarrow> lo_work_cnt (ls_loop s') = lo_work_cnt (ls_loop s)"
  by (cases "ls_pc s i") (auto simp: worker_step_def enter_publish_def enter_count_def run_local_def next_local_def ntt_barrier_svc_def Let_def
    split: list.splits local_task.splits if_splits bind_splits)

lemma loop_act_cnt:
  assumes "nt_loop_act a" "lo_do env a s = Some s'"
  shows "lo_work_cnt (ls_loop s') = lo_work_cnt (ls_loop s)"
  using assms by (cases a) (auto simp: worker_step_cnt split: bind_splits)

lemma enter_cnt:
  assumes "lo_enabled s LoWorkEnter" "lo_do env LoWorkEnter s = Some s'"
  shows "unat (lo_work_cnt (ls_loop s')) = unat (lo_work_cnt (ls_loop s)) + 1"
  using assms unat_add64_noflow [of "lo_work_cnt (ls_loop s)" 1] by (auto simp: ntt_loop_work_enter_def Let_def split: bind_splits)

lemma leave_cnt:
  assumes "lo_do env LoWorkLeave s = Some s'" "lo_work_cnt (ls_loop s) \<noteq> 0"
  shows "unat (lo_work_cnt (ls_loop s')) = unat (lo_work_cnt (ls_loop s)) - 1"
  using assms unat64_pred [of "lo_work_cnt (ls_loop s)"] by (auto simp: leave_work_def work_drop_def Let_def split: bind_splits if_splits)

lemma boot_over_reached:
  assumes r: "lo_reachable env w l" and i: "i < ls_width l" "ls_pc l i = WSvc" and b: "unat (lo_work_cnt (ls_loop l)) < 18446744073709551615"
  shows "lo_reachable env w (boot_over l)" "ls_loop (boot_over l) = ls_loop l"
proof -
  have "lo_reachable env w (boot_over l) \<and> ls_loop (boot_over l) = ls_loop l"
  proof (cases "ls_boot l")
    case True
    let ?c = "lo_work_cnt (ls_loop l)"
    let ?l = "l\<lparr>ls_loop := (ls_loop l)\<lparr>lo_work_cnt := ?c + 1\<rparr>, ls_others := ls_others l + 1\<rparr>"
    have pos: "?c \<noteq> 0" using loop_work [OF r] True by auto
    then have "0 < ?c" by (simp add: word_neq_0_conv)
    then have s1: "lo_do env LoWorkEnter l = Some ?l" by (simp add: ntt_loop_work_enter_def ntt_assert_def)
    have "lo_enabled l LoWorkEnter" using True i b by auto
    from lo_next [OF r this s1] have r1: "lo_reachable env w ?l" .
    have sum: "unat (?c + 1) = unat ?c + 1" using b by (subst unat_add64_noflow) auto
    then have "?c + 1 \<noteq> 1" "0 < ?c + 1" using pos by (auto simp: word_less_nat_alt)
    then have "lo_do env (LoBoot i) ?l = Some (boot_over l)" using True
      by (simp add: leave_work_def work_drop_def ntt_assert_def boot_over_def)
    from lo_next [OF r1 _ this] show ?thesis using True i by (simp add: boot_over_def)
  qed (simp_all add: boot_over_def r)
  then show "lo_reachable env w (boot_over l)" "ls_loop (boot_over l) = ls_loop l" by simp_all
qed

section \<open>Steps keep the invariant\<close>

lemma job_one_change:
  assumes "q_job_step env q j = Some (q', js, evs)"
  shows "qu_linked q' = qu_linked q \<or> qu_open q' = qu_open q"
  using assms
  by (cases j) (auto simp: ntt_queue_push_task_def ntt_queue_push_task_without_wakeup_def ntt_queue_acquire_def queue_combine_push_def
    svc_begin_def svc_next_def ntt_queue_next_def svc_destroy_def svc_end_def svc_leave_def sync_self_ref_def ntt_queue_release_def Let_def
    split: bind_splits if_splits option.splits list.splits)

lemma q_one_change:
  assumes "q_step env q q'" "q_reachable env q"
  shows "nt_linked q' = nt_linked q \<or> nt_open q' = nt_open q"
  using assms(1)
proof cases
  case (q_create r evs)
  then show ?thesis using closed_idle(2) [OF assms(2)] by (auto simp: ntt_queue_create_in_def ntt_queue_init_def)
next
  case (q_job j r js evs)
  then show ?thesis using job_one_change by auto
qed (auto simp: ntt_queue_acquire_def ntt_queue_acquire_if_live_def split: bind_splits if_splits)

lemma open_put_queue: "open_queues (put_queue k q s) = (if nt_open q then insert k (open_queues s) else open_queues s - {k})"
  by (auto simp: open_queues_def)

lemma open_other [simp]: "open_queues (s\<lparr>nt_loop := l\<rparr>) = open_queues s" "open_queues (s\<lparr>nt_extra := n\<rparr>) = open_queues s"
  "open_queues (s\<lparr>nt_combine := c\<rparr>) = open_queues s"
  by (simp_all add: open_queues_def)

text \<open>A step of a queue: only its own slot changes, and the list of the combine must follow.\<close>

lemma queue_inv:
  assumes inv: "nt_inv env w s" and st: "q_step env (nt_queues s k) q" and l: "lo_reachable env w l"
    and c: "set (co_list c) = (if nt_linked q then insert k (set (co_list (nt_combine s))) else set (co_list (nt_combine s)) - {k})" "distinct (co_list c)"
    and n: "unat (lo_work_cnt (ls_loop l)) = card (if nt_open q then insert k (open_queues s) else open_queues s - {k}) + n"
  shows "nt_inv env w (put_queue k q (s\<lparr>nt_combine := c, nt_loop := l, nt_extra := n\<rparr>))"
proof -
  have "q_reachable env q" using inv st q_next by (auto simp: nt_inv_def)
  moreover have "set (co_list c) = {j. nt_linked (((nt_queues s)(k := q)) j)}" using inv c(1) by (auto simp: nt_inv_def)
  ultimately show ?thesis using inv l c(2) n open_put_queue [where s = "s\<lparr>nt_combine := c, nt_loop := l, nt_extra := n\<rparr>"]
    by (simp add: nt_inv_def)
qed

lemma nt_step_inv:
  assumes "nt_step env s s'" and inv: "nt_inv env w s"
  shows "nt_inv env w s'"
proof -
  have loop: "lo_reachable env w (nt_loop s)" and qs: "q_reachable env (nt_queues s k)" and fin: "finite (open_queues s)"
    and cnt: "unat (nt_work s) = card (open_queues s) + nt_extra s" and list: "k \<in> set (co_list (nt_combine s)) \<longleftrightarrow> nt_linked (nt_queues s k)"
    and dist: "distinct (co_list (nt_combine s))" for k
    using inv by (auto simp: nt_inv_def)
  have mem: "k \<in> open_queues s \<longleftrightarrow> nt_open (nt_queues s k)" for k by (simp add: open_queues_def)
  from assms(1) show ?thesis
  proof cases
    case (nt_loop_step a l)
    have "lo_reachable env w l" by (rule lo_next [OF loop nt_loop_step(3,4)])
    then show ?thesis using inv loop_act_cnt [OF nt_loop_step(2,4)] by (simp add: nt_inv_def nt_loop_step(1))
  next
    case (nt_enter l)
    have "lo_reachable env w l" by (rule lo_next [OF loop nt_enter(2,3)])
    then show ?thesis using inv enter_cnt [OF nt_enter(2,3)] by (simp add: nt_inv_def nt_enter(1))
  next
    case (nt_leave l)
    have "nt_work s \<noteq> 0" using cnt nt_leave(2) by auto
    from leave_cnt [OF nt_leave(4) this] show ?thesis using inv lo_next [OF loop nt_leave(3,4)] nt_leave(2) by (simp add: nt_inv_def nt_leave(1))
  next
    case (nt_create k q l)
    have "nt_linked q = nt_linked (nt_queues s k)" using q_one_change [OF nt_create(2) qs] nt_create by auto
    then have "nt_inv env w (put_queue k q (s\<lparr>nt_combine := nt_combine s, nt_loop := l, nt_extra := nt_extra s\<rparr>))"
      using nt_create(3,4) enter_cnt [OF nt_create(5,6)] cnt fin mem list dist
      by (intro queue_inv [OF inv nt_create(2) lo_next [OF loop nt_create(5,6)]]) auto
    then show ?thesis by (simp add: nt_create(1))
  next
    case (nt_close k q)
    have "nt_linked q = nt_linked (nt_queues s k)" using q_one_change [OF nt_close(2) qs] nt_close by auto
    moreover have "Suc (card (open_queues s - {k})) = card (open_queues s)" by (rule card_Suc_Diff1 [OF fin]) (simp add: mem nt_close(3))
    ultimately have "nt_inv env w (put_queue k q (s\<lparr>nt_combine := nt_combine s, nt_loop := nt_loop s, nt_extra := nt_extra s + 1\<rparr>))"
      using nt_close(3,4) cnt list dist by (intro queue_inv [OF inv nt_close(2) loop]) auto
    then show ?thesis by (simp add: nt_close(1))
  next
    case (nt_push k q wakeup c)
    have "nt_open q = nt_open (nt_queues s k)" using q_one_change [OF nt_push(2) qs] nt_push by auto
    moreover have "co_list c = co_list (nt_combine s) @ [k]" using nt_push(5) by (auto simp: ntt_combine_push_def Let_def split: bind_splits)
    ultimately have "nt_inv env w (put_queue k q (s\<lparr>nt_combine := c, nt_loop := nt_loop s, nt_extra := nt_extra s\<rparr>))"
      using nt_push(3,4) cnt list dist mem by (intro queue_inv [OF inv nt_push(2) loop]) (auto simp: insert_absorb)
    then show ?thesis by (simp add: nt_push(1))
  next
    case (nt_take k c i q)
    have "nt_open q = nt_open (nt_queues s k)" using q_one_change [OF nt_take(6) qs] nt_take by auto
    moreover have "co_list (nt_combine s) = k # co_list c"
      using nt_take(2) by (auto simp: ntt_combine_try_take_def ntt_combine_empty_def split: if_splits)
    ultimately have "nt_inv env w (put_queue k q (s\<lparr>nt_combine := c, nt_loop := boot_over (nt_loop s), nt_extra := nt_extra s\<rparr>))"
      using nt_take(7,8) cnt dist mem boot_over_reached(2) [OF loop nt_take(3,4,5)]
      by (intro queue_inv [OF inv nt_take(6) boot_over_reached(1) [OF loop nt_take(3,4,5)]]) (auto simp: insert_absorb)
    then show ?thesis by (simp add: nt_take(1))
  next
    case (nt_queue_step k q)
    then have "nt_inv env w (put_queue k q (s\<lparr>nt_combine := nt_combine s, nt_loop := nt_loop s, nt_extra := nt_extra s\<rparr>))"
      using cnt list dist mem by (intro queue_inv [OF inv nt_queue_step(2) loop]) (auto simp: insert_absorb)
    then show ?thesis by (simp add: nt_queue_step(1))
  qed
qed

lemma nt_reachable_inv: "nt_reachable env width task s \<Longrightarrow> nt_inv env width s"
proof (induction rule: nt_reachable.induct)
  case (nt_begin l)
  have "unat (lo_work_cnt (ls_loop l)) = 1" using nt_begin
    by (auto simp: ntt_loop_run_def loop_start_def leave_work_def work_drop_def ntt_loop_work_enter_def ntt_assert_def Let_def split: if_splits)
  moreover have "open_queues (nt_start task l) = {0}" by (auto simp: open_queues_def nt_start_def boot_queue_def q_init_def split: if_splits)
  ultimately show ?case using lo_begin [OF nt_begin] boot_queue_reached q_start
    by (auto simp: nt_inv_def nt_start_def ntt_combine_init_with_wakeup_def boot_queue_def q_init_def split: if_splits)
next
  case (nt_next s s')
  then show ?case using nt_step_inv by blast
qed

end
