(* ===== verification/System_Props.thy ===== *)
theory System_Props
  imports System Timer_Service
begin

text \<open>The properties of a loop with its queues, and the run of a loop of one worker with one task.\<close>

section \<open>The end of a loop\<close>

text \<open>
  The parts of \<open>ntt_loop_destroy\<close> that can abort, for a timer service and slabs that are given; the closing of the descriptors and the
  destruction of the locks are in \<open>loop_destroy\<close> of \<open>Loop_Boot\<close>.
\<close>

definition ntt_loop_destroy ::
    "env \<Rightarrow> ntt_timer_service \<Rightarrow> ntt_slab \<Rightarrow> ntt_slab \<Rightarrow> ntt_combine \<Rightarrow> (ntt_timer_service \<times> ntt_slab \<times> ntt_slab) option" where
  "ntt_loop_destroy env timer_service queue_slab event_slab combine = do {
     timer_service' \<leftarrow> ntt_timer_service_deinit env timer_service queue_slab;
     let queue_slab' = ntt_slab_deinit queue_slab;
     let event_slab' = ntt_slab_deinit event_slab;
     ntt_combine_deinit env combine;
     Some (timer_service', queue_slab', event_slab')
   }"

section \<open>A run\<close>

datatype nt_act = NtLoop lo_act | NtLeave | NtTake nat | NtQueue nat q_act

fun nt_act_step :: "env \<Rightarrow> nt_act \<Rightarrow> nt_sys \<Rightarrow> nt_sys option" where
  "nt_act_step env (NtLoop a) s = (if nt_loop_act a \<and> lo_enabled (nt_loop s) a
     then map_option (\<lambda>l. s\<lparr>nt_loop := l\<rparr>) (lo_do env a (nt_loop s)) else None)"
| "nt_act_step env NtLeave s = (if 0 < nt_extra s \<and> lo_enabled (nt_loop s) LoWorkLeave
     then map_option (\<lambda>l. s\<lparr>nt_loop := l, nt_extra := nt_extra s - 1\<rparr>) (lo_do env LoWorkLeave (nt_loop s)) else None)"
| "nt_act_step env (NtTake i) s = (case ntt_combine_try_take (nt_combine s) of
     (None, c) \<Rightarrow> None
   | (Some k, c) \<Rightarrow> (case q_act_step env (ActTake None) (nt_queues s k) of None \<Rightarrow> None
     | Some q \<Rightarrow> if i < ls_width (nt_loop s) \<and> ls_pc (nt_loop s) i = WSvc \<and> unat (nt_work s) < 18446744073709551615
         then Some (put_queue k q (s\<lparr>nt_combine := c, nt_loop := boot_over (nt_loop s)\<rparr>)) else None))"
| "nt_act_step env (NtQueue k a) s = (case q_act_step env a (nt_queues s k) of None \<Rightarrow> None
   | Some q \<Rightarrow> if nt_open q = nt_open (nt_queues s k) \<and> nt_linked q = nt_linked (nt_queues s k) then Some (put_queue k q s)
       else if nt_open (nt_queues s k) \<and> \<not> nt_open q then Some (put_queue k q (s\<lparr>nt_extra := nt_extra s + 1\<rparr>))
       else None)"

lemma nt_act_sound: "nt_act_step env a s = Some s' \<Longrightarrow> nt_step env s s'"
proof (cases a)
  case (NtTake i)
  assume st: "nt_act_step env a s = Some s'"
  then obtain k c q where k: "ntt_combine_try_take (nt_combine s) = (Some k, c)" and q: "q_act_step env (ActTake None) (nt_queues s k) = Some q"
    and i: "i < ls_width (nt_loop s)" "ls_pc (nt_loop s) i = WSvc" "unat (nt_work s) < 18446744073709551615"
    and s': "s' = put_queue k q (s\<lparr>nt_combine := c, nt_loop := boot_over (nt_loop s)\<rparr>)"
    unfolding NtTake nt_act_step.simps by (simp split: prod.splits option.splits if_splits del: q_act_step.simps)
  have "nt_linked (nt_queues s k)" "\<not> nt_linked q" using q by (auto split: if_splits)
  with nt_take [OF k i q_act_sound [OF q]] show ?thesis by (simp add: s')
next
  case (NtQueue k b)
  assume st: "nt_act_step env a s = Some s'"
  then obtain q where "q_act_step env b (nt_queues s k) = Some q" unfolding NtQueue nt_act_step.simps by (simp split: option.splits del: q_act_step.simps)
  then show ?thesis using st nt_close [OF q_act_sound, of env b s k q] nt_queue_step [OF q_act_sound, of env b s k q]
    unfolding NtQueue nt_act_step.simps by (simp split: if_splits del: q_act_step.simps)
qed (auto intro: nt_loop_step nt_leave split: if_splits simp del: lo_do.simps lo_enabled.simps One_nat_def)

interpretation nt_run: scheduled "nt_act_step env" "nt_reachable env width task" for env width task
  by unfold_locales (use nt_act_sound nt_next in blast)

definition nt_demo_begin :: loop_sys where
  "nt_demo_begin = (loop_start 1)\<lparr>ls_boot := True, ls_others := 0\<rparr>"

definition nt_demo_acts :: "nt_act list" where
  "nt_demo_acts = [NtLoop (LoThread 0), NtLoop (LoThread 0), NtLoop (LoThread 0), NtLoop (LoThread 0), NtLoop (LoThread 0), NtLoop (LoThread 0),
      NtTake 0, NtQueue 0 (ActRun (QStart (Turn NoQueue None))), NtQueue 0 (ActRun (QRun (Turn ThisQueue None) 0 100)), NtQueue 0 (ActRun (QNext (Turn ThisQueue None) 0 100)),
      NtQueue 0 (ActRun (QDestroy (Turn ThisQueue None) 0 100 None)), NtQueue 0 (ActRun QRelease), NtLeave, NtLoop LoRelease,
      NtLoop (LoThread 0), NtLoop (LoThread 0), NtLoop (LoThread 0), NtLoop (LoThread 0), NtLoop LoDestroy]"

lemma nt_demo_started: "nt_reachable loop_env 1 100 (nt_start 100 nt_demo_begin)"
proof (rule nt_begin)
  have "ntt_loop_clamp_width 1 = 1" by (simp add: ntt_loop_clamp_width_def NTT_MAX_LOOP_WIDTH_def)
  then show "ntt_loop_run loop_env 1 = Some nt_demo_begin"
    by (simp add: ntt_loop_run_def loop_start_def leave_work_def work_drop_def ntt_loop_work_enter_def ntt_assert_def loop_env_def nt_demo_begin_def)
qed

lemmas nt_exec = boot_over_def ntt_combine_try_take_def ntt_combine_empty_def ntt_combine_init_with_wakeup_def nt_start_def boot_queue_def
  svc_begin_def svc_next_def svc_destroy_def svc_end_def ntt_queue_next_def ntt_queue_front_def ntt_queue_empty_def ntt_queue_unlinked_def ntt_queue_release_def
  ntt_queue_use_count_def ntt_queue_deinit_def ntt_queue_from_slab_def ntt_task_svc_inl_def ntt_task_destroy_inl_def

lemma nt_demo_runs:
  "\<exists>s. run_acts (nt_act_step loop_env) nt_demo_acts (nt_start 100 nt_demo_begin) = Some s \<and> ls_destroyed (nt_loop s)"
  by (simp add: nt_demo_acts_def nt_demo_begin_def loop_start_def loop_env_def lo_exec nt_exec)

section \<open>Properties\<close>

lemma linked_tasks:
  assumes "q_reachable env q" "nt_linked q"
  shows "qu_tasks (qs_queue q) \<noteq> []"
  using q_reachable_inv [OF assms(1)] assms(2) by (auto simp: q_inv_def q_ok_def)

lemma tasks_token:
  assumes "q_reachable env q" "qu_tasks (qs_queue q) \<noteq> []" "\<not> nt_linked q"
  shows "\<exists>j \<in># qs_jobs q. qjob_token j \<noteq> 0"
proof (rule ccontr)
  assume "\<not> ?thesis"
  then have "sum_jobs qjob_token (qs_jobs q) = 0" by (simp add: sum_jobs_def)
  then show False using q_reachable_inv [OF assms(1)] assms(2,3) by (simp add: q_inv_def q_ok_def)
qed

text \<open>
  C16. The parts of a loop fit together, in all interleavings of its workers, its queues and their users: what is shown of the workers and of each
  queue on its own holds in the whole; the combine has exactly the queues that are linked, each once; a queue with tasks is in the combine, or a
  worker has it, or the thread that made it non-empty is about to push it; pushing a queue passes the assertions of the combine; and
  the work of the loop is that of the open queues and of the other holders.
\<close>

theorem system_parts:
  assumes "nt_reachable env width task s"
  shows "lo_reachable env width (nt_loop s) \<and> (\<forall>k. q_reachable env (nt_queues s k))
    \<and> set (co_list (nt_combine s)) = {k. nt_linked (nt_queues s k)} \<and> distinct (co_list (nt_combine s))
    \<and> (\<forall>k. qu_tasks (qs_queue (nt_queues s k)) \<noteq> [] \<longrightarrow>
        k \<in> set (co_list (nt_combine s)) \<or> (\<exists>j \<in># qs_jobs (nt_queues s k). qjob_token j \<noteq> 0))
    \<and> (\<forall>k q. q_step env (nt_queues s k) q \<and> \<not> nt_linked (nt_queues s k) \<and> nt_linked q \<longrightarrow>
        ntt_combine_push env (qu_tasks (qs_queue q) \<noteq> []) (nt_combine s) k \<noteq> None)
    \<and> finite (open_queues s) \<and> unat (nt_work s) = card (open_queues s) + nt_extra s"
proof -
  have inv: "nt_inv env width s" by (rule nt_reachable_inv [OF assms])
  have q: "q_reachable env (nt_queues s k)" for k using inv by (simp add: nt_inv_def)
  have "ntt_combine_push env (qu_tasks (qs_queue q) \<noteq> []) (nt_combine s) k \<noteq> None"
    if "q_step env (nt_queues s k) q" "\<not> nt_linked (nt_queues s k)" "nt_linked q" for k q
  proof -
    have "qu_tasks (qs_queue q) \<noteq> []" by (rule linked_tasks [OF q_next [OF q that(1)] that(3)])
    moreover have "k \<notin> set (co_list (nt_combine s))" using inv that(2) by (simp add: nt_inv_def)
    ultimately show ?thesis by (simp add: ntt_combine_push_def ntt_assert_def)
  qed
  then show ?thesis using inv tasks_token [OF q] by (auto simp: nt_inv_def)
qed

theorem system_parts_witness:
  "co_list (nt_combine (nt_start 100 nt_demo_begin)) = [0] \<and> unat (nt_work (nt_start 100 nt_demo_begin)) = card (open_queues (nt_start 100 nt_demo_begin))"
  using system_parts [OF nt_demo_started] by (simp add: nt_start_def)

text \<open>When all workers have left: every queue is gone, nobody holds work, and the combine is empty.\<close>

lemma system_over:
  assumes "nt_reachable env width task s" "lo_enabled (nt_loop s) LoDestroy \<or> ls_destroyed (nt_loop s)"
  shows "\<not> nt_open (nt_queues s k)" "co_list (nt_combine s) = []" "nt_extra s = 0"
    and "qs_jobs (nt_queues s k) = {#}" "qu_tasks (qs_queue (nt_queues s k)) = []"
proof -
  have inv: "nt_inv env width s" by (rule nt_reachable_inv [OF assms(1)])
  have loop: "lo_inv (nt_loop s)" using inv lo_reachable_inv by (auto simp: nt_inv_def)
  have w: "0 < ls_width (nt_loop s)" using lo_inv_enter [OF loop] by (simp add: lo_enter_def)
  have "ls_pc (nt_loop s) 0 = WLeft" using assms(2) w loop by (auto simp: lo_inv_def lo_work_def)
  then have "wk_stopped (ls_wk (nt_loop s) 0)" using lo_inv_worker [OF loop w] by (simp add: wk_ok_def)
  then have "nt_work s = 0" using stopped_released(2) [OF loop w] by blast
  then have none: "open_queues s = {}" and x: "nt_extra s = 0" using inv by (auto simp: nt_inv_def)
  have closed: "\<not> nt_open (nt_queues s k)" for k using none by (auto simp: open_queues_def)
  have q: "q_reachable env (nt_queues s k)" for k using inv by (simp add: nt_inv_def)
  note idle = closed_idle [OF q closed]
  have "co_list (nt_combine s) = []" using inv idle(2) by (simp add: nt_inv_def)
  then show "\<not> nt_open (nt_queues s k)" "co_list (nt_combine s) = []" "nt_extra s = 0"
    "qs_jobs (nt_queues s k) = {#}" "qu_tasks (qs_queue (nt_queues s k)) = []" using closed idle x by simp_all
qed

text \<open>
  C15. The end of a loop is clean: when all workers have left, and so when the loop is destroyed, every queue is gone, with no task in it and
  nothing in flight on it, nobody holds work any more, and the combine is empty, as \<open>ntt_loop_destroy\<close> asserts; so the loop is destroyed
  without an abort, as soon as the timer service has no standing registration, which it has not once the queues are gone.
\<close>

theorem system_end:
  assumes "nt_reachable env width task s" "lo_enabled (nt_loop s) LoDestroy \<or> ls_destroyed (nt_loop s)"
    and "ntt_queue_heap_has_live env (sv_queues timer_service) queue_slab = Some False"
  shows "(\<forall>k. \<not> nt_open (nt_queues s k) \<and> qs_jobs (nt_queues s k) = {#} \<and> qu_tasks (qs_queue (nt_queues s k)) = [])
    \<and> nt_extra s = 0 \<and> co_list (nt_combine s) = [] \<and>
      ntt_loop_destroy env timer_service queue_slab event_slab (nt_combine s) \<noteq> None"
  using system_over [OF assms(1,2)] assms(3)
  by (simp add: ntt_loop_destroy_def ntt_timer_service_deinit_def ntt_combine_deinit_def ntt_combine_empty_def ntt_assert_def)

theorem system_end_witness:
  "\<exists>s. run_acts (nt_act_step loop_env) nt_demo_acts (nt_start 100 nt_demo_begin) = Some s \<and> ls_destroyed (nt_loop s) \<and>
     co_list (nt_combine s) = [] \<and>
     ntt_loop_destroy loop_env ntt_timer_service_init (ntt_slab_init 256) (ntt_slab_init 128) (nt_combine s) \<noteq> None"
proof -
  obtain s where s: "run_acts (nt_act_step loop_env) nt_demo_acts (nt_start 100 nt_demo_begin) = Some s" "ls_destroyed (nt_loop s)"
    using nt_demo_runs by blast
  have "nt_reachable loop_env 1 100 s" by (rule nt_run.run_reach [OF nt_demo_started s(1)])
  moreover have "ntt_queue_heap_has_live loop_env (sv_queues ntt_timer_service_init) (ntt_slab_init 256) = Some False"
    by (simp add: ntt_queue_heap_has_live_def ntt_timer_service_init_def ntt_queue_heap_init_def queue_heap_any_live.simps)
  ultimately show ?thesis using system_end s by blast
qed

end
