(* ===== verification/Process.thy ===== *)
theory Process
  imports Ntt_Task
begin

text \<open>
  What the program has of the operating system: allocated memory (\<open>src/src/malloc.c\<close>), open descriptors, initialised locks and
  joinable threads, and the wrappers of \<open>src/src/loop.c\<close> that abort when a call fails. What a call that may fail
  answers is a parameter, which may depend on the state of the process.
\<close>

section \<open>The process\<close>

text \<open>
  The descriptors a loop opens: an epoll instance with the descriptors it watches, each with its mask and its data, the
  counter of an event descriptor, a timer descriptor; and those of others.
\<close>

datatype descr = EpollFd "int \<Rightarrow> (u32 \<times> u64) option" | CounterFd u64 | TimerFd | UserFd nat

text \<open>
  The locks and the condition variable of a loop, known by its address: those in its structure, and the lock of the queue in
  each slot of its slab.
\<close>

datatype sync_obj = LoopMutex | LoopCond | CombineLock | QueueSlabLock | EventSlabLock | ServiceLock | QueueLock u32

record process =
  pr_heap :: "ptr set"
  pr_fds :: "int \<Rightarrow> descr option"
  pr_sync :: "(ptr \<times> sync_obj) set"
  pr_threads :: "u64 set"

text \<open>
  The answers: the address of an allocation (\<open>NULL\<close> for a failure), the number of a new descriptor (\<open>-1\<close>), whether a descriptor
  can be added to an epoll instance, whether a mutex or a condition variable can be initialised, the thread that is started. An
  address, a number or a thread that is in use is no answer: the call has failed.
\<close>

record answers =
  an_malloc :: "u64 \<Rightarrow> process \<Rightarrow> ptr"
  an_aligned :: "u64 \<Rightarrow> u64 \<Rightarrow> process \<Rightarrow> ptr"
  an_open :: "descr \<Rightarrow> process \<Rightarrow> int"
  an_epoll_add :: "int \<Rightarrow> int \<Rightarrow> process \<Rightarrow> bool"
  an_init :: "sync_obj \<Rightarrow> process \<Rightarrow> bool"
  an_thread :: "process \<Rightarrow> u64 option"

text \<open>
  Epoll watches open descriptors only: a descriptor that is closed is taken out by the kernel. Nothing is at \<open>NULL\<close>, no descriptor
  has the number \<open>-1\<close>, and locks are in allocated memory.
\<close>

definition process_ok :: "process \<Rightarrow> bool" where
  "process_ok p \<longleftrightarrow> NULL \<notin> pr_heap p \<and> pr_fds p (-1) = None \<and> (\<forall>(self, obj) \<in> pr_sync p. self \<in> pr_heap p) \<and>
     (\<forall>e m fd. pr_fds p e = Some (EpollFd m) \<longrightarrow> m fd \<noteq> None \<longrightarrow> pr_fds p fd \<noteq> None)"

section \<open>Memory\<close>

definition os_malloc :: "answers \<Rightarrow> u64 \<Rightarrow> process \<Rightarrow> ptr" where
  "os_malloc os s p = (let ptr = an_malloc os s p in if ptr \<in> pr_heap p then NULL else ptr)"

definition os_aligned :: "answers \<Rightarrow> u64 \<Rightarrow> u64 \<Rightarrow> process \<Rightarrow> ptr" where
  "os_aligned os align s p = (let ptr = an_aligned os align s p in if ptr \<in> pr_heap p then NULL else ptr)"

definition ntt_malloc_or_die :: "answers \<Rightarrow> u64 \<Rightarrow> process \<Rightarrow> (ptr \<times> process) option" where
  "ntt_malloc_or_die os s p = (
     let ptr = os_malloc os s p
     in if ptr = NULL then ntt_die else Some (ptr, p\<lparr>pr_heap := insert ptr (pr_heap p)\<rparr>))"

definition ntt_aligned_or_die :: "answers \<Rightarrow> u64 \<Rightarrow> u64 \<Rightarrow> process \<Rightarrow> (ptr \<times> process) option" where
  "ntt_aligned_or_die os align s p = (
     let ptr = os_aligned os align s p
     in if ptr = NULL then ntt_die else Some (ptr, p\<lparr>pr_heap := insert ptr (pr_heap p)\<rparr>))"

text \<open>
  Changing the size of a block, or allocating one for \<open>NULL\<close>: the new block may be at the address of the old one. A pointer to
  what is not allocated is undefined.
\<close>

definition realloc_or_die :: "answers \<Rightarrow> ptr \<Rightarrow> u64 \<Rightarrow> process \<Rightarrow> (ptr \<times> process) option" where
  "realloc_or_die os ptr s p =
     (if ptr \<noteq> NULL \<and> ptr \<notin> pr_heap p then None
      else (
        let q = p\<lparr>pr_heap := pr_heap p - {ptr}\<rparr>;
            new_ptr = os_malloc os s q
        in if new_ptr = NULL then ntt_die else Some (new_ptr, q\<lparr>pr_heap := insert new_ptr (pr_heap q)\<rparr>)))"

text \<open>Freeing what is not allocated is undefined, but for \<open>NULL\<close>.\<close>

definition ntt_free :: "ptr \<Rightarrow> process \<Rightarrow> process option" where
  "ntt_free ptr p =
     (if ptr \<in> pr_heap p then Some (p\<lparr>pr_heap := pr_heap p - {ptr}\<rparr>)
      else if ptr = NULL then Some p else None)"

section \<open>Descriptors\<close>

definition os_open :: "answers \<Rightarrow> descr \<Rightarrow> process \<Rightarrow> int \<times> process" where
  "os_open os d p = (
     let fd = (if pr_fds p (an_open os d p) = None then an_open os d p else -1)
     in (fd, if fd = -1 then p else p\<lparr>pr_fds := (pr_fds p)(fd \<mapsto> d)\<rparr>))"

definition epoll_create_or_abort :: "answers \<Rightarrow> process \<Rightarrow> (int \<times> process) option" where
  "epoll_create_or_abort os p = (
     let (epoll_fd, p') = os_open os (EpollFd Map.empty) p
     in if epoll_fd = -1 then ntt_die else Some (epoll_fd, p'))"

definition ntt_eventfd_or_die :: "answers \<Rightarrow> u64 \<Rightarrow> process \<Rightarrow> (int \<times> process) option" where
  "ntt_eventfd_or_die os cnt p = (
     let (fd, p') = os_open os (CounterFd cnt) p
     in if fd = -1 then ntt_die else Some (fd, p'))"

text \<open>Closing takes the descriptor out of every epoll instance; closing what is not open fails and has no effect.\<close>

fun unwatch :: "int set \<Rightarrow> descr \<Rightarrow> descr" where
  "unwatch F (EpollFd m) = EpollFd (\<lambda>fd. if fd \<in> F then None else m fd)"
| "unwatch F d = d"

definition close_all :: "int set \<Rightarrow> process \<Rightarrow> process" where
  "close_all F p = p\<lparr>pr_fds := (\<lambda>fd. if fd \<in> F then None else map_option (unwatch F) (pr_fds p fd))\<rparr>"

definition os_close :: "int \<Rightarrow> process \<Rightarrow> process" where
  "os_close fd p = (if pr_fds p fd = None then p else close_all {fd} p)"

datatype epoll_op = EPOLL_CTL_ADD | EPOLL_CTL_DEL

text \<open>The result is \<open>-1\<close> for a failure: of the kernel, or with \<open>EBADF\<close>, \<open>EINVAL\<close>, \<open>EEXIST\<close> or \<open>ENOENT\<close>.\<close>

definition os_epoll_ctl :: "answers \<Rightarrow> int \<Rightarrow> epoll_op \<Rightarrow> int \<Rightarrow> u32 \<times> u64 \<Rightarrow> process \<Rightarrow> int \<times> process" where
  "os_epoll_ctl os epfd op fd event p = (case pr_fds p epfd of
     Some (EpollFd m) \<Rightarrow>
       if pr_fds p fd = None \<or> fd = epfd then (-1, p)
       else (case op of
          EPOLL_CTL_ADD \<Rightarrow>
            if m fd \<noteq> None \<or> \<not> an_epoll_add os epfd fd p then (-1, p)
            else (0, p\<lparr>pr_fds := (pr_fds p)(epfd \<mapsto> EpollFd (m(fd \<mapsto> event)))\<rparr>)
        | EPOLL_CTL_DEL \<Rightarrow>
            if m fd = None then (-1, p)
            else (0, p\<lparr>pr_fds := (pr_fds p)(epfd \<mapsto> EpollFd (m(fd := None)))\<rparr>))
   | _ \<Rightarrow> (-1, p))"

definition ntt_epoll_ctl_or_die :: "answers \<Rightarrow> int \<Rightarrow> epoll_op \<Rightarrow> int \<Rightarrow> u32 \<times> u64 \<Rightarrow> process \<Rightarrow> process option" where
  "ntt_epoll_ctl_or_die os epfd op fd event p = (
     let (rc, p') = os_epoll_ctl os epfd op fd event p
     in if rc = -1 then ntt_die else Some p')"

text \<open>A write that would reach the largest value fails, the descriptor being non blocking.\<close>

definition eventfd_write :: "int \<Rightarrow> u64 \<Rightarrow> process \<Rightarrow> process" where
  "eventfd_write fd value p = (case pr_fds p fd of
     Some (CounterFd n) \<Rightarrow>
       if unat n + unat value < 2 ^ 64 - 1 then p\<lparr>pr_fds := (pr_fds p)(fd \<mapsto> CounterFd (n + value))\<rparr> else p
   | _ \<Rightarrow> p)"

text \<open>Reading one from a semaphore; with the counter at zero it fails with \<open>EAGAIN\<close>.\<close>

definition eventfd_read :: "int \<Rightarrow> process \<Rightarrow> process" where
  "eventfd_read fd p = (case pr_fds p fd of
     Some (CounterFd n) \<Rightarrow> if n = 0 then p else p\<lparr>pr_fds := (pr_fds p)(fd \<mapsto> CounterFd (n - 1))\<rparr>
   | _ \<Rightarrow> p)"

section \<open>Locks and threads\<close>

text \<open>Initialising what is initialised, and destroying what is not, are undefined.\<close>

definition sync_init :: "ptr \<times> sync_obj \<Rightarrow> process \<Rightarrow> process option" where
  "sync_init obj p = (if obj \<in> pr_sync p then None else Some (p\<lparr>pr_sync := insert obj (pr_sync p)\<rparr>))"

definition sync_destroy :: "ptr \<times> sync_obj \<Rightarrow> process \<Rightarrow> process option" where
  "sync_destroy obj p = (if obj \<in> pr_sync p then Some (p\<lparr>pr_sync := pr_sync p - {obj}\<rparr>) else None)"

definition ntt_pthread_mutex_init_or_die :: "answers \<Rightarrow> ptr \<Rightarrow> process \<Rightarrow> process option" where
  "ntt_pthread_mutex_init_or_die os self p = (if an_init os LoopMutex p then sync_init (self, LoopMutex) p else ntt_die)"

definition ntt_pthread_cond_init_or_die :: "answers \<Rightarrow> ptr \<Rightarrow> process \<Rightarrow> process option" where
  "ntt_pthread_cond_init_or_die os self p = (if an_init os LoopCond p then sync_init (self, LoopCond) p else ntt_die)"

definition ntt_pthread_create_or_die :: "answers \<Rightarrow> process \<Rightarrow> (u64 \<times> process) option" where
  "ntt_pthread_create_or_die os p = (case an_thread os p of
     None \<Rightarrow> ntt_die
   | Some t \<Rightarrow> if t \<in> pr_threads p then ntt_die else Some (t, p\<lparr>pr_threads := insert t (pr_threads p)\<rparr>))"

definition pthread_join :: "u64 \<Rightarrow> process \<Rightarrow> process option" where
  "pthread_join t p = (if t \<in> pr_threads p then Some (p\<lparr>pr_threads := pr_threads p - {t}\<rparr>) else None)"

section \<open>Resources that are given back\<close>

text \<open>
  What all of them have in common: \<open>held\<close> is what is there, a resource that is acquired is new, and \<open>strip\<close>, which takes
  resources away, undoes it. Then any number of them can be given back in any order.
\<close>

locale resources =
  fixes acquire :: "'s \<Rightarrow> ('r \<times> 's) option" and release :: "'r \<Rightarrow> 's \<Rightarrow> 's option"
    and held :: "'s \<Rightarrow> 'r set" and strip :: "'r set \<Rightarrow> 's \<Rightarrow> 's"
  assumes acquired: "acquire s = Some (r, s') \<Longrightarrow> r \<notin> held s \<and> held s' = insert r (held s) \<and> strip {r} s' = s"
    and released: "r \<in> held s \<Longrightarrow> release r s = Some (strip {r} s)"
    and strip_held: "held (strip A s) = held s - A"
    and strip_strip: "strip A (strip B s) = strip (A \<union> B) s"
    and strip_none: "strip {} s = s"
begin

primrec acquire_list :: "nat \<Rightarrow> 's \<Rightarrow> ('r list \<times> 's) option" where
  "acquire_list 0 s = Some ([], s)"
| "acquire_list (Suc n) s = do {
     (r, s') \<leftarrow> acquire s;
     (rs, s'') \<leftarrow> acquire_list n s';
     Some (r # rs, s'')
   }"

primrec release_list :: "'r list \<Rightarrow> 's \<Rightarrow> 's option" where
  "release_list [] s = Some s"
| "release_list (r # rs) s = do {
     s' \<leftarrow> release r s;
     release_list rs s'
   }"

lemma acquire_list_held:
  assumes "acquire_list n s = Some (rs, s')"
  shows "distinct rs \<and> length rs = n \<and> set rs \<inter> held s = {} \<and> held s' = set rs \<union> held s \<and> strip (set rs) s' = s"
  using assms
proof (induction n arbitrary: s rs)
  case (Suc n)
  then obtain r s1 rs1 where r: "acquire s = Some (r, s1)" "acquire_list n s1 = Some (rs1, s')" "rs = r # rs1"
    by (auto split: bind_splits)
  have "strip (set rs) s' = strip {r} (strip (set rs1) s')" by (simp add: strip_strip r(3))
  then show ?case using Suc.IH [OF r(2)] acquired [OF r(1)] r(3) by auto
qed (simp add: strip_none)

lemma release_list_held: "distinct rs \<Longrightarrow> set rs \<subseteq> held s \<Longrightarrow> release_list rs s = Some (strip (set rs) s)"
proof (induction rs arbitrary: s)
  case (Cons r rs)
  have "set rs \<subseteq> held (strip {r} s)" using Cons.prems by (auto simp: strip_held)
  then show ?case using Cons released [of r s] by (simp add: strip_strip Un_commute)
qed (simp add: strip_none)

lemma given_back:
  assumes "acquire_list n s = Some (rs, s')" "mset rs' = mset rs"
  shows "release_list rs' s' = Some s"
proof -
  have "distinct rs'" "set rs' = set rs"
    using acquire_list_held [OF assms(1)] assms(2) by (metis mset_eq_imp_distinct_iff, metis mset_eq_setD)
  then show ?thesis using acquire_list_held [OF assms(1)] release_list_held [of rs' s'] by auto
qed

end

text \<open>Threads, and blocks of memory.\<close>

definition strip_threads :: "u64 set \<Rightarrow> process \<Rightarrow> process" where
  "strip_threads T p = p\<lparr>pr_threads := pr_threads p - T\<rparr>"

definition strip_heap :: "ptr set \<Rightarrow> process \<Rightarrow> process" where
  "strip_heap A p = p\<lparr>pr_heap := pr_heap p - A\<rparr>"

lemma diff_diff: "X - B - A = X - (A \<union> B)"
  by blast

interpretation threads: resources "ntt_pthread_create_or_die os" pthread_join pr_threads strip_threads for os
  by unfold_locales
    (auto simp: ntt_pthread_create_or_die_def ntt_die_def pthread_join_def strip_threads_def diff_diff split: option.splits if_splits)

interpretation blocks: resources "ntt_malloc_or_die os n" ntt_free pr_heap strip_heap for os n
  by unfold_locales (auto simp: ntt_malloc_or_die_def os_malloc_def ntt_die_def ntt_free_def strip_heap_def diff_diff Let_def split: if_splits)

interpretation aligned_blocks: resources "ntt_aligned_or_die os al n" ntt_free pr_heap strip_heap for os al n
  by unfold_locales (auto simp: ntt_aligned_or_die_def os_aligned_def ntt_die_def ntt_free_def strip_heap_def diff_diff Let_def split: if_splits)

end
