(* ===== verification/Loop_Boot.thy ===== *)
theory Loop_Boot
  imports Process System Timer_Service Event
begin

text \<open>
  The start and the end of a loop with all that it takes from the operating system: \<open>ntt_loop_run\<close> but for the workers' running, and
  \<open>ntt_loop_destroy\<close> of \<open>src/src/loop.c\<close>, \<open>ntt_timer_service_init\<close> of \<open>src/src/timer_service.c\<close>, and \<open>ntt_event_open\<close> and
  \<open>ntt_queue_create_in\<close> as the start uses them. The objects in the slabs are the slots of \<open>Event\<close> and \<open>Queue\<close>.
\<close>

section \<open>The loop\<close>

definition EPOLLEXCLUSIVE :: u32 where
  "EPOLLEXCLUSIVE = push_bit 28 1"

text \<open>\<open>sizeof\<close> of the types that are allocated, which the platform determines.\<close>

record sizes =
  sz_loop :: u64
  sz_ctx :: u64
  sz_queue :: u64
  sz_event :: u64

text \<open>
  \<open>lb_elems\<close> is the address of the array of the registrations of the service, \<open>lb_events\<close> and \<open>lb_queues\<close> are the objects
  in the slabs, \<open>lb_threads\<close> the threads of the workers after the first.
\<close>

record loop_obj =
  lb_epoll_fd :: int
  lb_loop :: ntt_loop
  lb_combine :: ntt_combine
  lb_combine_eventfd :: int
  lb_combine_event :: u64
  lb_queue_slab :: ntt_slab
  lb_event_slab :: ntt_slab
  lb_service :: ntt_timer_service
  lb_elems :: ptr
  lb_timerfd :: int
  lb_timer_event :: u64
  lb_events :: "u32 \<Rightarrow> ntt_event"
  lb_queues :: "u32 \<Rightarrow> ntt_queue"
  lb_threads :: "u64 list"

section \<open>Slabs in memory\<close>

text \<open>Taking a slot allocates a block, aligned for a cache line, when the slot is the first one of it.\<close>

definition slab_aligned :: "answers \<Rightarrow> process \<Rightarrow> aligned_alloc" where
  "slab_aligned os p k n = map_option fst (ntt_aligned_or_die os 64 n p)"

definition slab_take :: "answers \<Rightarrow> ntt_slab \<Rightarrow> process \<Rightarrow> (ptr \<times> ntt_slab \<times> process) option" where
  "slab_take os slab p = do {
     (object, slab') \<leftarrow> ntt_slab_take (slab_aligned os p) slab;
     let added = set (drop (unat (sl_block_cnt slab)) (take (unat (sl_block_cnt slab')) (sl_blocks slab')));
     Some (object, slab', p\<lparr>pr_heap := added \<union> pr_heap p\<rparr>)
   }"

definition slab_blocks :: "ntt_slab \<Rightarrow> ptr list" where
  "slab_blocks slab = take (unat (sl_block_cnt slab)) (sl_blocks slab)"

fun free_blocks :: "ptr list \<Rightarrow> process \<Rightarrow> process option" where
  "free_blocks [] p = Some p"
| "free_blocks (a # as) p = do {
     p' \<leftarrow> ntt_free a p;
     free_blocks as p'
   }"

section \<open>The descriptors of the loop\<close>

definition ntt_loop_epoll_add :: "answers \<Rightarrow> loop_obj \<Rightarrow> int \<Rightarrow> u32 \<times> u64 \<Rightarrow> process \<Rightarrow> process option" where
  "ntt_loop_epoll_add os self fd event p = ntt_epoll_ctl_or_die os (lb_epoll_fd self) EPOLL_CTL_ADD fd event p"

definition ntt_loop_epoll_del :: "answers \<Rightarrow> loop_obj \<Rightarrow> int \<Rightarrow> process \<Rightarrow> process option" where
  "ntt_loop_epoll_del os self fd p = ntt_epoll_ctl_or_die os (lb_epoll_fd self) EPOLL_CTL_DEL fd (0, 0) p"

text \<open>
  The calls that opening an event makes into the loop, from the log of \<open>ntt_event_open\<close>; the references of the queues it
  names are in \<open>Queue\<close>.
\<close>

fun open_calls :: "env \<Rightarrow> answers \<Rightarrow> int \<Rightarrow> ev_log list \<Rightarrow> loop_obj \<Rightarrow> process \<Rightarrow> (loop_obj \<times> process) option" where
  "open_calls env os fd [] self p = Some (self, p)"
| "open_calls env os fd (LSlabTake # log) self p = open_calls env os fd log self p"
| "open_calls env os fd (LQueueAcquire side # log) self p = open_calls env os fd log self p"
| "open_calls env os fd (LWorkEnter # log) self p = do {
     loop \<leftarrow> ntt_loop_work_enter env (lb_loop self);
     open_calls env os fd log (self\<lparr>lb_loop := loop\<rparr>) p
   }"
| "open_calls env os fd (LEpollAdd handle events # log) self p = do {
     p' \<leftarrow> ntt_loop_epoll_add os self fd (events, handle) p;
     open_calls env os fd log self p'
   }"
| "open_calls env os fd (e # log) self p = None"

text \<open>\<open>ntt_event_open\<close> with the slab and the epoll instance of the loop; the handle is the result.\<close>

definition loop_event_open ::
    "env \<Rightarrow> answers \<Rightarrow> int \<Rightarrow> ntt_event_params \<Rightarrow> u32 \<Rightarrow> u8 \<Rightarrow> loop_obj \<Rightarrow> process \<Rightarrow> (u64 \<times> loop_obj \<times> process) option" where
  "loop_event_open env os fd params events flags self p = do {
     (object, slab, p1) \<leftarrow> slab_take os (lb_event_slab self) p;
     index \<leftarrow> ntt_slab_index slab object;
     generation \<leftarrow> ntt_slab_generation slab object;
     let slot = (lb_events self index)\<lparr>ev_index := index, ev_generation := generation\<rparr>;
     let (event, log) = ntt_event_open slot params events flags;
     (self2, p2) \<leftarrow> open_calls env os fd log
       (self\<lparr>lb_event_slab := slab, lb_events := (lb_events self)(index := event)\<rparr>) p1;
     Some (ev_handle event, self2, p2)
   }"

text \<open>The two events the loop owns: readable, without queues and without cancelled callbacks.\<close>

definition own_params :: ntt_event_params where
  "own_params = \<lparr>pa_readable = True, pa_writable = False, pa_rc = False, pa_wc = False,
     pa_interest = interest_bits NTT_INTEREST_READABLE, pa_read_queue = False, pa_write_queue = False, pa_same_loop = True\<rparr>"

definition timer_service_open :: "env \<Rightarrow> answers \<Rightarrow> ptr \<Rightarrow> loop_obj \<Rightarrow> process \<Rightarrow> (loop_obj \<times> process) option" where
  "timer_service_open env os addr self p = do {
     p1 \<leftarrow> sync_init (addr, ServiceLock) p;
     let (fd, p2) = os_open os TimerFd p1;
     (if fd = -1 then ntt_die else Some ());
     let self1 = self\<lparr>lb_service := ntt_timer_service_init, lb_elems := NULL, lb_timerfd := fd\<rparr>;
     (handle, self2, p3) \<leftarrow> loop_event_open env os fd own_params (EPOLLIN OR EPOLLET OR EPOLLEXCLUSIVE) 0 self1 p2;
     Some (self2\<lparr>lb_timer_event := handle\<rparr>, p3)
   }"

section \<open>The first queue\<close>

text \<open>
  The combine became non-empty; \<open>ts_loop\<close> is the loop of the calling thread.
\<close>

definition combine_wakeup :: "ptr \<Rightarrow> ptr \<Rightarrow> loop_obj \<Rightarrow> process \<Rightarrow> process" where
  "combine_wakeup ts_loop addr self p = (if ts_loop \<noteq> addr then eventfd_write (lb_combine_eventfd self) 1 p else p)"

definition queue_create_in :: "env \<Rightarrow> answers \<Rightarrow> ptr \<Rightarrow> loop_obj \<Rightarrow> process \<Rightarrow> (u32 \<times> loop_obj \<times> process) option" where
  "queue_create_in env os addr self p = do {
     (object, slab, p1) \<leftarrow> slab_take os (lb_queue_slab self) p;
     index \<leftarrow> ntt_slab_index slab object;
     p2 \<leftarrow> sync_init (addr, QueueLock index) p1;
     loop \<leftarrow> ntt_loop_work_enter env (lb_loop self);
     Some (index, self\<lparr>lb_queue_slab := slab, lb_loop := loop,
       lb_queues := (lb_queues self)(index := fst (ntt_queue_create_in (lb_queues self index)))\<rparr>, p2)
   }"

definition queue_push_task :: "env \<Rightarrow> ptr \<Rightarrow> ptr \<Rightarrow> u32 \<Rightarrow> ptr \<Rightarrow> loop_obj \<Rightarrow> process \<Rightarrow> (loop_obj \<times> process) option" where
  "queue_push_task env ts_loop addr i task self p = do {
     (was_empty, q) \<leftarrow> ntt_queue_push_task_without_wakeup env (lb_queues self i) task;
     let self1 = self\<lparr>lb_queues := (lb_queues self)(i := q)\<rparr>;
     if was_empty then do {
       q1 \<leftarrow> ntt_queue_acquire env q;
       (wakeup, combine) \<leftarrow> ntt_combine_push env (\<not> ntt_queue_empty q1) (lb_combine self1) (unat i);
       q2 \<leftarrow> queue_combine_push env q1;
       let self2 = self1\<lparr>lb_combine := combine, lb_queues := (lb_queues self1)(i := q2)\<rparr>;
       Some (self2, if wakeup then combine_wakeup ts_loop addr self2 p else p)
     } else Some (self1, p)
   }"

text \<open>
  Dropping a reference. With the last one the lock of the queue is destroyed, its slot is given back and the loop
  has a work less; who is woken when that was the last is in \<open>Loop\<close>.
\<close>

definition queue_drop :: "env \<Rightarrow> ptr \<Rightarrow> u32 \<Rightarrow> loop_obj \<Rightarrow> process \<Rightarrow> (loop_obj \<times> process) option" where
  "queue_drop env addr i self p = do {
     (q, log) \<leftarrow> ntt_queue_release env (lb_queues self i);
     let self1 = self\<lparr>lb_queues := (lb_queues self)(i := q)\<rparr>;
     (if log = [] then Some (self1, p)
      else do {
        p1 \<leftarrow> sync_destroy (addr, QueueLock i) p;
        slab \<leftarrow> ntt_slab_give env (lb_queue_slab self1) i;
        (last, loop) \<leftarrow> work_drop env (lb_loop self1);
        Some (self1\<lparr>lb_queue_slab := slab, lb_loop := loop\<rparr>, p1)
      })
   }"

text \<open>Dropping the work: if it were the last, the workers would be released, none of which has entered.\<close>

definition boot_work_leave :: "env \<Rightarrow> loop_obj \<Rightarrow> loop_obj option" where
  "boot_work_leave env self = do {
     (last, loop) \<leftarrow> work_drop env (lb_loop self);
     (if last then ntt_assert env False else Some ());
     Some (self\<lparr>lb_loop := loop\<rparr>)
   }"

section \<open>Threads\<close>

fun start_threads :: "answers \<Rightarrow> nat \<Rightarrow> process \<Rightarrow> (u64 list \<times> process) option" where
  "start_threads os 0 p = Some ([], p)"
| "start_threads os (Suc n) p = do {
     (t, p1) \<leftarrow> ntt_pthread_create_or_die os p;
     (ts, p2) \<leftarrow> start_threads os n p1;
     Some (t # ts, p2)
   }"

fun join_threads :: "u64 list \<Rightarrow> process \<Rightarrow> process option" where
  "join_threads [] p = Some p"
| "join_threads (t # ts) p = do {
     p1 \<leftarrow> pthread_join t p;
     join_threads ts p1
   }"

section \<open>\<open>ntt_loop_run\<close>\<close>

text \<open>Up to the opening of the events: the fields of a loop that has nothing in it yet.\<close>

definition loop_fields :: "sizes \<Rightarrow> u32 \<Rightarrow> int \<Rightarrow> int \<Rightarrow> (u32 \<Rightarrow> ntt_event) \<Rightarrow> (u32 \<Rightarrow> ntt_queue) \<Rightarrow> loop_obj" where
  "loop_fields sz width epoll_fd eventfd events queues =
     \<lparr>lb_epoll_fd = epoll_fd,
      lb_loop = \<lparr>lo_work_cnt = 1, lo_enter_cnt = 0, lo_width = width, lo_entered = replicate (unat width) False\<rparr>,
      lb_combine = ntt_combine_init_with_wakeup, lb_combine_eventfd = eventfd, lb_combine_event = 0,
      lb_queue_slab = ntt_slab_init (sz_queue sz), lb_event_slab = ntt_slab_init (sz_event sz),
      lb_service = ntt_timer_service_init, lb_elems = NULL, lb_timerfd = -1, lb_timer_event = 0,
      lb_events = events, lb_queues = queues, lb_threads = []\<rparr>"

definition loop_alloc ::
    "answers \<Rightarrow> sizes \<Rightarrow> u32 \<Rightarrow> (u32 \<Rightarrow> ntt_event) \<Rightarrow> (u32 \<Rightarrow> ntt_queue) \<Rightarrow> process \<Rightarrow> (ptr \<times> loop_obj \<times> process) option" where
  "loop_alloc os sz width events queues p = do {
     (addr, p1) \<leftarrow> ntt_malloc_or_die os (sz_loop sz + sz_ctx sz * ucast width) p;
     (epoll_fd, p2) \<leftarrow> epoll_create_or_abort os p1;
     p3 \<leftarrow> ntt_pthread_mutex_init_or_die os addr p2;
     p4 \<leftarrow> ntt_pthread_cond_init_or_die os addr p3;
     p5 \<leftarrow> sync_init (addr, CombineLock) p4;
     (eventfd, p6) \<leftarrow> ntt_eventfd_or_die os 0 p5;
     p7 \<leftarrow> sync_init (addr, QueueSlabLock) p6;
     p8 \<leftarrow> sync_init (addr, EventSlabLock) p7;
     Some (addr, loop_fields sz width epoll_fd eventfd events queues, p8)
   }"

text \<open>
  Up to the first queue; \<open>events\<close> and \<open>queues\<close> are what the memory of the slabs holds before it is used.
\<close>

definition loop_open ::
    "env \<Rightarrow> answers \<Rightarrow> sizes \<Rightarrow> u32 \<Rightarrow> (u32 \<Rightarrow> ntt_event) \<Rightarrow> (u32 \<Rightarrow> ntt_queue) \<Rightarrow> process \<Rightarrow> (ptr \<times> loop_obj \<times> process) option" where
  "loop_open env os sz width events queues p = do {
     (addr, self1, p1) \<leftarrow> loop_alloc os sz width events queues p;
     (handle, self2, p2) \<leftarrow> loop_event_open env os (lb_combine_eventfd self1) own_params (EPOLLIN OR EPOLLEXCLUSIVE) 0 self1 p1;
     (self3, p3) \<leftarrow> timer_service_open env os addr (self2\<lparr>lb_combine_event := handle\<rparr>) p2;
     Some (addr, self3, p3)
   }"

text \<open>Up to the start of the workers.\<close>

definition loop_boot ::
    "env \<Rightarrow> answers \<Rightarrow> sizes \<Rightarrow> ptr \<Rightarrow> ptr \<Rightarrow> u32 \<Rightarrow> (u32 \<Rightarrow> ntt_event) \<Rightarrow> (u32 \<Rightarrow> ntt_queue) \<Rightarrow> process \<Rightarrow>
     (ptr \<times> loop_obj \<times> process) option" where
  "loop_boot env os sz ts_loop task width events queues p = do {
     let width = ntt_loop_clamp_width width;
     (addr, self, p1) \<leftarrow> loop_open env os sz width events queues p;
     (queue, self1, p2) \<leftarrow> queue_create_in env os addr self p1;
     (self2, p3) \<leftarrow> queue_push_task env ts_loop addr queue task self1 p2;
     (self3, p4) \<leftarrow> queue_drop env addr queue self2 p3;
     self4 \<leftarrow> boot_work_leave env self3;
     (threads, p5) \<leftarrow> start_threads os (unat width - 1) p4;
     Some (addr, self4\<lparr>lb_threads := threads\<rparr>, p5)
   }"

definition loop_destroy :: "env \<Rightarrow> ptr \<Rightarrow> loop_obj \<Rightarrow> process \<Rightarrow> process option" where
  "loop_destroy env addr self p = do {
     service \<leftarrow> ntt_timer_service_deinit env (lb_service self) (lb_queue_slab self);
     p0 \<leftarrow> ntt_free (lb_elems self) (os_close (lb_timerfd self) p);
     p1 \<leftarrow> sync_destroy (addr, ServiceLock) p0;
     p2 \<leftarrow> free_blocks (slab_blocks (lb_queue_slab self)) p1;
     p3 \<leftarrow> sync_destroy (addr, QueueSlabLock) p2;
     p4 \<leftarrow> free_blocks (slab_blocks (lb_event_slab self)) p3;
     p5 \<leftarrow> sync_destroy (addr, EventSlabLock) p4;
     ntt_combine_deinit env (lb_combine self);
     p6 \<leftarrow> sync_destroy (addr, CombineLock) p5;
     let p7 = os_close (lb_epoll_fd self) (os_close (lb_combine_eventfd self) p6);
     p8 \<leftarrow> sync_destroy (addr, LoopCond) p7;
     sync_destroy (addr, LoopMutex) p8
   }"

text \<open>What is left to do when the first worker has come back.\<close>

definition loop_end :: "env \<Rightarrow> ptr \<Rightarrow> loop_obj \<Rightarrow> process \<Rightarrow> process option" where
  "loop_end env addr self p = do {
     p1 \<leftarrow> join_threads (lb_threads self) p;
     p2 \<leftarrow> loop_destroy env addr self p1;
     ntt_free addr p2
   }"

end
