(* ===== verification/Loop_Boot_Inv.thy ===== *)
theory Loop_Boot_Inv
  imports Loop_Boot
begin

text \<open>What every part of the start of a loop does, and when it returns.\<close>

section \<open>The slabs\<close>

text \<open>A slab with one block, of which the first \<open>n\<close> slots have been taken once, and none been given back.\<close>

definition slab_with :: "u32 \<Rightarrow> ptr \<Rightarrow> nat \<Rightarrow> ntt_slab" where
  "slab_with stride base n =
     \<lparr>sl_blocks = base # replicate 26 NULL, sl_size = of_nat n, sl_stride = stride, sl_block_cnt = 1, sl_free_head = NTT_SLAB_NONE,
      sl_mem = (\<lambda>a. if a = base \<and> 0 < n then Some \<lparr>sh_generation = 1, sh_index = 0, sh_next_free = None\<rparr>
        else if a = base + ucast stride \<and> 1 < n then Some \<lparr>sh_generation = 1, sh_index = 1, sh_next_free = None\<rparr> else None)\<rparr>"

lemma ucast_up_zero: "(ucast (x :: u32) :: u64) = 0 \<longleftrightarrow> x = 0"
  by (metis unat_ucast64 unat_eq_zero)

lemma first_take:
  "slab_take os (ntt_slab_init sz) p = (
     let stride = sl_stride (ntt_slab_init sz); base = os_aligned os 64 (ucast stride * 64) p
     in if base = NULL then None else Some (base, slab_with stride base 1, p\<lparr>pr_heap := insert base (pr_heap p)\<rparr>))"
proof -
  have blocks: "replicate 27 NULL = NULL # replicate 26 NULL" by (simp only: numeral_eq_Suc pred_numeral_simps replicate_Suc)
  show ?thesis
    by (simp add: slab_take_def ntt_slab_take_def slab_add_block_def ntt_slab_init_def blocks Let_def slab_consts slab_aligned_def
        ntt_aligned_or_die_def ntt_die_def ntt_slab_fresh_at_def slab_block_base_def slab_with_def fun_eq_iff)
qed

lemma second_take:
  assumes "stride \<noteq> 0"
  shows "slab_take os (slab_with stride base 1) p = Some (base + ucast stride, slab_with stride base 2, p)"
proof -
  have s: "(ucast stride :: u64) \<noteq> 0" using assms ucast_up_zero by blast
  show ?thesis using s
    by (simp add: slab_take_def ntt_slab_take_def slab_add_block_def slab_with_def Let_def slab_consts
        ntt_slab_fresh_at_def slab_block_base_def fun_eq_iff)
qed

lemma slab_with_heads:
  "ntt_slab_index (slab_with stride base 1) base = Some 0" "ntt_slab_generation (slab_with stride base 1) base = Some 1"
  by (simp_all add: slab_with_def ntt_slab_index_def ntt_slab_generation_def)

lemma slab_with_heads2:
  assumes "stride \<noteq> 0"
  shows "ntt_slab_index (slab_with stride base 2) (base + ucast stride) = Some 1"
    "ntt_slab_generation (slab_with stride base 2) (base + ucast stride) = Some 1"
proof -
  have "(ucast stride :: u64) \<noteq> 0" using assms ucast_up_zero by blast
  then show "ntt_slab_index (slab_with stride base 2) (base + ucast stride) = Some 1"
    "ntt_slab_generation (slab_with stride base 2) (base + ucast stride) = Some 1"
    by (simp_all add: slab_with_def ntt_slab_index_def ntt_slab_generation_def)
qed

lemma slab_with_blocks: "slab_blocks (slab_with stride base n) = [base]"
  by (simp add: slab_blocks_def slab_with_def)

section \<open>The fields and the first descriptors\<close>

definition alloc_sync :: "ptr \<Rightarrow> (ptr \<times> sync_obj) set" where
  "alloc_sync addr = {addr} \<times> {LoopMutex, LoopCond, CombineLock, QueueSlabLock, EventSlabLock}"

lemma fresh_sync: "process_ok p \<Longrightarrow> addr \<notin> pr_heap p \<Longrightarrow> (addr, obj) \<notin> pr_sync p"
  by (auto simp: process_ok_def)

lemma os_malloc_fresh: "os_malloc os s p \<noteq> NULL \<Longrightarrow> os_malloc os s p \<notin> pr_heap p" "os_aligned os al s p \<noteq> NULL \<Longrightarrow> os_aligned os al s p \<notin> pr_heap p"
  by (auto simp: os_malloc_def os_aligned_def Let_def split: if_splits)

lemma malloc_some: "ntt_malloc_or_die os s p = Some (a, p') \<longleftrightarrow>
    a = os_malloc os s p \<and> a \<noteq> NULL \<and> p' = p\<lparr>pr_heap := insert a (pr_heap p)\<rparr>"
  by (auto simp: ntt_malloc_or_die_def ntt_die_def Let_def)

lemma open_some:
  assumes "os_open os d p = (fd, p')" "fd \<noteq> -1"
  shows "pr_fds p fd = None" "p' = p\<lparr>pr_fds := (pr_fds p)(fd \<mapsto> d)\<rparr>"
  using assms by (auto simp: os_open_def Let_def split: if_splits)

lemma epoll_create_some:
  assumes "epoll_create_or_abort os p = Some (fd, p')"
  shows "fd \<noteq> -1" "pr_fds p fd = None" "p' = p\<lparr>pr_fds := (pr_fds p)(fd \<mapsto> EpollFd Map.empty)\<rparr>"
  using assms open_some [of os "EpollFd Map.empty" p fd p']
  by (auto simp: epoll_create_or_abort_def ntt_die_def Let_def split: prod.splits if_splits)

lemma eventfd_some:
  assumes "ntt_eventfd_or_die os n p = Some (fd, p')"
  shows "fd \<noteq> -1" "pr_fds p fd = None" "p' = p\<lparr>pr_fds := (pr_fds p)(fd \<mapsto> CounterFd n)\<rparr>"
  using assms open_some [of os "CounterFd n" p fd p']
  by (auto simp: ntt_eventfd_or_die_def ntt_die_def Let_def split: prod.splits if_splits)

lemma init_some:
  "ntt_pthread_mutex_init_or_die os a p = Some p' \<Longrightarrow> p' = p\<lparr>pr_sync := insert (a, LoopMutex) (pr_sync p)\<rparr>"
  "ntt_pthread_cond_init_or_die os a p = Some p' \<Longrightarrow> p' = p\<lparr>pr_sync := insert (a, LoopCond) (pr_sync p)\<rparr>"
  "sync_init obj p = Some p' \<Longrightarrow> p' = p\<lparr>pr_sync := insert obj (pr_sync p)\<rparr>"
  by (auto simp: ntt_pthread_mutex_init_or_die_def ntt_pthread_cond_init_or_die_def sync_init_def ntt_die_def split: if_splits)

lemma loop_alloc_shape:
  assumes "loop_alloc os sz width events queues p = Some (addr, self, p')"
  obtains e c where "addr \<noteq> NULL" "addr \<notin> pr_heap p" "e \<noteq> -1" "c \<noteq> -1" "e \<noteq> c" "pr_fds p e = None" "pr_fds p c = None"
    "self = loop_fields sz width e c events queues"
    "p' = p\<lparr>pr_heap := insert addr (pr_heap p), pr_fds := (pr_fds p)(e \<mapsto> EpollFd Map.empty, c \<mapsto> CounterFd 0),
       pr_sync := alloc_sync addr \<union> pr_sync p\<rparr>"
proof -
  from assms obtain p1 e p2 p3 p4 p5 c p6 p7 where
    st: "ntt_malloc_or_die os (sz_loop sz + sz_ctx sz * ucast width) p = Some (addr, p1)"
    "epoll_create_or_abort os p1 = Some (e, p2)" "ntt_pthread_mutex_init_or_die os addr p2 = Some p3"
    "ntt_pthread_cond_init_or_die os addr p3 = Some p4" "sync_init (addr, CombineLock) p4 = Some p5"
    "ntt_eventfd_or_die os 0 p5 = Some (c, p6)" "sync_init (addr, QueueSlabLock) p6 = Some p7"
    "sync_init (addr, EventSlabLock) p7 = Some p'" and self: "self = loop_fields sz width e c events queues"
    unfolding loop_alloc_def by (auto split: bind_splits)
  have a: "addr \<noteq> NULL" "addr \<notin> pr_heap p" "p1 = p\<lparr>pr_heap := insert addr (pr_heap p)\<rparr>"
    using st(1) os_malloc_fresh by (auto simp: malloc_some)
  note e = epoll_create_some [OF st(2)] and c = eventfd_some [OF st(6)]
  note ps = init_some(1) [OF st(3)] init_some(2) [OF st(4)] init_some(3) [OF st(5)] init_some(3) [OF st(7)] init_some(3) [OF st(8)]
  have p5: "pr_fds p5 = (pr_fds p)(e \<mapsto> EpollFd Map.empty)" using ps e a by simp
  have "e \<noteq> c" "pr_fds p c = None" using c(2) by (auto simp: p5 split: if_splits)
  moreover have "p' = p\<lparr>pr_heap := insert addr (pr_heap p), pr_fds := (pr_fds p)(e \<mapsto> EpollFd Map.empty, c \<mapsto> CounterFd 0),
       pr_sync := alloc_sync addr \<union> pr_sync p\<rparr>"
    by (simp add: ps c(3) e(3) a(3) alloc_sync_def insert_Times_insert insert_commute)
  ultimately show thesis using that [OF a(1,2)] e(1,2) c(1) self a(3) by simp
qed

section \<open>The events the loop owns\<close>

text \<open>An event of the loop in slot \<open>i\<close>, in its first generation.\<close>

definition own_event :: "u32 \<Rightarrow> ntt_event \<Rightarrow> ntt_event" where
  "own_event i slot = slot\<lparr>ev_index := i, ev_generation := 1, ev_open := True, ev_read_queue := False, ev_write_queue := False,
     ev_rc := False, ev_wc := False, ev_interest := 1, ev_flags := 0, ev_state := 0, ev_refs := 1\<rparr>"

definition own_handle :: "u32 \<Rightarrow> u64" where
  "own_handle i = ntt_event_handle_of i 1"

lemma own_event_open: "ntt_event_open (slot\<lparr>ev_index := i, ev_generation := 1\<rparr>) own_params events 0 =
    (own_event i slot, [LSlabTake, LEpollAdd (own_handle i) events])"
  by (simp add: ntt_event_open_def own_params_def own_event_def own_handle_def ev_handle_def ev_queue_def Let_def)

lemma epoll_add_some:
  assumes "ntt_loop_epoll_add os self fd event p = Some p'"
  obtains m where "pr_fds p (lb_epoll_fd self) = Some (EpollFd m)" "fd \<noteq> lb_epoll_fd self"
    "p' = p\<lparr>pr_fds := (pr_fds p)(lb_epoll_fd self \<mapsto> EpollFd (m(fd \<mapsto> event)))\<rparr>"
  using assms by (auto simp: ntt_loop_epoll_add_def ntt_epoll_ctl_or_die_def os_epoll_ctl_def ntt_die_def split: option.splits descr.splits if_splits)

lemma own_open_shape:
  assumes take: "slab_take os (lb_event_slab self) p = Some (obj, slab, p1)"
    and head: "ntt_slab_index slab obj = Some i" "ntt_slab_generation slab obj = Some 1"
    and st: "loop_event_open env os fd own_params events 0 self p = Some (handle, self', p')"
  obtains m where "pr_fds p1 (lb_epoll_fd self) = Some (EpollFd m)" "fd \<noteq> lb_epoll_fd self" "handle = own_handle i"
    "p' = p1\<lparr>pr_fds := (pr_fds p1)(lb_epoll_fd self \<mapsto> EpollFd (m(fd \<mapsto> (events, own_handle i))))\<rparr>"
    "self' = self\<lparr>lb_event_slab := slab, lb_events := (lb_events self)(i := own_event i (lb_events self i))\<rparr>"
proof -
  let ?self = "self\<lparr>lb_event_slab := slab, lb_events := (lb_events self)(i := own_event i (lb_events self i))\<rparr>"
  have "ev_handle (own_event i slot) = own_handle i" for slot by (simp add: own_event_def own_handle_def ev_handle_def)
  then have "ntt_loop_epoll_add os ?self fd (events, own_handle i) p1 = Some p'" "handle = own_handle i" "self' = ?self"
    using st take head by (auto simp: loop_event_open_def own_event_open split: bind_splits)
  then show thesis using that by (auto elim!: epoll_add_some)
qed

lemma service_open_shape:
  assumes slab: "lb_event_slab self = slab_with stride base 1" "stride \<noteq> 0"
    and st: "timer_service_open env os addr self p = Some (self', p')"
  obtains t m where "t \<noteq> -1" "pr_fds p t = None" "t \<noteq> lb_epoll_fd self" "pr_fds p (lb_epoll_fd self) = Some (EpollFd m)"
    "p' = p\<lparr>pr_fds := (pr_fds p)(t \<mapsto> TimerFd, lb_epoll_fd self \<mapsto> EpollFd (m(t \<mapsto> (EPOLLIN OR EPOLLET OR EPOLLEXCLUSIVE, own_handle 1)))),
       pr_sync := insert (addr, ServiceLock) (pr_sync p)\<rparr>"
    "self' = self\<lparr>lb_event_slab := slab_with stride base 2, lb_service := ntt_timer_service_init, lb_elems := NULL, lb_timerfd := t, lb_timer_event := own_handle 1,
       lb_events := (lb_events self)(1 := own_event 1 (lb_events self 1))\<rparr>"
proof -
  from st obtain p1 t p2 handle self2 where
    a: "sync_init (addr, ServiceLock) p = Some p1" "os_open os TimerFd p1 = (t, p2)" "t \<noteq> -1"
    "loop_event_open env os t own_params (EPOLLIN OR EPOLLET OR EPOLLEXCLUSIVE) 0
       (self\<lparr>lb_service := ntt_timer_service_init, lb_elems := NULL, lb_timerfd := t\<rparr>) p2 = Some (handle, self2, p')"
    "self' = self2\<lparr>lb_timer_event := handle\<rparr>"
    by (auto simp: timer_service_open_def ntt_die_def Let_def split: bind_splits prod.splits if_splits)
  note p1 = init_some(3) [OF a(1)] and p2 = open_some [OF a(2,3)]
  let ?self = "self\<lparr>lb_service := ntt_timer_service_init, lb_elems := NULL, lb_timerfd := t\<rparr>"
  have take: "slab_take os (lb_event_slab ?self) p2 = Some (base + ucast stride, slab_with stride base 2, p2)"
    using second_take [OF slab(2)] slab(1) by simp
  obtain m where m: "pr_fds p2 (lb_epoll_fd ?self) = Some (EpollFd m)" "t \<noteq> lb_epoll_fd ?self" "handle = own_handle 1"
    "p' = p2\<lparr>pr_fds := (pr_fds p2)(lb_epoll_fd ?self \<mapsto> EpollFd (m(t \<mapsto> (EPOLLIN OR EPOLLET OR EPOLLEXCLUSIVE, own_handle 1))))\<rparr>"
    "self2 = ?self\<lparr>lb_event_slab := slab_with stride base 2, lb_events := (lb_events ?self)(1 := own_event 1 (lb_events ?self 1))\<rparr>"
    by (rule own_open_shape [OF take slab_with_heads2 [OF slab(2)] a(4)])
  show thesis
    by (rule that [of t m]) (use a m p1 p2 in auto)
qed

section \<open>The first queue\<close>

text \<open>The queue that is linked in the combine and has one task; only the combine holds it.\<close>

definition first_queue :: "ptr \<Rightarrow> ntt_queue" where
  "first_queue task = \<lparr>qu_open = True, qu_external_refs = 1, qu_tasks = [task], qu_linked = True, qu_loop = True, qu_timers = 0, qu_timer_self_ref = False\<rparr>"

lemma queue_create_shape:
  assumes slab: "lb_queue_slab self = ntt_slab_init sz" and w: "lo_work_cnt (lb_loop self) = 1"
    and st: "queue_create_in env os addr self p = Some (i, self', p')"
  obtains base where "i = 0" "base \<noteq> NULL" "base \<notin> pr_heap p"
    "p' = p\<lparr>pr_heap := insert base (pr_heap p), pr_sync := insert (addr, QueueLock 0) (pr_sync p)\<rparr>"
    "self' = self\<lparr>lb_queue_slab := slab_with (sl_stride (ntt_slab_init sz)) base 1, lb_loop := (lb_loop self)\<lparr>lo_work_cnt := 2\<rparr>,
       lb_queues := (lb_queues self)(0 := fst (ntt_queue_create_in (lb_queues self 0)))\<rparr>"
proof -
  let ?st = "sl_stride (ntt_slab_init sz)"
  let ?b = "os_aligned os 64 (ucast ?st * 64) p"
  have b: "?b \<noteq> NULL" using st by (auto simp: queue_create_in_def slab first_take Let_def split: bind_splits if_splits)
  have "slab_take os (lb_queue_slab self) p = Some (?b, slab_with ?st ?b 1, p\<lparr>pr_heap := insert ?b (pr_heap p)\<rparr>)"
    using b by (simp add: slab first_take Let_def)
  then show thesis using st that [OF _ b os_malloc_fresh(2) [OF b]]
    by (auto simp: queue_create_in_def slab_with_heads ntt_loop_work_enter_def ntt_assert_def w dest!: init_some(3) simp del: One_nat_def
        split: bind_splits if_splits)
qed

lemma queue_push_first:
  assumes q: "lb_queues self 0 = fst (ntt_queue_create_in slot)" and c: "lb_combine self = ntt_combine_init_with_wakeup"
    and ts: "ts_loop \<noteq> addr" and fd: "pr_fds p (lb_combine_eventfd self) = Some (CounterFd 0)"
  shows "queue_push_task env ts_loop addr 0 task self p = Some
    (self\<lparr>lb_combine := ntt_combine_init_with_wakeup\<lparr>co_list := [0]\<rparr>, lb_queues := (lb_queues self)(0 := (first_queue task)\<lparr>qu_external_refs := 2\<rparr>)\<rparr>,
     p\<lparr>pr_fds := (pr_fds p)(lb_combine_eventfd self \<mapsto> CounterFd 1)\<rparr>)"
  using assms
  by (cases slot) (simp add: queue_push_task_def ntt_queue_create_in_def ntt_queue_init_def ntt_queue_push_task_without_wakeup_def ntt_assert_def
      ntt_queue_acquire_def ntt_queue_use_count_def ntt_combine_push_def ntt_queue_empty_def ntt_combine_init_with_wakeup_def
      queue_combine_push_def ntt_queue_unlinked_def ntt_combine_empty_def combine_wakeup_def eventfd_write_def first_queue_def Let_def)

lemma queue_drop_first:
  assumes "lb_queues self 0 = (first_queue task)\<lparr>qu_external_refs := 2\<rparr>"
  shows "queue_drop env addr 0 self p = Some (self\<lparr>lb_queues := (lb_queues self)(0 := first_queue task)\<rparr>, p)"
  using assms by (simp add: queue_drop_def ntt_queue_release_def ntt_queue_use_count_def first_queue_def)

lemma boot_leave_first:
  assumes "lo_work_cnt (lb_loop self) = 2"
  shows "boot_work_leave env self = Some (self\<lparr>lb_loop := (lb_loop self)\<lparr>lo_work_cnt := 1\<rparr>\<rparr>)"
  using assms by (simp add: boot_work_leave_def work_drop_def ntt_assert_def)

section \<open>Threads and blocks\<close>

lemma start_threads_list: "start_threads os n = threads.acquire_list os n"
  by (induction n) (simp_all add: fun_eq_iff)

lemma join_threads_list: "join_threads ts = threads.release_list ts"
  by (induction ts) (auto intro!: ext)

lemma start_threads_shape:
  assumes "start_threads os n p = Some (ts, p')"
  shows "distinct ts" "length ts = n" "set ts \<inter> pr_threads p = {}" "p' = p\<lparr>pr_threads := set ts \<union> pr_threads p\<rparr>"
proof -
  note a = threads.acquire_list_held [OF assms [unfolded start_threads_list]]
  then show "distinct ts" "length ts = n" "set ts \<inter> pr_threads p = {}" by auto
  have "p'\<lparr>pr_threads := pr_threads p' - set ts\<rparr> = p" "pr_threads p' = set ts \<union> pr_threads p" using a by (auto simp: strip_threads_def)
  then show "p' = p\<lparr>pr_threads := set ts \<union> pr_threads p\<rparr>" by (cases p; cases p') simp
qed

lemma free_list_blocks: "free_blocks as = blocks.release_list as"
  by (induction as) (auto intro!: ext)

section \<open>The loop that has been started\<close>

definition loop_sync :: "ptr \<Rightarrow> (ptr \<times> sync_obj) set" where
  "loop_sync addr = {addr} \<times> {LoopMutex, LoopCond, CombineLock, QueueSlabLock, EventSlabLock, ServiceLock}"

text \<open>The loop when its descriptors are open, and when the first queue has its task and the threads are started.\<close>

definition opened :: "sizes \<Rightarrow> u32 \<Rightarrow> (u32 \<Rightarrow> ntt_event) \<Rightarrow> (u32 \<Rightarrow> ntt_queue) \<Rightarrow> int \<Rightarrow> int \<Rightarrow> int \<Rightarrow> ptr \<Rightarrow> loop_obj" where
  "opened sz width events queues e c t eb = (loop_fields sz width e c events queues)
     \<lparr>lb_combine_event := own_handle 0, lb_event_slab := slab_with (sl_stride (ntt_slab_init (sz_event sz))) eb 2,
      lb_timerfd := t, lb_timer_event := own_handle 1,
      lb_events := events(0 := own_event 0 (events 0), 1 := own_event 1 (events 1))\<rparr>"

definition booted :: "sizes \<Rightarrow> ptr \<Rightarrow> u32 \<Rightarrow> (u32 \<Rightarrow> ntt_event) \<Rightarrow> (u32 \<Rightarrow> ntt_queue) \<Rightarrow> int \<Rightarrow> int \<Rightarrow> int \<Rightarrow> ptr \<Rightarrow> ptr \<Rightarrow> u64 list \<Rightarrow> loop_obj" where
  "booted sz task width events queues e c t eb qb threads = (opened sz width events queues e c t eb)
     \<lparr>lb_combine := ntt_combine_init_with_wakeup\<lparr>co_list := [0]\<rparr>,
      lb_queue_slab := slab_with (sl_stride (ntt_slab_init (sz_queue sz))) qb 1, lb_queues := queues(0 := first_queue task),
      lb_threads := threads\<rparr>"

text \<open>
  The process, with \<open>n\<close> in the counter of the event descriptor, the locks \<open>L\<close> of queues, memory \<open>H\<close> and threads \<open>T\<close>.
\<close>

definition loop_process :: "ptr \<Rightarrow> int \<Rightarrow> int \<Rightarrow> int \<Rightarrow> u64 \<Rightarrow> sync_obj set \<Rightarrow> ptr set \<Rightarrow> u64 set \<Rightarrow> process \<Rightarrow> process" where
  "loop_process addr e c t n L H T p =
     \<lparr>pr_heap = H \<union> pr_heap p,
      pr_fds = (pr_fds p)(c \<mapsto> CounterFd n, t \<mapsto> TimerFd, e \<mapsto> EpollFd
        [c \<mapsto> (EPOLLIN OR EPOLLEXCLUSIVE, own_handle 0), t \<mapsto> (EPOLLIN OR EPOLLET OR EPOLLEXCLUSIVE, own_handle 1)]),
      pr_sync = loop_sync addr \<union> {addr} \<times> L \<union> pr_sync p, pr_threads = T \<union> pr_threads p\<rparr>"

lemma alloc_take:
  assumes "sl_stride (ntt_slab_init (sz_event sz)) = stride" "self = loop_fields sz w e c events queues"
    and eb: "eb = os_aligned os 64 (ucast stride * 64) p" "eb \<noteq> NULL"
  shows "slab_take os (lb_event_slab self) p = Some (eb, slab_with stride eb 1, p\<lparr>pr_heap := insert eb (pr_heap p)\<rparr>)"
  using assms by (simp add: loop_fields_def first_take Let_def)

lemma loop_open_shape:
  assumes sz: "sl_stride (ntt_slab_init (sz_event sz)) \<noteq> 0" and st: "loop_open env os sz width events queues p = Some (addr, self, p')"
  obtains e c t eb where "distinct [NULL, addr, eb]" "{addr, eb} \<inter> pr_heap p = {}" "distinct [-1, e, c, t]"
    "pr_fds p e = None" "pr_fds p c = None" "pr_fds p t = None"
    "self = opened sz width events queues e c t eb" "p' = loop_process addr e c t 0 {} {addr, eb} {} p"
proof -
  let ?es = "sl_stride (ntt_slab_init (sz_event sz))"
  from st obtain self1 p1 h self2 p2 where
    a: "loop_alloc os sz width events queues p = Some (addr, self1, p1)"
      "loop_event_open env os (lb_combine_eventfd self1) own_params (EPOLLIN OR EPOLLEXCLUSIVE) 0 self1 p1 = Some (h, self2, p2)"
      "timer_service_open env os addr (self2\<lparr>lb_combine_event := h\<rparr>) p2 = Some (self, p')"
    by (auto simp: loop_open_def split: bind_splits)
  obtain e c where b: "addr \<noteq> NULL" "addr \<notin> pr_heap p" "e \<noteq> -1" "c \<noteq> -1" "e \<noteq> c" "pr_fds p e = None" "pr_fds p c = None"
    "self1 = loop_fields sz width e c events queues"
    "p1 = p\<lparr>pr_heap := insert addr (pr_heap p), pr_fds := (pr_fds p)(e \<mapsto> EpollFd Map.empty, c \<mapsto> CounterFd 0),
       pr_sync := alloc_sync addr \<union> pr_sync p\<rparr>"
    by (rule loop_alloc_shape [OF a(1)])
  obtain eb where eb: "eb = os_aligned os 64 (ucast ?es * 64) p1" by blast
  have f1: "lb_event_slab self1 = ntt_slab_init (sz_event sz)" "lb_epoll_fd self1 = e" "lb_combine_eventfd self1 = c" by (simp_all add: b(8) loop_fields_def)
  have nz: "eb \<noteq> NULL" using a(2) by (auto simp: eb loop_event_open_def f1 first_take Let_def split: bind_splits if_splits)
  let ?p1 = "p1\<lparr>pr_heap := insert eb (pr_heap p1)\<rparr>"
  obtain m where m: "pr_fds ?p1 (lb_epoll_fd self1) = Some (EpollFd m)" "h = own_handle 0"
    "p2 = ?p1\<lparr>pr_fds := (pr_fds ?p1)(lb_epoll_fd self1 \<mapsto> EpollFd (m(c \<mapsto> (EPOLLIN OR EPOLLEXCLUSIVE, own_handle 0))))\<rparr>"
    "self2 = self1\<lparr>lb_event_slab := slab_with ?es eb 1, lb_events := (lb_events self1)(0 := own_event 0 (lb_events self1 0))\<rparr>"
    by (rule own_open_shape [OF alloc_take [OF refl b(8) eb nz] slab_with_heads a(2)]) (simp add: f1)
  have m0: "m = Map.empty" using m(1) b(5) by (simp add: f1 b(9))
  let ?self = "self2\<lparr>lb_combine_event := h\<rparr>"
  have f2: "lb_event_slab ?self = slab_with ?es eb 1" "lb_epoll_fd ?self = e" by (simp_all add: m(4) f1)
  obtain t m' where t: "t \<noteq> -1" "pr_fds p2 t = None" "t \<noteq> lb_epoll_fd ?self" "pr_fds p2 (lb_epoll_fd ?self) = Some (EpollFd m')"
    "p' = p2\<lparr>pr_fds := (pr_fds p2)(t \<mapsto> TimerFd, lb_epoll_fd ?self \<mapsto> EpollFd (m'(t \<mapsto> (EPOLLIN OR EPOLLET OR EPOLLEXCLUSIVE, own_handle 1)))),
       pr_sync := insert (addr, ServiceLock) (pr_sync p2)\<rparr>"
    "self = ?self\<lparr>lb_event_slab := slab_with ?es eb 2, lb_service := ntt_timer_service_init, lb_elems := NULL, lb_timerfd := t, lb_timer_event := own_handle 1,
       lb_events := (lb_events ?self)(1 := own_event 1 (lb_events ?self 1))\<rparr>"
    by (rule service_open_shape [OF f2(1) sz a(3)])
  have m': "m' = [c \<mapsto> (EPOLLIN OR EPOLLEXCLUSIVE, own_handle 0)]" using t(4) by (simp add: f2 m(3) m0 f1)
  have tn: "t \<noteq> e" "t \<noteq> c" "pr_fds p t = None" using t(2,3) b(5) by (auto simp: f2 m(3) b(9) f1 split: if_splits)
  have "eb \<notin> pr_heap p1" unfolding eb by (rule os_malloc_fresh(2) [OF nz [unfolded eb]])
  then have mem: "distinct [NULL, addr, eb]" "{addr, eb} \<inter> pr_heap p = {}" using nz b(1,2) by (auto simp: b(9))
  have "self = opened sz width events queues e c t eb" by (simp add: t(6) m(2,4) b(8) loop_fields_def opened_def)
  moreover have "p' = loop_process addr e c t 0 {} {addr, eb} {} p"
    using b(5) tn by (intro process.equality) (auto simp: loop_process_def t(5) m(3) b(9) f1 f2 m' fun_eq_iff alloc_sync_def loop_sync_def)
  moreover have "distinct [-1, e, c, t]" using b(3,4,5) t(1) tn by auto
  ultimately show thesis using that [OF mem _ b(6,7) tn(3)] by blast
qed

lemma opened_fields:
  "lb_queue_slab (opened sz w events queues e c t eb) = ntt_slab_init (sz_queue sz)"
  "lo_work_cnt (lb_loop (opened sz w events queues e c t eb)) = 1"
  "lb_combine (opened sz w events queues e c t eb) = ntt_combine_init_with_wakeup"
  "lb_combine_eventfd (opened sz w events queues e c t eb) = c"
  by (simp_all add: opened_def loop_fields_def)

lemma loop_boot_shape:
  assumes sz: "sl_stride (ntt_slab_init (sz_event sz)) \<noteq> 0" and ts: "ts_loop = NULL \<or> ts_loop \<in> pr_heap p"
    and st: "loop_boot env os sz ts_loop task width events queues p = Some (addr, self, p')"
  obtains e c t eb qb threads where "distinct [NULL, addr, eb, qb]" "{addr, eb, qb} \<inter> pr_heap p = {}" "distinct [-1, e, c, t]"
    "pr_fds p e = None" "pr_fds p c = None" "pr_fds p t = None"
    "distinct threads" "length threads = unat (ntt_loop_clamp_width width) - 1" "set threads \<inter> pr_threads p = {}"
    "self = booted sz task (ntt_loop_clamp_width width) events queues e c t eb qb threads"
    "p' = loop_process addr e c t 1 {QueueLock 0} {addr, eb, qb} (set threads) p"
proof -
  let ?w = "ntt_loop_clamp_width width"
  from st obtain self3 p3 i self4 p4 self5 p5 self6 p6 self7 threads where
    a: "loop_open env os sz ?w events queues p = Some (addr, self3, p3)" "queue_create_in env os addr self3 p3 = Some (i, self4, p4)"
      "queue_push_task env ts_loop addr i task self4 p4 = Some (self5, p5)" "queue_drop env addr i self5 p5 = Some (self6, p6)"
      "boot_work_leave env self6 = Some self7" "start_threads os (unat ?w - 1) p6 = Some (threads, p')"
      "self = self7\<lparr>lb_threads := threads\<rparr>"
    by (auto simp: loop_boot_def Let_def split: bind_splits)
  obtain e c t eb where b: "distinct [NULL, addr, eb]" "{addr, eb} \<inter> pr_heap p = {}" "distinct [-1, e, c, t]"
    "pr_fds p e = None" "pr_fds p c = None" "pr_fds p t = None"
    "self3 = opened sz ?w events queues e c t eb" "p3 = loop_process addr e c t 0 {} {addr, eb} {} p"
    by (rule loop_open_shape [OF sz a(1)])
  note f3 = opened_fields [of sz ?w events queues e c t eb, folded b(7)]
  obtain qb where q: "i = 0" "qb \<noteq> NULL" "qb \<notin> pr_heap p3" "p4 = p3\<lparr>pr_heap := insert qb (pr_heap p3), pr_sync := insert (addr, QueueLock 0) (pr_sync p3)\<rparr>"
    "self4 = self3\<lparr>lb_queue_slab := slab_with (sl_stride (ntt_slab_init (sz_queue sz))) qb 1, lb_loop := (lb_loop self3)\<lparr>lo_work_cnt := 2\<rparr>,
       lb_queues := (lb_queues self3)(0 := fst (ntt_queue_create_in (lb_queues self3 0)))\<rparr>"
    by (rule queue_create_shape [OF f3(1,2) a(2)])
  have f4: "lb_queues self4 0 = fst (ntt_queue_create_in (lb_queues self3 0))" "lb_combine self4 = ntt_combine_init_with_wakeup"
    "ts_loop \<noteq> addr" "pr_fds p4 (lb_combine_eventfd self4) = Some (CounterFd 0)" "lb_combine_eventfd self4 = c"
    using ts b(1,2,3) by (auto simp: q(4,5) f3 b(8) loop_process_def)
  have s5: "self5 = self4\<lparr>lb_combine := ntt_combine_init_with_wakeup\<lparr>co_list := [0]\<rparr>, lb_queues := (lb_queues self4)(0 := (first_queue task)\<lparr>qu_external_refs := 2\<rparr>)\<rparr>"
    "p5 = p4\<lparr>pr_fds := (pr_fds p4)(c \<mapsto> CounterFd 1)\<rparr>" using queue_push_first [OF f4(1-4), of env task] a(3) by (simp_all add: q(1) f4)
  have s6: "self6 = self5\<lparr>lb_queues := (lb_queues self5)(0 := first_queue task)\<rparr>" "p6 = p5"
    using queue_drop_first [of self5 task env addr p5] a(4) by (simp_all add: q(1) s5)
  have s7: "self7 = self6\<lparr>lb_loop := (lb_loop self6)\<lparr>lo_work_cnt := 1\<rparr>\<rparr>" using boot_leave_first [of self6 env] a(5) by (simp add: s6 s5 q(5))
  note th = start_threads_shape [OF a(6)]
  have mem: "distinct [NULL, addr, eb, qb]" "{addr, eb, qb} \<inter> pr_heap p = {}" using q(2,3) b(1,2) by (auto simp: b(8) loop_process_def)
  have "self = booted sz task ?w events queues e c t eb qb threads"
    by (simp add: a(7) s7 s6 s5 q(5) b(7) opened_def loop_fields_def booted_def)
  moreover have "p' = loop_process addr e c t 1 {QueueLock 0} {addr, eb, qb} (set threads) p"
    using b(3) by (intro process.equality) (auto simp: th(4) s6 s5 q(4) b(8) loop_process_def fun_eq_iff)
  moreover have "set threads \<inter> pr_threads p = {}" using th(3) by (simp add: s6 s5 q(4) b(8) loop_process_def)
  ultimately show thesis using that [OF mem b(3-6) th(1,2)] by blast
qed

section \<open>What a loop owns\<close>

definition loop_fds :: "loop_obj \<Rightarrow> int list" where
  "loop_fds self = [lb_epoll_fd self, lb_combine_eventfd self, lb_timerfd self]"

text \<open>The structure, the array of the registrations once it is allocated, and the blocks of the slabs.\<close>

definition loop_elems :: "loop_obj \<Rightarrow> ptr list" where
  "loop_elems self = (if lb_elems self = NULL then [] else [lb_elems self])"

definition loop_memory :: "ptr \<Rightarrow> loop_obj \<Rightarrow> ptr list" where
  "loop_memory addr self = addr # loop_elems self @ slab_blocks (lb_queue_slab self) @ slab_blocks (lb_event_slab self)"

definition loop_owns :: "ptr \<Rightarrow> loop_obj \<Rightarrow> process \<Rightarrow> bool" where
  "loop_owns addr self p \<longleftrightarrow> NULL \<notin> pr_heap p \<and> distinct (loop_memory addr self) \<and> set (loop_memory addr self) \<subseteq> pr_heap p \<and>
     distinct (loop_fds self) \<and> (\<forall>fd \<in> set (loop_fds self). pr_fds p fd \<noteq> None) \<and> loop_sync addr \<subseteq> pr_sync p \<and>
     distinct (lb_threads self) \<and> set (lb_threads self) \<subseteq> pr_threads p"

text \<open>The process without what the loop owns, the locks of its queues included.\<close>

definition without_loop :: "ptr \<Rightarrow> loop_obj \<Rightarrow> process \<Rightarrow> process" where
  "without_loop addr self p = close_all (set (loop_fds self))
     (p\<lparr>pr_threads := pr_threads p - set (lb_threads self), pr_sync := pr_sync p - {addr} \<times> UNIV,
        pr_heap := pr_heap p - set (loop_memory addr self)\<rparr>)"

lemma unwatch_unwatch: "unwatch A (unwatch B d) = unwatch (A \<union> B) d"
  by (cases d) (auto simp: fun_eq_iff)

lemma close_close: "close_all A (close_all B p) = close_all (A \<union> B) p"
  by (auto simp: close_all_def fun_eq_iff option.map_comp comp_def unwatch_unwatch)

lemma close_fields [simp]: "pr_heap (close_all F p) = pr_heap p" "pr_sync (close_all F p) = pr_sync p" "pr_threads (close_all F p) = pr_threads p"
  "pr_fds (close_all F p) fd = (if fd \<in> F then None else map_option (unwatch F) (pr_fds p fd))"
  by (simp_all add: close_all_def)

lemma close_heap [simp]: "(close_all F p)\<lparr>pr_heap := H\<rparr> = close_all F (p\<lparr>pr_heap := H\<rparr>)" "(close_all F p)\<lparr>pr_sync := S\<rparr> = close_all F (p\<lparr>pr_sync := S\<rparr>)"
  by (rule process.equality; simp add: close_all_def cong: if_cong)+

lemma os_close_open: "pr_fds p fd \<noteq> None \<Longrightarrow> os_close fd p = close_all {fd} p"
  by (auto simp: os_close_def)

lemma sync_destroy_in: "obj \<in> pr_sync p \<Longrightarrow> sync_destroy obj p = Some (p\<lparr>pr_sync := pr_sync p - {obj}\<rparr>)"
  by (simp add: sync_destroy_def)

text \<open>A loop gives back exactly what it owns.\<close>

lemma loop_destroy_owned:
  assumes own: "loop_owns addr self p" and live: "ntt_queue_heap_has_live env (sv_queues (lb_service self)) (lb_queue_slab self) = Some False"
    and empty: "co_list (lb_combine self) = []"
  shows "loop_destroy env addr self p = Some (close_all (set (loop_fds self))
     (p\<lparr>pr_heap := pr_heap p - set (loop_elems self @ slab_blocks (lb_queue_slab self) @ slab_blocks (lb_event_slab self)),
        pr_sync := pr_sync p - loop_sync addr\<rparr>))"
proof -
  let ?q = "slab_blocks (lb_queue_slab self)" and ?e = "slab_blocks (lb_event_slab self)" and ?a = "loop_elems self"
  have mem: "distinct ?q" "distinct ?e" "set ?q \<inter> set ?e = {}" "set ?q \<subseteq> pr_heap p" "set ?e \<subseteq> pr_heap p"
    "set ?a \<inter> (set ?q \<union> set ?e) = {}" "set ?a \<subseteq> pr_heap p" "NULL \<notin> pr_heap p" and
    fds: "distinct (loop_fds self)" "\<forall>fd \<in> set (loop_fds self). pr_fds p fd \<noteq> None" and sync: "loop_sync addr \<subseteq> pr_sync p"
    using own by (auto simp: loop_owns_def loop_memory_def)
  have fa: "ntt_free (lb_elems self) s = Some (s\<lparr>pr_heap := pr_heap s - set ?a\<rparr>)" if "pr_heap s = pr_heap p" for s
    using mem(7,8) that by (auto simp: ntt_free_def loop_elems_def split: if_splits)
  have fq: "free_blocks ?q s = Some (s\<lparr>pr_heap := pr_heap s - set ?q\<rparr>)" if "pr_heap s = pr_heap p - set ?a" for s
    using blocks.release_list_held [of ?q s] mem(1,4,6) that by (auto simp: free_list_blocks strip_heap_def)
  have fe: "free_blocks ?e s = Some (s\<lparr>pr_heap := pr_heap s - set ?e\<rparr>)" if "pr_heap s = pr_heap p - (set ?q \<union> set ?a)" for s
    using blocks.release_list_held [of ?e s] mem(2,3,5,6) that by (auto simp: free_list_blocks strip_heap_def)
  have sy: "(addr, obj) \<in> pr_sync p" if "\<forall>i. obj \<noteq> QueueLock i" for obj using sync that by (cases obj) (auto simp: loop_sync_def)
  have "ntt_timer_service_deinit env (lb_service self) (lb_queue_slab self) \<noteq> None" "ntt_combine_deinit env (lb_combine self) = Some ()"
    using live empty by (simp_all add: ntt_timer_service_deinit_def ntt_combine_deinit_def ntt_combine_empty_def ntt_assert_def)
  then show ?thesis using fds
    by (auto simp: loop_destroy_def loop_fds_def os_close_open sync_destroy_in sy fa fq fe close_close Let_def loop_sync_def diff_diff
        Un_ac insert_commute)
qed

lemma loop_end_owned:
  assumes own: "loop_owns addr self p" and live: "ntt_queue_heap_has_live env (sv_queues (lb_service self)) (lb_queue_slab self) = Some False"
    and empty: "co_list (lb_combine self) = []" and gone: "\<forall>i. (addr, QueueLock i) \<notin> pr_sync p"
  shows "loop_end env addr self p = Some (without_loop addr self p)"
proof -
  let ?p = "p\<lparr>pr_threads := pr_threads p - set (lb_threads self)\<rparr>"
  have j: "join_threads (lb_threads self) p = Some ?p"
    using threads.release_list_held [of "lb_threads self" p] own by (simp add: join_threads_list strip_threads_def loop_owns_def)
  let ?self = "self\<lparr>lb_threads := []\<rparr>"
  have e: "loop_elems ?self = loop_elems self" by (simp add: loop_elems_def)
  have "loop_owns addr ?self ?p" using own by (simp add: loop_owns_def loop_memory_def e loop_fds_def)
  moreover have "loop_destroy env addr ?self ?p = loop_destroy env addr self ?p" by (simp add: loop_destroy_def)
  ultimately have d: "loop_destroy env addr self ?p = Some (close_all (set (loop_fds self))
     (?p\<lparr>pr_heap := pr_heap p - set (loop_elems self @ slab_blocks (lb_queue_slab self) @ slab_blocks (lb_event_slab self)), pr_sync := pr_sync p - loop_sync addr\<rparr>))"
    using loop_destroy_owned [of addr ?self ?p env] live empty by (simp add: loop_fds_def e)
  have "(a, obj) \<in> loop_sync addr" if "(a, obj) \<in> pr_sync p" "a = addr" for a obj
    using gone that by (cases obj) (auto simp: loop_sync_def)
  moreover have "loop_sync addr \<subseteq> {addr} \<times> UNIV" by (auto simp: loop_sync_def)
  ultimately have "pr_sync p - loop_sync addr = pr_sync p - {addr} \<times> UNIV" by auto
  moreover have "addr \<in> pr_heap p - set (loop_elems self @ slab_blocks (lb_queue_slab self) @ slab_blocks (lb_event_slab self))"
    using own by (auto simp: loop_owns_def loop_memory_def)
  ultimately show ?thesis by (simp add: loop_end_def j d ntt_free_def without_loop_def loop_memory_def diff_diff)
qed

lemma boot_owned:
  assumes ok: "process_ok p" and mem: "distinct [NULL, addr, eb, qb]" "{addr, eb, qb} \<inter> pr_heap p = {}" and fds: "distinct [-1, e, c, t]"
    "pr_fds p e = None" "pr_fds p c = None" "pr_fds p t = None" and th: "distinct threads" "set threads \<inter> pr_threads p = {}"
  shows "loop_owns addr (booted sz task w events queues e c t eb qb threads) (loop_process addr e c t 1 {QueueLock 0} {addr, eb, qb} (set threads) p)"
    "without_loop addr (booted sz task w events queues e c t eb qb threads) (loop_process addr e c t 1 {QueueLock 0} {addr, eb, qb} (set threads) p) = p"
    "process_ok (loop_process addr e c t 1 {QueueLock 0} {addr, eb, qb} (set threads) p)"
proof -
  let ?self = "booted sz task w events queues e c t eb qb threads" and ?p = "loop_process addr e c t 1 {QueueLock 0} {addr, eb, qb} (set threads) p"
  have own: "loop_memory addr ?self = [addr, qb, eb]" "loop_fds ?self = [e, c, t]" "lb_threads ?self = threads"
    by (simp_all add: loop_memory_def loop_elems_def loop_fds_def booted_def opened_def loop_fields_def slab_with_blocks)
  have "NULL \<notin> pr_heap p" using ok by (simp add: process_ok_def)
  then show "loop_owns addr ?self ?p" using mem fds(1) th by (auto simp: loop_owns_def own loop_process_def)
  have sync: "pr_sync p \<inter> {addr} \<times> UNIV = {}" "loop_sync addr \<subseteq> {addr} \<times> UNIV" using fresh_sync [OF ok] mem(2) by (auto simp: loop_sync_def)
  have "map_option (unwatch {e, c, t}) (pr_fds p fd) = pr_fds p fd" for fd
  proof (cases "pr_fds p fd")
    case (Some d)
    have "unwatch {e, c, t} d = d"
    proof (cases d)
      case (EpollFd m)
      then have "m e = None" "m c = None" "m t = None" using ok Some fds(2-4) unfolding process_ok_def by blast+
      then show ?thesis using EpollFd by (auto simp: fun_eq_iff)
    qed simp_all
    then show ?thesis using Some by simp
  qed simp
  then have f: "(if fd \<in> {e, c, t} then None else map_option (unwatch {e, c, t}) (pr_fds ?p fd)) = pr_fds p fd" for fd
    using fds by (auto simp: loop_process_def)
  show "without_loop addr ?self ?p = p"
  proof (rule process.equality)
    show "pr_fds (without_loop addr ?self ?p) = pr_fds p"
    proof (rule ext)
      show "pr_fds (without_loop addr ?self ?p) fd = pr_fds p fd" for fd using f [of fd] by (simp add: without_loop_def own split del: if_split cong: if_cong)
    qed
  qed (use mem th sync in \<open>auto simp: without_loop_def own loop_process_def\<close>)
  have "pr_fds ?p fd \<noteq> None" if "pr_fds ?p x = Some (EpollFd m)" "m fd \<noteq> None" for x m fd
  proof (cases "x = e")
    case True
    then show ?thesis using that by (auto simp: loop_process_def split: if_splits)
  next
    case False
    then have "pr_fds p x = Some (EpollFd m)" using that(1) by (auto simp: loop_process_def split: if_splits)
    then have "pr_fds p fd \<noteq> None" using ok that(2) unfolding process_ok_def by blast
    then show ?thesis by (simp add: loop_process_def)
  qed
  then show "process_ok ?p" using ok mem fds(1) by (auto simp: process_ok_def loop_process_def loop_sync_def)
qed

section \<open>The start returns\<close>

text \<open>The operating system can serve a process that has less than \<open>n\<close> blocks, less than \<open>n\<close> descriptors and less than \<open>n\<close> threads.\<close>

definition plenty :: "answers \<Rightarrow> nat \<Rightarrow> bool" where
  "plenty os n \<longleftrightarrow> (\<forall>p. (finite (pr_heap p) \<and> card (pr_heap p) < n \<longrightarrow> (\<forall>s. os_malloc os s p \<noteq> NULL) \<and> (\<forall>al s. os_aligned os al s p \<noteq> NULL)) \<and>
     (finite (dom (pr_fds p)) \<and> card (dom (pr_fds p)) < n \<longrightarrow> (\<forall>d. fst (os_open os d p) \<noteq> -1)) \<and>
     (finite (pr_threads p) \<and> card (pr_threads p) < n \<longrightarrow> ntt_pthread_create_or_die os p \<noteq> None) \<and>
     (\<forall>obj. an_init os obj p) \<and> (\<forall>epfd fd. an_epoll_add os epfd fd p))"

lemma plenty_malloc:
  assumes "plenty os n" "finite (pr_heap p)" "card (pr_heap p) < n"
  shows "\<exists>a p'. ntt_malloc_or_die os s p = Some (a, p')" "os_aligned os al s p \<noteq> NULL"
  using assms unfolding plenty_def by (auto simp: ntt_malloc_or_die_def Let_def)

lemma plenty_open:
  assumes "plenty os n" "finite (dom (pr_fds p))" "card (dom (pr_fds p)) < n"
  obtains fd p' where "os_open os d p = (fd, p')" "fd \<noteq> -1"
  using assms unfolding plenty_def by (metis prod.collapse)

lemma plenty_threads:
  assumes "plenty os n" "finite (pr_threads p)" "card (pr_threads p) + k \<le> n"
  shows "start_threads os k p \<noteq> None"
  using assms
proof (induction k arbitrary: p)
  case (Suc k)
  then have "ntt_pthread_create_or_die os p \<noteq> None" unfolding plenty_def by auto
  then obtain t where t: "ntt_pthread_create_or_die os p = Some (t, p\<lparr>pr_threads := insert t (pr_threads p)\<rparr>)"
    by (auto simp: ntt_pthread_create_or_die_def ntt_die_def split: option.splits if_splits)
  have "card (insert t (pr_threads p)) + k \<le> n" using Suc.prems card_insert_le_m1 [of "Suc (card (pr_threads p))" "pr_threads p" t]
    by (simp add: card_insert_if)
  then show ?case using Suc.IH [of "p\<lparr>pr_threads := insert t (pr_threads p)\<rparr>"] Suc.prems t by auto
qed simp

lemma own_open_returns:
  assumes take: "slab_take os (lb_event_slab self) p = Some (obj, slab, p1)"
    and head: "ntt_slab_index slab obj = Some i" "ntt_slab_generation slab obj = Some 1" and os: "plenty os n"
    and fds: "pr_fds p1 (lb_epoll_fd self) = Some (EpollFd m)" "m fd = None" "pr_fds p1 fd \<noteq> None" "fd \<noteq> lb_epoll_fd self"
  shows "loop_event_open env os fd own_params events 0 self p \<noteq> None"
proof -
  have "an_epoll_add os x y p1" for x y using os unfolding plenty_def by blast
  then show ?thesis using take head fds
    by (auto simp: loop_event_open_def own_event_open ntt_loop_epoll_add_def ntt_epoll_ctl_or_die_def os_epoll_ctl_def)
qed

lemma loop_alloc_returns:
  assumes os: "plenty os n" and ok: "process_ok p" and p: "finite (pr_heap p)" "card (pr_heap p) < n" "finite (dom (pr_fds p))" "card (dom (pr_fds p)) + 1 < n"
  shows "loop_alloc os sz w events queues p \<noteq> None"
proof -
  let ?s = "sz_loop sz + sz_ctx sz * ucast w"
  have init: "an_init os obj s" for obj s using os unfolding plenty_def by blast
  obtain a p1 where a: "ntt_malloc_or_die os ?s p = Some (a, p1)" using plenty_malloc(1) [OF os p(1,2)] by blast
  then have p1: "p1 = p\<lparr>pr_heap := insert a (pr_heap p)\<rparr>" "a \<notin> pr_heap p" using os_malloc_fresh by (auto simp: malloc_some)
  note fresh = fresh_sync [OF ok p1(2)]
  have "finite (dom (pr_fds p1))" "card (dom (pr_fds p1)) < n" using p p1 by simp_all
  then obtain e p2 where e: "os_open os (EpollFd Map.empty) p1 = (e, p2)" "e \<noteq> -1" by (rule plenty_open [OF os])
  note p2 = open_some [OF e]
  let ?p5 = "p2\<lparr>pr_sync := {(a, CombineLock), (a, LoopCond), (a, LoopMutex)} \<union> pr_sync p2\<rparr>"
  have "finite (dom (pr_fds ?p5))" "card (dom (pr_fds ?p5)) < n" using p p2 p1 by (auto simp: card_insert_if)
  then obtain c p6 where c: "os_open os (CounterFd 0) ?p5 = (c, p6)" "c \<noteq> -1" by (rule plenty_open [OF os])
  note p6 = open_some [OF c]
  show ?thesis using a e c fresh p1(1) p2(2) p6(2)
    by (simp add: loop_alloc_def epoll_create_or_abort_def ntt_eventfd_or_die_def ntt_pthread_mutex_init_or_die_def
        ntt_pthread_cond_init_or_die_def sync_init_def init Let_def)
qed

lemma service_open_returns:
  assumes slab: "lb_event_slab self = slab_with stride base 1" "stride \<noteq> 0" and os: "plenty os n"
    and sync: "(addr, ServiceLock) \<notin> pr_sync p" and p: "finite (dom (pr_fds p))" "card (dom (pr_fds p)) < n"
    and ep: "pr_fds p (lb_epoll_fd self) = Some (EpollFd m)" "\<And>fd. pr_fds p fd = None \<Longrightarrow> m fd = None"
  shows "timer_service_open env os addr self p \<noteq> None"
proof -
  let ?p1 = "p\<lparr>pr_sync := insert (addr, ServiceLock) (pr_sync p)\<rparr>"
  have "finite (dom (pr_fds ?p1))" "card (dom (pr_fds ?p1)) < n" using p by simp_all
  then obtain t p2 where t: "os_open os TimerFd ?p1 = (t, p2)" "t \<noteq> -1" by (rule plenty_open [OF os])
  note p2 = open_some [OF t]
  let ?self = "self\<lparr>lb_service := ntt_timer_service_init, lb_elems := NULL, lb_timerfd := t\<rparr>"
  have take: "slab_take os (lb_event_slab ?self) p2 = Some (base + ucast stride, slab_with stride base 2, p2)"
    using second_take [OF slab(2)] slab(1) by simp
  have "t \<noteq> lb_epoll_fd self" using p2(1) ep(1) by auto
  then have "loop_event_open env os t own_params (EPOLLIN OR EPOLLET OR EPOLLEXCLUSIVE) 0 ?self p2 \<noteq> None"
    using p2 ep by (intro own_open_returns [OF take slab_with_heads2 [OF slab(2)] os, of m]) auto
  then show ?thesis using t sync by (auto simp: timer_service_open_def sync_init_def Let_def)
qed

lemma loop_open_returns:
  assumes os: "plenty os n" and ok: "process_ok p" and sz: "sl_stride (ntt_slab_init (sz_event sz)) \<noteq> 0"
    and heap: "finite (pr_heap p)" "card (pr_heap p) + 2 \<le> n" and fds: "finite (dom (pr_fds p))" "card (dom (pr_fds p)) + 3 \<le> n"
  shows "loop_open env os sz width events queues p \<noteq> None"
proof -
  let ?es = "sl_stride (ntt_slab_init (sz_event sz))"
  have "loop_alloc os sz width events queues p \<noteq> None" by (rule loop_alloc_returns [OF os ok]) (use heap fds in auto)
  then obtain addr self1 p1 where a1: "loop_alloc os sz width events queues p = Some (addr, self1, p1)" by auto
  obtain e c where b: "addr \<notin> pr_heap p" "e \<noteq> c" "self1 = loop_fields sz width e c events queues"
    "p1 = p\<lparr>pr_heap := insert addr (pr_heap p), pr_fds := (pr_fds p)(e \<mapsto> EpollFd Map.empty, c \<mapsto> CounterFd 0),
       pr_sync := alloc_sync addr \<union> pr_sync p\<rparr>"
    by (rule loop_alloc_shape [OF a1])
  obtain eb where eb: "eb = os_aligned os 64 (ucast ?es * 64) p1" by blast
  have f1: "lb_epoll_fd self1 = e" "lb_combine_eventfd self1 = c" by (simp_all add: b(3) loop_fields_def)
  have nz: "eb \<noteq> NULL" unfolding eb by (rule plenty_malloc(2) [OF os]) (use heap b(1,4) in auto)
  note take1 = alloc_take [OF refl b(3) eb nz]
  have "loop_event_open env os c own_params (EPOLLIN OR EPOLLEXCLUSIVE) 0 self1 p1 \<noteq> None"
    by (rule own_open_returns [OF take1 slab_with_heads os, of Map.empty]) (use b(2) in \<open>auto simp: f1 b(4)\<close>)
  then obtain h self2 p2 where a2: "loop_event_open env os c own_params (EPOLLIN OR EPOLLEXCLUSIVE) 0 self1 p1 = Some (h, self2, p2)" by auto
  let ?p1 = "p1\<lparr>pr_heap := insert eb (pr_heap p1)\<rparr>"
  obtain m where m: "pr_fds ?p1 (lb_epoll_fd self1) = Some (EpollFd m)"
    "p2 = ?p1\<lparr>pr_fds := (pr_fds ?p1)(lb_epoll_fd self1 \<mapsto> EpollFd (m(c \<mapsto> (EPOLLIN OR EPOLLEXCLUSIVE, own_handle 0))))\<rparr>"
    "self2 = self1\<lparr>lb_event_slab := slab_with ?es eb 1, lb_events := (lb_events self1)(0 := own_event 0 (lb_events self1 0))\<rparr>"
    by (rule own_open_shape [OF take1 slab_with_heads a2])
  let ?self = "self2\<lparr>lb_combine_event := h\<rparr>"
  have f2: "lb_event_slab ?self = slab_with ?es eb 1" "lb_epoll_fd ?self = e" by (simp_all add: m(3) f1)
  have m0: "m = Map.empty" using m(1) b(2) by (simp add: f1 b(4))
  have d2: "dom (pr_fds p2) = insert e (insert c (dom (pr_fds p)))" using b(2) by (auto simp: m(2) b(4) f1 split: if_splits)
  have "timer_service_open env os addr ?self p2 \<noteq> None"
  proof (rule service_open_returns [OF f2(1) sz os])
    show "(addr, ServiceLock) \<notin> pr_sync p2" using fresh_sync [OF ok b(1)] by (auto simp: m(2) b(4) alloc_sync_def)
    show "finite (dom (pr_fds p2))" "card (dom (pr_fds p2)) < n" unfolding d2 using fds by (auto simp: card_insert_if)
    show "pr_fds p2 (lb_epoll_fd ?self) = Some (EpollFd [c \<mapsto> (EPOLLIN OR EPOLLEXCLUSIVE, own_handle 0)])" by (simp add: m(2,3) m0 f1)
    show "[c \<mapsto> (EPOLLIN OR EPOLLEXCLUSIVE, own_handle 0)] fd = None" if "pr_fds p2 fd = None" for fd
      using that b(2) by (auto simp: m(2) b(4) f1 split: if_splits)
  qed
  then show ?thesis using a1 a2 by (auto simp: loop_open_def f1)
qed

lemma loop_boot_returns:
  assumes os: "plenty os n" and ok: "process_ok p" and sz: "sl_stride (ntt_slab_init (sz_event sz)) \<noteq> 0" and ts: "ts_loop = NULL \<or> ts_loop \<in> pr_heap p"
    and heap: "finite (pr_heap p)" "card (pr_heap p) + 3 \<le> n" and fds: "finite (dom (pr_fds p))" "card (dom (pr_fds p)) + 3 \<le> n"
    and thr: "finite (pr_threads p)" "card (pr_threads p) + (unat (ntt_loop_clamp_width width) - 1) \<le> n"
  shows "loop_boot env os sz ts_loop task width events queues p \<noteq> None"
proof -
  let ?w = "ntt_loop_clamp_width width"
  have "loop_open env os sz ?w events queues p \<noteq> None" by (rule loop_open_returns [OF os ok sz]) (use heap fds in auto)
  then obtain addr self3 p3 where a3: "loop_open env os sz ?w events queues p = Some (addr, self3, p3)" by auto
  obtain e c t eb where b: "distinct [NULL, addr, eb]" "{addr, eb} \<inter> pr_heap p = {}" "distinct [-1, e, c, t]"
    "self3 = opened sz ?w events queues e c t eb" "p3 = loop_process addr e c t 0 {} {addr, eb} {} p"
    by (rule loop_open_shape [OF sz a3])
  note f3 = opened_fields [of sz ?w events queues e c t eb, folded b(4)]
  have "os_aligned os 64 s p3 \<noteq> NULL" for s
    by (rule plenty_malloc(2) [OF os]) (use heap b(1,2) in \<open>auto simp: b(5) loop_process_def card_insert_if\<close>)
  moreover have "(addr, QueueLock 0) \<notin> pr_sync p3"
    using fresh_sync [OF ok] b(2) by (auto simp: b(5) loop_process_def loop_sync_def)
  ultimately have "queue_create_in env os addr self3 p3 \<noteq> None"
    by (simp add: queue_create_in_def f3 first_take slab_with_heads sync_init_def ntt_loop_work_enter_def ntt_assert_def Let_def del: One_nat_def)
  then obtain i self4 p4 where a4: "queue_create_in env os addr self3 p3 = Some (i, self4, p4)" by auto
  obtain qb where q: "i = 0" "p4 = p3\<lparr>pr_heap := insert qb (pr_heap p3), pr_sync := insert (addr, QueueLock 0) (pr_sync p3)\<rparr>"
    "self4 = self3\<lparr>lb_queue_slab := slab_with (sl_stride (ntt_slab_init (sz_queue sz))) qb 1, lb_loop := (lb_loop self3)\<lparr>lo_work_cnt := 2\<rparr>,
       lb_queues := (lb_queues self3)(0 := fst (ntt_queue_create_in (lb_queues self3 0)))\<rparr>"
    by (rule queue_create_shape [OF f3(1,2) a4])
  have f4: "lb_queues self4 0 = fst (ntt_queue_create_in (lb_queues self3 0))" "lb_combine self4 = ntt_combine_init_with_wakeup"
    "ts_loop \<noteq> addr" "pr_fds p4 (lb_combine_eventfd self4) = Some (CounterFd 0)"
    using ts b(1,2,3) by (auto simp: q(2,3) f3 b(5) loop_process_def)
  obtain self5 p5 where a5: "queue_push_task env ts_loop addr 0 task self4 p4 = Some (self5, p5)" "pr_threads p5 = pr_threads p4"
    "lb_queues self5 0 = (first_queue task)\<lparr>qu_external_refs := 2\<rparr>" "lo_work_cnt (lb_loop self5) = 2"
    using queue_push_first [OF f4] by (simp add: q(3))
  obtain self6 where a6: "queue_drop env addr 0 self5 p5 = Some (self6, p5)" "lb_loop self6 = lb_loop self5" using queue_drop_first [OF a5(3)] by simp
  have a7: "boot_work_leave env self6 \<noteq> None" using boot_leave_first [of self6 env] a5(4) a6(2) by simp
  have "pr_threads p5 = pr_threads p" by (simp add: a5(2) q(2) b(5) loop_process_def)
  then have "start_threads os (unat ?w - 1) p5 \<noteq> None" using plenty_threads [OF os] thr by simp
  then show ?thesis using a3 a4 a5(1) a6(1) a7 by (auto simp: loop_boot_def Let_def q(1))
qed

end
