(* ===== verification/Loop_Boot_Props.thy ===== *)
theory Loop_Boot_Props
  imports Loop_Boot_Inv
begin

text \<open>
  The properties of the start and the end of a loop, with an instance on a process that has its three standard descriptors open.
\<close>

section \<open>A process to start a loop in\<close>

definition first_free :: "('a \<Rightarrow> bool) \<Rightarrow> 'a list \<Rightarrow> 'a \<Rightarrow> 'a" where
  "first_free used xs none = (case find (\<lambda>x. \<not> used x) xs of None \<Rightarrow> none | Some x \<Rightarrow> x)"

lemma first_free_room:
  assumes "distinct xs" "none \<notin> set xs" "length xs = n" "finite {x. used x}" "card {x. used x} < n"
  shows "first_free used xs none \<noteq> none" "\<not> used (first_free used xs none)"
proof -
  have "\<not> set xs \<subseteq> {x. used x}" using assms(1,3-5) card_mono [of "{x. used x}" "set xs"] by (auto simp: distinct_card)
  then obtain x where x: "find (\<lambda>x. \<not> used x) xs = Some x" by (cases "find (\<lambda>x. \<not> used x) xs") (auto simp: find_None_iff)
  then have "x \<in> set xs" "\<not> used x" by (auto simp: find_Some_iff)
  then show "first_free used xs none \<noteq> none" "\<not> used (first_free used xs none)" using assms(2) x by (auto simp: first_free_def)
qed

definition small_heap :: "ptr list" where
  "small_heap = [4096, 8192, 12288, 16384, 20480, 24576, 28672, 32768]"

definition small_os :: answers where
  "small_os = \<lparr>an_malloc = (\<lambda>n p. first_free (\<lambda>a. a \<in> pr_heap p) small_heap NULL),
     an_aligned = (\<lambda>al n p. first_free (\<lambda>a. a \<in> pr_heap p) small_heap NULL),
     an_open = (\<lambda>d p. first_free (\<lambda>fd. pr_fds p fd \<noteq> None) [0, 1, 2, 3, 4, 5, 6, 7] (-1)),
     an_epoll_add = (\<lambda>epfd fd p. True), an_init = (\<lambda>obj p. True),
     an_thread = (\<lambda>p. let t = first_free (\<lambda>t. t \<in> pr_threads p) [1, 2, 3, 4, 5, 6, 7, 8] 0 in if t = 0 then None else Some t)\<rparr>"

lemma small_os_plenty: "plenty small_os 8"
  unfolding plenty_def
proof (intro allI conjI impI)
  fix p s al obj and epfd fd :: int and d
  have small: "distinct small_heap" "NULL \<notin> set small_heap" "length small_heap = 8" by (simp_all add: small_heap_def)
  show "os_malloc small_os s p \<noteq> NULL" "os_aligned small_os al s p \<noteq> NULL" if "finite (pr_heap p) \<and> card (pr_heap p) < 8"
    using first_free_room [OF small, of "\<lambda>a. a \<in> pr_heap p"] that by (simp_all add: os_malloc_def os_aligned_def small_os_def Let_def)
  show "fst (os_open small_os d p) \<noteq> -1" if "finite (dom (pr_fds p)) \<and> card (dom (pr_fds p)) < 8"
    using first_free_room [of "[0, 1, 2, 3, 4, 5, 6, 7]" "-1" 8 "\<lambda>fd. pr_fds p fd \<noteq> None"] that
    by (simp add: os_open_def small_os_def dom_def Let_def)
  show "ntt_pthread_create_or_die small_os p \<noteq> None" if "finite (pr_threads p) \<and> card (pr_threads p) < 8"
    using first_free_room [of "[1, 2, 3, 4, 5, 6, 7, 8]" 0 8 "\<lambda>t. t \<in> pr_threads p"] that
    by (simp add: ntt_pthread_create_or_die_def small_os_def Let_def)
qed (simp_all add: small_os_def)

definition shell :: process where
  "shell = \<lparr>pr_heap = {}, pr_fds = [0 \<mapsto> UserFd 0, 1 \<mapsto> UserFd 1, 2 \<mapsto> UserFd 2], pr_sync = {}, pr_threads = {}\<rparr>"

definition some_sizes :: sizes where
  "some_sizes = \<lparr>sz_loop = 2048, sz_ctx = 24, sz_queue = 256, sz_event = 128\<rparr>"

definition blank_event :: ntt_event where
  "blank_event = \<lparr>ev_index = 0, ev_generation = 0, ev_open = False, ev_read_queue = False, ev_write_queue = False, ev_rc = False,
     ev_wc = False, ev_refs = 0, ev_state = 0, ev_interest = 0, ev_flags = 0\<rparr>"

definition blank_queue :: ntt_queue where
  "blank_queue = \<lparr>qu_open = False, qu_external_refs = 0, qu_tasks = [], qu_linked = False, qu_loop = False, qu_timers = 0, qu_timer_self_ref = False\<rparr>"

lemma shell_ok: "process_ok shell"
  by (auto simp: process_ok_def shell_def split: if_splits)

lemma some_stride: "sl_stride (ntt_slab_init (sz_event some_sizes)) \<noteq> 0"
  by (simp add: ntt_slab_init_def some_sizes_def)

section \<open>Properties\<close>

text \<open>
  A loop can always be started as long as the operating system serves the process: in a process with at most \<open>n - 3\<close> blocks and
  descriptors, and room for the threads of the workers, \<open>ntt_loop_run\<close> gets to the start of its workers.
\<close>

theorem loop_boot_succeeds:
  assumes "plenty os n" "process_ok p" "sl_stride (ntt_slab_init (sz_event sz)) \<noteq> 0" "ts_loop = NULL \<or> ts_loop \<in> pr_heap p"
    and "finite (pr_heap p)" "card (pr_heap p) + 3 \<le> n" "finite (dom (pr_fds p))" "card (dom (pr_fds p)) + 3 \<le> n"
    and "finite (pr_threads p)" "card (pr_threads p) + (unat (ntt_loop_clamp_width width) - 1) \<le> n"
  shows "\<exists>addr self p'. loop_boot env os sz ts_loop task width events queues p = Some (addr, self, p')"
  using loop_boot_returns [OF assms] by fast

theorem loop_boot_succeeds_witness:
  "\<exists>addr self p'. loop_boot loop_env small_os some_sizes NULL 100 4 (\<lambda>_. blank_event) (\<lambda>_. blank_queue) shell = Some (addr, self, p')"
proof (rule loop_boot_succeeds [OF small_os_plenty shell_ok some_stride])
  have "dom (pr_fds shell) = {0, 1, 2}" by (auto simp: shell_def split: if_splits)
  then show "finite (dom (pr_fds shell))" "card (dom (pr_fds shell)) + 3 \<le> 8" by simp_all
qed (simp_all add: shell_def ntt_loop_clamp_width_def NTT_MAX_LOOP_WIDTH_def)

lemma shell_boots:
  obtains addr self p' where "loop_boot loop_env small_os some_sizes NULL 100 4 (\<lambda>_. blank_event) (\<lambda>_. blank_queue) shell = Some (addr, self, p')"
proof -
  have d: "dom (pr_fds shell) = {0, 1, 2}" by (auto simp: shell_def split: if_splits)
  have "loop_boot loop_env small_os some_sizes NULL 100 4 (\<lambda>_. blank_event) (\<lambda>_. blank_queue) shell \<noteq> None"
    by (rule loop_boot_returns [OF small_os_plenty shell_ok some_stride]) (simp_all add: d, simp_all add: shell_def ntt_loop_clamp_width_def NTT_MAX_LOOP_WIDTH_def)
  then show thesis using that by auto
qed

text \<open>
  C19. What a loop that is started has. It owns its memory and the two blocks of its slabs, three descriptors, six locks, the lock of its
  first queue and a thread for every worker but the first, and nothing else of the process has changed. Its epoll instance watches the event descriptor of the combine and the timer
  descriptor, with the handles of the two events in its event slab, which are alive, have no queues and hold no work; the event descriptor has been
  written once, for the first queue, which has the task, is in the combine and is the only work of the loop.
\<close>

theorem loop_boot_owns:
  assumes "process_ok p" "sl_stride (ntt_slab_init (sz_event sz)) \<noteq> 0" "ts_loop = NULL \<or> ts_loop \<in> pr_heap p"
    and boot: "loop_boot env os sz ts_loop task width events queues p = Some (addr, self, p')"
  shows "loop_owns addr self p' \<and> without_loop addr self p' = p \<and> process_ok p' \<and>
    pr_heap p' = set (loop_memory addr self) \<union> pr_heap p \<and> length (loop_memory addr self) = 3 \<and>
    pr_sync p' = loop_sync addr \<union> {(addr, QueueLock 0)} \<union> pr_sync p \<and> pr_threads p' = set (lb_threads self) \<union> pr_threads p \<and> length (lb_threads self) = unat (ntt_loop_clamp_width width) - 1 \<and>
    pr_fds p' (lb_epoll_fd self) = Some (EpollFd
      [lb_combine_eventfd self \<mapsto> (EPOLLIN OR EPOLLEXCLUSIVE, lb_combine_event self), lb_timerfd self \<mapsto> (EPOLLIN OR EPOLLET OR EPOLLEXCLUSIVE, lb_timer_event self)]) \<and>
    pr_fds p' (lb_combine_eventfd self) = Some (CounterFd 1) \<and> pr_fds p' (lb_timerfd self) = Some TimerFd \<and>
    (\<forall>h \<in> {lb_combine_event self, lb_timer_event self}. let event = lb_events self (ntt_event_handle_index h) in
       ev_handle event = h \<and> ev_open event \<and> ev_refs event = 1 \<and> \<not> ev_read_queue event \<and> \<not> ev_write_queue event \<and> ev_flags event = 0) \<and>
    co_list (lb_combine self) = [0] \<and> lb_queues self 0 = first_queue task \<and> lo_work_cnt (lb_loop self) = 1"
proof -
  obtain e c t eb qb threads where b: "distinct [NULL, addr, eb, qb]" "{addr, eb, qb} \<inter> pr_heap p = {}" "distinct [-1, e, c, t]"
    "pr_fds p e = None" "pr_fds p c = None" "pr_fds p t = None"
    "distinct threads" "length threads = unat (ntt_loop_clamp_width width) - 1" "set threads \<inter> pr_threads p = {}"
    "self = booted sz task (ntt_loop_clamp_width width) events queues e c t eb qb threads"
    "p' = loop_process addr e c t 1 {QueueLock 0} {addr, eb, qb} (set threads) p"
    by (rule loop_boot_shape [OF assms(2,3) boot])
  note own = boot_owned(3) [OF assms(1) b(1-7) b(9), folded b(11)] boot_owned(1,2) [OF assms(1) b(1-7) b(9), where sz = sz and task = task and w = "ntt_loop_clamp_width width"
      and events = events and queues = queues, folded b(10,11)]
  have i: "ntt_event_handle_index (own_handle 0) = 0" "ntt_event_handle_index (own_handle 1) = 1" by code_simp+
  have f: "lb_epoll_fd self = e" "lb_combine_eventfd self = c" "lb_timerfd self = t" "lb_combine_event self = own_handle 0" "lb_timer_event self = own_handle 1"
    "lb_threads self = threads" "lb_events self 0 = own_event 0 (events 0)" "lb_events self 1 = own_event 1 (events 1)"
    "co_list (lb_combine self) = [0]" "lb_queues self 0 = first_queue task" "lo_work_cnt (lb_loop self) = 1"
    "loop_memory addr self = [addr, qb, eb]"
    by (simp_all add: b(10) booted_def opened_def loop_fields_def loop_memory_def loop_elems_def slab_with_blocks)
  have ev: "ev_handle (own_event i slot) = own_handle i \<and> ev_open (own_event i slot) \<and> ev_refs (own_event i slot) = 1 \<and>
    \<not> ev_read_queue (own_event i slot) \<and> \<not> ev_write_queue (own_event i slot) \<and> ev_flags (own_event i slot) = 0" for i slot
    by (simp add: own_event_def own_handle_def ev_handle_def)
  show ?thesis using own b(3) b(8) ev by (simp add: f i) (simp add: b(11) loop_process_def insert_commute)
qed

theorem loop_boot_owns_witness:
  "\<exists>addr self p'. loop_owns addr self p' \<and> without_loop addr self p' = shell \<and> length (lb_threads self) = 3 \<and> co_list (lb_combine self) = [0] \<and>
     pr_sync p' = loop_sync addr \<union> {(addr, QueueLock 0)} \<and> pr_fds p' (lb_combine_eventfd self) = Some (CounterFd 1)"
proof -
  obtain addr self p' where "loop_boot loop_env small_os some_sizes NULL 100 4 (\<lambda>_. blank_event) (\<lambda>_. blank_queue) shell = Some (addr, self, p')"
    by (rule shell_boots)
  moreover have "unat (ntt_loop_clamp_width 4) - 1 = 3" by (simp add: ntt_loop_clamp_width_def NTT_MAX_LOOP_WIDTH_def)
  moreover have "pr_sync shell = {}" by (simp add: shell_def)
  ultimately show ?thesis using loop_boot_owns [OF shell_ok some_stride disjI1 [OF refl], of loop_env small_os 100 4] by fastforce
qed

text \<open>
  C20. The start of a loop refines the one that the models of the workers, the queues and the combine begin with: \<open>ntt_loop_run\<close> as they know it
  returns, with the same counter of work, width and workers that have not entered, and the first queue, the combine and the work
  are those of the system that \<open>nt_start\<close> makes of it.
\<close>

theorem loop_boot_refines:
  assumes "sl_stride (ntt_slab_init (sz_event sz)) \<noteq> 0" "ts_loop = NULL \<or> ts_loop \<in> pr_heap p"
    and "loop_boot env os sz ts_loop task width events queues p = Some (addr, self, p')"
  shows "\<exists>l. ntt_loop_run env width = Some l \<and> nt_reachable env width task (nt_start task l) \<and> ls_loop (nt_loop (nt_start task l)) = lb_loop self \<and>
    nt_combine (nt_start task l) = lb_combine self \<and> qs_queue (nt_queues (nt_start task l) 0) = lb_queues self 0 \<and>
    length (lb_threads self) + 1 = ls_width l"
proof -
  obtain e c t eb qb threads where b: "length threads = unat (ntt_loop_clamp_width width) - 1"
    "self = booted sz task (ntt_loop_clamp_width width) events queues e c t eb qb threads"
    by (rule loop_boot_shape [OF assms])
  let ?l = "(loop_start (ntt_loop_clamp_width width))\<lparr>ls_boot := True, ls_others := 0\<rparr>"
  have r: "ntt_loop_run env width = Some ?l"
    by (simp add: ntt_loop_run_def loop_start_def leave_work_def work_drop_def ntt_loop_work_enter_def ntt_assert_def Let_def)
  have "ls_width ?l = unat (ntt_loop_clamp_width width)" by (simp add: loop_start_def)
  then show ?thesis using nt_begin [OF r] r b clamp_width_pos(1) [of width]
    by (intro exI [of _ ?l]) (auto simp: nt_start_def booted_def opened_def loop_fields_def boot_queue_def first_queue_def loop_start_def)
qed

theorem loop_boot_refines_witness:
  "\<exists>l addr self p1. loop_boot loop_env small_os some_sizes NULL 100 4 (\<lambda>_. blank_event) (\<lambda>_. blank_queue) shell = Some (addr, self, p1) \<and>
     ntt_loop_run loop_env 4 = Some l \<and> nt_combine (nt_start 100 l) = lb_combine self \<and> length (lb_threads self) + 1 = ls_width l"
proof -
  obtain addr self p1 where boot: "loop_boot loop_env small_os some_sizes NULL 100 4 (\<lambda>_. blank_event) (\<lambda>_. blank_queue) shell = Some (addr, self, p1)"
    by (rule shell_boots)
  then show ?thesis using loop_boot_refines [OF some_stride disjI1 [OF refl] boot] by blast
qed

end
