(* ===== verification/Loop_Resources.thy ===== *)
theory Loop_Resources
  imports Loop_Boot_Props
begin

text \<open>
  What a loop does to the process between its start and its end: all operations of \<open>src/src/loop.c\<close>, \<open>src/src/queue.c\<close>,
  \<open>src/src/event.c\<close> and \<open>src/src/timer_service.c\<close> that take something from the operating system or give it back, in any order, and what the
  rest of the process does meanwhile. The memory of a loop is its structure, the blocks of its slabs and the array of the registrations; what
  tasks, the timers of a queue and readers allocate is counted to the rest.
\<close>

section \<open>The rest of the process\<close>

text \<open>
  The others get a block, a descriptor or a thread with the address or number that the system gave them, use their descriptors, and give
  them back. A descriptor is plain if it is no epoll instance.
\<close>

datatype other_act = OAlloc ptr | OFree ptr | OOpen int descr | OEpoll int | OSet int descr | OWatch int int "u32 \<times> u64" | OUnwatch int int
  | OClose int | OInit "ptr \<times> sync_obj" | ODestroy "ptr \<times> sync_obj" | OStart u64 | OJoin u64

fun plain :: "descr \<Rightarrow> bool" where
  "plain (EpollFd m) \<longleftrightarrow> False"
| "plain d \<longleftrightarrow> True"

fun other_do :: "other_act \<Rightarrow> process \<Rightarrow> process option" where
  "other_do (OAlloc a) p = (if a = NULL \<or> a \<in> pr_heap p then None else Some (p\<lparr>pr_heap := insert a (pr_heap p)\<rparr>))"
| "other_do (OFree a) p = ntt_free a p"
| "other_do (OOpen fd d) p = (if fd = -1 \<or> pr_fds p fd \<noteq> None \<or> \<not> plain d then None else Some (p\<lparr>pr_fds := (pr_fds p)(fd \<mapsto> d)\<rparr>))"
| "other_do (OEpoll fd) p = (if fd = -1 \<or> pr_fds p fd \<noteq> None then None else Some (p\<lparr>pr_fds := (pr_fds p)(fd \<mapsto> EpollFd Map.empty)\<rparr>))"
| "other_do (OSet fd d) p = (case pr_fds p fd of None \<Rightarrow> None
   | Some d' \<Rightarrow> if plain d \<and> plain d' then Some (p\<lparr>pr_fds := (pr_fds p)(fd \<mapsto> d)\<rparr>) else None)"
| "other_do (OWatch e fd event) p = (case pr_fds p e of
     Some (EpollFd m) \<Rightarrow> if pr_fds p fd = None \<or> fd = e \<or> m fd \<noteq> None then None
       else Some (p\<lparr>pr_fds := (pr_fds p)(e \<mapsto> EpollFd (m(fd \<mapsto> event)))\<rparr>)
   | _ \<Rightarrow> None)"
| "other_do (OUnwatch e fd) p = (case pr_fds p e of
     Some (EpollFd m) \<Rightarrow> if m fd = None then None else Some (p\<lparr>pr_fds := (pr_fds p)(e \<mapsto> EpollFd (m(fd := None)))\<rparr>)
   | _ \<Rightarrow> None)"
| "other_do (OClose fd) p = Some (os_close fd p)"
| "other_do (OInit obj) p = sync_init obj p"
| "other_do (ODestroy obj) p = sync_destroy obj p"
| "other_do (OStart t) p = (if t \<in> pr_threads p then None else Some (p\<lparr>pr_threads := insert t (pr_threads p)\<rparr>))"
| "other_do (OJoin t) p = pthread_join t p"

text \<open>They leave alone what is the loop's.\<close>

fun leaves :: "ptr \<Rightarrow> loop_obj \<Rightarrow> other_act \<Rightarrow> bool" where
  "leaves addr self (OFree a) \<longleftrightarrow> a \<notin> set (loop_memory addr self)"
| "leaves addr self (OSet fd d) \<longleftrightarrow> fd \<notin> set (loop_fds self)"
| "leaves addr self (OWatch e fd event) \<longleftrightarrow> e \<notin> set (loop_fds self) \<and> fd \<notin> set (loop_fds self)"
| "leaves addr self (OUnwatch e fd) \<longleftrightarrow> e \<notin> set (loop_fds self) \<and> fd \<notin> set (loop_fds self)"
| "leaves addr self (OClose fd) \<longleftrightarrow> fd \<notin> set (loop_fds self)"
| "leaves addr self (OInit obj) \<longleftrightarrow> fst obj \<noteq> addr"
| "leaves addr self (ODestroy obj) \<longleftrightarrow> fst obj \<noteq> addr"
| "leaves addr self (OJoin t) \<longleftrightarrow> t \<notin> set (lb_threads self)"
| "leaves addr self a \<longleftrightarrow> True"

section \<open>What the loop does\<close>

text \<open>
  \<open>ntt_timer_service_register\<close> with the array of the registrations in memory: it is reallocated when its capacity grows.
\<close>

definition service_register ::
    "env \<Rightarrow> answers \<Rightarrow> (u64 \<Rightarrow> u64 \<Rightarrow> bool) \<Rightarrow> u32 \<Rightarrow> u32 \<Rightarrow> u64 \<Rightarrow> u32 \<Rightarrow> loop_obj \<Rightarrow> process \<Rightarrow> (loop_obj \<times> process) option" where
  "service_register env os settime index generation deadline tombstones self p = do {
     service \<leftarrow> ntt_timer_service_register env settime (lb_queue_slab self) (lb_service self) index generation deadline tombstones;
     let capacity = qh_capacity (sv_queues service);
     (elems, p1) \<leftarrow> (if capacity = qh_capacity (sv_queues (lb_service self)) then Some (lb_elems self, p)
       else realloc_or_die os (lb_elems self) (16 * ucast capacity) p);
     Some (self\<lparr>lb_service := service, lb_elems := elems\<rparr>, p1)
   }"

text \<open>A change in the memory of the loop that takes nothing from the system and gives nothing back.\<close>

definition inner_change :: "loop_obj \<Rightarrow> loop_obj \<Rightarrow> bool" where
  "inner_change self self' \<longleftrightarrow> loop_fds self' = loop_fds self \<and> lb_threads self' = lb_threads self \<and> lb_elems self' = lb_elems self \<and>
     qh_capacity (sv_queues (lb_service self')) = qh_capacity (sv_queues (lb_service self)) \<and>
     sl_blocks (lb_queue_slab self') = sl_blocks (lb_queue_slab self) \<and> sl_block_cnt (lb_queue_slab self') = sl_block_cnt (lb_queue_slab self) \<and>
     sl_blocks (lb_event_slab self') = sl_blocks (lb_event_slab self) \<and> sl_block_cnt (lb_event_slab self') = sl_block_cnt (lb_event_slab self) \<and>
     (\<forall>i. qu_open (lb_queues self' i) = qu_open (lb_queues self i))"

text \<open>
  Creating a queue and dropping a reference of one, opening an event, taking its descriptor out of epoll and giving its slot back, registering
  a queue for its timers, the wakeup of the combine and the read of its event descriptor, any inner change, and the others.
\<close>

datatype loop_act = LaQueueCreate | LaQueueDrop u32 | LaEventOpen int ntt_event_params u32 u8 | LaEpollDel int | LaEventEnd u32
  | LaRegister u32 u32 u64 u32 | LaWakeup ptr | LaRead | LaInner loop_obj | LaOther other_act

fun la_do :: "env \<Rightarrow> answers \<Rightarrow> (u64 \<Rightarrow> u64 \<Rightarrow> bool) \<Rightarrow> ptr \<Rightarrow> loop_act \<Rightarrow> loop_obj \<times> process \<Rightarrow> (loop_obj \<times> process) option" where
  "la_do env os settime addr LaQueueCreate (self, p) = map_option snd (queue_create_in env os addr self p)"
| "la_do env os settime addr (LaQueueDrop i) (self, p) = queue_drop env addr i self p"
| "la_do env os settime addr (LaEventOpen fd params events flags) (self, p) = map_option snd (loop_event_open env os fd params events flags self p)"
| "la_do env os settime addr (LaEpollDel fd) (self, p) = map_option (Pair self) (ntt_loop_epoll_del os self fd p)"
| "la_do env os settime addr (LaEventEnd i) (self, p) =
     map_option (\<lambda>slab. (self\<lparr>lb_event_slab := slab\<rparr>, p)) (ntt_slab_give env (lb_event_slab self) i)"
| "la_do env os settime addr (LaRegister i generation deadline tombstones) (self, p) =
     service_register env os settime i generation deadline tombstones self p"
| "la_do env os settime addr (LaWakeup ts_loop) (self, p) = Some (self, combine_wakeup ts_loop addr self p)"
| "la_do env os settime addr LaRead (self, p) = Some (self, eventfd_read (lb_combine_eventfd self) p)"
| "la_do env os settime addr (LaInner self') (self, p) = (if inner_change self self' then Some (self', p) else None)"
| "la_do env os settime addr (LaOther a) (self, p) = (if leaves addr self a then map_option (Pair self) (other_do a p) else None)"

fun other_of :: "loop_act \<Rightarrow> other_act option" where
  "other_of (LaOther a) = Some a"
| "other_of a = None"

text \<open>What the others do in a run.\<close>

abbreviation others :: "loop_act list \<Rightarrow> other_act list" where
  "others acts \<equiv> List.map_filter other_of acts"

section \<open>Others\<close>

lemma without_fields [simp]:
  "pr_heap (without_loop addr self p) = pr_heap p - set (loop_memory addr self)"
  "pr_fds (without_loop addr self p) fd = (if fd \<in> set (loop_fds self) then None else map_option (unwatch (set (loop_fds self))) (pr_fds p fd))"
  "pr_sync (without_loop addr self p) = pr_sync p - {addr} \<times> UNIV"
  "pr_threads (without_loop addr self p) = pr_threads p - set (lb_threads self)"
  by (simp_all add: without_loop_def)

lemma plain_unwatch [simp]: "plain d \<Longrightarrow> unwatch F d = d"
  by (cases d) simp_all

lemma unwatch_plain [simp]: "plain (unwatch F d) = plain d"
  by (cases d) simp_all

lemma unwatch_epoll: "unwatch F d = EpollFd m \<Longrightarrow> \<exists>m'. d = EpollFd m'"
  by (cases d) simp_all

lemma without_heap: "without_loop addr self (p\<lparr>pr_heap := H\<rparr>) = (without_loop addr self p)\<lparr>pr_heap := H - set (loop_memory addr self)\<rparr>"
  by (rule process.equality) (simp_all add: fun_eq_iff)

lemma without_sync: "without_loop addr self (p\<lparr>pr_sync := S\<rparr>) = (without_loop addr self p)\<lparr>pr_sync := S - {addr} \<times> UNIV\<rparr>"
  by (rule process.equality) (simp_all add: fun_eq_iff)

lemma without_threads: "without_loop addr self (p\<lparr>pr_threads := T\<rparr>) = (without_loop addr self p)\<lparr>pr_threads := T - set (lb_threads self)\<rparr>"
  by (rule process.equality) (simp_all add: fun_eq_iff)

lemma without_fd:
  assumes "fd \<notin> set (loop_fds self)"
  shows "without_loop addr self (p\<lparr>pr_fds := (pr_fds p)(fd \<mapsto> d)\<rparr>) =
    (without_loop addr self p)\<lparr>pr_fds := (pr_fds (without_loop addr self p))(fd \<mapsto> unwatch (set (loop_fds self)) d)\<rparr>"
  using assms by (intro process.equality) (simp_all add: fun_eq_iff)

lemma without_close:
  assumes "fd \<notin> set (loop_fds self)"
  shows "without_loop addr self (os_close fd p) = os_close fd (without_loop addr self p)"
proof (cases "pr_fds p fd")
  case (Some d)
  have "without_loop addr self (close_all F p) = close_all F (without_loop addr self p)" for F
    by (rule process.equality) (simp_all add: fun_eq_iff option.map_comp comp_def unwatch_unwatch Un_commute)
  then show ?thesis using Some assms by (simp add: os_close_def)
qed (simp add: os_close_def)

lemma owned_frame:
  assumes "loop_owns addr self p" "set (loop_memory addr self) \<subseteq> pr_heap p'" "NULL \<notin> pr_heap p'"
    and "\<And>fd. fd \<in> set (loop_fds self) \<Longrightarrow> pr_fds p fd \<noteq> None \<Longrightarrow> pr_fds p' fd \<noteq> None"
    and "loop_sync addr \<subseteq> pr_sync p'" "set (lb_threads self) \<subseteq> pr_threads p'"
  shows "loop_owns addr self p'"
  using assms by (auto simp: loop_owns_def)

lemma ownedD:
  assumes "loop_owns addr self p"
  shows "set (loop_memory addr self) \<subseteq> pr_heap p" "NULL \<notin> pr_heap p" "fd \<in> set (loop_fds self) \<Longrightarrow> \<exists>d. pr_fds p fd = Some d"
    "loop_sync addr \<subseteq> pr_sync p" "set (lb_threads self) \<subseteq> pr_threads p"
  using assms by (auto simp: loop_owns_def)

text \<open>What the others do is the same with the loop and without it.\<close>

lemma other_owned:
  assumes own: "loop_owns addr self p" and l: "leaves addr self a" and st: "other_do a p = Some p'"
  shows "loop_owns addr self p'" "pr_sync p' \<inter> {addr} \<times> UNIV = pr_sync p \<inter> {addr} \<times> UNIV"
proof -
  note d = ownedD [OF own]
  show "pr_sync p' \<inter> {addr} \<times> UNIV = pr_sync p \<inter> {addr} \<times> UNIV" using l st
    by (cases a) (auto simp: ntt_free_def sync_init_def sync_destroy_def pthread_join_def os_close_def split: if_splits option.splits descr.splits)
  moreover have "loop_sync addr \<subseteq> {addr} \<times> UNIV" by (auto simp: loop_sync_def)
  ultimately have sync: "loop_sync addr \<subseteq> pr_sync p'" using d(4) by blast
  show "loop_owns addr self p'"
  proof (rule owned_frame [OF own _ _ _ sync])
    show "set (loop_memory addr self) \<subseteq> pr_heap p'" "NULL \<notin> pr_heap p'" "set (lb_threads self) \<subseteq> pr_threads p'" using l st d(1,2,5)
      by (cases a; auto simp: ntt_free_def sync_init_def sync_destroy_def pthread_join_def os_close_def split: if_splits option.splits descr.splits)+
    show "pr_fds p' fd \<noteq> None" if "fd \<in> set (loop_fds self)" "pr_fds p fd \<noteq> None" for fd using l st that
      by (cases a) (auto simp: ntt_free_def sync_init_def sync_destroy_def pthread_join_def os_close_def split: if_splits option.splits descr.splits)
  qed
qed

lemma other_alone:
  assumes own: "loop_owns addr self p" and l: "leaves addr self a" and st: "other_do a p = Some p'"
  shows "other_do a (without_loop addr self p) = Some (without_loop addr self p')"
proof -
  note d = ownedD [OF own]
  show ?thesis
  proof (cases a)
    case (OAlloc b)
    then show ?thesis using st d(1) by (auto simp: without_heap intro!: arg_cong [of _ _ "\<lambda>H. (without_loop addr self p)\<lparr>pr_heap := H\<rparr>"] split: if_splits)
  next
    case (OFree b)
    then show ?thesis using st l d(2)
      by (auto simp: ntt_free_def without_heap intro!: arg_cong [of _ _ "\<lambda>H. (without_loop addr self p)\<lparr>pr_heap := H\<rparr>"] split: if_splits)
  next
    case (OOpen fd e)
    then have "fd \<notin> set (loop_fds self)" using st d(3) [of fd] by (auto split: if_splits)
    then show ?thesis using st OOpen by (auto simp: without_fd split: if_splits)
  next
    case (OEpoll fd)
    then have "fd \<notin> set (loop_fds self)" using st d(3) [of fd] by (auto split: if_splits)
    then show ?thesis using st OEpoll by (auto simp: without_fd split: if_splits)
  next
    case (OSet fd e)
    then show ?thesis using st l by (auto simp: without_fd split: if_splits option.splits)
  next
    case (OWatch e fd event)
    then show ?thesis using st l by (auto simp: without_fd fun_eq_iff split: if_splits option.splits descr.splits)
  next
    case (OUnwatch e fd)
    then show ?thesis using st l by (auto simp: without_fd fun_eq_iff split: if_splits option.splits descr.splits)
  next
    case (OClose fd)
    then show ?thesis using st l by (auto simp: without_close)
  next
    case (OInit obj)
    then show ?thesis using st l
      by (cases obj) (auto simp: sync_init_def without_sync intro!: arg_cong [of _ _ "\<lambda>S. (without_loop addr self p)\<lparr>pr_sync := S\<rparr>"] split: if_splits)
  next
    case (ODestroy obj)
    then show ?thesis using st l
      by (cases obj) (auto simp: sync_destroy_def without_sync intro!: arg_cong [of _ _ "\<lambda>S. (without_loop addr self p)\<lparr>pr_sync := S\<rparr>"] split: if_splits)
  next
    case (OStart t)
    then show ?thesis using st d(5)
      by (auto simp: without_threads intro!: arg_cong [of _ _ "\<lambda>T. (without_loop addr self p)\<lparr>pr_threads := T\<rparr>"] split: if_splits)
  next
    case (OJoin t)
    then show ?thesis using st l
      by (auto simp: pthread_join_def without_threads intro!: arg_cong [of _ _ "\<lambda>T. (without_loop addr self p)\<lparr>pr_threads := T\<rparr>"] split: if_splits)
  qed
qed

section \<open>The loop\<close>

text \<open>A slab whose table of blocks is as long as the code has it, and not more than full.\<close>

definition slab_fit :: "ntt_slab \<Rightarrow> bool" where
  "slab_fit slab \<longleftrightarrow> length (sl_blocks slab) = 27 \<and> unat (sl_block_cnt slab) \<le> 27"

text \<open>The loop owns what it owns, the process without it is \<open>q\<close>, and the queues that are there have their locks.\<close>

definition loop_holds :: "ptr \<Rightarrow> process \<Rightarrow> loop_obj \<times> process \<Rightarrow> bool" where
  "loop_holds addr q sp \<longleftrightarrow> (let (self, p) = sp in loop_owns addr self p \<and> without_loop addr self p = q \<and>
     slab_fit (lb_queue_slab self) \<and> slab_fit (lb_event_slab self) \<and>
     (\<forall>i. (addr, QueueLock i) \<in> pr_sync p \<longleftrightarrow> qu_open (lb_queues self i)))"

lemma aligned_fresh: "ntt_aligned_or_die os al s p = Some (a, p') \<Longrightarrow> a \<noteq> NULL \<and> a \<notin> pr_heap p"
  using os_malloc_fresh(2) [of os al s p] by (auto simp: ntt_aligned_or_die_def ntt_die_def Let_def split: if_splits)

lemma add_block_shape:
  assumes "slab_add_block (slab_aligned os p) slab slot = Some slab'" "slab_fit slab"
  obtains added where "slab_blocks slab' = slab_blocks slab @ added" "distinct added" "set added \<inter> pr_heap p = {}" "NULL \<notin> set added" "slab_fit slab'"
proof (cases "slot = ntt_slab_block_first (sl_block_cnt slab)")
  case True
  let ?n = "unat (sl_block_cnt slab)"
  obtain s base where b: "slab_aligned os p (sl_block_cnt slab) s = Some base" and n: "?n < length (sl_blocks slab)"
    and slab': "slab' = slab\<lparr>sl_blocks := (sl_blocks slab)[?n := base], sl_block_cnt := sl_block_cnt slab + 1\<rparr>"
    using assms(1) True by (auto simp: slab_add_block_def ntt_die_def Let_def split: bind_splits option.splits if_splits)
  have base: "base \<noteq> NULL" "base \<notin> pr_heap p" using b by (auto simp: slab_aligned_def dest!: aligned_fresh)
  have len: "length (sl_blocks slab) = 27" using assms(2) by (simp add: slab_fit_def)
  have n1: "unat (sl_block_cnt slab + 1) = Suc ?n" using n len by (subst unat_add_lem [THEN iffD1]) simp_all
  have "take (Suc ?n) ((sl_blocks slab)[?n := base]) = take ?n (sl_blocks slab) @ [base]" using n by (simp add: take_Suc_conv_app_nth)
  then show thesis using base n n1 len by (intro that [of "[base]"]) (simp_all add: slab_blocks_def slab_fit_def slab')
next
  case False
  then show thesis using assms by (intro that [of "[]"]) (simp_all add: slab_add_block_def)
qed

lemma slab_take_shape:
  assumes st: "slab_take os slab p = Some (obj, slab', p')" and fit: "slab_fit slab"
  obtains added where "slab_blocks slab' = slab_blocks slab @ added" "distinct added" "set added \<inter> pr_heap p = {}" "NULL \<notin> set added"
    "slab_fit slab'" "p' = p\<lparr>pr_heap := set added \<union> pr_heap p\<rparr>"
proof -
  have take: "ntt_slab_take (slab_aligned os p) slab = Some (obj, slab')"
    and p': "p' = p\<lparr>pr_heap := set (drop (unat (sl_block_cnt slab)) (slab_blocks slab')) \<union> pr_heap p\<rparr>"
    using st by (auto simp: slab_take_def slab_blocks_def Let_def split: bind_splits)
  have len: "length (slab_blocks slab) = unat (sl_block_cnt slab)" using fit by (simp add: slab_blocks_def slab_fit_def)
  have "\<exists>added. slab_blocks slab' = slab_blocks slab @ added \<and> distinct added \<and> set added \<inter> pr_heap p = {} \<and> NULL \<notin> set added \<and> slab_fit slab'"
  proof (cases "sl_free_head slab = NTT_SLAB_NONE")
    case False
    then have "slab_blocks slab' = slab_blocks slab \<and> slab_fit slab'" using take fit
      by (auto simp: ntt_slab_take_def slab_blocks_def slab_fit_def Let_def split: bind_splits)
    then show ?thesis by (intro exI [of _ "[]"]) simp
  next
    case True
    then obtain slab1 slot where a: "slab_add_block (slab_aligned os p) slab slot = Some slab1"
      and s: "sl_blocks slab' = sl_blocks slab1" "sl_block_cnt slab' = sl_block_cnt slab1"
      using take by (auto simp: ntt_slab_take_def Let_def split: bind_splits if_splits)
    obtain added where "slab_blocks slab1 = slab_blocks slab @ added" "distinct added" "set added \<inter> pr_heap p = {}" "NULL \<notin> set added" "slab_fit slab1"
      by (rule add_block_shape [OF a fit])
    then show ?thesis using s by (intro exI [of _ added]) (simp add: slab_blocks_def slab_fit_def)
  qed
  then show thesis using that p' len by auto
qed

lemma slab_give_shape:
  assumes "ntt_slab_give env slab i = Some slab'"
  shows "slab_blocks slab' = slab_blocks slab" "slab_fit slab' = slab_fit slab"
  using assms by (auto simp: ntt_slab_give_def ntt_slab_retire_def slab_blocks_def slab_fit_def Let_def split: bind_splits)

text \<open>A step of the loop: its memory and its locks may change, and so may what its descriptors hold.\<close>

lemma holds_step:
  assumes holds: "loop_holds addr q (self, p)"
    and same: "loop_fds self' = loop_fds self" "lb_threads self' = lb_threads self" "pr_threads p' = pr_threads p"
    and mem: "distinct (loop_memory addr self')" "set (loop_memory addr self') \<subseteq> pr_heap p'" "NULL \<notin> pr_heap p'"
      "pr_heap p' - set (loop_memory addr self') = pr_heap p - set (loop_memory addr self)"
    and fds: "\<And>fd. fd \<notin> set (loop_fds self) \<Longrightarrow> pr_fds p' fd = pr_fds p fd" "\<And>fd. pr_fds p fd \<noteq> None \<Longrightarrow> pr_fds p' fd \<noteq> None"
    and sync: "pr_sync p' - {addr} \<times> range QueueLock = pr_sync p - {addr} \<times> range QueueLock"
    and fit: "slab_fit (lb_queue_slab self')" "slab_fit (lb_event_slab self')"
    and locks: "\<And>i. (addr, QueueLock i) \<in> pr_sync p' \<longleftrightarrow> qu_open (lb_queues self' i)"
  shows "loop_holds addr q (self', p')"
proof -
  have own: "loop_owns addr self p" and q: "without_loop addr self p = q" using holds by (simp_all add: loop_holds_def)
  have "loop_sync addr \<inter> {addr} \<times> range QueueLock = {}" by (auto simp: loop_sync_def)
  then have "loop_sync addr \<subseteq> pr_sync p'" using ownedD(4) [OF own] sync by blast
  then have "loop_owns addr self' p'" using own mem(1-3) fds(2) by (simp add: loop_owns_def same)
  moreover have "without_loop addr self' p' = q"
  proof -
    have "pr_sync p' - {addr} \<times> UNIV = (pr_sync p' - {addr} \<times> range QueueLock) - {addr} \<times> UNIV" for p' :: process by blast
    then have "pr_sync p' - {addr} \<times> UNIV = pr_sync p - {addr} \<times> UNIV" using sync by metis
    then have "without_loop addr self' p' = without_loop addr self p"
      using mem(4) fds(1) by (intro process.equality) (simp_all add: same fun_eq_iff)
    then show ?thesis using q by simp
  qed
  ultimately show ?thesis using fit locks by (simp add: loop_holds_def)
qed

lemma holdsD:
  assumes "loop_holds addr q (self, p)"
  shows "loop_owns addr self p" "without_loop addr self p = q" "slab_fit (lb_queue_slab self)" "slab_fit (lb_event_slab self)"
    "(addr, QueueLock i) \<in> pr_sync p \<longleftrightarrow> qu_open (lb_queues self i)"
    "distinct (loop_memory addr self)" "set (loop_memory addr self) \<subseteq> pr_heap p" "NULL \<notin> pr_heap p"
  using assms by (auto simp: loop_holds_def loop_owns_def)

lemma take_holds:
  assumes holds: "loop_holds addr q (self, p)" and fresh: "set added \<inter> pr_heap p = {}" "distinct added" "NULL \<notin> set added"
    and mem: "set (loop_memory addr self') = set added \<union> set (loop_memory addr self)"
      "length (loop_memory addr self') = length added + length (loop_memory addr self)"
    and same: "loop_fds self' = loop_fds self" "lb_threads self' = lb_threads self" "lb_queues self' = lb_queues self"
    and fit: "slab_fit (lb_queue_slab self')" "slab_fit (lb_event_slab self')"
  shows "loop_holds addr q (self', p\<lparr>pr_heap := set added \<union> pr_heap p\<rparr>)"
proof (rule holds_step [OF holds same(1,2)])
  note d = holdsD [OF holds]
  have "set added \<inter> set (loop_memory addr self) = {}" using fresh(1) d(7) by blast
  then have "card (set (loop_memory addr self')) = length (loop_memory addr self')"
    using mem fresh(2) d(6) by (simp add: card_Un_disjoint distinct_card)
  then show "distinct (loop_memory addr self')" by (rule card_distinct)
  show "pr_heap (p\<lparr>pr_heap := set added \<union> pr_heap p\<rparr>) - set (loop_memory addr self') = pr_heap p - set (loop_memory addr self)"
    using mem(1) fresh(1) by auto
  show "set (loop_memory addr self') \<subseteq> pr_heap (p\<lparr>pr_heap := set added \<union> pr_heap p\<rparr>)" "NULL \<notin> pr_heap (p\<lparr>pr_heap := set added \<union> pr_heap p\<rparr>)"
    using mem(1) d(7,8) fresh(3) by auto
  show "(addr, QueueLock i) \<in> pr_sync (p\<lparr>pr_heap := set added \<union> pr_heap p\<rparr>) \<longleftrightarrow> qu_open (lb_queues self' i)" for i
    using d(5) same(3) by simp
qed (simp_all add: fit)

lemma same_elems [simp]:
  "loop_elems (self\<lparr>lb_queue_slab := s\<rparr>) = loop_elems self" "loop_elems (self\<lparr>lb_event_slab := s\<rparr>) = loop_elems self"
  "loop_elems (self\<lparr>lb_loop := l\<rparr>) = loop_elems self" "loop_elems (self\<lparr>lb_queues := qs\<rparr>) = loop_elems self"
  "loop_elems (self\<lparr>lb_events := es\<rparr>) = loop_elems self" "loop_elems (self\<lparr>lb_service := v\<rparr>) = loop_elems self"
  by (simp_all add: loop_elems_def)

lemma same_fds [simp]:
  "loop_fds (self\<lparr>lb_queue_slab := s\<rparr>) = loop_fds self" "loop_fds (self\<lparr>lb_event_slab := s\<rparr>) = loop_fds self"
  "loop_fds (self\<lparr>lb_loop := l\<rparr>) = loop_fds self" "loop_fds (self\<lparr>lb_queues := qs\<rparr>) = loop_fds self"
  "loop_fds (self\<lparr>lb_events := es\<rparr>) = loop_fds self" "loop_fds (self\<lparr>lb_service := v\<rparr>) = loop_fds self" "loop_fds (self\<lparr>lb_elems := a\<rparr>) = loop_fds self"
  by (simp_all add: loop_fds_def)

lemma same_memory [simp]:
  "loop_memory addr (self\<lparr>lb_loop := l\<rparr>) = loop_memory addr self" "loop_memory addr (self\<lparr>lb_queues := qs\<rparr>) = loop_memory addr self"
  "loop_memory addr (self\<lparr>lb_events := es\<rparr>) = loop_memory addr self" "loop_memory addr (self\<lparr>lb_service := v\<rparr>) = loop_memory addr self"
  by (simp_all add: loop_memory_def)

lemma give_memory:
  "slab_blocks s = slab_blocks (lb_queue_slab self) \<Longrightarrow> loop_memory addr (self\<lparr>lb_queue_slab := s\<rparr>) = loop_memory addr self"
  "slab_blocks s = slab_blocks (lb_event_slab self) \<Longrightarrow> loop_memory addr (self\<lparr>lb_event_slab := s\<rparr>) = loop_memory addr self"
  by (simp_all add: loop_memory_def)

lemma queue_create_holds:
  assumes holds: "loop_holds addr q (self, p)" and st: "queue_create_in env os addr self p = Some (i, self', p')"
  shows "loop_holds addr q (self', p')"
proof -
  obtain obj slab p1 p2 loop where a: "slab_take os (lb_queue_slab self) p = Some (obj, slab, p1)" "sync_init (addr, QueueLock i) p1 = Some p2"
    "self' = self\<lparr>lb_queue_slab := slab, lb_loop := loop, lb_queues := (lb_queues self)(i := fst (ntt_queue_create_in (lb_queues self i)))\<rparr>" "p' = p2"
    using st by (auto simp: queue_create_in_def split: bind_splits)
  obtain added where b: "slab_blocks slab = slab_blocks (lb_queue_slab self) @ added" "distinct added" "set added \<inter> pr_heap p = {}" "NULL \<notin> set added"
    "slab_fit slab" "p1 = p\<lparr>pr_heap := set added \<union> pr_heap p\<rparr>" by (rule slab_take_shape [OF a(1) holdsD(3) [OF holds]])
  let ?self = "self\<lparr>lb_queue_slab := slab\<rparr>"
  have h: "loop_holds addr q (?self, p1)" unfolding b(6)
    by (rule take_holds [OF holds b(3,2,4)]) (use b(1,5) holdsD(4) [OF holds] in \<open>auto simp: loop_memory_def loop_fds_def\<close>)
  have op: "qu_open (fst (ntt_queue_create_in slot))" for slot by (simp add: ntt_queue_create_in_def ntt_queue_init_def Let_def)
  show ?thesis
    by (rule holds_step [OF h]) (use holdsD(5-8) [OF h] a(2) holdsD(4) [OF holds] b(5) in \<open>auto simp: a(3,4) op dest!: init_some(3)\<close>)
qed

lemma queue_drop_holds:
  assumes holds: "loop_holds addr q (self, p)" and st: "queue_drop env addr i self p = Some (self', p')"
  shows "loop_holds addr q (self', p')"
proof -
  note d = holdsD [OF holds]
  obtain r log where rel: "ntt_queue_release env (lb_queues self i) = Some (r, log)" using st by (auto simp: queue_drop_def split: bind_splits)
  show ?thesis
  proof (cases "log = []")
    case True
    then have self': "self' = self\<lparr>lb_queues := (lb_queues self)(i := r)\<rparr>" "p' = p" using st rel by (simp_all add: queue_drop_def)
    have op: "qu_open r = qu_open (lb_queues self i)" using rel True by (auto simp: ntt_queue_release_def Let_def split: bind_splits if_splits)
    show ?thesis by (rule holds_step [OF holds]) (use d(3-8) in \<open>auto simp: self' op\<close>)
  next
    case False
    then obtain slab loop p1 where a: "sync_destroy (addr, QueueLock i) p = Some p1" "ntt_slab_give env (lb_queue_slab self) i = Some slab" "p' = p1"
      "self' = self\<lparr>lb_queues := (lb_queues self)(i := r), lb_queue_slab := slab, lb_loop := loop\<rparr>"
      using st rel by (auto simp: queue_drop_def Let_def split: bind_splits)
    have op: "\<not> qu_open r" using rel False by (auto simp: ntt_queue_release_def Let_def split: bind_splits if_splits)
    note g = slab_give_shape [OF a(2)]
    show ?thesis
      by (rule holds_step [OF holds]) (use d(3-8) a(1) g in \<open>auto simp: a(3,4) op give_memory sync_destroy_def split: if_splits\<close>)
  qed
qed

text \<open>What changes only what is in the descriptors of the loop.\<close>

lemma fds_holds:
  assumes holds: "loop_holds addr q (self, p)" and same: "loop_fds self' = loop_fds self" "lb_threads self' = lb_threads self"
      "loop_memory addr self' = loop_memory addr self" "lb_queue_slab self' = lb_queue_slab self" "lb_event_slab self' = lb_event_slab self"
      "lb_queues self' = lb_queues self"
    and p': "pr_heap p' = pr_heap p" "pr_sync p' = pr_sync p" "pr_threads p' = pr_threads p"
      "\<And>fd. fd \<notin> set (loop_fds self) \<Longrightarrow> pr_fds p' fd = pr_fds p fd" "\<And>fd. pr_fds p fd \<noteq> None \<Longrightarrow> pr_fds p' fd \<noteq> None"
  shows "loop_holds addr q (self', p')"
  by (rule holds_step [OF holds same(1,2) p'(3)]) (use holdsD(3-8) [OF holds] p'(4,5) in \<open>simp_all add: same p'(1,2)\<close>)

lemma epoll_holds:
  assumes holds: "loop_holds addr q (self, p)" and st: "ntt_epoll_ctl_or_die os (lb_epoll_fd self) op fd event p = Some p'"
  shows "loop_holds addr q (self, p')"
proof -
  obtain d where p': "p' = p\<lparr>pr_fds := (pr_fds p)(lb_epoll_fd self \<mapsto> d)\<rparr>"
    using st by (auto simp: ntt_epoll_ctl_or_die_def os_epoll_ctl_def ntt_die_def split: option.splits descr.splits if_splits epoll_op.splits)
  show ?thesis by (rule fds_holds [OF holds]) (auto simp: p' loop_fds_def)
qed

lemma calls_holds:
  assumes "loop_holds addr q (self, p)" "open_calls env os fd log self p = Some (self', p')"
  shows "loop_holds addr q (self', p')"
  using assms
proof (induction env os fd log self p rule: open_calls.induct)
  case (4 env os fd log self p)
  then obtain loop where "open_calls env os fd log (self\<lparr>lb_loop := loop\<rparr>) p = Some (self', p')" "ntt_loop_work_enter env (lb_loop self) = Some loop"
    by (auto split: bind_splits)
  moreover have "loop_holds addr q (self\<lparr>lb_loop := loop\<rparr>, p)" by (rule fds_holds [OF 4(2)]) simp_all
  ultimately show ?case using 4(1) by blast
next
  case (5 env os fd handle events log self p)
  then obtain p1 where "ntt_loop_epoll_add os self fd (events, handle) p = Some p1" "open_calls env os fd log self p1 = Some (self', p')"
    by (auto split: bind_splits)
  then show ?case using 5(1) epoll_holds [OF 5(2)] by (auto simp: ntt_loop_epoll_add_def)
qed simp_all

lemma event_open_holds:
  assumes holds: "loop_holds addr q (self, p)" and st: "loop_event_open env os fd params events flags self p = Some (h, self', p')"
  shows "loop_holds addr q (self', p')"
proof -
  obtain obj slab p1 log es where a: "slab_take os (lb_event_slab self) p = Some (obj, slab, p1)"
    "open_calls env os fd log (self\<lparr>lb_event_slab := slab, lb_events := es\<rparr>) p1 = Some (self', p')"
    using st by (auto simp: loop_event_open_def Let_def split: bind_splits prod.splits)
  obtain added where b: "slab_blocks slab = slab_blocks (lb_event_slab self) @ added" "distinct added" "set added \<inter> pr_heap p = {}" "NULL \<notin> set added"
    "slab_fit slab" "p1 = p\<lparr>pr_heap := set added \<union> pr_heap p\<rparr>" by (rule slab_take_shape [OF a(1) holdsD(4) [OF holds]])
  have "loop_holds addr q (self\<lparr>lb_event_slab := slab, lb_events := es\<rparr>, p1)" unfolding b(6)
    by (rule take_holds [OF holds b(3,2,4)]) (use b(1,5) holdsD(3) [OF holds] in \<open>auto simp: loop_memory_def\<close>)
  then show ?thesis using a(2) by (rule calls_holds)
qed

lemma realloc_shape:
  assumes "realloc_or_die os a s p = Some (b, p')"
  shows "b \<noteq> NULL" "b \<notin> pr_heap p - {a}" "p' = p\<lparr>pr_heap := insert b (pr_heap p - {a})\<rparr>"
  using assms os_malloc_fresh(1) [of os s "p\<lparr>pr_heap := pr_heap p - {a}\<rparr>"] by (auto simp: realloc_or_die_def ntt_die_def Let_def split: if_splits)

lemma register_holds:
  assumes holds: "loop_holds addr q (self, p)" and st: "service_register env os settime i g d t self p = Some (self', p')"
  shows "loop_holds addr q (self', p')"
proof -
  note h = holdsD [OF holds]
  consider service where "self' = self\<lparr>lb_service := service\<rparr>" "p' = p"
    | service s b where "self' = self\<lparr>lb_service := service, lb_elems := b\<rparr>" "realloc_or_die os (lb_elems self) s p = Some (b, p')"
    using st by (auto simp: service_register_def Let_def split: bind_splits if_splits)
  then show ?thesis
  proof cases
    case 1
    show ?thesis by (rule fds_holds [OF holds]) (simp_all add: 1)
  next
    case 2
    note r = realloc_shape [OF 2(2)]
    let ?rest = "addr # slab_blocks (lb_queue_slab self) @ slab_blocks (lb_event_slab self)"
    have mem: "set (loop_memory addr self) = set (loop_elems self) \<union> set ?rest" "distinct ?rest" "set (loop_elems self) \<inter> set ?rest = {}"
      using h(6) by (auto simp: loop_memory_def)
    have rest: "set ?rest \<subseteq> pr_heap p - {lb_elems self}" using h(7,8) mem(3) by (auto simp: loop_memory_def loop_elems_def split: if_splits)
    have mem': "loop_memory addr self' = addr # b # slab_blocks (lb_queue_slab self) @ slab_blocks (lb_event_slab self)"
      using r(1) by (simp add: loop_memory_def loop_elems_def 2(1))
    have "b \<notin> set ?rest" using r(2) rest by blast
    then have dist: "distinct (loop_memory addr self')" using mem(2) by (auto simp: mem')
    have sub: "set (loop_memory addr self') \<subseteq> pr_heap p'" using rest by (auto simp: mem' r(3))
    have same: "pr_heap p' - set (loop_memory addr self') = pr_heap p - set (loop_memory addr self)"
      using r(2) h(8) by (auto simp: mem' mem(1) r(3) loop_elems_def split: if_splits)
    show ?thesis by (rule holds_step [OF holds _ _ _ dist sub _ same]) (use h(3-5,8) r(1) in \<open>auto simp: 2(1) r(3)\<close>)
  qed
qed

lemma combine_fd_holds:
  assumes holds: "loop_holds addr q (self, p)"
  shows "loop_holds addr q (self, eventfd_write (lb_combine_eventfd self) n p)" "loop_holds addr q (self, eventfd_read (lb_combine_eventfd self) p)"
  by (rule fds_holds [OF holds]; auto simp: eventfd_write_def eventfd_read_def loop_fds_def split: option.splits descr.splits)+

lemma inner_holds:
  assumes holds: "loop_holds addr q (self, p)" and "inner_change self self'"
  shows "loop_holds addr q (self', p)"
proof -
  have s: "loop_fds self' = loop_fds self" "lb_threads self' = lb_threads self" "loop_memory addr self' = loop_memory addr self"
    "slab_fit (lb_queue_slab self') = slab_fit (lb_queue_slab self)" "slab_fit (lb_event_slab self') = slab_fit (lb_event_slab self)"
    "qu_open (lb_queues self' i) = qu_open (lb_queues self i)" for i
    using assms(2) by (simp_all add: inner_change_def loop_memory_def loop_elems_def slab_blocks_def slab_fit_def)
  show ?thesis by (rule holds_step [OF holds s(1,2)]) (use holdsD(3-8) [OF holds] in \<open>simp_all add: s\<close>)
qed

lemma other_holds:
  assumes holds: "loop_holds addr q (self, p)" and l: "leaves addr self a" and st: "other_do a p = Some p'"
  shows "\<exists>q'. other_do a q = Some q' \<and> loop_holds addr q' (self, p')"
proof -
  note h = holdsD [OF holds] and o = other_owned [OF holdsD(1) [OF holds] l st]
  have "(addr, QueueLock i) \<in> pr_sync p' \<longleftrightarrow> (addr, QueueLock i) \<in> pr_sync p" for i using o(2) by blast
  then show ?thesis using other_alone [OF h(1) l st] o(1) h(2-5) by (auto simp: loop_holds_def)
qed

lemma act_holds:
  assumes holds: "loop_holds addr q (self, p)" and st: "la_do env os settime addr a (self, p) = Some (self', p')"
  shows "\<exists>q'. run_acts other_do (others [a]) q = Some q' \<and> loop_holds addr q' (self', p')"
proof (cases a)
  case LaQueueCreate
  then show ?thesis using st queue_create_holds [OF holds] by (auto simp: List.map_filter_def)
next
  case (LaQueueDrop i)
  then show ?thesis using st queue_drop_holds [OF holds] by (auto simp: List.map_filter_def)
next
  case (LaEventOpen fd params events flags)
  then show ?thesis using st event_open_holds [OF holds] by (auto simp: List.map_filter_def)
next
  case (LaEpollDel fd)
  then show ?thesis using st epoll_holds [OF holds] by (auto simp: List.map_filter_def ntt_loop_epoll_del_def)
next
  case (LaEventEnd i)
  then obtain slab where g: "ntt_slab_give env (lb_event_slab self) i = Some slab" "self' = self\<lparr>lb_event_slab := slab\<rparr>" "p' = p" using st by auto
  note f = slab_give_shape [OF g(1)]
  have "loop_holds addr q (self', p')"
    by (rule holds_step [OF holds]) (use holdsD(3-8) [OF holds] f in \<open>simp_all add: g(2,3) give_memory\<close>)
  then show ?thesis using LaEventEnd by (simp add: List.map_filter_def)
next
  case (LaRegister i g d t)
  then show ?thesis using st register_holds [OF holds] by (auto simp: List.map_filter_def)
next
  case (LaWakeup ts_loop)
  then show ?thesis using st combine_fd_holds(1) [OF holds] holds by (auto simp: List.map_filter_def combine_wakeup_def)
next
  case LaRead
  then show ?thesis using st combine_fd_holds(2) [OF holds] by (auto simp: List.map_filter_def)
next
  case (LaInner self1)
  then show ?thesis using st inner_holds [OF holds] by (auto simp: List.map_filter_def split: if_splits)
next
  case (LaOther b)
  then have "leaves addr self b" "other_do b p = Some p'" "self' = self" using st by (auto split: if_splits)
  then obtain q' where "other_do b q = Some q'" "loop_holds addr q' (self', p')" using other_holds [OF holds] by blast
  then show ?thesis using LaOther by (simp add: List.map_filter_def)
qed

lemma run_acts_append: "run_acts f (as @ bs) s = (case run_acts f as s of None \<Rightarrow> None | Some t \<Rightarrow> run_acts f bs t)"
  by (induction as arbitrary: s) (auto split: option.splits)

lemma run_holds:
  assumes "loop_holds addr q sp" "run_acts (la_do env os settime addr) acts sp = Some sp'"
  shows "\<exists>q'. run_acts other_do (others acts) q = Some q' \<and> loop_holds addr q' sp'"
  using assms
proof (induction acts arbitrary: q sp)
  case (Cons a acts)
  then obtain sp1 where a: "la_do env os settime addr a sp = Some sp1" "run_acts (la_do env os settime addr) acts sp1 = Some sp'"
    by (auto split: option.splits)
  obtain q1 where q1: "run_acts other_do (others [a]) q = Some q1" "loop_holds addr q1 sp1"
    using act_holds [of addr q "fst sp" "snd sp" env os settime a "fst sp1" "snd sp1"] Cons.prems(1) a(1) by auto
  have "others (a # acts) = others [a] @ others acts" by (simp add: List.map_filter_def)
  then show ?case using Cons.IH [OF q1(2) a(2)] q1(1) by (simp add: run_acts_append)
qed (simp add: List.map_filter_def)

lemma boot_holds:
  assumes ok: "process_ok p" and sz: "sl_stride (ntt_slab_init (sz_event sz)) \<noteq> 0" and ts: "ts_loop = NULL \<or> ts_loop \<in> pr_heap p"
    and boot: "loop_boot env os sz ts_loop task width events queues p = Some (addr, self, p')" and none: "\<forall>i. \<not> qu_open (queues i)"
  shows "loop_holds addr p (self, p')"
proof -
  obtain e c t eb qb threads where b: "distinct [NULL, addr, eb, qb]" "{addr, eb, qb} \<inter> pr_heap p = {}" "distinct [-1, e, c, t]"
    "pr_fds p e = None" "pr_fds p c = None" "pr_fds p t = None"
    "distinct threads" "length threads = unat (ntt_loop_clamp_width width) - 1" "set threads \<inter> pr_threads p = {}"
    "self = booted sz task (ntt_loop_clamp_width width) events queues e c t eb qb threads"
    "p' = loop_process addr e c t 1 {QueueLock 0} {addr, eb, qb} (set threads) p"
    by (rule loop_boot_shape [OF sz ts boot])
  have own: "loop_owns addr self p'" "without_loop addr self p' = p"
    unfolding b(10,11) by (rule boot_owned(1,2) [OF ok b(1-7) b(9)])+
  have fit: "slab_fit (slab_with stride base n)" for stride base n by (simp add: slab_fit_def slab_with_def)
  have "(addr, QueueLock i) \<in> pr_sync p' \<longleftrightarrow> qu_open (lb_queues self i)" for i
    using fresh_sync [OF ok, of addr "QueueLock i"] b(2) none
    by (auto simp: b(10,11) loop_process_def loop_sync_def booted_def first_queue_def)
  then show ?thesis using own fit by (simp add: loop_holds_def) (simp add: b(10) booted_def opened_def)
qed

text \<open>The end of a loop after a run.\<close>

lemma run_end:
  assumes holds: "loop_holds addr p (self, p1)" and run: "run_acts (la_do env os settime addr) acts (self, p1) = Some (self2, p2)"
    and live: "ntt_queue_heap_has_live env (sv_queues (lb_service self2)) (lb_queue_slab self2) = Some False"
    and empty: "co_list (lb_combine self2) = []" and gone: "\<forall>i. \<not> qu_open (lb_queues self2 i)"
  shows "\<exists>q. run_acts other_do (others acts) p = Some q \<and> loop_end env addr self2 p2 = Some q"
proof -
  obtain q where q: "run_acts other_do (others acts) p = Some q" "loop_holds addr q (self2, p2)"
    using run_holds [OF holds run] by blast
  have "\<forall>i. (addr, QueueLock i) \<notin> pr_sync p2" using holdsD(5) [OF q(2)] gone by simp
  then have "loop_end env addr self2 p2 = Some q" using loop_end_owned [OF holdsD(1) [OF q(2)] live empty] holdsD(2) [OF q(2)] by simp
  then show ?thesis using q(1) by blast
qed

section \<open>Properties\<close>


text \<open>
  A run of a loop: its first queue is taken by a worker and its task is done, it has registered for a timer, and then it goes away, while another
  thread closes a descriptor of its own.
\<close>

definition after_task :: "loop_obj \<Rightarrow> loop_obj" where
  "after_task self = self\<lparr>lb_combine := ntt_combine_init_with_wakeup,
     lb_queues := (lb_queues self)(0 := (first_queue 100)\<lparr>qu_tasks := [], qu_linked := False\<rparr>)\<rparr>"

definition run_demo :: "loop_obj \<Rightarrow> loop_act list" where
  "run_demo self = [LaInner (after_task self), LaRegister 0 1 500 0, LaOther (OClose 2), LaQueueDrop 0]"

definition demo_service :: ntt_timer_service where
  "demo_service = \<lparr>sv_queues = \<lparr>qh_elems = Some \<lparr>qe_deadline = 500, qe_index = 0, qe_generation = 1\<rparr> # replicate 7 None,
     qh_size = 1, qh_tombstones = 0, qh_capacity = 8\<rparr>, sv_armed = 500, sv_timerfd = Some (0, 500)\<rparr>"

lemma demo_register: "ntt_timer_service_register loop_env (\<lambda>_ _. True) slab ntt_timer_service_init 0 1 500 0 = Some demo_service"
proof -
  have "ntt_queue_heap_push loop_env ntt_queue_heap_init 0 1 500 = Some (sv_queues demo_service)" by code_simp
  moreover have "ntt_timer_service_arm_locked (\<lambda>_ _. True) (ntt_timer_service_init\<lparr>sv_queues := sv_queues demo_service\<rparr>) = Some demo_service"
    by code_simp
  moreover have "sv_queues ntt_timer_service_init = ntt_queue_heap_init" by (simp add: ntt_timer_service_init_def)
  ultimately show ?thesis by (simp add: ntt_timer_service_register_def)
qed

definition slab_given :: "u32 \<Rightarrow> ptr \<Rightarrow> ntt_slab" where
  "slab_given stride base = (slab_with stride base 1)\<lparr>sl_free_head := 0,
     sl_mem := (sl_mem (slab_with stride base 1))(base \<mapsto> \<lparr>sh_generation = 2, sh_index = 0, sh_next_free = Some NTT_SLAB_NONE\<rparr>)\<rparr>"

lemma demo_give: "ntt_slab_give loop_env (slab_with stride base 1) 0 = Some (slab_given stride base)"
  by (simp add: slab_given_def ntt_slab_give_def ntt_slab_at_def ntt_slab_retire_def slab_with_def loop_env_def ntt_assert_def ntt_slab_fresh_at_def slab_block_base_def
      slab_consts)

lemma demo_dead: "ntt_queue_heap_live env (slab_given stride base) \<lparr>qe_deadline = 500, qe_index = 0, qe_generation = 1\<rparr> = Some False"
proof -
  have "sl_blocks (slab_given stride base) = base # replicate 26 NULL" "sl_size (slab_given stride base) = 1"
    "sl_mem (slab_given stride base) base = Some \<lparr>sh_generation = 2, sh_index = 0, sh_next_free = Some NTT_SLAB_NONE\<rparr>"
    by (simp_all add: slab_given_def slab_with_def)
  then show ?thesis by (simp add: ntt_queue_heap_live_def ntt_slab_at_def ntt_assert_def ntt_slab_fresh_at_def slab_block_base_def slab_consts ntt_slab_generation_def)
qed

lemma demo_no_live: "ntt_queue_heap_has_live env (sv_queues demo_service) (slab_given stride base) = Some False"
proof -
  have "sv_queues demo_service = \<lparr>qh_elems = Some \<lparr>qe_deadline = 500, qe_index = 0, qe_generation = 1\<rparr> # replicate 7 None,
     qh_size = 1, qh_tombstones = 0, qh_capacity = 8\<rparr>" by (simp add: demo_service_def)
  then show ?thesis
    by (simp add: ntt_queue_heap_has_live_def queue_heap_any_live.simps [of env _ _ 0] queue_heap_any_live.simps [of env _ _ 1] arr_read_def demo_dead)
qed

lemma demo_run:
  assumes "self = booted some_sizes 100 w (\<lambda>_. blank_event) (\<lambda>_. blank_queue) e c t eb qb threads"
    and "p = loop_process addr e c t 1 {QueueLock 0} {addr, eb, qb} T shell" and fds: "distinct [-1, e, c, t]" "2 \<notin> {e, c, t}"
  obtains self' p' where "run_acts (la_do loop_env small_os (\<lambda>_ _. True) addr) (run_demo self) (self, p) = Some (self', p')"
    "lb_elems self' \<noteq> NULL" "ntt_queue_heap_has_live loop_env (sv_queues (lb_service self')) (lb_queue_slab self') = Some False"
    "co_list (lb_combine self') = []" "\<forall>i. \<not> qu_open (lb_queues self' i)"
proof -
  let ?st = "sl_stride (ntt_slab_init (sz_queue some_sizes))" and ?q = "(first_queue 100)\<lparr>qu_tasks := [], qu_linked := False\<rparr>"
  have f: "lb_queue_slab self = slab_with ?st qb 1" "lb_service self = ntt_timer_service_init" "lb_elems self = NULL" "loop_fds self = [e, c, t]"
    "lb_queues self = (\<lambda>_. blank_queue)(0 := first_queue 100)" "lo_work_cnt (lb_loop self) = 1"
    by (simp_all add: assms(1) booted_def opened_def loop_fields_def loop_fds_def)
  let ?s1 = "after_task self"
  have 1: "la_do loop_env small_os (\<lambda>_ _. True) addr (LaInner ?s1) (self, p) = Some (?s1, p)"
    by (simp add: inner_change_def after_task_def f loop_fds_def first_queue_def)
  have "finite (pr_heap p)" "card (pr_heap p) \<le> 3" using card_insert_le_m1 [of 3 "{eb, qb}" addr] by (auto simp: assms(2) loop_process_def shell_def card_insert_if)
  then have "os_malloc small_os 128 (p\<lparr>pr_heap := pr_heap p - {NULL}\<rparr>) \<noteq> NULL"
    using small_os_plenty card_Diff1_le [of "pr_heap p" NULL] unfolding plenty_def by simp
  then obtain b p1 where r: "realloc_or_die small_os NULL 128 p = Some (b, p1)" by (auto simp: realloc_or_die_def Let_def)
  note rs = realloc_shape [OF r]
  let ?s2 = "?s1\<lparr>lb_service := demo_service, lb_elems := b\<rparr>"
  have cap: "qh_capacity (sv_queues demo_service) = 8" "qh_capacity (sv_queues ntt_timer_service_init) = 0"
    by (simp_all add: demo_service_def ntt_timer_service_init_def ntt_queue_heap_init_def)
  have 2: "la_do loop_env small_os (\<lambda>_ _. True) addr (LaRegister 0 1 500 0) (?s1, p) = Some (?s2, p1)"
    using r by (simp add: service_register_def after_task_def f demo_register cap)
  have 3: "la_do loop_env small_os (\<lambda>_ _. True) addr (LaOther (OClose 2)) (?s2, p1) = Some (?s2, os_close 2 p1)"
    using fds(2) by (simp add: after_task_def) (simp add: loop_fds_def f(4) [unfolded loop_fds_def])
  let ?s3 = "?s2\<lparr>lb_queues := (lb_queues ?s2)(0 := ?q\<lparr>qu_external_refs := 0, qu_open := False\<rparr>), lb_queue_slab := slab_given ?st qb, lb_loop := (lb_loop ?s2)\<lparr>lo_work_cnt := 0\<rparr>\<rparr>"
  have "(addr, QueueLock 0) \<in> pr_sync (os_close 2 p1)" by (simp add: os_close_def rs(3) assms(2) loop_process_def)
  then obtain p2 where p2: "sync_destroy (addr, QueueLock 0) (os_close 2 p1) = Some p2" by (simp add: sync_destroy_def)
  have 4: "la_do loop_env small_os (\<lambda>_ _. True) addr (LaQueueDrop 0) (?s2, os_close 2 p1) = Some (?s3, p2)"
    using p2 by (simp add: queue_drop_def after_task_def first_queue_def ntt_queue_release_def ntt_queue_use_count_def ntt_queue_deinit_def ntt_queue_empty_def
        ntt_queue_unlinked_def ntt_queue_from_slab_def f demo_give work_drop_def ntt_assert_def del: One_nat_def)
  show thesis
  proof (rule that)
    show "run_acts (la_do loop_env small_os (\<lambda>_ _. True) addr) (run_demo self) (self, p) = Some (?s3, p2)"
      by (simp add: run_demo_def 1 2 3 4 del: la_do.simps)
    show "lb_elems ?s3 \<noteq> NULL" using rs(1) by simp
    show "ntt_queue_heap_has_live loop_env (sv_queues (lb_service ?s3)) (lb_queue_slab ?s3) = Some False" by (simp add: demo_no_live)
    show "co_list (lb_combine ?s3) = []" by (simp add: after_task_def ntt_combine_init_with_wakeup_def)
    show "\<forall>i. \<not> qu_open (lb_queues ?s3 i)" by (simp add: after_task_def f blank_queue_def)
  qed
qed


end
