(* ===== verification/Loop_End.thy ===== *)
theory Loop_End
  imports System_Props Timer_End_Props Loop_Resources
begin

text \<open>
  The end of a loop, from the models of its parts: the workers, queues and the combine (\<open>System\<close>), the timers (\<open>Timer_Machine\<close>) and what the loop has of
  the operating system (\<open>Loop_Boot\<close>, \<open>Loop_Resources\<close>).
\<close>

text \<open>
  What the three say of one loop at its end: the combine, the service and the slab of queues are the same objects, and a queue that has
  references for the timers is open for the workers.
\<close>

definition one_loop :: "loop_obj \<Rightarrow> nt_sys \<Rightarrow> timer_sys \<Rightarrow> bool" where
  "one_loop self s t \<longleftrightarrow> lb_combine self = nt_combine s \<and> lb_service self = tm_service t \<and> lb_queue_slab self = tm_slab t \<and>
     (\<forall>i. qu_open (lb_queues self i) \<longrightarrow> nt_open (nt_queues s (unat i))) \<and>
     (\<forall>i. qt_refs (tm_queues t i) \<noteq> 0 \<longrightarrow> nt_open (nt_queues s (unat i)))"

text \<open>
  When all workers have left, \<open>ntt_loop_run\<close> returns with everything given back, however the loop has used the process: the queues are gone, so
  the combine is empty and no registration of a timer is live.
\<close>

theorem loop_returns_clean:
  assumes "nt_reachable env width task s" "lo_enabled (nt_loop s) LoDestroy \<or> ls_destroyed (nt_loop s)"
    and "machine_ok env aligned settime n" "tm_reachable env aligned settime n S" "one_loop self2 s (tx_sys S)"
    and "process_ok p" "sl_stride (ntt_slab_init (sz_event sz)) \<noteq> 0" "ts_loop = NULL \<or> ts_loop \<in> pr_heap p" "\<forall>i. \<not> qu_open (queues i)"
    and "loop_boot env os sz ts_loop task width events queues p = Some (addr, self, p1)"
    and "run_acts (la_do env os settime addr) acts (self, p1) = Some (self2, p2)"
  shows "\<exists>q. run_acts other_do (others acts) p = Some q \<and> loop_end env addr self2 p2 = Some q"
proof (rule run_end [OF boot_holds [OF assms(6-8,10,9)] assms(11)])
  show "co_list (lb_combine self2) = []" using system_over(2) [OF assms(1,2)] assms(5) by (simp add: one_loop_def)
  show "\<forall>i. \<not> qu_open (lb_queues self2 i)" using system_over(1) [OF assms(1,2)] assms(5) by (auto simp: one_loop_def)
  have ok: "sys_ok aligned (tx_sys S)" by (rule tm_invD(1) [OF machine_inv [OF assms(3,4)]])
  have y: "young (tx_sys S)" using tm_reachable_young [OF assms(4)] assms(3) by (simp add: machine_ok_def)
  have "\<forall>i. qt_refs (tm_queues (tx_sys S) i) = 0" using system_over(1) [OF assms(1,2)] assms(5) by (auto simp: one_loop_def)
  then show "ntt_queue_heap_has_live env (sv_queues (lb_service self2)) (lb_queue_slab self2) = Some False"
    using ended_no_live [OF ok y, of env] assms(5) by (simp add: one_loop_def)
qed

end
