(* ===== verification/Clock.thy ===== *)
theory Clock
  imports Timer_Props
begin

text \<open>
  The clock of the timers, \<open>ntt_now_ns\<close> of \<open>src/src/timer_service.c\<close>: seconds and nanoseconds as one number, what the
  timer descriptor is set to in these terms, and timers that are armed relative to now.
\<close>

text \<open>What \<open>clock_gettime\<close> has stored is the argument.\<close>

definition ntt_now_ns :: "u64 \<Rightarrow> u64 \<Rightarrow> u64" where
  "ntt_now_ns tv_sec tv_nsec = tv_sec * 1000000000 + tv_nsec"

lemma now_ns_exact:
  assumes "unat sec * 1000000000 + unat nsec < 18446744073709551616"
  shows "unat (ntt_now_ns sec nsec) = unat sec * 1000000000 + unat nsec"
proof -
  have "unat sec * unat (1000000000 :: u64) < 2 ^ LENGTH(64)" using assms by simp
  then have "unat (sec * 1000000000) = unat sec * unat (1000000000 :: u64)" by (rule unat_mult_lem [THEN iffD1])
  then have "unat (sec * 1000000000) = unat sec * 1000000000" by simp
  then show ?thesis unfolding ntt_now_ns_def using assms by (subst unat_add64_noflow) simp_all
qed

lemma timerfd_at_now:
  "ntt_now_ns (fst (timerfd_at d)) (snd (timerfd_at d)) = (if d = 0 then 1 else d)"
  "unat (snd (timerfd_at d)) < 1000000000" "timerfd_at d \<noteq> (0, 0)"
proof -
  have n: "unat (d div 1000000000) = unat d div 1000000000" "unat (d mod 1000000000) = unat d mod 1000000000" by (simp_all add: unat_div unat_mod)
  show "ntt_now_ns (fst (timerfd_at d)) (snd (timerfd_at d)) = (if d = 0 then 1 else d)"
  proof (cases "d = 0")
    case False
    have "unat d div 1000000000 * 1000000000 + unat d mod 1000000000 = unat d" by simp
    moreover have "unat d < 18446744073709551616" using unsigned_less [of d] by simp
    ultimately have "unat (ntt_now_ns (d div 1000000000) (d mod 1000000000)) = unat d" by (subst now_ns_exact) (simp_all add: n)
    then show ?thesis using False by (simp add: timerfd_at_def)
  qed (simp add: timerfd_at_def ntt_now_ns_def)
  show "unat (snd (timerfd_at d)) < 1000000000" by (simp add: timerfd_at_def n)
  show "timerfd_at d \<noteq> (0, 0)"
  proof
    assume a: "timerfd_at d = (0, 0)"
    then have "d \<noteq> 0" by (auto simp: timerfd_at_def)
    then have "unat d div 1000000000 = 0" "unat d mod 1000000000 = 0" using a n by (simp_all add: timerfd_at_def)
    then have "unat d = 0" by (metis div_mult_mod_eq mult_zero_left add_0)
    then show False using \<open>d \<noteq> 0\<close> by (simp add: unat_eq_zero)
  qed
qed

section \<open>Properties\<close>

text \<open>
  C26. The timer descriptor is set to the deadline it is to be armed at: the seconds and nanoseconds given to the kernel, read the way \<open>ntt_now_ns\<close> reads
  the clock, are the deadline again, for every deadline of 64 bits; they are a valid time, and never the zero that would
  disarm the descriptor: deadline zero is set to one nanosecond.
\<close>

theorem timerfd_set_roundtrip:
  assumes "ntt_timer_service_arm_locked settime sv = Some sv'" "sv_armed sv' \<noteq> sv_armed sv"
  shows "\<exists>sec nsec. sv_timerfd sv' = Some (sec, nsec) \<and> ntt_now_ns sec nsec = (if sv_armed sv' = 0 then 1 else sv_armed sv') \<and>
    unat nsec < 1000000000 \<and> (sec, nsec) \<noteq> (0, 0)"
proof -
  have "sv_timerfd sv' = Some (timerfd_at (sv_armed sv'))"
  proof -
    have z: "d div 1000000000 = 0 \<and> d mod 1000000000 = 0 \<longleftrightarrow> d = 0" for d :: u64
      by (metis div_mult_mod_eq mult_zero_left add_0 div_0 mod_0)
    obtain d where top: "ntt_queue_heap_top (sv_queues sv) = Some (Some d)" "\<not> sv_armed sv \<le> d"
      using assms by (auto simp: ntt_timer_service_arm_locked_def split: bind_splits option.splits if_splits)
    show ?thesis using assms(1) top z [of d]
      by (cases "settime (d div 1000000000) (if d = 0 then 1 else d mod 1000000000)")
        (auto simp: ntt_timer_service_arm_locked_def ntt_die_def timerfd_at_def Let_def)
  qed
  then show ?thesis using timerfd_at_now [of "sv_armed sv'"] by (metis prod.collapse)
qed

theorem timerfd_set_roundtrip_witness:
  "\<exists>sv' sec nsec. ntt_timer_service_arm_locked any_time (demo_svc\<lparr>sv_armed := UINT64_MAX\<rparr>) = Some sv' \<and> sv_timerfd sv' = Some (sec, nsec) \<and>
     ntt_now_ns sec nsec = 5"
proof -
  have "ntt_timer_service_arm_locked any_time (demo_svc\<lparr>sv_armed := UINT64_MAX\<rparr>) = Some demo_svc" by code_simp
  moreover have "sv_armed demo_svc = 5" "sv_armed demo_svc \<noteq> sv_armed (demo_svc\<lparr>sv_armed := UINT64_MAX\<rparr>)"
    by (simp_all add: demo_svc_def UINT64_MAX_def)
  ultimately show ?thesis using timerfd_set_roundtrip by fastforce
qed

text \<open>
  C27. A timer that is armed relative to now gets the deadline that is that much later on the clock, as long as it is before the end of
  the 64 bits; a longer delay wraps around to a deadline in the past, and the timer is due at once.
\<close>

theorem wakeup_after_deadline:
  assumes "env_ok env" "settime_ok settime" "sync_pre aligned i s" "th_room (qt_timers (tm_queues s i))"
    and "task \<noteq> NULL" "ntt_task_unlinked m task" "unat sec * 1000000000 + unat nsec < 18446744073709551616"
  shows "\<exists>tag s' d q. ntt_self_wakeup_after env settime m i (ntt_now_ns sec nsec) delay task s = Some (tag, s') \<and>
    v_armed (view s' i) tag = Some (d, q, task) \<and>
    (if unat sec * 1000000000 + unat nsec + unat delay < 18446744073709551616
     then unat d = unat sec * 1000000000 + unat nsec + unat delay else d < ntt_now_ns sec nsec)"
proof -
  let ?now = "ntt_now_ns sec nsec"
  obtain tag s' where a: "ntt_self_wakeup_at env settime m i (?now + delay) task s = Some (tag, s')"
    "v_armed (view s' i) = (v_armed (view s i))(tag \<mapsto> (?now + delay, th_seq_next (qt_timers (tm_queues s i)), task))"
    using wakeup_at_registers [OF assms(1-6)] by blast
  note now = now_ns_exact [OF assms(7)]
  have "if unat ?now + unat delay < 18446744073709551616 then unat (?now + delay) = unat ?now + unat delay else ?now + delay < ?now"
  proof (cases "unat ?now + unat delay < 18446744073709551616")
    case False
    have b: "unat ?now < 18446744073709551616" "unat delay < 18446744073709551616" using unsigned_less [of ?now] unsigned_less [of delay] by simp_all
    have "unat (?now + delay) = (unat ?now + unat delay) mod 18446744073709551616" by (simp add: unat_word_ariths)
    also have "\<dots> = unat ?now + unat delay - 18446744073709551616" using False b by (subst mod_if) auto
    finally show ?thesis using False b(2) by (simp add: word_less_nat_alt)
  qed (simp add: unat_add64_noflow)
  then show ?thesis using a by (auto simp: ntt_self_wakeup_after_def now)
qed

theorem wakeup_after_deadline_witness:
  "\<exists>tag s' d q. ntt_self_wakeup_after debug_env any_time mem0 0 (ntt_now_ns 2 7) UINT64_MAX 128 (tx_sys demo_armed) = Some (tag, s') \<and>
     v_armed (view s' 0) tag = Some (d, q, 128) \<and> d < ntt_now_ns 2 7"
proof -
  have room: "th_room (qt_timers (tm_queues (tx_sys demo_armed) 0))" using demo_room by (simp add: demo_armed_def demo_state_def demo_timers)
  have set: "settime_ok any_time" by (simp add: settime_ok_def any_time_def)
  have "(128 :: ptr) \<noteq> NULL" "ntt_task_unlinked mem0 128" by (simp, code_simp)
  note after = wakeup_after_deadline [OF debug_env_ok set demo_sync_pre room this, of 2 7 UINT64_MAX]
  have "unat UINT64_MAX = 18446744073709551615" by (simp add: UINT64_MAX_def unsigned_minus_1_eq_mask mask_eq_exp_minus_1)
  then show ?thesis using after by simp
qed

end
