(* ===== verification/Signal.thy ===== *)
theory Signal
  imports Ntt_Prelude
begin

text \<open>
  Signals: \<open>src/src/signal.c\<close>, \<open>src/src/signal.h\<close> and \<open>src/include/ntt/signal.h\<close>. A signal that is set up is turned into the count of an event
  descriptor. The operating system is a record of the dispositions of the signals, the open descriptors and
  the signal mask of the thread that calls; the number that \<open>eventfd\<close> returns is a parameter. \<open>SIGRTMIN\<close> and
  \<open>SIGRTMAX\<close> are values of the C library, known when the program runs, and parameters of the names of signals.
\<close>

section \<open>Names\<close>

definition SIGHUP :: int where "SIGHUP = 1"
definition SIGINT :: int where "SIGINT = 2"
definition SIGQUIT :: int where "SIGQUIT = 3"
definition SIGABRT :: int where "SIGABRT = 6"
definition SIGKILL :: int where "SIGKILL = 9"
definition SIGUSR1 :: int where "SIGUSR1 = 10"
definition SIGSEGV :: int where "SIGSEGV = 11"
definition SIGUSR2 :: int where "SIGUSR2 = 12"
definition SIGPIPE :: int where "SIGPIPE = 13"
definition SIGALRM :: int where "SIGALRM = 14"
definition SIGTERM :: int where "SIGTERM = 15"
definition NSIG :: int where "NSIG = 65"

lemmas sig_defs = SIGHUP_def SIGINT_def SIGQUIT_def SIGABRT_def SIGKILL_def SIGUSR1_def SIGSEGV_def SIGUSR2_def SIGPIPE_def
  SIGALRM_def SIGTERM_def NSIG_def

text \<open>What \<open>%d\<close> prints, and \<open>snprintf\<close> into a buffer, which leaves room for the end of the string.\<close>

definition digit :: "nat \<Rightarrow> char" where
  "digit d = char_of (48 + d)"

fun dec :: "nat \<Rightarrow> string" where
  "dec n = (if n < 10 then [digit n] else dec (n div 10) @ [digit (n mod 10)])"

declare dec.simps [simp del]

definition dec_int :: "int \<Rightarrow> string" where
  "dec_int i = (if i < 0 then ''-'' @ dec (nat (- i)) else dec (nat i))"

definition snprintf :: "nat \<Rightarrow> string \<Rightarrow> string" where
  "snprintf n out = take (n - 1) out"

definition sig_name :: "int \<Rightarrow> int \<Rightarrow> int \<Rightarrow> string" where
  "sig_name SIGRTMIN SIGRTMAX sig =
     (if SIGRTMIN \<le> sig \<and> sig \<le> SIGRTMAX then snprintf 32 (''SIGRTMIN+'' @ dec_int (sig - SIGRTMIN))
      else if sig = SIGINT then ''SIGINT''
      else if sig = SIGTERM then ''SIGTERM''
      else if sig = SIGKILL then ''SIGKILL''
      else if sig = SIGSEGV then ''SIGSEGV''
      else if sig = SIGABRT then ''SIGABRT''
      else if sig = SIGPIPE then ''SIGPIPE''
      else if sig = SIGALRM then ''SIGALRM''
      else if sig = SIGHUP then ''SIGHUP''
      else if sig = SIGQUIT then ''SIGQUIT''
      else if sig = SIGUSR1 then ''SIGUSR1''
      else if sig = SIGUSR2 then ''SIGUSR2''
      else snprintf 32 (''UNKNOWN('' @ dec_int sig @ '')''))"

section \<open>Masks\<close>

type_synonym sigset = "int \<Rightarrow> bool"

text \<open>\<open>sigismember\<close> fails with \<open>-1\<close> for what is not a signal.\<close>

definition sigismember :: "sigset \<Rightarrow> int \<Rightarrow> int" where
  "sigismember sigset sig = (if sig \<le> 0 \<or> NSIG \<le> sig then -1 else if sigset sig then 1 else 0)"

text \<open>\<open>None\<close> for a call of \<open>pthread_sigmask\<close> that fails.\<close>

definition ntt_sigup_blocked :: "int \<Rightarrow> sigset option \<Rightarrow> int" where
  "ntt_sigup_blocked SIGRTMIN current_mask = (case current_mask of None \<Rightarrow> 1 | Some current \<Rightarrow> sigismember current SIGRTMIN)"

definition ntt_print_blocked_signals :: "int \<Rightarrow> int \<Rightarrow> sigset \<Rightarrow> string list" where
  "ntt_print_blocked_signals SIGRTMIN SIGRTMAX sigset =
     map (sig_name SIGRTMIN SIGRTMAX) (filter (\<lambda>i. sigismember sigset i \<noteq> 0) [0 .. NSIG - 1])"

section \<open>The operating system\<close>

text \<open>What a signal does: the default, the handler of ntt, or a handler of somebody else.\<close>

datatype sigaction = SIG_DFL | NttHandler | UserHandler nat

text \<open>An open descriptor: the counter of an event descriptor, or something else with the bytes written to it.\<close>

datatype fd_kind = EventFd u64 | OtherFd "u64 list"

record sig_os =
  so_action :: "int \<Rightarrow> sigaction"
  so_fds :: "int \<Rightarrow> fd_kind option"
  so_mask :: sigset

text \<open>Closing and writing what is not open fails and has no effect; a counter stops below its largest value.\<close>

definition os_close :: "int \<Rightarrow> sig_os \<Rightarrow> sig_os" where
  "os_close fd os = os\<lparr>so_fds := (so_fds os)(fd := None)\<rparr>"

definition os_write :: "int \<Rightarrow> u64 \<Rightarrow> sig_os \<Rightarrow> sig_os" where
  "os_write fd value os = (case so_fds os fd of
     None \<Rightarrow> os
   | Some (EventFd n) \<Rightarrow> if unat n + unat value < 2 ^ 64 - 1 then os\<lparr>so_fds := (so_fds os)(fd \<mapsto> EventFd (n + value))\<rparr> else os
   | Some (OtherFd ws) \<Rightarrow> os\<lparr>so_fds := (so_fds os)(fd \<mapsto> OtherFd (ws @ [value]))\<rparr>)"

text \<open>A new event descriptor with the number \<open>fd\<close>, or a failure for \<open>fd = -1\<close>.\<close>

definition os_eventfd :: "u64 \<Rightarrow> int \<Rightarrow> sig_os \<Rightarrow> int \<times> sig_os" where
  "os_eventfd n fd os = (fd, if fd = -1 then os else os\<lparr>so_fds := (so_fds os)(fd \<mapsto> EventFd n)\<rparr>)"

definition os_sigaction :: "int \<Rightarrow> sigaction \<Rightarrow> sig_os \<Rightarrow> sigaction \<times> sig_os" where
  "os_sigaction sig new os = (so_action os sig, os\<lparr>so_action := (so_action os)(sig := new)\<rparr>)"

definition os_mask :: "bool \<Rightarrow> int \<Rightarrow> sig_os \<Rightarrow> sig_os" where
  "os_mask b sig os = os\<lparr>so_mask := (so_mask os)(sig := b)\<rparr>"

section \<open>The three signals\<close>

record ntt_signal =
  sg_old_action :: sigaction
  sg_eventfd :: int

definition signal_init :: ntt_signal where
  "signal_init = \<lparr>sg_old_action = SIG_DFL, sg_eventfd = -1\<rparr>"

datatype sig_slot = g_siterm | g_sigint | g_sighup

text \<open>The slots and the operating system.\<close>

record sig_state =
  ss_slot :: "sig_slot \<Rightarrow> ntt_signal"
  ss_os :: sig_os

definition ntt_signal_select :: "int \<Rightarrow> sig_slot option" where
  "ntt_signal_select sig =
     (if sig = SIGTERM then Some g_siterm else if sig = SIGINT then Some g_sigint
      else if sig = SIGHUP then Some g_sighup else None)"

text \<open>The handler reads the number of the descriptor, and then writes to it.\<close>

definition signal_write :: "int \<Rightarrow> sig_state \<Rightarrow> sig_state" where
  "signal_write fd s = s\<lparr>ss_os := os_write fd 1 (ss_os s)\<rparr>"

definition ntt_signal_raise :: "sig_slot \<Rightarrow> sig_state \<Rightarrow> sig_state" where
  "ntt_signal_raise self s = signal_write (sg_eventfd (ss_slot s self)) s"

definition ntt_signal_handler :: "int \<Rightarrow> sig_state \<Rightarrow> sig_state" where
  "ntt_signal_handler sig s = (case ntt_signal_select sig of None \<Rightarrow> s | Some self \<Rightarrow> ntt_signal_raise self s)"

text \<open>
  Setting up and giving back have two halves each, between which other threads go on: first the descriptor and then the disposition, and
  first the disposition and then the descriptor. The mask is that of the calling thread from the first to the second half.
\<close>

definition signal_open :: "int \<Rightarrow> int \<Rightarrow> sig_state \<Rightarrow> sig_state" where
  "signal_open fd sig s = (case ntt_signal_select sig of None \<Rightarrow> s
   | Some self \<Rightarrow>
       let os1 = os_mask True sig (ss_os s);
           (efd, os2) = os_eventfd 0 fd os1
       in \<lparr>ss_slot = (ss_slot s)(self := (ss_slot s self)\<lparr>sg_eventfd := efd\<rparr>), ss_os = os2\<rparr>)"

definition signal_install :: "int \<Rightarrow> sig_state \<Rightarrow> sig_state" where
  "signal_install sig s = (case ntt_signal_select sig of None \<Rightarrow> s
   | Some self \<Rightarrow>
       let (old, os1) = os_sigaction sig NttHandler (ss_os s);
           os2 = os_mask False sig os1
       in \<lparr>ss_slot = (ss_slot s)(self := (ss_slot s self)\<lparr>sg_old_action := old\<rparr>), ss_os = os2\<rparr>)"

definition ntt_signal_setup :: "int \<Rightarrow> int \<Rightarrow> sig_state \<Rightarrow> sig_state" where
  "ntt_signal_setup fd sig s = signal_install sig (signal_open fd sig s)"

definition signal_restore :: "int \<Rightarrow> sig_state \<Rightarrow> sig_state" where
  "signal_restore sig s = (case ntt_signal_select sig of None \<Rightarrow> s
   | Some self \<Rightarrow>
       let os1 = os_mask True sig (ss_os s);
           (_, os2) = os_sigaction sig (sg_old_action (ss_slot s self)) os1
       in s\<lparr>ss_os := os2\<rparr>)"

definition signal_close :: "int \<Rightarrow> sig_state \<Rightarrow> sig_state" where
  "signal_close sig s = (case ntt_signal_select sig of None \<Rightarrow> s
   | Some self \<Rightarrow>
       let os1 = os_close (sg_eventfd (ss_slot s self)) (ss_os s);
           os2 = os_mask False sig os1
       in s\<lparr>ss_os := os2\<rparr>)"

definition ntt_signal_revert :: "int \<Rightarrow> sig_state \<Rightarrow> sig_state" where
  "ntt_signal_revert sig s = signal_close sig (signal_restore sig s)"

definition ntt_signal_get_eventfd :: "int \<Rightarrow> sig_state \<Rightarrow> int" where
  "ntt_signal_get_eventfd sig s = (case ntt_signal_select sig of None \<Rightarrow> -1 | Some self \<Rightarrow> sg_eventfd (ss_slot s self))"

end
