(* ===== verification/Signal_Machine.thy ===== *)
theory Signal_Machine
  imports Signal Schedules "HOL-Library.Multiset"
begin

text \<open>
  Signals that arrive while threads run: a handler of ntt can be under way on any thread, also on one other than the
  one that sets a signal up or gives it back, since the mask is that of the calling thread only. The halves of setting up and of giving back, and the
  two steps of a handler, are interleaved, and other descriptors are opened and closed meanwhile. What is required of the callers is that
  each signal is set up and given back in turns.
\<close>

section \<open>Steps\<close>

fun sig_no :: "sig_slot \<Rightarrow> int" where
  "sig_no g_siterm = SIGTERM"
| "sig_no g_sigint = SIGINT"
| "sig_no g_sighup = SIGHUP"

text \<open>Where a signal is: not set up, with its descriptor open but not yet installed, set up, with its disposition restored but not yet closed.\<close>

datatype sig_phase = SigDown | SigOpened | SigUp | SigRestored

text \<open>
  \<open>sy_entered\<close> are the handlers that have not read the number of the descriptor, \<open>sy_loaded\<close> the numbers that handlers have read, \<open>sy_stale\<close> those of
  handlers whose descriptor has been closed before they write. For the descriptor that is open, \<open>sy_arrived\<close> counts the signals since it was
  opened, \<open>sy_left\<close> the handlers that were left from before, \<open>sy_extra\<close> what stale handlers have written to it, and \<open>sy_taken\<close> what has been read
  from it. \<open>sy_clean\<close> says that no descriptor has been closed while a handler of its signal was under way.
\<close>

record sig_sys =
  sy_state :: sig_state
  sy_phase :: "sig_slot \<Rightarrow> sig_phase"
  sy_entered :: "sig_slot \<Rightarrow> nat"
  sy_loaded :: "sig_slot \<Rightarrow> int multiset"
  sy_stale :: "sig_slot \<Rightarrow> int multiset"
  sy_arrived :: "sig_slot \<Rightarrow> nat"
  sy_left :: "sig_slot \<Rightarrow> nat"
  sy_extra :: "sig_slot \<Rightarrow> nat"
  sy_taken :: "sig_slot \<Rightarrow> nat"
  sy_clean :: bool

abbreviation sy_os :: "sig_sys \<Rightarrow> sig_os" where
  "sy_os s \<equiv> ss_os (sy_state s)"

abbreviation sy_fds :: "sig_sys \<Rightarrow> int \<Rightarrow> fd_kind option" where
  "sy_fds s \<equiv> so_fds (sy_os s)"

abbreviation sy_fd :: "sig_sys \<Rightarrow> sig_slot \<Rightarrow> int" where
  "sy_fd s sl \<equiv> ntt_signal_get_eventfd (sig_no sl) (sy_state s)"

datatype sig_act = SetOpen sig_slot int | SetInstall sig_slot | RevRestore sig_slot | RevClose sig_slot
  | SigArrive sig_slot | SigLoad sig_slot | SigWrite sig_slot int | SigStale sig_slot int | SigRead sig_slot | OtherOpen int | OtherClose int

text \<open>
  The number of a new descriptor is not in use, or \<open>-1\<close> where there is none. A signal is delivered to the handler, on some thread, whenever
  the handler is installed.
\<close>

fun sig_enabled :: "sig_sys \<Rightarrow> sig_act \<Rightarrow> bool" where
  "sig_enabled s (SetOpen sl fd) \<longleftrightarrow> sy_phase s sl = SigDown \<and> (fd = -1 \<or> 0 \<le> fd \<and> sy_fds s fd = None)"
| "sig_enabled s (SetInstall sl) \<longleftrightarrow> sy_phase s sl = SigOpened"
| "sig_enabled s (RevRestore sl) \<longleftrightarrow> sy_phase s sl = SigUp"
| "sig_enabled s (RevClose sl) \<longleftrightarrow> sy_phase s sl = SigRestored"
| "sig_enabled s (SigArrive sl) \<longleftrightarrow> so_action (sy_os s) (sig_no sl) = NttHandler"
| "sig_enabled s (SigLoad sl) \<longleftrightarrow> 0 < sy_entered s sl"
| "sig_enabled s (SigWrite sl fd) \<longleftrightarrow> fd \<in># sy_loaded s sl"
| "sig_enabled s (SigStale sl fd) \<longleftrightarrow> fd \<in># sy_stale s sl"
| "sig_enabled s (SigRead sl) \<longleftrightarrow> sy_phase s sl = SigUp \<and> (\<exists>n. sy_fds s (sy_fd s sl) = Some (EventFd n))"
| "sig_enabled s (OtherOpen fd) \<longleftrightarrow> 0 \<le> fd \<and> sy_fds s fd = None"
| "sig_enabled s (OtherClose fd) \<longleftrightarrow> (\<exists>ws. sy_fds s fd = Some (OtherFd ws))"

definition os_open :: "int \<Rightarrow> fd_kind \<Rightarrow> sig_state \<Rightarrow> sig_state" where
  "os_open fd kind st = st\<lparr>ss_os := (ss_os st)\<lparr>so_fds := (so_fds (ss_os st))(fd \<mapsto> kind)\<rparr>\<rparr>"

fun sig_do :: "sig_act \<Rightarrow> sig_sys \<Rightarrow> sig_sys" where
  "sig_do (SetOpen sl fd) s = s\<lparr>sy_state := signal_open fd (sig_no sl) (sy_state s), sy_phase := (sy_phase s)(sl := SigOpened),
     sy_arrived := (sy_arrived s)(sl := 0), sy_left := (sy_left s)(sl := sy_entered s sl), sy_extra := (sy_extra s)(sl := 0),
     sy_taken := (sy_taken s)(sl := 0)\<rparr>"
| "sig_do (SetInstall sl) s = s\<lparr>sy_state := signal_install (sig_no sl) (sy_state s), sy_phase := (sy_phase s)(sl := SigUp)\<rparr>"
| "sig_do (RevRestore sl) s = s\<lparr>sy_state := signal_restore (sig_no sl) (sy_state s), sy_phase := (sy_phase s)(sl := SigRestored)\<rparr>"
| "sig_do (RevClose sl) s = s\<lparr>sy_state := signal_close (sig_no sl) (sy_state s), sy_phase := (sy_phase s)(sl := SigDown),
     sy_loaded := (sy_loaded s)(sl := {#}), sy_stale := (sy_stale s)(sl := sy_stale s sl + sy_loaded s sl),
     sy_clean := (sy_clean s \<and> sy_entered s sl = 0 \<and> sy_loaded s sl = {#})\<rparr>"
| "sig_do (SigArrive sl) s = s\<lparr>sy_entered := (sy_entered s)(sl := sy_entered s sl + 1), sy_arrived := (sy_arrived s)(sl := sy_arrived s sl + 1)\<rparr>"
| "sig_do (SigLoad sl) s = (
     let s1 = s\<lparr>sy_entered := (sy_entered s)(sl := sy_entered s sl - 1)\<rparr>
     in if sy_phase s sl = SigDown then s1\<lparr>sy_stale := (sy_stale s)(sl := add_mset (sy_fd s sl) (sy_stale s sl))\<rparr>
        else s1\<lparr>sy_loaded := (sy_loaded s)(sl := add_mset (sy_fd s sl) (sy_loaded s sl))\<rparr>)"
| "sig_do (SigWrite sl fd) s = s\<lparr>sy_state := signal_write fd (sy_state s), sy_loaded := (sy_loaded s)(sl := sy_loaded s sl - {#fd#})\<rparr>"
| "sig_do (SigStale sl fd) s = s\<lparr>sy_state := signal_write fd (sy_state s), sy_stale := (sy_stale s)(sl := sy_stale s sl - {#fd#}),
     sy_extra := (\<lambda>sl'. sy_extra s sl' + of_bool (sy_phase s sl' \<noteq> SigDown \<and> sy_fd s sl' = fd))\<rparr>"
| "sig_do (SigRead sl) s = (case sy_fds s (sy_fd s sl) of
     Some (EventFd n) \<Rightarrow> s\<lparr>sy_state := os_open (sy_fd s sl) (EventFd 0) (sy_state s), sy_taken := (sy_taken s)(sl := sy_taken s sl + unat n)\<rparr>
   | _ \<Rightarrow> s)"
| "sig_do (OtherOpen fd) s = s\<lparr>sy_state := os_open fd (OtherFd []) (sy_state s)\<rparr>"
| "sig_do (OtherClose fd) s = s\<lparr>sy_state := (sy_state s)\<lparr>ss_os := os_close fd (sy_os s)\<rparr>\<rparr>"

definition sig_start :: "sig_os \<Rightarrow> sig_sys" where
  "sig_start os = \<lparr>sy_state = \<lparr>ss_slot = (\<lambda>_. signal_init), ss_os = os\<rparr>, sy_phase = (\<lambda>_. SigDown), sy_entered = (\<lambda>_. 0), sy_loaded = (\<lambda>_. {#}),
     sy_stale = (\<lambda>_. {#}), sy_arrived = (\<lambda>_. 0), sy_left = (\<lambda>_. 0), sy_extra = (\<lambda>_. 0), sy_taken = (\<lambda>_. 0), sy_clean = True\<rparr>"

abbreviation sig_step :: "sig_act \<Rightarrow> sig_sys \<Rightarrow> sig_sys option" where
  "sig_step \<equiv> guarded sig_enabled (\<lambda>a s. Some (sig_do a s))"

inductive sig_reachable :: "sig_os \<Rightarrow> sig_sys \<Rightarrow> bool" for os where
  sig_begin: "sig_reachable os (sig_start os)"
| sig_next: "sig_reachable os s \<Longrightarrow> sig_enabled s a \<Longrightarrow> sig_reachable os (sig_do a s)"

interpretation sig_run: scheduled sig_step "sig_reachable os" for os
  by unfold_locales (auto simp del: sig_do.simps sig_enabled.simps split: if_splits intro: sig_reachable.sig_next)

section \<open>The invariant\<close>

text \<open>What holds before the first signal is set up.\<close>

definition os_fresh :: "sig_os \<Rightarrow> bool" where
  "os_fresh os \<longleftrightarrow> (\<forall>sl. so_action os (sig_no sl) \<noteq> NttHandler) \<and> so_fds os (-1) = None"

text \<open>The sum that the descriptor of a signal keeps, below the limit of its counter.\<close>

definition sig_counts :: "sig_sys \<Rightarrow> sig_slot \<Rightarrow> bool" where
  "sig_counts s sl \<longleftrightarrow> (\<exists>n. sy_fds s (sy_fd s sl) = Some (EventFd n) \<and>
     (sy_arrived s sl + sy_left s sl + sy_extra s sl < 2 ^ 64 - 1 \<longrightarrow>
        sy_taken s sl + unat n + sy_entered s sl + size (sy_loaded s sl) = sy_arrived s sl + sy_left s sl + sy_extra s sl))"

definition sig_slot_ok :: "sig_os \<Rightarrow> sig_sys \<Rightarrow> sig_slot \<Rightarrow> bool" where
  "sig_slot_ok os s sl \<longleftrightarrow>
     so_action (sy_os s) (sig_no sl) = (if sy_phase s sl = SigUp then NttHandler else so_action os (sig_no sl)) \<and>
     (sy_phase s sl = SigUp \<longrightarrow> sg_old_action (ss_slot (sy_state s) sl) = so_action os (sig_no sl)) \<and>
     (sy_phase s sl \<noteq> SigDown \<and> sy_fd s sl \<noteq> -1 \<longrightarrow> sig_counts s sl) \<and>
     (sy_phase s sl = SigDown \<longrightarrow> sy_loaded s sl = {#}) \<and> (\<forall>fd \<in># sy_loaded s sl. fd = sy_fd s sl) \<and>
     (sy_phase s sl \<noteq> SigDown \<longrightarrow> sy_fd s sl = -1 \<or> 0 \<le> sy_fd s sl)"

definition sig_clean_ok :: "sig_sys \<Rightarrow> sig_slot \<Rightarrow> bool" where
  "sig_clean_ok s sl \<longleftrightarrow> sy_stale s sl = {#} \<and> sy_left s sl = 0 \<and> sy_extra s sl = 0 \<and> (sy_phase s sl = SigDown \<longrightarrow> sy_entered s sl = 0)"

definition sig_inv :: "sig_os \<Rightarrow> sig_sys \<Rightarrow> bool" where
  "sig_inv os s \<longleftrightarrow> (\<forall>sl. sig_slot_ok os s sl) \<and> sy_fds s (-1) = None \<and>
     (\<forall>sl sl'. sy_phase s sl \<noteq> SigDown \<and> sy_phase s sl' \<noteq> SigDown \<and> sy_fd s sl = sy_fd s sl' \<and> sy_fd s sl \<noteq> -1 \<longrightarrow> sl = sl') \<and>
     (sy_clean s \<longrightarrow> (\<forall>sl. sig_clean_ok s sl))"

section \<open>Calls\<close>

lemma select_no [simp]: "ntt_signal_select (sig_no sl) = Some sl"
  by (cases sl) (simp_all add: ntt_signal_select_def sig_defs)

lemma sig_no_inject [simp]: "sig_no a = sig_no b \<longleftrightarrow> a = b"
  by (cases a; cases b) (simp_all add: sig_defs)

lemma get_fd [simp]: "ntt_signal_get_eventfd (sig_no sl) st = sg_eventfd (ss_slot st sl)"
  by (simp add: ntt_signal_get_eventfd_def)

lemma open_eq: "signal_open fd (sig_no sl) st = st\<lparr>ss_slot := (ss_slot st)(sl := (ss_slot st sl)\<lparr>sg_eventfd := fd\<rparr>),
    ss_os := (ss_os st)\<lparr>so_fds := (if fd = -1 then so_fds (ss_os st) else (so_fds (ss_os st))(fd \<mapsto> EventFd 0)),
      so_mask := (so_mask (ss_os st))(sig_no sl := True)\<rparr>\<rparr>"
  by (simp add: signal_open_def os_mask_def os_eventfd_def)

lemma install_eq: "signal_install (sig_no sl) st = st\<lparr>ss_slot := (ss_slot st)(sl := (ss_slot st sl)\<lparr>sg_old_action := so_action (ss_os st) (sig_no sl)\<rparr>),
    ss_os := (ss_os st)\<lparr>so_action := (so_action (ss_os st))(sig_no sl := NttHandler), so_mask := (so_mask (ss_os st))(sig_no sl := False)\<rparr>\<rparr>"
  by (simp add: signal_install_def os_mask_def os_sigaction_def)

lemma restore_eq: "signal_restore (sig_no sl) st = st\<lparr>
    ss_os := (ss_os st)\<lparr>so_action := (so_action (ss_os st))(sig_no sl := sg_old_action (ss_slot st sl)), so_mask := (so_mask (ss_os st))(sig_no sl := True)\<rparr>\<rparr>"
  by (simp add: signal_restore_def os_mask_def os_sigaction_def)

lemma close_eq: "signal_close (sig_no sl) st = st\<lparr>
    ss_os := (ss_os st)\<lparr>so_fds := (so_fds (ss_os st))(sg_eventfd (ss_slot st sl) := None), so_mask := (so_mask (ss_os st))(sig_no sl := False)\<rparr>\<rparr>"
  by (simp add: signal_close_def os_mask_def os_close_def)

lemmas half_eqs = open_eq install_eq restore_eq close_eq

section \<open>Steps keep the invariant\<close>

lemma sig_invD:
  assumes "sig_inv os s"
  shows "sig_slot_ok os s sl" "sy_fds s (-1) = None"
    "sy_phase s sl \<noteq> SigDown \<Longrightarrow> sy_phase s sl' \<noteq> SigDown \<Longrightarrow> sy_fd s sl = sy_fd s sl' \<Longrightarrow> sy_fd s sl \<noteq> -1 \<Longrightarrow> sl = sl'"
    "sy_clean s \<Longrightarrow> sig_clean_ok s sl"
  using assms by (auto simp: sig_inv_def)

lemma sig_invI:
  assumes "\<And>sl. sig_slot_ok os s sl" "sy_fds s (-1) = None"
    and "\<And>sl sl'. sy_phase s sl \<noteq> SigDown \<Longrightarrow> sy_phase s sl' \<noteq> SigDown \<Longrightarrow> sy_fd s sl = sy_fd s sl' \<Longrightarrow> sy_fd s sl \<noteq> -1 \<Longrightarrow> sl = sl'"
    and "\<And>sl. sy_clean s \<Longrightarrow> sig_clean_ok s sl"
  shows "sig_inv os s"
  using assms by (auto simp: sig_inv_def)

text \<open>A step that opens no descriptor of a signal: what is left to show.\<close>

lemma sig_inv_step:
  assumes inv: "sig_inv os s" and "\<And>sl. sig_slot_ok os s' sl" and "sy_fds s' (-1) = None"
    and ph: "\<And>sl. sy_phase s' sl \<noteq> SigDown \<Longrightarrow> sy_phase s sl \<noteq> SigDown" and fd: "\<And>sl. sy_fd s' sl = sy_fd s sl"
    and "\<And>sl. sy_clean s' \<Longrightarrow> sig_clean_ok s' sl"
  shows "sig_inv os s'"
proof (rule sig_invI)
  show "sl = sl'" if "sy_phase s' sl \<noteq> SigDown" "sy_phase s' sl' \<noteq> SigDown" "sy_fd s' sl = sy_fd s' sl'" "sy_fd s' sl \<noteq> -1" for sl sl'
    by (rule sig_invD(3) [OF inv ph [OF that(1)] ph [OF that(2)]]) (use that(3,4) fd in simp_all)
qed (fact assms)+

text \<open>The descriptor of a signal that is set up is an event descriptor.\<close>

lemma own_fd:
  assumes "sig_inv os s" "sy_phase s sl \<noteq> SigDown" "sy_fd s sl \<noteq> -1"
  shows "\<exists>n. sy_fds s (sy_fd s sl) = Some (EventFd n)" "sig_counts s sl"
  using sig_invD(1) [OF assms(1), of sl] assms(2,3) by (auto simp: sig_slot_ok_def sig_counts_def)

text \<open>A slot whose fields, disposition and descriptor have not changed.\<close>

lemma slot_same:
  assumes "sig_slot_ok os s sl" "sy_phase s' sl = sy_phase s sl" "ss_slot (sy_state s') sl = ss_slot (sy_state s) sl"
    "so_action (sy_os s') (sig_no sl) = so_action (sy_os s) (sig_no sl)" "sy_loaded s' sl = sy_loaded s sl" "sy_entered s' sl = sy_entered s sl"
    "sy_arrived s' sl = sy_arrived s sl" "sy_left s' sl = sy_left s sl" "sy_extra s' sl = sy_extra s sl" "sy_taken s' sl = sy_taken s sl"
    and "sy_phase s sl \<noteq> SigDown \<Longrightarrow> sy_fd s sl \<noteq> -1 \<Longrightarrow> sy_fds s' (sy_fd s sl) = sy_fds s (sy_fd s sl)"
  shows "sig_slot_ok os s' sl"
  using assms by (simp add: sig_slot_ok_def sig_counts_def)

lemma set_open_inv:
  assumes inv: "sig_inv os s" and en: "sig_enabled s (SetOpen sl fd)"
  shows "sig_inv os (sig_do (SetOpen sl fd) s)"
proof -
  have other: "sy_fd s sl' \<noteq> fd" if "sy_phase s sl' \<noteq> SigDown" "sy_fd s sl' \<noteq> -1" for sl' using own_fd(1) [OF inv that] en that(2) by auto
  have "sig_slot_ok os (sig_do (SetOpen sl fd) s) sl'" for sl'
  proof (cases "sl' = sl")
    case True
    then show ?thesis using sig_invD(1) [OF inv, of sl] en by (auto simp: sig_slot_ok_def sig_counts_def open_eq)
  next
    case False
    show ?thesis by (rule slot_same [OF sig_invD(1) [OF inv, of sl']]) (use False other [of sl'] in \<open>auto simp: open_eq\<close>)
  qed
  then show ?thesis
  proof (rule sig_invI)
    show "sy_fds (sig_do (SetOpen sl fd) s) (-1) = None" using sig_invD(2) [OF inv] by (simp add: open_eq)
    show "sl1 = sl2" if "sy_phase (sig_do (SetOpen sl fd) s) sl1 \<noteq> SigDown" "sy_phase (sig_do (SetOpen sl fd) s) sl2 \<noteq> SigDown"
      "sy_fd (sig_do (SetOpen sl fd) s) sl1 = sy_fd (sig_do (SetOpen sl fd) s) sl2" "sy_fd (sig_do (SetOpen sl fd) s) sl1 \<noteq> -1" for sl1 sl2
      using sig_invD(3) [OF inv, of sl1 sl2] other [of sl1] other [of sl2] that by (auto simp: open_eq split: if_splits)
    show "sig_clean_ok (sig_do (SetOpen sl fd) s) sl'" if "sy_clean (sig_do (SetOpen sl fd) s)" for sl'
      using sig_invD(4) [OF inv, of sl'] en that by (auto simp: sig_clean_ok_def)
  qed
qed

lemma set_install_inv:
  assumes inv: "sig_inv os s" and en: "sig_enabled s (SetInstall sl)"
  shows "sig_inv os (sig_do (SetInstall sl) s)"
proof -
  have "sig_slot_ok os (sig_do (SetInstall sl) s) sl'" for sl'
    using sig_invD(1) [OF inv, of sl'] en by (cases "sl' = sl") (auto simp: sig_slot_ok_def sig_counts_def install_eq)
  then show ?thesis
  proof (rule sig_inv_step [OF inv])
    show "sy_fds (sig_do (SetInstall sl) s) (-1) = None" using sig_invD(2) [OF inv] by (simp add: install_eq)
    show "sy_phase s sl' \<noteq> SigDown" if "sy_phase (sig_do (SetInstall sl) s) sl' \<noteq> SigDown" for sl'
      using en that by (cases "sl' = sl") simp_all
    show "sy_fd (sig_do (SetInstall sl) s) sl' = sy_fd s sl'" for sl' by (simp add: install_eq)
    show "sig_clean_ok (sig_do (SetInstall sl) s) sl'" if "sy_clean (sig_do (SetInstall sl) s)" for sl'
      using sig_invD(4) [OF inv, of sl'] en that by (auto simp: sig_clean_ok_def)
  qed
qed

lemma rev_restore_inv:
  assumes inv: "sig_inv os s" and en: "sig_enabled s (RevRestore sl)"
  shows "sig_inv os (sig_do (RevRestore sl) s)"
proof -
  have "sig_slot_ok os (sig_do (RevRestore sl) s) sl'" for sl'
    using sig_invD(1) [OF inv, of sl'] en by (cases "sl' = sl") (auto simp: sig_slot_ok_def sig_counts_def restore_eq)
  then show ?thesis
  proof (rule sig_inv_step [OF inv])
    show "sy_fds (sig_do (RevRestore sl) s) (-1) = None" using sig_invD(2) [OF inv] by (simp add: restore_eq)
    show "sy_phase s sl' \<noteq> SigDown" if "sy_phase (sig_do (RevRestore sl) s) sl' \<noteq> SigDown" for sl'
      using en that by (cases "sl' = sl") simp_all
    show "sy_fd (sig_do (RevRestore sl) s) sl' = sy_fd s sl'" for sl' by (simp add: restore_eq)
    show "sig_clean_ok (sig_do (RevRestore sl) s) sl'" if "sy_clean (sig_do (RevRestore sl) s)" for sl'
      using sig_invD(4) [OF inv, of sl'] en that by (auto simp: sig_clean_ok_def)
  qed
qed

lemma rev_close_inv:
  assumes inv: "sig_inv os s" and en: "sig_enabled s (RevClose sl)"
  shows "sig_inv os (sig_do (RevClose sl) s)"
proof -
  have other: "sy_fd s sl' \<noteq> sy_fd s sl" if "sy_phase s sl' \<noteq> SigDown" "sy_fd s sl' \<noteq> -1" "sl' \<noteq> sl" for sl'
    using sig_invD(3) [OF inv, of sl' sl] en that by auto
  have "sig_slot_ok os (sig_do (RevClose sl) s) sl'" for sl'
  proof (cases "sl' = sl")
    case True
    then show ?thesis using sig_invD(1) [OF inv, of sl] en by (auto simp: sig_slot_ok_def close_eq)
  next
    case False
    show ?thesis by (rule slot_same [OF sig_invD(1) [OF inv, of sl']]) (use False other [of sl'] in \<open>auto simp: close_eq\<close>)
  qed
  then show ?thesis
  proof (rule sig_inv_step [OF inv])
    show "sy_fds (sig_do (RevClose sl) s) (-1) = None" using sig_invD(2) [OF inv] by (simp add: close_eq)
    show "sy_phase s sl' \<noteq> SigDown" if "sy_phase (sig_do (RevClose sl) s) sl' \<noteq> SigDown" for sl'
      using en that by (cases "sl' = sl") simp_all
    show "sy_fd (sig_do (RevClose sl) s) sl' = sy_fd s sl'" for sl' by (simp add: close_eq)
    show "sig_clean_ok (sig_do (RevClose sl) s) sl'" if "sy_clean (sig_do (RevClose sl) s)" for sl'
      using sig_invD(4) [OF inv, of sl'] en that by (auto simp: sig_clean_ok_def)
  qed
qed

lemma arrive_inv:
  assumes inv: "sig_inv os s" and f: "os_fresh os" and en: "sig_enabled s (SigArrive sl)"
  shows "sig_inv os (sig_do (SigArrive sl) s)"
proof -
  have up: "sy_phase s sl = SigUp" using sig_invD(1) [OF inv, of sl] f en by (auto simp: sig_slot_ok_def os_fresh_def split: if_splits)
  have "sig_slot_ok os (sig_do (SigArrive sl) s) sl'" for sl'
    using sig_invD(1) [OF inv, of sl'] by (cases "sl' = sl") (auto simp: sig_slot_ok_def sig_counts_def)
  then show ?thesis by (rule sig_inv_step [OF inv]) (use sig_invD(2,4) [OF inv] up in \<open>auto simp: sig_clean_ok_def\<close>)
qed

lemma load_inv:
  assumes inv: "sig_inv os s" and en: "sig_enabled s (SigLoad sl)"
  shows "sig_inv os (sig_do (SigLoad sl) s)"
proof -
  have "sig_slot_ok os (sig_do (SigLoad sl) s) sl'" for sl'
    using sig_invD(1) [OF inv, of sl'] en by (cases "sl' = sl") (auto simp: sig_slot_ok_def sig_counts_def Let_def)
  moreover have "sy_clean s \<Longrightarrow> sy_phase s sl \<noteq> SigDown" using sig_invD(4) [OF inv, of sl] en by (auto simp: sig_clean_ok_def)
  ultimately show ?thesis by (intro sig_inv_step [OF inv]) (use sig_invD(2,4) [OF inv] in \<open>auto simp: sig_clean_ok_def Let_def split: if_splits\<close>)
qed

text \<open>A write to an event descriptor adds one, below the limit.\<close>

lemma write_eq:
  assumes "so_fds (ss_os st) fd = Some (EventFd n)"
  shows "signal_write fd st = os_open fd (EventFd (if unat n + 1 < 2 ^ 64 - 1 then n + 1 else n)) st"
  using assms by (auto simp: signal_write_def os_write_def os_open_def fun_upd_idem)

lemma write_none: "so_fds (ss_os st) fd = None \<Longrightarrow> signal_write fd st = st"
  by (simp add: signal_write_def os_write_def)

lemma write_slots [simp]: "ss_slot (signal_write fd st) = ss_slot st" "so_action (ss_os (signal_write fd st)) = so_action (ss_os st)"
  "fd' \<noteq> fd \<Longrightarrow> so_fds (ss_os (signal_write fd st)) fd' = so_fds (ss_os st) fd'"
  "so_fds (ss_os (signal_write fd st)) fd' = None \<longleftrightarrow> so_fds (ss_os st) fd' = None"
  by (auto simp: signal_write_def os_write_def split: option.splits fd_kind.splits)

lemma unat_counter: "unat (n :: u64) + 1 < 2 ^ 64 - 1 \<Longrightarrow> unat (n + 1) = unat n + 1"
  by (simp add: unat_word_ariths)

text \<open>One more in the counter of the open descriptor \<open>fd\<close>, and in the sum.\<close>

lemma counts_write:
  assumes c: "sig_counts s sl" and fd: "sy_fd s sl = fd" and s': "sy_state s' = signal_write fd (sy_state s)"
    and same: "sy_arrived s' sl = sy_arrived s sl" "sy_left s' sl = sy_left s sl" "sy_taken s' sl = sy_taken s sl" "sy_entered s' sl = sy_entered s sl"
    and more: "sy_extra s' sl + size (sy_loaded s sl) = sy_extra s sl + size (sy_loaded s' sl) + 1" "sy_extra s sl \<le> sy_extra s' sl"
  shows "sig_counts s' sl"
proof -
  obtain n where n: "sy_fds s fd = Some (EventFd n)"
    "sy_arrived s sl + sy_left s sl + sy_extra s sl < 2 ^ 64 - 1 \<longrightarrow>
        sy_taken s sl + unat n + sy_entered s sl + size (sy_loaded s sl) = sy_arrived s sl + sy_left s sl + sy_extra s sl"
    using c fd by (auto simp: sig_counts_def)
  let ?n = "if unat n + 1 < 2 ^ 64 - 1 then n + 1 else n"
  have "sy_fds s' fd = Some (EventFd ?n)" using write_eq [OF n(1)] by (simp add: s' os_open_def)
  moreover have "sy_taken s' sl + unat ?n + sy_entered s' sl + size (sy_loaded s' sl) = sy_arrived s' sl + sy_left s' sl + sy_extra s' sl"
    if b: "sy_arrived s' sl + sy_left s' sl + sy_extra s' sl < 2 ^ 64 - 1"
  proof -
    have b': "sy_arrived s sl + sy_left s sl + sy_extra s sl < 2 ^ 64 - 1" using b more(2) by (simp add: same)
    have eq: "sy_taken s sl + unat n + sy_entered s sl + size (sy_loaded s sl) = sy_arrived s sl + sy_left s sl + sy_extra s sl" using n(2) b' by blast
    then have "unat n + 1 < 2 ^ 64 - 1" using b more by (simp add: same)
    then show ?thesis using eq more(1) unat_counter [of n] by (simp add: same)
  qed
  moreover have "sy_fd s' sl = fd" using fd by (simp add: s')
  ultimately show ?thesis unfolding sig_counts_def by blast
qed

lemma sig_write_inv:
  assumes inv: "sig_inv os s" and en: "sig_enabled s (SigWrite sl fd)"
  shows "sig_inv os (sig_do (SigWrite sl fd) s)"
proof -
  have in': "fd \<in># sy_loaded s sl" using en by simp
  have up: "sy_phase s sl \<noteq> SigDown" "fd = sy_fd s sl" using sig_invD(1) [OF inv, of sl] in' by (auto simp: sig_slot_ok_def)
  have other: "sy_fd s sl' \<noteq> fd" if "sy_phase s sl' \<noteq> SigDown" "sy_fd s sl' \<noteq> -1" "sl' \<noteq> sl" for sl'
    using sig_invD(3) [OF inv, of sl' sl] up that by auto
  have "sig_slot_ok os (sig_do (SigWrite sl fd) s) sl'" for sl'
  proof (cases "sl' = sl")
    case True
    have "sig_counts (sig_do (SigWrite sl fd) s) sl" if "sy_fd s sl \<noteq> -1"
      by (rule counts_write [OF own_fd(2) [OF inv up(1) that] up(2) [symmetric]]) (use in' in \<open>auto dest!: multi_member_split\<close>)
    then show ?thesis using True sig_invD(1) [OF inv, of sl] by (auto simp: sig_slot_ok_def dest: in_diffD)
  next
    case False
    show ?thesis by (rule slot_same [OF sig_invD(1) [OF inv, of sl']]) (use False other [of sl'] in auto)
  qed
  then show ?thesis by (rule sig_inv_step [OF inv]) (use sig_invD(2,4) [OF inv] in \<open>auto simp: sig_clean_ok_def\<close>)
qed

lemma sig_stale_inv:
  assumes inv: "sig_inv os s" and en: "sig_enabled s (SigStale sl fd)"
  shows "sig_inv os (sig_do (SigStale sl fd) s)"
proof -
  let ?s = "sig_do (SigStale sl fd) s"
  have "sig_slot_ok os ?s sl'" for sl'
  proof (cases "sy_phase s sl' \<noteq> SigDown \<and> sy_fd s sl' = fd \<and> fd \<noteq> -1")
    case True
    have "sig_counts ?s sl'" by (rule counts_write [OF own_fd(2) [OF inv]]) (use True in auto)
    then show ?thesis using True sig_invD(1) [OF inv, of sl'] by (auto simp: sig_slot_ok_def)
  next
    case False
    then show ?thesis using sig_invD(1) [OF inv, of sl'] by (cases "sy_phase s sl' = SigDown") (auto simp: sig_slot_ok_def sig_counts_def)
  qed
  moreover have "\<not> sy_clean s" using sig_invD(4) [OF inv, of sl] en by (auto simp: sig_clean_ok_def)
  ultimately show ?thesis by (intro sig_inv_step [OF inv]) (use sig_invD(2) [OF inv] in auto)
qed

lemma sig_read_inv:
  assumes inv: "sig_inv os s" and en: "sig_enabled s (SigRead sl)"
  shows "sig_inv os (sig_do (SigRead sl) s)"
proof -
  obtain n where n: "sy_fds s (sy_fd s sl) = Some (EventFd n)" and up: "sy_phase s sl = SigUp" using en by auto
  have nf: "sy_fd s sl \<noteq> -1" using n sig_invD(2) [OF inv] by auto
  have other: "sy_fd s sl' \<noteq> sy_fd s sl" if "sy_phase s sl' \<noteq> SigDown" "sl' \<noteq> sl" for sl' using sig_invD(3) [OF inv, of sl sl'] up that nf by auto
  have do: "sig_do (SigRead sl) s =
      s\<lparr>sy_state := os_open (sy_fd s sl) (EventFd 0) (sy_state s), sy_taken := (sy_taken s)(sl := sy_taken s sl + unat n)\<rparr>" using n by simp
  have "sig_slot_ok os (sig_do (SigRead sl) s) sl'" for sl'
  proof (cases "sl' = sl")
    case True
    then show ?thesis using n nf own_fd(2) [OF inv _ nf] sig_invD(1) [OF inv, of sl] unfolding do by (auto simp: sig_slot_ok_def sig_counts_def os_open_def)
  next
    case False
    show ?thesis unfolding do by (rule slot_same [OF sig_invD(1) [OF inv, of sl']]) (use False other [of sl'] in \<open>auto simp: os_open_def\<close>)
  qed
  then show ?thesis by (rule sig_inv_step [OF inv]) (use sig_invD(2,4) [OF inv] nf in \<open>auto simp: do os_open_def sig_clean_ok_def simp del: sig_do.simps\<close>)
qed

lemma other_inv:
  assumes inv: "sig_inv os s" and en: "sig_enabled s a" and a: "a = OtherOpen fd \<or> a = OtherClose fd"
  shows "sig_inv os (sig_do a s)"
proof -
  have other: "sy_fd s sl \<noteq> fd" if "sy_phase s sl \<noteq> SigDown" "sy_fd s sl \<noteq> -1" for sl using own_fd(1) [OF inv that] en a by auto
  have "sig_slot_ok os (sig_do a s) sl" for sl
    by (rule slot_same [OF sig_invD(1) [OF inv, of sl]]) (use a other [of sl] in \<open>auto simp: os_open_def os_close_def\<close>)
  then show ?thesis
    by (rule sig_inv_step [OF inv]) (use sig_invD(2,4) [OF inv] en a in \<open>auto simp: os_open_def os_close_def sig_clean_ok_def\<close>)
qed

lemma sig_reachable_inv:
  assumes "sig_reachable os s" and f: "os_fresh os"
  shows "sig_inv os s"
  using assms(1)
proof (induction rule: sig_reachable.induct)
  case sig_begin
  show ?case using f by (simp add: sig_inv_def sig_slot_ok_def sig_clean_ok_def sig_start_def os_fresh_def)
next
  case (sig_next s a)
  note inv = sig_next(3) and en = sig_next(2)
  show ?case
  proof (cases a)
    case (SetOpen sl fd)
    then show ?thesis using set_open_inv [OF inv] en by blast
  next
    case (SetInstall sl)
    then show ?thesis using set_install_inv [OF inv] en by blast
  next
    case (RevRestore sl)
    then show ?thesis using rev_restore_inv [OF inv] en by blast
  next
    case (RevClose sl)
    then show ?thesis using rev_close_inv [OF inv] en by blast
  next
    case (SigArrive sl)
    then show ?thesis using arrive_inv [OF inv f] en by blast
  next
    case (SigLoad sl)
    then show ?thesis using load_inv [OF inv] en by blast
  next
    case (SigWrite sl fd)
    then show ?thesis using sig_write_inv [OF inv] en by blast
  next
    case (SigStale sl fd)
    then show ?thesis using sig_stale_inv [OF inv] en by blast
  next
    case (SigRead sl)
    then show ?thesis using sig_read_inv [OF inv] en by blast
  next
    case (OtherOpen fd)
    then show ?thesis using other_inv [OF inv] en by blast
  next
    case (OtherClose fd)
    then show ?thesis using other_inv [OF inv] en by blast
  qed
qed

text \<open>Without stale handlers the descriptors of others are left alone.\<close>

lemma other_kept:
  assumes inv: "sig_inv os s" and en: "sig_enabled s a" and o: "sy_fds s fd = Some (OtherFd ws)" and a: "a \<noteq> OtherClose fd"
    and stale: "\<forall>sl. fd \<notin># sy_stale s sl"
  shows "sy_fds (sig_do a s) fd = Some (OtherFd ws)"
proof -
  have m: "fd \<noteq> -1" using o sig_invD(2) [OF inv] by auto
  have own: "sy_fd s sl \<noteq> fd" if "sy_phase s sl \<noteq> SigDown" for sl using own_fd(1) [OF inv that] o m by auto
  show ?thesis
  proof (cases a)
    case (SigWrite sl fd')
    then have "fd' \<noteq> fd" using own [of sl] sig_invD(1) [OF inv, of sl] en by (auto simp: sig_slot_ok_def)
    then show ?thesis using SigWrite o by simp
  next
    case (RevClose sl)
    then show ?thesis using own [of sl] en o by (auto simp: close_eq)
  next
    case (SigStale sl fd')
    then have "fd' \<noteq> fd" using stale en by auto
    then show ?thesis using SigStale o by simp
  qed (use own en o a in \<open>auto simp: half_eqs os_open_def os_close_def Let_def split: option.splits fd_kind.splits\<close>)
qed

end
