(* ===== verification/Signal_Props.thy ===== *)
theory Signal_Props
  imports Signal_Machine
begin

text \<open>
  The properties of the signals: the names fit their buffer and tell the signals apart, and a signal that
  is set up is counted by its event descriptor, whatever the threads do that take the signals, until it is given back; and what a handler does
  that is overtaken by the giving back.
\<close>

section \<open>Decimal numbers\<close>

lemma digit_of: "d < 10 \<Longrightarrow> of_char (digit d) = 48 + d"
  by (simp add: digit_def)

definition undec :: "string \<Rightarrow> nat" where
  "undec cs = foldl (\<lambda>n c. 10 * n + (of_char c - 48)) 0 cs"

lemma undec_dec: "undec (dec n) = n"
proof (induction n rule: dec.induct)
  case (1 n)
  then show ?case by (subst dec.simps) (auto simp: undec_def digit_of)
qed

lemma dec_digits: "c \<in> set (dec n) \<Longrightarrow> \<exists>d < 10. c = digit d"
proof (induction n rule: dec.induct)
  case (1 n)
  have "\<exists>d<10. digit (n mod 10) = digit d" by (rule exI [of _ "n mod 10"]) simp
  then show ?case using 1 dec.simps [of n] by (auto split: if_splits)
qed

lemma dec_not_sign: "c \<in> set (dec n) \<Longrightarrow> c \<noteq> CHR ''-'' \<and> c \<noteq> CHR '')''"
  using dec_digits [of c n] digit_of by (auto dest: arg_cong [of _ _ "of_char :: char \<Rightarrow> nat"])

lemma dec_inject: "dec m = dec n \<longleftrightarrow> m = n"
  by (metis undec_dec)

lemma dec_int_inject: "dec_int i = dec_int j \<longleftrightarrow> i = j"
proof -
  have "dec m \<noteq> CHR ''-'' # dec n" for m n using dec_not_sign [of "CHR ''-''" m] by auto
  then show ?thesis by (auto simp: dec_int_def dec_inject split: if_splits) metis+
qed

lemma length_dec: "n < 10 ^ Suc k \<Longrightarrow> length (dec n) \<le> Suc k"
proof (induction k arbitrary: n)
  case 0
  then show ?case by (simp add: dec.simps)
next
  case (Suc k)
  have "n div 10 < 10 ^ Suc k" using Suc.prems by (simp add: less_mult_imp_div_less)
  from Suc.IH [OF this] show ?case by (subst dec.simps) simp
qed

lemma length_dec_int: "- (2 ^ 31) \<le> i \<Longrightarrow> i < 2 ^ 31 \<Longrightarrow> length (dec_int i) \<le> 11"
proof -
  assume "- (2 ^ 31) \<le> i" "i < 2 ^ 31"
  then have "nat i < 10 ^ Suc 9" "nat (- i) < 10 ^ Suc 9" by simp_all
  from length_dec [OF this(1)] length_dec [OF this(2)] show ?thesis by (simp add: dec_int_def)
qed

section \<open>Names\<close>

lemma snprintf_fits: "length out < n \<Longrightarrow> snprintf n out = out"
  by (simp add: snprintf_def)

text \<open>What the library promises of the real-time signals, whose numbers are known when the program runs.\<close>

definition rt_signals :: "int \<Rightarrow> int \<Rightarrow> bool" where
  "rt_signals SIGRTMIN SIGRTMAX \<longleftrightarrow> 32 \<le> SIGRTMIN \<and> SIGRTMAX < NSIG"

lemma sig_name_rt:
  assumes "rt_signals lo hi" "lo \<le> sig" "sig \<le> hi"
  shows "sig_name lo hi sig = ''SIGRTMIN+'' @ dec_int (sig - lo)"
proof -
  have "length (dec_int (sig - lo)) \<le> 11" by (rule length_dec_int) (use assms in \<open>auto simp: rt_signals_def NSIG_def\<close>)
  then show ?thesis using assms by (simp add: sig_name_def snprintf_fits)
qed

lemma sig_name_unknown:
  assumes "- (2 ^ 31) \<le> sig" "sig < 2 ^ 31"
  shows "snprintf 32 (''UNKNOWN('' @ dec_int sig @ '')'') = ''UNKNOWN('' @ dec_int sig @ '')''"
  using length_dec_int [OF assms] by (intro snprintf_fits) simp

definition std_names :: "(int \<times> string) list" where
  "std_names = [(SIGINT, ''SIGINT''), (SIGTERM, ''SIGTERM''), (SIGKILL, ''SIGKILL''), (SIGSEGV, ''SIGSEGV''), (SIGABRT, ''SIGABRT''),
     (SIGPIPE, ''SIGPIPE''), (SIGALRM, ''SIGALRM''), (SIGHUP, ''SIGHUP''), (SIGQUIT, ''SIGQUIT''), (SIGUSR1, ''SIGUSR1''), (SIGUSR2, ''SIGUSR2'')]"

lemma sig_name_std:
  assumes "- (2 ^ 31) \<le> sig" "sig < 2 ^ 31" "\<not> (lo \<le> sig \<and> sig \<le> hi)"
  shows "sig_name lo hi sig = (case map_of std_names sig of Some name \<Rightarrow> name | None \<Rightarrow> ''UNKNOWN('' @ dec_int sig @ '')'')"
proof -
  have rt: "(lo \<le> sig \<and> sig \<le> hi) = False" using assms(3) by blast
  show ?thesis unfolding sig_name_def rt if_False sig_name_unknown [OF assms(1,2)] std_names_def
    by (simp only: map_of.simps fst_conv snd_conv fun_upd_apply) (simp split: if_split)
qed

lemma std_names_distinct:
  "map_of std_names a = Some name \<Longrightarrow> map_of std_names b = Some name \<Longrightarrow> a = b"
  by (auto simp: std_names_def split: if_splits)

lemma std_names_apart:
  assumes "map_of std_names a = Some name"
  shows "name \<noteq> ''SIGRTMIN+'' @ xs" "name \<noteq> ''UNKNOWN('' @ xs" "length name \<le> 7"
  using assms by (auto simp: std_names_def split: if_splits)

text \<open>
  The names of signals, for every \<open>int\<close>: what is printed into the buffer of 32 bytes is never cut off, and different
  signals have different names.
\<close>

theorem sig_name_distinct:
  assumes "rt_signals lo hi" "- (2 ^ 31) \<le> a" "a < 2 ^ 31" "- (2 ^ 31) \<le> b" "b < 2 ^ 31"
  shows "length (sig_name lo hi a) < 32 \<and> (sig_name lo hi a = sig_name lo hi b \<longleftrightarrow> a = b)"
proof -
  let ?rt = "\<lambda>x. lo \<le> x \<and> x \<le> hi"
  have len: "length (dec_int (a - lo)) \<le> 11" if "?rt a"
    by (rule length_dec_int) (use that assms in \<open>auto simp: rt_signals_def NSIG_def\<close>)
  have "length (sig_name lo hi a) < 32"
    using sig_name_rt [OF assms(1), of a] sig_name_std [OF assms(2,3), of lo hi] len length_dec_int [OF assms(2,3)] std_names_apart(3) [of a]
    by (cases "?rt a") (auto split: option.splits)
  moreover have "a = b" if eq: "sig_name lo hi a = sig_name lo hi b"
  proof (cases "?rt a"; cases "?rt b")
    assume "?rt a" "?rt b"
    then show ?thesis using eq sig_name_rt [OF assms(1)] by (simp add: dec_int_inject)
  next
    assume "?rt a" "\<not> ?rt b"
    then show ?thesis using eq sig_name_rt [OF assms(1), of a] sig_name_std [OF assms(4,5), of lo hi] std_names_apart(1) [of b _ "dec_int (a - lo)"]
      by (auto split: option.splits)
  next
    assume "\<not> ?rt a" "?rt b"
    then show ?thesis using eq sig_name_rt [OF assms(1), of b] sig_name_std [OF assms(2,3), of lo hi] std_names_apart(1) [of a _ "dec_int (b - lo)"]
      by (auto split: option.splits)
  next
    assume "\<not> ?rt a" "\<not> ?rt b"
    then show ?thesis using eq sig_name_std [OF assms(2,3), of lo hi] sig_name_std [OF assms(4,5), of lo hi]
      std_names_apart(2) [of a _ "dec_int b @ '')''"] std_names_apart(2) [of b _ "dec_int a @ '')''"] std_names_distinct [of a _ b]
      by (auto simp: dec_int_inject split: option.splits)
  qed
  ultimately show ?thesis by blast
qed

theorem sig_name_distinct_witness:
  "length (sig_name 34 64 35) < 32 \<and> sig_name 34 64 35 \<noteq> sig_name 34 64 (- 2147483648)"
  using sig_name_distinct [of 34 64 35 "- 2147483648"] by (simp add: rt_signals_def NSIG_def)

section \<open>Printing a mask\<close>

lemma digit_zero: "digit 0 = CHR ''0''"
  by code_simp

text \<open>
  The signals of a mask are printed in order, but always after a line for the number 0, which is not a
  signal: \<open>sigismember\<close> answers \<open>-1\<close> for it.
\<close>

theorem print_blocked_signals_zero:
  assumes "rt_signals lo hi"
  shows "ntt_print_blocked_signals lo hi sigset = ''UNKNOWN(0)'' # map (sig_name lo hi) (filter sigset [1 .. NSIG - 1])"
proof -
  have "[0 .. NSIG - 1] = 0 # [1 .. NSIG - 1]" by (simp add: NSIG_def upto_rec1)
  moreover have "filter (\<lambda>i. sigismember sigset i \<noteq> 0) [1 .. NSIG - 1] = filter sigset [1 .. NSIG - 1]"
    by (rule filter_cong) (auto simp: sigismember_def)
  moreover have "sig_name lo hi 0 = ''UNKNOWN(0)''"
    using assms sig_name_std [of 0 lo hi] by (simp add: rt_signals_def std_names_def sig_defs dec_int_def dec.simps digit_zero)
  ultimately show ?thesis by (simp add: ntt_print_blocked_signals_def sigismember_def)
qed

section \<open>Delivery\<close>

text \<open>
  C22. A signal that is set up is counted, in all interleavings of setting up, giving back and handlers on other threads, as long as each signal is
  set up and given back in turns. From the opening of its descriptor to its closing, what has been read from the
  descriptor, what it still holds and the handlers that are under way add up to the number of times the signal has come, and the
  handlers that an earlier closing had overtaken, below the limit of the counter. The handler is installed exactly while the signal is set up; before and
  after, the disposition is what it was at the start. What others have opened is neither written nor closed, unless a handler whose
  descriptor was closed before it wrote still has that number. If no descriptor was ever closed while a handler of its signal was under way,
  there are no such handlers, and the count is exactly that of the signals that came.
\<close>

theorem signal_counts:
  assumes "sig_reachable os s" "os_fresh os"
  shows "(sy_phase s sl \<noteq> SigDown \<and> sy_fd s sl \<noteq> -1 \<longrightarrow>
      (\<exists>n. sy_fds s (sy_fd s sl) = Some (EventFd n) \<and>
         (sy_arrived s sl + sy_left s sl + sy_extra s sl < 2 ^ 64 - 1 \<longrightarrow>
           sy_taken s sl + unat n + sy_entered s sl + size (sy_loaded s sl) = sy_arrived s sl + sy_left s sl + sy_extra s sl)))
    \<and> so_action (sy_os s) (sig_no sl) = (if sy_phase s sl = SigUp then NttHandler else so_action os (sig_no sl))
    \<and> (\<forall>a fd ws. sig_enabled s a \<and> sy_fds s fd = Some (OtherFd ws) \<and> a \<noteq> OtherClose fd \<and> (\<forall>sl'. fd \<notin># sy_stale s sl') \<longrightarrow>
         sy_fds (sig_do a s) fd = Some (OtherFd ws))
    \<and> (sy_clean s \<longrightarrow> sy_left s sl = 0 \<and> sy_extra s sl = 0 \<and> sy_stale s sl = {#})"
proof -
  have inv: "sig_inv os s" using sig_reachable_inv [OF assms] .
  have "sy_clean s \<longrightarrow> sy_left s sl = 0 \<and> sy_extra s sl = 0 \<and> sy_stale s sl = {#}" using sig_invD(4) [OF inv, of sl] by (simp add: sig_clean_ok_def)
  moreover have "sig_slot_ok os s sl" by (rule sig_invD(1) [OF inv])
  ultimately show ?thesis using other_kept [OF inv] unfolding sig_slot_ok_def sig_counts_def by blast
qed

text \<open>Two interrupts: one has been counted, the handler of the other has read the number of the descriptor.\<close>

definition sig_demo_os :: sig_os where
  "sig_demo_os = \<lparr>so_action = (\<lambda>_. UserHandler 7), so_fds = (\<lambda>_. None), so_mask = (\<lambda>_. False)\<rparr>"

definition sig_demo_acts :: "sig_act list" where
  "sig_demo_acts = [SetOpen g_sigint 5, SetInstall g_sigint, SigArrive g_sigint, SigArrive g_sigint, SigLoad g_sigint, SigWrite g_sigint 5, SigLoad g_sigint]"

definition sig_demo :: sig_sys where
  "sig_demo = foldl (\<lambda>s a. sig_do a s) (sig_start sig_demo_os) sig_demo_acts"

lemma sig_demo_fields:
  "sy_phase sig_demo g_sigint = SigUp" "sy_fd sig_demo g_sigint = 5" "sy_loaded sig_demo g_sigint = {#5#}" "sy_arrived sig_demo g_sigint = 2"
  "sy_clean sig_demo"
  by (simp_all add: sig_demo_def sig_demo_acts_def half_eqs signal_write_def os_write_def sig_start_def sig_demo_os_def signal_init_def del: sig_no.simps)

lemma sig_demo_reached: "sig_reachable sig_demo_os sig_demo"
proof (rule sig_run.run_reach [OF sig_begin])
  show "run_acts sig_step sig_demo_acts (sig_start sig_demo_os) = Some sig_demo"
    by (simp add: sig_demo_def sig_demo_acts_def half_eqs signal_write_def os_write_def sig_start_def sig_demo_os_def signal_init_def del: sig_no.simps)
qed

lemma sig_demo_fresh: "os_fresh sig_demo_os"
  by (simp add: os_fresh_def sig_demo_os_def)

theorem signal_counts_witness:
  "\<exists>n. sy_fds sig_demo 5 = Some (EventFd n) \<and>
     sy_taken sig_demo g_sigint + unat n + sy_entered sig_demo g_sigint + size (sy_loaded sig_demo g_sigint) = 2"
  using signal_counts [OF sig_demo_reached sig_demo_fresh, of g_sigint] sig_demo_fields by auto

text \<open>
  Setting a signal up and giving it back leaves the dispositions and the descriptors as they were; but the number
  of the closed descriptor is still the one that \<open>ntt_signal_get_eventfd\<close> returns, and the signal is unblocked for the thread that called,
  whether it was blocked before or not. Any other number is no signal of the library: nothing happens, and there is no descriptor.
\<close>

theorem signal_setup_revert:
  assumes "fd = -1 \<or> 0 \<le> fd" "so_fds (ss_os st) fd = None"
  shows "(case ntt_signal_select sig of
      None \<Rightarrow> ntt_signal_setup fd sig st = st \<and> ntt_signal_revert sig st = st \<and> ntt_signal_get_eventfd sig st = -1
    | Some self \<Rightarrow> let st' = ntt_signal_revert sig (ntt_signal_setup fd sig st) in
        ss_os st' = (ss_os st)\<lparr>so_mask := (so_mask (ss_os st))(sig := False)\<rparr> \<and> ntt_signal_get_eventfd sig st' = fd)"
proof (cases "ntt_signal_select sig")
  case None
  then show ?thesis
    by (simp add: ntt_signal_setup_def ntt_signal_revert_def signal_open_def signal_install_def signal_restore_def signal_close_def ntt_signal_get_eventfd_def)
next
  case (Some self)
  then have "sig = sig_no self" by (auto simp: ntt_signal_select_def split: if_splits)
  then show ?thesis using assms by (auto simp: ntt_signal_setup_def ntt_signal_revert_def half_eqs fun_upd_idem)
qed

theorem signal_setup_revert_witness:
  "ntt_signal_select SIGINT = Some g_sigint \<and>
   ss_os (ntt_signal_revert SIGINT (ntt_signal_setup 5 SIGINT (sy_state (sig_start sig_demo_os)))) = sig_demo_os"
  using signal_setup_revert [of 5 "sy_state (sig_start sig_demo_os)" SIGINT]
  by (simp add: sig_start_def sig_demo_os_def ntt_signal_select_def sig_defs Let_def fun_upd_def)

text \<open>
  C40. Blocking a signal in the thread that gives it back does not hold up a handler that is already under way on another thread. Whenever a handler has
  read the number of the descriptor of its signal and has not written yet, the whole of \<open>ntt_signal_revert\<close> can run, after which the disposition is the old
  one and the signal is not set up; the number can then be given to a file that somebody else opens, and the handler writes its eight bytes into
  that file.
\<close>

theorem signal_stale_write:
  assumes "sig_reachable os s" "os_fresh os" "sy_phase s sl = SigUp" "fd \<in># sy_loaded s sl" "fd \<noteq> -1"
  shows "\<exists>s1 s2. run_acts sig_step [RevRestore sl, RevClose sl, OtherOpen fd] s = Some s1 \<and>
     sy_state s1 = os_open fd (OtherFd []) (ntt_signal_revert (sig_no sl) (sy_state s)) \<and>
     so_action (sy_os s1) (sig_no sl) = so_action os (sig_no sl) \<and> sy_phase s1 sl = SigDown \<and> sy_fds s1 fd = Some (OtherFd []) \<and>
     sig_step (SigStale sl fd) s1 = Some s2 \<and> sy_fds s2 fd = Some (OtherFd [1])"
proof -
  have inv: "sig_inv os s" using sig_reachable_inv [OF assms(1,2)] .
  have fd: "sy_fd s sl = fd" "0 \<le> fd" and old: "sg_old_action (ss_slot (sy_state s) sl) = so_action os (sig_no sl)"
    using sig_invD(1) [OF inv, of sl] assms(3-5) by (auto simp: sig_slot_ok_def)
  show ?thesis using assms(3,4) fd old
    by (simp add: half_eqs ntt_signal_revert_def os_open_def signal_write_def os_write_def)
qed

theorem signal_stale_write_witness:
  "\<exists>s1 s2. run_acts sig_step [RevRestore g_sigint, RevClose g_sigint, OtherOpen 5] sig_demo = Some s1 \<and>
     so_action (sy_os s1) SIGINT = UserHandler 7 \<and> sig_step (SigStale g_sigint 5) s1 = Some s2 \<and> sy_fds s2 5 = Some (OtherFd [1])"
proof -
  have "5 \<in># sy_loaded sig_demo g_sigint" "(5 :: int) \<noteq> -1" "so_action sig_demo_os SIGINT = UserHandler 7"
    using sig_demo_fields(3) by (simp_all add: sig_demo_os_def)
  then show ?thesis using signal_stale_write [OF sig_demo_reached sig_demo_fresh sig_demo_fields(1)] by (metis sig_no.simps(2))
qed

end
