(* ===== verification/Worker_Log.thy ===== *)
theory Worker_Log
  imports Signal_Props Schedules "HOL-Library.Sublist"
begin

text \<open>
  The log of the workers: \<open>src/src/log.c\<close>, and the keys of threads and workers in \<open>src/src/worker.c\<close> that begin its lines. A line is
  formatted and written character by character under a mutex; the machine interleaves the threads that write.
\<close>

section \<open>Keys\<close>

text \<open>
  \<open>wl_thread_key\<close> and \<open>wl_worker\<close> are the variables of each thread, the second by the key of the worker that runs in it. The log is enabled by the
  environment when the library is loaded; \<open>wl_called\<close> and \<open>wl_begun\<close> record the lines in the order in which they were asked for, and in which the
  mutex was taken for them.
\<close>

datatype log_pc = LgIdle | LgWait string | LgWrite string

record wl_sys =
  wl_thread_next :: u64
  wl_worker_next :: u64
  wl_thread_key :: "nat \<Rightarrow> u64"
  wl_worker :: "nat \<Rightarrow> u64 option"
  wl_enabled :: bool
  wl_mutex :: "nat option"
  wl_out :: string
  wl_pc :: "nat \<Rightarrow> log_pc"
  wl_called :: "(nat \<times> string) list"
  wl_begun :: "(nat \<times> string) list"

definition ntt_this_thread_key :: "nat \<Rightarrow> wl_sys \<Rightarrow> u64 \<times> wl_sys" where
  "ntt_this_thread_key t s =
     (if wl_thread_key s t = 0
      then (wl_thread_next s, s\<lparr>wl_thread_next := wl_thread_next s + 1, wl_thread_key := (wl_thread_key s)(t := wl_thread_next s)\<rparr>)
      else (wl_thread_key s t, s))"

definition ntt_this_worker_key :: "nat \<Rightarrow> wl_sys \<Rightarrow> u64" where
  "ntt_this_worker_key t s = (case wl_worker s t of Some key \<Rightarrow> key | None \<Rightarrow> 0)"

text \<open>The worker of a thread, from its initialisation to its end.\<close>

definition worker_enter :: "nat \<Rightarrow> wl_sys \<Rightarrow> wl_sys" where
  "worker_enter t s = s\<lparr>wl_worker_next := wl_worker_next s + 1, wl_worker := (wl_worker s)(t \<mapsto> wl_worker_next s)\<rparr>"

definition worker_leave :: "nat \<Rightarrow> wl_sys \<Rightarrow> wl_sys" where
  "worker_leave t s = s\<lparr>wl_worker := (wl_worker s)(t := None)\<rparr>"

section \<open>Lines\<close>

text \<open>What \<open>vprintf\<close> makes of the conversion the program uses.\<close>

fun vformat :: "string \<Rightarrow> int list \<Rightarrow> string" where
  "vformat fmt args =
     (if take 3 fmt = ''%ld'' \<and> args \<noteq> [] then dec_int (hd args) @ vformat (drop 3 fmt) (tl args)
      else case fmt of [] \<Rightarrow> [] | c # rest \<Rightarrow> c # vformat rest args)"

declare vformat.simps [simp del]

definition mylibrary_load :: "bool \<Rightarrow> wl_sys" where
  "mylibrary_load ntt_enable_log =
     \<lparr>wl_thread_next = 1, wl_worker_next = 1, wl_thread_key = (\<lambda>_. 0), wl_worker = (\<lambda>_. None), wl_enabled = ntt_enable_log,
      wl_mutex = None, wl_out = [], wl_pc = (\<lambda>_. LgIdle), wl_called = [], wl_begun = []\<rparr>"

definition ntt_log :: "nat \<Rightarrow> string \<Rightarrow> int list \<Rightarrow> wl_sys \<Rightarrow> wl_sys" where
  "ntt_log t fmt args s =
     (if \<not> wl_enabled s then s
      else let line = vformat fmt args
           in s\<lparr>wl_pc := (wl_pc s)(t := LgWait line), wl_called := wl_called s @ [(t, line)]\<rparr>)"

text \<open>A line of a worker, as all of them are written: the keys of the thread and of the worker, the text, and what the text refers to.\<close>

definition worker_log :: "nat \<Rightarrow> u64 \<Rightarrow> string \<Rightarrow> u64 list \<Rightarrow> wl_sys \<Rightarrow> wl_sys" where
  "worker_log t worker text args s = (
     let (key, s1) = ntt_this_thread_key t s
     in ntt_log t (''[t:%ld|w:%ld] '' @ text) (map sint (key # worker # args)) s1)"

section \<open>Steps\<close>

datatype wl_act = WlEnter nat | WlLeave nat | WlLeft nat u64 | WlLog nat string "u64 list" | WlLock nat | WlPut nat | WlUnlock nat

text \<open>
  The counters have not run out of their types. The last line of a worker, after it has left, is written with the key of the worker, since the thread has none
  any more.
\<close>

fun wl_able :: "wl_sys \<Rightarrow> wl_act \<Rightarrow> bool" where
  "wl_able s (WlEnter t) \<longleftrightarrow> wl_pc s t = LgIdle \<and> wl_worker s t = None \<and> wl_worker_next s \<noteq> -1"
| "wl_able s (WlLeave t) \<longleftrightarrow> wl_pc s t = LgIdle \<and> wl_worker s t \<noteq> None"
| "wl_able s (WlLeft t worker) \<longleftrightarrow> wl_pc s t = LgIdle \<and> wl_worker s t = None \<and> wl_thread_next s \<noteq> -1"
| "wl_able s (WlLog t text args) \<longleftrightarrow> wl_pc s t = LgIdle \<and> wl_thread_next s \<noteq> -1"
| "wl_able s (WlLock t) \<longleftrightarrow> (case wl_pc s t of LgWait line \<Rightarrow> True | _ \<Rightarrow> False) \<and> wl_mutex s = None"
| "wl_able s (WlPut t) \<longleftrightarrow> (case wl_pc s t of LgWrite (c # rest) \<Rightarrow> True | _ \<Rightarrow> False)"
| "wl_able s (WlUnlock t) \<longleftrightarrow> wl_pc s t = LgWrite []"

fun wl_do :: "wl_act \<Rightarrow> wl_sys \<Rightarrow> wl_sys option" where
  "wl_do (WlEnter t) s = Some (worker_enter t s)"
| "wl_do (WlLeave t) s = Some (worker_leave t s)"
| "wl_do (WlLeft t worker) s = Some (worker_log t worker (''leave'' @ [CHR 0x0A]) [] s)"
| "wl_do (WlLog t text args) s = Some (worker_log t (ntt_this_worker_key t s) text args s)"
| "wl_do (WlLock t) s = (case wl_pc s t of
     LgWait line \<Rightarrow> Some (s\<lparr>wl_mutex := Some t, wl_pc := (wl_pc s)(t := LgWrite line), wl_begun := wl_begun s @ [(t, line)]\<rparr>)
   | _ \<Rightarrow> None)"
| "wl_do (WlPut t) s = (case wl_pc s t of
     LgWrite (c # rest) \<Rightarrow> Some (s\<lparr>wl_out := wl_out s @ [c], wl_pc := (wl_pc s)(t := LgWrite rest)\<rparr>)
   | _ \<Rightarrow> None)"
| "wl_do (WlUnlock t) s = Some (s\<lparr>wl_mutex := None, wl_pc := (wl_pc s)(t := LgIdle)\<rparr>)"

inductive wl_reachable :: "bool \<Rightarrow> wl_sys \<Rightarrow> bool" for log where
  wl_begin: "wl_reachable log (mylibrary_load log)"
| wl_next: "wl_reachable log s \<Longrightarrow> wl_able s a \<Longrightarrow> wl_do a s = Some s' \<Longrightarrow> wl_reachable log s'"

interpretation wl_run: scheduled "guarded wl_able wl_do" "wl_reachable log" for log
  by unfold_locales (auto intro: wl_next split: if_splits)

section \<open>The invariant\<close>

definition lines_of :: "nat \<Rightarrow> (nat \<times> string) list \<Rightarrow> string list" where
  "lines_of t ls = map snd (filter (\<lambda>l. fst l = t) ls)"

fun waits :: "log_pc \<Rightarrow> string list" where
  "waits (LgWait line) = [line]"
| "waits p = []"

fun writes :: "log_pc \<Rightarrow> bool" where
  "writes (LgWrite rest) \<longleftrightarrow> True"
| "writes p \<longleftrightarrow> False"

definition out_ok :: "wl_sys \<Rightarrow> bool" where
  "out_ok s \<longleftrightarrow> (\<forall>t. writes (wl_pc s t) \<longleftrightarrow> wl_mutex s = Some t) \<and>
     (case wl_mutex s of
        None \<Rightarrow> wl_out s = concat (map snd (wl_begun s))
      | Some t \<Rightarrow> \<exists>rest line. wl_pc s t = LgWrite rest \<and> wl_out s @ rest = concat (map snd (wl_begun s)) \<and>
          wl_begun s \<noteq> [] \<and> last (wl_begun s) = (t, line) \<and> suffix rest line) \<and>
     (\<forall>t. lines_of t (wl_called s) = lines_of t (wl_begun s) @ waits (wl_pc s t)) \<and> (\<not> wl_enabled s \<longrightarrow> wl_called s = [])"

definition keys_ok :: "wl_sys \<Rightarrow> bool" where
  "keys_ok s \<longleftrightarrow> 0 < unat (wl_thread_next s) \<and> 0 < unat (wl_worker_next s) \<and>
     (\<forall>t. unat (wl_thread_key s t) < unat (wl_thread_next s)) \<and>
     (\<forall>t u. wl_thread_key s t = wl_thread_key s u \<longrightarrow> wl_thread_key s t \<noteq> 0 \<longrightarrow> t = u) \<and>
     (\<forall>t k. wl_worker s t = Some k \<longrightarrow> k \<noteq> 0 \<and> unat k < unat (wl_worker_next s)) \<and>
     (\<forall>t u k. wl_worker s t = Some k \<longrightarrow> wl_worker s u = Some k \<longrightarrow> t = u)"

text \<open>How a line of a thread begins.\<close>

definition line_start :: "u64 \<Rightarrow> string" where
  "line_start key = ''[t:'' @ dec_int (sint key) @ ''|w:''"

definition lines_ok :: "wl_sys \<Rightarrow> bool" where
  "lines_ok s \<longleftrightarrow> (\<forall>(t, line) \<in> set (wl_called s). wl_thread_key s t \<noteq> 0 \<and> prefix (line_start (wl_thread_key s t)) line)"

lemma vformat_char: "c \<noteq> CHR ''%'' \<Longrightarrow> vformat (c # rest) args = c # vformat rest args"
  by (subst vformat.simps) simp

lemma vformat_ld: "vformat (CHR ''%'' # CHR ''l'' # CHR ''d'' # rest) (a # args) = dec_int a @ vformat rest args"
  by (subst vformat.simps) simp

lemma worker_line:
  "vformat (''[t:%ld|w:%ld] '' @ text) (a # b # args) = ''[t:'' @ dec_int a @ ''|w:'' @ dec_int b @ ''] '' @ vformat text args"
  by (simp add: vformat_char vformat_ld)

lemma lines_of_append [simp]: "lines_of t (ls @ [(u, line)]) = lines_of t ls @ (if u = t then [line] else [])"
  by (simp add: lines_of_def)

lemma unat_next: "n \<noteq> -1 \<Longrightarrow> unat (n + 1 :: u64) = unat n + 1"
  using unatSuc [of n] by (simp add: eq_neg_iff_add_eq_0 add.commute)

text \<open>What a line of a worker does to the state: a key for the thread if it has none yet, and the line if the log is enabled.\<close>

lemma worker_log_effect:
  assumes "keys_ok s" "wl_thread_next s \<noteq> -1"
  obtains key nx where "key \<noteq> 0" "unat key < unat nx" "unat (wl_thread_next s) \<le> unat nx"
    "key = wl_thread_key s t \<and> wl_thread_key s t \<noteq> 0 \<or> key = wl_thread_next s \<and> wl_thread_key s t = 0"
    "\<exists>line. prefix (line_start key) line \<and>
       worker_log t worker text args s = s\<lparr>wl_thread_next := nx, wl_thread_key := (wl_thread_key s)(t := key),
         wl_pc := (if wl_enabled s then (wl_pc s)(t := LgWait line) else wl_pc s),
         wl_called := (if wl_enabled s then wl_called s @ [(t, line)] else wl_called s)\<rparr>"
proof -
  have pre: "prefix (line_start key) (vformat (''[t:%ld|w:%ld] '' @ text) (sint key # b # as))" for key b as
    by (simp add: worker_line line_start_def del: append.simps)
  let ?line = "\<lambda>key. vformat (''[t:%ld|w:%ld] '' @ text) (sint key # map sint (worker # args))"
  let ?after = "\<lambda>key nx. s\<lparr>wl_thread_next := nx, wl_thread_key := (wl_thread_key s)(t := key),
    wl_pc := (if wl_enabled s then (wl_pc s)(t := LgWait (?line key)) else wl_pc s),
    wl_called := (if wl_enabled s then wl_called s @ [(t, ?line key)] else wl_called s)\<rparr>"
  show thesis
  proof (cases "wl_thread_key s t = 0")
    case True
    have nx: "unat (wl_thread_next s + 1) = unat (wl_thread_next s) + 1" by (rule unat_next [OF assms(2)])
    have "worker_log t worker text args s = ?after (wl_thread_next s) (wl_thread_next s + 1)"
      using True by (simp add: worker_log_def ntt_this_thread_key_def ntt_log_def Let_def)
    then have "\<exists>line. prefix (line_start (wl_thread_next s)) line \<and>
       worker_log t worker text args s = s\<lparr>wl_thread_next := wl_thread_next s + 1, wl_thread_key := (wl_thread_key s)(t := wl_thread_next s),
         wl_pc := (if wl_enabled s then (wl_pc s)(t := LgWait line) else wl_pc s),
         wl_called := (if wl_enabled s then wl_called s @ [(t, line)] else wl_called s)\<rparr>"
      using pre by (intro exI [of _ "?line (wl_thread_next s)"] conjI) simp_all
    then show thesis by (rule that [rotated -1]) (use True assms(1) nx in \<open>auto simp: keys_ok_def\<close>)
  next
    case False
    have "worker_log t worker text args s = ?after (wl_thread_key s t) (wl_thread_next s)"
      using False by (simp add: worker_log_def ntt_this_thread_key_def ntt_log_def Let_def)
    then have "\<exists>line. prefix (line_start (wl_thread_key s t)) line \<and>
       worker_log t worker text args s = s\<lparr>wl_thread_next := wl_thread_next s, wl_thread_key := (wl_thread_key s)(t := wl_thread_key s t),
         wl_pc := (if wl_enabled s then (wl_pc s)(t := LgWait line) else wl_pc s),
         wl_called := (if wl_enabled s then wl_called s @ [(t, line)] else wl_called s)\<rparr>"
      using pre by (intro exI [of _ "?line (wl_thread_key s t)"] conjI) simp_all
    then show thesis by (rule that [rotated -1]) (use False assms(1) in \<open>auto simp: keys_ok_def\<close>)
  qed
qed

definition wl_inv :: "wl_sys \<Rightarrow> bool" where
  "wl_inv s \<longleftrightarrow> out_ok s \<and> keys_ok s \<and> lines_ok s"

lemma out_ok_put:
  assumes "out_ok s" "wl_pc s t = LgWrite (c # rest)"
  shows "out_ok (s\<lparr>wl_out := wl_out s @ [c], wl_pc := (wl_pc s)(t := LgWrite rest)\<rparr>)"
proof -
  have t: "wl_mutex s = Some t" using assms by (auto simp: out_ok_def)
  then show ?thesis using assms by (auto simp: out_ok_def intro: suffix_ConsD)
qed

lemma out_ok_lock:
  assumes "out_ok s" "wl_pc s t = LgWait line" "wl_mutex s = None"
  shows "out_ok (s\<lparr>wl_mutex := Some t, wl_pc := (wl_pc s)(t := LgWrite line), wl_begun := wl_begun s @ [(t, line)]\<rparr>)"
  using assms by (auto simp: out_ok_def)

lemma out_ok_unlock:
  assumes "out_ok s" "wl_pc s t = LgWrite []"
  shows "out_ok (s\<lparr>wl_mutex := None, wl_pc := (wl_pc s)(t := LgIdle)\<rparr>)"
proof -
  have "wl_mutex s = Some t" using assms by (auto simp: out_ok_def)
  then show ?thesis using assms by (auto simp: out_ok_def)
qed

lemma out_ok_log:
  assumes "out_ok s" "wl_pc s t = LgIdle"
  shows "out_ok (s\<lparr>wl_thread_next := nx, wl_thread_key := ks, wl_pc := (if wl_enabled s then (wl_pc s)(t := LgWait line) else wl_pc s),
    wl_called := (if wl_enabled s then wl_called s @ [(t, line)] else wl_called s)\<rparr>)"
proof -
  have "wl_mutex s \<noteq> Some t" using assms by (auto simp: out_ok_def)
  then show ?thesis using assms by (auto simp: out_ok_def split: option.splits)
qed

lemma keys_ok_enter:
  assumes "keys_ok s" "wl_worker_next s \<noteq> -1"
  shows "keys_ok (worker_enter t s)"
proof -
  have "unat (wl_worker_next s + 1) = unat (wl_worker_next s) + 1" by (rule unat_next [OF assms(2)])
  then show ?thesis using assms(1) unfolding keys_ok_def worker_enter_def by (auto intro: less_SucI)
qed

lemma out_ok_frame [simp]:
  "out_ok (s\<lparr>wl_worker_next := n\<rparr>) = out_ok s" "out_ok (s\<lparr>wl_worker := ws\<rparr>) = out_ok s"
  by (simp_all add: out_ok_def split: option.split)

lemma keys_ok_frame [simp]:
  "keys_ok (s\<lparr>wl_pc := pc\<rparr>) = keys_ok s" "keys_ok (s\<lparr>wl_mutex := mx\<rparr>) = keys_ok s" "keys_ok (s\<lparr>wl_out := cs\<rparr>) = keys_ok s"
  "keys_ok (s\<lparr>wl_begun := ls\<rparr>) = keys_ok s"
  by (simp_all add: keys_ok_def)

lemma lines_ok_frame [simp]:
  "lines_ok (s\<lparr>wl_pc := pc\<rparr>) = lines_ok s" "lines_ok (s\<lparr>wl_mutex := mx\<rparr>) = lines_ok s" "lines_ok (s\<lparr>wl_out := cs\<rparr>) = lines_ok s"
  "lines_ok (s\<lparr>wl_begun := ls\<rparr>) = lines_ok s"
  by (simp_all add: lines_ok_def)

lemma worker_log_inv:
  assumes "wl_inv s" "wl_pc s t = LgIdle" "wl_thread_next s \<noteq> -1"
  shows "wl_inv (worker_log t worker text args s)"
proof -
  let ?s = "worker_log t worker text args s"
  have k: "keys_ok s" "wl_thread_next s \<noteq> -1" using assms by (auto simp: wl_inv_def)
  obtain key nx where e: "key \<noteq> 0" "unat key < unat nx" "unat (wl_thread_next s) \<le> unat nx"
    "key = wl_thread_key s t \<and> wl_thread_key s t \<noteq> 0 \<or> key = wl_thread_next s \<and> wl_thread_key s t = 0"
    "\<exists>line. prefix (line_start key) line \<and>
       worker_log t worker text args s = s\<lparr>wl_thread_next := nx, wl_thread_key := (wl_thread_key s)(t := key),
         wl_pc := (if wl_enabled s then (wl_pc s)(t := LgWait line) else wl_pc s),
         wl_called := (if wl_enabled s then wl_called s @ [(t, line)] else wl_called s)\<rparr>"
    by (rule worker_log_effect [OF k])
  from e(5) obtain line where line: "prefix (line_start key) line"
    "?s = s\<lparr>wl_thread_next := nx, wl_thread_key := (wl_thread_key s)(t := key),
         wl_pc := (if wl_enabled s then (wl_pc s)(t := LgWait line) else wl_pc s),
         wl_called := (if wl_enabled s then wl_called s @ [(t, line)] else wl_called s)\<rparr>" by blast
  have "out_ok ?s" unfolding line(2) by (rule out_ok_log) (use assms in \<open>auto simp: wl_inv_def\<close>)
  moreover have "keys_ok ?s"
  proof -
    have "unat (wl_thread_key s u) < unat nx" "u \<noteq> t \<Longrightarrow> wl_thread_key s u \<noteq> key \<or> wl_thread_key s u = 0" for u
      using k(1) e(3,4) unfolding keys_ok_def by (meson less_le_trans, metis less_irrefl)
    then show ?thesis using k(1) e(1,2,3) unfolding keys_ok_def line(2) by (auto split: if_splits)
  qed
  moreover have "lines_ok ?s" using assms(1) e(1,4) line(1) unfolding wl_inv_def lines_ok_def line(2) by (auto split: if_splits)
  ultimately show ?thesis by (simp add: wl_inv_def)
qed

lemma wl_step_inv:
  assumes inv: "wl_inv s" and able: "wl_able s a" and st: "wl_do a s = Some s'"
  shows "wl_inv s'"
proof (cases a)
  case (WlEnter t)
  then show ?thesis using assms keys_ok_enter [of s t] by (auto simp: wl_inv_def lines_ok_def worker_enter_def)
next
  case (WlLeave t)
  then show ?thesis using assms by (fastforce simp: wl_inv_def keys_ok_def lines_ok_def worker_leave_def split: if_splits)
next
  case (WlLeft t worker)
  then show ?thesis using worker_log_inv [OF inv] able st by auto
next
  case (WlLog t msg args)
  then show ?thesis using worker_log_inv [OF inv] able st by auto
next
  case (WlLock t)
  then obtain line where "wl_pc s t = LgWait line" "wl_mutex s = None" using able by (auto split: log_pc.splits)
  then show ?thesis using out_ok_lock [of s t line] inv st WlLock by (auto simp: wl_inv_def)
next
  case (WlPut t)
  then obtain c rest where "wl_pc s t = LgWrite (c # rest)" using able by (auto split: log_pc.splits list.splits)
  then show ?thesis using out_ok_put [of s t c rest] inv st WlPut by (auto simp: wl_inv_def)
next
  case (WlUnlock t)
  then show ?thesis using out_ok_unlock [of s t] assms by (auto simp: wl_inv_def)
qed

lemma wl_reachable_inv: "wl_reachable log s \<Longrightarrow> wl_inv s"
proof (induction rule: wl_reachable.induct)
  case wl_begin
  show ?case by (auto simp: wl_inv_def out_ok_def keys_ok_def lines_ok_def mylibrary_load_def lines_of_def)
qed (rule wl_step_inv)

lemma wl_enabled_kept: "wl_reachable log s \<Longrightarrow> wl_enabled s = log"
proof (induction rule: wl_reachable.induct)
  case (wl_next s a s')
  then show ?case by (cases a) (auto simp: worker_enter_def worker_leave_def worker_log_def ntt_this_thread_key_def ntt_log_def Let_def split: log_pc.splits list.splits if_splits prod.splits)
qed (simp add: mylibrary_load_def)

text \<open>The beginning of a line tells the key.\<close>

lemma dec_bar: "CHR ''|'' \<notin> set (dec n)"
proof
  assume "CHR ''|'' \<in> set (dec n)"
  then obtain d where "d < 10" "CHR ''|'' = digit d" using dec_digits by blast
  then have "(of_char (CHR ''|'') :: nat) = 48 + d" using digit_of [of d] by metis
  then show False using \<open>d < 10\<close> by simp
qed

lemma dec_int_bar: "CHR ''|'' \<notin> set (dec_int i)"
  by (simp add: dec_int_def dec_bar)

lemma line_start_key: "prefix (line_start k) line \<Longrightarrow> prefix (line_start l) line \<Longrightarrow> k = l"
proof -
  assume "prefix (line_start k) line" "prefix (line_start l) line"
  then obtain x y where "dec_int (sint k) @ ''|w:'' @ x = dec_int (sint l) @ ''|w:'' @ y" by (auto simp: line_start_def prefix_def)
  moreover have "takeWhile (\<lambda>c. c \<noteq> CHR ''|'') (dec_int i @ ''|w:'' @ z) = dec_int i" for i z
    using dec_int_bar by (subst takeWhile_append2) auto
  ultimately have "dec_int (sint k) = dec_int (sint l)" by metis
  then show "k = l" by (simp add: dec_int_inject signed_word_eqI)
qed

section \<open>Properties\<close>

text \<open>
  C24. The log is readable. However the threads interleave, the output is made of whole lines, in the order in which the mutex was taken for them, followed by a
  part of the one that is being written; the lines of each thread are in its order, and all are there but the one it waits to write. Every line begins with
  the key of its thread, which no other thread has, so that no two threads write the same line; and without the environment variable nothing is written.
\<close>

theorem log_lines_whole:
  assumes "wl_reachable log s"
  shows "prefix (wl_out s) (concat (map snd (wl_begun s))) \<and> prefix (concat (map snd (butlast (wl_begun s)))) (wl_out s) \<and>
    (wl_mutex s = None \<longrightarrow> wl_out s = concat (map snd (wl_begun s))) \<and>
    lines_of t (wl_called s) = lines_of t (wl_begun s) @ waits (wl_pc s t) \<and>
    (\<forall>line \<in> set (lines_of t (wl_called s)). prefix (line_start (wl_thread_key s t)) line) \<and>
    (t \<noteq> u \<longrightarrow> set (lines_of t (wl_called s)) \<inter> set (lines_of u (wl_called s)) = {}) \<and> (\<not> log \<longrightarrow> wl_out s = [])"
proof -
  have inv: "out_ok s" "keys_ok s" "lines_ok s" using wl_reachable_inv [OF assms] by (auto simp: wl_inv_def)
  have start: "wl_thread_key s v \<noteq> 0 \<and> prefix (line_start (wl_thread_key s v)) line" if "line \<in> set (lines_of v (wl_called s))" for v line
    using inv(3) that by (fastforce simp: lines_ok_def lines_of_def)
  have order: "lines_of v (wl_called s) = lines_of v (wl_begun s) @ waits (wl_pc s v)" for v using inv(1) by (simp add: out_ok_def)
  have "wl_thread_key s t \<noteq> wl_thread_key s u" if "t \<noteq> u" "wl_thread_key s t \<noteq> 0" using inv(2) that by (auto simp: keys_ok_def)
  then have apart: "set (lines_of t (wl_called s)) \<inter> set (lines_of u (wl_called s)) = {}" if "t \<noteq> u"
    using that start line_start_key by (metis disjoint_iff)
  have parts: "prefix (wl_out s) (concat (map snd (wl_begun s))) \<and> prefix (concat (map snd (butlast (wl_begun s)))) (wl_out s)"
  proof (cases "wl_mutex s")
    case None
    then have "wl_out s = concat (map snd (wl_begun s))" using inv(1) by (simp add: out_ok_def)
    moreover have "prefix (concat (map snd (butlast ls))) (concat (map snd ls))" for ls :: "(nat \<times> string) list"
      by (cases ls rule: rev_cases) auto
    ultimately show ?thesis by simp
  next
    case (Some v)
    then obtain rest line where w: "wl_out s @ rest = concat (map snd (wl_begun s))" "wl_begun s \<noteq> []" "last (wl_begun s) = (v, line)" "suffix rest line"
      using inv(1) by (auto simp: out_ok_def)
    then have "wl_begun s = butlast (wl_begun s) @ [(v, line)]" by (metis append_butlast_last_id)
    moreover have "concat (map snd (ls @ [(v, line)])) = concat (map snd ls) @ line" for ls :: "(nat \<times> string) list" by simp
    ultimately have c: "concat (map snd (wl_begun s)) = concat (map snd (butlast (wl_begun s))) @ line" by metis
    obtain out where "line = out @ rest" using w(4) by (auto simp: suffix_def)
    then have "wl_out s = concat (map snd (butlast (wl_begun s))) @ out" using w(1) c by simp
    moreover have "prefix (wl_out s) (concat (map snd (wl_begun s)))" using w(1) by (metis prefixI)
    ultimately show ?thesis by simp
  qed
  have "wl_out s = []" if "\<not> log"
  proof -
    have "wl_called s = []" using inv(1) wl_enabled_kept [OF assms] that by (auto simp: out_ok_def)
    then have "lines_of v (wl_begun s) = []" for v using order [of v] by (simp add: lines_of_def)
    then have none: "v \<notin> fst ` set (wl_begun s)" for v by (fastforce simp: lines_of_def filter_empty_conv)
    have "wl_begun s = []" using none by (cases "wl_begun s") auto
    then show ?thesis using parts by simp
  qed
  then show ?thesis using parts apart order [of t] start inv(1) by (auto simp: out_ok_def)
qed

text \<open>Two threads write: the second waits for the first, which has written one character.\<close>

definition demo_writing :: wl_sys where
  "demo_writing =
     \<lparr>wl_thread_next = 3, wl_worker_next = 2, wl_thread_key = (\<lambda>_. 0)(0 := 1, 1 := 2), wl_worker = [0 \<mapsto> 1], wl_enabled = True,
      wl_mutex = Some 0, wl_out = ''['', wl_pc = (\<lambda>_. LgIdle)(0 := LgWrite ''t:1|w:1] a'', 1 := LgWait ''[t:2|w:0] b7''),
      wl_called = [(0, ''[t:1|w:1] a''), (1, ''[t:2|w:0] b7'')], wl_begun = [(0, ''[t:1|w:1] a'')]\<rparr>"

lemma demo_format:
  "vformat ''[t:%ld|w:%ld] a'' [1, 1] = ''[t:1|w:1] a''" "vformat ''[t:%ld|w:%ld] b%ld'' [2, 0, 7] = ''[t:2|w:0] b7''"
  by code_simp+

lemma demo_writing_reachable: "wl_reachable True demo_writing"
proof -
  have "run_acts (guarded wl_able wl_do) [WlEnter 0, WlLog 0 ''a'' [], WlLog 1 ''b%ld'' [7], WlLock 0, WlPut 0] (mylibrary_load True) = Some demo_writing"
    by (simp add: guarded_def mylibrary_load_def worker_enter_def worker_log_def ntt_this_thread_key_def ntt_this_worker_key_def ntt_log_def
      Let_def demo_format demo_writing_def fun_upd_twist)
  then show ?thesis by (rule wl_run.run_reach [OF wl_begin])
qed

theorem log_lines_whole_witness:
  "prefix (wl_out demo_writing) (concat (map snd (wl_begun demo_writing))) \<and>
    set (lines_of 0 (wl_called demo_writing)) \<inter> set (lines_of 1 (wl_called demo_writing)) = {} \<and>
    lines_of 1 (wl_called demo_writing) = [''[t:2|w:0] b7'']"
  using log_lines_whole [OF demo_writing_reachable, of 1 0] by (auto simp: demo_writing_def lines_of_def)

end
