(* ===== verification/Task_Cpp.thy ===== *)
theory Task_Cpp
  imports Task_Life
begin

text \<open>
  The C++ wrapper, \<open>src/include/ntt/task.hpp\<close>: a functor is moved into the payload of a task, whose callback calls it or ends its life. The type of the
  functor is code of the user and a parameter: its size and alignment, the address of the callback that is made for the type, and what a call
  makes of the captured state. Constructors are taken not to throw.
\<close>

section \<open>Functors in payloads\<close>

record functor_type =
  ft_size :: nat
  ft_align :: nat
  ft_cb :: ptr
  ft_call :: "u64 list \<Rightarrow> u64 list"

definition functor_words :: "functor_type \<Rightarrow> nat" where
  "functor_words F = (ft_size F + 7) div 8"

datatype functor_event = FnMade ptr "u64 list" | FnRun ptr "u64 list" | FnDied ptr "u64 list"

record cpp_mem =
  cm_mem :: task_mem
  cm_log :: "functor_event list"

text \<open>The object at the start of a payload: reading it, and writing it over what is there.\<close>

definition object_at :: "functor_type \<Rightarrow> ptr \<Rightarrow> task_mem \<Rightarrow> u64 list option" where
  "object_at F payload m = map_option (\<lambda>t. take (functor_words F) (tn_payload t)) (tm_tasks m (task_node_of payload))"

definition object_put :: "ptr \<Rightarrow> u64 list \<Rightarrow> task_mem \<Rightarrow> task_mem option" where
  "object_put payload f m = do {
     t \<leftarrow> tm_tasks m (task_node_of payload);
     Some (m\<lparr>tm_tasks := (tm_tasks m)(task_node_of payload \<mapsto> t\<lparr>tn_payload := f @ drop (length f) (tn_payload t)\<rparr>)\<rparr>)
   }"

text \<open>A functor that is too large is refused by the compiler.\<close>

definition make_task :: "env \<Rightarrow> functor_type \<Rightarrow> u64 list \<Rightarrow> ptr \<Rightarrow> u64 list \<Rightarrow> cpp_mem \<Rightarrow> (ptr \<times> cpp_mem) option" where
  "make_task env F functor addr garbage c =
     (if \<not> ft_size F \<le> NTT_TASK_PAYLOAD_SIZE then None
      else do {
        (task, m) \<leftarrow> ntt_task_create env addr (ft_cb F) garbage (cm_mem c);
        m \<leftarrow> object_put task functor m;
        Some (task, c\<lparr>cm_mem := m, cm_log := cm_log c @ [FnMade task functor]\<rparr>)
      })"

text \<open>The callback: a call may change what the functor captured, a drop ends its life.\<close>

definition functor_cb :: "functor_type \<Rightarrow> ptr \<Rightarrow> ntt_task_action \<Rightarrow> cpp_mem \<Rightarrow> cpp_mem option" where
  "functor_cb F payload action c = do {
     f \<leftarrow> object_at F payload (cm_mem c);
     if action = NTT_TASK_RUN
     then do {
       m \<leftarrow> object_put payload (ft_call F f) (cm_mem c);
       Some (c\<lparr>cm_mem := m, cm_log := cm_log c @ [FnRun payload f]\<rparr>)
     }
     else Some (c\<lparr>cm_log := cm_log c @ [FnDied payload f]\<rparr>)
   }"

text \<open>The operations on such a task, with the callback that they call.\<close>

definition functor_svc :: "functor_type \<Rightarrow> ptr \<Rightarrow> cpp_mem \<Rightarrow> cpp_mem option" where
  "functor_svc F task c = do {
     m \<leftarrow> ntt_task_svc task (cm_mem c);
     functor_cb F task NTT_TASK_RUN (c\<lparr>cm_mem := m\<rparr>)
   }"

definition functor_destroy :: "functor_type \<Rightarrow> ptr \<Rightarrow> cpp_mem \<Rightarrow> cpp_mem option" where
  "functor_destroy F task c = do {
     c \<leftarrow> functor_cb F task NTT_TASK_DROP c;
     m \<leftarrow> ntt_task_destroy task (cm_mem c);
     Some (c\<lparr>cm_mem := m\<rparr>)
   }"

fun functor_runs :: "nat \<Rightarrow> functor_type \<Rightarrow> ptr \<Rightarrow> cpp_mem \<Rightarrow> cpp_mem option" where
  "functor_runs 0 F task c = Some c"
| "functor_runs (Suc n) F task c = do { c \<leftarrow> functor_runs n F task c; functor_svc F task c }"

section \<open>The life of a functor\<close>

text \<open>What a type promises: its callback is a function and a call keeps the size of the object.\<close>

definition functor_ok :: "functor_type \<Rightarrow> bool" where
  "functor_ok F \<longleftrightarrow> ft_size F \<le> NTT_TASK_PAYLOAD_SIZE \<and> ft_cb F \<noteq> NULL \<and> (\<forall>f. length f = functor_words F \<longrightarrow> length (ft_call F f) = functor_words F)"

text \<open>Where a task holds the functor \<open>f\<close>.\<close>

definition holds :: "functor_type \<Rightarrow> ptr \<Rightarrow> u64 list \<Rightarrow> task_mem \<Rightarrow> bool" where
  "holds F a f m \<longleftrightarrow> length f = functor_words F \<and>
     (\<exists>rest. length f + length rest = 4 \<and> tm_tasks m a = Some \<lparr>tn_cb = ft_cb F, tn_free = NttFree, tn_payload = f @ rest\<rparr>)"

lemma node_of_task [simp]: "task_node_of (task_of_node a) = a"
  by (simp add: task_node_of_def task_of_node_def)

lemma functor_words_fit: "functor_ok F \<Longrightarrow> functor_words F \<le> 4"
  by (auto simp: functor_ok_def functor_words_def NTT_TASK_PAYLOAD_SIZE_def)

lemma make_task_holds:
  assumes "functor_ok F" "length functor = functor_words F" "storage_ok (cm_mem c) a" "length garbage = 4"
  shows "\<exists>c'. make_task env F functor a garbage c = Some (task_of_node a, c') \<and> holds F a functor (cm_mem c') \<and>
    (\<forall>b. b \<noteq> a \<longrightarrow> tm_tasks (cm_mem c') b = tm_tasks (cm_mem c) b) \<and> cm_log c' = cm_log c @ [FnMade (task_of_node a) functor]"
  using assms functor_words_fit [OF assms(1)] payload_aligned(2) [of a]
  by (auto simp: make_task_def functor_ok_def ntt_task_create_def ntt_task_create_inl_def ntt_malloc_def ntt_assert_def storage_ok_def
    object_put_def node_put_def holds_def)

lemma functor_svc_holds:
  assumes "functor_ok F" "holds F a f (cm_mem c)"
  shows "\<exists>c'. functor_svc F (task_of_node a) c = Some c' \<and> holds F a (ft_call F f) (cm_mem c') \<and>
    (\<forall>b. b \<noteq> a \<longrightarrow> tm_tasks (cm_mem c') b = tm_tasks (cm_mem c) b) \<and> cm_log c' = cm_log c @ [FnRun (task_of_node a) f]"
  using assms
  by (auto simp: functor_svc_def functor_cb_def functor_ok_def ntt_task_svc_def object_at_def object_put_def holds_def)

lemma functor_runs_holds:
  assumes "functor_ok F" "holds F a f (cm_mem c)"
  shows "\<exists>c'. functor_runs n F (task_of_node a) c = Some c' \<and> holds F a ((ft_call F ^^ n) f) (cm_mem c') \<and>
    (\<forall>b. b \<noteq> a \<longrightarrow> tm_tasks (cm_mem c') b = tm_tasks (cm_mem c) b) \<and>
    cm_log c' = cm_log c @ map (\<lambda>i. FnRun (task_of_node a) ((ft_call F ^^ i) f)) [0..<n]"
proof (induction n)
  case (Suc n)
  then obtain c' where c': "functor_runs n F (task_of_node a) c = Some c'" "holds F a ((ft_call F ^^ n) f) (cm_mem c')"
    "\<forall>b. b \<noteq> a \<longrightarrow> tm_tasks (cm_mem c') b = tm_tasks (cm_mem c) b"
    "cm_log c' = cm_log c @ map (\<lambda>i. FnRun (task_of_node a) ((ft_call F ^^ i) f)) [0..<n]" by blast
  show ?case using functor_svc_holds [OF assms(1) c'(2)] c' by auto
qed (use assms in simp)

lemma functor_destroy_holds:
  assumes "functor_ok F" "holds F a f (cm_mem c)"
  shows "\<exists>c'. functor_destroy F (task_of_node a) c = Some c' \<and> tm_tasks (cm_mem c') = (tm_tasks (cm_mem c))(a := None) \<and>
    cm_log c' = cm_log c @ [FnDied (task_of_node a) f]"
  using assms by (auto simp: functor_destroy_def functor_cb_def functor_ok_def ntt_task_destroy_def object_at_def holds_def)

section \<open>Properties\<close>

text \<open>
  C28. A functor is made once, called as often as the task is run, each time on what the call before left of it, and ended once when the task is
  destroyed; then the memory of tasks is as it was, and no other task is touched meanwhile. The object is where its alignment wants it if that is at most
  \<open>NTT_TASK_PAYLOAD_ALIGN\<close>. A larger alignment is not refused: at half of the addresses that are multiples of 16 bytes, as those of an allocator are, the
  payload is not where a functor with an alignment of 32 bytes has to be.
\<close>

theorem functor_life:
  assumes "functor_ok F" "length functor = functor_words F" "storage_ok (cm_mem c) a" "length garbage = 4"
  shows "(\<exists>c1 c2 c3. make_task env F functor a garbage c = Some (task_of_node a, c1) \<and>
      functor_runs n F (task_of_node a) c1 = Some c2 \<and> functor_destroy F (task_of_node a) c2 = Some c3 \<and>
      tm_tasks (cm_mem c3) = tm_tasks (cm_mem c) \<and> (\<forall>b. b \<noteq> a \<longrightarrow> tm_tasks (cm_mem c2) b = tm_tasks (cm_mem c) b) \<and>
      cm_log c3 = cm_log c @ [FnMade (task_of_node a) functor] @ map (\<lambda>i. FnRun (task_of_node a) ((ft_call F ^^ i) functor)) [0..<n] @
        [FnDied (task_of_node a) ((ft_call F ^^ n) functor)]) \<and>
    (ft_align F dvd NTT_TASK_PAYLOAD_ALIGN \<longrightarrow> ntt_is_aligned (task_of_node a) (ft_align F)) \<and>
    (ft_align F = 32 \<and> unat a mod 32 = 16 \<longrightarrow> \<not> ntt_is_aligned (task_of_node a) (ft_align F))"
proof -
  obtain c1 where c1: "make_task env F functor a garbage c = Some (task_of_node a, c1)" "holds F a functor (cm_mem c1)"
    "\<forall>b. b \<noteq> a \<longrightarrow> tm_tasks (cm_mem c1) b = tm_tasks (cm_mem c) b" "cm_log c1 = cm_log c @ [FnMade (task_of_node a) functor]"
    using make_task_holds [OF assms] by blast
  obtain c2 where c2: "functor_runs n F (task_of_node a) c1 = Some c2" "holds F a ((ft_call F ^^ n) functor) (cm_mem c2)"
    "\<forall>b. b \<noteq> a \<longrightarrow> tm_tasks (cm_mem c2) b = tm_tasks (cm_mem c1) b"
    "cm_log c2 = cm_log c1 @ map (\<lambda>i. FnRun (task_of_node a) ((ft_call F ^^ i) functor)) [0..<n]"
    using functor_runs_holds [OF assms(1) c1(2)] by blast
  obtain c3 where c3: "functor_destroy F (task_of_node a) c2 = Some c3" "tm_tasks (cm_mem c3) = (tm_tasks (cm_mem c2))(a := None)"
    "cm_log c3 = cm_log c2 @ [FnDied (task_of_node a) ((ft_call F ^^ n) functor)]"
    using functor_destroy_holds [OF assms(1) c2(2)] by blast
  have "tm_tasks (cm_mem c3) = tm_tasks (cm_mem c)" using c1(3) c2(3) c3(2) storage_vacant [OF assms(3)] by auto
  moreover have "unat (task_of_node a) = unat a + 32" "ntt_is_aligned (task_of_node a) NTT_TASK_PAYLOAD_ALIGN"
    using assms(3) payload_aligned [of a] by (simp_all add: storage_ok_def)
  then have "(ft_align F dvd NTT_TASK_PAYLOAD_ALIGN \<longrightarrow> ntt_is_aligned (task_of_node a) (ft_align F)) \<and>
    (ft_align F = 32 \<and> unat a mod 32 = 16 \<longrightarrow> \<not> ntt_is_aligned (task_of_node a) (ft_align F))"
    by (auto simp: ntt_is_aligned_def mod_eq_0_iff_dvd intro: dvd_trans)
  ultimately show ?thesis using c1 c2 c3 by auto
qed

text \<open>A counter with an alignment of 32 bytes, run twice at an address that is not a multiple of it.\<close>

definition demo_functor :: functor_type where
  "demo_functor = \<lparr>ft_size = 32, ft_align = 32, ft_cb = 7, ft_call = map (\<lambda>w. w + 1)\<rparr>"

lemma demo_functor_ok: "functor_ok demo_functor" "length [5, 5, 5, 5 :: u64] = functor_words demo_functor"
  by (simp_all add: functor_ok_def demo_functor_def functor_words_def NTT_TASK_PAYLOAD_SIZE_def)

definition demo_cpp :: cpp_mem where
  "demo_cpp = \<lparr>cm_mem = no_tasks (\<lambda>_. \<lparr>nd_next = 0, nd_prev = 0\<rparr>), cm_log = []\<rparr>"

theorem functor_life_witness:
  "\<exists>c1 c2 c3. make_task life_env demo_functor [5, 5, 5, 5] 0x1010 [0, 0, 0, 0] demo_cpp = Some (task_of_node 0x1010, c1) \<and>
      functor_runs 2 demo_functor (task_of_node 0x1010) c1 = Some c2 \<and> functor_destroy demo_functor (task_of_node 0x1010) c2 = Some c3 \<and>
      cm_log c3 = [FnMade (task_of_node 0x1010) [5, 5, 5, 5], FnRun (task_of_node 0x1010) [5, 5, 5, 5], FnRun (task_of_node 0x1010) [6, 6, 6, 6], FnDied (task_of_node 0x1010) [7, 7, 7, 7]] \<and>
      \<not> ntt_is_aligned (task_of_node 0x1010) 32"
proof -
  have "storage_ok (cm_mem demo_cpp) 0x1010" by (simp add: demo_cpp_def storage_ok_def no_tasks_def task_node_size_def offset_unat NTT_TASK_PAYLOAD_SIZE_def)
  moreover have "length [0, 0, 0, 0 :: u64] = 4" by simp
  ultimately have life: "(\<exists>c1 c2 c3. make_task life_env demo_functor [5, 5, 5, 5] 0x1010 [0, 0, 0, 0] demo_cpp = Some (task_of_node 0x1010, c1) \<and>
      functor_runs 2 demo_functor (task_of_node 0x1010) c1 = Some c2 \<and> functor_destroy demo_functor (task_of_node 0x1010) c2 = Some c3 \<and>
      cm_log c3 = cm_log demo_cpp @ [FnMade (task_of_node 0x1010) [5, 5, 5, 5]] @
        map (\<lambda>i. FnRun (task_of_node 0x1010) ((ft_call demo_functor ^^ i) [5, 5, 5, 5])) [0..<2] @
        [FnDied (task_of_node 0x1010) ((ft_call demo_functor ^^ 2) [5, 5, 5, 5])])"
    "ft_align demo_functor = 32 \<and> unat (0x1010 :: u64) mod 32 = 16 \<longrightarrow> \<not> ntt_is_aligned (task_of_node 0x1010) (ft_align demo_functor)"
    using functor_life [OF demo_functor_ok, where c = demo_cpp and a = "0x1010" and garbage = "[0, 0, 0, 0]" and env = life_env and n = 2] by blast+
  have call: "ft_call demo_functor = map (\<lambda>w. w + 1)" "ft_align demo_functor = 32" by (simp_all add: demo_functor_def)
  have upt: "[0..<2] = [0, 1 :: nat]" by (simp add: upt_rec)
  have runs: "((map (\<lambda>w. w + 1)) ^^ 0) [5, 5, 5, 5] = [5, 5, 5, 5 :: u64]" "((map (\<lambda>w. w + 1)) ^^ 1) [5, 5, 5, 5] = [6, 6, 6, 6 :: u64]"
    "((map (\<lambda>w. w + 1)) ^^ 2) [5, 5, 5, 5] = [7, 7, 7, 7 :: u64]" by (simp_all add: numeral_2_eq_2)
  have "\<not> ntt_is_aligned (task_of_node 0x1010) 32" using life(2) by (simp add: call(2))
  moreover have "cm_log demo_cpp = []" by (simp add: demo_cpp_def)
  ultimately show ?thesis using life(1) by (simp only: upt call(1) list.map runs append.simps) blast
qed

end
