(* ===== verification/Thread_Context.thy ===== *)
theory Thread_Context
  imports Ntt_Task
begin

text \<open>
  The context of a thread: the variables \<open>t_queue\<close> of \<open>src/src/queue.c\<close>, \<open>ntt_ts_loop\<close> of \<open>src/src/loop.c\<close> and \<open>t_worker_self\<close> of
  \<open>src/src/worker.c\<close>, of which each thread has its own, and the calls that depend on them. A worker runs the queues it takes from the combine or its
  own local queue, one after the other; a task makes calls, which may be to run another loop. Only the context is modelled here: what the calls do to queues,
  timers and loops is in the other theories.
\<close>

section \<open>Calls of a task\<close>

record thread_ctx =
  t_queue :: "nat option"
  ntt_ts_loop :: "nat option"
  t_worker_self :: "nat option"

definition no_ctx :: thread_ctx where
  "no_ctx = \<lparr>t_queue = None, ntt_ts_loop = None, t_worker_self = None\<rparr>"

text \<open>\<open>CallRun\<close> has the loop, the worker in it, and the turns of the worker: a queue and the calls of each of the tasks that it runs.\<close>

datatype call = CallSelf | CallWakeup | CallCreate | CallTimers nat ntt_task_action | CallRun nat nat "(nat \<times> call list list) list"

text \<open>What the calls got: the current queue, the queue whose timers were used, the loop of a new queue.\<close>

datatype ctx_event = GotSelf "nat option" | Armed nat | CreatedIn nat | RanTimers nat

type_synonym ctx_result = "(ctx_event list \<times> thread_ctx) option"

definition ntt_queue_self :: "thread_ctx \<Rightarrow> nat option" where
  "ntt_queue_self s = t_queue s"

definition ntt_loop_self :: "thread_ctx \<Rightarrow> nat option" where
  "ntt_loop_self s = ntt_ts_loop s"

text \<open>The queue the timers are taken of; \<open>service\<close> says which queues have a timer service. Using \<open>NULL\<close> is undefined.\<close>

definition self_timers :: "env \<Rightarrow> (nat \<Rightarrow> bool) \<Rightarrow> thread_ctx \<Rightarrow> nat option" where
  "self_timers env service s = do {
     ntt_assert env (ntt_queue_self s \<noteq> None);
     queue \<leftarrow> ntt_queue_self s;
     ntt_assert env (service queue);
     (if service queue then Some queue else None)
   }"

text \<open>\<open>ntt_queue_create\<close>, up to the loop in which the queue is made.\<close>

definition ctx_queue_create :: "env \<Rightarrow> thread_ctx \<Rightarrow> nat option" where
  "ctx_queue_create env s = do {
     ntt_assert env (ntt_loop_self s \<noteq> None);
     ntt_loop_self s
   }"

text \<open>\<open>ntt_queue_timers_task_svc\<close>, up to the running of the timers.\<close>

definition ctx_timers_task :: "env \<Rightarrow> nat \<Rightarrow> ntt_task_action \<Rightarrow> thread_ctx \<Rightarrow> ctx_event list option" where
  "ctx_timers_task env self action s =
     (if action \<noteq> NTT_TASK_RUN then Some []
      else do {
        ntt_assert env (ntt_queue_self s = Some self);
        Some [RanTimers self]
      })"

text \<open>The variables at the beginning and the end of the running of a queue, and of a worker of a loop.\<close>

definition queue_enter :: "env \<Rightarrow> nat \<Rightarrow> thread_ctx \<Rightarrow> thread_ctx option" where
  "queue_enter env queue s = do {
     ntt_assert env (t_queue s = None);
     Some (s\<lparr>t_queue := Some queue\<rparr>)
   }"

definition queue_leave :: "env \<Rightarrow> nat \<Rightarrow> thread_ctx \<Rightarrow> thread_ctx option" where
  "queue_leave env queue s = do {
     ntt_assert env (t_queue s = Some queue);
     Some (s\<lparr>t_queue := None\<rparr>)
   }"

definition ctx_worker_enter :: "nat \<Rightarrow> nat \<Rightarrow> thread_ctx \<Rightarrow> thread_ctx" where
  "ctx_worker_enter loop worker s = s\<lparr>t_worker_self := Some worker, ntt_ts_loop := Some loop\<rparr>"

definition ctx_worker_leave :: "thread_ctx \<Rightarrow> thread_ctx" where
  "ctx_worker_leave s = s\<lparr>t_worker_self := None, ntt_ts_loop := None\<rparr>"

section \<open>The thread\<close>

fun run_call :: "env \<Rightarrow> (nat \<Rightarrow> bool) \<Rightarrow> call \<Rightarrow> thread_ctx \<Rightarrow> ctx_result"
  and run_task :: "env \<Rightarrow> (nat \<Rightarrow> bool) \<Rightarrow> call list \<Rightarrow> thread_ctx \<Rightarrow> ctx_result"
  and run_tasks :: "env \<Rightarrow> (nat \<Rightarrow> bool) \<Rightarrow> call list list \<Rightarrow> thread_ctx \<Rightarrow> ctx_result"
  and run_turns :: "env \<Rightarrow> (nat \<Rightarrow> bool) \<Rightarrow> (nat \<times> call list list) list \<Rightarrow> thread_ctx \<Rightarrow> ctx_result" where
  "run_call env service CallSelf s = Some ([GotSelf (ntt_queue_self s)], s)"
| "run_call env service CallWakeup s = do { queue \<leftarrow> self_timers env service s; Some ([Armed queue], s) }"
| "run_call env service CallCreate s = do { loop \<leftarrow> ctx_queue_create env s; Some ([CreatedIn loop], s) }"
| "run_call env service (CallTimers queue action) s = do { es \<leftarrow> ctx_timers_task env queue action s; Some (es, s) }"
| "run_call env service (CallRun loop worker turns) s = do {
     (es, s1) \<leftarrow> run_turns env service turns (ctx_worker_enter loop worker s);
     Some (es, ctx_worker_leave s1)
   }"
| "run_task env service [] s = Some ([], s)"
| "run_task env service (c # cs) s = do {
     (es, s1) \<leftarrow> run_call env service c s;
     (fs, s2) \<leftarrow> run_task env service cs s1;
     Some (es @ fs, s2)
   }"
| "run_tasks env service [] s = Some ([], s)"
| "run_tasks env service (t # ts) s = do {
     (es, s1) \<leftarrow> run_task env service t s;
     (fs, s2) \<leftarrow> run_tasks env service ts s1;
     Some (es @ fs, s2)
   }"
| "run_turns env service [] s = Some ([], s)"
| "run_turns env service ((queue, tasks) # turns) s = do {
     s1 \<leftarrow> queue_enter env queue s;
     (es, s2) \<leftarrow> run_tasks env service tasks s1;
     s3 \<leftarrow> queue_leave env queue s2;
     (fs, s4) \<leftarrow> run_turns env service turns s3;
     Some (es @ fs, s4)
   }"

section \<open>What the calls should get\<close>

text \<open>The calls a task of a queue may make: timers of a queue with a service, and the task that runs the timers in the queue they belong to.\<close>

fun call_ok :: "(nat \<Rightarrow> bool) \<Rightarrow> nat \<Rightarrow> call \<Rightarrow> bool" where
  "call_ok service queue CallWakeup \<longleftrightarrow> service queue"
| "call_ok service queue (CallTimers q action) \<longleftrightarrow> q = queue"
| "call_ok service queue (CallRun loop worker turns) \<longleftrightarrow> False"
| "call_ok service queue c \<longleftrightarrow> True"

fun call_gets :: "nat \<Rightarrow> nat \<Rightarrow> call \<Rightarrow> ctx_event list" where
  "call_gets loop queue CallSelf = [GotSelf (Some queue)]"
| "call_gets loop queue CallWakeup = [Armed queue]"
| "call_gets loop queue CallCreate = [CreatedIn loop]"
| "call_gets loop queue (CallTimers q action) = (if action = NTT_TASK_RUN then [RanTimers queue] else [])"
| "call_gets loop queue (CallRun l w turns) = []"

definition turn_gets :: "nat \<Rightarrow> nat \<times> call list list \<Rightarrow> ctx_event list" where
  "turn_gets loop turn = concat (map (call_gets loop (fst turn)) (concat (snd turn)))"

definition turn_ok :: "(nat \<Rightarrow> bool) \<Rightarrow> nat \<times> call list list \<Rightarrow> bool" where
  "turn_ok service turn \<longleftrightarrow> list_all (call_ok service (fst turn)) (concat (snd turn))"

lemma run_call_gets:
  assumes "call_ok service queue c" "t_queue s = Some queue" "ntt_ts_loop s = Some loop"
  shows "run_call env service c s = Some (call_gets loop queue c, s)"
  using assms by (cases c) (auto simp: self_timers_def ctx_queue_create_def ctx_timers_task_def ntt_queue_self_def ntt_loop_self_def ntt_assert_def)

lemma run_task_gets:
  assumes "list_all (call_ok service queue) cs" "t_queue s = Some queue" "ntt_ts_loop s = Some loop"
  shows "run_task env service cs s = Some (concat (map (call_gets loop queue) cs), s)"
  using assms(1) by (induction cs) (auto simp: run_call_gets [OF _ assms(2,3)])

lemma run_tasks_gets:
  assumes "list_all (call_ok service queue) (concat ts)" "t_queue s = Some queue" "ntt_ts_loop s = Some loop"
  shows "run_tasks env service ts s = Some (concat (map (call_gets loop queue) (concat ts)), s)"
  using assms(1) by (induction ts) (auto simp: run_task_gets [OF _ assms(2,3)])

lemma run_turns_gets:
  assumes "list_all (turn_ok service) turns" "t_queue s = None" "ntt_ts_loop s = Some loop"
  shows "run_turns env service turns s = Some (concat (map (turn_gets loop) turns), s)"
  using assms(1)
proof (induction turns)
  case (Cons turn turns)
  obtain queue ts where turn: "turn = (queue, ts)" by (cases turn)
  then have "run_tasks env service ts (s\<lparr>t_queue := Some queue\<rparr>) = Some (turn_gets loop turn, s\<lparr>t_queue := Some queue\<rparr>)"
    using run_tasks_gets [of service queue ts] Cons.prems assms(3) by (simp add: turn_ok_def turn_gets_def)
  moreover have same: "s\<lparr>t_queue := None\<rparr> = s" using assms(2) by simp
  ultimately show ?case using Cons assms(2) turn by (simp add: same queue_enter_def queue_leave_def ntt_assert_def)
qed simp

section \<open>Properties\<close>

text \<open>
  C25. The context of a thread. A worker that begins in a thread without a context runs all its turns, and no assertion fails: the current queue of a task is the queue
  that runs it, its timers are those that are used, new queues are made in the loop of the worker; and when the worker has left, the thread
  has no context again. A loop that a task runs in its own thread aborts with assertions as soon as it has a queue to run, and without them
  takes the context of the task away: when it returns, the task has neither queue nor loop.
\<close>

theorem thread_context:
  assumes "list_all (turn_ok service) turns"
  shows "run_call env service (CallRun loop worker turns) no_ctx = Some (concat (map (turn_gets loop) turns), no_ctx) \<and>
    (t_queue s = Some queue \<longrightarrow> turns \<noteq> [] \<longrightarrow> \<not> ndebug env \<longrightarrow> run_call env service (CallRun loop worker turns) s = None) \<and>
    (turns \<noteq> [] \<longrightarrow> ndebug env \<longrightarrow> run_call env service (CallRun loop worker turns) s = Some (concat (map (turn_gets loop) turns), no_ctx))"
proof -
  let ?in = "ctx_worker_enter loop worker"
  have out: "ctx_worker_leave ((?in s)\<lparr>t_queue := None\<rparr>) = no_ctx" for s by (simp add: ctx_worker_enter_def ctx_worker_leave_def no_ctx_def)
  have run: "run_turns env service turns r = Some (concat (map (turn_gets loop) turns), r)" if "t_queue r = None" "ntt_ts_loop r = Some loop" for r
    by (rule run_turns_gets [OF assms that])
  have "run_call env service (CallRun loop worker turns) no_ctx = Some (concat (map (turn_gets loop) turns), no_ctx)"
    using run [of "?in no_ctx"] out [of no_ctx] by (simp add: ctx_worker_enter_def no_ctx_def)
  moreover have "run_call env service (CallRun loop worker turns) s = None" if "t_queue s = Some queue" "turns \<noteq> []" "\<not> ndebug env"
    using that by (cases turns) (auto simp: ctx_worker_enter_def queue_enter_def ntt_assert_def)
  moreover have "run_call env service (CallRun loop worker turns) s = Some (concat (map (turn_gets loop) turns), no_ctx)" if "turns \<noteq> []" "ndebug env"
  proof -
    have "run_turns env service turns (?in s) = run_turns env service turns ((?in s)\<lparr>t_queue := None\<rparr>)"
      using that by (cases turns) (auto simp: queue_enter_def ntt_assert_def)
    also have "\<dots> = Some (concat (map (turn_gets loop) turns), (?in s)\<lparr>t_queue := None\<rparr>)"
      by (rule run) (simp_all add: ctx_worker_enter_def)
    finally show ?thesis using out [of s] by simp
  qed
  ultimately show ?thesis by blast
qed

text \<open>A queue with timers, then the local queue of the worker, which has no timer service.\<close>

theorem thread_context_witness:
  "run_call \<lparr>ndebug = False, can_alloc = (\<lambda>_. True)\<rparr> (\<lambda>q. q = 1) (CallRun 9 5 [(1, [[CallWakeup, CallCreate], [CallTimers 1 NTT_TASK_RUN]]), (2, [[CallSelf]])]) no_ctx =
    Some ([Armed 1, CreatedIn 9, RanTimers 1, GotSelf (Some 2)], no_ctx)"
  by (subst thread_context [THEN conjunct1]) (simp_all add: turn_ok_def turn_gets_def)

end
