(* ===== verification/Spec2Isabelle.thy ===== *)
theory Spec2Isabelle
  imports Timer_Heap_Props Task_List Queue_Heap_Props Event_Props Queue_Props Timer_End_Props Loop_Props Combine_Turns Reader_Props Loop_End Clock Worker_Log Task_Cpp Thread_Context
begin

text \<open>
  A verification of ntt, an event loop library in C: serial task queues that a pool of workers runs,
  timers, and events of file descriptors. Paths are relative to the repository.

  \<^bold>\<open>The program.\<close> A loop owns two slabs of objects that are addressed by an index and a generation, one for
  queues and one for events, a combine (the list of the queues that have tasks), an epoll instance and a timer
  service. A queue is a list of tasks; a push into an empty queue hands the queue to the combine, a worker
  takes it from there and runs its tasks one after the other. Each queue has a heap of timers, which only its own context
  touches; the earliest deadline is registered with the timer service, which keeps a heap of registrations and a
  timer descriptor and wakes a queue by pushing a task that drains its timers. An event delivers the
  readiness of a descriptor to callbacks, at most one per side at a time, in a queue or in place.

  \<^bold>\<open>Theories.\<close>
  \<^item> \<open>Ntt_Prelude\<close>: machine integers and arrays, \<open>ntt_assert\<close>, \<open>ntt_die\<close> and the allocator as
    parts of an \<open>env\<close> (\<open>src/src/malloc.c\<close>, \<open>die.c\<close>); facts on words. \<open>None\<close> is an abort, a failed assertion or an
    access that C leaves undefined. \<open>Binary_Heap\<close>: heaps in arrays over a locale of orders.
  \<^item> \<open>Ntt_Task\<close>, \<open>Task_List\<close>: nodes, tasks and the circular lists (\<open>node.h\<close>, \<open>task.h\<close>, \<open>list.h\<close>, \<open>task_list.h\<close>) in
    a memory of nodes; the lists are interpreted as queues in order of insertion.
    \<open>Task_Life\<close> (\<open>task.c\<close>, \<open>malloc.c\<close>) has the creation, the running and the destruction of tasks in a memory of task nodes.
  \<^item> \<open>Timer_Heap\<close> (\<open>timer_heap.h\<close>, \<open>timer_heap.c\<close>): every routine at the level of words. \<open>Timer_Heap_Inv\<close> and
    \<open>Timer_Heap_Ops\<close> give the invariant and what each routine does, \<open>Timer_Heap_Spec\<close> the abstract map of armed
    timers and the refinement, \<open>Timer_Heap_Props\<close> the properties.
  \<^item> \<open>Slab\<close> (\<open>slab.h\<close>, \<open>slab.c\<close>), with \<open>Slab_Inv\<close> and \<open>Slab_Props\<close>: index arithmetic in 32 bits, generations and the free
    list; the slab is interpreted as a store of reusable handles.
  \<^item> \<open>Queue_Heap\<close> (\<open>queue_heap.h\<close>, \<open>queue_heap.c\<close>), with \<open>Queue_Heap_Inv\<close> and \<open>Queue_Heap_Props\<close>: the heap of
    registrations, whose entries are asked of the slab whether they stand.
  \<^item> \<open>Event\<close> (\<open>event.h\<close>, \<open>event.c\<close>): a slot of the event slab with every call and task that is in flight on it, one
    atomic access per step. \<open>Event_Inv\<close> has the references and the ownership of the sides, \<open>Event_Log\<close> what has been
    called and given back, \<open>Event_Live\<close> that a cancelled event ends, \<open>Event_Props\<close> the properties.
  \<^item> \<open>Queue\<close> (\<open>queue.h\<close>, \<open>queue.c\<close>): a slot of the queue slab with every push and every worker on it, one section
    under the lock, atomic access or callback per step; \<open>Queue_Inv\<close>, \<open>Queue_Live\<close> and \<open>Queue_Props\<close> in the same way.
    \<open>Draining\<close> is the locale of systems that run out of steps, interpreted on both, on the loop and on the readers.
  \<^item> \<open>Timer_Service\<close> (\<open>timer_service.h\<close>, \<open>timer_service.c\<close>, the timers of \<open>queue.c\<close>, \<open>timer.c\<close>): the calls, cut where other
    threads can come in between. \<open>Timer_Machine\<close> interleaves them for all queues of a loop; \<open>Timer_Effects\<close> and
    \<open>Timer_Queue_Effects\<close> say what each part does, \<open>Timer_Machine_Inv\<close> is the invariant, \<open>Timer_Calls\<close> what follows for
    calls that run alone, \<open>Timer_Props\<close> the properties. \<open>Timer_End\<close> and \<open>Timer_End_Props\<close> show
    that no registration outlives its queue, so that the service ends cleanly.
  \<^item> \<open>Loop\<close> (\<open>worker.h\<close>, \<open>worker.c\<close>, \<open>loop.h\<close>, \<open>loop.c\<close>): the threads of the workers, the references and the local queue of
    each, the counting of work, the release of the workers when the last work is dropped, and barriers. \<open>Loop_Inv\<close> is the
    invariant, \<open>Loop_Step\<close> and \<open>Loop_Acts\<close> show that every step is defined and keeps it, \<open>Loop_Live\<close> that a loop ends (an
    interpretation of \<open>draining\<close>), \<open>Loop_Props\<close> the properties.
  \<^item> \<open>Combine\<close> (\<open>combine.h\<close>, \<open>combine.c\<close>, \<open>ntt_loop_worker_svc\<close>): the list of the queues that have tasks, and the workers that
    sleep when it is empty, each of which reads the event descriptor itself when it is told of it. \<open>Combine_Props\<close> has the invariant and the properties, \<open>Combine_Turns\<close> running with limits.
  \<^item> \<open>Reader\<close> (\<open>reader.h\<close>, \<open>reader.c\<close>): a reader as a client of an event; its steps are those of the event and of the handler. \<open>Reader_Inv\<close>
    is the invariant on top of the one of the events, \<open>Reader_Live\<close> the end of a reader, \<open>Reader_Props\<close> the properties.
  \<^item> \<open>Signal\<close> (\<open>signal.h\<close>, \<open>signal.c\<close>): the three signals on a record of the operating system, and the names of signals;
    \<open>Signal_Machine\<close> interleaves the steps of handlers on other threads with the halves of setting up and giving back, \<open>Signal_Props\<close> has the properties.
  \<^item> \<open>System\<close>: the workers of a loop, all its queues and the combine in one machine, whose steps are those of the parts; \<open>System_Props\<close> shows
    that the parts behave as on their own, and that a loop is destroyed (\<open>ntt_loop_destroy\<close>) with every queue gone. \<open>Schedules\<close> is the
    locale of actions carried out one after the other, which the machines interpret for their examples.
  \<^item> \<open>Process\<close> (\<open>malloc.c\<close>, the wrappers of \<open>loop.c\<close> that abort): the memory, descriptors, locks and threads of a process as a record, with the answers of
    the system as a parameter; a locale \<open>resources\<close> of what is taken and given back one by one, interpreted on threads and on memory.
    \<open>Loop_Boot\<close> is the start and the end of a loop on it (\<open>ntt_loop_run\<close>, \<open>ntt_loop_destroy\<close>, \<open>ntt_timer_service_init\<close>), \<open>Loop_Boot_Inv\<close> says what each part takes, \<open>Loop_Boot_Props\<close> has
    the properties of the start, and that it refines the one of \<open>System\<close>; \<open>Loop_Resources\<close> has the operations that take and give back in between and what the rest of the
    process does, and shows that all is given back; \<open>Loop_End\<close> puts the ends of the parts together.
  \<^item> \<open>Clock\<close> (\<open>ntt_now_ns\<close>, \<open>ntt_self_wakeup_after\<close>): times in seconds and nanoseconds and their sum in 64 bits. \<open>Worker_Log\<close> (\<open>log.c\<close>, the keys of \<open>worker.c\<close>): the log of
    all threads, character by character. \<open>Thread_Context\<close>: the current queue, loop and worker of a thread and the calls that depend on
    them. \<open>Task_Cpp\<close> (\<open>task.hpp\<close>): C++ functors in the payloads of tasks.

  \<^bold>\<open>What is shown.\<close> Of the data structures: what every operation does on every branch, that it returns, and
  where the arithmetic of the code wraps around. Of the events and queues: over all interleavings, that
  references are counted exactly, that a queue runs one task at a time in the order of the pushes, that a side of an
  event has one owner and no notification is lost, that a cancellation is reported once and at the end, that no assertion
  fails, and that both come to rest. Of the timers: over all interleavings an armed timer is never forgotten. Of the
  workers: a loop runs as long as it has work, ends when it has none, a barrier waits for every worker, and no queue is left
  in the combine with all workers asleep. Of all of them together: no queue outlives its loop, and no registration its queue. Of the readers: the callbacks are those of what was read, then one report of the end. Of the signals: each is counted by its descriptor, and what a handler that is overtaken by the giving back does.
  Of the tasks: their memory is well-formed and each is dropped and freed once, as is a functor in it. Of the loop as a whole: what it takes from the operating
  system when it starts, and that this and all it takes later is given back when it ends; the arrays of the timers of a queue and the memory of tasks are counted to the rest of the process there. Of the log: its lines are whole.

  \<^bold>\<open>Bounds.\<close> The timer heap has less than \<open>2 ^ 30\<close> entries (\<open>TH_MAX\<close>), as the heap of registrations (\<open>QH_MAX\<close>); above them the
  capacity arithmetic wraps around, which is stated separately. The slots of a slab span less than \<open>2 ^ 32\<close> bytes. An
  event has less than \<open>2 ^ 32 - 2\<close> references, a queue less than \<open>2 ^ 64 - 2\<close>, and a slot is not retired more often
  than \<open>2 ^ 32\<close> times. The counter of a signal stays below \<open>2 ^ 64 - 1\<close>. Loops without an evident measure are \<open>partial_function\<close>s, and that they return is proved.

  \<^bold>\<open>Parameters.\<close> \<open>env\<close> says whether assertions are compiled in and which allocations succeed; \<open>aligned\<close> is the aligned
  allocator of the slab, which returns disjoint blocks (\<open>alloc_ok\<close>); \<open>settime\<close> says which times \<open>timerfd_settime\<close> accepts; \<open>run\<close>
  is the callback of a timer; \<open>answers\<close> are those of the operating system, \<open>sizes\<close> those of the types, \<open>functor_type\<close> is a type of the user. User callbacks are entries of a log or points where the user may make any call.

  \<^bold>\<open>Not modelled.\<close> Memory orderings: steps are sequentially consistent, sections under a lock are one step. Waiting for the
  descriptors and reading them: a dispatch or a pass of the service may come at any time. The machine of the timers and the one of the workers and queues are not
  one machine: \<open>one_loop\<close> says what they share at the end of a loop. Constructors of C++ functors do not throw. Tests,
  benchmarks and examples are not part of the program, nor is what the sources comment out (the second half of \<open>loop.c\<close>).
\<close>

end
